(* ===== verification/DHD_Prelude.thy ===== *)
theory DHD_Prelude
  imports Main "HOL-Library.Word" "HOL-Library.Monad_Syntax"
begin

text \<open>
  The shared base of the development: the machine integers of the driver
  (\<open>include/typedefs.h\<close>), the result codes of \<open>include/bcmutils.h\<close>, the reading of
  \<open>ASSERT\<close>, and the generic facts on words, lists and options that the components use.

  Conventions of the whole development:
  \<^item> a C function that updates an object takes the object and returns it updated;
  \<^item> an outcome of type \<open>'a option\<close> is \<open>None\<close> where the C code has no defined outcome: an
    \<open>ASSERT\<close> is violated, a NULL or freed pointer is dereferenced, an array is indexed out
    of range, or a loop does not end. Every component proves that its operations return
    \<open>Some\<close> on well-formed states;
  \<^item> \<open>uint8\<close>, \<open>uint16\<close> and \<open>uint32\<close> are words of that width, so arithmetic wraps as in C.
\<close>

section \<open>Machine integers\<close>

type_synonym u8 = "8 word"
type_synonym u16 = "16 word"
type_synonym u32 = "32 word"

section \<open>Result codes\<close>

text \<open>The \<open>BCME_*\<close> codes are plain C \<open>int\<close> values (\<open>include/bcmutils.h\<close>).\<close>

abbreviation (input) BCME_OK :: int where "BCME_OK \<equiv> 0"
abbreviation (input) BCME_ERROR :: int where "BCME_ERROR \<equiv> -1"
abbreviation (input) BCME_BADARG :: int where "BCME_BADARG \<equiv> -2"
abbreviation (input) BCME_BADOPTION :: int where "BCME_BADOPTION \<equiv> -3"
abbreviation (input) BCME_BUFTOOSHORT :: int where "BCME_BUFTOOSHORT \<equiv> -14"
abbreviation (input) BCME_BUFTOOLONG :: int where "BCME_BUFTOOLONG \<equiv> -15"
abbreviation (input) BCME_UNSUPPORTED :: int where "BCME_UNSUPPORTED \<equiv> -23"
abbreviation (input) BCME_BADLEN :: int where "BCME_BADLEN \<equiv> -24"
abbreviation (input) BCME_NOTREADY :: int where "BCME_NOTREADY \<equiv> -25"
abbreviation (input) BCME_EPERM :: int where "BCME_EPERM \<equiv> -26"
abbreviation (input) BCME_NOMEM :: int where "BCME_NOMEM \<equiv> -27"
abbreviation (input) BCME_NOTFOUND :: int where "BCME_NOTFOUND \<equiv> -30"
abbreviation (input) BCME_NORESOURCE :: int where "BCME_NORESOURCE \<equiv> -22"

section \<open>Assertions and guarded access\<close>

definition ASSERT :: "bool \<Rightarrow> unit option" where
  "ASSERT b = (if b then Some () else None)"

lemma ASSERT_True [simp]: "ASSERT True = Some ()"
  by (simp add: ASSERT_def)

lemma ASSERT_False [simp]: "ASSERT False = None"
  by (simp add: ASSERT_def)

lemma ASSERT_Some_iff [simp]: "ASSERT b = Some u \<longleftrightarrow> b"
  by (simp add: ASSERT_def)

text \<open>An array read or write with the bound check the C code leaves to the programmer.\<close>

definition arr_get :: "'a list \<Rightarrow> nat \<Rightarrow> 'a option" where
  "arr_get xs i = (if i < length xs then Some (xs ! i) else None)"

definition arr_set :: "'a list \<Rightarrow> nat \<Rightarrow> 'a \<Rightarrow> 'a list option" where
  "arr_set xs i v = (if i < length xs then Some (xs[i := v]) else None)"

lemma arr_get_Some [simp]: "i < length xs \<Longrightarrow> arr_get xs i = Some (xs ! i)"
  by (simp add: arr_get_def)

lemma arr_set_Some [simp]: "i < length xs \<Longrightarrow> arr_set xs i v = Some (xs[i := v])"
  by (simp add: arr_set_def)

lemma arr_get_eq_Some: "arr_get xs i = Some v \<longleftrightarrow> i < length xs \<and> xs ! i = v"
  by (auto simp: arr_get_def)

lemma arr_set_eq_Some: "arr_set xs i v = Some ys \<longleftrightarrow> i < length xs \<and> ys = xs[i := v]"
  by (auto simp: arr_set_def)

section \<open>Words\<close>

named_theorems word_count "counting with words that stay in range"

lemma unat_inc [word_count]:
  fixes w :: "'a::len word"
  assumes "unat w < k" and "k < 2 ^ LENGTH('a)"
  shows "unat (w + 1) = Suc (unat w)"
  using assms by (simp add: unat_word_ariths)

lemma unat_dec [word_count]:
  fixes w :: "'a::len word"
  assumes "0 < unat w"
  shows "unat (w - 1) = unat w - 1"
proof -
  have "w \<noteq> 0" using assms by auto
  then show ?thesis by (simp add: unat_minus_one)
qed

lemma unat_add_bounded [word_count]:
  fixes v w :: "'a::len word"
  assumes "unat v + unat w < 2 ^ LENGTH('a)"
  shows "unat (v + w) = unat v + unat w"
  using assms by (simp add: unat_word_ariths)

lemma unat_sub_of_nat [word_count]:
  fixes w :: "'a::len word"
  assumes "k \<le> unat w"
  shows "unat (w - of_nat k) = unat w - k"
proof -
  have "k < 2 ^ LENGTH('a)" using assms unsigned_less by (rule le_less_trans)
  then have "unat (of_nat k :: 'a word) = k" by (simp add: unat_of_nat take_bit_nat_eq_self_iff)
  with assms show ?thesis by (simp add: unat_sub word_le_nat_alt)
qed

lemma unat_u8_less: "unat (w :: u8) < 256"
  using unsigned_less [of w, where 'a = nat] by simp

lemma unat_of_nat16: "n < 65536 \<Longrightarrow> unat (of_nat n :: u16) = n"
  by (simp add: unat_of_nat take_bit_nat_eq_self)

lemma unat_of_nat32: "n < 2 ^ 32 \<Longrightarrow> unat (of_nat n :: u32) = n"
  by (simp add: unat_of_nat take_bit_nat_eq_self)

lemma unat_u16_less: "unat (w :: u16) < 65536"
  using unsigned_less [of w, where 'a = nat] by simp

lemma unat_u32_less: "unat (w :: u32) < 4294967296"
  using unsigned_less [of w, where 'a = nat] by simp

text \<open>Comparing a C \<open>int\<close> index with an unsigned field.\<close>

lemma int_less_uint [simp]: "int i < uint w \<longleftrightarrow> i < unat w"
  by (metis of_nat_less_iff uint_nat)

lemma uint_less_int [simp]: "uint w < int i \<longleftrightarrow> unat w < i"
  by (metis of_nat_less_iff uint_nat)

lemma int_le_uint [simp]: "int i \<le> uint w \<longleftrightarrow> i \<le> unat w"
  by (metis of_nat_le_iff uint_nat)

lemma uint_le_int [simp]: "uint w \<le> int i \<longleftrightarrow> unat w \<le> i"
  by (metis of_nat_le_iff uint_nat)

lemma uint_less_add: "uint v < uint a + uint b \<longleftrightarrow> unat v < unat a + unat b"
  unfolding uint_nat by linarith

lemma uint_add_less: "uint a + uint b < int n \<longleftrightarrow> unat a + unat b < n"
  unfolding uint_nat by linarith

section \<open>Lists of lists\<close>

lemma nth_length_le_sum: "i < length xss \<Longrightarrow> length (xss ! i) \<le> sum_list (map length xss)"
  by (rule member_le_sum_list) auto

lemma sum_length_update [simp]:
  assumes "i < length xss"
  shows "sum_list (map length (xss[i := ys])) + length (xss ! i)
       = sum_list (map length xss) + length ys"
  using assms nth_length_le_sum [OF assms] by (simp add: map_update sum_list_update)

lemma last_filter: "xs \<noteq> [] \<Longrightarrow> P (last xs) \<Longrightarrow> last (filter P xs) = last xs"
  by (cases xs rule: rev_cases) auto

lemma concat_all_Nil: "(\<forall>i < length xss. xss ! i = []) \<Longrightarrow> concat xss = []"
  by (auto simp: in_set_conv_nth)

end
