(* ===== verification/Byte_Buf.thy ===== *)
theory Byte_Buf
  imports DHD_Prelude
begin

text \<open>
  Byte buffers: a block of memory is a list of bytes and a pointer into it an offset. Reads and
  writes outside the block have no outcome. Multi-byte fields are little endian on the wire and on
  the host (\<open>include/bcmendian.h\<close> without \<open>IL_BIGENDIAN\<close>).
\<close>

unbundle bit_operations_syntax

type_synonym bytes = "u8 list"

definition mem_copy_from :: "bytes \<Rightarrow> nat \<Rightarrow> nat \<Rightarrow> bytes option" where
  "mem_copy_from buf off n = (if off + n \<le> length buf then Some (take n (drop off buf)) else None)"

definition mem_copy_to :: "bytes \<Rightarrow> nat \<Rightarrow> bytes \<Rightarrow> bytes option" where
  "mem_copy_to buf off src =
     (if off + length src \<le> length buf then Some (take off buf @ src @ drop (off + length src) buf) else None)"

definition le16 :: "u16 \<Rightarrow> bytes" where
  "le16 w = [ucast w, ucast (drop_bit 8 w)]"

definition le32 :: "u32 \<Rightarrow> bytes" where
  "le32 w = [ucast w, ucast (drop_bit 8 w), ucast (drop_bit 16 w), ucast (drop_bit 24 w)]"

definition ltoh16_ua :: "bytes \<Rightarrow> nat \<Rightarrow> u16 option" where
  "ltoh16_ua buf off = do {
     lo \<leftarrow> arr_get buf off;
     hi \<leftarrow> arr_get buf (Suc off);
     Some (ucast lo OR push_bit 8 (ucast hi))
   }"

definition htol16_ua_store :: "u16 \<Rightarrow> bytes \<Rightarrow> nat \<Rightarrow> bytes option" where
  "htol16_ua_store w buf off = mem_copy_to buf off (le16 w)"

definition htol32_ua_store :: "u32 \<Rightarrow> bytes \<Rightarrow> nat \<Rightarrow> bytes option" where
  "htol32_ua_store w buf off = mem_copy_to buf off (le32 w)"

lemma length_le16 [simp]: "length (le16 w) = 2"
  by (simp add: le16_def)

lemma length_le32 [simp]: "length (le32 w) = 4"
  by (simp add: le32_def)

lemma le16_roundtrip: "ucast (ucast w :: u8) OR push_bit 8 (ucast (ucast (drop_bit 8 w) :: u8)) = (w :: u16)"
  by (rule bit_word_eqI) (auto simp: bit_simps)

lemma mem_copy_to_mid [simp]: "mem_copy_to (pre @ old @ post) (length pre) src = Some (pre @ src @ post)"
  if "length old = length src"
  using that by (simp add: mem_copy_to_def)

lemma mem_copy_from_mid [simp]: "mem_copy_from (pre @ src @ post) (length pre) (length src) = Some src"
  by (simp add: mem_copy_from_def)

lemma ltoh16_ua_mid [simp]: "ltoh16_ua (pre @ le16 w @ post) (length pre) = Some w"
  by (simp add: ltoh16_ua_def le16_def nth_append le16_roundtrip)

lemma ltoh16_ua_total: "Suc off < length buf \<Longrightarrow> \<exists>w. ltoh16_ua buf off = Some w"
  by (simp add: ltoh16_ua_def)

lemma ltoh16_ua_None: "length buf \<le> Suc off \<Longrightarrow> ltoh16_ua buf off = None"
  by (auto simp: ltoh16_ua_def arr_get_def)

end
