(* ===== verification/Bcm_Crc.thy ===== *)
theory Bcm_Crc
  imports Byte_Buf
begin

text \<open>
  The cyclic redundancy checks of \<open>shared/bcmutils.c\<close>: \<open>hndcrc8\<close>, \<open>hndcrc16\<close> and \<open>hndcrc32\<close> with their tables,
  proved equal to the bit-by-bit division by the polynomials of the comments, and the residues
  that mark a message followed by its complemented checksum as valid.
\<close>

unbundle bit_operations_syntax

section \<open>Tables\<close>

definition crc8_table :: "u8 list" where
  "crc8_table = [
     0x00, 0xF7, 0xB9, 0x4E, 0x25, 0xD2, 0x9C, 0x6B,
     0x4A, 0xBD, 0xF3, 0x04, 0x6F, 0x98, 0xD6, 0x21,
     0x94, 0x63, 0x2D, 0xDA, 0xB1, 0x46, 0x08, 0xFF,
     0xDE, 0x29, 0x67, 0x90, 0xFB, 0x0C, 0x42, 0xB5,
     0x7F, 0x88, 0xC6, 0x31, 0x5A, 0xAD, 0xE3, 0x14,
     0x35, 0xC2, 0x8C, 0x7B, 0x10, 0xE7, 0xA9, 0x5E,
     0xEB, 0x1C, 0x52, 0xA5, 0xCE, 0x39, 0x77, 0x80,
     0xA1, 0x56, 0x18, 0xEF, 0x84, 0x73, 0x3D, 0xCA,
     0xFE, 0x09, 0x47, 0xB0, 0xDB, 0x2C, 0x62, 0x95,
     0xB4, 0x43, 0x0D, 0xFA, 0x91, 0x66, 0x28, 0xDF,
     0x6A, 0x9D, 0xD3, 0x24, 0x4F, 0xB8, 0xF6, 0x01,
     0x20, 0xD7, 0x99, 0x6E, 0x05, 0xF2, 0xBC, 0x4B,
     0x81, 0x76, 0x38, 0xCF, 0xA4, 0x53, 0x1D, 0xEA,
     0xCB, 0x3C, 0x72, 0x85, 0xEE, 0x19, 0x57, 0xA0,
     0x15, 0xE2, 0xAC, 0x5B, 0x30, 0xC7, 0x89, 0x7E,
     0x5F, 0xA8, 0xE6, 0x11, 0x7A, 0x8D, 0xC3, 0x34,
     0xAB, 0x5C, 0x12, 0xE5, 0x8E, 0x79, 0x37, 0xC0,
     0xE1, 0x16, 0x58, 0xAF, 0xC4, 0x33, 0x7D, 0x8A,
     0x3F, 0xC8, 0x86, 0x71, 0x1A, 0xED, 0xA3, 0x54,
     0x75, 0x82, 0xCC, 0x3B, 0x50, 0xA7, 0xE9, 0x1E,
     0xD4, 0x23, 0x6D, 0x9A, 0xF1, 0x06, 0x48, 0xBF,
     0x9E, 0x69, 0x27, 0xD0, 0xBB, 0x4C, 0x02, 0xF5,
     0x40, 0xB7, 0xF9, 0x0E, 0x65, 0x92, 0xDC, 0x2B,
     0x0A, 0xFD, 0xB3, 0x44, 0x2F, 0xD8, 0x96, 0x61,
     0x55, 0xA2, 0xEC, 0x1B, 0x70, 0x87, 0xC9, 0x3E,
     0x1F, 0xE8, 0xA6, 0x51, 0x3A, 0xCD, 0x83, 0x74,
     0xC1, 0x36, 0x78, 0x8F, 0xE4, 0x13, 0x5D, 0xAA,
     0x8B, 0x7C, 0x32, 0xC5, 0xAE, 0x59, 0x17, 0xE0,
     0x2A, 0xDD, 0x93, 0x64, 0x0F, 0xF8, 0xB6, 0x41,
     0x60, 0x97, 0xD9, 0x2E, 0x45, 0xB2, 0xFC, 0x0B,
     0xBE, 0x49, 0x07, 0xF0, 0x9B, 0x6C, 0x22, 0xD5,
     0xF4, 0x03, 0x4D, 0xBA, 0xD1, 0x26, 0x68, 0x9F]"

definition crc16_table :: "u16 list" where
  "crc16_table = [
     0x0000, 0x1189, 0x2312, 0x329B, 0x4624, 0x57AD, 0x6536, 0x74BF,
     0x8C48, 0x9DC1, 0xAF5A, 0xBED3, 0xCA6C, 0xDBE5, 0xE97E, 0xF8F7,
     0x1081, 0x0108, 0x3393, 0x221A, 0x56A5, 0x472C, 0x75B7, 0x643E,
     0x9CC9, 0x8D40, 0xBFDB, 0xAE52, 0xDAED, 0xCB64, 0xF9FF, 0xE876,
     0x2102, 0x308B, 0x0210, 0x1399, 0x6726, 0x76AF, 0x4434, 0x55BD,
     0xAD4A, 0xBCC3, 0x8E58, 0x9FD1, 0xEB6E, 0xFAE7, 0xC87C, 0xD9F5,
     0x3183, 0x200A, 0x1291, 0x0318, 0x77A7, 0x662E, 0x54B5, 0x453C,
     0xBDCB, 0xAC42, 0x9ED9, 0x8F50, 0xFBEF, 0xEA66, 0xD8FD, 0xC974,
     0x4204, 0x538D, 0x6116, 0x709F, 0x0420, 0x15A9, 0x2732, 0x36BB,
     0xCE4C, 0xDFC5, 0xED5E, 0xFCD7, 0x8868, 0x99E1, 0xAB7A, 0xBAF3,
     0x5285, 0x430C, 0x7197, 0x601E, 0x14A1, 0x0528, 0x37B3, 0x263A,
     0xDECD, 0xCF44, 0xFDDF, 0xEC56, 0x98E9, 0x8960, 0xBBFB, 0xAA72,
     0x6306, 0x728F, 0x4014, 0x519D, 0x2522, 0x34AB, 0x0630, 0x17B9,
     0xEF4E, 0xFEC7, 0xCC5C, 0xDDD5, 0xA96A, 0xB8E3, 0x8A78, 0x9BF1,
     0x7387, 0x620E, 0x5095, 0x411C, 0x35A3, 0x242A, 0x16B1, 0x0738,
     0xFFCF, 0xEE46, 0xDCDD, 0xCD54, 0xB9EB, 0xA862, 0x9AF9, 0x8B70,
     0x8408, 0x9581, 0xA71A, 0xB693, 0xC22C, 0xD3A5, 0xE13E, 0xF0B7,
     0x0840, 0x19C9, 0x2B52, 0x3ADB, 0x4E64, 0x5FED, 0x6D76, 0x7CFF,
     0x9489, 0x8500, 0xB79B, 0xA612, 0xD2AD, 0xC324, 0xF1BF, 0xE036,
     0x18C1, 0x0948, 0x3BD3, 0x2A5A, 0x5EE5, 0x4F6C, 0x7DF7, 0x6C7E,
     0xA50A, 0xB483, 0x8618, 0x9791, 0xE32E, 0xF2A7, 0xC03C, 0xD1B5,
     0x2942, 0x38CB, 0x0A50, 0x1BD9, 0x6F66, 0x7EEF, 0x4C74, 0x5DFD,
     0xB58B, 0xA402, 0x9699, 0x8710, 0xF3AF, 0xE226, 0xD0BD, 0xC134,
     0x39C3, 0x284A, 0x1AD1, 0x0B58, 0x7FE7, 0x6E6E, 0x5CF5, 0x4D7C,
     0xC60C, 0xD785, 0xE51E, 0xF497, 0x8028, 0x91A1, 0xA33A, 0xB2B3,
     0x4A44, 0x5BCD, 0x6956, 0x78DF, 0x0C60, 0x1DE9, 0x2F72, 0x3EFB,
     0xD68D, 0xC704, 0xF59F, 0xE416, 0x90A9, 0x8120, 0xB3BB, 0xA232,
     0x5AC5, 0x4B4C, 0x79D7, 0x685E, 0x1CE1, 0x0D68, 0x3FF3, 0x2E7A,
     0xE70E, 0xF687, 0xC41C, 0xD595, 0xA12A, 0xB0A3, 0x8238, 0x93B1,
     0x6B46, 0x7ACF, 0x4854, 0x59DD, 0x2D62, 0x3CEB, 0x0E70, 0x1FF9,
     0xF78F, 0xE606, 0xD49D, 0xC514, 0xB1AB, 0xA022, 0x92B9, 0x8330,
     0x7BC7, 0x6A4E, 0x58D5, 0x495C, 0x3DE3, 0x2C6A, 0x1EF1, 0x0F78]"

definition crc32_table :: "u32 list" where
  "crc32_table = [
     0x00000000, 0x77073096, 0xEE0E612C, 0x990951BA, 0x076DC419, 0x706AF48F, 0xE963A535, 0x9E6495A3,
     0x0EDB8832, 0x79DCB8A4, 0xE0D5E91E, 0x97D2D988, 0x09B64C2B, 0x7EB17CBD, 0xE7B82D07, 0x90BF1D91,
     0x1DB71064, 0x6AB020F2, 0xF3B97148, 0x84BE41DE, 0x1ADAD47D, 0x6DDDE4EB, 0xF4D4B551, 0x83D385C7,
     0x136C9856, 0x646BA8C0, 0xFD62F97A, 0x8A65C9EC, 0x14015C4F, 0x63066CD9, 0xFA0F3D63, 0x8D080DF5,
     0x3B6E20C8, 0x4C69105E, 0xD56041E4, 0xA2677172, 0x3C03E4D1, 0x4B04D447, 0xD20D85FD, 0xA50AB56B,
     0x35B5A8FA, 0x42B2986C, 0xDBBBC9D6, 0xACBCF940, 0x32D86CE3, 0x45DF5C75, 0xDCD60DCF, 0xABD13D59,
     0x26D930AC, 0x51DE003A, 0xC8D75180, 0xBFD06116, 0x21B4F4B5, 0x56B3C423, 0xCFBA9599, 0xB8BDA50F,
     0x2802B89E, 0x5F058808, 0xC60CD9B2, 0xB10BE924, 0x2F6F7C87, 0x58684C11, 0xC1611DAB, 0xB6662D3D,
     0x76DC4190, 0x01DB7106, 0x98D220BC, 0xEFD5102A, 0x71B18589, 0x06B6B51F, 0x9FBFE4A5, 0xE8B8D433,
     0x7807C9A2, 0x0F00F934, 0x9609A88E, 0xE10E9818, 0x7F6A0DBB, 0x086D3D2D, 0x91646C97, 0xE6635C01,
     0x6B6B51F4, 0x1C6C6162, 0x856530D8, 0xF262004E, 0x6C0695ED, 0x1B01A57B, 0x8208F4C1, 0xF50FC457,
     0x65B0D9C6, 0x12B7E950, 0x8BBEB8EA, 0xFCB9887C, 0x62DD1DDF, 0x15DA2D49, 0x8CD37CF3, 0xFBD44C65,
     0x4DB26158, 0x3AB551CE, 0xA3BC0074, 0xD4BB30E2, 0x4ADFA541, 0x3DD895D7, 0xA4D1C46D, 0xD3D6F4FB,
     0x4369E96A, 0x346ED9FC, 0xAD678846, 0xDA60B8D0, 0x44042D73, 0x33031DE5, 0xAA0A4C5F, 0xDD0D7CC9,
     0x5005713C, 0x270241AA, 0xBE0B1010, 0xC90C2086, 0x5768B525, 0x206F85B3, 0xB966D409, 0xCE61E49F,
     0x5EDEF90E, 0x29D9C998, 0xB0D09822, 0xC7D7A8B4, 0x59B33D17, 0x2EB40D81, 0xB7BD5C3B, 0xC0BA6CAD,
     0xEDB88320, 0x9ABFB3B6, 0x03B6E20C, 0x74B1D29A, 0xEAD54739, 0x9DD277AF, 0x04DB2615, 0x73DC1683,
     0xE3630B12, 0x94643B84, 0x0D6D6A3E, 0x7A6A5AA8, 0xE40ECF0B, 0x9309FF9D, 0x0A00AE27, 0x7D079EB1,
     0xF00F9344, 0x8708A3D2, 0x1E01F268, 0x6906C2FE, 0xF762575D, 0x806567CB, 0x196C3671, 0x6E6B06E7,
     0xFED41B76, 0x89D32BE0, 0x10DA7A5A, 0x67DD4ACC, 0xF9B9DF6F, 0x8EBEEFF9, 0x17B7BE43, 0x60B08ED5,
     0xD6D6A3E8, 0xA1D1937E, 0x38D8C2C4, 0x4FDFF252, 0xD1BB67F1, 0xA6BC5767, 0x3FB506DD, 0x48B2364B,
     0xD80D2BDA, 0xAF0A1B4C, 0x36034AF6, 0x41047A60, 0xDF60EFC3, 0xA867DF55, 0x316E8EEF, 0x4669BE79,
     0xCB61B38C, 0xBC66831A, 0x256FD2A0, 0x5268E236, 0xCC0C7795, 0xBB0B4703, 0x220216B9, 0x5505262F,
     0xC5BA3BBE, 0xB2BD0B28, 0x2BB45A92, 0x5CB36A04, 0xC2D7FFA7, 0xB5D0CF31, 0x2CD99E8B, 0x5BDEAE1D,
     0x9B64C2B0, 0xEC63F226, 0x756AA39C, 0x026D930A, 0x9C0906A9, 0xEB0E363F, 0x72076785, 0x05005713,
     0x95BF4A82, 0xE2B87A14, 0x7BB12BAE, 0x0CB61B38, 0x92D28E9B, 0xE5D5BE0D, 0x7CDCEFB7, 0x0BDBDF21,
     0x86D3D2D4, 0xF1D4E242, 0x68DDB3F8, 0x1FDA836E, 0x81BE16CD, 0xF6B9265B, 0x6FB077E1, 0x18B74777,
     0x88085AE6, 0xFF0F6A70, 0x66063BCA, 0x11010B5C, 0x8F659EFF, 0xF862AE69, 0x616BFFD3, 0x166CCF45,
     0xA00AE278, 0xD70DD2EE, 0x4E048354, 0x3903B3C2, 0xA7672661, 0xD06016F7, 0x4969474D, 0x3E6E77DB,
     0xAED16A4A, 0xD9D65ADC, 0x40DF0B66, 0x37D83BF0, 0xA9BCAE53, 0xDEBB9EC5, 0x47B2CF7F, 0x30B5FFE9,
     0xBDBDF21C, 0xCABAC28A, 0x53B39330, 0x24B4A3A6, 0xBAD03605, 0xCDD70693, 0x54DE5729, 0x23D967BF,
     0xB3667A2E, 0xC4614AB8, 0x5D681B02, 0x2A6F2B94, 0xB40BBE37, 0xC30C8EA1, 0x5A05DF1B, 0x2D02EF8D]"

section \<open>The loops\<close>

text \<open>\<open>CRC_INNER_LOOP\<close>; the 8-bit check has no shift.\<close>

definition crc8_inner :: "u8 \<Rightarrow> u8 \<Rightarrow> u8" where
  "crc8_inner c x = crc8_table ! unat ((c XOR x) AND 0xFF)"

definition crc16_inner :: "u16 \<Rightarrow> u8 \<Rightarrow> u16" where
  "crc16_inner c x = drop_bit 8 c XOR crc16_table ! unat ((c XOR ucast x) AND 0xFF)"

definition crc32_inner :: "u32 \<Rightarrow> u8 \<Rightarrow> u32" where
  "crc32_inner c x = drop_bit 8 c XOR crc32_table ! unat ((c XOR ucast x) AND 0xFF)"

text \<open>The bytes are read at \<open>pdata\<close> of the block; \<open>nbytes\<close> of them.\<close>

fun crc_loop :: "('w \<Rightarrow> u8 \<Rightarrow> 'w) \<Rightarrow> bytes \<Rightarrow> nat \<Rightarrow> nat \<Rightarrow> 'w \<Rightarrow> 'w option" where
  "crc_loop inner buf pdata 0 crc = Some crc"
| "crc_loop inner buf pdata (Suc nbytes) crc = do { x \<leftarrow> arr_get buf pdata; crc_loop inner buf (Suc pdata) nbytes (inner crc x) }"

definition hndcrc8 :: "bytes \<Rightarrow> nat \<Rightarrow> nat \<Rightarrow> u8 \<Rightarrow> u8 option" where
  "hndcrc8 = crc_loop crc8_inner"

definition hndcrc16 :: "bytes \<Rightarrow> nat \<Rightarrow> nat \<Rightarrow> u16 \<Rightarrow> u16 option" where
  "hndcrc16 = crc_loop crc16_inner"

definition hndcrc32 :: "bytes \<Rightarrow> nat \<Rightarrow> nat \<Rightarrow> u32 \<Rightarrow> u32 option" where
  "hndcrc32 = crc_loop crc32_inner"

abbreviation (input) CRC8_INIT_VALUE :: u8 where "CRC8_INIT_VALUE \<equiv> 0xFF"
abbreviation (input) CRC8_GOOD_VALUE :: u8 where "CRC8_GOOD_VALUE \<equiv> 0x9F"
abbreviation (input) CRC16_INIT_VALUE :: u16 where "CRC16_INIT_VALUE \<equiv> 0xFFFF"
abbreviation (input) CRC16_GOOD_VALUE :: u16 where "CRC16_GOOD_VALUE \<equiv> 0xF0B8"
abbreviation (input) CRC32_INIT_VALUE :: u32 where "CRC32_INIT_VALUE \<equiv> 0xFFFFFFFF"
abbreviation (input) CRC32_GOOD_VALUE :: u32 where "CRC32_GOOD_VALUE \<equiv> 0xDEBB20E3"

section \<open>Division by the polynomial, bit by bit\<close>

text \<open>
  The remainder register holds the coefficients with the highest power in bit 0; \<open>p\<close> are the
  coefficients of the polynomial below its leading one in the same order.
\<close>

definition crc_bit :: "'a::len word \<Rightarrow> 'a word \<Rightarrow> 'a word" where
  "crc_bit p c = (if bit c 0 then drop_bit 1 c XOR p else drop_bit 1 c)"

fun crc_bits :: "nat \<Rightarrow> 'a::len word \<Rightarrow> 'a word \<Rightarrow> 'a word" where
  "crc_bits 0 p c = c"
| "crc_bits (Suc n) p c = crc_bits n p (crc_bit p c)"

definition crc_byte :: "'a::len word \<Rightarrow> 'a word \<Rightarrow> u8 \<Rightarrow> 'a word" where
  "crc_byte p c x = crc_bits 8 p (c XOR ucast x)"

lemma crc_bit_xor: "crc_bit p (a XOR b) = crc_bit p a XOR crc_bit p b"
  by (rule bit_word_eqI) (auto simp: crc_bit_def bit_simps)

lemma crc_bits_xor: "crc_bits n p (a XOR b) = crc_bits n p a XOR crc_bits n p b"
  by (induction n arbitrary: a b) (simp_all add: crc_bit_xor)

lemma crc_bits_add: "crc_bits (m + n) p c = crc_bits n p (crc_bits m p c)"
  by (induction m arbitrary: c) simp_all

text \<open>Bits above the first \<open>n\<close> only move down.\<close>

lemma crc_bits_high: "(\<And>i. i < n \<Longrightarrow> \<not> bit c i) \<Longrightarrow> crc_bits n p c = drop_bit n c"
proof (induction n arbitrary: c)
  case (Suc n)
  have "crc_bit p c = drop_bit 1 c" using Suc.prems [of 0] by (simp add: crc_bit_def)
  moreover have "crc_bits n p (drop_bit 1 c) = drop_bit n (drop_bit 1 c)"
    by (rule Suc.IH) (use Suc.prems in \<open>simp add: bit_simps\<close>)
  ultimately show ?case by simp
qed simp

text \<open>One table lookup does eight steps.\<close>

lemma crc_split: "crc_bits 8 p c = drop_bit 8 c XOR crc_bits 8 p (c AND 0xFF)"
proof -
  have "c = (c AND NOT 0xFF) XOR (c AND 0xFF)" by (rule bit_word_eqI) (auto simp: bit_simps)
  then have "crc_bits 8 p c = crc_bits 8 p (c AND NOT 0xFF) XOR crc_bits 8 p (c AND 0xFF)" by (metis crc_bits_xor)
  moreover have m: "(0xFF :: 'a word) = mask 8" by (simp add: mask_eq_exp_minus_1)
  have "crc_bits 8 p (c AND NOT 0xFF) = drop_bit 8 (c AND NOT 0xFF)" unfolding m by (rule crc_bits_high) (auto simp: bit_simps)
  moreover have "drop_bit 8 (c AND NOT 0xFF) = drop_bit 8 c" unfolding m by (rule bit_word_eqI) (auto simp: bit_simps dest: bit_imp_le_length)
  ultimately show ?thesis by simp
qed

text \<open>The entries follow from those at the powers of two.\<close>

fun doubled :: "('a::len word \<Rightarrow> 'a word) \<Rightarrow> nat \<Rightarrow> 'a word list" where
  "doubled F 0 = [F 0]"
| "doubled F (Suc k) = (let xs = doubled F k; g = F (2 ^ k) in xs @ map (\<lambda>x. g XOR x) xs)"

lemma of_nat_double: "i < 2 ^ k \<Longrightarrow> of_nat (2 ^ k + i) = (2 ^ k XOR of_nat i :: 'a::len word)"
proof -
  assume i: "i < 2 ^ k"
  have k: "\<not> bit i k" using i by (simp add: bit_iff_odd)
  have "(2 ^ k :: nat) AND i = 0"
  proof (rule bit_eqI)
    fix n
    show "bit ((2 ^ k :: nat) AND i) n = bit 0 n" using k by (auto simp: bit_simps)
  qed
  then have "(2 ^ k + i :: nat) = 2 ^ k XOR i" by (simp add: disjunctive_add_eq_xor)
  then show ?thesis by (simp add: of_nat_xor_eq)
qed

lemma doubled_eq:
  assumes "\<And>a b. F (a XOR b) = F a XOR F b"
  shows "doubled F k = map (\<lambda>i. F (of_nat i)) [0..<2 ^ k]"
proof (induction k)
  case (Suc k)
  have "[0..<2 ^ Suc k] = [0..<2 ^ k] @ map (\<lambda>i. 2 ^ k + i) [0..<2 ^ k]"
    by (rule nth_equalityI) (auto simp: nth_append)
  moreover have "F (of_nat (2 ^ k + i)) = F (2 ^ k) XOR F (of_nat i)" if "i < 2 ^ k" for i
    unfolding of_nat_double [OF that] by (rule assms)
  ultimately show ?case using Suc by (simp add: Let_def del: of_nat_add)
qed simp

lemma crc_table_by_doubling: "map (\<lambda>i. crc_bits 8 p (of_nat i)) [0..<256] = doubled (crc_bits 8 p) 8"
proof -
  have "doubled (crc_bits 8 p) 8 = map (\<lambda>i. crc_bits 8 p (of_nat i)) [0..<2 ^ 8]" by (rule doubled_eq) (rule crc_bits_xor)
  then show ?thesis by simp
qed

lemma doubled_8: "doubled F 8 = (let
    x0 = [F 0]; x1 = x0 @ map (\<lambda>x. F 1 XOR x) x0; x2 = x1 @ map (\<lambda>x. F 2 XOR x) x1; x3 = x2 @ map (\<lambda>x. F 4 XOR x) x2;
    x4 = x3 @ map (\<lambda>x. F 8 XOR x) x3; x5 = x4 @ map (\<lambda>x. F 16 XOR x) x4; x6 = x5 @ map (\<lambda>x. F 32 XOR x) x5;
    x7 = x6 @ map (\<lambda>x. F 64 XOR x) x6 in x7 @ map (\<lambda>x. F 128 XOR x) x7)"
proof -
  have "(8 :: nat) = Suc (Suc (Suc (Suc (Suc (Suc (Suc (Suc 0)))))))" by simp
  then show ?thesis by (simp only: doubled.simps Let_def power_Suc power_0) simp
qed

lemma crc_bits_8: "crc_bits 8 p c = crc_bit p (crc_bit p (crc_bit p (crc_bit p (crc_bit p (crc_bit p (crc_bit p (crc_bit p c)))))))"
  by (simp add: numeral_eq_Suc)

lemma crc8_powers:
  "crc_bits 8 0xAB 0 = (0 :: u8)"
  "crc_bits 8 0xAB 1 = (0xF7 :: u8)"
  "crc_bits 8 0xAB 2 = (0xB9 :: u8)"
  "crc_bits 8 0xAB 4 = (0x25 :: u8)"
  "crc_bits 8 0xAB 8 = (0x4A :: u8)"
  "crc_bits 8 0xAB 16 = (0x94 :: u8)"
  "crc_bits 8 0xAB 32 = (0x7F :: u8)"
  "crc_bits 8 0xAB 64 = (0xFE :: u8)"
  "crc_bits 8 0xAB 128 = (0xAB :: u8)"
  by (simp_all add: crc_bits_8 crc_bit_def)

lemma crc16_powers:
  "crc_bits 8 0x8408 0 = (0 :: u16)"
  "crc_bits 8 0x8408 1 = (0x1189 :: u16)"
  "crc_bits 8 0x8408 2 = (0x2312 :: u16)"
  "crc_bits 8 0x8408 4 = (0x4624 :: u16)"
  "crc_bits 8 0x8408 8 = (0x8C48 :: u16)"
  "crc_bits 8 0x8408 16 = (0x1081 :: u16)"
  "crc_bits 8 0x8408 32 = (0x2102 :: u16)"
  "crc_bits 8 0x8408 64 = (0x4204 :: u16)"
  "crc_bits 8 0x8408 128 = (0x8408 :: u16)"
  by (simp_all add: crc_bits_8 crc_bit_def)

lemma crc32_powers:
  "crc_bits 8 0xEDB88320 0 = (0 :: u32)"
  "crc_bits 8 0xEDB88320 1 = (0x77073096 :: u32)"
  "crc_bits 8 0xEDB88320 2 = (0xEE0E612C :: u32)"
  "crc_bits 8 0xEDB88320 4 = (0x076DC419 :: u32)"
  "crc_bits 8 0xEDB88320 8 = (0x0EDB8832 :: u32)"
  "crc_bits 8 0xEDB88320 16 = (0x1DB71064 :: u32)"
  "crc_bits 8 0xEDB88320 32 = (0x3B6E20C8 :: u32)"
  "crc_bits 8 0xEDB88320 64 = (0x76DC4190 :: u32)"
  "crc_bits 8 0xEDB88320 128 = (0xEDB88320 :: u32)"
  by (simp_all add: crc_bits_8 crc_bit_def)

lemma crc8_table_eq: "crc8_table = map (\<lambda>i. crc_bits 8 0xAB (of_nat i)) [0..<256]"
  unfolding crc_table_by_doubling doubled_8 crc8_powers crc8_table_def by (simp add: Let_def)

lemma crc16_table_eq: "crc16_table = map (\<lambda>i. crc_bits 8 0x8408 (of_nat i)) [0..<256]"
  unfolding crc_table_by_doubling doubled_8 crc16_powers crc16_table_def by (simp add: Let_def)

lemma crc32_table_eq: "crc32_table = map (\<lambda>i. crc_bits 8 0xEDB88320 (of_nat i)) [0..<256]"
  unfolding crc_table_by_doubling doubled_8 crc32_powers crc32_table_def by (simp add: Let_def)

section \<open>Equivalence\<close>

lemma table_entry:
  assumes "tbl = map (\<lambda>i. crc_bits 8 p (of_nat i)) [0..<256]"
  shows "tbl ! unat (c AND 0xFF) = crc_bits 8 p (c AND 0xFF :: 'a::len word)"
proof -
  have "c AND (0xFF :: 'a word) \<le> 0xFF" by (rule word_and_le1)
  moreover have "unat (0xFF :: 'a word) \<le> 255" using take_bit_nat_less_eq_self [of "LENGTH('a)" 255] unat_of_nat [of 255, where 'a = 'a] by simp
  ultimately have "unat (c AND 0xFF) < 256" unfolding word_le_nat_alt by linarith
  then show ?thesis using assms by simp
qed

lemma crc8_inner_eq: "crc8_inner c x = crc_byte 0xAB c x"
proof -
  have "drop_bit 8 (c XOR x) = 0" by (rule bit_word_eqI) (auto simp: bit_simps dest: bit_imp_le_length)
  then show ?thesis unfolding crc8_inner_def crc_byte_def table_entry [OF crc8_table_eq] using crc_split [where p = "0xAB" and c = "c XOR x"] by simp
qed

lemma crc16_inner_eq: "crc16_inner c x = crc_byte 0x8408 c x"
proof -
  have "drop_bit 8 (c XOR ucast x) = drop_bit 8 c" by (rule bit_word_eqI) (auto simp: bit_simps dest: bit_imp_le_length)
  then show ?thesis unfolding crc16_inner_def crc_byte_def table_entry [OF crc16_table_eq] using crc_split [of "0x8408" "c XOR ucast x"] by simp
qed

lemma crc32_inner_eq: "crc32_inner c x = crc_byte 0xEDB88320 c x"
proof -
  have "drop_bit 8 (c XOR ucast x) = drop_bit 8 c" by (rule bit_word_eqI) (auto simp: bit_simps dest: bit_imp_le_length)
  then show ?thesis unfolding crc32_inner_def crc_byte_def table_entry [OF crc32_table_eq] using crc_split [of "0xEDB88320" "c XOR ucast x"] by simp
qed

lemma crc_loop_foldl:
  "(\<And>c x. inner c x = f c x) \<Longrightarrow> pdata + n \<le> length buf \<Longrightarrow> crc_loop inner buf pdata n c = Some (foldl f c (take n (drop pdata buf)))"
proof (induction n arbitrary: pdata c)
  case (Suc n)
  then have "drop pdata buf = buf ! pdata # drop (Suc pdata) buf" by (simp add: Cons_nth_drop_Suc)
  then show ?case using Suc by simp
qed simp

lemma crc_loop_None: "length buf < pdata + n \<Longrightarrow> pdata \<le> length buf \<Longrightarrow> crc_loop inner buf pdata n c = None"
proof (induction n arbitrary: pdata c)
  case (Suc n)
  then show ?case by (cases "pdata < length buf") (simp_all add: arr_get_def)
qed simp

text \<open>
  C20. The table-driven checks are the division by their polynomials: on any bytes inside the block,
  \<open>hndcrc8\<close>, \<open>hndcrc16\<close> and \<open>hndcrc32\<close> compute what feeding the bits one by one to the division by
  \<open>x^8 + x^7 + x^6 + x^4 + x^2 + 1\<close>, \<open>x^16 + x^12 + x^5 + 1\<close> and the polynomial of IEEE 802.3 computes, from any
  previous value.
\<close>

theorem crc_tables_divide:
  assumes "pdata + n \<le> length buf"
  shows "hndcrc8 buf pdata n c8 = Some (foldl (crc_byte 0xAB) c8 (take n (drop pdata buf))) \<and>
     hndcrc16 buf pdata n c16 = Some (foldl (crc_byte 0x8408) c16 (take n (drop pdata buf))) \<and>
     hndcrc32 buf pdata n c32 = Some (foldl (crc_byte 0xEDB88320) c32 (take n (drop pdata buf)))"
  using crc_loop_foldl [OF crc8_inner_eq assms] crc_loop_foldl [OF crc16_inner_eq assms] crc_loop_foldl [OF crc32_inner_eq assms]
  by (simp add: hndcrc8_def hndcrc16_def hndcrc32_def)

theorem crc_tables_divide_witness: "hndcrc32 [1, 2, 3] 1 2 0xFFFFFFFF = Some (foldl (crc_byte 0xEDB88320) 0xFFFFFFFF [2, 3])"
  using crc_tables_divide [of 1 2 "[1, 2, 3]" 0 0 "0xFFFFFFFF"] by simp

section \<open>Residues\<close>

text \<open>Feeding the bytes of a word, lowest first, is dividing their sum.\<close>

lemma crc_byte_word: "crc_byte p (c XOR push_bit 8 w) x = crc_byte p c x XOR w" if "\<And>i. bit w i \<Longrightarrow> i + 8 < LENGTH('a)" for w :: "'a::len word"
proof -
  have "drop_bit 8 (push_bit 8 w) = w" by (rule bit_word_eqI) (auto simp: bit_simps dest: that)
  moreover have "crc_bits 8 p (push_bit 8 w) = drop_bit 8 (push_bit 8 w)" by (rule crc_bits_high) (simp add: bit_simps)
  moreover have "c XOR push_bit 8 w XOR ucast x = (c XOR ucast x) XOR push_bit 8 w" by (simp add: ac_simps)
  ultimately show ?thesis by (simp add: crc_byte_def crc_bits_xor ac_simps)
qed

fun word_of :: "bytes \<Rightarrow> 'a::len word" where
  "word_of [] = 0"
| "word_of (x # xs) = ucast x XOR push_bit 8 (word_of xs)"

lemma word_of_bits: "bit (word_of xs :: 'a::len word) i \<Longrightarrow> i < 8 * length xs"
proof (induction xs arbitrary: i)
  case (Cons x xs)
  then show ?case by (cases "i < 8") (auto simp: bit_simps dest!: bit_imp_le_length Cons.IH)
qed simp

lemma foldl_crc_byte:
  "8 * length xs \<le> LENGTH('a) \<Longrightarrow> foldl (crc_byte p) c xs = crc_bits (8 * length xs) p (c XOR word_of xs :: 'a::len word)"
proof (induction xs arbitrary: c)
  case (Cons x xs)
  have "crc_byte p (c XOR push_bit 8 (word_of xs)) x = crc_byte p c x XOR word_of xs"
    by (rule crc_byte_word) (use Cons.prems in \<open>auto dest: word_of_bits\<close>)
  then have "crc_byte p c x XOR word_of xs = crc_bits 8 p (c XOR word_of (x # xs))" by (simp add: crc_byte_def ac_simps)
  then show ?case using Cons.IH [of "crc_byte p c x"] Cons.prems crc_bits_add [of 8 "8 * length xs" p] by simp
qed simp

lemma word_of_le: "word_of [x] = (x :: u8)" "word_of (le16 v) = (v :: u16)" "word_of (le32 w) = (w :: u32)"
  by (simp, (rule bit_word_eqI, auto simp: le16_def le32_def bit_simps)+)

lemma xor_NOT: "a XOR NOT a = (0xFF :: u8)" "b XOR NOT b = (0xFFFF :: u16)" "c XOR NOT c = (0xFFFFFFFF :: u32)"
proof -
  have x: "w XOR NOT w = - 1" for w :: "'a::len word" by (rule bit_word_eqI) (simp add: bit_simps)
  show "a XOR NOT a = (0xFF :: u8)" "b XOR NOT b = (0xFFFF :: u16)" "c XOR NOT c = (0xFFFFFFFF :: u32)" unfolding x by simp_all
qed

text \<open>
  A message that is followed by its complemented checksum, lowest byte first, is recognised: from any
  initial value the check over both ends in the \<open>GOOD\<close> value of the header file.
\<close>

theorem crc_good_values:
  "(do { r \<leftarrow> hndcrc8 data 0 (length data) c8; hndcrc8 (data @ [NOT r]) 0 (length data + 1) c8 }) = Some CRC8_GOOD_VALUE \<and>
   (do { r \<leftarrow> hndcrc16 data 0 (length data) c16; hndcrc16 (data @ le16 (NOT r)) 0 (length data + 2) c16 }) = Some CRC16_GOOD_VALUE \<and>
   (do { r \<leftarrow> hndcrc32 data 0 (length data) c32; hndcrc32 (data @ le32 (NOT r)) 0 (length data + 4) c32 }) = Some CRC32_GOOD_VALUE"
proof (intro conjI)
  note run = crc_loop_foldl [OF crc8_inner_eq] crc_loop_foldl [OF crc16_inner_eq] crc_loop_foldl [OF crc32_inner_eq]
  let ?r8 = "foldl (crc_byte 0xAB) c8 data" and ?r16 = "foldl (crc_byte 0x8408) c16 data" and ?r32 = "foldl (crc_byte 0xEDB88320) c32 data"
  have n: "(16 :: nat) = 8 + 8" "(32 :: nat) = 8 + (8 + (8 + 8))" by simp_all
  have "foldl (crc_byte 0xAB) ?r8 [NOT ?r8] = crc_bits 8 0xAB 0xFF"
    using foldl_crc_byte [of "[NOT ?r8]" "0xAB" ?r8] by (simp only: word_of_le xor_NOT) simp
  also have "\<dots> = CRC8_GOOD_VALUE" by (simp add: crc_bits_8 crc_bit_def)
  finally show "do { r \<leftarrow> hndcrc8 data 0 (length data) c8; hndcrc8 (data @ [NOT r]) 0 (length data + 1) c8 } = Some CRC8_GOOD_VALUE"
    by (simp add: hndcrc8_def run del: crc_loop.simps)
  have "foldl (crc_byte 0x8408) ?r16 (le16 (NOT ?r16)) = crc_bits 16 0x8408 0xFFFF"
    using foldl_crc_byte [of "le16 (NOT ?r16)" "0x8408" ?r16] by (simp only: word_of_le xor_NOT length_le16) simp
  also have "\<dots> = CRC16_GOOD_VALUE" unfolding n crc_bits_add by (simp add: crc_bits_8 crc_bit_def)
  finally show "do { r \<leftarrow> hndcrc16 data 0 (length data) c16; hndcrc16 (data @ le16 (NOT r)) 0 (length data + 2) c16 } = Some CRC16_GOOD_VALUE"
    by (simp add: hndcrc16_def run del: crc_loop.simps)
  have "foldl (crc_byte 0xEDB88320) ?r32 (le32 (NOT ?r32)) = crc_bits 32 0xEDB88320 0xFFFFFFFF"
    using foldl_crc_byte [of "le32 (NOT ?r32)" "0xEDB88320" ?r32] by (simp only: word_of_le xor_NOT length_le32) simp
  also have "\<dots> = CRC32_GOOD_VALUE" unfolding n crc_bits_add by (simp add: crc_bits_8 crc_bit_def)
  finally show "do { r \<leftarrow> hndcrc32 data 0 (length data) c32; hndcrc32 (data @ le32 (NOT r)) 0 (length data + 4) c32 } = Some CRC32_GOOD_VALUE"
    by (simp add: hndcrc32_def run del: crc_loop.simps)
qed

end
