(* ===== verification/Bcm_Num.thy ===== *)
theory Bcm_Num
  imports Byte_Buf
begin

text \<open>
  Arithmetic helpers of \<open>shared/bcmutils.c\<close>: 64-bit numbers in two 32-bit halves (multiply and add, division,
  shift, addition, subtraction), numbers in byte arrays, and the Internet checksum.
\<close>

unbundle bit_operations_syntax

section \<open>Definitions\<close>

text \<open>\<open>FORMALIZE\<close>: moves the top bit of \<open>var\<close> to the carry count \<open>cc\<close>.\<close>

definition formalize :: "u32 \<Rightarrow> u32 \<Rightarrow> u32 \<times> u32" where
  "formalize cc var = (cc + (if var AND 0x80000000 \<noteq> 0 then 1 else 0), var AND 0x7fffffff)"

text \<open>The result: the high and the low half.\<close>

definition bcm_uint64_multiple_add :: "u32 \<Rightarrow> u32 \<Rightarrow> u32 \<Rightarrow> u32 \<times> u32" where
  "bcm_uint64_multiple_add a b c =
     (let a1 = drop_bit 16 a; a0 = a AND 0xffff; b1 = drop_bit 16 b; b0 = b AND 0xffff;
          (cc, r0) = formalize 0 (a0 * b0);
          (cc, t) = formalize cc (push_bit 16 (a1 * b0));
          (cc, r0) = formalize cc (r0 + t);
          (cc, t) = formalize cc (push_bit 16 (a0 * b1));
          (cc, r0) = formalize cc (r0 + t);
          (cc, c) = formalize cc c;
          (cc, r0) = formalize cc (r0 + c);
          r0 = r0 OR (if cc mod 2 \<noteq> 0 then 0x80000000 else 0);
          r1 = a1 * b1 + drop_bit 16 (a1 * b0) + drop_bit 16 (b1 * a0) + cc div 2
      in (r1, r0))"

text \<open>The loop of the division; the sum it adds to \<open>r0\<close> wraps.\<close>

function div_loop :: "u32 \<Rightarrow> u32 \<Rightarrow> u32 \<Rightarrow> u32 \<Rightarrow> u32 \<times> u32" where
  "div_loop b a1 a0 r0 =
     (if a1 = 0 then (a0, r0)
      else case bcm_uint64_multiple_add ((0xffffffff mod b + 1) mod b) a1 a0 of
             (h, l) \<Rightarrow> div_loop b h l (r0 + (0xffffffff div b) * a1))"
  by pat_completeness auto

text \<open>\<open>r\<close> is the old content of the result, which a divisor below 2 leaves as it is.\<close>

definition bcm_uint64_divide :: "u32 \<Rightarrow> u32 \<Rightarrow> u32 \<Rightarrow> u32 \<Rightarrow> u32" where
  "bcm_uint64_divide r a_high a_low b =
     (if b < 2 then r else case div_loop b a_high a_low 0 of (a0, r0) \<Rightarrow> r0 + a0 div b)"

text \<open>A shift by 64 or more has no defined value.\<close>

definition bcm_uint64_right_shift :: "u32 \<Rightarrow> u32 \<Rightarrow> u32 \<Rightarrow> u32 option" where
  "bcm_uint64_right_shift a_high a_low b =
     (if b = 0 then Some a_low
      else if b < 32
      then Some (drop_bit (unat b) a_low OR push_bit (unat (32 - b)) (a_high AND (push_bit (unat b) 1 - 1)))
      else do { ASSERT (b - 32 < 32); Some (drop_bit (unat (b - 32)) a_high) })"

definition bcm_add_64 :: "u32 \<Rightarrow> u32 \<Rightarrow> u32 \<Rightarrow> u32 \<times> u32" where
  "bcm_add_64 r_hi r_lo offset = (let lo = r_lo + offset in (if lo < r_lo then r_hi + 1 else r_hi, lo))"

definition bcm_sub_64 :: "u32 \<Rightarrow> u32 \<Rightarrow> u32 \<Rightarrow> u32 \<times> u32" where
  "bcm_sub_64 r_hi r_lo offset = (let lo = r_lo - offset in (if r_lo < lo then r_hi - 1 else r_hi, lo))"

text \<open>Numbers in byte arrays, lowest byte first; \<open>i\<close> is the index and \<open>n\<close> the rounds left.\<close>

fun inc_loop :: "bytes \<Rightarrow> nat \<Rightarrow> nat \<Rightarrow> u8 \<Rightarrow> bytes option" where
  "inc_loop num i 0 amount = Some num"
| "inc_loop num i (Suc n) amount = do {
     d \<leftarrow> arr_get num i;
     let d = d + amount;
     if amount \<le> d then Some (num[i := d]) else inc_loop (num[i := d]) (Suc i) n 1
   }"

definition bcm_inc_bytes :: "bytes \<Rightarrow> nat \<Rightarrow> u8 \<Rightarrow> bytes option" where
  "bcm_inc_bytes num num_bytes amount = inc_loop num 0 num_bytes amount"

fun cmp_loop :: "bytes \<Rightarrow> bytes \<Rightarrow> nat \<Rightarrow> int option" where
  "cmp_loop arg1 arg2 0 = Some 0"
| "cmp_loop arg1 arg2 (Suc i) = do {
     x \<leftarrow> arr_get arg1 i;
     y \<leftarrow> arr_get arg2 i;
     if x \<noteq> y then Some (uint x - uint y) else cmp_loop arg1 arg2 i
   }"

definition bcm_cmp_bytes :: "bytes \<Rightarrow> bytes \<Rightarrow> u8 \<Rightarrow> int option" where
  "bcm_cmp_bytes arg1 arg2 nbytes = cmp_loop arg1 arg2 (unat nbytes)"

text \<open>The Internet checksum: the sum of the big-endian 16-bit words, then the folding of its carries.\<close>

fun cksum_add :: "bytes \<Rightarrow> nat \<Rightarrow> nat \<Rightarrow> u32 \<Rightarrow> u32 option" where
  "cksum_add buf p len s =
     (if 1 < len
      then do {
        x \<leftarrow> arr_get buf p;
        y \<leftarrow> arr_get buf (Suc p);
        cksum_add buf (p + 2) (len - 2) (s + (push_bit 8 (ucast x) OR ucast y))
      }
      else if 0 < len then do { x \<leftarrow> arr_get buf p; Some (s + push_bit 8 (ucast x)) }
      else Some s)"

declare cksum_add.simps [simp del]

function cksum_fold :: "u32 \<Rightarrow> u32" where
  "cksum_fold s = (if drop_bit 16 s \<noteq> 0 then cksum_fold ((s AND 0xffff) + drop_bit 16 s) else s)"
  by pat_completeness auto

definition bcm_ip_cksum :: "bytes \<Rightarrow> nat \<Rightarrow> u32 \<Rightarrow> u32 \<Rightarrow> u16 option" where
  "bcm_ip_cksum buf p len s = do { s \<leftarrow> cksum_add buf p (unat len) s; Some (ucast (NOT (cksum_fold s))) }"

definition num64 :: "u32 \<Rightarrow> u32 \<Rightarrow> nat" where
  "num64 hi lo = unat hi * 2 ^ 32 + unat lo"

section \<open>Multiplication\<close>

lemma unat_drop_bit_div: "unat (drop_bit n w) = unat (w :: 'a::len word) div 2 ^ n"
  unfolding unsigned_drop_bit_eq by (simp add: drop_bit_eq_div take_bit_nat_eq_self)

lemma unat_low_bits:
  "unat (w AND 0xffff) = unat (w :: u32) mod 2 ^ 16" "unat (w AND 0x7fffffff) = unat (w :: u32) mod 2 ^ 31"
proof -
  have m: "(0xffff :: u32) = mask 16" "(0x7fffffff :: u32) = mask 31" by (simp_all add: mask_eq_exp_minus_1)
  show "unat (w AND 0xffff) = unat w mod 2 ^ 16" "unat (w AND 0x7fffffff) = unat w mod 2 ^ 31"
    unfolding m take_bit_eq_mask [symmetric] unsigned_take_bit_eq by (simp_all add: take_bit_eq_mod)
qed

lemma high_bit: "w AND 0x80000000 \<noteq> 0 \<longleftrightarrow> unat (w :: u32) div 2 ^ 31 = 1"
proof -
  have p: "(0x80000000 :: u32) = push_bit 31 1" by simp
  have "unat w div 2 ^ 31 < 2" using unat_u32_less [of w] by (simp add: less_mult_imp_div_less)
  moreover have "w AND 0x80000000 \<noteq> 0 \<longleftrightarrow> odd (unat w div 2 ^ 31)"
    unfolding p bit_iff_and_push_bit_not_eq_0 [symmetric] bit_iff_odd [symmetric] by (simp add: bit_simps)
  ultimately show ?thesis by (auto simp: less_2_cases_iff)
qed

lemma formalize_value:
  assumes "unat cc < 2 ^ 31"
  shows "unat (fst (formalize cc v)) * 2 ^ 31 + unat (snd (formalize cc v)) = unat cc * 2 ^ 31 + unat v"
    and "unat (snd (formalize cc v)) < 2 ^ 31" and "unat (fst (formalize cc v)) \<le> Suc (unat cc)"
proof -
  have u: "unat (cc + 1) = Suc (unat cc)" by (rule unat_inc [OF assms]) simp
  have d: "unat v div 2 ^ 31 * 2 ^ 31 + unat v mod 2 ^ 31 = unat v" by (rule div_mult_mod_eq)
  have "unat v div 2 ^ 31 < 2" using unat_u32_less [of v] by (simp add: less_mult_imp_div_less)
  then have "unat (fst (formalize cc v)) = unat cc + unat v div 2 ^ 31"
    using high_bit [of v] u by (auto simp: formalize_def less_2_cases_iff)
  moreover have "unat (snd (formalize cc v)) = unat v mod 2 ^ 31" by (simp add: formalize_def unat_low_bits)
  ultimately show "unat (fst (formalize cc v)) * 2 ^ 31 + unat (snd (formalize cc v)) = unat cc * 2 ^ 31 + unat v"
    using d by (simp add: add_mult_distrib)
  show "unat (snd (formalize cc v)) < 2 ^ 31" by (simp add: formalize_def unat_low_bits)
  show "unat (fst (formalize cc v)) \<le> Suc (unat cc)" using u by (simp add: formalize_def)
qed

text \<open>Adding a number to the running sum: two normalisations, at most two carries.\<close>

definition add_formal :: "u32 \<times> u32 \<Rightarrow> u32 \<Rightarrow> u32 \<times> u32" where
  "add_formal s v = (case s of (cc, r) \<Rightarrow> case formalize cc v of (cc, t) \<Rightarrow> formalize cc (r + t))"

definition sum_value :: "u32 \<times> u32 \<Rightarrow> nat" where
  "sum_value s = unat (fst s) * 2 ^ 31 + unat (snd s)"

lemma add_formal_value:
  assumes "unat (fst s) < 100" and "unat (snd s) < 2 ^ 31"
  shows "sum_value (add_formal s v) = sum_value s + unat v" and "unat (snd (add_formal s v)) < 2 ^ 31"
    and "unat (fst (add_formal s v)) \<le> unat (fst s) + 2"
proof -
  obtain cc r where s: "s = (cc, r)" by (cases s)
  obtain cc' t where f: "formalize cc v = (cc', t)" by (cases "formalize cc v")
  have c: "unat cc < 2 ^ 31" using assms(1) s by simp
  note v1 = formalize_value [OF c, of v, unfolded f fst_conv snd_conv]
  have c': "unat cc' < 2 ^ 31" using v1(3) assms(1) s by simp
  have rt: "unat (r + t) = unat r + unat t" using assms(2) v1(2) s by (simp add: unat_word_ariths)
  note v2 = formalize_value [OF c', of "r + t"]
  have a: "add_formal s v = formalize cc' (r + t)" by (simp add: add_formal_def s f)
  show "sum_value (add_formal s v) = sum_value s + unat v" unfolding a sum_value_def using v1(1) v2(1) rt by (simp add: s)
  show "unat (snd (add_formal s v)) < 2 ^ 31" unfolding a by (rule v2(2))
  show "unat (fst (add_formal s v)) \<le> unat (fst s) + 2" unfolding a using v1(3) v2(3) by (simp add: s)
qed

lemma multiple_add_formal:
  "bcm_uint64_multiple_add a b c =
     (let a1 = drop_bit 16 a; a0 = a AND 0xffff; b1 = drop_bit 16 b; b0 = b AND 0xffff;
          s = add_formal (add_formal (add_formal (formalize 0 (a0 * b0)) (push_bit 16 (a1 * b0))) (push_bit 16 (a0 * b1))) c
      in (a1 * b1 + drop_bit 16 (a1 * b0) + drop_bit 16 (b1 * a0) + fst s div 2, snd s OR (if fst s mod 2 \<noteq> 0 then 0x80000000 else 0)))"
  by (simp add: bcm_uint64_multiple_add_def add_formal_def Let_def split: prod.splits)

text \<open>The sum back from carries and rest.\<close>

lemma sum_value_halves:
  assumes "unat r < 2 ^ 31"
  shows "unat (cc div 2) * 2 ^ 32 + unat (r OR (if cc mod 2 \<noteq> 0 then 0x80000000 else 0)) = sum_value (cc, r)"
proof -
  have c: "unat cc = unat cc div 2 * 2 + unat cc mod 2" by simp
  have "unat (cc mod 2) = unat cc mod 2" unfolding unat_mod by simp
  then have m: "cc mod 2 \<noteq> 0 \<longleftrightarrow> unat cc mod 2 = 1" by (metis not_mod_2_eq_0_eq_1 unat_0 unat_eq_0)
  have r: "unat (r OR 0x80000000) = unat r + 2 ^ 31"
  proof -
    have "r AND 0x80000000 = 0" using high_bit [of r] assms by auto
    then have "r OR 0x80000000 = r + 0x80000000" by (simp add: disjunctive_add_eq_or)
    then show ?thesis using assms by (simp add: unat_word_ariths)
  qed
  show ?thesis using c m r by (cases "unat cc mod 2 = 1") (auto simp: sum_value_def unat_div)
qed

lemma push_16: "unat (push_bit 16 w) + unat (w :: u32) div 2 ^ 16 * 2 ^ 32 = unat w * 2 ^ 16"
proof -
  have "unat (push_bit 16 w) = unat w * 2 ^ 16 mod 2 ^ 32" unfolding unsigned_push_bit_eq by (simp add: push_bit_eq_mult take_bit_eq_mod)
  moreover have "unat w * 2 ^ 16 div 2 ^ 32 = unat w div 2 ^ 16" by simp
  ultimately show ?thesis using div_mult_mod_eq [of "unat w * 2 ^ 16" "2 ^ 32"] by simp
qed

lemma multiple_add_value:
  assumes "bcm_uint64_multiple_add a b c = (h, l)"
  shows "num64 h l = unat a * unat b + unat c"
proof -
  define a1 where "a1 = drop_bit 16 a"
  define a0 where "a0 = a AND 0xffff"
  define b1 where "b1 = drop_bit 16 b"
  define b0 where "b0 = b AND 0xffff"
  have lt: "unat a1 < 2 ^ 16" "unat a0 < 2 ^ 16" "unat b1 < 2 ^ 16" "unat b0 < 2 ^ 16"
    using unat_u32_less [of a] unat_u32_less [of b] by (simp_all add: a1_def a0_def b1_def b0_def unat_drop_bit_div unat_low_bits less_mult_imp_div_less)
  have ab: "unat a = unat a1 * 2 ^ 16 + unat a0" "unat b = unat b1 * 2 ^ 16 + unat b0"
    using div_mult_mod_eq [of "unat a" "2 ^ 16"] div_mult_mod_eq [of "unat b" "2 ^ 16"]
    by (simp_all add: a1_def a0_def b1_def b0_def unat_drop_bit_div unat_low_bits)
  have mult: "unat (x * y) = unat x * unat y" if "unat x < 2 ^ 16" "unat y < 2 ^ 16" for x y :: u32
  proof -
    have "unat x * unat y < 2 ^ 16 * 2 ^ 16" by (rule mult_strict_mono) (use that in simp_all)
    then show ?thesis by (simp add: unat_word_ariths)
  qed
  define s0 where "s0 = formalize 0 (a0 * b0)"
  define s1 where "s1 = add_formal s0 (push_bit 16 (a1 * b0))"
  define s2 where "s2 = add_formal s1 (push_bit 16 (a0 * b1))"
  define s3 where "s3 = add_formal s2 c"
  have v0: "sum_value s0 = unat a0 * unat b0" "unat (snd s0) < 2 ^ 31" "unat (fst s0) \<le> 1"
    using formalize_value [of 0 "a0 * b0"] mult [OF lt(2,4)] by (simp_all add: s0_def sum_value_def)
  have v1: "sum_value s1 = sum_value s0 + unat (push_bit 16 (a1 * b0))" "unat (snd s1) < 2 ^ 31" "unat (fst s1) \<le> 3"
    using add_formal_value [of s0 "push_bit 16 (a1 * b0)"] v0 by (simp_all add: s1_def)
  have v2: "sum_value s2 = sum_value s1 + unat (push_bit 16 (a0 * b1))" "unat (snd s2) < 2 ^ 31" "unat (fst s2) \<le> 5"
    using add_formal_value [of s1 "push_bit 16 (a0 * b1)"] v1 by (simp_all add: s2_def)
  have v3: "sum_value s3 = sum_value s2 + unat c" "unat (snd s3) < 2 ^ 31"
    using add_formal_value [of s2 c] v2 by (simp_all add: s3_def)
  let ?h = "unat a1 * unat b1 + unat (a1 * b0) div 2 ^ 16 + unat (a0 * b1) div 2 ^ 16 + unat (fst s3 div 2)"
  have hl: "h = a1 * b1 + drop_bit 16 (a1 * b0) + drop_bit 16 (b1 * a0) + fst s3 div 2" "l = snd s3 OR (if fst s3 mod 2 \<noteq> 0 then 0x80000000 else 0)"
    using assms unfolding multiple_add_formal Let_def by (simp_all add: a1_def a0_def b1_def b0_def s0_def s1_def s2_def s3_def)
  have "unat (fst s3 div 2) * 2 ^ 32 + unat l = sum_value s3" unfolding hl(2) using sum_value_halves [OF v3(2)] by simp
  then have "?h * 2 ^ 32 + unat l = unat a1 * unat b1 * 2 ^ 32 + unat (a1 * b0) * 2 ^ 16 + unat (a0 * b1) * 2 ^ 16 + unat a0 * unat b0 + unat c"
    using v0(1) v1(1) v2(1) v3(1) push_16 [of "a1 * b0"] push_16 [of "a0 * b1"] by (simp add: algebra_simps)
  then have tot: "?h * 2 ^ 32 + unat l = unat a * unat b + unat c"
    unfolding ab mult [OF lt(1,4)] mult [OF lt(2,3)] by (simp add: algebra_simps)
  have "unat a * unat b \<le> (2 ^ 32 - 1) * (2 ^ 32 - 1)" by (rule mult_le_mono) (use unat_u32_less [of a] unat_u32_less [of b] in simp_all)
  then have "?h * 2 ^ 32 < 2 ^ 32 * 2 ^ 32" using tot unat_u32_less [of c] by simp
  then have "?h < 2 ^ 32" by simp
  then have "unat h = ?h"
    unfolding hl(1) using mult [OF lt(1,3)] by (simp add: unat_word_ariths unat_drop_bit_div mult.commute mod_less)
  then show ?thesis using tot by (simp add: num64_def)
qed

section \<open>Division\<close>

lemma num64_less: "num64 h l < num64 a1 a0" if "bcm_uint64_multiple_add r a1 a0 = (h, l)" and "a1 \<noteq> 0"
proof -
  have "unat r * unat a1 < 2 ^ 32 * unat a1" using unat_u32_less [of r] that(2) by (simp add: unat_gt_0)
  then show ?thesis using multiple_add_value [OF that(1)] by (simp add: num64_def mult.commute)
qed

termination div_loop
  by (relation "measure (\<lambda>(b, a1, a0, r0). num64 a1 a0)") (auto intro: num64_less sym)

declare div_loop.simps [simp del]

text \<open>What is left of \<open>M + 1\<close> in the code's way of dividing it.\<close>

lemma div_of_max:
  fixes b M :: nat
  assumes b: "0 < b"
  shows "M + 1 = M div b * b + (M mod b + 1) mod b + (if b dvd M + 1 then b else 0)" and "b dvd M + 1 \<Longrightarrow> (M mod b + 1) mod b = 0"
proof -
  have e: "M + 1 = M div b * b + (M mod b + 1)" by simp
  have r: "M mod b < b" using b by simp
  have d: "b dvd M + 1 \<longleftrightarrow> M mod b + 1 = b"
  proof
    assume "b dvd M + 1"
    then have "b dvd M mod b + 1" by (metis dvd_add_right_iff dvd_triv_right e)
    then have "b \<le> M mod b + 1" by (rule dvd_imp_le) simp
    then show "M mod b + 1 = b" using r by linarith
  next
    assume "M mod b + 1 = b"
    then show "b dvd M + 1" by (metis dvd_add_triv_right_iff dvd_triv_right e)
  qed
  show "M + 1 = M div b * b + (M mod b + 1) mod b + (if b dvd M + 1 then b else 0)"
  proof (cases "b dvd M + 1")
    case True
    then have rb: "M mod b + 1 = b" using d by blast
    show ?thesis using e [unfolded rb] True unfolding rb by simp
  next
    case False
    then have "M mod b + 1 < b" using d r by linarith
    then show ?thesis using e False by simp
  qed
  show "(M mod b + 1) mod b = 0" if "b dvd M + 1" using that d by simp
qed

text \<open>The quotient and the rest of the code.\<close>

lemma div_2_32:
  fixes b :: u32
  assumes b: "2 \<le> unat b"
  obtains q m where "q = unat (0xffffffff div b)" and "m = unat ((0xffffffff mod b + 1) mod b)"
    and "4294967296 = q * unat b + m + (if unat b dvd 4294967296 then unat b else 0)" and "unat b dvd 4294967296 \<Longrightarrow> m = 0"
proof -
  have b0: "0 < unat b" using b by simp
  define r where "r = 4294967295 mod unat b"
  have "r < unat b" using b0 by (simp add: r_def)
  then have "r + 1 < 4294967296" using unat_u32_less [of b] by linarith
  moreover have "unat (0xffffffff mod b) = r" by (simp add: unat_mod r_def)
  ultimately have "unat (0xffffffff mod b + 1) = r + 1" by (simp add: unat_word_ariths)
  then have m: "unat ((0xffffffff mod b + 1) mod b) = (r + 1) mod unat b" by (simp only: unat_mod)
  have q: "unat (0xffffffff div b) = 4294967295 div unat b" by (simp add: unat_div)
  have p: "(4294967295 :: nat) + 1 = 4294967296" by simp
  show thesis
    using that [OF refl refl, unfolded m q r_def] div_of_max [OF b0, of 4294967295, unfolded p] by blast
qed

text \<open>One round of the loop.\<close>

lemma div_round:
  fixes b a1 a0 :: u32
  assumes b: "2 \<le> unat b" and h: "bcm_uint64_multiple_add ((0xffffffff mod b + 1) mod b) a1 a0 = (h, l)"
  shows "num64 a1 a0 div unat b - (if unat b dvd 4294967296 then unat a1 else 0) =
     unat (0xffffffff div b) * unat a1 + (num64 h l div unat b - (if unat b dvd 4294967296 then unat h else 0))"
proof -
  obtain q m where q: "q = unat (0xffffffff div b)" "m = unat ((0xffffffff mod b + 1) mod b)"
      "4294967296 = q * unat b + m + (if unat b dvd 4294967296 then unat b else 0)" "unat b dvd 4294967296 \<Longrightarrow> m = 0"
    using div_2_32 [OF b] by metis
  have n: "num64 h l = m * unat a1 + unat a0" using multiple_add_value [OF h] q(2) by simp
  have N: "num64 a1 a0 = unat a1 * 4294967296 + unat a0" by (simp add: num64_def)
  show ?thesis
  proof (cases "unat b dvd 4294967296")
    case True
    then have "num64 h l = unat a0" using n q(4) by simp
    then have "unat h * 4294967296 + unat l = unat a0" by (simp add: num64_def)
    moreover from this have "unat h = 0" using unat_u32_less [of a0] by (cases "unat h") simp_all
    ultimately have "unat h = 0" "unat l = unat a0" by simp_all
    moreover have "num64 a1 a0 = unat a0 + (unat a1 * q + unat a1) * unat b"
    proof -
      have p: "4294967296 = (q + 1) * unat b" using q(3,4) True by simp
      show ?thesis unfolding N by (subst p) (simp add: algebra_simps)
    qed
    then have "num64 a1 a0 div unat b = unat a1 * q + unat a1 + unat a0 div unat b" using b by (simp add: add.commute)
    ultimately show ?thesis using True q(1) by (simp add: num64_def mult.commute)
  next
    case False
    have "num64 a1 a0 = num64 h l + unat a1 * q * unat b"
    proof -
      have p: "4294967296 = q * unat b + m" using q(3) False by simp
      show ?thesis unfolding N n by (subst p) (simp add: algebra_simps)
    qed
    then have "num64 a1 a0 div unat b = unat a1 * q + num64 h l div unat b" using b by (simp add: add.commute)
    then show ?thesis using False q(1) by (simp add: mult.commute)
  qed
qed

lemma div_loop_value:
  "2 \<le> unat b \<Longrightarrow> div_loop b a1 a0 r0 = (x, r) \<Longrightarrow>
     r + x div b = r0 + of_nat (num64 a1 a0 div unat b - (if unat b dvd 4294967296 then unat a1 else 0))"
proof (induction b a1 a0 r0 rule: div_loop.induct)
  case (1 b a1 a0 r0)
  obtain h l where h: "bcm_uint64_multiple_add ((0xffffffff mod b + 1) mod b) a1 a0 = (h, l)" by fastforce
  show ?case
  proof (cases "a1 = 0")
    case True
    then have "x = a0" "r = r0" using 1(3) by (simp_all add: div_loop.simps [of b 0])
    moreover have "of_nat (unat a0 div unat b) = a0 div b" by (simp add: unat_div [symmetric])
    ultimately show ?thesis using True by (simp add: num64_def)
  next
    case False
    then have l: "div_loop b h l (r0 + (0xffffffff div b) * a1) = (x, r)" using 1(3) h by (simp add: div_loop.simps [of b a1])
    have "r + x div b = r0 + (0xffffffff div b) * a1 + of_nat (num64 h l div unat b - (if unat b dvd 4294967296 then unat h else 0))"
      by (rule "1.IH" [OF False h [symmetric] 1(2) l])
    then show ?thesis unfolding div_round [OF 1(2) h] by (simp add: add.assoc)
  qed
qed

section \<open>Sums, differences and shifts\<close>

lemma add_64_value:
  assumes "bcm_add_64 hi lo n = (h, l)"
  shows "num64 h l = (num64 hi lo + unat n) mod 2 ^ 64"
proof -
  have l: "l = lo + n" using assms by (simp add: bcm_add_64_def Let_def)
  show ?thesis
  proof (cases "unat lo + unat n < 2 ^ 32")
    case True
    then have u: "unat l = unat lo + unat n" by (simp add: l unat_word_ariths)
    then have "h = hi" using assms by (simp add: bcm_add_64_def Let_def l word_less_nat_alt)
    moreover have "num64 hi l < 2 ^ 64" using unat_u32_less [of hi] unat_u32_less [of l] by (simp add: num64_def)
    ultimately show ?thesis using u by (simp add: num64_def)
  next
    case False
    then have "(unat lo + unat n) mod 2 ^ 32 = unat lo + unat n - 2 ^ 32"
      using unat_u32_less [of lo] unat_u32_less [of n] by (subst le_mod_geq) simp_all
    then have u: "unat l + 2 ^ 32 = unat lo + unat n" using False by (simp add: l unat_word_ariths)
    then have "unat l < unat lo" using unat_u32_less [of n] by simp
    then have h: "h = hi + 1" using assms by (simp add: bcm_add_64_def Let_def l word_less_nat_alt)
    have s: "num64 hi lo + unat n = Suc (unat hi) * 2 ^ 32 + unat l" using u by (simp add: num64_def)
    show ?thesis
    proof (cases "Suc (unat hi) < 2 ^ 32")
      case True
      then have "unat h = Suc (unat hi)" by (simp add: h unat_word_ariths)
      then show ?thesis unfolding s using True unat_u32_less [of l] by (simp add: num64_def)
    next
      case False
      then have e: "Suc (unat hi) = 2 ^ 32" using unat_u32_less [of hi] by simp
      then have "unat h = 0" by (simp add: h unat_word_ariths)
      then show ?thesis unfolding s e using unat_u32_less [of l] by (simp add: num64_def mod_if)
    qed
  qed
qed

lemma sub_64_value:
  assumes "bcm_sub_64 hi lo n = (h, l)"
  shows "(num64 h l + unat n) mod 2 ^ 64 = num64 hi lo"
proof -
  have l: "l = lo - n" using assms by (simp add: bcm_sub_64_def Let_def)
  have "bcm_add_64 h l n = (hi, lo)"
  proof -
    have c: "lo < l \<longleftrightarrow> lo < n"
      unfolding l using unat_u32_less [of lo] unat_u32_less [of n]
      by (cases "lo < n") (auto simp: word_less_nat_alt unat_sub_if')
    have "h = (if lo < n then hi - 1 else hi)" using assms c by (simp add: bcm_sub_64_def Let_def l split: if_splits)
    then show ?thesis using c by (simp add: bcm_add_64_def Let_def l)
  qed
  from add_64_value [OF this] show ?thesis by simp
qed

lemma right_shift_value:
  assumes b: "unat b < 64"
  shows "bcm_uint64_right_shift hi lo b = Some (of_nat (num64 hi lo div 2 ^ unat b))"
proof -
  consider "b = 0" | "0 < unat b" "unat b < 32" | "32 \<le> unat b" by (metis gr0I not_le unat_0 unat_eq_0)
  then show ?thesis
  proof cases
    case 1
    have "num64 hi lo mod 2 ^ 32 = unat lo" using unat_u32_less [of lo] by (simp add: num64_def)
    then have "unat (of_nat (num64 hi lo) :: u32) = unat lo" by (simp add: unat_of_nat take_bit_eq_mod)
    then have "of_nat (num64 hi lo) = lo" by (simp only: word_unat_eq_iff)
    then show ?thesis using 1 by (simp add: bcm_uint64_right_shift_def)
  next
    case 2
    let ?n = "unat b"
    have u: "unat (32 - b) = 32 - ?n" using 2 by (simp add: unat_sub word_le_nat_alt)
    have "drop_bit ?n lo OR push_bit (32 - ?n) (hi AND (push_bit ?n 1 - 1)) = of_nat (num64 hi lo div 2 ^ ?n)"
    proof (rule bit_word_eqI)
      fix i
      assume i: "i < LENGTH(32)"
      have m: "(push_bit ?n 1 - 1 :: u32) = mask ?n" by (simp add: mask_eq_exp_minus_1 push_bit_eq_mult)
      have nm: "num64 hi lo = push_bit 32 (unat hi) OR unat lo"
      proof -
        have "push_bit 32 (unat hi) AND unat lo = 0"
          by (rule bit_eqI) (use unat_u32_less [of lo] in \<open>auto simp: bit_simps dest: bit_imp_le_length\<close>)
        then show ?thesis by (simp add: num64_def disjunctive_add_eq_or [symmetric] push_bit_eq_mult)
      qed
      show "bit (drop_bit ?n lo OR push_bit (32 - ?n) (hi AND (push_bit ?n 1 - 1))) i = bit (of_nat (num64 hi lo div 2 ^ ?n) :: u32) i"
        unfolding m drop_bit_eq_div [symmetric] nm using i 2
        by (auto simp: bit_simps add.commute dest: bit_imp_le_length)
    qed
    moreover have "b \<noteq> 0" using 2 by (auto simp: unat_gt_0)
    ultimately show ?thesis using 2 u by (simp add: bcm_uint64_right_shift_def word_less_nat_alt)
  next
    case 3
    let ?n = "unat b"
    have u: "unat (b - 32) = ?n - 32" using 3 by (simp add: unat_sub word_le_nat_alt)
    have "(2 :: nat) ^ ?n = 2 ^ 32 * 2 ^ (?n - 32)" using 3 by (metis le_add_diff_inverse power_add)
    then have "num64 hi lo div 2 ^ ?n = num64 hi lo div 2 ^ 32 div 2 ^ (?n - 32)" by (simp only: div_mult2_eq)
    also have "num64 hi lo div 2 ^ 32 = unat hi" using unat_u32_less [of lo] by (simp add: num64_def)
    finally have "of_nat (num64 hi lo div 2 ^ ?n) = drop_bit (?n - 32) hi" by (simp add: unat_drop_bit_div [symmetric])
    moreover have "b \<noteq> 0" "\<not> b < 32" "b - 32 < 32" using 3 b u by (auto simp: word_less_nat_alt)
    ultimately show ?thesis using u by (simp add: bcm_uint64_right_shift_def)
  qed
qed

section \<open>Numbers in byte arrays\<close>

fun le_value :: "bytes \<Rightarrow> nat" where
  "le_value [] = 0"
| "le_value (d # ds) = unat d + 256 * le_value ds"

lemma le_value_less: "le_value ds < 256 ^ length ds"
proof (induction ds)
  case (Cons d ds)
  then show ?case using unat_u8_less [of d] by simp
qed simp

lemma le_value_append: "le_value (xs @ ys) = le_value xs + 256 ^ length xs * le_value ys"
  by (induction xs) (simp_all add: algebra_simps)

text \<open>One digit of the increment; \<open>amount\<close> is not 0.\<close>

lemma digit_carry:
  fixes d amount :: u8
  shows "if amount \<le> d + amount then unat (d + amount) = unat d + unat amount else unat (d + amount) + 256 = unat d + unat amount"
  using unat_u8_less [of d] unat_u8_less [of amount]
  by (cases "unat d + unat amount < 256") (auto simp: word_le_nat_alt unat_word_ariths le_mod_geq)

lemma inc_loop_value:
  "length ds = n \<Longrightarrow> \<exists>ds'. inc_loop (pre @ ds @ post) (length pre) n amount = Some (pre @ ds' @ post) \<and> length ds' = n \<and>
     le_value ds' = (le_value ds + unat amount) mod 256 ^ n"
proof (induction n arbitrary: pre ds amount)
  case (Suc n)
  then obtain d es where ds: "ds = d # es" by (cases ds) auto
  let ?d = "d + amount"
  have g: "arr_get (pre @ ds @ post) (length pre) = Some d" by (simp add: ds nth_append)
  have u: "(pre @ ds @ post)[length pre := ?d] = pre @ (?d # es) @ post" by (simp add: ds)
  show ?case
  proof (cases "amount \<le> ?d")
    case True
    then have v: "le_value (?d # es) = le_value ds + unat amount" using digit_carry [of amount d] by (simp add: ds)
    have "le_value (?d # es) < 256 ^ Suc n" using le_value_less [of "?d # es"] Suc.prems by (simp add: ds)
    then show ?thesis using True g u v Suc.prems by (intro exI [of _ "?d # es"]) (simp add: ds Let_def del: le_value.simps)
  next
    case False
    have c: "unat ?d + 256 = unat d + unat amount" using False digit_carry [of amount d] by simp
    obtain es' where e: "inc_loop ((pre @ [?d]) @ es @ post) (length (pre @ [?d])) n 1 = Some ((pre @ [?d]) @ es' @ post)" "length es' = n"
        "le_value es' = (le_value es + unat (1 :: u8)) mod 256 ^ n"
      using Suc.IH [of es "pre @ [?d]" 1] Suc.prems ds by auto
    have s: "le_value ds + unat amount = unat ?d + 256 * (le_value es + 1)" using c by (simp add: ds)
    have md: "(unat ?d + 256 * x) mod (256 * m) = unat ?d + 256 * (x mod m)" for x m
    proof -
      have "unat ?d < 256" by (rule unat_u8_less)
      then have "(unat ?d + 256 * x) mod (256 * m) = 256 * ((unat ?d + 256 * x) div 256 mod m) + (unat ?d + 256 * x) mod 256"
        by (simp add: mod_mult2_eq)
      then show ?thesis using unat_u8_less [of ?d] by simp
    qed
    have "le_value (?d # es') = (le_value ds + unat amount) mod 256 ^ Suc n" unfolding s power_Suc md using e(3) by simp
    then show ?thesis using False g u e(1,2) by (intro exI [of _ "?d # es'"]) (simp add: Let_def del: le_value.simps)
  qed
qed simp

lemma cmp_loop_value:
  "n \<le> length xs \<Longrightarrow> n \<le> length ys \<Longrightarrow> \<exists>r. cmp_loop xs ys n = Some r \<and>
     (r < 0 \<longleftrightarrow> le_value (take n xs) < le_value (take n ys)) \<and> (r = 0 \<longleftrightarrow> take n xs = take n ys)"
proof (induction n)
  case (Suc n)
  let ?x = "xs ! n" and ?y = "ys ! n"
  have tk: "take (Suc n) xs = take n xs @ [?x]" "take (Suc n) ys = take n ys @ [?y]" using Suc.prems by (simp_all add: take_Suc_conv_app_nth)
  have v: "le_value (take (Suc n) xs) = le_value (take n xs) + 256 ^ n * unat ?x" "le_value (take (Suc n) ys) = le_value (take n ys) + 256 ^ n * unat ?y"
    unfolding tk le_value_append using Suc.prems by simp_all
  have lt: "le_value (take n xs) < 256 ^ n" "le_value (take n ys) < 256 ^ n"
    using le_value_less [of "take n xs"] le_value_less [of "take n ys"] Suc.prems by simp_all
  show ?case
  proof (cases "?x = ?y")
    case True
    then show ?thesis using Suc tk v by simp
  next
    case False
    have less: "a + 256 ^ n * i < b + 256 ^ n * j" if "a < 256 ^ n" "i < j" for a b i j :: nat
    proof -
      have "256 ^ n * (i + 1) \<le> 256 ^ n * j" using that(2) by (intro mult_le_mono2) simp
      then show ?thesis using that(1) by (simp add: algebra_simps)
    qed
    have "uint ?x - uint ?y < 0 \<longleftrightarrow> unat ?x < unat ?y" unfolding uint_nat by linarith
    moreover have "unat ?x \<noteq> unat ?y" using False by (simp add: word_unat_eq_iff)
    then have "unat ?x < unat ?y \<longleftrightarrow> le_value (take (Suc n) xs) < le_value (take (Suc n) ys)"
      unfolding v using less [OF lt(1), of "unat ?x" "unat ?y"] less [OF lt(2), of "unat ?y" "unat ?x"]
      by (cases "unat ?x < unat ?y") (auto simp: not_less_iff_gr_or_eq dest: order.asym)
    moreover have "uint ?x - uint ?y \<noteq> 0" using False by (simp add: word_uint_eq_iff)
    ultimately show ?thesis using False Suc.prems tk by simp
  qed
qed simp

section \<open>The Internet checksum\<close>

lemma unat_fold_step: "unat ((s AND 0xffff) + drop_bit 16 s) = unat (s :: u32) mod 2 ^ 16 + unat s div 2 ^ 16"
proof -
  have "unat s mod 2 ^ 16 < 2 ^ 16" "unat s div 2 ^ 16 < 2 ^ 16" using unat_u32_less [of s] by (simp_all add: less_mult_imp_div_less)
  then show ?thesis by (simp add: unat_word_ariths unat_low_bits unat_drop_bit_div)
qed

lemma fold_decreases: "drop_bit 16 s \<noteq> 0 \<Longrightarrow> unat ((s AND 0xffff) + drop_bit 16 s) < unat (s :: u32)"
proof -
  assume "drop_bit 16 s \<noteq> 0"
  then have "0 < unat s div 2 ^ 16" by (metis unat_drop_bit_div unat_gt_0)
  moreover have "y + x < n" if "0 < x" "x * 2 ^ 16 + y = n" for x y n :: nat using that by simp
  ultimately show ?thesis unfolding unat_fold_step using div_mult_mod_eq [of "unat s" "2 ^ 16"] by blast
qed

termination cksum_fold
  by (relation "measure unat") (auto intro: fold_decreases)

declare cksum_fold.simps [simp del]

lemma cksum_fold_value: "unat (cksum_fold s) < 2 ^ 16 \<and> unat (cksum_fold s) mod 65535 = unat s mod 65535"
proof (induction s rule: cksum_fold.induct)
  case (1 s)
  show ?case
  proof (cases "drop_bit 16 s = 0")
    case True
    then have "unat s div 2 ^ 16 = 0" by (metis unat_0 unat_drop_bit_div)
    then show ?thesis using True by (simp add: cksum_fold.simps [of s] div_eq_0_iff)
  next
    case False
    define x where "x = unat s div 2 ^ 16"
    define y where "y = unat s mod 2 ^ 16"
    have e: "unat s = x * 65535 + (y + x)" using div_mult_mod_eq [of "unat s" "2 ^ 16"] by (simp add: x_def y_def)
    have "unat s mod 65535 = (y + x) mod 65535" unfolding e by (rule mod_mult_self3)
    moreover have "unat ((s AND 0xffff) + drop_bit 16 s) = y + x" by (simp only: unat_fold_step x_def y_def)
    moreover have "cksum_fold s = cksum_fold ((s AND 0xffff) + drop_bit 16 s)" using False by (simp only: cksum_fold.simps [of s] if_True not_False_eq_True)
    ultimately show ?thesis using "1.IH" [OF False] by simp
  qed
qed

text \<open>The big-endian 16-bit words of a block, a last odd byte with 0 behind it.\<close>

fun be_sum :: "bytes \<Rightarrow> nat" where
  "be_sum (x # y # bs) = 256 * unat x + unat y + be_sum bs"
| "be_sum [x] = 256 * unat x"
| "be_sum [] = 0"

lemma be_word: "unat (push_bit 8 (ucast x) OR ucast y :: u32) = 256 * unat (x :: u8) + unat (y :: u8)"
proof -
  have "push_bit 8 (ucast x) AND (ucast y :: u32) = 0" by (rule bit_word_eqI) (auto simp: bit_simps dest: bit_imp_le_length)
  then have "push_bit 8 (ucast x) OR ucast y = (push_bit 8 (ucast x) + ucast y :: u32)" by (simp add: disjunctive_add_eq_or)
  moreover have "unat (ucast x :: u32) = unat x" "unat (ucast y :: u32) = unat y"
    using unat_u8_less [of x] unat_u8_less [of y] by (simp_all add: unsigned_ucast_eq take_bit_nat_eq_self)
  ultimately show ?thesis using unat_u8_less [of x] unat_u8_less [of y] by (simp add: unat_word_ariths push_bit_eq_mult)
qed

lemma cksum_add_value:
  "unat s + be_sum bs < 2 ^ 32 \<Longrightarrow> \<exists>s'. cksum_add (pre @ bs @ post) (length pre) (length bs) s = Some s' \<and> unat s' = unat s + be_sum bs"
proof (induction bs arbitrary: pre s rule: be_sum.induct)
  case (1 x y bs)
  let ?s = "s + (push_bit 8 (ucast x) OR ucast y)"
  have u: "unat ?s = unat s + (256 * unat x + unat y)" using "1.prems" by (simp add: unat_word_ariths be_word)
  then have "unat ?s + be_sum bs < 2 ^ 32" using "1.prems" by simp
  from "1.IH" [OF this, of "pre @ [x, y]"] obtain s'
    where s': "cksum_add (pre @ (x # y # bs) @ post) (length pre + 2) (length bs) ?s = Some s'" "unat s' = unat ?s + be_sum bs" by auto
  have "arr_get (pre @ (x # y # bs) @ post) (length pre) = Some x" "arr_get (pre @ (x # y # bs) @ post) (Suc (length pre)) = Some y"
    by (simp_all add: nth_append)
  then show ?case using s' u by (subst cksum_add.simps) simp
next
  case (2 x)
  have u: "unat (s + push_bit 8 (ucast x)) = unat s + 256 * unat x"
    using "2.prems" be_word [of x 0] by (simp add: unat_word_ariths)
  have "arr_get (pre @ [x] @ post) (length pre) = Some x" by (simp add: nth_append)
  then show ?case using u by (subst cksum_add.simps) simp
next
  case 3
  then show ?case by (subst cksum_add.simps) simp
qed

section \<open>Properties\<close>

text \<open>
  The 64-bit helpers compute 64-bit arithmetic on 32-bit halves: \<open>bcm_uint64_multiple_add\<close> is exactly
  \<open>a * b + c\<close>, \<open>bcm_add_64\<close> and \<open>bcm_sub_64\<close> are the sum and the difference modulo \<open>2 ^ 64\<close>.
\<close>

theorem uint64_arithmetic:
  "(case bcm_uint64_multiple_add a b c of (h, l) \<Rightarrow> num64 h l = unat a * unat b + unat c) \<and>
   (case bcm_add_64 hi lo n of (h, l) \<Rightarrow> num64 h l = (num64 hi lo + unat n) mod 2 ^ 64) \<and>
   (case bcm_sub_64 hi lo n of (h, l) \<Rightarrow> (num64 h l + unat n) mod 2 ^ 64 = num64 hi lo)"
  using multiple_add_value add_64_value sub_64_value by (simp split: prod.split)

text \<open>
  C22. \<open>bcm_uint64_divide\<close> ends and gives the low 32 bits of the quotient, except for divisors that
  divide \<open>2 ^ 32\<close> (the powers of two), where the result is too small by the high half of the dividend.
\<close>

theorem uint64_divide:
  assumes "2 \<le> unat b"
  shows "bcm_uint64_divide r hi lo b = of_nat (num64 hi lo div unat b - (if unat b dvd 2 ^ 32 then unat hi else 0))"
proof -
  obtain x q where l: "div_loop b hi lo 0 = (x, q)" by fastforce
  have "\<not> b < 2" using assms by (simp add: word_less_nat_alt)
  then show ?thesis using div_loop_value [OF assms l] l by (simp add: bcm_uint64_divide_def)
qed

theorem uint64_divide_witness: "bcm_uint64_divide 0 1 0 3 = 0x55555555 \<and> bcm_uint64_divide 0 1 0 2 = 0x7fffffff"
  using uint64_divide [of 3 0 1 0] uint64_divide [of 2 0 1 0] by (simp add: num64_def)

text \<open>
  \<open>bcm_ip_cksum\<close> is the Internet checksum: when the sum does not exceed 32 bits, the words of the block,
  the initial sum and the result add up to 0 modulo 65535, and the folding of the carries ends.
\<close>

theorem ip_cksum_complements:
  assumes "p + unat len \<le> length buf" and "unat s + be_sum (take (unat len) (drop p buf)) < 2 ^ 32"
  shows "\<exists>r. bcm_ip_cksum buf p len s = Some r \<and> (unat s + be_sum (take (unat len) (drop p buf)) + unat r) mod 65535 = 0"
proof -
  let ?bs = "take (unat len) (drop p buf)"
  have e: "take p buf @ ?bs @ drop (p + unat len) buf = buf" by (metis add.commute append_take_drop_id drop_drop)
  have n: "length (take p buf) = p" "length ?bs = unat len" using assms(1) by simp_all
  from cksum_add_value [OF assms(2), of "take p buf" "drop (p + unat len) buf", unfolded e n] obtain s'
    where s': "cksum_add buf p (unat len) s = Some s'" "unat s' = unat s + be_sum ?bs" by blast
  let ?f = "cksum_fold s'"
  have f: "unat ?f < 2 ^ 16" "unat ?f mod 65535 = unat s' mod 65535" using cksum_fold_value [of s'] by auto
  have "unat (ucast (NOT ?f) :: u16) = 65535 - unat ?f"
  proof -
    have "(ucast (NOT ?f) :: u16) = NOT (ucast ?f)" by (rule bit_word_eqI) (simp add: bit_simps)
    moreover have "unat (ucast ?f :: u16) = unat ?f" using f(1) by (simp add: unsigned_ucast_eq take_bit_nat_eq_self)
    moreover have "unat (NOT w) = 65535 - unat w" for w :: u16
    proof -
      have "NOT w = 0xFFFF - w" by (simp add: not_eq_complement)
      then show ?thesis using unat_u16_less [of w] by (simp add: unat_sub word_le_nat_alt)
    qed
    ultimately show ?thesis by simp
  qed
  then have r: "unat ?f + unat (ucast (NOT ?f) :: u16) = 65535" using f(1) by simp
  have "(unat s' + unat (ucast (NOT ?f) :: u16)) mod 65535 = (unat ?f + unat (ucast (NOT ?f) :: u16)) mod 65535"
    using f(2) by (metis mod_add_left_eq)
  then show ?thesis using s' r by (simp add: bcm_ip_cksum_def)
qed

theorem ip_cksum_complements_witness:
  "\<exists>r. bcm_ip_cksum [0x45, 0, 0, 0x1c, 7] 0 5 0 = Some r \<and> (19484 + unat r) mod 65535 = 0"
  using ip_cksum_complements [of 0 5 "[0x45, 0, 0, 0x1c, 7]" 0] by simp

text \<open>
  Numbers in byte arrays: incrementing adds modulo \<open>256 ^ n\<close> and touches only the \<open>n\<close> bytes, and
  comparing two arrays has the sign of comparing the numbers.
\<close>

theorem byte_numbers:
  assumes "n \<le> length num" and "unat k \<le> length xs" and "unat k \<le> length ys"
  shows "\<exists>num'. bcm_inc_bytes num n amount = Some num' \<and> length num' = length num \<and> drop n num' = drop n num \<and>
      le_value (take n num') = (le_value (take n num) + unat amount) mod 256 ^ n"
    and "\<exists>r. bcm_cmp_bytes xs ys k = Some r \<and> (r < 0 \<longleftrightarrow> le_value (take (unat k) xs) < le_value (take (unat k) ys)) \<and>
      (r = 0 \<longleftrightarrow> take (unat k) xs = take (unat k) ys)"
proof -
  have "length (take n num) = n" using assms(1) by simp
  from inc_loop_value [OF this, of "[]" "drop n num" amount]
  show "\<exists>num'. bcm_inc_bytes num n amount = Some num' \<and> length num' = length num \<and> drop n num' = drop n num \<and>
      le_value (take n num') = (le_value (take n num) + unat amount) mod 256 ^ n"
    using assms(1) by (auto simp: bcm_inc_bytes_def)
  show "\<exists>r. bcm_cmp_bytes xs ys k = Some r \<and> (r < 0 \<longleftrightarrow> le_value (take (unat k) xs) < le_value (take (unat k) ys)) \<and>
      (r = 0 \<longleftrightarrow> take (unat k) xs = take (unat k) ys)"
    using cmp_loop_value [OF assms(2,3)] by (simp add: bcm_cmp_bytes_def)
qed

theorem byte_numbers_witness: "\<exists>num'. bcm_inc_bytes [255, 255, 9] 2 3 = Some num' \<and> le_value (take 2 num') = 2"
  using byte_numbers(1) [of 2 "[255, 255, 9]" 0 "[]" "[]" 3] by auto

end
