(* ===== verification/Bcm_Tlv.thy ===== *)
theory Bcm_Tlv
  imports Byte_Buf
begin

text \<open>
  Records with an 8-bit id and an 8-bit length (\<open>bcm_tlv_t\<close>, the information elements of 802.11) of
  \<open>shared/bcmutils.c\<close>: writing, copying, walking and searching. A pointer to a record is an offset in
  a block; the lengths are C \<open>int\<close> values.
\<close>

abbreviation (input) BCM_TLV_HDR_SIZE :: nat where "BCM_TLV_HDR_SIZE \<equiv> 2"
abbreviation (input) BCM_TLV_MAX_DATA_SIZE :: int where "BCM_TLV_MAX_DATA_SIZE \<equiv> 255"
abbreviation (input) DOT11_MNG_PROPR_ID :: u8 where "DOT11_MNG_PROPR_ID \<equiv> 221"
abbreviation (input) DOT11_OUI_LEN :: nat where "DOT11_OUI_LEN \<equiv> 3"

section \<open>Writing\<close>

text \<open>
  The result: the block and the position behind the record. \<open>data\<close> is NULL or the block read from.
  Invalid arguments leave the block and the position as they are: the assertions expand to nothing,
  and the code tests the same conditions again.
\<close>

definition bcm_write_tlv :: "int \<Rightarrow> bytes option \<Rightarrow> int \<Rightarrow> bytes \<Rightarrow> nat \<Rightarrow> (bytes \<times> nat) option" where
  "bcm_write_tlv type data datalen buf dst =
     (if 0 \<le> datalen \<and> datalen \<le> BCM_TLV_MAX_DATA_SIZE \<and> (data \<noteq> None \<or> datalen = 0)
      then do {
        buf \<leftarrow> arr_set buf dst (of_int type);
        buf \<leftarrow> arr_set buf (dst + 1) (of_int datalen);
        buf \<leftarrow> (if 0 < datalen
                 then do { d \<leftarrow> data; src \<leftarrow> mem_copy_from d 0 (nat datalen); mem_copy_to buf (dst + BCM_TLV_HDR_SIZE) src }
                 else Some buf);
        Some (buf, dst + BCM_TLV_HDR_SIZE + nat datalen)
      }
      else Some (buf, dst))"

definition bcm_write_tlv_safe :: "int \<Rightarrow> bytes option \<Rightarrow> int \<Rightarrow> bytes \<Rightarrow> nat \<Rightarrow> int \<Rightarrow> (bytes \<times> nat) option" where
  "bcm_write_tlv_safe type data datalen buf dst dst_maxlen =
     (if 0 \<le> datalen \<and> datalen \<le> BCM_TLV_MAX_DATA_SIZE \<and> datalen + int BCM_TLV_HDR_SIZE \<le> dst_maxlen
      then bcm_write_tlv type data datalen buf dst else Some (buf, dst))"

definition bcm_copy_tlv :: "bytes \<Rightarrow> nat \<Rightarrow> bytes \<Rightarrow> nat \<Rightarrow> (bytes \<times> nat) option" where
  "bcm_copy_tlv srcbuf src buf dst = do {
     len \<leftarrow> arr_get srcbuf (src + 1);
     let totlen = BCM_TLV_HDR_SIZE + unat len;
     bs \<leftarrow> mem_copy_from srcbuf src totlen;
     buf \<leftarrow> mem_copy_to buf dst bs;
     Some (buf, dst + totlen)
   }"

section \<open>Walking\<close>

definition bcm_valid_tlv :: "bytes \<Rightarrow> nat \<Rightarrow> int \<Rightarrow> bool option" where
  "bcm_valid_tlv buf elt buflen =
     (if buflen < int BCM_TLV_HDR_SIZE then Some False
      else do { len \<leftarrow> arr_get buf (elt + 1); Some (int BCM_TLV_HDR_SIZE + uint len \<le> buflen) })"

definition bcm_copy_tlv_safe :: "bytes \<Rightarrow> nat \<Rightarrow> bytes \<Rightarrow> nat \<Rightarrow> int \<Rightarrow> (bytes \<times> nat) option" where
  "bcm_copy_tlv_safe srcbuf src buf dst dst_maxlen = do {
     v \<leftarrow> bcm_valid_tlv srcbuf src dst_maxlen;
     if v then bcm_copy_tlv srcbuf src buf dst else Some (buf, dst)
   }"

text \<open>The result: the next record, if there is one, and the updated \<open>buflen\<close>.\<close>

definition bcm_next_tlv :: "bytes \<Rightarrow> nat \<Rightarrow> int \<Rightarrow> (nat option \<times> int) option" where
  "bcm_next_tlv buf elt buflen = do {
     v \<leftarrow> bcm_valid_tlv buf elt buflen;
     if \<not> v then Some (None, buflen)
     else do {
       len \<leftarrow> arr_get buf (elt + 1);
       let elt = elt + BCM_TLV_HDR_SIZE + unat len;
       let buflen = buflen - (int BCM_TLV_HDR_SIZE + uint len);
       v \<leftarrow> bcm_valid_tlv buf elt buflen;
       Some (if v then Some elt else None, buflen)
     }
   }"

section \<open>Searching\<close>

text \<open>\<open>ordered\<close> selects the test of \<open>bcm_parse_ordered_tlvs\<close> that ends the search at a larger id.\<close>

function parse_loop :: "bool \<Rightarrow> bytes \<Rightarrow> nat \<Rightarrow> int \<Rightarrow> u32 \<Rightarrow> nat option option" where
  "parse_loop ordered buf elt totlen key =
     (if totlen < int BCM_TLV_HDR_SIZE then Some None
      else do {
        ident \<leftarrow> arr_get buf elt;
        len \<leftarrow> arr_get buf (elt + 1);
        if ordered \<and> key < ucast ident then Some None
        else if ucast ident = key \<and> uint len + int BCM_TLV_HDR_SIZE \<le> totlen then Some (Some elt)
        else parse_loop ordered buf (elt + (unat len + BCM_TLV_HDR_SIZE)) (totlen - (uint len + int BCM_TLV_HDR_SIZE)) key
      })"
  by pat_completeness auto
termination by (relation "measure (\<lambda>(ordered, buf, elt, totlen, key). nat totlen)") (auto intro: order.strict_trans1 [of _ 0])

declare parse_loop.simps [simp del]

definition bcm_parse_tlvs :: "bytes option \<Rightarrow> int \<Rightarrow> u32 \<Rightarrow> nat option option" where
  "bcm_parse_tlvs buf buflen key = (case buf of None \<Rightarrow> Some None | Some b \<Rightarrow> parse_loop False b 0 buflen key)"

definition bcm_parse_tlvs_min_bodylen :: "bytes option \<Rightarrow> int \<Rightarrow> u32 \<Rightarrow> int \<Rightarrow> nat option option" where
  "bcm_parse_tlvs_min_bodylen buf buflen key min_bodylen = do {
     ret \<leftarrow> bcm_parse_tlvs buf buflen key;
     (case ret of
        None \<Rightarrow> Some None
      | Some elt \<Rightarrow> do { b \<leftarrow> buf; len \<leftarrow> arr_get b (elt + 1); Some (if uint len < min_bodylen then None else ret) })
   }"

definition bcm_parse_ordered_tlvs :: "bytes \<Rightarrow> int \<Rightarrow> u32 \<Rightarrow> nat option option" where
  "bcm_parse_ordered_tlvs buf buflen key = parse_loop True buf 0 buflen key"

text \<open>The walk of \<open>bcm_find_vendor_ie\<close>; each round advances by a record, so \<open>n\<close> rounds are enough for \<open>n\<close> bytes.\<close>

fun vendor_loop :: "nat \<Rightarrow> bytes \<Rightarrow> nat \<Rightarrow> int \<Rightarrow> bytes \<Rightarrow> bytes \<Rightarrow> nat option option" where
  "vendor_loop 0 buf ie tlvs_len voui type = None"
| "vendor_loop (Suc n) buf ie tlvs_len voui type = do {
     ident \<leftarrow> arr_get buf ie;
     ie_len \<leftarrow> arr_get buf (ie + 1);
     hit \<leftarrow> (if ident = DOT11_MNG_PROPR_ID \<and> DOT11_OUI_LEN + length type \<le> unat ie_len
             then do {
               oui \<leftarrow> mem_copy_from buf (ie + 2) DOT11_OUI_LEN;
               ty \<leftarrow> mem_copy_from buf (ie + 2 + DOT11_OUI_LEN) (length type);
               Some (oui = voui \<and> ty = type)
             }
             else Some False);
     if hit then Some (Some ie)
     else do {
       (nxt, tlvs_len) \<leftarrow> bcm_next_tlv buf ie tlvs_len;
       (case nxt of None \<Rightarrow> Some None | Some ie \<Rightarrow> vendor_loop n buf ie tlvs_len voui type)
     }
   }"

text \<open>\<open>voui\<close> has \<open>DOT11_OUI_LEN\<close> bytes; \<open>type\<close> the \<open>type_len\<close> bytes to compare, none for length 0.\<close>

definition bcm_find_vendor_ie :: "bytes option \<Rightarrow> int \<Rightarrow> bytes \<Rightarrow> bytes \<Rightarrow> nat option option" where
  "bcm_find_vendor_ie tlvs tlvs_len voui type =
     (case tlvs of
        None \<Rightarrow> Some None
      | Some buf \<Rightarrow> do {
          v \<leftarrow> bcm_valid_tlv buf 0 tlvs_len;
          if v then vendor_loop (nat tlvs_len) buf 0 tlvs_len voui type else Some None
        })"

section \<open>The records of a block\<close>

lemma unat_ucast8: "unat (ucast (i :: u8) :: u32) = unat i"
  using unat_u8_less [of i] by (simp add: unsigned_ucast_eq take_bit_nat_eq_self)

text \<open>Position, id and data of the complete records at the start of a block; \<open>p\<close> is the position of the block.\<close>

fun tlvs_at :: "nat \<Rightarrow> bytes \<Rightarrow> (nat \<times> u8 \<times> bytes) list" where
  "tlvs_at p (ident # len # bs) =
     (if unat len \<le> length bs
      then (p, ident, take (unat len) bs) # tlvs_at (p + 2 + unat len) (drop (unat len) bs) else [])"
| "tlvs_at p _ = []"

lemma tlvs_at_bounds: "(o', i, d) \<in> set (tlvs_at p bs) \<Longrightarrow> p \<le> o' \<and> o' + 2 + length d \<le> p + length bs \<and>
    drop (o' - p) bs = i # of_nat (length d) # d @ drop (o' - p + 2 + length d) bs"
proof (induction p bs rule: tlvs_at.induct)
  case (1 p ident len bs)
  show ?case
  proof (cases "unat len \<le> length bs \<and> (o', i, d) \<noteq> (p, ident, take (unat len) bs)")
    case True
    then have "(o', i, d) \<in> set (tlvs_at (p + 2 + unat len) (drop (unat len) bs))" using "1.prems" by auto
    note h = "1.IH" [OF conjunct1 [OF True] this]
    then obtain k where k: "o' = p + 2 + unat len + k" using le_Suc_ex by blast
    show ?thesis using h True unfolding k by (simp add: ac_simps)
  next
    case False
    then have "o' = p" "i = ident" "d = take (unat len) bs" "unat len \<le> length bs" using "1.prems" by (auto split: if_splits)
    then show ?thesis by simp
  qed
qed simp_all

text \<open>The search finds the first record with the key, before any larger id in the ordered variant.\<close>

definition tlv_find :: "bool \<Rightarrow> u32 \<Rightarrow> (nat \<times> u8 \<times> bytes) list \<Rightarrow> nat option" where
  "tlv_find ordered key ts = map_option fst (find (\<lambda>(_, i, _). ucast i = key) (takeWhile (\<lambda>(_, i, _). \<not> (ordered \<and> key < ucast i)) ts))"

lemma tlv_find_simps [simp]:
  "tlv_find ordered key [] = None"
  "tlv_find ordered key ((p, i, d) # ts) =
     (if ordered \<and> key < ucast i then None else if ucast i = key then Some p else tlv_find ordered key ts)"
  by (auto simp: tlv_find_def)

lemma tlv_find_unordered: "tlv_find False key ts = map_option fst (find (\<lambda>(_, i, _). ucast i = key) ts)"
  by (induction ts) auto

lemma tlv_find_sorted:
  "sorted (map (\<lambda>(_, i, _). unat i) ts) \<Longrightarrow> tlv_find True key ts = tlv_find False key ts"
proof (induction ts)
  case (Cons t ts)
  obtain p i d where t: "t = (p, i, d)" by (cases t)
  have "tlv_find False key ts = None" if k: "key < ucast i"
  proof -
    have "ucast j \<noteq> key" if "(q, j, e) \<in> set ts" for q j e
    proof -
      have "unat i \<le> unat j" using Cons.prems that by (auto simp: t)
      then show ?thesis using k by (auto simp: word_less_nat_alt unat_ucast8)
    qed
    then have "find (\<lambda>(_, i, _). ucast i = key) ts = None" by (auto simp: find_None_iff)
    then show ?thesis by (simp add: tlv_find_unordered)
  qed
  then show ?case using Cons by (auto simp: t)
qed simp

lemma parse_loop_find:
  "parse_loop ordered (pre @ bs @ post) (length pre) (int (length bs)) key = Some (tlv_find ordered key (tlvs_at (length pre) bs))"
proof (induction "length pre" bs arbitrary: pre rule: tlvs_at.induct)
  case (1 ident len bs)
  let ?b = "pre @ (ident # len # bs) @ post"
  have g: "arr_get ?b (length pre) = Some ident" "arr_get ?b (length pre + 1) = Some len" by (simp_all add: nth_append)
  show ?case
  proof (cases "unat len \<le> length bs")
    case True
    define pre' where "pre' = pre @ ident # len # take (unat len) bs"
    have l: "length pre' = length pre + 2 + unat len" "?b = pre' @ drop (unat len) bs @ post" using True by (simp_all add: pre'_def)
    have "parse_loop ordered ?b (length pre') (int (length (drop (unat len) bs))) key =
        Some (tlv_find ordered key (tlvs_at (length pre') (drop (unat len) bs)))"
      unfolding l(2) by (rule "1.hyps" [OF True l(1) [symmetric]])
    moreover have "int (length (ident # len # bs)) - (uint len + 2) = int (length (drop (unat len) bs))" using True unfolding uint_nat by simp
    moreover have "uint len + 2 \<le> int (length (ident # len # bs))" using True unfolding uint_nat by simp
    ultimately show ?thesis using True g l(1) by (subst parse_loop.simps) (auto simp: ac_simps)
  next
    case False
    then have f: "\<not> uint len + 2 \<le> int (length (ident # len # bs))" unfolding uint_nat by simp
    then have "int (length (ident # len # bs)) - (uint len + 2) < 2" by linarith
    then have "parse_loop ordered ?b (length pre + (unat len + 2)) (int (length (ident # len # bs)) - (uint len + 2)) key = Some None"
      by (subst parse_loop.simps) simp
    then show ?thesis using False f g by (subst parse_loop.simps) simp
  qed
qed (subst parse_loop.simps, simp)+

lemma valid_tlv_at:
  "bcm_valid_tlv (pre @ bs @ post) (length pre) (int (length bs)) = Some (tlvs_at (length pre) bs \<noteq> [])"
proof (cases "(length pre, bs)" rule: tlvs_at.cases)
  case (1 p ident len cs)
  then have "arr_get (pre @ bs @ post) (length pre + 1) = Some len" by (simp add: nth_append)
  then show ?thesis using 1 unfolding bcm_valid_tlv_def uint_nat by simp
qed (simp_all add: bcm_valid_tlv_def)

lemma next_tlv_at:
  assumes bs: "bs = ident # len # d @ cs" and l: "unat len = length d"
  shows "bcm_next_tlv (pre @ bs @ post) (length pre) (int (length bs)) =
     Some (if tlvs_at (length pre + 2 + length d) cs = [] then None else Some (length pre + 2 + length d), int (length cs))"
proof -
  let ?b = "pre @ bs @ post" and ?e = "length pre + 2 + length d"
  have g: "arr_get ?b (length pre + 1) = Some len" by (simp add: bs nth_append)
  have v: "bcm_valid_tlv ?b (length pre) (int (length bs)) = Some True" using valid_tlv_at [of pre bs post] l by (simp add: bs)
  have b: "?b = (pre @ ident # len # d) @ cs @ post" and e: "length (pre @ ident # len # d) = ?e" by (simp_all add: bs)
  have "bcm_valid_tlv ?b ?e (int (length cs)) = Some (tlvs_at ?e cs \<noteq> [])"
    using valid_tlv_at [of "pre @ ident # len # d" cs post] unfolding e b .
  moreover have "int (length bs) - (2 + uint len) = int (length cs)" unfolding uint_nat using l by (simp add: bs)
  ultimately show ?thesis using v g l by (simp add: bcm_next_tlv_def Let_def)
qed

definition vendor_match :: "bytes \<Rightarrow> bytes \<Rightarrow> nat \<times> u8 \<times> bytes \<Rightarrow> bool" where
  "vendor_match voui type t = (case t of (_, i, d) \<Rightarrow> i = 221 \<and> 3 + length type \<le> length d \<and> take 3 d = voui \<and> take (length type) (drop 3 d) = type)"

lemma vendor_loop_find:
  "length voui = 3 \<Longrightarrow> length bs \<le> n \<Longrightarrow> tlvs_at (length pre) bs \<noteq> [] \<Longrightarrow>
   vendor_loop n (pre @ bs @ post) (length pre) (int (length bs)) voui type = Some (map_option fst (find (vendor_match voui type) (tlvs_at (length pre) bs)))"
proof (induction n arbitrary: pre bs)
  case (Suc n)
  obtain ident len ds where bs0: "bs = ident # len # ds" "unat len \<le> length ds" using Suc.prems(3) by (cases "(length pre, bs)" rule: tlvs_at.cases) (auto split: if_splits)
  define d where "d = take (unat len) ds"
  define cs where "cs = drop (unat len) ds"
  have bs: "bs = ident # len # d @ cs" and l: "unat len = length d" using bs0 by (simp_all add: d_def cs_def)
  let ?b = "pre @ bs @ post" and ?e = "length pre + 2 + length d"
  have g: "arr_get ?b (length pre) = Some ident" "arr_get ?b (length pre + 1) = Some len" by (simp_all add: bs nth_append)
  have tl: "tlvs_at (length pre) bs = (length pre, ident, d) # tlvs_at ?e cs" using l by (simp add: bs)
  have hit: "(if ident = 221 \<and> 3 + length type \<le> unat len
      then do { oui \<leftarrow> mem_copy_from ?b (length pre + 2) 3; ty \<leftarrow> mem_copy_from ?b (length pre + 2 + 3) (length type); Some (oui = voui \<and> ty = type) }
      else Some False) = Some (vendor_match voui type (length pre, ident, d))"
    using l by (auto simp: vendor_match_def mem_copy_from_def bs)
  show ?case
  proof (cases "vendor_match voui type (length pre, ident, d)")
    case True
    then show ?thesis using g hit tl by simp
  next
    case False
    have r: "vendor_loop (Suc n) ?b (length pre) (int (length bs)) voui type =
        (if tlvs_at ?e cs = [] then Some None else vendor_loop n ?b ?e (int (length cs)) voui type)"
      using g hit False next_tlv_at [OF bs l, of pre post] by simp
    have b: "?b = (pre @ ident # len # d) @ cs @ post" and e: "length (pre @ ident # len # d) = ?e" by (simp_all add: bs)
    have "vendor_loop n ?b ?e (int (length cs)) voui type = Some (map_option fst (find (vendor_match voui type) (tlvs_at ?e cs)))" if "tlvs_at ?e cs \<noteq> []"
      using Suc.IH [of cs "pre @ ident # len # d"] Suc.prems(1,2) that unfolding e b by (simp add: bs)
    then show ?thesis using False r tl by auto
  qed
qed simp

section \<open>Writing a sequence\<close>

fun write_tlvs :: "(u8 \<times> bytes) list \<Rightarrow> bytes \<Rightarrow> nat \<Rightarrow> int \<Rightarrow> (bytes \<times> nat) option" where
  "write_tlvs [] buf dst room = Some (buf, dst)"
| "write_tlvs ((i, d) # ts) buf dst room = do {
     (buf, dst') \<leftarrow> bcm_write_tlv_safe (uint i) (Some d) (int (length d)) buf dst room;
     write_tlvs ts buf dst' (room - int (dst' - dst))
   }"

fun tlv_bytes :: "(u8 \<times> bytes) list \<Rightarrow> bytes" where
  "tlv_bytes [] = []"
| "tlv_bytes ((i, d) # ts) = i # of_nat (length d) # d @ tlv_bytes ts"

lemma tlvs_at_bytes: "list_all (\<lambda>(i, d). length d \<le> 255) ts \<Longrightarrow> map snd (tlvs_at p (tlv_bytes ts)) = ts"
proof (induction ts arbitrary: p)
  case (Cons t ts)
  obtain i d where t: "t = (i, d)" by (cases t)
  have "unat (of_nat (length d) :: u8) = length d" using Cons.prems by (simp add: t unat_of_nat take_bit_nat_eq_self)
  then show ?case using Cons by (simp add: t)
qed simp

lemma write_tlv_mid:
  assumes "length old = 2 + length d" and "length d \<le> 255"
  shows "bcm_write_tlv (uint i) (Some d) (int (length d)) (pre @ old @ post) (length pre) =
     Some (pre @ (i # of_nat (length d) # d) @ post, length pre + 2 + length d)"
proof -
  obtain x y os where old: "old = x # y # os" "length os = length d" using assms(1) by (cases old; cases "tl old") auto
  let ?b = "pre @ (i # of_nat (length d) # os) @ post"
  have s: "arr_set (pre @ old @ post) (length pre) i = Some (pre @ (i # y # os) @ post)"
    "arr_set (pre @ (i # y # os) @ post) (length pre + 1) (of_nat (length d)) = Some ?b"
    by (simp_all add: old(1) list_update_append)
  have e: "?b = (pre @ [i, of_nat (length d)]) @ os @ post" "length (pre @ [i, of_nat (length d)]) = length pre + 2" by simp_all
  have "mem_copy_to ?b (length pre + 2) d = Some (pre @ (i # of_nat (length d) # d) @ post)"
    unfolding e(1) e(2) [symmetric] by (subst mem_copy_to_mid) (simp_all add: old(2))
  moreover have "d = [] \<Longrightarrow> os = []" using old(2) by simp
  ultimately show ?thesis using assms(2) s by (auto simp: bcm_write_tlv_def mem_copy_from_def)
qed

lemma write_tlvs_result:
  "length old = length (tlv_bytes ts) \<Longrightarrow> list_all (\<lambda>(i, d). length d \<le> 255) ts \<Longrightarrow> int (length old) \<le> room \<Longrightarrow>
   write_tlvs ts (pre @ old @ post) (length pre) room = Some (pre @ tlv_bytes ts @ post, length pre + length (tlv_bytes ts))"
proof (induction ts arbitrary: pre old room)
  case (Cons t ts)
  obtain i d where t: "t = (i, d)" by (cases t)
  define o1 where "o1 = take (2 + length d) old"
  define o2 where "o2 = drop (2 + length d) old"
  have o: "old = o1 @ o2" "length o1 = 2 + length d" "length o2 = length (tlv_bytes ts)" using Cons.prems(1) by (simp_all add: t o1_def o2_def)
  have ld: "length d \<le> 255" using Cons.prems(2) by (simp add: t)
  let ?pre = "pre @ i # of_nat (length d) # d"
  have "bcm_write_tlv_safe (uint i) (Some d) (int (length d)) (pre @ old @ post) (length pre) room = Some (?pre @ o2 @ post, length ?pre)"
    using write_tlv_mid [OF o(2) ld, of i pre "o2 @ post"] ld Cons.prems(3) o by (simp add: bcm_write_tlv_safe_def)
  moreover have "write_tlvs ts (?pre @ o2 @ post) (length ?pre) (room - int (length ?pre - length pre)) =
      Some (?pre @ tlv_bytes ts @ post, length ?pre + length (tlv_bytes ts))"
    by (rule Cons.IH) (use Cons.prems o in \<open>auto simp: t\<close>)
  ultimately show ?case by (simp add: t)
qed simp

section \<open>Properties\<close>

text \<open>
  C21. The searches agree with the list of the complete records of the block: \<open>bcm_parse_tlvs\<close> finds the
  first record with the key, \<open>bcm_parse_ordered_tlvs\<close> the first one before any larger id, and with
  increasing ids both are the same; \<open>bcm_find_vendor_ie\<close> finds the first vendor record with the
  identifier and type. None reads outside the length it is given.
\<close>

theorem tlv_searches:
  assumes "0 \<le> buflen" and "buflen \<le> int (length buf)" and "length voui = 3"
  shows "let ts = tlvs_at 0 (take (nat buflen) buf) in
     bcm_parse_tlvs (Some buf) buflen key = Some (tlv_find False key ts) \<and>
     bcm_parse_ordered_tlvs buf buflen key = Some (tlv_find True key ts) \<and>
     (sorted (map (\<lambda>(_, i, _). unat i) ts) \<longrightarrow> bcm_parse_ordered_tlvs buf buflen key = bcm_parse_tlvs (Some buf) buflen key) \<and>
     bcm_find_vendor_ie (Some buf) buflen voui type = Some (map_option fst (find (vendor_match voui type) ts))"
proof -
  define ts where "ts = tlvs_at 0 (take (nat buflen) buf)"
  let ?n = "nat buflen"
  have n: "?n \<le> length buf" "int ?n = buflen" using assms(1,2) by simp_all
  have b: "take ?n buf @ drop ?n buf = buf" "length (take ?n buf) = ?n" using n(1) by simp_all
  note f = parse_loop_find [of _ "[]" "take ?n buf" "drop ?n buf" key, simplified append_Nil list.size b n]
  have p: "bcm_parse_tlvs (Some buf) buflen key = Some (tlv_find False key ts)" using f by (simp add: bcm_parse_tlvs_def ts_def)
  have o: "bcm_parse_ordered_tlvs buf buflen key = Some (tlv_find True key ts)" using f by (simp add: bcm_parse_ordered_tlvs_def ts_def)
  have s: "bcm_parse_ordered_tlvs buf buflen key = bcm_parse_tlvs (Some buf) buflen key" if "sorted (map (\<lambda>(_, i, _). unat i) ts)"
    unfolding p o using tlv_find_sorted [OF that] by simp
  note v = valid_tlv_at [of "[]" "take ?n buf" "drop ?n buf", simplified append_Nil list.size b n]
  note w = vendor_loop_find [of voui "take ?n buf" ?n "[]" "drop ?n buf" type, simplified append_Nil list.size b n, OF assms(3)]
  have "bcm_find_vendor_ie (Some buf) buflen voui type = Some (map_option fst (find (vendor_match voui type) ts))"
    using v w by (cases "ts = []") (simp_all add: bcm_find_vendor_ie_def ts_def)
  then show ?thesis using p o s unfolding Let_def ts_def [symmetric] by blast
qed

theorem tlv_searches_witness:
  "bcm_parse_tlvs (Some [1, 2, 7, 8, 221, 3, 0, 0x50, 0xf2]) 9 221 = Some (Some 4) \<and>
   bcm_find_vendor_ie (Some [1, 2, 7, 8, 221, 3, 0, 0x50, 0xf2]) 9 [0, 0x50, 0xf2] [] = Some (Some 4)"
  using tlv_searches [of 9 "[1, 2, 7, 8, 221, 3, 0, 0x50, 0xf2]" "[0, 0x50, 0xf2]" 221 "[]"] by (simp add: vendor_match_def)

text \<open>
  C23. Writing records one after the other and searching is a round trip: the block holds exactly the
  records, in order and nothing else is changed, and the first record with a key is found with its data.
\<close>

theorem tlv_write_search:
  assumes fit: "list_all (\<lambda>(i, d). length d \<le> 255) ts" "length (tlv_bytes ts) \<le> length buf"
  shows "\<exists>buf' n. write_tlvs ts buf 0 (int (length buf)) = Some (buf', n) \<and> length buf' = length buf \<and> n = length (tlv_bytes ts) \<and>
     drop n buf' = drop n buf \<and> map snd (tlvs_at 0 (take n buf')) = ts \<and>
     (case bcm_parse_tlvs (Some buf') (int n) key of
        Some (Some p) \<Rightarrow> \<exists>i d. find (\<lambda>(i, d). ucast i = key) ts = Some (i, d) \<and> take (2 + length d) (drop p buf') = i # of_nat (length d) # d
      | Some None \<Rightarrow> find (\<lambda>(i, d). ucast i = key) ts = None
      | None \<Rightarrow> False)"
proof -
  let ?n = "length (tlv_bytes ts)"
  define buf' where "buf' = tlv_bytes ts @ drop ?n buf"
  have "length (take ?n buf) = ?n" using fit(2) by simp
  from write_tlvs_result [OF this fit(1), of "int (length buf)" "[]" "drop ?n buf"]
  have w: "write_tlvs ts buf 0 (int (length buf)) = Some (buf', ?n)" using fit(2) by (simp add: buf'_def)
  let ?ts = "tlvs_at 0 (tlv_bytes ts)"
  have m: "map snd ?ts = ts" by (rule tlvs_at_bytes [OF fit(1)])
  have p: "bcm_parse_tlvs (Some buf') (int ?n) key = Some (tlv_find False key ?ts)"
    using parse_loop_find [of False "[]" "tlv_bytes ts" "drop ?n buf" key] by (simp add: bcm_parse_tlvs_def buf'_def)
  have fm: "find P (map snd xs) = map_option snd (find (P \<circ> snd) xs)" for P and xs :: "(nat \<times> u8 \<times> bytes) list"
    by (induction xs) auto
  have fs: "find (\<lambda>(i, d). ucast i = key) ts = map_option snd (find (\<lambda>(_, i, _). ucast i = key) ?ts)"
    using fm [of "\<lambda>(i, d). ucast i = key" ?ts] m by (simp add: comp_def split_def)
  have s: "case bcm_parse_tlvs (Some buf') (int ?n) key of
        Some (Some p) \<Rightarrow> \<exists>i d. find (\<lambda>(i, d). ucast i = key) ts = Some (i, d) \<and> take (2 + length d) (drop p buf') = i # of_nat (length d) # d
      | Some None \<Rightarrow> find (\<lambda>(i, d). ucast i = key) ts = None
      | None \<Rightarrow> False"
  proof (cases "find (\<lambda>(_, i, _). ucast i = key) ?ts")
    case None
    then show ?thesis using p fs by (simp add: tlv_find_unordered)
  next
    case (Some x)
    obtain q i d where x: "x = (q, i, d)" by (cases x)
    have "x \<in> set ?ts" using Some by (metis find_Some_iff nth_mem)
    then have "drop q (tlv_bytes ts) = i # of_nat (length d) # d @ drop (q + 2 + length d) (tlv_bytes ts)" "q + 2 + length d \<le> ?n"
      using tlvs_at_bounds [of q i d 0 "tlv_bytes ts"] by (simp_all add: x)
    then have "take (2 + length d) (drop q buf') = i # of_nat (length d) # d" by (simp add: buf'_def)
    then show ?thesis using p fs Some x by (simp add: tlv_find_unordered)
  qed
  have "length buf' = length buf" "drop ?n buf' = drop ?n buf" "take ?n buf' = tlv_bytes ts" using fit(2) by (simp_all add: buf'_def)
  then show ?thesis using w m s by (intro exI [of _ buf'] exI [of _ ?n]) simp
qed

theorem tlv_write_search_witness:
  "\<exists>buf' n. write_tlvs [(1, [7, 8]), (5, [])] [0, 0, 0, 0, 0, 0, 9] 0 7 = Some (buf', n) \<and> n = 6 \<and> map snd (tlvs_at 0 (take n buf')) = [(1, [7, 8]), (5, [])]"
proof -
  let ?ts = "[(1, [7, 8]), (5, [])] :: (u8 \<times> bytes) list" and ?buf = "[0, 0, 0, 0, 0, 0, 9] :: bytes"
  have a: "list_all (\<lambda>(i, d). length d \<le> 255) ?ts" "length (tlv_bytes ?ts) \<le> length ?buf" by simp_all
  have n: "length (tlv_bytes ?ts) = 6" "int (length ?buf) = 7" by simp_all
  from tlv_write_search [OF a, of 5] obtain buf' k where "write_tlvs ?ts ?buf 0 7 = Some (buf', k)" "k = 6" "map snd (tlvs_at 0 (take k buf')) = ?ts"
    unfolding n by (elim exE conjE) (rule that, assumption+)
  then show ?thesis by (intro exI conjI)
qed

end
