(* ===== verification/C_String.thy ===== *)
theory C_String
  imports Byte_Buf
begin

text \<open>
  C strings in byte buffers, as the C library's \<open>strcmp\<close>, \<open>strncpy\<close> and \<open>snprintf\<close> handle them, and the
  error strings of \<open>shared/bcmutils.c\<close>. Reading past the end of a buffer has no outcome.
\<close>

definition chars :: "string \<Rightarrow> bytes" where
  "chars s = map of_char s"

definition c_str :: "string \<Rightarrow> bytes" where
  "c_str s = chars s @ [0]"

text \<open>\<open>!strcmp(a, b)\<close>.\<close>

fun strcmp_eq :: "bytes \<Rightarrow> bytes \<Rightarrow> bool option" where
  "strcmp_eq (a # as) (b # bs) = (if a \<noteq> b then Some False else if a = 0 then Some True else strcmp_eq as bs)"
| "strcmp_eq _ _ = None"

text \<open>The \<open>n\<close> bytes that \<open>strncpy\<close> writes.\<close>

fun strncpy_bytes :: "nat \<Rightarrow> bytes \<Rightarrow> bytes option" where
  "strncpy_bytes 0 src = Some []"
| "strncpy_bytes (Suc n) [] = None"
| "strncpy_bytes (Suc n) (c # cs) = (if c = 0 then Some (replicate (Suc n) 0) else map_option (Cons c) (strncpy_bytes n cs))"

text \<open>\<open>%d\<close> and \<open>%u\<close>.\<close>

fun dec_digits :: "nat \<Rightarrow> bytes" where
  "dec_digits n = (if n < 10 then [] else dec_digits (n div 10)) @ [48 + of_nat (n mod 10)]"

declare dec_digits.simps [simp del]

definition dec_int :: "int \<Rightarrow> bytes" where
  "dec_int i = (if i < 0 then 45 # dec_digits (nat (- i)) else dec_digits (nat i))"

text \<open>What \<open>snprintf\<close> leaves in a buffer of \<open>n\<close> bytes, for a positive \<open>n\<close>.\<close>

definition snprintf_bytes :: "nat \<Rightarrow> bytes \<Rightarrow> bytes" where
  "snprintf_bytes n out = take (n - 1) out @ [0]"

section \<open>Error strings\<close>

definition bcmerrorstrtable :: "string list" where
  "bcmerrorstrtable = [''OK'', ''Undefined error'', ''Bad Argument'', ''Bad Option'', ''Not up'', ''Not down'', ''Not AP'', ''Not STA'',
     ''Bad Key Index'', ''Radio Off'', ''Not band locked'', ''No clock'', ''Bad Rate valueset'', ''Bad Band'', ''Buffer too short'',
     ''Buffer too long'', ''Busy'', ''Not Associated'', ''Bad SSID len'', ''Out of Range Channel'', ''Bad Channel'', ''Bad Address'',
     ''Not Enough Resources'', ''Unsupported'', ''Bad length'', ''Not Ready'', ''Not Permitted'', ''No Memory'', ''Associated'',
     ''Not In Range'', ''Not Found'', ''WME Not Enabled'', ''TSPEC Not Found'', ''ACM Not Supported'', ''Not WME Association'',
     ''SDIO Bus Error'', ''Dongle Not Accessible'', ''Incorrect version'', ''TX Failure'', ''RX Failure'', ''Device Not Present'',
     ''NMODE Disabled'', ''Nonresident overlay access'', ''Scan Rejected'', ''WLCMD usage error'', ''WLCMD ioctl error'',
     ''RWL serial port error'', ''Disabled'', ''Decrypt error'', ''Encrypt error'', ''MIC error'', ''Replay'', ''IE not found'',
     ''Data not found'']"

abbreviation (input) BCME_LAST :: int where "BCME_LAST \<equiv> -53"
abbreviation (input) BCME_STRLEN :: nat where "BCME_STRLEN \<equiv> 64"

definition bcmerrorstr :: "int \<Rightarrow> bytes" where
  "bcmerrorstr bcmerror =
     (if 0 < bcmerror \<or> bcmerror < BCME_LAST then snprintf_bytes 32 (chars ''Undefined error '' @ dec_int bcmerror)
      else c_str (bcmerrorstrtable ! nat (- bcmerror)))"

section \<open>Lemmas\<close>

lemma strcmp_eq_total: "length b \<le> length a \<Longrightarrow> 0 \<in> set b \<Longrightarrow> \<exists>r. strcmp_eq a b = Some r"
  by (induction a b rule: strcmp_eq.induct) auto

lemma strcmp_eq_True: "0 \<notin> set s \<Longrightarrow> strcmp_eq a (s @ [0]) = Some True \<longleftrightarrow> (\<exists>r. a = s @ 0 # r)"
proof (induction s arbitrary: a)
  case Nil
  then show ?case by (cases a) auto
next
  case (Cons c s)
  then show ?case by (cases a) auto
qed

lemma length_c_str [simp]: "length (c_str s) = Suc (length s)"
  by (simp add: c_str_def chars_def)

lemma zero_c_str [simp]: "0 \<in> set (c_str s)"
  by (simp add: c_str_def)

end
