(* ===== verification/Bcm_Str.thy ===== *)
theory Bcm_Str
  imports C_String
begin

text \<open>
  String utilities of \<open>shared/bcmutils.c\<close>: character classes, numbers, comparison, concatenation, tokens, and
  the text form of Ethernet and IPv4 addresses. A pointer that is only read is the list of bytes from it to the
  end of its block; strings that are written are a block and an offset. \<open>char\<close> is unsigned and \<open>ulong\<close> has 64
  bits, as on the ARM hosts of the driver.
\<close>

unbundle bit_operations_syntax

type_synonym u64 = "64 word"

section \<open>Character classes\<close>

abbreviation (input) BCM_U :: u8 where "BCM_U \<equiv> 0x01"
abbreviation (input) BCM_L :: u8 where "BCM_L \<equiv> 0x02"
abbreviation (input) BCM_D :: u8 where "BCM_D \<equiv> 0x04"
abbreviation (input) BCM_C :: u8 where "BCM_C \<equiv> 0x08"
abbreviation (input) BCM_P :: u8 where "BCM_P \<equiv> 0x10"
abbreviation (input) BCM_S :: u8 where "BCM_S \<equiv> 0x20"
abbreviation (input) BCM_X :: u8 where "BCM_X \<equiv> 0x40"
abbreviation (input) BCM_SP :: u8 where "BCM_SP \<equiv> 0x80"

text \<open>The table, written as runs of equal entries.\<close>

definition bcm_ctype :: "u8 list" where
  "bcm_ctype =
     replicate 9 BCM_C @ replicate 5 (BCM_C OR BCM_S) @ replicate 18 BCM_C @
     [BCM_S OR BCM_SP] @ replicate 15 BCM_P @ replicate 10 BCM_D @ replicate 7 BCM_P @
     replicate 6 (BCM_U OR BCM_X) @ replicate 20 BCM_U @ replicate 6 BCM_P @
     replicate 6 (BCM_L OR BCM_X) @ replicate 20 BCM_L @ replicate 4 BCM_P @ [BCM_C] @
     replicate 32 0 @ [BCM_S OR BCM_SP] @ replicate 31 BCM_P @
     replicate 23 BCM_U @ [BCM_P] @ replicate 7 BCM_U @ replicate 24 BCM_L @ [BCM_P] @ replicate 8 BCM_L"

definition bcm_ismask :: "u8 \<Rightarrow> u8" where "bcm_ismask c = bcm_ctype ! unat c"
definition bcm_isdigit :: "u8 \<Rightarrow> bool" where "bcm_isdigit c \<longleftrightarrow> bcm_ismask c AND BCM_D \<noteq> 0"
definition bcm_islower :: "u8 \<Rightarrow> bool" where "bcm_islower c \<longleftrightarrow> bcm_ismask c AND BCM_L \<noteq> 0"
definition bcm_isspace :: "u8 \<Rightarrow> bool" where "bcm_isspace c \<longleftrightarrow> bcm_ismask c AND BCM_S \<noteq> 0"
definition bcm_isupper :: "u8 \<Rightarrow> bool" where "bcm_isupper c \<longleftrightarrow> bcm_ismask c AND BCM_U \<noteq> 0"
definition bcm_isxdigit :: "u8 \<Rightarrow> bool" where "bcm_isxdigit c \<longleftrightarrow> bcm_ismask c AND (BCM_D OR BCM_X) \<noteq> 0"

definition bcm_tolower :: "u8 \<Rightarrow> u8" where "bcm_tolower c = (if bcm_isupper c then c + 97 - 65 else c)"
definition bcm_toupper :: "u8 \<Rightarrow> u8" where "bcm_toupper c = (if bcm_islower c then c + 65 - 97 else c)"

section \<open>Numbers\<close>

fun skip_space :: "bytes \<Rightarrow> bytes option" where
  "skip_space [] = None"
| "skip_space (c # cp) = (if bcm_isspace c then skip_space cp else Some (c # cp))"

definition digit_value :: "u8 \<Rightarrow> u64" where
  "digit_value c = ucast (if bcm_isdigit c then c - 48 else bcm_toupper c - 65 + 10)"

text \<open>The base and the first digit, after an optional prefix.\<close>

definition strtoul_base :: "u32 \<Rightarrow> bytes \<Rightarrow> (u32 \<times> bytes) option" where
  "strtoul_base base cp = do {
     c0 \<leftarrow> arr_get cp 0;
     if base = 0
     then if c0 = 48
          then do {
            c1 \<leftarrow> arr_get cp 1;
            if c1 = 120 \<or> c1 = 88 then Some (16, drop 2 cp) else Some (8, drop 1 cp)
          }
          else Some (10, cp)
     else if base = 16 \<and> c0 = 48
     then do {
       c1 \<leftarrow> arr_get cp 1;
       if c1 = 120 \<or> c1 = 88 then Some (base, drop 2 cp) else Some (base, cp)
     }
     else Some (base, cp)
   }"

text \<open>
  The digits. The result is the number and what is stored through \<open>endp\<close>: the overflow return stores
  nothing, which is \<open>None\<close>.
\<close>

fun strtoul_digits :: "u32 \<Rightarrow> bool \<Rightarrow> u64 \<Rightarrow> u64 \<Rightarrow> bytes \<Rightarrow> (u64 \<times> bytes option) option" where
  "strtoul_digits base neg last_result res [] = None"
| "strtoul_digits base neg last_result res (c # cp) =
     (if bcm_isxdigit c \<and> digit_value c < ucast base
      then let res = res * ucast base + digit_value c
           in if res < last_result \<and> \<not> neg then Some (- 1, None)
              else strtoul_digits base neg res res cp
      else Some (if neg then - res else res, Some (c # cp)))"

definition bcm_strtoul :: "bytes \<Rightarrow> u32 \<Rightarrow> (u64 \<times> bytes option) option" where
  "bcm_strtoul cp base = do {
     cp \<leftarrow> skip_space cp;
     c0 \<leftarrow> arr_get cp 0;
     let neg = (c0 = 45);
     let cp = (if c0 = 43 \<or> c0 = 45 then drop 1 cp else cp);
     (base, cp) \<leftarrow> strtoul_base base cp;
     strtoul_digits base neg 0 0 cp
   }"

definition bcm_atoi :: "bytes \<Rightarrow> int option" where
  "bcm_atoi s = do { (v, _) \<leftarrow> bcm_strtoul s 10; Some (sint (ucast v :: u32)) }"

section \<open>Addresses\<close>

text \<open>
  \<open>ea\<close> is the address structure. \<open>ep\<close> is not initialised in the source, so a conversion that stores nothing
  in it leaves no pointer to read on from. \<open>n\<close> rounds are left, \<open>n = 6 - i\<close>.
\<close>

fun atoe_loop :: "nat \<Rightarrow> bytes \<Rightarrow> bytes \<Rightarrow> nat \<Rightarrow> (bool \<times> bytes) option" where
  "atoe_loop i p ea 0 = None"
| "atoe_loop i p ea (Suc n) = do {
     (v, ep) \<leftarrow> bcm_strtoul p 16;
     ea \<leftarrow> arr_set ea i (ucast v);
     p \<leftarrow> ep;
     c \<leftarrow> arr_get p 0;
     if c = 0 \<or> Suc i = 6 then Some (Suc i = 6, ea) else atoe_loop (Suc i) (drop 1 p) ea n
   }"

definition bcm_ether_atoe :: "bytes \<Rightarrow> bytes \<Rightarrow> (bool \<times> bytes) option" where
  "bcm_ether_atoe p ea = atoe_loop 0 p ea 6"

fun atoipv4_loop :: "nat \<Rightarrow> bytes \<Rightarrow> bytes \<Rightarrow> nat \<Rightarrow> (bool \<times> bytes) option" where
  "atoipv4_loop i p ip 0 = None"
| "atoipv4_loop i p ip (Suc n) = do {
     (v, ep) \<leftarrow> bcm_strtoul p 0;
     ip \<leftarrow> arr_set ip i (ucast v);
     c \<leftarrow> ep;
     ch \<leftarrow> arr_get c 0;
     if ch \<noteq> 46 \<or> Suc i = 4 then Some (Suc i = 4, ip) else atoipv4_loop (Suc i) (drop 1 c) ip n
   }"

definition bcm_atoipv4 :: "bytes \<Rightarrow> bytes \<Rightarrow> (bool \<times> bytes) option" where
  "bcm_atoipv4 p ip = atoipv4_loop 0 p ip 4"

definition hex :: bytes where
  "hex = chars ''0123456789abcdef''"

text \<open>The text written from offset \<open>p\<close> of \<open>buf\<close>.\<close>

fun ntoa_loop :: "bytes \<Rightarrow> bytes \<Rightarrow> nat \<Rightarrow> (bytes \<times> nat) option" where
  "ntoa_loop [] buf p = Some (buf, p)"
| "ntoa_loop (octet # octets) buf p = do {
     buf \<leftarrow> arr_set buf p (hex ! unat (drop_bit 4 octet AND 0xf));
     buf \<leftarrow> arr_set buf (p + 1) (hex ! unat (octet AND 0xf));
     buf \<leftarrow> arr_set buf (p + 2) 58;
     ntoa_loop octets buf (p + 3)
   }"

definition bcm_ether_ntoa :: "bytes \<Rightarrow> bytes \<Rightarrow> nat \<Rightarrow> bytes option" where
  "bcm_ether_ntoa ea buf p = do {
     ASSERT (6 \<le> length ea);
     (buf, p) \<leftarrow> ntoa_loop (take 6 ea) buf p;
     arr_set buf (p - 1) 0
   }"

definition bcm_ip_ntoa :: "bytes \<Rightarrow> bytes \<Rightarrow> nat \<Rightarrow> bytes option" where
  "bcm_ip_ntoa ia buf p = do {
     a0 \<leftarrow> arr_get ia 0;
     a1 \<leftarrow> arr_get ia 1;
     a2 \<leftarrow> arr_get ia 2;
     a3 \<leftarrow> arr_get ia 3;
     mem_copy_to buf p (snprintf_bytes 16 (dec_int (uint a0) @ [46] @ dec_int (uint a1) @ [46] @ dec_int (uint a2) @ [46] @ dec_int (uint a3)))
   }"

section \<open>Comparison, search and concatenation\<close>

definition xToLower :: "u8 \<Rightarrow> u8" where
  "xToLower c = (if 65 \<le> c \<and> c \<le> 90 then c - 65 + 97 else c)"

fun bcmstricmp :: "bytes \<Rightarrow> bytes \<Rightarrow> int option" where
  "bcmstricmp (c1 # s1) (c2 # s2) =
     (if c2 \<noteq> 0 \<and> c1 \<noteq> 0
      then let dc = xToLower c1; sc = xToLower c2
           in if dc < sc then Some (- 1) else if sc < dc then Some 1 else bcmstricmp s1 s2
      else if c1 \<noteq> 0 \<and> c2 = 0 then Some 1
      else if c1 = 0 \<and> c2 \<noteq> 0 then Some (- 1) else Some 0)"
| "bcmstricmp _ _ = None"

text \<open>A negative \<open>cnt\<close> never reaches 0 on strings shorter than \<open>2^32 + cnt\<close>; it counts in 32 bits.\<close>

fun bcmstrnicmp :: "bytes \<Rightarrow> bytes \<Rightarrow> u32 \<Rightarrow> int option" where
  "bcmstrnicmp (c1 # s1) (c2 # s2) cnt =
     (if c2 \<noteq> 0 \<and> c1 \<noteq> 0 \<and> cnt \<noteq> 0
      then let dc = xToLower c1; sc = xToLower c2
           in if dc < sc then Some (- 1) else if sc < dc then Some 1 else bcmstrnicmp s1 s2 (cnt - 1)
      else if cnt = 0 then Some 0
      else if c1 \<noteq> 0 \<and> c2 = 0 then Some 1
      else if c1 = 0 \<and> c2 \<noteq> 0 then Some (- 1) else Some 0)"
| "bcmstrnicmp _ _ cnt = None"

text \<open>The C library's \<open>strlen\<close>.\<close>

fun strlen :: "bytes \<Rightarrow> nat option" where
  "strlen [] = None"
| "strlen (c # s) = (if c = 0 then Some 0 else map_option Suc (strlen s))"

text \<open>\<open>i\<close> is the index and \<open>n\<close> the rounds left; the result is the offset of the match.\<close>

fun strstr_loop :: "bytes \<Rightarrow> bytes \<Rightarrow> nat \<Rightarrow> nat \<Rightarrow> nat \<Rightarrow> nat option" where
  "strstr_loop haystack needle nlen i 0 = None"
| "strstr_loop haystack needle nlen i (Suc n) =
     (if take nlen needle = take nlen (drop i haystack) then Some i else strstr_loop haystack needle nlen (Suc i) n)"

text \<open>\<open>bcmstrstr\<close> on strings that are not NULL: \<open>Some None\<close> is the NULL it returns.\<close>

definition bcmstrstr :: "bytes \<Rightarrow> bytes \<Rightarrow> nat option option" where
  "bcmstrstr haystack needle = do {
     nlen \<leftarrow> strlen needle;
     hlen \<leftarrow> strlen haystack;
     Some (strstr_loop haystack needle nlen 0 (nat (int hlen - int nlen + 1)))
   }"

text \<open>The copy loop from \<open>src\<close> to offset \<open>p\<close> of the block.\<close>

fun strcat_loop :: "bytes \<Rightarrow> nat \<Rightarrow> bytes \<Rightarrow> bytes option" where
  "strcat_loop dest p [] = None"
| "strcat_loop dest p (c # src) = do {
     dest \<leftarrow> arr_set dest p c;
     if c \<noteq> 0 then strcat_loop dest (Suc p) src else Some dest
   }"

definition bcmstrcat :: "bytes \<Rightarrow> bytes \<Rightarrow> bytes option" where
  "bcmstrcat dest src = do { p \<leftarrow> strlen dest; strcat_loop dest p src }"

fun strncat_loop :: "bytes \<Rightarrow> nat \<Rightarrow> bytes \<Rightarrow> nat \<Rightarrow> bytes option" where
  "strncat_loop dest p src 0 = Some dest"
| "strncat_loop dest p [] (Suc n) = None"
| "strncat_loop dest p (c # src) (Suc n) = do {
     dest \<leftarrow> arr_set dest p c;
     if c \<noteq> 0 then strncat_loop dest (Suc p) src n else Some dest
   }"

definition bcmstrncat :: "bytes \<Rightarrow> bytes \<Rightarrow> u32 \<Rightarrow> bytes option" where
  "bcmstrncat dest src sz = do { p \<leftarrow> strlen dest; strncat_loop dest p src (unat sz) }"

section \<open>Tokens\<close>

text \<open>\<open>1 << k\<close> is an \<open>int\<close>, extended with its sign to \<open>unsigned long\<close>.\<close>

definition int_bit :: "u8 \<Rightarrow> u64" where
  "int_bit c = scast (push_bit (unat (c AND 31)) 1 :: u32)"

definition map_has :: "u64 list \<Rightarrow> u8 \<Rightarrow> bool" where
  "map_has m c \<longleftrightarrow> m ! unat (drop_bit 5 c) AND int_bit c \<noteq> 0"

fun delim_map :: "u64 list \<Rightarrow> bytes \<Rightarrow> u64 list option" where
  "delim_map m [] = None"
| "delim_map m (c # delimiters) =
     (let i = unat (drop_bit 5 c); m = m[i := m ! i OR int_bit c]
      in if c \<noteq> 0 then delim_map m delimiters else Some m)"

text \<open>Offsets in the block of the string; \<open>n\<close> bounds the rounds by the bytes of the block.\<close>

fun skip_delims :: "u64 list \<Rightarrow> bytes \<Rightarrow> nat \<Rightarrow> nat \<Rightarrow> nat option" where
  "skip_delims m buf str 0 = None"
| "skip_delims m buf str (Suc n) = do {
     c \<leftarrow> arr_get buf str;
     if (map_has m c \<and> c \<noteq> 0) \<or> c = 32 then skip_delims m buf (Suc str) n else Some str
   }"

fun find_delim :: "u64 list \<Rightarrow> bytes \<Rightarrow> nat \<Rightarrow> nat \<Rightarrow> (bytes \<times> nat \<times> u8) option" where
  "find_delim m buf str 0 = None"
| "find_delim m buf str (Suc n) = do {
     c \<leftarrow> arr_get buf str;
     if c = 0 then Some (buf, str, 0)
     else if map_has m c then Some (buf[str := 0], Suc str, c)
     else find_delim m buf (Suc str) n
   }"

text \<open>
  The string starts at offset \<open>start\<close> of \<open>buf\<close>. The result: the token if there is one, the delimiter, the
  block and the new start.
\<close>

definition bcmstrtok :: "bytes \<Rightarrow> nat \<Rightarrow> bytes \<Rightarrow> (nat option \<times> u8 \<times> bytes \<times> nat) option" where
  "bcmstrtok buf start delimiters = do {
     m \<leftarrow> delim_map (replicate 8 0) delimiters;
     nextoken \<leftarrow> skip_delims m buf start (Suc (length buf));
     (buf, str, tokdelim) \<leftarrow> find_delim m buf nextoken (Suc (length buf));
     Some (if nextoken = str then None else Some nextoken, tokdelim, buf, str)
   }"

section \<open>Numbers: lemmas\<close>

lemma length_bcm_ctype: "length bcm_ctype = 256"
  by (simp add: bcm_ctype_def)

lemma ctype_runs:
  assumes "n < 256"
  shows "bcm_ctype ! n = (if n < 9 then BCM_C else if n < 14 then BCM_C OR BCM_S else if n < 32 then BCM_C else if n < 33 then BCM_S OR BCM_SP else if n < 48 then BCM_P else if n < 58 then BCM_D else if n < 65 then BCM_P else if n < 71 then BCM_U OR BCM_X else if n < 91 then BCM_U else if n < 97 then BCM_P else if n < 103 then BCM_L OR BCM_X else if n < 123 then BCM_L else if n < 127 then BCM_P else if n < 128 then BCM_C else if n < 160 then 0 else if n < 161 then BCM_S OR BCM_SP else if n < 192 then BCM_P else if n < 215 then BCM_U else if n < 216 then BCM_P else if n < 223 then BCM_U else if n < 247 then BCM_L else if n < 248 then BCM_P else BCM_L)"
  using assms by (simp add: bcm_ctype_def nth_append less_diff_conv2)

lemma isxdigit_iff: "bcm_isxdigit c \<longleftrightarrow> 48 \<le> unat c \<and> unat c \<le> 57 \<or> 65 \<le> unat c \<and> unat c \<le> 70 \<or> 97 \<le> unat c \<and> unat c \<le> 102"
  using unat_u8_less [of c] unfolding bcm_isxdigit_def bcm_ismask_def ctype_runs [OF unat_u8_less] by auto

lemma isspace_iff: "bcm_isspace c \<longleftrightarrow> 9 \<le> unat c \<and> unat c \<le> 13 \<or> unat c = 32 \<or> unat c = 160"
  using unat_u8_less [of c] unfolding bcm_isspace_def bcm_ismask_def ctype_runs [OF unat_u8_less] by auto

lemma isdigit_iff: "bcm_isdigit c \<longleftrightarrow> 48 \<le> unat c \<and> unat c \<le> 57"
  using unat_u8_less [of c] unfolding bcm_isdigit_def bcm_ismask_def ctype_runs [OF unat_u8_less] by auto

lemma islower_iff: "bcm_islower c \<longleftrightarrow> 97 \<le> unat c \<and> unat c \<le> 122 \<or> 223 \<le> unat c \<and> unat c \<noteq> 247"
  using unat_u8_less [of c] unfolding bcm_islower_def bcm_ismask_def ctype_runs [OF unat_u8_less] by auto

lemma isupper_iff: "bcm_isupper c \<longleftrightarrow> 65 \<le> unat c \<and> unat c \<le> 90 \<or> 192 \<le> unat c \<and> unat c \<le> 222 \<and> unat c \<noteq> 215"
  using unat_u8_less [of c] unfolding bcm_isupper_def bcm_ismask_def ctype_runs [OF unat_u8_less] by auto

declare isxdigit_iff [code] isspace_iff [code] isdigit_iff [code] islower_iff [code] isupper_iff [code]

text \<open>The digits of a base, and the number that a list of them denotes.\<close>

definition is_digit :: "u32 \<Rightarrow> u8 \<Rightarrow> bool" where
  "is_digit b c \<longleftrightarrow> bcm_isxdigit c \<and> digit_value c < ucast b"

definition digits_value :: "nat \<Rightarrow> nat \<Rightarrow> bytes \<Rightarrow> nat" where
  "digits_value b = foldl (\<lambda>v c. v * b + unat (digit_value c))"

lemma digits_value_simps [simp]:
  "digits_value b v [] = v" "digits_value b v (c # cs) = digits_value b (v * b + unat (digit_value c)) cs"
  "digits_value b v (cs @ ds) = digits_value b (digits_value b v cs) ds"
  by (simp_all add: digits_value_def)

lemma digits_value_mono: "0 < b \<Longrightarrow> v \<le> digits_value b v cs"
proof (induction cs arbitrary: v)
  case (Cons c cs)
  have "v \<le> v * b + unat (digit_value c)" using Cons.prems by (simp add: trans_le_add1)
  then show ?case using Cons.IH [OF Cons.prems, of "v * b + unat (digit_value c)"] by simp
qed simp

lemma is_digit_chars: "is_digit b c \<Longrightarrow> \<not> bcm_isspace c \<and> c \<noteq> 43 \<and> c \<noteq> 45 \<and> c \<noteq> 120 \<and> c \<noteq> 88"
  by (auto simp: is_digit_def isxdigit_iff isspace_iff)

lemma strtoul_digits_value:
  assumes "\<forall>c \<in> set cs. is_digit b c" and "\<not> is_digit b t" and "0 < b"
    and "digits_value (unat b) (unat r) cs < 2 ^ 64"
  shows "strtoul_digits b neg r r (cs @ t # s) =
     Some (if neg then - of_nat (digits_value (unat b) (unat r) cs) else of_nat (digits_value (unat b) (unat r) cs), Some (t # s))"
  using assms
proof (induction cs arbitrary: r)
  case Nil
  then show ?case by (auto simp: is_digit_def)
next
  case (Cons c cs)
  define v where "v = r * ucast b + digit_value c"
  have b: "0 < unat b" using Cons.prems(3) by (simp add: word_less_nat_alt)
  have "unat r * unat b + unat (digit_value c) < 2 ^ 64"
    using digits_value_mono [OF b] Cons.prems(4) by (metis digits_value_simps(2) le_less_trans)
  moreover have "unat (ucast b :: u64) = unat b" unfolding unsigned_ucast_eq by (rule take_bit_nat_eq_self) (use unat_u32_less [of b] in simp)
  ultimately have v: "unat v = unat r * unat b + unat (digit_value c)"
    unfolding v_def by (simp add: unat_word_ariths)
  moreover have "unat r \<le> unat r * unat b" using b by simp
  ultimately have "\<not> v < r" unfolding word_less_nat_alt by linarith
  then show ?case using Cons.IH [of v] Cons.prems v by (simp add: is_digit_def v_def [symmetric] Let_def)
qed

lemma skip_space_append: "\<forall>c \<in> set sp. bcm_isspace c \<Longrightarrow> \<not> bcm_isspace c \<Longrightarrow> skip_space (sp @ c # s) = Some (c # s)"
  by (induction sp) auto

text \<open>
  A number in a base from 1 to 16, after white space and a sign, that fits in 64 bits; the character behind
  the digits is neither a digit nor, in base 16, the \<open>x\<close> of a prefix.
\<close>

lemma strtoul_number:
  assumes sp: "\<forall>c \<in> set sp. bcm_isspace c" and sg: "sg = [] \<or> sg = [43] \<or> sg = [45]"
    and cs: "cs \<noteq> []" "\<forall>c \<in> set cs. is_digit b c" and t: "\<not> is_digit b t" "b = 16 \<Longrightarrow> t \<noteq> 120 \<and> t \<noteq> 88"
    and b: "0 < b" and v: "digits_value (unat b) 0 cs < 2 ^ 64"
  shows "bcm_strtoul (sp @ sg @ cs @ t # s) b =
     Some (if sg = [45] then - of_nat (digits_value (unat b) 0 cs) else of_nat (digits_value (unat b) 0 cs), Some (t # s))"
proof -
  obtain c cs' where c: "cs = c # cs'" using cs(1) by (cases cs) auto
  have d: "\<not> bcm_isspace c" "c \<noteq> 43" "c \<noteq> 45" using cs(2) is_digit_chars [of b c] c by auto
  have s: "\<not> bcm_isspace 43" "\<not> bcm_isspace 45" by (simp_all add: isspace_iff)
  have base: "strtoul_base b (cs @ t # s) = Some (b, cs @ t # s)"
  proof -
    have "(cs @ t # s) ! 1 \<noteq> 120 \<and> (cs @ t # s) ! 1 \<noteq> 88" if "b = 16"
      using t(2) [OF that] cs(2) is_digit_chars [of b] c by (cases cs') auto
    moreover have "b \<noteq> 0" using b by simp
    ultimately show ?thesis using c by (simp add: strtoul_base_def)
  qed
  have dig: "strtoul_digits b neg 0 0 (cs @ t # s) =
      Some (if neg then - of_nat (digits_value (unat b) 0 cs) else of_nat (digits_value (unat b) 0 cs), Some (t # s))" for neg
    using strtoul_digits_value [OF cs(2) t(1) b, of 0 neg s] v by simp
  show ?thesis
    using sg
  proof (elim disjE)
    assume "sg = []"
    then show ?thesis using skip_space_append [OF sp d(1), of "cs' @ t # s"] d base dig [of False] c by (simp add: bcm_strtoul_def)
  next
    assume "sg = [43]"
    then show ?thesis using skip_space_append [OF sp s(1), of "cs @ t # s"] base dig [of False] by (simp add: bcm_strtoul_def)
  next
    assume "sg = [45]"
    then show ?thesis using skip_space_append [OF sp s(2), of "cs @ t # s"] base dig [of True] by (simp add: bcm_strtoul_def)
  qed
qed

text \<open>Decimal digits.\<close>

lemma unat_ucast_64: "unat (ucast (w :: u8) :: u64) = unat w"
  unfolding unsigned_ucast_eq by (rule take_bit_nat_eq_self) (use unat_u8_less [of w] in simp)

lemma is_digit_10: "is_digit 10 c \<longleftrightarrow> bcm_isdigit c"
proof -
  have "unat (c - 48) = unat c - 48" if "48 \<le> unat c" using that unat_sub_of_nat [of 48 c] by simp
  moreover have "9 < unat (bcm_toupper c - 65 + 10)" if "65 \<le> unat c \<and> unat c \<le> 70 \<or> 97 \<le> unat c \<and> unat c \<le> 102"
    using that unat_u8_less [of c] by (auto simp: bcm_toupper_def islower_iff unat_word_ariths unat_sub_if')
  ultimately show ?thesis
    by (auto simp: is_digit_def digit_value_def isxdigit_iff isdigit_iff word_less_nat_alt unat_ucast_64)
qed

lemma digit_of_nat: "d < 10 \<Longrightarrow> unat (48 + of_nat d :: u8) = 48 + d"
  by (simp add: unat_word_ariths unat_of_nat take_bit_nat_eq_self)

lemma unat_numeral_48: "unat (48 :: u8) = 48"
  by simp

lemma dec_digit: "d < 10 \<Longrightarrow> is_digit 10 (48 + of_nat d) \<and> unat (digit_value (48 + of_nat d)) = d"
proof -
  assume d: "d < 10"
  have "digit_value (48 + of_nat d) = of_nat d"
    using digit_of_nat [OF d] d by (simp add: digit_value_def isdigit_iff unsigned_of_nat take_bit_nat_eq_self)
  then show ?thesis using digit_of_nat [OF d] d
    by (simp add: is_digit_def isxdigit_iff unat_of_nat take_bit_nat_eq_self word_less_nat_alt)
qed

lemma dec_digits_digits: "c \<in> set (dec_digits n) \<Longrightarrow> is_digit 10 c"
proof (induction n rule: dec_digits.induct)
  case (1 n)
  then show ?case using dec_digit [of "n mod 10"] by (subst (asm) (2) dec_digits.simps) (auto split: if_splits)
qed

lemma dec_digits_value: "digits_value 10 0 (dec_digits n) = n"
proof (induction n rule: dec_digits.induct)
  case (1 n)
  show ?case
  proof (cases "n < 10")
    case True
    then show ?thesis using dec_digit [of n] by (subst dec_digits.simps) simp
  next
    case False
    then show ?thesis using 1 dec_digit [of "n mod 10"] by (subst dec_digits.simps) simp
  qed
qed

lemma dec_digits_not_Nil [simp]: "dec_digits n \<noteq> []"
  by (subst dec_digits.simps) simp

lemma strtoul_dec:
  assumes "n < 2 ^ 64" and "\<not> is_digit 10 t"
  shows "bcm_strtoul (dec_digits n @ t # s) 10 = Some (of_nat n, Some (t # s))"
  using strtoul_number [of "[]" "[]" "dec_digits n" 10 t s] assms dec_digits_digits dec_digits_value [of n] by simp

text \<open>No leading zero but in 0 itself.\<close>

lemma dec_digits_head: "0 < n \<Longrightarrow> hd (dec_digits n) \<noteq> 48"
proof (induction n rule: dec_digits.induct)
  case (1 n)
  show ?case
  proof (cases "n < 10")
    case True
    moreover have "(48 + of_nat n :: u8) \<noteq> 48" using 1(2) digit_of_nat [OF True] by (metis add_cancel_right_right less_irrefl unat_numeral_48)
    ultimately show ?thesis by (subst dec_digits.simps) simp
  next
    case False
    then show ?thesis using 1(1) by (subst dec_digits.simps) (simp add: hd_append)
  qed
qed

text \<open>Base 0 reads a decimal number as base 10 does, and reads 0 as an octal number without digits.\<close>

lemma strtoul_dec_base0:
  assumes n: "n < 2 ^ 64" and t: "\<not> is_digit 10 t" "t \<noteq> 120" "t \<noteq> 88"
  shows "bcm_strtoul (dec_digits n @ t # s) 0 = Some (of_nat n, Some (t # s))"
proof (cases "n = 0")
  case True
  have "\<not> bcm_isspace 48" by (simp add: isspace_iff)
  moreover have "\<not> (bcm_isxdigit t \<and> digit_value t < 8)"
  proof
    assume "bcm_isxdigit t \<and> digit_value t < 8"
    then have "is_digit 10 t" by (simp add: is_digit_def word_less_nat_alt)
    then show False using t(1) by simp
  qed
  ultimately show ?thesis using True t by (auto simp: dec_digits.simps [of 0] bcm_strtoul_def strtoul_base_def)
next
  case False
  then have "hd (dec_digits n) \<noteq> 48" by (simp add: dec_digits_head)
  then obtain c cs where c: "dec_digits n = c # cs" "c \<noteq> 48" by (cases "dec_digits n") auto
  then have d: "\<not> bcm_isspace c" "c \<noteq> 43" "c \<noteq> 45" using is_digit_chars dec_digits_digits [of c n] by auto
  then have "bcm_strtoul (dec_digits n @ t # s) 0 = bcm_strtoul (dec_digits n @ t # s) 10"
    using c by (simp add: bcm_strtoul_def strtoul_base_def)
  then show ?thesis using strtoul_dec [OF n t(1)] by simp
qed

section \<open>Addresses: lemmas\<close>

lemma hex_digit: "n < 16 \<Longrightarrow> is_digit 16 (hex ! n) \<and> unat (digit_value (hex ! n)) = n"
proof -
  have "list_all (\<lambda>n. is_digit 16 (hex ! n) \<and> unat (digit_value (hex ! n)) = n) [0..<16]" by code_simp
  then show "n < 16 \<Longrightarrow> ?thesis" by (simp add: list_all_iff)
qed

lemma nibbles: "unat (drop_bit 4 w) mod 16 = unat (w :: u8) div 16" "unat (w AND 0xf) = unat w mod 16"
proof -
  have m: "(0xf :: u8) = mask 4" by (simp add: mask_eq_exp_minus_1)
  have "unat w div 16 < 16" using unat_u8_less [of w] by (simp add: less_mult_imp_div_less)
  then show "unat (drop_bit 4 w) mod 16 = unat w div 16" "unat (w AND 0xf) = unat w mod 16"
    unfolding m take_bit_eq_mask [symmetric] unsigned_take_bit_eq unsigned_drop_bit_eq
    by (simp_all add: take_bit_eq_mod drop_bit_eq_div)
qed

definition octet_text :: "u8 \<Rightarrow> bytes" where
  "octet_text w = [hex ! (unat w div 16), hex ! (unat w mod 16)]"

lemma octet_text_not_Nil [simp]: "octet_text w \<noteq> []"
  by (simp add: octet_text_def)

lemma octet_digits: "c \<in> set (octet_text w) \<Longrightarrow> is_digit 16 c"
  using hex_digit unat_u8_less [of w] by (auto simp: octet_text_def less_mult_imp_div_less)

lemma octet_value: "digits_value 16 0 (octet_text w) = unat w"
proof -
  have "unat w div 16 < 16" using unat_u8_less [of w] by (simp add: less_mult_imp_div_less)
  then show ?thesis using hex_digit [of "unat w div 16"] hex_digit [of "unat w mod 16"] by (simp add: octet_text_def)
qed

lemma strtoul_octet:
  assumes "\<not> is_digit 16 t" "t \<noteq> 120" "t \<noteq> 88"
  shows "bcm_strtoul (octet_text w @ t # s) 16 = Some (ucast w, Some (t # s))"
proof -
  have "digits_value 16 0 (octet_text w) < 2 ^ 64" using octet_value [of w] unat_u8_less [of w] by simp
  then show ?thesis
    using strtoul_number [of "[]" "[]" "octet_text w" 16 t s] assms octet_digits [of _ w] octet_value [of w] by simp
qed

lemma not_digit_colon [simp]: "\<not> is_digit 16 58" "\<not> is_digit 16 0" "\<not> is_digit 10 46" "\<not> is_digit 10 0"
  by (simp_all add: is_digit_def isxdigit_iff)

lemma byte_back: "ucast (ucast (w :: u8) :: u64) = w"
  by (rule bit_word_eqI) (auto simp: bit_simps)

lemmas strtoul_octet_colon = strtoul_octet [of 58, simplified] and strtoul_octet_end = strtoul_octet [of 0, simplified]

lemma ntoa_loop_text:
  "length old = 3 * length octets \<Longrightarrow>
   ntoa_loop octets (pre @ old @ post) (length pre) =
     Some (pre @ concat (map (\<lambda>w. octet_text w @ [58]) octets) @ post, length pre + 3 * length octets)"
proof (induction octets arbitrary: pre old)
  case (Cons w octets)
  obtain x y z old' where old: "old = x # y # z # old'" "length old' = 3 * length octets"
    using Cons.prems by (cases old rule: list.exhaust; cases "tl old"; cases "tl (tl old)") auto
  have "ntoa_loop (w # octets) (pre @ old @ post) (length pre) =
      ntoa_loop octets ((pre @ octet_text w @ [58]) @ old' @ post) (length (pre @ octet_text w @ [58]))"
    by (simp add: old octet_text_def nibbles list_update_append numeral_3_eq_3)
  also have "\<dots> = Some ((pre @ octet_text w @ [58]) @ concat (map (\<lambda>w. octet_text w @ [58]) octets) @ post,
      length (pre @ octet_text w @ [58]) + 3 * length octets)"
    by (rule Cons.IH [OF old(2)])
  finally show ?case by (simp add: octet_text_def)
qed simp

lemma six_bytes: "length xs = 6 \<Longrightarrow> \<exists>a b c d e f. xs = [a, b, c, d, e, f]"
  by (auto simp: eval_nat_numeral length_Suc_conv)

lemma ether_ntoa_text:
  assumes "length old = 18"
  shows "bcm_ether_ntoa [a, b, c, d, e, f] (pre @ old @ post) (length pre) =
     Some (pre @ (octet_text a @ 58 # octet_text b @ 58 # octet_text c @ 58 # octet_text d @ 58 # octet_text e @ 58 # octet_text f @ [0]) @ post)"
  using ntoa_loop_text [of old "[a, b, c, d, e, f]" pre post] assms
  by (simp add: bcm_ether_ntoa_def octet_text_def list_update_append)

lemma ether_atoe_text:
  assumes "length ea = 6"
  shows "bcm_ether_atoe (octet_text a @ 58 # octet_text b @ 58 # octet_text c @ 58 # octet_text d @ 58 # octet_text e @ 58 # octet_text f @ 0 # s) ea =
     Some (True, [a, b, c, d, e, f])"
proof -
  obtain u v w x y z where ea: "ea = [u, v, w, x, y, z]" using six_bytes [OF assms] by blast
  have "(6 :: nat) = Suc (Suc (Suc (Suc (Suc (Suc 0)))))" by simp
  then show ?thesis unfolding bcm_ether_atoe_def ea by (simp only: atoe_loop.simps) (simp add: strtoul_octet_colon strtoul_octet_end byte_back)
qed

lemma byte_dec: "bcm_strtoul (dec_int (uint (w :: u8)) @ 46 # s) 0 = Some (ucast w, Some (46 # s))"
  "bcm_strtoul (dec_int (uint (w :: u8)) @ 0 # s) 0 = Some (ucast w, Some (0 # s))"
  using strtoul_dec_base0 [of "unat w" 46 s] strtoul_dec_base0 [of "unat w" 0 s] unat_u8_less [of w]
  by (simp_all add: dec_int_def)

lemma length_dec_digits: "n < 1000 \<Longrightarrow> length (dec_digits n) \<le> 3"
proof -
  assume "n < 1000"
  then have "n div 10 div 10 < 10" by linarith
  then show ?thesis by (subst dec_digits.simps, subst dec_digits.simps, subst dec_digits.simps) simp
qed

lemma ip_ntoa_text:
  fixes a b c d :: u8
  defines "txt \<equiv> dec_int (uint a) @ 46 # dec_int (uint b) @ 46 # dec_int (uint c) @ 46 # dec_int (uint d)"
  assumes "length old = Suc (length txt)"
  shows "bcm_ip_ntoa [a, b, c, d] (pre @ old @ post) (length pre) = Some (pre @ txt @ 0 # post)" and "length txt \<le> 15"
proof -
  have l: "length (dec_int (uint w)) \<le> 3" for w :: u8 using length_dec_digits [of "unat w"] unat_u8_less [of w] by (simp add: dec_int_def)
  show "length txt \<le> 15" unfolding txt_def using l [of a] l [of b] l [of c] l [of d] by simp
  then have "snprintf_bytes 16 txt = txt @ [0]" by (simp add: snprintf_bytes_def)
  moreover have "mem_copy_to (pre @ old @ post) (length pre) (txt @ [0]) = Some (pre @ (txt @ [0]) @ post)"
    by (rule mem_copy_to_mid) (simp add: assms)
  ultimately show "bcm_ip_ntoa [a, b, c, d] (pre @ old @ post) (length pre) = Some (pre @ txt @ 0 # post)"
    by (simp add: bcm_ip_ntoa_def txt_def)
qed

lemma atoipv4_text:
  assumes "length ip = 4"
  shows "bcm_atoipv4 (dec_int (uint a) @ 46 # dec_int (uint b) @ 46 # dec_int (uint c) @ 46 # dec_int (uint d) @ 0 # s) ip = Some (True, [a, b, c, d])"
proof -
  obtain x y z u where "ip = [x, y, z, u]" using assms by (auto simp: eval_nat_numeral length_Suc_conv)
  moreover have "(4 :: nat) = Suc (Suc (Suc (Suc 0)))" by simp
  ultimately show ?thesis unfolding bcm_atoipv4_def by (simp only: atoipv4_loop.simps) (simp add: byte_dec byte_back)
qed

section \<open>Tokens: lemmas\<close>

lemma bit_int_bit: "bit (int_bit c) j \<longleftrightarrow> j < 64 \<and> (j = unat (c AND 31) \<or> unat (c AND 31) = 31 \<and> 31 \<le> j)"
proof -
  have m: "(31 :: u8) = mask 5" by (simp add: mask_eq_exp_minus_1)
  have "unat (c AND 31) < 2 ^ 5" unfolding m take_bit_eq_mask [symmetric] unsigned_take_bit_eq by (simp add: take_bit_eq_mod)
  then show ?thesis by (auto simp: int_bit_def bit_simps min_def)
qed

lemma byte_split: "drop_bit 5 c = drop_bit 5 d \<Longrightarrow> c AND 31 = d AND 31 \<Longrightarrow> c = (d :: u8)"
proof -
  have m: "(31 :: u8) = mask 5" by (simp add: mask_eq_exp_minus_1)
  assume "drop_bit 5 c = drop_bit 5 d" "c AND 31 = d AND 31"
  then show "c = d" unfolding m take_bit_eq_mask [symmetric] by (metis bits_ident)
qed

lemma int_bit_disjoint: "int_bit c AND int_bit d \<noteq> 0 \<longleftrightarrow> c AND 31 = d AND 31"
proof -
  have u: "unat (c AND 31) = unat (d AND 31) \<longleftrightarrow> c AND 31 = d AND 31" by (simp add: word_unat_eq_iff)
  have m: "(31 :: u8) = mask 5" by (simp add: mask_eq_exp_minus_1)
  have l: "unat (w AND 31) < 32" for w :: u8 unfolding m take_bit_eq_mask [symmetric] unsigned_take_bit_eq by (simp add: take_bit_eq_mod)
  have "int_bit c AND int_bit d \<noteq> 0 \<longleftrightarrow> (\<exists>j. bit (int_bit c) j \<and> bit (int_bit d) j)"
    by (auto simp: bit_eq_iff bit_simps) (metis bit_int_bit)
  also have "\<dots> \<longleftrightarrow> unat (c AND 31) = unat (d AND 31)"
    unfolding bit_int_bit using l [of c] l [of d] by (auto intro!: exI [of _ "unat (d AND 31)"])
  finally show ?thesis using u by simp
qed

lemma map_has_set:
  assumes "length m = 8"
  shows "map_has (m[unat (drop_bit 5 d) := m ! unat (drop_bit 5 d) OR int_bit d]) c \<longleftrightarrow> map_has m c \<or> c = d"
proof -
  have l: "unat (drop_bit 5 w) < 8" for w :: u8
    using unat_u8_less [of w] unfolding unsigned_drop_bit_eq by (simp add: drop_bit_eq_div take_bit_nat_eq_self less_mult_imp_div_less)
  have o: "(x OR int_bit d) AND int_bit c \<noteq> 0 \<longleftrightarrow> x AND int_bit c \<noteq> 0 \<or> int_bit d AND int_bit c \<noteq> 0" for x :: u64
    unfolding bit_eq_iff [of _ 0] by (simp add: bit_and_iff bit_or_iff) blast
  show ?thesis
  proof (cases "drop_bit 5 c = drop_bit 5 d")
    case True
    then have "c = d \<longleftrightarrow> int_bit d AND int_bit c \<noteq> 0" unfolding int_bit_disjoint using byte_split [of c d] by auto
    then show ?thesis using o True l [of d] assms by (simp add: map_has_def)
  next
    case False
    then have "unat (drop_bit 5 d) \<noteq> unat (drop_bit 5 c)" by (metis word_unat_eq_iff)
    then show ?thesis using False by (auto simp: map_has_def)
  qed
qed

lemma delim_map_set:
  assumes "length m = 8" and "0 \<notin> set ds"
  shows "\<exists>m'. delim_map m (ds @ 0 # s) = Some m' \<and> (\<forall>c. map_has m' c \<longleftrightarrow> map_has m c \<or> c \<in> set ds \<or> c = 0)"
  using assms
proof (induction ds arbitrary: m)
  case Nil
  then show ?case using map_has_set [of m 0] by (simp add: Let_def)
next
  case (Cons d ds)
  let ?m = "m[unat (drop_bit 5 d) := m ! unat (drop_bit 5 d) OR int_bit d]"
  obtain m' where "delim_map ?m (ds @ 0 # s) = Some m'" "\<forall>c. map_has m' c \<longleftrightarrow> map_has ?m c \<or> c \<in> set ds \<or> c = 0"
    using Cons.IH [of ?m] Cons.prems by auto
  then show ?case using map_has_set [OF Cons.prems(1), of d] Cons.prems(2) by (auto simp: Let_def)
qed

lemma map_has_empty: "\<not> map_has (replicate 8 0) c"
proof -
  have "unat (drop_bit 5 c) < 8"
    using unat_u8_less [of c] unfolding unsigned_drop_bit_eq by (simp add: drop_bit_eq_div take_bit_nat_eq_self less_mult_imp_div_less)
  then show ?thesis by (simp add: map_has_def)
qed

lemma skip_delims_dropWhile:
  assumes "\<forall>c. map_has m c \<longleftrightarrow> c \<in> set ds \<or> c = 0" and "0 \<notin> set s" and "length s < n"
  shows "skip_delims m (pre @ s @ 0 # post) (length pre) n = Some (length pre + length (takeWhile (\<lambda>c. c \<in> set ds \<or> c = 32) s))"
  using assms(2,3)
proof (induction s arbitrary: pre n)
  case Nil
  then show ?case using assms(1) by (cases n) auto
next
  case (Cons c s)
  obtain n' where n: "n = Suc n'" "length s < n'" using Cons.prems(2) by (cases n) auto
  have "skip_delims m ((pre @ [c]) @ s @ 0 # post) (length (pre @ [c])) n' = Some (length (pre @ [c]) + length (takeWhile (\<lambda>c. c \<in> set ds \<or> c = 32) s))"
    by (rule Cons.IH) (use Cons.prems n in auto)
  then show ?case using Cons.prems(1) n(1) assms(1) by auto
qed

lemma find_delim_takeWhile:
  assumes "\<forall>c. map_has m c \<longleftrightarrow> c \<in> set ds \<or> c = 0" and "0 \<notin> set s" and "length s < n"
  shows "find_delim m (pre @ s @ 0 # post) (length pre) n =
     (let tok = takeWhile (\<lambda>c. c \<notin> set ds) s
      in case dropWhile (\<lambda>c. c \<notin> set ds) s of
           [] \<Rightarrow> Some (pre @ s @ 0 # post, length pre + length tok, 0)
         | d # r \<Rightarrow> Some (pre @ tok @ 0 # r @ 0 # post, Suc (length pre + length tok), d))"
  using assms(2,3)
proof (induction s arbitrary: pre n)
  case Nil
  then show ?case by (cases n) (auto simp: Let_def)
next
  case (Cons c s)
  obtain n' where n: "n = Suc n'" "length s < n'" using Cons.prems(2) by (cases n) auto
  show ?case
  proof (cases "c \<in> set ds")
    case True
    then show ?thesis using Cons.prems(1) n(1) assms(1) by (auto simp: Let_def list_update_append)
  next
    case False
    then show ?thesis using Cons.IH [of n' "pre @ [c]"] Cons.prems n assms(1)
      by (cases "dropWhile (\<lambda>c. c \<notin> set ds) s") (simp_all add: Let_def del: dropWhile_eq_Nil_conv)
  qed
qed

section \<open>Comparison and concatenation: lemmas\<close>

text \<open>Three-way lexicographic comparison.\<close>

definition lex_cmp :: "bytes \<Rightarrow> bytes \<Rightarrow> int" where
  "lex_cmp xs ys = (if ord_class.lexordp xs ys then - 1 else if xs = ys then 0 else 1)"

lemma xToLower_0 [simp]: "xToLower c = 0 \<longleftrightarrow> c = 0"
proof -
  have "unat (c - 65 + 97) = unat c + 32" if "65 \<le> c" "c \<le> 90"
    using that by (simp add: word_le_nat_alt unat_word_ariths)
  then show ?thesis by (auto simp: xToLower_def dest: arg_cong [of _ _ unat])
qed

lemma stricmp_lex:
  "0 \<notin> set s1 \<Longrightarrow> 0 \<notin> set s2 \<Longrightarrow> bcmstricmp (s1 @ 0 # r1) (s2 @ 0 # r2) = Some (lex_cmp (map xToLower s1) (map xToLower s2))"
proof (induction s1 arbitrary: s2)
  case Nil
  then show ?case by (cases s2) (auto simp: lex_cmp_def)
next
  case (Cons c1 s1)
  then show ?case by (cases s2) (auto simp: lex_cmp_def Let_def)
qed

lemma strnicmp_lex:
  "0 \<notin> set s1 \<Longrightarrow> 0 \<notin> set s2 \<Longrightarrow>
   bcmstrnicmp (s1 @ 0 # r1) (s2 @ 0 # r2) cnt = Some (lex_cmp (map xToLower (take (unat cnt) s1)) (map xToLower (take (unat cnt) s2)))"
proof (induction s1 arbitrary: s2 cnt)
  case Nil
  then show ?case by (cases s2; cases "unat cnt") (auto simp: lex_cmp_def unat_eq_0)
next
  case (Cons c1 s1)
  show ?case
  proof (cases "cnt = 0")
    case False
    then have "unat cnt = Suc (unat (cnt - 1))" by (simp add: unat_minus_one unat_gt_0)
    then show ?thesis using Cons False by (cases s2) (auto simp: lex_cmp_def Let_def)
  qed (cases s2, auto simp: lex_cmp_def)
qed

lemma strlen_append [simp]: "0 \<notin> set s \<Longrightarrow> strlen (s @ 0 # r) = Some (length s)"
  by (induction s) auto

lemma strcat_loop_append:
  "0 \<notin> set s \<Longrightarrow> length s < length old \<Longrightarrow> strcat_loop (d @ old) (length d) (s @ 0 # r) = Some (d @ s @ 0 # drop (Suc (length s)) old)"
proof (induction s arbitrary: d old)
  case Nil
  then show ?case by (cases old) auto
next
  case (Cons c s)
  obtain x old' where old: "old = x # old'" using Cons.prems by (cases old) auto
  have "strcat_loop ((d @ [c]) @ old') (length (d @ [c])) (s @ 0 # r) = Some ((d @ [c]) @ s @ 0 # drop (Suc (length s)) old')"
    by (rule Cons.IH) (use Cons.prems old in auto)
  then show ?case using Cons.prems(1) old by (simp add: list_update_append)
qed

lemma strncat_loop_append:
  "0 \<notin> set s \<Longrightarrow> min n (Suc (length s)) \<le> length old \<Longrightarrow>
   strncat_loop (d @ old) (length d) (s @ 0 # r) n = Some (d @ take n (s @ [0]) @ drop (min n (Suc (length s))) old)"
proof (induction s arbitrary: d old n)
  case Nil
  then show ?case by (cases n; cases old) auto
next
  case (Cons c s)
  show ?case
  proof (cases n)
    case (Suc n')
    then obtain x old' where old: "old = x # old'" using Cons.prems by (cases old) auto
    have "strncat_loop ((d @ [c]) @ old') (length (d @ [c])) (s @ 0 # r) n' =
        Some ((d @ [c]) @ take n' (s @ [0]) @ drop (min n' (Suc (length s))) old')"
      by (rule Cons.IH) (use Cons.prems old Suc in auto)
    then show ?thesis using Cons.prems(1) old Suc by (simp add: list_update_append)
  qed simp
qed

lemma strstr_loop_find:
  "strstr_loop h nd k i n = find (\<lambda>i. take k nd = take k (drop i h)) [i..<i + n]"
proof (induction n arbitrary: i)
  case (Suc n)
  have "[i..<i + Suc n] = i # [Suc i..<Suc i + n]" by (simp add: upt_conv_Cons del: upt_Suc)
  then show ?case using Suc.IH [of "Suc i"] by (simp del: upt_Suc)
qed simp

lemma strstr_find:
  assumes "0 \<notin> set h" and "0 \<notin> set nd"
  shows "bcmstrstr (h @ 0 # r) (nd @ 0 # r') = Some (find (\<lambda>i. take (length nd) (drop i h) = nd) [0..<Suc (length h) - length nd])"
proof -
  have "nat (int (length h) - int (length nd) + 1) = Suc (length h) - length nd" by linarith
  moreover have "find (\<lambda>i. nd = take (length nd) (drop i (h @ 0 # r))) [0..<Suc (length h) - length nd] =
      find (\<lambda>i. take (length nd) (drop i h) = nd) [0..<Suc (length h) - length nd]"
    by (rule find_cong) auto
  ultimately show ?thesis using assms by (simp add: bcmstrstr_def strstr_loop_find)
qed

lemma atoi_int:
  assumes "- (2 ^ 31) \<le> i" and "i < 2 ^ 31" and "\<forall>c \<in> set sp. bcm_isspace c" and "\<not> is_digit 10 t"
  shows "bcm_atoi (sp @ dec_int i @ t # s) = Some i"
proof -
  define sg :: bytes where "sg = (if i < 0 then [45] else [])"
  define n where "n = nat \<bar>i\<bar>"
  have "n \<le> 2 ^ 31" unfolding n_def using assms(1,2) by (simp add: nat_le_iff abs_le_iff)
  then have n: "digits_value (unat (10 :: u32)) 0 (dec_digits n) = n" "n < 2 ^ 64" using dec_digits_value [of n] by simp_all
  have e: "dec_int i = sg @ dec_digits n" by (auto simp: dec_int_def sg_def n_def)
  have "bcm_strtoul (sp @ sg @ dec_digits n @ t # s) 10 = Some (if sg = [45] then - of_nat n else of_nat n, Some (t # s))"
    using strtoul_number [OF assms(3), of sg "dec_digits n" 10 t s] n assms(4) dec_digits_digits by (simp add: sg_def)
  moreover have "(if sg = [45] then - of_nat n else of_nat n) = (of_int i :: u64)" by (simp add: sg_def n_def)
  moreover have "sint (ucast (of_int i :: u64) :: u32) = i"
    using assms(1,2) by (simp add: unsigned_of_int signed_of_int signed_take_bit_take_bit signed_take_bit_int_eq_self)
  ultimately show ?thesis by (simp add: bcm_atoi_def e)
qed

section \<open>Properties\<close>

text \<open>Reading back what \<open>%d\<close> prints: after any white space, \<open>bcm_atoi\<close> returns every \<open>int\<close> from its
  decimal text, whatever non-digit follows; \<open>bcm_strtoul\<close> returns every 64-bit number and the place behind it.\<close>

theorem atoi_reads_int:
  assumes "- (2 ^ 31) \<le> i" and "i < 2 ^ 31" and "n < 2 ^ 64" and "\<forall>c \<in> set sp. bcm_isspace c" and "\<not> bcm_isdigit t"
  shows "bcm_atoi (sp @ dec_int i @ t # s) = Some i \<and> bcm_strtoul (sp @ dec_digits n @ t # s) 10 = Some (of_nat n, Some (t # s))"
proof -
  have t: "\<not> is_digit 10 t" using assms(5) is_digit_10 [of t] by simp
  show ?thesis using atoi_int [OF assms(1,2,4) t] strtoul_number [OF assms(4), of "[]" "dec_digits n" 10 t s] t assms(3)
      dec_digits_digits dec_digits_value [of n] by simp
qed

theorem atoi_reads_int_witness: "bcm_atoi (c_str '' -42'') = Some (-42) \<and> bcm_strtoul (c_str '' 42'') 10 = Some (42, Some [0])"
proof -
  have d: "dec_digits 42 = [52, 50]" by (simp add: dec_digits.simps)
  have c: "c_str '' -42'' = [32] @ dec_int (-42) @ 0 # []" "c_str '' 42'' = [32] @ dec_digits 42 @ 0 # []"
    using d by (simp_all add: c_str_def chars_def dec_int_def of_char_def)
  have p: "\<forall>c \<in> set [32]. bcm_isspace c" "\<not> bcm_isdigit 0" by (simp_all add: isspace_iff isdigit_iff)
  show ?thesis unfolding c using atoi_reads_int [of "-42" 42, OF _ _ _ p, of "[]"] by simp
qed

text \<open>C28. Text forms of addresses: what \<open>bcm_ether_ntoa\<close> and \<open>bcm_ip_ntoa\<close> write into a buffer (18 bytes, at
  most 16 bytes, nothing beside them) is read back by \<open>bcm_ether_atoe\<close> and \<open>bcm_atoipv4\<close> as the same address.\<close>

theorem address_texts:
  assumes "length ea = 6" and "length ea' = 6" and "length eold = 18"
    and "length ia = 4" and "length ia' = 4" and "length iold = 16"
  shows "(\<exists>txt. length txt = 18 \<and> bcm_ether_ntoa ea (pre @ eold @ post) (length pre) = Some (pre @ txt @ post) \<and>
       bcm_ether_atoe (txt @ post) ea' = Some (True, ea)) \<and>
     (\<exists>txt rest. length txt \<le> 16 \<and> bcm_ip_ntoa ia (pre @ iold @ post) (length pre) = Some (pre @ txt @ rest @ post) \<and>
       rest = drop (length txt) iold \<and> bcm_atoipv4 (txt @ rest @ post) ia' = Some (True, ia))"
proof (rule conjI)
  obtain a b c d e f where ea: "ea = [a, b, c, d, e, f]" using six_bytes [OF assms(1)] by blast
  let ?et = "octet_text a @ 58 # octet_text b @ 58 # octet_text c @ 58 # octet_text d @ 58 # octet_text e @ 58 # octet_text f @ [0]"
  have "length ?et = 18" by (simp add: octet_text_def)
  moreover have "bcm_ether_ntoa ea (pre @ eold @ post) (length pre) = Some (pre @ ?et @ post)"
    using ether_ntoa_text [OF assms(3), of a b c d e f pre post] by (simp add: ea)
  moreover have "bcm_ether_atoe (?et @ post) ea' = Some (True, ea)"
    using ether_atoe_text [OF assms(2), of a b c d e f post] by (simp add: ea)
  ultimately show "\<exists>txt. length txt = 18 \<and> bcm_ether_ntoa ea (pre @ eold @ post) (length pre) = Some (pre @ txt @ post) \<and>
      bcm_ether_atoe (txt @ post) ea' = Some (True, ea)" by blast
next
  obtain w x y z where ia: "ia = [w, x, y, z]" using assms(4) by (auto simp: eval_nat_numeral length_Suc_conv)
  define tx where "tx = dec_int (uint w) @ 46 # dec_int (uint x) @ 46 # dec_int (uint y) @ 46 # dec_int (uint z)"
  let ?old = "take (Suc (length tx)) iold" and ?rest = "drop (Suc (length tx)) iold"
  have l: "length tx \<le> 15" unfolding tx_def by (rule ip_ntoa_text(2) [OF length_replicate])
  then have "length ?old = Suc (length tx)" using assms(6) by simp
  then have "bcm_ip_ntoa ia (pre @ ?old @ ?rest @ post) (length pre) = Some (pre @ tx @ 0 # ?rest @ post)"
    using ip_ntoa_text(1) [of ?old w x y z pre "?rest @ post"] by (simp add: ia tx_def)
  then have "bcm_ip_ntoa ia (pre @ iold @ post) (length pre) = Some (pre @ (tx @ [0]) @ ?rest @ post)"
    by (simp add: append_take_drop_id [of "Suc (length tx)" iold] flip: append_assoc [of ?old])
  moreover have "bcm_atoipv4 ((tx @ [0]) @ ?rest @ post) ia' = Some (True, ia)"
    using atoipv4_text [OF assms(5), of w x y z "?rest @ post"] by (simp add: ia tx_def)
  moreover have "length (tx @ [0]) \<le> 16" "?rest = drop (length (tx @ [0])) iold" using l by simp_all
  ultimately show "\<exists>txt rest. length txt \<le> 16 \<and> bcm_ip_ntoa ia (pre @ iold @ post) (length pre) = Some (pre @ txt @ rest @ post) \<and>
      rest = drop (length txt) iold \<and> bcm_atoipv4 (txt @ rest @ post) ia' = Some (True, ia)" by blast
qed

theorem address_texts_witness:
  "(\<exists>t. bcm_ether_ntoa [0x00, 0x90, 0x4c, 0xa0, 0x0f, 0xff] ([7] @ replicate 18 0 @ [9]) 1 = Some ([7] @ t @ [9]) \<and>
       bcm_ether_atoe (t @ [9]) (replicate 6 1) = Some (True, [0x00, 0x90, 0x4c, 0xa0, 0x0f, 0xff])) \<and>
   (\<exists>t rest. bcm_ip_ntoa [192, 0, 2, 255] ([7] @ replicate 16 0 @ [9]) 1 = Some ([7] @ t @ rest @ [9]) \<and>
       bcm_atoipv4 (t @ rest @ [9]) (replicate 4 1) = Some (True, [192, 0, 2, 255]))"
  using address_texts [of "[0x00, 0x90, 0x4c, 0xa0, 0x0f, 0xff]" "replicate 6 1" "replicate 18 0" "[192, 0, 2, 255]" "replicate 4 1" "replicate 16 0" "[7]" "[9]"]
  by fastforce

text \<open>C29. \<open>bcmstrtok\<close> on a NUL-terminated string: delimiters and spaces in front are skipped, the token is what
  comes before the next delimiter, that delimiter is reported and overwritten by NUL, the string goes on behind it,
  and NULL is returned exactly when nothing but delimiters and spaces is left. Other bytes stay as they are.\<close>

theorem strtok_splits:
  assumes "0 \<notin> set s" and "0 \<notin> set ds"
  defines "lead \<equiv> takeWhile (\<lambda>c. c \<in> set ds \<or> c = 32) s" and "rest \<equiv> dropWhile (\<lambda>c. c \<in> set ds \<or> c = 32) s"
  defines "tok \<equiv> takeWhile (\<lambda>c. c \<notin> set ds) rest" and "rem \<equiv> dropWhile (\<lambda>c. c \<notin> set ds) rest"
  shows "bcmstrtok (pre @ s @ 0 # post) (length pre) (ds @ 0 # more) =
     Some (if rest = [] then None else Some (length pre + length lead),
           if rem = [] then 0 else hd rem,
           pre @ lead @ tok @ (if rem = [] then [] else 0 # tl rem) @ 0 # post,
           length pre + length lead + length tok + (if rem = [] then 0 else 1))"
proof -
  obtain m where m: "delim_map (replicate 8 0) (ds @ 0 # more) = Some m" "\<forall>c. map_has m c \<longleftrightarrow> c \<in> set ds \<or> c = 0"
    using delim_map_set [of "replicate 8 0" ds more] assms(2) map_has_empty by auto
  have s: "s = lead @ rest" by (simp add: lead_def rest_def)
  have tr: "rest = tok @ rem" by (simp add: tok_def rem_def)
  have sk: "skip_delims m (pre @ s @ 0 # post) (length pre) (Suc (length (pre @ s @ 0 # post))) = Some (length (pre @ lead))"
    using skip_delims_dropWhile [OF m(2) assms(1), of "Suc (length (pre @ s @ 0 # post))" pre post] by (simp add: lead_def del: skip_delims.simps)
  have "find_delim m ((pre @ lead) @ rest @ 0 # post) (length (pre @ lead)) (Suc (length (pre @ s @ 0 # post))) =
      (case rem of [] \<Rightarrow> Some (pre @ lead @ rest @ 0 # post, length (pre @ lead) + length tok, 0)
       | d # r \<Rightarrow> Some (pre @ lead @ tok @ 0 # r @ 0 # post, Suc (length (pre @ lead) + length tok), d))"
    using find_delim_takeWhile [OF m(2), of rest _ "pre @ lead" post] assms(1) s
    by (cases "dropWhile (\<lambda>c. c \<notin> set ds) rest") (simp_all add: tok_def rem_def Let_def del: find_delim.simps dropWhile_eq_Nil_conv)
  then have fd: "find_delim m (pre @ s @ 0 # post) (length (pre @ lead)) (Suc (length (pre @ s @ 0 # post))) =
      Some (pre @ lead @ tok @ (if rem = [] then [] else 0 # tl rem) @ 0 # post,
        length (pre @ lead) + length tok + (if rem = [] then 0 else 1), if rem = [] then 0 else hd rem)"
    using tr s by (cases rem) (auto simp del: find_delim.simps)
  show ?thesis using m(1) sk fd tr by (auto simp: bcmstrtok_def simp del: append_assoc skip_delims.simps find_delim.simps)
qed

theorem strtok_splits_witness:
  "bcmstrtok (c_str '', a=1'') 0 (c_str ''=,'') = Some (Some 2, 61, [44, 32, 97, 0, 49, 0], 4)"
  using strtok_splits [of "[44, 32, 97, 61, 49]" "[61, 44]" "[]" "[]" "[]"] by (simp add: c_str_def chars_def of_char_def)

text \<open>On NUL-terminated strings \<open>bcmstricmp\<close> and \<open>bcmstrnicmp\<close> are the lexicographic comparison of the strings, or
  of their first \<open>cnt\<close> characters, in lower case; \<open>bcmstrcat\<close> appends and terminates when the block has room;
  \<open>bcmstrncat\<close> writes at most \<open>sz\<close> bytes, without a terminator when the appended string has \<open>sz\<close> or more
  characters; \<open>bcmstrstr\<close> finds the first occurrence.\<close>

theorem string_operations:
  assumes "0 \<notin> set s" and "0 \<notin> set r" and "length r \<le> length rest"
  shows "bcmstricmp (s @ 0 # x) (r @ 0 # y) = Some (lex_cmp (map xToLower s) (map xToLower r)) \<and>
     bcmstrnicmp (s @ 0 # x) (r @ 0 # y) cnt = Some (lex_cmp (map xToLower (take (unat cnt) s)) (map xToLower (take (unat cnt) r))) \<and>
     bcmstrcat (s @ 0 # rest) (r @ 0 # y) = Some (s @ r @ 0 # drop (length r) rest) \<and>
     bcmstrncat (s @ 0 # rest) (r @ 0 # y) sz = Some (s @ take (unat sz) (r @ [0]) @ drop (min (unat sz) (Suc (length r))) (0 # rest)) \<and>
     bcmstrstr (s @ 0 # x) (r @ 0 # y) = Some (find (\<lambda>i. take (length r) (drop i s) = r) [0..<Suc (length s) - length r])"
  using assms strcat_loop_append [of r "0 # rest" s y] strncat_loop_append [of r "unat sz" "0 # rest" s y]
  by (simp add: stricmp_lex strnicmp_lex strstr_find bcmstrcat_def bcmstrncat_def)

theorem string_operations_witness:
  "bcmstricmp (c_str ''aB'') (c_str ''Ab'') = Some 0 \<and> bcmstrnicmp (c_str ''aB'') (c_str ''Ab'') 1 = Some 0 \<and>
   bcmstrcat [97, 66, 0, 9, 9, 9] (c_str ''Ab'') = Some [97, 66, 65, 98, 0, 9] \<and>
   bcmstrncat [97, 66, 0, 9, 9, 9] (c_str ''Ab'') 1 = Some [97, 66, 65, 9, 9, 9] \<and> bcmstrstr (c_str ''aB'') (c_str ''Ab'') = Some None"
  using string_operations [of "[97, 66]" "[65, 98]" "[9, 9, 9]" "[]" "[]" 1 1]
  by (simp add: c_str_def chars_def of_char_def lex_cmp_def xToLower_def)

text \<open>Overflow in \<open>bcm_strtoul\<close>: it is noticed only when the wrapped result is smaller than before, so
  30000000000000000000 is read as another number without notice; and where it is noticed nothing is stored
  through \<open>endp\<close>, so that \<open>bcm_ether_atoe\<close> reads on from a pointer it never set.\<close>

theorem strtoul_overflow:
  "bcm_strtoul (c_str ''30000000000000000000'') 10 = Some (11553255926290448384, Some [0]) \<and>
   bcm_strtoul (c_str ''18446744073709551616'') 10 = Some (- 1, None) \<and>
   bcm_ether_atoe (c_str ''10000000000000000:0:0:0:0:0'') ea = None"
proof -
  note str = c_str_def chars_def of_char_def bcm_strtoul_def strtoul_base_def isspace_iff isxdigit_iff isdigit_iff digit_value_def Let_def
  have o: "bcm_strtoul (c_str ''10000000000000000:0:0:0:0:0'') 16 = Some (- 1, None)" by (simp add: str)
  have "bcm_strtoul (c_str ''30000000000000000000'') 10 = Some (11553255926290448384, Some [0])" by (simp add: str)
  moreover have "bcm_strtoul (c_str ''18446744073709551616'') 10 = Some (- 1, None)" by (simp add: str)
  moreover have "bcm_ether_atoe (c_str ''10000000000000000:0:0:0:0:0'') ea = None"
    using o by (cases "arr_set ea 0 (- 1)") (simp_all add: bcm_ether_atoe_def numeral_eq_Suc)
  ultimately show ?thesis by simp
qed

end
