(* ===== verification/Chanspec.thy ===== *)
theory Chanspec
  imports Bcm_Str
begin

text \<open>
  Channel specifications, \<open>shared/bcmwifi/src/bcmwifi_channels.c\<close> and its header: 16 bits with the channel (or two
  indices of 80 MHz channels), the side band of the control channel, the bandwidth and the band; their text form,
  their well-formedness, and the conversions between channels, bandwidths and frequencies. The model is the
  driver's configuration (no \<open>WL11AC_80P80\<close>, no \<open>WL11N_20MHZONLY\<close>, no \<open>CHANSPEC_NEW_40MHZ_FORMAT\<close>); \<open>ulb\<close> says
  whether \<open>WL11ULB\<close> is defined, which admits bandwidths below 20 MHz. The assertions on malformed arguments
  expand to nothing; an index beyond a table is \<open>None\<close>, no outcome.
\<close>

unbundle bit_operations_syntax

type_synonym chanspec = u16

section \<open>Fields\<close>

abbreviation (input) WL_CHANSPEC_BW_5 :: chanspec where "WL_CHANSPEC_BW_5 \<equiv> 0x0000"
abbreviation (input) WL_CHANSPEC_BW_10 :: chanspec where "WL_CHANSPEC_BW_10 \<equiv> 0x0800"
abbreviation (input) WL_CHANSPEC_BW_20 :: chanspec where "WL_CHANSPEC_BW_20 \<equiv> 0x1000"
abbreviation (input) WL_CHANSPEC_BW_40 :: chanspec where "WL_CHANSPEC_BW_40 \<equiv> 0x1800"
abbreviation (input) WL_CHANSPEC_BW_80 :: chanspec where "WL_CHANSPEC_BW_80 \<equiv> 0x2000"
abbreviation (input) WL_CHANSPEC_BW_160 :: chanspec where "WL_CHANSPEC_BW_160 \<equiv> 0x2800"
abbreviation (input) WL_CHANSPEC_BW_8080 :: chanspec where "WL_CHANSPEC_BW_8080 \<equiv> 0x3000"
abbreviation (input) WL_CHANSPEC_BW_2P5 :: chanspec where "WL_CHANSPEC_BW_2P5 \<equiv> 0x3800"
abbreviation (input) WL_CHANSPEC_BAND_2G :: chanspec where "WL_CHANSPEC_BAND_2G \<equiv> 0x0000"
abbreviation (input) WL_CHANSPEC_BAND_5G :: chanspec where "WL_CHANSPEC_BAND_5G \<equiv> 0xc000"
abbreviation (input) WL_CHANSPEC_CTL_SB_LLL :: chanspec where "WL_CHANSPEC_CTL_SB_LLL \<equiv> 0x0000"
abbreviation (input) WL_CHANSPEC_CTL_SB_LLU :: chanspec where "WL_CHANSPEC_CTL_SB_LLU \<equiv> 0x0100"
abbreviation (input) WL_CHANSPEC_CTL_SB_LUL :: chanspec where "WL_CHANSPEC_CTL_SB_LUL \<equiv> 0x0200"
abbreviation (input) WL_CHANSPEC_CTL_SB_LUU :: chanspec where "WL_CHANSPEC_CTL_SB_LUU \<equiv> 0x0300"
abbreviation (input) WL_CHANSPEC_CTL_SB_ULL :: chanspec where "WL_CHANSPEC_CTL_SB_ULL \<equiv> 0x0400"
abbreviation (input) INVCHANSPEC :: chanspec where "INVCHANSPEC \<equiv> 255"
abbreviation (input) MAXCHANNEL :: u32 where "MAXCHANNEL \<equiv> 224"
abbreviation (input) CHANSPEC_STR_LEN :: nat where "CHANSPEC_STR_LEN \<equiv> 20"

definition CHSPEC_CHANNEL :: "chanspec \<Rightarrow> u8" where "CHSPEC_CHANNEL c = ucast (c AND 0x00ff)"
definition CHSPEC_CHAN1 :: "chanspec \<Rightarrow> u16" where "CHSPEC_CHAN1 c = c AND 0x000f"
definition CHSPEC_CHAN2 :: "chanspec \<Rightarrow> u16" where "CHSPEC_CHAN2 c = drop_bit 4 (c AND 0x00f0)"
definition CHSPEC_BAND :: "chanspec \<Rightarrow> u16" where "CHSPEC_BAND c = c AND 0xc000"
definition CHSPEC_CTL_SB :: "chanspec \<Rightarrow> u16" where "CHSPEC_CTL_SB c = c AND 0x0700"
definition CHSPEC_BW :: "chanspec \<Rightarrow> u16" where "CHSPEC_BW c = c AND 0x3800"
definition CHSPEC_IS2G :: "chanspec \<Rightarrow> bool" where "CHSPEC_IS2G c \<longleftrightarrow> c AND 0xc000 = WL_CHANSPEC_BAND_2G"
definition CHSPEC_IS5G :: "chanspec \<Rightarrow> bool" where "CHSPEC_IS5G c \<longleftrightarrow> c AND 0xc000 = WL_CHANSPEC_BAND_5G"
definition CHSPEC_SB_UPPER :: "chanspec \<Rightarrow> bool" where
  "CHSPEC_SB_UPPER c \<longleftrightarrow> c AND 0x0700 = WL_CHANSPEC_CTL_SB_LLU \<and> c AND 0x3800 = WL_CHANSPEC_BW_40"

definition BW_LE20 :: "bool \<Rightarrow> u16 \<Rightarrow> bool" where
  "BW_LE20 ulb bw \<longleftrightarrow> ulb \<and> (bw = WL_CHANSPEC_BW_2P5 \<or> bw = WL_CHANSPEC_BW_5 \<or> bw = WL_CHANSPEC_BW_10) \<or> bw = WL_CHANSPEC_BW_20"
definition BW_LE40 :: "bool \<Rightarrow> u16 \<Rightarrow> bool" where "BW_LE40 ulb bw \<longleftrightarrow> BW_LE20 ulb bw \<or> bw = WL_CHANSPEC_BW_40"
definition BW_LE80 :: "bool \<Rightarrow> u16 \<Rightarrow> bool" where "BW_LE80 ulb bw \<longleftrightarrow> BW_LE40 ulb bw \<or> bw = WL_CHANSPEC_BW_80"
definition BW_LE160 :: "bool \<Rightarrow> u16 \<Rightarrow> bool" where "BW_LE160 ulb bw \<longleftrightarrow> BW_LE80 ulb bw \<or> bw = WL_CHANSPEC_BW_160"

definition LOWER_20_SB :: "u32 \<Rightarrow> u32" where "LOWER_20_SB ch = (if 2 < ch then ch - 2 else 0)"
definition UPPER_20_SB :: "u32 \<Rightarrow> u32" where "UPPER_20_SB ch = (if ch < MAXCHANNEL - 2 then ch + 2 else 0)"

section \<open>Tables and channel arithmetic\<close>

definition wf_chspec_bw_str :: "bool \<Rightarrow> string list" where
  "wf_chspec_bw_str ulb = [''5'', ''10'', ''20'', ''40'', ''80'', ''160'', ''80+80'', if ulb then ''2.5'' else ''na'']"
definition wf_chspec_bw_mhz :: "u8 list" where "wf_chspec_bw_mhz = [5, 10, 20, 40, 80, 160, 160]"
definition wf_5g_40m_chans :: "u8 list" where "wf_5g_40m_chans = [38, 46, 54, 62, 102, 110, 118, 126, 134, 142, 151, 159]"
definition wf_5g_80m_chans :: "u8 list" where "wf_5g_80m_chans = [42, 58, 106, 122, 138, 155]"
definition wf_5g_160m_chans :: "u8 list" where "wf_5g_160m_chans = [50, 114]"

definition bw_chspec_to_mhz :: "chanspec \<Rightarrow> u32" where
  "bw_chspec_to_mhz chspec =
     (let bw = unat (drop_bit 11 (chspec AND 0x3800))
      in if length wf_chspec_bw_mhz \<le> bw then 0 else ucast (wf_chspec_bw_mhz ! bw))"

definition center_chan_to_edge :: "u32 \<Rightarrow> u8" where
  "center_chan_to_edge bw = ucast ((bw - 20) div 2 div 5)"

definition channel_low_edge :: "u32 \<Rightarrow> u32 \<Rightarrow> u8" where
  "channel_low_edge center_ch bw = ucast (center_ch - ucast (center_chan_to_edge bw))"

definition channel_to_sb :: "u32 \<Rightarrow> u32 \<Rightarrow> u32 \<Rightarrow> int" where
  "channel_to_sb center_ch ctl_ch bw =
     (let lowest = ucast (channel_low_edge center_ch bw)
      in if (ctl_ch - lowest) mod 4 \<noteq> 0 then - 1
         else let sb = (ctl_ch - lowest) div 4
              in if bw div 20 \<le> sb then - 1 else sint sb)"

definition channel_to_ctl_chan :: "u32 \<Rightarrow> u32 \<Rightarrow> u32 \<Rightarrow> u8" where
  "channel_to_ctl_chan center_ch bw sb = ucast (ucast (channel_low_edge center_ch bw) + sb * 4)"

fun id_loop :: "u32 \<Rightarrow> int \<Rightarrow> u8 list \<Rightarrow> int" where
  "id_loop ch i [] = - 1"
| "id_loop ch i (c # cs) = (if ch = ucast c then i else id_loop ch (i + 1) cs)"

definition channel_80mhz_to_id :: "u32 \<Rightarrow> int" where
  "channel_80mhz_to_id ch = id_loop ch 0 wf_5g_80m_chans"

text \<open>The search for a centre channel whose 20 MHz channels contain the control channel: the centre and the side band.\<close>

fun center_loop :: "u8 list \<Rightarrow> u32 \<Rightarrow> u32 \<Rightarrow> (u8 \<times> int) option" where
  "center_loop [] ctl_ch bw = None"
| "center_loop (c # cs) ctl_ch bw =
     (let sb = channel_to_sb (ucast c) ctl_ch bw in if 0 \<le> sb then Some (c, sb) else center_loop cs ctl_ch bw)"

section \<open>Well-formed and valid channel specifications\<close>

definition wf_chspec_malformed :: "bool \<Rightarrow> chanspec \<Rightarrow> bool" where
  "wf_chspec_malformed ulb chanspec =
     (let chspec_bw = CHSPEC_BW chanspec;
          chspec_ch = ucast (CHSPEC_CHANNEL chanspec) :: u32;
          side = (if BW_LE20 ulb chspec_bw then CHSPEC_CTL_SB chanspec \<noteq> WL_CHANSPEC_CTL_SB_LLL
                  else if chspec_bw = WL_CHANSPEC_BW_40 then WL_CHANSPEC_CTL_SB_LLU < CHSPEC_CTL_SB chanspec
                  else if chspec_bw = WL_CHANSPEC_BW_80 \<or> chspec_bw = WL_CHANSPEC_BW_8080
                  then WL_CHANSPEC_CTL_SB_LUU < CHSPEC_CTL_SB chanspec
                  else False)
      in if CHSPEC_IS2G chanspec then \<not> BW_LE40 ulb chspec_bw \<or> side
         else if CHSPEC_IS5G chanspec
         then if chspec_bw = WL_CHANSPEC_BW_8080
              then length wf_5g_80m_chans \<le> unat (CHSPEC_CHAN1 chanspec) \<or> length wf_5g_80m_chans \<le> unat (CHSPEC_CHAN2 chanspec) \<or> side
              else if BW_LE160 ulb chspec_bw then MAXCHANNEL < chspec_ch \<or> side
              else True
         else True)"

definition wf_chspec_valid :: "bool \<Rightarrow> chanspec \<Rightarrow> bool" where
  "wf_chspec_valid ulb chanspec =
     (let chspec_bw = CHSPEC_BW chanspec;
          chspec_ch = ucast (CHSPEC_CHANNEL chanspec) :: u32
      in if wf_chspec_malformed ulb chanspec then False
         else if CHSPEC_IS2G chanspec
         then if BW_LE20 ulb chspec_bw then 1 \<le> chspec_ch \<and> chspec_ch \<le> 14
              else if chspec_bw = WL_CHANSPEC_BW_40 then 3 \<le> chspec_ch \<and> chspec_ch \<le> 11
              else False
         else if CHSPEC_IS5G chanspec
         then if chspec_bw = WL_CHANSPEC_BW_8080
              then let ch1 = wf_5g_80m_chans ! unat (CHSPEC_CHAN1 chanspec); ch2 = wf_5g_80m_chans ! unat (CHSPEC_CHAN2 chanspec)
                   in uint ch1 + 16 < uint ch2 \<or> uint ch2 + 16 < uint ch1
              else if BW_LE40 ulb chspec_bw
              then if BW_LE20 ulb chspec_bw
                   then list_ex (\<lambda>c. chspec_ch = LOWER_20_SB (ucast c) \<or> chspec_ch = UPPER_20_SB (ucast c)) wf_5g_40m_chans \<or>
                        chspec_ch = 165 \<or> chspec_ch = 34 \<or> chspec_ch = 38 \<or> chspec_ch = 42 \<or> chspec_ch = 46
                   else list_ex (\<lambda>c. chspec_ch = ucast c) wf_5g_40m_chans
              else if chspec_bw = WL_CHANSPEC_BW_80 then list_ex (\<lambda>c. chspec_ch = ucast c) wf_5g_80m_chans
              else if chspec_bw = WL_CHANSPEC_BW_160 then list_ex (\<lambda>c. chspec_ch = ucast c) wf_5g_160m_chans
              else False
         else False)"

section \<open>Control channel and conversions\<close>

definition wf_chspec_ctlchan :: "bool \<Rightarrow> chanspec \<Rightarrow> u8 option" where
  "wf_chspec_ctlchan ulb chspec =
     (if BW_LE20 ulb (CHSPEC_BW chspec) then Some (CHSPEC_CHANNEL chspec)
      else let sb = ucast (drop_bit 8 (CHSPEC_CTL_SB chspec))
           in if CHSPEC_BW chspec = WL_CHANSPEC_BW_8080
              then do {
                center_chan \<leftarrow> arr_get wf_5g_80m_chans (unat (CHSPEC_CHAN1 chspec));
                Some (channel_to_ctl_chan (ucast center_chan) 80 sb)
              }
              else Some (channel_to_ctl_chan (ucast (CHSPEC_CHANNEL chspec)) (bw_chspec_to_mhz chspec) sb))"

definition wf_chspec_to_bw_str :: "bool \<Rightarrow> chanspec \<Rightarrow> string" where
  "wf_chspec_to_bw_str ulb chspec = wf_chspec_bw_str ulb ! unat (drop_bit 11 (CHSPEC_BW chspec))"

definition wf_chspec_ctlchspec :: "bool \<Rightarrow> chanspec \<Rightarrow> chanspec option" where
  "wf_chspec_ctlchspec ulb chspec =
     (if \<not> BW_LE20 ulb (CHSPEC_BW chspec)
      then do { ctl_chan \<leftarrow> wf_chspec_ctlchan ulb chspec; Some (ucast ctl_chan OR WL_CHANSPEC_BW_20 OR CHSPEC_BAND chspec) }
      else Some chspec)"

definition wf_channel2chspec :: "bool \<Rightarrow> u32 \<Rightarrow> u32 \<Rightarrow> chanspec" where
  "wf_channel2chspec ulb ctl_ch bw =
     (let chspec = (if ctl_ch \<le> 14 then WL_CHANSPEC_BAND_2G else WL_CHANSPEC_BAND_5G) OR ucast bw;
          found = (\<lambda>center_ch mhz. case center_loop center_ch ctl_ch mhz of
                     None \<Rightarrow> 0
                   | Some (c, sb) \<Rightarrow> chspec OR ucast c OR push_bit 8 (of_int sb))
      in if bw = 0x1800 then found wf_5g_40m_chans 40
         else if bw = 0x2000 then found wf_5g_80m_chans 80
         else if bw = 0x2800 then found wf_5g_160m_chans 160
         else if ulb \<and> (bw = 0x3800 \<or> bw = 0 \<or> bw = 0x0800) \<or> bw = 0x1000 then chspec OR ucast ctl_ch
         else 0)"

definition wf_chspec_get80Mhz_ch :: "u8 \<Rightarrow> u8" where
  "wf_chspec_get80Mhz_ch chan_80Mhz_id =
     (if unat chan_80Mhz_id < length wf_5g_80m_chans then wf_5g_80m_chans ! unat chan_80Mhz_id else 0)"

definition wf_chspec_primary80_chspec :: "bool \<Rightarrow> chanspec \<Rightarrow> chanspec option" where
  "wf_chspec_primary80_chspec ulb chspec =
     (if CHSPEC_BW chspec = WL_CHANSPEC_BW_80 then Some chspec
      else if CHSPEC_BW chspec = WL_CHANSPEC_BW_8080
      then let center_chan = ucast (wf_chspec_get80Mhz_ch (ucast (CHSPEC_CHAN1 chspec)))
           in Some (WL_CHANSPEC_BAND_5G OR WL_CHANSPEC_BW_80 OR CHSPEC_CTL_SB chspec OR center_chan)
      else if CHSPEC_BW chspec = WL_CHANSPEC_BW_160
      then let center_chan = ucast (CHSPEC_CHANNEL chspec) :: u32; sb = CHSPEC_CTL_SB chspec;
               (center_chan, sb) = (if sb < WL_CHANSPEC_CTL_SB_ULL then (center_chan - 8, sb)
                                    else (center_chan + 8, sb - WL_CHANSPEC_CTL_SB_ULL))
           in Some (WL_CHANSPEC_BAND_5G OR WL_CHANSPEC_BW_80 OR sb OR ucast center_chan)
      else Some INVCHANSPEC)"

definition wf_chspec_primary40_chspec :: "bool \<Rightarrow> chanspec \<Rightarrow> chanspec option" where
  "wf_chspec_primary40_chspec ulb chspec0 = do {
     chspec \<leftarrow> (if CHSPEC_BW chspec0 = WL_CHANSPEC_BW_8080 \<or> CHSPEC_BW chspec0 = WL_CHANSPEC_BW_160
                then wf_chspec_primary80_chspec ulb chspec0 else Some chspec0);
     if CHSPEC_BW chspec = WL_CHANSPEC_BW_80
     then let center_chan = ucast (CHSPEC_CHANNEL chspec) :: u32; sb = CHSPEC_CTL_SB chspec;
              (center_chan, sb) = (if sb < WL_CHANSPEC_CTL_SB_LUL then (center_chan - 4, sb)
                                   else (center_chan + 4, sb - WL_CHANSPEC_CTL_SB_LUL))
          in Some (WL_CHANSPEC_BAND_5G OR WL_CHANSPEC_BW_40 OR sb OR ucast center_chan)
     else Some chspec0
   }"

definition wf_chspec_primary80_channel :: "chanspec \<Rightarrow> u8" where
  "wf_chspec_primary80_channel chanspec =
     (if CHSPEC_BW chanspec = WL_CHANSPEC_BW_80 then CHSPEC_CHANNEL chanspec
      else if CHSPEC_BW chanspec = WL_CHANSPEC_BW_8080 then wf_chspec_get80Mhz_ch (ucast (CHSPEC_CHAN1 chanspec))
      else if CHSPEC_BW chanspec = WL_CHANSPEC_BW_160
      then if drop_bit 8 (CHSPEC_CTL_SB chanspec) < 4 then CHSPEC_CHANNEL chanspec - 8 else CHSPEC_CHANNEL chanspec + 8
      else - 1)"

definition wf_chspec_secondary80_channel :: "chanspec \<Rightarrow> u8" where
  "wf_chspec_secondary80_channel chanspec =
     (if CHSPEC_BW chanspec = WL_CHANSPEC_BW_8080 then wf_chspec_get80Mhz_ch (ucast (CHSPEC_CHAN2 chanspec))
      else if CHSPEC_BW chanspec = WL_CHANSPEC_BW_160
      then if drop_bit 8 (CHSPEC_CTL_SB chanspec) < 4 then CHSPEC_CHANNEL chanspec + 8 else CHSPEC_CHANNEL chanspec - 8
      else - 1)"

definition sidebands :: "u16 list" where
  "sidebands = [0x0000, 0x0100, 0x0200, 0x0300, 0x0400, 0x0500, 0x0600, 0x0700]"

fun chspec_80_loop :: "bool \<Rightarrow> u8 \<Rightarrow> u8 \<Rightarrow> u16 list \<Rightarrow> chanspec option" where
  "chspec_80_loop ulb center_channel primary_channel [] = Some INVCHANSPEC"
| "chspec_80_loop ulb center_channel primary_channel (sb # sbs) =
     (let chanspec_cur = ucast center_channel OR sb OR WL_CHANSPEC_BW_80 OR WL_CHANSPEC_BAND_5G
      in do {
        ctl \<leftarrow> wf_chspec_ctlchan ulb chanspec_cur;
        if primary_channel = ctl then Some chanspec_cur else chspec_80_loop ulb center_channel primary_channel sbs
      })"

definition wf_chspec_80 :: "bool \<Rightarrow> u8 \<Rightarrow> u8 \<Rightarrow> chanspec option" where
  "wf_chspec_80 ulb center_channel primary_channel = chspec_80_loop ulb center_channel primary_channel (take 4 sidebands)"

definition wf_chspec_get8080_chspec :: "u8 \<Rightarrow> u8 \<Rightarrow> u8 \<Rightarrow> chanspec" where
  "wf_chspec_get8080_chspec primary_20mhz chan0 chan1 =
     (let chan0_id = channel_80mhz_to_id (ucast chan0); chan1_id = channel_80mhz_to_id (ucast chan1);
          sb0 = channel_to_sb (ucast chan0) (ucast primary_20mhz) 80; sb1 = channel_to_sb (ucast chan1) (ucast primary_20mhz) 80;
          spec = (\<lambda>seg0 seg1 sb. of_int seg0 OR push_bit 4 (of_int seg1) OR push_bit 8 (of_int sb) OR WL_CHANSPEC_BW_8080 OR WL_CHANSPEC_BAND_5G)
      in if chan0_id = - 1 \<or> chan1_id = - 1 then INVCHANSPEC
         else if 0 \<le> sb0 then spec chan0_id chan1_id sb0
         else if sb1 < 0 then INVCHANSPEC
         else spec chan1_id chan0_id sb1)"

section \<open>Frequencies\<close>

abbreviation (input) WF_CHAN_FACTOR_2_4_G :: u32 where "WF_CHAN_FACTOR_2_4_G \<equiv> 4814"
abbreviation (input) WF_CHAN_FACTOR_5_G :: u32 where "WF_CHAN_FACTOR_5_G \<equiv> 10000"

definition wf_mhz2channel :: "u32 \<Rightarrow> u32 \<Rightarrow> int" where
  "wf_mhz2channel freq start_factor =
     (let start_factor = (if start_factor = 0
                          then if 2400 \<le> freq \<and> freq \<le> 2500 then WF_CHAN_FACTOR_2_4_G
                               else if 5000 \<le> freq \<and> freq \<le> 6000 then WF_CHAN_FACTOR_5_G else start_factor
                          else start_factor);
          base = start_factor div 2; offset = sint (freq - base); ch = offset div 5
      in if freq = 2484 \<and> start_factor = WF_CHAN_FACTOR_2_4_G then 14
         else if freq < base \<or> base + 1000 < freq then - 1
         else if offset \<noteq> ch * 5 then - 1
         else if start_factor = WF_CHAN_FACTOR_2_4_G \<and> (ch < 1 \<or> 13 < ch) then - 1
         else ch)"

definition wf_channel2mhz :: "u32 \<Rightarrow> u32 \<Rightarrow> int" where
  "wf_channel2mhz ch start_factor =
     (if start_factor = WF_CHAN_FACTOR_2_4_G \<and> (ch < 1 \<or> 14 < ch) \<or> 200 < ch then - 1
      else if start_factor = WF_CHAN_FACTOR_2_4_G \<and> ch = 14 then 2484
      else sint (ch * 5 + start_factor div 2))"

section \<open>Text form\<close>

text \<open>The result: \<open>Some None\<close> is NULL, otherwise the bytes written to the buffer.\<close>

definition wf_chspec_ntoa :: "bool \<Rightarrow> chanspec \<Rightarrow> bytes option option" where
  "wf_chspec_ntoa ulb chspec =
     (if wf_chspec_malformed ulb chspec then Some None
      else let band = (if CHSPEC_IS2G chspec \<and> 14 < CHSPEC_CHANNEL chspec \<or> CHSPEC_IS5G chspec \<and> CHSPEC_CHANNEL chspec \<le> 14
                       then if CHSPEC_IS2G chspec then chars ''2g'' else chars ''5g'' else [])
           in do {
             ctl_chan \<leftarrow> wf_chspec_ctlchan ulb chspec;
             let ctl = dec_int (uint ctl_chan);
             Some (Some (snprintf_bytes CHANSPEC_STR_LEN
               (if CHSPEC_BW chspec = WL_CHANSPEC_BW_20 then band @ ctl
                else if CHSPEC_BW chspec \<noteq> WL_CHANSPEC_BW_8080
                then if CHSPEC_BW chspec = WL_CHANSPEC_BW_40
                     then band @ ctl @ (if CHSPEC_SB_UPPER chspec then chars ''u'' else chars ''l'')
                     else band @ ctl @ chars ''/'' @ chars (wf_chspec_bw_str ulb ! unat (drop_bit 11 (chspec AND 0x3800)))
                else let chan1 = (if unat (CHSPEC_CHAN1 chspec) < length wf_5g_80m_chans then wf_5g_80m_chans ! unat (CHSPEC_CHAN1 chspec) else 0);
                         chan2 = (if unat (CHSPEC_CHAN2 chspec) < length wf_5g_80m_chans then wf_5g_80m_chans ! unat (CHSPEC_CHAN2 chspec) else 0)
                     in ctl @ chars ''/80+80/'' @ dec_int (uint chan1) @ chars ''-'' @ dec_int (uint chan2))))
           })"

text \<open>\<open>%04x\<close> of a 16-bit number.\<close>

definition hex4 :: "u16 \<Rightarrow> bytes" where
  "hex4 w = [hex ! unat (drop_bit 12 w AND 0xf), hex ! unat (drop_bit 8 w AND 0xf), hex ! unat (drop_bit 4 w AND 0xf), hex ! unat (w AND 0xf)]"

definition wf_chspec_ntoa_ex :: "bool \<Rightarrow> chanspec \<Rightarrow> bytes option" where
  "wf_chspec_ntoa_ex ulb chspec = do {
     buf \<leftarrow> wf_chspec_ntoa ulb chspec;
     Some (case buf of Some b \<Rightarrow> b | None \<Rightarrow> snprintf_bytes CHANSPEC_STR_LEN (chars ''invalid 0x'' @ hex4 chspec))
   }"

text \<open>
  \<open>Some None\<close> is the return value 0. When the number overflows, \<open>bcm_strtoul\<close> stores no end pointer, \<open>*p\<close> becomes
  NULL, and every caller reads through it next: no outcome.
\<close>

definition read_uint :: "bytes \<Rightarrow> (u32 \<times> bytes) option option" where
  "read_uint p = do {
     (val, endp) \<leftarrow> bcm_strtoul p 10;
     endp \<leftarrow> endp;
     Some (if endp = p then None else Some (ucast val, endp))
   }"

text \<open>What the text says: \<open>chspec_band\<close>, \<open>ctl_ch\<close>, \<open>bw\<close>, \<open>chspec_bw\<close>, \<open>sb_ul\<close>, \<open>ch1\<close>, \<open>ch2\<close>.\<close>

record chspec_parts =
  p_band :: u16
  p_ctl_ch :: u32
  p_mhz :: u32
  p_bw :: u16
  p_sb_ul :: u8
  p_ch1 :: u32
  p_ch2 :: u32

text \<open>Band and channel; \<open>Some None\<close> where the function returns 0.\<close>

definition aton_band :: "bytes \<Rightarrow> (u16 \<times> u32 \<times> bytes) option option" where
  "aton_band a = do {
     r \<leftarrow> read_uint a;
     case r of None \<Rightarrow> Some None
     | Some (num, a) \<Rightarrow> do {
         c \<leftarrow> arr_get a 0;
         if bcm_tolower c = 103
         then if num = 2 \<or> num = 5
              then do {
                r \<leftarrow> read_uint (drop 1 a);
                Some (map_option (\<lambda>(ctl_ch, a). (if num = 2 then WL_CHANSPEC_BAND_2G else WL_CHANSPEC_BAND_5G, ctl_ch, a)) r)
              }
              else Some None
         else Some (Some (if num \<le> 14 then WL_CHANSPEC_BAND_2G else WL_CHANSPEC_BAND_5G, num, a))
       }
   }"

definition bw_of_mhz :: "u32 \<Rightarrow> u16 option" where
  "bw_of_mhz bw =
     (if bw = 2 then Some WL_CHANSPEC_BW_2P5 else if bw = 5 then Some WL_CHANSPEC_BW_5
      else if bw = 10 then Some WL_CHANSPEC_BW_10 else if bw = 20 then Some WL_CHANSPEC_BW_20
      else if bw = 40 then Some WL_CHANSPEC_BW_40 else if bw = 80 then Some WL_CHANSPEC_BW_80
      else if bw = 160 then Some WL_CHANSPEC_BW_160 else None)"

text \<open>Consumes the characters of \<open>pat\<close>.\<close>

fun expect :: "bytes \<Rightarrow> bytes \<Rightarrow> bytes option option" where
  "expect [] a = Some (Some a)"
| "expect (x # pat) a = do { c \<leftarrow> arr_get a 0; if c \<noteq> x then Some None else expect pat (drop 1 a) }"

definition aton_8080 :: "chspec_parts \<Rightarrow> bytes \<Rightarrow> (chspec_parts \<times> bytes) option option" where
  "aton_8080 q a = do {
     r \<leftarrow> expect (chars ''80/'') a;
     case r of None \<Rightarrow> Some None
     | Some a \<Rightarrow> do {
         r \<leftarrow> read_uint a;
         case r of None \<Rightarrow> Some None
         | Some (ch1, a) \<Rightarrow> do {
             c \<leftarrow> arr_get a 0;
             if c \<noteq> 45 then Some None
             else do {
               r \<leftarrow> read_uint (drop 1 a);
               Some (map_option (\<lambda>(ch2, a). (q\<lparr>p_bw := WL_CHANSPEC_BW_8080, p_ch1 := ch1, p_ch2 := ch2\<rparr>, a)) r)
             }
           }
       }
   }"

text \<open>From the bandwidth on.\<close>

definition aton_bw :: "chspec_parts \<Rightarrow> bytes \<Rightarrow> (chspec_parts \<times> bytes) option option" where
  "aton_bw q a = do {
     r \<leftarrow> read_uint a;
     case r of None \<Rightarrow> Some None
     | Some (bw, a) \<Rightarrow>
         (case bw_of_mhz bw of None \<Rightarrow> Some None
          | Some chspec_bw \<Rightarrow> do {
              c \<leftarrow> arr_get a 0;
              let c = bcm_tolower c;
              let q = q\<lparr>p_mhz := bw, p_bw := chspec_bw\<rparr>;
              if p_band q = WL_CHANSPEC_BAND_2G \<and> bw = 40 \<and> (c = 117 \<or> c = 108) then Some (Some (q\<lparr>p_sb_ul := c\<rparr>, drop 1 a))
              else if c = 43 then aton_8080 q (drop 1 a)
              else if c = 46 then do {
                r \<leftarrow> expect (chars ''5'') (drop 1 a);
                Some (map_option (\<lambda>a. (q\<lparr>p_bw := WL_CHANSPEC_BW_2P5\<rparr>, a)) r)
              }
              else Some (Some (q, a))
            })
   }"

definition aton_parse :: "bytes \<Rightarrow> (chspec_parts \<times> bytes) option option" where
  "aton_parse a = do {
     r \<leftarrow> aton_band a;
     case r of None \<Rightarrow> Some None
     | Some (chspec_band, ctl_ch, a) \<Rightarrow> do {
         c \<leftarrow> arr_get a 0;
         let c = bcm_tolower c;
         let q = \<lparr>p_band = chspec_band, p_ctl_ch = ctl_ch, p_mhz = 20, p_bw = WL_CHANSPEC_BW_20, p_sb_ul = 0, p_ch1 = 0, p_ch2 = 0\<rparr>;
         if c = 0 then Some (Some (q, a))
         else if c = 117 \<or> c = 108 then Some (Some (q\<lparr>p_bw := WL_CHANSPEC_BW_40, p_sb_ul := c\<rparr>, drop 1 a))
         else if c \<noteq> 47 then Some None
         else aton_bw q (drop 1 a)
       }
   }"

text \<open>The channel field and the side band; \<open>None\<close> where the function returns 0.\<close>

definition aton_channel :: "bool \<Rightarrow> chspec_parts \<Rightarrow> (u32 \<times> u32) option" where
  "aton_channel ulb q =
     (let side = (\<lambda>sb. push_bit 8 (of_int sb)); found = map_option (\<lambda>(c, sb). (ucast c, side sb))
      in if p_sb_ul q \<noteq> 0
         then if p_sb_ul q = 108 then Some (UPPER_20_SB (p_ctl_ch q), 0)
              else if p_sb_ul q = 117 then Some (LOWER_20_SB (p_ctl_ch q), 0x0100) else Some (0, 0)
         else if BW_LE20 ulb (p_bw q) then Some (p_ctl_ch q, 0)
         else if p_bw q \<noteq> WL_CHANSPEC_BW_8080
         then if p_bw q = WL_CHANSPEC_BW_40 then found (center_loop wf_5g_40m_chans (p_ctl_ch q) (p_mhz q))
              else if p_bw q = WL_CHANSPEC_BW_80 then found (center_loop wf_5g_80m_chans (p_ctl_ch q) (p_mhz q))
              else if p_bw q = WL_CHANSPEC_BW_160 then found (center_loop wf_5g_160m_chans (p_ctl_ch q) (p_mhz q))
              else None
         else let ch1_id = channel_80mhz_to_id (p_ch1 q); ch2_id = channel_80mhz_to_id (p_ch2 q);
                  sb = channel_to_sb (p_ch1 q) (p_ctl_ch q) (p_mhz q)
              in if ch1_id < 0 \<or> ch2_id < 0 then None
                 else if sb < 0 then None
                 else Some (of_int ch1_id OR push_bit 4 (of_int ch2_id), side sb))"

fun skip_blanks :: "bytes \<Rightarrow> bytes option" where
  "skip_blanks [] = None"
| "skip_blanks (c # a) = (if c = 32 then skip_blanks a else Some (c # a))"

definition wf_chspec_aton :: "bool \<Rightarrow> bytes \<Rightarrow> chanspec option" where
  "wf_chspec_aton ulb a = do {
     r \<leftarrow> aton_parse a;
     case r of None \<Rightarrow> Some 0
     | Some (q, a) \<Rightarrow> do {
         a \<leftarrow> skip_blanks a;
         c \<leftarrow> arr_get a 0;
         if c \<noteq> 0 then Some 0
         else case aton_channel ulb q of None \<Rightarrow> Some 0
              | Some (chspec_ch, chspec_sb) \<Rightarrow>
                  let chspec = ucast (chspec_ch OR ucast (p_band q) OR ucast (p_bw q) OR chspec_sb)
                  in Some (if wf_chspec_malformed ulb chspec then 0 else chspec)
       }
   }"

end
