(* ===== verification/Chanspec_Props.thy ===== *)
theory Chanspec_Props
  imports Chanspec
begin

text \<open>
  Properties of channel specifications: the cases of the valid ones, reading of printed texts, blocks of 20 MHz
  channels as sets of natural numbers, and from these the properties of the conversions.
\<close>

unbundle bit_operations_syntax

section \<open>The valid channel specifications\<close>

lemma bits_field: "\<exists>k < 2 ^ m. w AND push_bit n (mask m) = push_bit n (of_nat k :: 'a::len word)"
proof (intro exI conjI)
  show "unat (take_bit m (drop_bit n w)) < 2 ^ m" unfolding unsigned_take_bit_eq by simp
  show "w AND push_bit n (mask m) = push_bit n (of_nat (unat (take_bit m (drop_bit n w))))"
    by (rule bit_word_eqI) (auto simp: bit_simps)
qed

lemma sb_cases: "CHSPEC_CTL_SB c \<in> set sidebands"
proof -
  have "(0x700 :: u16) = push_bit 8 (mask 3)" by (simp add: mask_eq_exp_minus_1)
  then obtain k where k: "k < 8" "CHSPEC_CTL_SB c = push_bit 8 (of_nat k)"
    using bits_field [of 3 c 8] by (auto simp: CHSPEC_CTL_SB_def)
  have "k = 0 \<or> k = 1 \<or> k = 2 \<or> k = 3 \<or> k = 4 \<or> k = 5 \<or> k = 6 \<or> k = 7" using k(1) by linarith
  then show ?thesis unfolding k(2) by (elim disjE) (simp_all add: sidebands_def)
qed

lemma chspec_split: "c = CHSPEC_BAND c OR CHSPEC_BW c OR CHSPEC_CTL_SB c OR ucast (CHSPEC_CHANNEL c)"
proof -
  have "ucast (CHSPEC_CHANNEL c) = c AND 0xff"
  proof -
    have m: "(0xff :: u16) = mask 8" by (simp add: mask_eq_exp_minus_1)
    show ?thesis unfolding CHSPEC_CHANNEL_def m by (rule bit_word_eqI) (auto simp: bit_simps)
  qed
  moreover have "c AND 0xc000 OR c AND 0x3800 OR c AND 0x0700 OR c AND 0xff = c AND 0xffff"
    unfolding bit.conj_disj_distrib [symmetric] by simp
  moreover have "c AND 0xffff = c"
  proof -
    have m: "(0xffff :: u16) = mask 16" by (simp add: mask_eq_exp_minus_1)
    show ?thesis unfolding m take_bit_eq_mask [symmetric] by (rule take_bit_word_eq_self) simp
  qed
  ultimately show ?thesis by (simp add: CHSPEC_BAND_def CHSPEC_BW_def CHSPEC_CTL_SB_def)
qed

definition sb_index :: "chanspec \<Rightarrow> nat" where
  "sb_index c = unat (drop_bit 8 (CHSPEC_CTL_SB c))"

lemma sb_word: "ucast (drop_bit 8 (CHSPEC_CTL_SB c)) = (of_nat (sb_index c) :: u32)"
  by (simp add: sb_index_def)

lemma sb_of_index: "CHSPEC_CTL_SB c = push_bit 8 (of_nat (sb_index c))"
  using sb_cases [of c] by (auto simp: sb_index_def sidebands_def)

lemma sb_small:
  "CHSPEC_CTL_SB c = 0 \<Longrightarrow> sb_index c = 0" "\<not> 0x0100 < CHSPEC_CTL_SB c \<Longrightarrow> sb_index c < 2"
  "\<not> 0x0300 < CHSPEC_CTL_SB c \<Longrightarrow> sb_index c < 4" "sb_index c < 8"
  using sb_cases [of c] by (auto simp: sb_index_def sidebands_def)

lemma unat_ucast_8_32: "unat (ucast (w :: u8) :: u32) = unat w"
  unfolding unsigned_ucast_eq by (rule take_bit_nat_eq_self) (use unat_u8_less [of w] in simp)

lemma ucast_8_32_back: "ucast (ucast (w :: u8) :: u32) = w"
  by (rule bit_word_eqI) (auto simp: bit_simps)

lemma ucast_8_32_eq: "ucast (w :: u8) = (v :: u32) \<Longrightarrow> w = ucast v"
  using ucast_8_32_back [of w] by auto

lemma table_mem: "list_ex (\<lambda>c. (ucast (ch :: u8) :: u32) = ucast c) cs \<Longrightarrow> ch \<in> set cs"
  by (auto simp: list_ex_iff ucast_8_32_back dest: ucast_8_32_eq)

lemma chan20_mem:
  assumes "list_ex (\<lambda>c. (ucast (ch :: u8) :: u32) = LOWER_20_SB (ucast c) \<or> (ucast ch :: u32) = UPPER_20_SB (ucast c)) wf_5g_40m_chans \<or>
     (ucast ch :: u32) = 165 \<or> (ucast ch :: u32) = 34 \<or> (ucast ch :: u32) = 38 \<or> (ucast ch :: u32) = 42 \<or> (ucast ch :: u32) = 46"
  shows "14 < unat ch"
  using assms by (auto simp: wf_5g_40m_chans_def LOWER_20_SB_def UPPER_20_SB_def dest!: ucast_8_32_eq)

text \<open>The kinds of valid specifications: a 2 or 5 GHz channel of at most 20 MHz, and the wide ones.\<close>

lemma valid_cases:
  assumes v: "wf_chspec_valid ulb c"
  obtains (narrow2) "CHSPEC_BAND c = 0" "BW_LE20 ulb (CHSPEC_BW c)" "sb_index c = 0" "1 \<le> unat (CHSPEC_CHANNEL c)" "unat (CHSPEC_CHANNEL c) \<le> 14"
    | (forty2) "CHSPEC_BAND c = 0" "CHSPEC_BW c = 0x1800" "sb_index c < 2" "3 \<le> unat (CHSPEC_CHANNEL c)" "unat (CHSPEC_CHANNEL c) \<le> 11"
    | (narrow5) "CHSPEC_BAND c = 0xc000" "BW_LE20 ulb (CHSPEC_BW c)" "sb_index c = 0" "14 < unat (CHSPEC_CHANNEL c)"
    | (forty5) "CHSPEC_BAND c = 0xc000" "CHSPEC_BW c = 0x1800" "sb_index c < 2" "CHSPEC_CHANNEL c \<in> set wf_5g_40m_chans"
    | (eighty) "CHSPEC_BAND c = 0xc000" "CHSPEC_BW c = 0x2000" "sb_index c < 4" "CHSPEC_CHANNEL c \<in> set wf_5g_80m_chans"
    | (c160) "CHSPEC_BAND c = 0xc000" "CHSPEC_BW c = 0x2800" "sb_index c < 8" "CHSPEC_CHANNEL c \<in> set wf_5g_160m_chans"
    | (c8080) "CHSPEC_BAND c = 0xc000" "CHSPEC_BW c = 0x3000" "sb_index c < 4" "unat (CHSPEC_CHAN1 c) < 6" "unat (CHSPEC_CHAN2 c) < 6"
proof -
  have b: "CHSPEC_IS2G c \<longleftrightarrow> CHSPEC_BAND c = 0" "CHSPEC_IS5G c \<longleftrightarrow> CHSPEC_BAND c = 0xc000"
    by (simp_all add: CHSPEC_IS2G_def CHSPEC_IS5G_def CHSPEC_BAND_def)
  have r: "n \<le> ucast (CHSPEC_CHANNEL c) \<longleftrightarrow> unat n \<le> unat (CHSPEC_CHANNEL c)" "ucast (CHSPEC_CHANNEL c) \<le> n \<longleftrightarrow> unat (CHSPEC_CHANNEL c) \<le> unat n" for n :: u32
    by (simp_all add: word_le_nat_alt unat_ucast_8_32)
  note d = v [unfolded wf_chspec_valid_def wf_chspec_malformed_def Let_def]
  consider "CHSPEC_BAND c = 0" "BW_LE20 ulb (CHSPEC_BW c)" | "CHSPEC_BAND c = 0" "CHSPEC_BW c = 0x1800"
    | "CHSPEC_BAND c = 0xc000" "BW_LE20 ulb (CHSPEC_BW c)" | "CHSPEC_BAND c = 0xc000" "CHSPEC_BW c = 0x1800"
    | "CHSPEC_BAND c = 0xc000" "CHSPEC_BW c = 0x2000" | "CHSPEC_BAND c = 0xc000" "CHSPEC_BW c = 0x2800"
    | "CHSPEC_BAND c = 0xc000" "CHSPEC_BW c = 0x3000"
    using d by (auto simp: b BW_LE160_def BW_LE80_def BW_LE40_def split: if_splits)
  then show thesis
  proof cases
    case 1 then show thesis using d sb_small(1) [of c] by (intro narrow2) (auto simp: b r split: if_splits)
  next
    case 2 then show thesis using d sb_small(2) [of c] by (intro forty2) (auto simp: b r BW_LE20_def split: if_splits)
  next
    case 3 then show thesis using d sb_small(1) [of c] chan20_mem [of "CHSPEC_CHANNEL c"]
      by (intro narrow5) (auto simp: b BW_LE20_def BW_LE40_def split: if_splits)
  next
    case 4 then show thesis using d sb_small(2) [of c] table_mem [of "CHSPEC_CHANNEL c" wf_5g_40m_chans]
      by (intro forty5) (auto simp: b BW_LE20_def BW_LE40_def split: if_splits)
  next
    case 5 then show thesis using d sb_small(3) [of c] table_mem [of "CHSPEC_CHANNEL c" wf_5g_80m_chans]
      by (intro eighty) (auto simp: b BW_LE20_def BW_LE40_def split: if_splits)
  next
    case 6 then show thesis using d sb_small(4) [of c] table_mem [of "CHSPEC_CHANNEL c" wf_5g_160m_chans]
      by (intro c160) (auto simp: b BW_LE20_def BW_LE40_def split: if_splits)
  next
    case 7 then show thesis using d sb_small(3) [of c] by (intro c8080) (auto simp: b BW_LE20_def wf_5g_80m_chans_def split: if_splits)
  qed
qed

section \<open>Reading printed texts\<close>

lemma read_uint_dec:
  assumes "n < 2 ^ 32" and "\<not> bcm_isdigit t"
  shows "read_uint (dec_digits n @ t # s) = Some (Some (of_nat n, t # s))"
proof -
  have "bcm_strtoul (dec_digits n @ t # s) 10 = Some (of_nat n, Some (t # s))"
    by (rule strtoul_dec) (use assms in \<open>simp_all add: is_digit_10\<close>)
  moreover have "t # s \<noteq> dec_digits n @ t # s"
  proof
    assume "t # s = dec_digits n @ t # s"
    then have "length (t # s) = length (dec_digits n @ t # s)" by (rule arg_cong)
    then show False by simp
  qed
  moreover have "ucast (of_nat n :: u64) = (of_nat n :: u32)" using assms(1) by (simp add: unsigned_of_nat take_bit_nat_eq_self)
  ultimately show ?thesis by (simp add: read_uint_def)
qed

lemma dec_int_byte: "dec_int (uint (w :: u8)) = dec_digits (unat w)"
  by (simp add: dec_int_def)

lemma read_uint_byte: "\<not> bcm_isdigit t \<Longrightarrow> read_uint (dec_int (uint (w :: u8)) @ t # s) = Some (Some (ucast w, t # s))"
  using read_uint_dec [of "unat w" t s] unat_u8_less [of w] by (simp add: dec_int_byte)

lemma not_digits [simp]:
  "\<not> bcm_isdigit 0" "\<not> bcm_isdigit 117" "\<not> bcm_isdigit 108" "\<not> bcm_isdigit 47" "\<not> bcm_isdigit 45" "\<not> bcm_isdigit 43" "\<not> bcm_isdigit 46"
  by (simp_all add: isdigit_iff)

lemma tolower_chars [simp]:
  "bcm_tolower 0 = 0" "bcm_tolower 117 = 117" "bcm_tolower 108 = 108" "bcm_tolower 47 = 47" "bcm_tolower 43 = 43" "bcm_tolower 46 = 46"
  by (simp_all add: bcm_tolower_def isupper_iff)

definition plain_parts :: "u8 \<Rightarrow> chspec_parts" where
  "plain_parts ctl = \<lparr>p_band = if (ucast ctl :: u32) \<le> 14 then 0 else 0xc000, p_ctl_ch = ucast ctl, p_mhz = 20, p_bw = 0x1000, p_sb_ul = 0, p_ch1 = 0, p_ch2 = 0\<rparr>"

lemma aton_band_plain:
  "\<not> bcm_isdigit t \<Longrightarrow> bcm_tolower t \<noteq> 103 \<Longrightarrow>
   aton_band (dec_int (uint ctl) @ t # s) = Some (Some (p_band (plain_parts ctl), ucast ctl, t # s))"
  by (simp add: aton_band_def read_uint_byte plain_parts_def)

lemma parse_20: "aton_parse (dec_int (uint ctl) @ [0]) = Some (Some (plain_parts ctl, [0]))"
  by (simp add: aton_parse_def aton_band_plain) (simp add: plain_parts_def)

lemma parse_40:
  "c = 117 \<or> c = 108 \<Longrightarrow> aton_parse (dec_int (uint ctl) @ [c, 0]) = Some (Some ((plain_parts ctl)\<lparr>p_bw := 0x1800, p_sb_ul := c\<rparr>, [0]))"
  by (elim disjE) (simp_all add: aton_parse_def aton_band_plain, simp_all add: plain_parts_def)

lemma parse_slash: "aton_parse (dec_int (uint ctl) @ 47 # a) = aton_bw (plain_parts ctl) a"
  by (simp add: aton_parse_def aton_band_plain) (simp add: plain_parts_def)

lemma parse_bw:
  assumes "n < 2 ^ 32" and "bw_of_mhz (of_nat n) = Some bw"
  shows "aton_bw q (dec_digits n @ [0]) = Some (Some (q\<lparr>p_mhz := of_nat n, p_bw := bw\<rparr>, [0]))"
  using read_uint_dec [OF assms(1), of 0 "[]"] assms(2) by (simp add: aton_bw_def)

lemma parse_2p5: "aton_bw q (chars ''2.5'' @ [0]) = Some (Some (q\<lparr>p_mhz := 2, p_bw := 0x3800\<rparr>, [0]))"
proof -
  have d: "dec_digits 2 = [50]" by (simp add: dec_digits.simps)
  show ?thesis using read_uint_dec [of 2 46 "[53, 0]", unfolded d] by (simp add: aton_bw_def bw_of_mhz_def chars_def of_char_def)
qed

lemma parse_8080:
  "aton_bw q (chars ''80+80/'' @ dec_int (uint (c1 :: u8)) @ chars ''-'' @ dec_int (uint (c2 :: u8)) @ [0]) =
     Some (Some (q\<lparr>p_mhz := 80, p_bw := 0x3000, p_ch1 := ucast c1, p_ch2 := ucast c2\<rparr>, [0]))"
proof -
  define r where "r = dec_int (uint c1) @ 45 # dec_int (uint c2) @ [0]"
  have "read_uint (dec_digits 80 @ 43 # [56, 48, 47] @ r) = Some (Some (80, 43 # [56, 48, 47] @ r))"
    using read_uint_dec [of 80 43] by simp
  moreover have "aton_8080 q' ([56, 48, 47] @ r) = Some (Some (q'\<lparr>p_bw := 0x3000, p_ch1 := ucast c1, p_ch2 := ucast c2\<rparr>, [0]))" for q'
    using read_uint_byte [of 45 c1 "dec_int (uint c2) @ [0]"] read_uint_byte [of 0 c2 "[]"]
    by (simp add: aton_8080_def chars_def of_char_def r_def)
  moreover have "chars ''80+80/'' @ dec_int (uint c1) @ chars ''-'' @ dec_int (uint c2) @ [0] = dec_digits 80 @ 43 # [56, 48, 47] @ r"
    by (simp add: chars_def of_char_def dec_digits.simps r_def)
  ultimately show ?thesis by (simp add: aton_bw_def bw_of_mhz_def)
qed

text \<open>What the text of a channel specification says, given its control channel.\<close>

definition chan80 :: "u16 \<Rightarrow> u8" where
  "chan80 i = (if unat i < length wf_5g_80m_chans then wf_5g_80m_chans ! unat i else 0)"

definition text_parts :: "chanspec \<Rightarrow> u8 \<Rightarrow> chspec_parts" where
  "text_parts c ctl =
     (let q = plain_parts ctl; w = CHSPEC_BW c
      in if w = 0x1000 then q
         else if w = 0x3000 then q\<lparr>p_mhz := 80, p_bw := 0x3000, p_ch1 := ucast (chan80 (CHSPEC_CHAN1 c)), p_ch2 := ucast (chan80 (CHSPEC_CHAN2 c))\<rparr>
         else if w = 0x1800 then q\<lparr>p_bw := 0x1800, p_sb_ul := if CHSPEC_SB_UPPER c then 117 else 108\<rparr>
         else q\<lparr>p_mhz := if w = 0x3800 then 2 else bw_chspec_to_mhz c, p_bw := w\<rparr>)"

lemma bw_cases: "CHSPEC_BW c \<in> {0x0000, 0x0800, 0x1000, 0x1800, 0x2000, 0x2800, 0x3000, 0x3800}"
proof -
  have "(0x3800 :: u16) = push_bit 11 (mask 3)" by (simp add: mask_eq_exp_minus_1)
  then obtain k where k: "k < 8" "CHSPEC_BW c = push_bit 11 (of_nat k)"
    using bits_field [of 3 c 11] by (auto simp: CHSPEC_BW_def)
  have "k = 0 \<or> k = 1 \<or> k = 2 \<or> k = 3 \<or> k = 4 \<or> k = 5 \<or> k = 6 \<or> k = 7" using k(1) by linarith
  then show ?thesis unfolding k(2) by (elim disjE) simp_all
qed

lemma length_byte_text: "length (dec_int (uint (w :: u8))) \<le> 3"
  using length_dec_digits [of "unat w"] unat_u8_less [of w] by (simp add: dec_int_byte)

definition no_prefix :: "chanspec \<Rightarrow> bool" where
  "no_prefix c \<longleftrightarrow> \<not> (CHSPEC_IS2G c \<and> 14 < CHSPEC_CHANNEL c \<or> CHSPEC_IS5G c \<and> CHSPEC_CHANNEL c \<le> 14) \<or> CHSPEC_BW c = 0x3000"

lemma bw_texts: "chars ''5'' = dec_digits 5" "chars ''10'' = dec_digits 10" "chars ''80'' = dec_digits 80" "chars ''160'' = dec_digits 160"
  by (simp_all add: chars_def of_char_def dec_digits.simps)

definition text_suffix :: "bool \<Rightarrow> chanspec \<Rightarrow> bytes" where
  "text_suffix ulb c =
     (if CHSPEC_BW c = 0x1000 then []
      else if CHSPEC_BW c = 0x3000
      then 47 # chars ''80+80/'' @ dec_int (uint (chan80 (CHSPEC_CHAN1 c))) @ chars ''-'' @ dec_int (uint (chan80 (CHSPEC_CHAN2 c)))
      else if CHSPEC_BW c = 0x1800 then [if CHSPEC_SB_UPPER c then 117 else 108]
      else 47 # chars (wf_chspec_bw_str ulb ! unat (drop_bit 11 (CHSPEC_BW c))))"

lemma length_text_suffix: "length (text_suffix ulb c) \<le> 14"
proof -
  have "length (dec_int (uint (chan80 (CHSPEC_CHAN1 c)))) + length (dec_int (uint (chan80 (CHSPEC_CHAN2 c)))) \<le> 6"
    using length_byte_text [of "chan80 (CHSPEC_CHAN1 c)"] length_byte_text [of "chan80 (CHSPEC_CHAN2 c)"] by simp
  then show ?thesis using bw_cases [of c] by (auto simp: text_suffix_def chars_def wf_chspec_bw_str_def)
qed

lemma ntoa_text:
  assumes "\<not> wf_chspec_malformed ulb c" and "wf_chspec_ctlchan ulb c = Some ctl" and "no_prefix c"
  shows "wf_chspec_ntoa ulb c = Some (Some (dec_int (uint ctl) @ text_suffix ulb c @ [0]))"
proof -
  have s: "snprintf_bytes 20 (dec_int (uint ctl) @ text_suffix ulb c) = dec_int (uint ctl) @ text_suffix ulb c @ [0]"
    using length_text_suffix [of ulb c] length_byte_text [of ctl] by (simp add: snprintf_bytes_def)
  have bw: "c AND 0x3800 = CHSPEC_BW c" by (simp add: CHSPEC_BW_def)
  have "wf_chspec_ntoa ulb c = Some (Some (snprintf_bytes 20 (dec_int (uint ctl) @ text_suffix ulb c)))"
    using assms unfolding wf_chspec_ntoa_def bw by (auto simp: no_prefix_def Let_def text_suffix_def chan80_def chars_def of_char_def)
  then show ?thesis using s by simp
qed

lemma parse_text:
  assumes "\<not> wf_chspec_malformed ulb c"
  shows "aton_parse (dec_int (uint ctl) @ text_suffix ulb c @ [0]) = Some (Some (text_parts c ctl, [0]))"
proof -
  have u: ulb if "CHSPEC_BW c = 0x3800" using assms that
    by (auto simp: wf_chspec_malformed_def Let_def BW_LE160_def BW_LE80_def BW_LE40_def BW_LE20_def split: if_splits)
  have bw: "c AND 0x3800 = CHSPEC_BW c" by (simp add: CHSPEC_BW_def)
  note d = text_suffix_def text_parts_def Let_def parse_slash wf_chspec_bw_str_def bw_chspec_to_mhz_def bw wf_chspec_bw_mhz_def bw_of_mhz_def
  consider "CHSPEC_BW c = 0x0000" | "CHSPEC_BW c = 0x0800" | "CHSPEC_BW c = 0x1000" | "CHSPEC_BW c = 0x1800" | "CHSPEC_BW c = 0x2000"
    | "CHSPEC_BW c = 0x2800" | "CHSPEC_BW c = 0x3000" | "CHSPEC_BW c = 0x3800" using bw_cases [of c] by auto
  then show ?thesis
  proof cases
    case 1 then show ?thesis using parse_bw [of 5] by (simp add: d bw_texts)
  next
    case 2 then show ?thesis using parse_bw [of 10] by (simp add: d bw_texts)
  next
    case 3 then show ?thesis by (simp add: d parse_20)
  next
    case 4 then show ?thesis by (simp add: d parse_40)
  next
    case 5 then show ?thesis using parse_bw [of 80] by (simp add: d bw_texts)
  next
    case 6 then show ?thesis using parse_bw [of 160] by (simp add: d bw_texts)
  next
    case 7 then show ?thesis using parse_8080 [of "plain_parts ctl" "chan80 (CHSPEC_CHAN1 c)" "chan80 (CHSPEC_CHAN2 c)"] by (simp add: d)
  next
    case 8 then show ?thesis using u parse_2p5 by (simp add: d)
  qed
qed

section \<open>Blocks of 20 MHz channels\<close>

text \<open>
  The 20 MHz channels of a channel with centre \<open>c\<close> and bandwidth \<open>bw\<close> MHz are \<open>bw / 20\<close> channels, four channel
  numbers apart, from \<open>block_low\<close> on; \<open>sub_sb\<close> is the position of a channel among them.
\<close>

definition block_low :: "nat \<Rightarrow> nat \<Rightarrow> nat" where
  "block_low c bw = c - (bw - 20) div 10"

definition sub_sb :: "nat \<Rightarrow> nat \<Rightarrow> nat \<Rightarrow> nat option" where
  "sub_sb c bw n =
     (if block_low c bw \<le> n \<and> (n - block_low c bw) mod 4 = 0 \<and> (n - block_low c bw) div 4 < bw div 20
      then Some ((n - block_low c bw) div 4) else None)"

lemma sub_sb_Some: "sub_sb c bw n = Some k \<longleftrightarrow> k < bw div 20 \<and> n = block_low c bw + 4 * k"
  by (auto simp: sub_sb_def)

lemma chan_to_edge:
  "bw \<in> {20, 40, 80, 160} \<Longrightarrow> unat (center_chan_to_edge (of_nat bw)) = (bw - 20) div 10"
  by (auto simp: center_chan_to_edge_def)

lemma low_edge:
  assumes "bw \<in> {20, 40, 80, 160}" and "(bw - 20) div 10 \<le> unat c"
  shows "unat (channel_low_edge (ucast (c :: u8)) (of_nat bw)) = block_low (unat c) bw"
proof -
  have "unat (ucast c - ucast (center_chan_to_edge (of_nat bw)) :: u32) = block_low (unat c) bw"
    using assms chan_to_edge [OF assms(1)] by (simp add: unat_sub word_le_nat_alt unat_ucast_8_32 block_low_def)
  moreover have "block_low (unat c) bw < 2 ^ 8" using unat_u8_less [of c] by (simp add: block_low_def)
  ultimately show ?thesis unfolding channel_low_edge_def by (simp add: unsigned_ucast_eq take_bit_nat_eq_self)
qed

lemma ctl_chan_value:
  assumes "bw \<in> {20, 40, 80, 160}" and "(bw - 20) div 10 \<le> unat c" and "block_low (unat c) bw + 4 * k < 256" and "sb = of_nat k"
  shows "unat (channel_to_ctl_chan (ucast (c :: u8)) (of_nat bw) sb) = block_low (unat c) bw + 4 * k"
proof -
  have "unat (ucast (channel_low_edge (ucast c) (of_nat bw)) + sb * 4 :: u32) = block_low (unat c) bw + 4 * k"
    using assms low_edge [OF assms(1,2)] by (simp add: unat_word_ariths unat_ucast_8_32 unat_of_nat32 mult.commute)
  then show ?thesis unfolding channel_to_ctl_chan_def using assms(3) by (simp add: unsigned_ucast_eq take_bit_nat_eq_self)
qed

lemma channel_to_sb_value:
  assumes "bw \<in> {20, 40, 80, 160}" and "(bw - 20) div 10 \<le> unat c"
  shows "channel_to_sb (ucast (c :: u8)) ctl (of_nat bw) = (case sub_sb (unat c) bw (unat ctl) of None \<Rightarrow> - 1 | Some k \<Rightarrow> int k)"
proof -
  let ?l = "block_low (unat c) bw"
  define d :: u32 where "d = ctl - ucast (channel_low_edge (ucast c) (of_nat bw))"
  have l: "unat (ucast (channel_low_edge (ucast c) (of_nat bw)) :: u32) = ?l" using low_edge [OF assms] by (simp add: unat_ucast_8_32)
  have l256: "?l < 256" using unat_u8_less [of c] by (simp add: block_low_def)
  have "unat (d mod 4) = unat d mod 4" unfolding unat_mod by simp
  then have m: "d mod 4 = 0 \<longleftrightarrow> unat d mod 4 = 0" by (metis unat_eq_zero)
  have b: "(of_nat bw :: u32) div 20 \<le> d div 4 \<longleftrightarrow> bw div 20 \<le> unat d div 4" using assms(1) by (auto simp: word_le_nat_alt unat_div)
  have e: "channel_to_sb (ucast c) ctl (of_nat bw) = (if unat d mod 4 = 0 \<and> unat d div 4 < bw div 20 then sint (d div 4) else - 1)"
    unfolding channel_to_sb_def Let_def d_def [symmetric] using m b by auto
  have s: "sint (d div 4) = int (unat d div 4)" if "unat d div 4 < bw div 20"
  proof -
    have u: "unat (d div 4) = unat d div 4" by (simp add: unat_div)
    have "unat d div 4 < 8" using that assms(1) by auto
    then have "sint (of_nat (unat d div 4) :: u32) = int (unat d div 4)" unfolding signed_of_nat by (simp add: signed_take_bit_int_eq_self)
    moreover have "of_nat (unat d div 4) = d div 4" unfolding u [symmetric] by simp
    ultimately show ?thesis by simp
  qed
  show ?thesis
  proof (cases "?l \<le> unat ctl")
    case True
    then have "unat d = unat ctl - ?l" unfolding d_def using l by (simp add: unat_sub word_le_nat_alt)
    then show ?thesis using e s True by (auto simp: sub_sb_def)
  next
    case False
    then have "unat d = 2 ^ 32 - ?l + unat ctl" unfolding d_def using l l256 by (simp add: unat_sub_if_size word_size word_le_nat_alt)
    then have "8 \<le> unat d div 4" using l256 by simp
    moreover have "bw div 20 \<le> 8" using assms(1) by auto
    ultimately show ?thesis using e False by (auto simp: sub_sb_def)
  qed
qed

lemma center_loop_find:
  assumes "bw \<in> {20, 40, 80, 160}" and "\<forall>c \<in> set cs. (bw - 20) div 10 \<le> unat c"
  shows "center_loop cs ctl (of_nat bw) =
     map_option (\<lambda>c. (c, int (the (sub_sb (unat c) bw (unat ctl))))) (find (\<lambda>c. sub_sb (unat c) bw (unat ctl) \<noteq> None) cs)"
  using assms(2) by (induction cs) (auto simp: Let_def channel_to_sb_value [OF assms(1)] split: option.splits)

text \<open>The blocks of the channels of a table do not overlap.\<close>

definition blocks_ok :: "u8 list \<Rightarrow> nat \<Rightarrow> bool" where
  "blocks_ok cs bw \<longleftrightarrow> list_all (\<lambda>c. 14 + (bw - 20) div 10 < unat c \<and> unat c < 200 \<and>
     list_all (\<lambda>k. find (\<lambda>d. sub_sb (unat d) bw (block_low (unat c) bw + 4 * k) \<noteq> None) cs = Some c) [0..<bw div 20]) cs"

lemma blocks_ok_tables: "blocks_ok wf_5g_40m_chans 40" "blocks_ok wf_5g_80m_chans 80" "blocks_ok wf_5g_160m_chans 160"
  by code_simp+

lemma length_80m [simp]: "length wf_5g_80m_chans = 6"
  by (simp add: wf_5g_80m_chans_def)

lemma block_facts:
  assumes "blocks_ok cs bw" and "c \<in> set cs" and "bw \<in> {40, 80, 160}" and "k < bw div 20"
  shows "(bw - 20) div 10 \<le> unat c" and "14 < block_low (unat c) bw + 4 * k" and "block_low (unat c) bw + 4 * k < 256" and "unat c < 200"
proof -
  have "14 + (bw - 20) div 10 < unat c" "unat c < 200" using assms(1,2) by (auto simp: blocks_ok_def list_all_iff)
  then show "(bw - 20) div 10 \<le> unat c" "14 < block_low (unat c) bw + 4 * k" "block_low (unat c) bw + 4 * k < 256" "unat c < 200"
    using assms(3,4) by (auto simp: block_low_def)
qed

lemma block_center:
  assumes "blocks_ok cs bw" and "c \<in> set cs" and "bw \<in> {40, 80, 160}" and "k < bw div 20"
    and "unat ctl = block_low (unat c) bw + 4 * k" and "w = of_nat bw"
  shows "center_loop cs ctl w = Some (c, int k)"
proof -
  have "bw \<in> {20, 40, 80, 160}" using assms(3) by auto
  moreover have "\<forall>c \<in> set cs. (bw - 20) div 10 \<le> unat c" using assms(1) by (auto simp: blocks_ok_def list_all_iff)
  moreover have "find (\<lambda>d. sub_sb (unat d) bw (unat ctl) \<noteq> None) cs = Some c"
    using assms(1,2,4,5) by (auto simp: blocks_ok_def list_all_iff)
  moreover have "sub_sb (unat c) bw (unat ctl) = Some k" using assms(4,5) by (simp add: sub_sb_Some)
  ultimately show ?thesis unfolding assms(6) by (subst center_loop_find) simp_all
qed

text \<open>The control channel, as a number.\<close>

definition primary :: "chanspec \<Rightarrow> nat" where
  "primary c =
     (let ch = unat (CHSPEC_CHANNEL c); k = sb_index c
      in if CHSPEC_BW c = 0x1800 then block_low ch 40 + 4 * k
         else if CHSPEC_BW c = 0x2000 then block_low ch 80 + 4 * k
         else if CHSPEC_BW c = 0x2800 then block_low ch 160 + 4 * k
         else if CHSPEC_BW c = 0x3000 then block_low (unat (wf_5g_80m_chans ! unat (CHSPEC_CHAN1 c))) 80 + 4 * k
         else ch)"

lemma wide_ctlchan:
  assumes "\<not> wf_chspec_malformed ulb c" and "CHSPEC_BW c = w" and "(w, bw) \<in> {(0x1800, 40), (0x2000, 80), (0x2800, 160)}"
    and "(bw - 20) div 10 \<le> unat (CHSPEC_CHANNEL c)" and "block_low (unat (CHSPEC_CHANNEL c)) bw + 4 * sb_index c < 256"
  shows "\<exists>ctl. wf_chspec_ctlchan ulb c = Some ctl \<and> unat ctl = block_low (unat (CHSPEC_CHANNEL c)) bw + 4 * sb_index c"
proof -
  have m: "c AND 0x3800 = w" using assms(2) by (simp add: CHSPEC_BW_def)
  have "bw_chspec_to_mhz c = of_nat bw" unfolding bw_chspec_to_mhz_def m using assms(3) by (auto simp: wf_chspec_bw_mhz_def)
  moreover have "\<not> BW_LE20 ulb w" "w \<noteq> 0x3000" "bw \<in> {20, 40, 80, 160}" using assms(3) by (auto simp: BW_LE20_def)
  moreover note sb_word [of c]
  ultimately show ?thesis using assms ctl_chan_value [of bw "CHSPEC_CHANNEL c" "sb_index c", OF _ assms(4,5) refl]
    by (simp add: wf_chspec_ctlchan_def Let_def)
qed

lemma valid_not_malformed: "wf_chspec_valid ulb c \<Longrightarrow> \<not> wf_chspec_malformed ulb c"
  by (auto simp: wf_chspec_valid_def Let_def)

lemma narrow_bw: "BW_LE20 ulb w \<Longrightarrow> w \<notin> {0x1800, 0x2000, 0x2800, 0x3000}"
  by (auto simp: BW_LE20_def)

lemma valid_ctlchan:
  assumes v: "wf_chspec_valid ulb c"
  shows "\<exists>ctl. wf_chspec_ctlchan ulb c = Some ctl \<and> unat ctl = primary c"
proof -
  note m = valid_not_malformed [OF v]
  have nar: ?thesis if "BW_LE20 ulb (CHSPEC_BW c)" using that m narrow_bw [OF that] by (simp add: wf_chspec_ctlchan_def primary_def Let_def)
  have wide: ?thesis if "blocks_ok cs bw" "CHSPEC_CHANNEL c \<in> set cs" "(CHSPEC_BW c, bw) \<in> {(0x1800, 40), (0x2000, 80), (0x2800, 160)}" "sb_index c < bw div 20" for cs bw
  proof -
    have "bw \<in> {40, 80, 160}" using that(3) by auto
    then show ?thesis using wide_ctlchan [OF m refl that(3)] block_facts [OF that(1,2) _ that(4)] that(3) by (auto simp: primary_def Let_def)
  qed
  from v show ?thesis
  proof (cases rule: valid_cases)
    case forty2
    then show ?thesis using wide_ctlchan [OF m refl, of 40] by (simp add: primary_def Let_def block_low_def)
  next
    case c8080
    let ?c = "wf_5g_80m_chans ! unat (CHSPEC_CHAN1 c)"
    have c: "?c \<in> set wf_5g_80m_chans" using c8080 by simp
    have "unat (channel_to_ctl_chan (ucast ?c) (of_nat 80) (of_nat (sb_index c))) = block_low (unat ?c) 80 + 4 * sb_index c"
      by (rule ctl_chan_value) (use block_facts [OF blocks_ok_tables(2) c, of "sb_index c"] c8080 in simp_all)
    then show ?thesis using m c8080 by (simp add: wf_chspec_ctlchan_def primary_def Let_def BW_LE20_def sb_index_def)
  qed (use nar wide blocks_ok_tables in simp_all)
qed

section \<open>Printing and reading\<close>

lemma ucast_or: "ucast (a OR b :: u32) = (ucast a OR ucast b :: u16)"
  by (rule bit_word_eqI) (auto simp: bit_simps)

lemma rebuild: "ucast (ucast (CHSPEC_CHANNEL c) OR ucast (CHSPEC_BAND c) OR ucast (CHSPEC_BW c) OR push_bit 8 (of_nat (sb_index c)) :: u32) = c"
proof -
  have "ucast (push_bit 8 (of_nat (sb_index c)) :: u32) = CHSPEC_CTL_SB c" unfolding sb_of_index
    by (rule bit_word_eqI) (auto simp: bit_simps)
  moreover have "ucast (ucast w :: u32) = w" "ucast (ucast v :: u32) = (ucast v :: u16)" for w :: u16 and v :: u8
    by (rule bit_word_eqI, auto simp: bit_simps)+
  ultimately show ?thesis using chspec_split [of c] by (simp add: ucast_or or.commute or.left_commute)
qed

lemma chan_ids_32: "(of_nat (unat (CHSPEC_CHAN1 c)) OR push_bit 4 (of_nat (unat (CHSPEC_CHAN2 c))) :: u32) = ucast (CHSPEC_CHANNEL c)"
proof -
  have m: "(0xff :: u16) = mask 8" "(0x0f :: u16) = mask 4" "(0xf0 :: u16) = push_bit 4 (mask 4)" by (simp_all add: mask_eq_exp_minus_1)
  show ?thesis unfolding CHSPEC_CHANNEL_def CHSPEC_CHAN1_def CHSPEC_CHAN2_def m by (rule bit_word_eqI) (auto simp: bit_simps)
qed

lemma id_of_80m: "i < 6 \<Longrightarrow> channel_80mhz_to_id (ucast (wf_5g_80m_chans ! i)) = int i"
proof -
  have "list_all (\<lambda>i. channel_80mhz_to_id (ucast (wf_5g_80m_chans ! i)) = int i) [0..<6]" by code_simp
  then show "i < 6 \<Longrightarrow> ?thesis" by (simp add: list_all_iff)
qed

text \<open>The channel field and the side band that the parser computes from what the text says.\<close>

lemma text_channel:
  assumes v: "wf_chspec_valid ulb c" and ctl: "unat ctl = primary c"
  shows "aton_channel ulb (text_parts c ctl) = Some (ucast (CHSPEC_CHANNEL c), push_bit 8 (of_nat (sb_index c)))"
proof -
  note d = aton_channel_def text_parts_def plain_parts_def Let_def
  have nar: ?thesis if "BW_LE20 ulb (CHSPEC_BW c)" "sb_index c = 0"
  proof -
    have "ctl = CHSPEC_CHANNEL c" using ctl narrow_bw [OF that(1)] by (simp add: primary_def Let_def word_unat_eq_iff)
    then show ?thesis using that narrow_bw [OF that(1)] by (auto simp: d BW_LE20_def)
  qed
  have forty: ?thesis if "CHSPEC_BW c = 0x1800" "sb_index c < 2" "3 \<le> unat (CHSPEC_CHANNEL c)" "unat (CHSPEC_CHANNEL c) < 200"
  proof -
    have p: "unat ctl = unat (CHSPEC_CHANNEL c) - 2 + 4 * sb_index c" using ctl that by (simp add: primary_def Let_def block_low_def)
    have up: "CHSPEC_SB_UPPER c \<longleftrightarrow> sb_index c = 1"
      using sb_of_index [of c] that(1,2) by (auto simp: CHSPEC_SB_UPPER_def CHSPEC_CTL_SB_def CHSPEC_BW_def less_2_cases_iff)
    have "LOWER_20_SB (ucast ctl) = ucast (CHSPEC_CHANNEL c)" if "sb_index c = 1"
      using p that \<open>3 \<le> _\<close> by (simp add: LOWER_20_SB_def word_less_nat_alt unat_ucast_8_32 word_unat_eq_iff unat_sub word_le_nat_alt)
    moreover have "UPPER_20_SB (ucast ctl) = ucast (CHSPEC_CHANNEL c)" if "sb_index c = 0"
      using p that \<open>3 \<le> _\<close> \<open>_ < 200\<close> by (simp add: UPPER_20_SB_def word_less_nat_alt unat_ucast_8_32 word_unat_eq_iff unat_word_ariths) linarith
    ultimately show ?thesis using that(1,2) up by (auto simp: d less_2_cases_iff)
  qed
  have wide: ?thesis if "blocks_ok cs bw" "CHSPEC_CHANNEL c \<in> set cs" "sb_index c < bw div 20"
      "(CHSPEC_BW c, cs, bw) \<in> {(0x2000, wf_5g_80m_chans, 80), (0x2800, wf_5g_160m_chans, 160)}" for cs bw
  proof -
    have bw: "bw \<in> {40, 80, 160}" using that(4) by auto
    have "unat (ucast ctl :: u32) = block_low (unat (CHSPEC_CHANNEL c)) bw + 4 * sb_index c"
      using ctl that(4) by (auto simp: primary_def Let_def unat_ucast_8_32)
    moreover have "c AND 0x3800 = CHSPEC_BW c" by (simp add: CHSPEC_BW_def)
    ultimately show ?thesis using block_center [OF that(1,2) bw that(3), of "ucast ctl" "of_nat bw"] that(4)
      by (auto simp: d BW_LE20_def bw_chspec_to_mhz_def wf_chspec_bw_mhz_def)
  qed
  from v show ?thesis
  proof (cases rule: valid_cases)
    case c8080
    let ?c = "wf_5g_80m_chans ! unat (CHSPEC_CHAN1 c)"
    have c: "?c \<in> set wf_5g_80m_chans" using c8080 by simp
    have "sub_sb (unat ?c) 80 (unat (ucast ctl :: u32)) = Some (sb_index c)"
      using ctl c8080 by (simp add: sub_sb_Some unat_ucast_8_32 primary_def Let_def)
    then have "channel_to_sb (ucast ?c) (ucast ctl) 80 = int (sb_index c)"
      using channel_to_sb_value [of 80 ?c "ucast ctl"] block_facts(1) [OF blocks_ok_tables(2) c, of "sb_index c"] c8080 by simp
    then show ?thesis using c8080 id_of_80m [OF c8080(4)] id_of_80m [OF c8080(5)] chan_ids_32 [of c] by (simp add: d chan80_def BW_LE20_def)
  next
    case forty5
    then have "3 \<le> unat (CHSPEC_CHANNEL c)" using block_facts(1) [OF blocks_ok_tables(1) forty5(4), of 0] by (auto simp: wf_5g_40m_chans_def)
    then show ?thesis using forty [OF forty5(2,3)] block_facts(4) [OF blocks_ok_tables(1) forty5(4), of 0] by simp
  qed (use nar forty wide blocks_ok_tables in simp_all)
qed

lemma valid_no_prefix:
  assumes v: "wf_chspec_valid ulb c"
  shows "no_prefix c" and "p_band (plain_parts (of_nat (primary c))) = CHSPEC_BAND c"
proof -
  have b: "CHSPEC_IS2G c \<longleftrightarrow> CHSPEC_BAND c = 0" "CHSPEC_IS5G c \<longleftrightarrow> CHSPEC_BAND c = 0xc000"
    by (simp_all add: CHSPEC_IS2G_def CHSPEC_IS5G_def CHSPEC_BAND_def)
  obtain ctl :: u8 where ctl: "unat ctl = primary c" using valid_ctlchan [OF v] by blast
  then have o: "of_nat (primary c) = ctl" unfolding ctl [symmetric] by simp
  have p: "p_band (plain_parts ctl) = (if primary c \<le> 14 then 0 else 0xc000)"
    using ctl by (simp add: plain_parts_def word_le_nat_alt unat_ucast_8_32)
  let ?ch = "unat (CHSPEC_CHANNEL c)"
  have wide: "14 < primary c" "14 < ?ch" if "blocks_ok cs bw" "CHSPEC_CHANNEL c \<in> set cs" "sb_index c < bw div 20"
      "(CHSPEC_BW c, bw) \<in> {(0x1800, 40), (0x2000, 80), (0x2800, 160)}" for cs bw
  proof -
    have bw: "bw \<in> {40, 80, 160}" using that(4) by auto
    show "14 < primary c" using block_facts(2) [OF that(1,2) bw that(3)] that(4) by (auto simp: primary_def Let_def)
    show "14 < ?ch" using block_facts(2) [OF that(1,2) bw, of 0] bw by (auto simp: block_low_def)
  qed
  have "(CHSPEC_BAND c = 0 \<and> primary c \<le> 14 \<and> ?ch \<le> 14 \<or> CHSPEC_BAND c = 0xc000 \<and> 14 < primary c \<and> (14 < ?ch \<or> CHSPEC_BW c = 0x3000))"
    using v
  proof (cases rule: valid_cases)
    case narrow2
    then show ?thesis using narrow_bw [OF narrow2(2)] by (simp add: primary_def Let_def)
  next
    case forty2
    then show ?thesis by (auto simp: primary_def Let_def block_low_def)
  next
    case narrow5
    then show ?thesis using narrow_bw [OF narrow5(2)] by (simp add: primary_def Let_def)
  next
    case c8080
    then show ?thesis using block_facts(2) [OF blocks_ok_tables(2), of "wf_5g_80m_chans ! unat (CHSPEC_CHAN1 c)" "sb_index c"]
      by (simp add: primary_def Let_def)
  qed (use wide blocks_ok_tables in simp_all)
  then show "no_prefix c" "p_band (plain_parts (of_nat (primary c))) = CHSPEC_BAND c"
    unfolding o by (auto simp: no_prefix_def b p word_less_nat_alt word_le_nat_alt)
qed

lemma text_reads_back:
  assumes v: "wf_chspec_valid ulb c"
  shows "\<exists>t. wf_chspec_ntoa ulb c = Some (Some t) \<and> length t \<le> 18 \<and> wf_chspec_aton ulb t = Some c"
proof -
  note m = valid_not_malformed [OF v]
  obtain ctl where ctl: "wf_chspec_ctlchan ulb c = Some ctl" "unat ctl = primary c" using valid_ctlchan [OF v] by blast
  define t where "t = dec_int (uint ctl) @ text_suffix ulb c @ [0]"
  have nt: "wf_chspec_ntoa ulb c = Some (Some t)" unfolding t_def by (rule ntoa_text [OF m ctl(1) valid_no_prefix(1) [OF v]])
  have l: "length t \<le> 18" unfolding t_def using length_text_suffix [of ulb c] length_byte_text [of ctl] by simp
  have "of_nat (primary c) = ctl" unfolding ctl(2) [symmetric] by simp
  then have "p_band (text_parts c ctl) = CHSPEC_BAND c" using valid_no_prefix(2) [OF v] by (simp add: text_parts_def Let_def)
  moreover have "p_bw (text_parts c ctl) = CHSPEC_BW c" by (simp add: text_parts_def Let_def plain_parts_def)
  ultimately have "wf_chspec_aton ulb t = Some c"
    unfolding wf_chspec_aton_def t_def parse_text [OF m] using text_channel [OF v ctl(2)] rebuild [of c] m by (simp add: Let_def)
  then show ?thesis using nt l by blast
qed

section \<open>Specifications from their fields\<close>

definition mk_chspec :: "u16 \<Rightarrow> u16 \<Rightarrow> nat \<Rightarrow> u8 \<Rightarrow> chanspec" where
  "mk_chspec band bw k ch = band OR bw OR push_bit 8 (of_nat k) OR ucast ch"

lemma mk_fields:
  assumes b: "band \<in> {0, 0xc000}" and w: "bw \<in> {0x0000, 0x0800, 0x1000, 0x1800, 0x2000, 0x2800, 0x3000, 0x3800}" and k: "k < 8"
  shows "CHSPEC_BAND (mk_chspec band bw k ch) = band" and "CHSPEC_BW (mk_chspec band bw k ch) = bw"
    and "sb_index (mk_chspec band bw k ch) = k" and "CHSPEC_CHANNEL (mk_chspec band bw k ch) = ch"
proof -
  define s :: u16 where "s = push_bit 8 (of_nat k)"
  have "k = 0 \<or> k = 1 \<or> k = 2 \<or> k = 3 \<or> k = 4 \<or> k = 5 \<or> k = 6 \<or> k = 7" using k by linarith
  then have s: "s AND 0xc000 = 0" "s AND 0x3800 = 0" "s AND 0x0700 = s" "s AND 0xff = 0" "unat (drop_bit 8 s) = k"
    unfolding s_def by (elim disjE; simp)+
  have m: "(0xff :: u16) = mask 8" by (simp add: mask_eq_exp_minus_1)
  have c: "ucast ch AND 0xff = (ucast ch :: u16)" unfolding m by (rule bit_word_eqI) (auto simp: bit_simps dest: bit_imp_le_length)
  have z: "ucast ch AND x = 0" if "x AND 0xff = 0" for x :: u16
  proof -
    have "ucast ch AND x = (ucast ch :: u16) AND (x AND 0xff)" using c by (metis and.assoc and.commute)
    then show ?thesis using that by simp
  qed
  note d = bit.conj_disj_distrib2 mk_chspec_def s_def [symmetric]
  have b': "band AND 0xc000 = band" "band AND 0x3800 = 0" "band AND 0x0700 = 0" "band AND 0xff = 0" using b by auto
  have w': "bw AND 0xc000 = 0" "bw AND 0x3800 = bw" "bw AND 0x0700 = 0" "bw AND 0xff = 0" using w by auto
  show "CHSPEC_BAND (mk_chspec band bw k ch) = band" "CHSPEC_BW (mk_chspec band bw k ch) = bw"
    unfolding CHSPEC_BAND_def CHSPEC_BW_def d by (simp_all add: b' w' s z)
  show "sb_index (mk_chspec band bw k ch) = k" unfolding sb_index_def CHSPEC_CTL_SB_def d by (simp add: b' w' s z)
  have "CHSPEC_CHANNEL (mk_chspec band bw k ch) = ucast (ucast ch :: u16)" unfolding CHSPEC_CHANNEL_def d by (simp add: b' w' s c)
  moreover have "ucast (ucast ch :: u16) = ch" by (rule bit_word_eqI) (auto simp: bit_simps)
  ultimately show "CHSPEC_CHANNEL (mk_chspec band bw k ch) = ch" by simp
qed

lemma sb_index_values:
  "CHSPEC_CTL_SB c = 0 \<longleftrightarrow> sb_index c = 0" "0x0100 < CHSPEC_CTL_SB c \<longleftrightarrow> 1 < sb_index c" "0x0300 < CHSPEC_CTL_SB c \<longleftrightarrow> 3 < sb_index c"
  "CHSPEC_CTL_SB c < 0x0200 \<longleftrightarrow> sb_index c < 2" "CHSPEC_CTL_SB c < 0x0400 \<longleftrightarrow> sb_index c < 4"
  using sb_cases [of c] by (auto simp: sb_index_def sidebands_def)

text \<open>The 20 MHz channels of the 5 GHz band that lie in wider channels.\<close>

definition chans_20 :: "nat set" where
  "chans_20 = {36, 40, 44, 48, 52, 56, 60, 64, 100, 104, 108, 112, 116, 120, 124, 128, 132, 136, 140, 144, 149, 153, 157, 161}"

lemma chans_20_mem:
  assumes "unat (ch :: u8) \<in> chans_20"
  shows "list_ex (\<lambda>c. (ucast ch :: u32) = LOWER_20_SB (ucast c) \<or> (ucast ch :: u32) = UPPER_20_SB (ucast c)) wf_5g_40m_chans"
  using assms unfolding chans_20_def
  by (auto simp: wf_5g_40m_chans_def LOWER_20_SB_def UPPER_20_SB_def word_unat_eq_iff unat_ucast_8_32)

lemma valid_mk:
  "k < 4 \<Longrightarrow> ch \<in> set wf_5g_80m_chans \<Longrightarrow> wf_chspec_valid ulb (mk_chspec 0xc000 0x2000 k ch)"
  "k < 2 \<Longrightarrow> ch \<in> set wf_5g_40m_chans \<Longrightarrow> wf_chspec_valid ulb (mk_chspec 0xc000 0x1800 k ch)"
  "k < 8 \<Longrightarrow> ch \<in> set wf_5g_160m_chans \<Longrightarrow> wf_chspec_valid ulb (mk_chspec 0xc000 0x2800 k ch)"
  "unat ch \<in> chans_20 \<Longrightarrow> wf_chspec_valid ulb (mk_chspec 0xc000 0x1000 0 ch)"
  "1 \<le> unat ch \<Longrightarrow> unat ch \<le> 14 \<Longrightarrow> wf_chspec_valid ulb (mk_chspec 0 0x1000 0 ch)"
proof -
  have b: "CHSPEC_IS2G c \<longleftrightarrow> CHSPEC_BAND c = 0" "CHSPEC_IS5G c \<longleftrightarrow> CHSPEC_BAND c = 0xc000" for c
    by (simp_all add: CHSPEC_IS2G_def CHSPEC_IS5G_def CHSPEC_BAND_def)
  note d = wf_chspec_valid_def wf_chspec_malformed_def Let_def b sb_index_values mk_fields BW_LE160_def BW_LE80_def BW_LE40_def BW_LE20_def
  show "wf_chspec_valid ulb (mk_chspec 0xc000 0x2000 k ch)" if "k < 4" "ch \<in> set wf_5g_80m_chans"
    using that by (simp add: d) (auto simp: wf_5g_80m_chans_def)
  show "wf_chspec_valid ulb (mk_chspec 0xc000 0x1800 k ch)" if "k < 2" "ch \<in> set wf_5g_40m_chans"
    using that by (simp add: d) (auto simp: wf_5g_40m_chans_def)
  show "wf_chspec_valid ulb (mk_chspec 0xc000 0x2800 k ch)" if "k < 8" "ch \<in> set wf_5g_160m_chans"
    using that by (simp add: d) (auto simp: wf_5g_160m_chans_def)
  show "wf_chspec_valid ulb (mk_chspec 0xc000 0x1000 0 ch)" if "unat ch \<in> chans_20"
    using that chans_20_mem [OF that] by (simp add: d word_less_nat_alt unat_ucast_8_32) (auto simp: chans_20_def)
  show "wf_chspec_valid ulb (mk_chspec 0 0x1000 0 ch)" if "1 \<le> unat ch" "unat ch \<le> 14"
    using that by (simp add: d word_le_nat_alt unat_ucast_8_32)
qed

lemma primary_mk:
  "k < 4 \<Longrightarrow> primary (mk_chspec 0xc000 0x2000 k ch) = block_low (unat ch) 80 + 4 * k"
  "k < 2 \<Longrightarrow> primary (mk_chspec 0xc000 0x1800 k ch) = block_low (unat ch) 40 + 4 * k"
  "k < 8 \<Longrightarrow> primary (mk_chspec 0xc000 0x2800 k ch) = block_low (unat ch) 160 + 4 * k"
  "band \<in> {0, 0xc000} \<Longrightarrow> primary (mk_chspec band 0x1000 0 ch) = unat ch"
  by (simp_all add: primary_def Let_def mk_fields)

lemma blocks_in_chans_20:
  "c \<in> set wf_5g_40m_chans \<Longrightarrow> k < 2 \<Longrightarrow> block_low (unat c) 40 + 4 * k \<in> chans_20"
  "c \<in> set wf_5g_80m_chans \<Longrightarrow> k < 4 \<Longrightarrow> block_low (unat c) 80 + 4 * k \<in> chans_20"
  "c \<in> set wf_5g_160m_chans \<Longrightarrow> k < 8 \<Longrightarrow> block_low (unat c) 160 + 4 * k \<in> chans_20"
proof -
  have k: "k < 2 \<Longrightarrow> k \<in> {0, 1}" "k < 4 \<Longrightarrow> k \<in> {0, 1, 2, 3}" "k < 8 \<Longrightarrow> k \<in> {0, 1, 2, 3, 4, 5, 6, 7}" for k :: nat by auto
  show "block_low (unat c) 40 + 4 * k \<in> chans_20" if "c \<in> set wf_5g_40m_chans" "k < 2"
    using that(1) k(1) [OF that(2)] by (auto simp: wf_5g_40m_chans_def block_low_def chans_20_def)
  show "block_low (unat c) 80 + 4 * k \<in> chans_20" if "c \<in> set wf_5g_80m_chans" "k < 4"
    using that(1) k(2) [OF that(2)] by (auto simp: wf_5g_80m_chans_def block_low_def chans_20_def)
  show "block_low (unat c) 160 + 4 * k \<in> chans_20" if "c \<in> set wf_5g_160m_chans" "k < 8"
    using that(1) k(3) [OF that(2)] by (auto simp: wf_5g_160m_chans_def block_low_def chans_20_def)
qed

lemma valid_primary_20:
  assumes "wf_chspec_valid ulb c" and "\<not> BW_LE20 ulb (CHSPEC_BW c)"
  shows "CHSPEC_BAND c = 0 \<and> 1 \<le> primary c \<and> primary c \<le> 14 \<or> CHSPEC_BAND c = 0xc000 \<and> primary c \<in> chans_20"
  using assms(1)
proof (cases rule: valid_cases)
  case forty2
  then show ?thesis by (auto simp: primary_def Let_def block_low_def)
qed (use assms(2) blocks_in_chans_20 in \<open>simp_all add: primary_def Let_def\<close>)

lemma ctlchspec_ok:
  assumes v: "wf_chspec_valid ulb c"
  shows "\<exists>c'. wf_chspec_ctlchspec ulb c = Some c' \<and> wf_chspec_valid ulb c' \<and> primary c' = primary c \<and> BW_LE20 ulb (CHSPEC_BW c')"
proof (cases "BW_LE20 ulb (CHSPEC_BW c)")
  case True
  then show ?thesis using v valid_not_malformed [OF v] by (simp add: wf_chspec_ctlchspec_def)
next
  case False
  obtain ctl where ctl: "wf_chspec_ctlchan ulb c = Some ctl" "unat ctl = primary c" using valid_ctlchan [OF v] by blast
  have "wf_chspec_ctlchspec ulb c = Some (mk_chspec (CHSPEC_BAND c) 0x1000 0 ctl)"
    using False ctl(1) valid_not_malformed [OF v] by (simp add: wf_chspec_ctlchspec_def mk_chspec_def or.commute or.left_commute)
  then show ?thesis using valid_primary_20 [OF v False] ctl(2) valid_mk(4,5) [of ctl ulb] primary_mk(4) [of "CHSPEC_BAND c" ctl]
    by (auto simp: mk_fields BW_LE20_def)
qed

text \<open>The primary 80 and 40 MHz channels.\<close>

lemma primary80_ok:
  assumes v: "wf_chspec_valid ulb c" and w: "CHSPEC_BW c \<in> {0x2000, 0x2800, 0x3000}"
  shows "\<exists>c'. wf_chspec_primary80_chspec ulb c = Some c' \<and> wf_chspec_valid ulb c' \<and> CHSPEC_BW c' = 0x2000 \<and> CHSPEC_BAND c' = 0xc000 \<and>
     primary c' = primary c \<and> CHSPEC_CHANNEL c' = wf_chspec_primary80_channel c"
  using v
proof (cases rule: valid_cases)
  case eighty
  then show ?thesis using v valid_not_malformed [OF v] by (simp add: wf_chspec_primary80_chspec_def wf_chspec_primary80_channel_def)
next
  case c160
  let ?ch = "if sb_index c < 4 then CHSPEC_CHANNEL c - 8 else CHSPEC_CHANNEL c + 8" and ?k = "sb_index c mod 4"
  have k: "sb_index c mod 4 < 4" "\<not> sb_index c < 4 \<Longrightarrow> sb_index c mod 4 = sb_index c - 4" using c160(3) by (simp_all add: le_mod_geq)
  have sb: "push_bit 8 (of_nat ?k) = (if sb_index c < 4 then CHSPEC_CTL_SB c else CHSPEC_CTL_SB c - 0x0400)"
    using sb_cases [of c] by (auto simp: sb_index_def sidebands_def)
  have ch: "?ch \<in> set wf_5g_80m_chans" using c160(4) by (auto simp: wf_5g_160m_chans_def wf_5g_80m_chans_def)
  have u: "ucast (ucast (CHSPEC_CHANNEL c) - 8 :: u32) = (ucast (CHSPEC_CHANNEL c - 8) :: u16)"
    "ucast (ucast (CHSPEC_CHANNEL c) + 8 :: u32) = (ucast (CHSPEC_CHANNEL c + 8) :: u16)"
    using c160(4) by (auto simp: wf_5g_160m_chans_def)
  have "wf_chspec_primary80_chspec ulb c = Some (mk_chspec 0xc000 0x2000 ?k ?ch)"
    unfolding mk_chspec_def sb using c160(2) valid_not_malformed [OF v] u
    by (simp add: wf_chspec_primary80_chspec_def Let_def sb_index_values)
  moreover have "wf_chspec_primary80_channel c = ?ch"
    using c160(2) by (simp add: wf_chspec_primary80_channel_def word_less_nat_alt flip: sb_index_def)
  moreover have "primary (mk_chspec 0xc000 0x2000 ?k ?ch) = primary c"
    using c160(2,4) k by (auto simp: primary_mk primary_def [of c] Let_def block_low_def wf_5g_160m_chans_def)
  ultimately show ?thesis using valid_mk(1) [OF k(1) ch, of ulb] by (simp add: mk_fields)
next
  case c8080
  let ?c = "wf_5g_80m_chans ! unat (CHSPEC_CHAN1 c)"
  have i: "unat (ucast (CHSPEC_CHAN1 c) :: u8) = unat (CHSPEC_CHAN1 c)"
    unfolding unsigned_ucast_eq by (rule take_bit_nat_eq_self) (use c8080(4) in simp)
  then have g: "wf_chspec_get80Mhz_ch (ucast (CHSPEC_CHAN1 c)) = ?c" using c8080(4) by (simp add: wf_chspec_get80Mhz_ch_def)
  then have "wf_chspec_primary80_chspec ulb c = Some (mk_chspec 0xc000 0x2000 (sb_index c) ?c)"
    using c8080(2) valid_not_malformed [OF v] sb_of_index [of c] by (simp add: wf_chspec_primary80_chspec_def Let_def mk_chspec_def)
  moreover have "wf_chspec_primary80_channel c = ?c" using c8080(2) g by (simp add: wf_chspec_primary80_channel_def)
  ultimately show ?thesis using c8080 valid_mk(1) [OF c8080(3), of ?c ulb] by (simp add: mk_fields primary_mk primary_def [of c] Let_def)
qed (use w narrow_bw [of ulb "CHSPEC_BW c"] in auto)

lemma primary40_of_80:
  assumes "CHSPEC_BW c = 0x2000" and "sb_index c < 4" and "CHSPEC_CHANNEL c \<in> set wf_5g_80m_chans"
  obtains c' where "c' = (let center_chan = ucast (CHSPEC_CHANNEL c) :: u32; sb = CHSPEC_CTL_SB c;
         (center_chan, sb) = (if sb < 0x0200 then (center_chan - 4, sb) else (center_chan + 4, sb - 0x0200))
       in 0xc000 OR 0x1800 OR sb OR ucast center_chan)"
    and "wf_chspec_valid ulb c'" and "CHSPEC_BW c' = 0x1800" and "primary c' = primary c"
proof -
  let ?ch = "if sb_index c < 2 then CHSPEC_CHANNEL c - 4 else CHSPEC_CHANNEL c + 4" and ?k = "sb_index c mod 2"
  have k: "sb_index c mod 2 < 2" "\<not> sb_index c < 2 \<Longrightarrow> sb_index c mod 2 = sb_index c - 2" using assms(2) by (simp_all add: le_mod_geq)
  have sb: "push_bit 8 (of_nat ?k) = (if sb_index c < 2 then CHSPEC_CTL_SB c else CHSPEC_CTL_SB c - 0x0200)"
    using sb_cases [of c] assms(2) by (auto simp: sb_index_def sidebands_def)
  have ch: "?ch \<in> set wf_5g_40m_chans" using assms(3) by (auto simp: wf_5g_40m_chans_def wf_5g_80m_chans_def)
  have u: "ucast (ucast (CHSPEC_CHANNEL c) - 4 :: u32) = (ucast (CHSPEC_CHANNEL c - 4) :: u16)"
    "ucast (ucast (CHSPEC_CHANNEL c) + 4 :: u32) = (ucast (CHSPEC_CHANNEL c + 4) :: u16)"
    using assms(3) by (auto simp: wf_5g_80m_chans_def)
  have "mk_chspec 0xc000 0x1800 ?k ?ch = (let center_chan = ucast (CHSPEC_CHANNEL c) :: u32; sb = CHSPEC_CTL_SB c;
         (center_chan, sb) = (if sb < 0x0200 then (center_chan - 4, sb) else (center_chan + 4, sb - 0x0200))
       in 0xc000 OR 0x1800 OR sb OR ucast center_chan)"
    unfolding mk_chspec_def sb using u by (simp add: Let_def sb_index_values)
  moreover have "primary (mk_chspec 0xc000 0x1800 ?k ?ch) = primary c"
    using assms(1,3) k by (auto simp: primary_mk primary_def [of c] Let_def block_low_def wf_5g_80m_chans_def)
  moreover have "CHSPEC_BW (mk_chspec 0xc000 0x1800 ?k ?ch) = 0x1800" using k(1) by (simp add: mk_fields)
  ultimately show thesis using that valid_mk(2) [OF k(1) ch, of ulb] by blast
qed

lemma primary40_ok:
  assumes v: "wf_chspec_valid ulb c" and w: "CHSPEC_BW c \<in> {0x1800, 0x2000, 0x2800, 0x3000}"
  shows "\<exists>c'. wf_chspec_primary40_chspec ulb c = Some c' \<and> wf_chspec_valid ulb c' \<and> CHSPEC_BW c' = 0x1800 \<and> primary c' = primary c"
proof (cases "CHSPEC_BW c = 0x1800")
  case True
  then show ?thesis using v valid_not_malformed [OF v] by (simp add: wf_chspec_primary40_chspec_def)
next
  case False
  then obtain c80 where c80: "wf_chspec_primary80_chspec ulb c = Some c80" "wf_chspec_valid ulb c80" "CHSPEC_BW c80 = 0x2000" "CHSPEC_BAND c80 = 0xc000" "primary c80 = primary c"
    using primary80_ok [OF v] w by auto
  have "wf_chspec_primary80_chspec ulb c = Some c" if "CHSPEC_BW c = 0x2000"
    using that valid_not_malformed [OF v] by (simp add: wf_chspec_primary80_chspec_def)
  then have s: "(if CHSPEC_BW c = 0x3000 \<or> CHSPEC_BW c = 0x2800 then wf_chspec_primary80_chspec ulb c else Some c) = Some c80"
    using c80(1) w False by auto
  from c80(2) show ?thesis
  proof (cases rule: valid_cases)
    case eighty
    show ?thesis
      by (rule primary40_of_80 [OF eighty(2,3,4), of ulb])
         (use s c80 valid_not_malformed [OF v] in \<open>auto simp: wf_chspec_primary40_chspec_def Let_def split: prod.splits\<close>)
  qed (use c80(3) narrow_bw [of ulb "CHSPEC_BW c80"] in auto)
qed

section \<open>Construction\<close>

lemma ctl_exact:
  assumes "wf_chspec_valid ulb c" and "primary c = unat (ctl :: u32)"
  shows "map_option ucast (wf_chspec_ctlchan ulb c) = Some ctl"
proof -
  obtain x where x: "wf_chspec_ctlchan ulb c = Some x" "unat x = primary c" using valid_ctlchan [OF assms(1)] by blast
  have "ucast x = ctl" using x(2) assms(2) by (simp add: word_unat_eq_iff unat_ucast_8_32)
  then show ?thesis using x(1) by simp
qed

text \<open>From a control channel and a bandwidth: the first centre channel of the table whose block contains the channel.\<close>

definition wide_kinds :: "(u32 \<times> nat \<times> u8 list) set" where
  "wide_kinds = {(0x1800, 40, wf_5g_40m_chans), (0x2000, 80, wf_5g_80m_chans), (0x2800, 160, wf_5g_160m_chans)}"

lemma channel2chspec_ref:
  assumes "(w, bw, cs) \<in> wide_kinds"
  shows "wf_channel2chspec ulb ctl w = (case find (\<lambda>c. \<exists>k < bw div 20. unat ctl = block_low (unat c) bw + 4 * k) cs of None \<Rightarrow> 0
     | Some c \<Rightarrow> mk_chspec 0xc000 (ucast w) ((unat ctl - block_low (unat c) bw) div 4) c)"
proof -
  have bw: "bw \<in> {40, 80, 160}" "bw \<in> {20, 40, 80, 160}" and ok: "blocks_ok cs bw" using assms blocks_ok_tables by (auto simp: wide_kinds_def)
  have edge: "\<forall>c \<in> set cs. (bw - 20) div 10 \<le> unat c" using ok by (auto simp: blocks_ok_def list_all_iff)
  have in_block: "sub_sb (unat c) bw (unat ctl) \<noteq> None \<longleftrightarrow> (\<exists>k < bw div 20. unat ctl = block_low (unat c) bw + 4 * k)" for c :: u8
    using sub_sb_Some [of "unat c" bw "unat ctl"] by auto
  let ?f = "find (\<lambda>c. \<exists>k < bw div 20. unat ctl = block_low (unat c) bw + 4 * k) cs"
  have cl: "center_loop cs ctl (of_nat bw) = map_option (\<lambda>c. (c, int (the (sub_sb (unat c) bw (unat ctl))))) ?f"
    using center_loop_find [OF bw(2) edge, of ctl] in_block by simp
  show ?thesis
  proof (cases ?f)
    case None
    then show ?thesis using cl assms by (auto simp: wf_channel2chspec_def Let_def wide_kinds_def)
  next
    case (Some c)
    then obtain k where c: "c \<in> set cs" "k < bw div 20" "unat ctl = block_low (unat c) bw + 4 * k" by (auto simp: find_Some_iff)
    have "14 < unat ctl" using block_facts(2) [OF ok c(1) bw(1) c(2)] c(3) by simp
    then have band: "\<not> ctl \<le> 14" by (simp add: word_le_nat_alt)
    have "sub_sb (unat c) bw (unat ctl) = Some k" using c by (simp add: sub_sb_Some)
    then show ?thesis using cl Some assms band c(3)
      by (auto simp: wf_channel2chspec_def Let_def wide_kinds_def mk_chspec_def or.commute or.left_commute)
  qed
qed

lemma channel2chspec_ok:
  assumes "(w, bw, cs) \<in> wide_kinds" and "wf_channel2chspec ulb ctl w \<noteq> 0"
  shows "wf_chspec_valid ulb (wf_channel2chspec ulb ctl w)" and "CHSPEC_BW (wf_channel2chspec ulb ctl w) = ucast w"
    and "map_option ucast (wf_chspec_ctlchan ulb (wf_channel2chspec ulb ctl w)) = Some ctl"
proof -
  obtain c where f: "find (\<lambda>c. \<exists>k < bw div 20. unat ctl = block_low (unat c) bw + 4 * k) cs = Some c"
    using assms channel2chspec_ref [OF assms(1), of ulb ctl] by (auto split: option.splits)
  then obtain k where c: "c \<in> set cs" "k < bw div 20" "unat ctl = block_low (unat c) bw + 4 * k" by (auto simp: find_Some_iff)
  have r: "wf_channel2chspec ulb ctl w = mk_chspec 0xc000 (ucast w) k c" using channel2chspec_ref [OF assms(1), of ulb ctl] f c(3) by simp
  have p: "primary (mk_chspec 0xc000 (ucast w) k c) = unat ctl" using assms(1) c by (auto simp: wide_kinds_def primary_mk)
  show "wf_chspec_valid ulb (wf_channel2chspec ulb ctl w)" unfolding r using assms(1) c(1,2) valid_mk(1-3) by (auto simp: wide_kinds_def)
  then show "map_option ucast (wf_chspec_ctlchan ulb (wf_channel2chspec ulb ctl w)) = Some ctl" unfolding r using ctl_exact p by blast
  show "CHSPEC_BW (wf_channel2chspec ulb ctl w) = ucast w" unfolding r using assms(1) c(2) by (auto simp: wide_kinds_def mk_fields)
qed

lemma channel2chspec_exact:
  assumes "(w, bw, cs) \<in> wide_kinds"
  shows "if \<exists>c \<in> set cs. \<exists>k < bw div 20. unat ctl = block_low (unat c) bw + 4 * k
         then wf_chspec_valid ulb (wf_channel2chspec ulb ctl w) \<and> CHSPEC_BW (wf_channel2chspec ulb ctl w) = ucast w \<and>
              map_option ucast (wf_chspec_ctlchan ulb (wf_channel2chspec ulb ctl w)) = Some ctl
         else wf_channel2chspec ulb ctl w = 0"
proof (cases "find (\<lambda>c. \<exists>k < bw div 20. unat ctl = block_low (unat c) bw + 4 * k) cs")
  case None
  then have "\<not> (\<exists>c \<in> set cs. \<exists>k < bw div 20. unat ctl = block_low (unat c) bw + 4 * k)" by (auto simp: find_None_iff)
  then show ?thesis using channel2chspec_ref [OF assms, of ulb ctl] None by (simp only: if_False) simp
next
  case (Some c)
  then obtain k where c: "c \<in> set cs" "k < bw div 20" "unat ctl = block_low (unat c) bw + 4 * k" by (auto simp: find_Some_iff)
  have "CHSPEC_BW (mk_chspec 0xc000 (ucast w) k c) = ucast w" "ucast w \<noteq> (0 :: u16)"
    using assms c(2) by (auto simp: wide_kinds_def mk_fields)
  then have "mk_chspec 0xc000 (ucast w) k c \<noteq> 0" by (auto simp: CHSPEC_BW_def)
  then have "wf_channel2chspec ulb ctl w \<noteq> 0" using channel2chspec_ref [OF assms, of ulb ctl] Some c(3) by simp
  from channel2chspec_ok [OF assms this] show ?thesis using c by auto
qed

text \<open>Channels of at most 20 MHz.\<close>

lemma channel2chspec_narrow:
  assumes w: "w = 0x1000 \<or> ulb \<and> w \<in> {0x0000, 0x0800, 0x3800}" and ctl: "ctl \<le> 224"
  shows "\<not> wf_chspec_malformed ulb (wf_channel2chspec ulb ctl w)" and "CHSPEC_BW (wf_channel2chspec ulb ctl w) = ucast w"
    and "map_option ucast (wf_chspec_ctlchan ulb (wf_channel2chspec ulb ctl w)) = Some ctl"
proof -
  define ch :: u8 where "ch = ucast ctl"
  define band :: u16 where "band = (if ctl \<le> 14 then 0 else 0xc000)"
  have n: "unat ctl \<le> 224" using ctl by (simp add: word_le_nat_alt)
  have ch: "unat ch = unat ctl" unfolding ch_def unsigned_ucast_eq by (rule take_bit_nat_eq_self) (use n in simp)
  have up: "(ucast ch :: u32) = ctl" unfolding word_unat_eq_iff unat_ucast_8_32 by (rule ch)
  have "unat (ucast ctl :: u16) = unat (ucast ch :: u16)"
    unfolding unsigned_ucast_eq using n ch by (simp add: take_bit_nat_eq_self)
  then have c16: "(ucast ctl :: u16) = ucast ch" by (simp add: word_unat_eq_iff)
  have e: "wf_channel2chspec ulb ctl w = mk_chspec band (ucast w) 0 ch"
    using w by (auto simp: wf_channel2chspec_def Let_def mk_chspec_def band_def c16 or.assoc [symmetric])
  have b: "band \<in> {0, 0xc000}" and w16: "(ucast w :: u16) \<in> {0x0000, 0x0800, 0x1000, 0x1800, 0x2000, 0x2800, 0x3000, 0x3800}"
    and le: "BW_LE20 ulb (ucast w)" using w by (auto simp: band_def BW_LE20_def)
  note f = mk_fields [OF b w16, of 0 ch, simplified]
  have g: "CHSPEC_IS2G c \<longleftrightarrow> CHSPEC_BAND c = 0" "CHSPEC_IS5G c \<longleftrightarrow> CHSPEC_BAND c = 0xc000" for c
    by (simp_all add: CHSPEC_IS2G_def CHSPEC_IS5G_def CHSPEC_BAND_def)
  have "(ucast w :: u16) \<noteq> 0x3000" using w by auto
  then show "\<not> wf_chspec_malformed ulb (wf_channel2chspec ulb ctl w)"
    unfolding e using f le b up ctl
    by (auto simp: wf_chspec_malformed_def Let_def g sb_index_values BW_LE160_def BW_LE80_def BW_LE40_def not_less)
  show "CHSPEC_BW (wf_channel2chspec ulb ctl w) = ucast w" unfolding e by (rule f)
  show "map_option ucast (wf_chspec_ctlchan ulb (wf_channel2chspec ulb ctl w)) = Some ctl"
    unfolding e using f le up by (simp add: wf_chspec_ctlchan_def)
qed

text \<open>From any centre channel of 80 MHz and a control channel: the search over the four side bands, in 8-bit arithmetic.\<close>

lemma ucast_sum_8: "(ucast (a + b :: u32) :: u8) = ucast a + ucast b"
  by (simp add: word_unat_eq_iff unsigned_ucast_eq unat_word_ariths take_bit_eq_mod mod_mod_cancel mod_simps)

lemma ucast_diff_8: "(ucast (a - b :: u32) :: u8) = ucast a - ucast b"
  using ucast_sum_8 [of "a - b" b] by simp

lemma ctl_chan_80: "k < 4 \<Longrightarrow> channel_to_ctl_chan (ucast (c :: u8)) 80 (of_nat k) = c - 6 + 4 * of_nat k"
proof -
  assume "k < 4"
  then have "k = 0 \<or> k = 1 \<or> k = 2 \<or> k = 3" by linarith
  moreover have "channel_low_edge (ucast c) 80 = c - 6"
    by (simp add: channel_low_edge_def center_chan_to_edge_def ucast_diff_8 ucast_8_32_back)
  ultimately show ?thesis
    by (elim disjE) (simp_all add: channel_to_ctl_chan_def ucast_sum_8 ucast_8_32_back)
qed

lemma chspec_80_fields:
  assumes "k < 4"
  shows "CHSPEC_BW (mk_chspec 0xc000 0x2000 k c) = 0x2000" and "CHSPEC_CHANNEL (mk_chspec 0xc000 0x2000 k c) = c"
    and "wf_chspec_ctlchan ulb (mk_chspec 0xc000 0x2000 k c) = Some (c - 6 + 4 * of_nat k)"
proof -
  note f = mk_fields [of "0xc000" "0x2000" k c]
  show bw: "CHSPEC_BW (mk_chspec 0xc000 0x2000 k c) = 0x2000" "CHSPEC_CHANNEL (mk_chspec 0xc000 0x2000 k c) = c"
    using f assms by simp_all
  have "bw_chspec_to_mhz (mk_chspec 0xc000 0x2000 k c) = 80"
    using bw(1) by (simp add: bw_chspec_to_mhz_def CHSPEC_BW_def wf_chspec_bw_mhz_def)
  then show "wf_chspec_ctlchan ulb (mk_chspec 0xc000 0x2000 k c) = Some (c - 6 + 4 * of_nat k)"
    using bw f(3) sb_word [of "mk_chspec 0xc000 0x2000 k c"] assms ctl_chan_80 [OF assms, of c]
    by (simp add: wf_chspec_ctlchan_def BW_LE20_def Let_def)
qed

lemma chspec_80_ref:
  "wf_chspec_80 ulb c pr =
     Some (case find (\<lambda>k. pr = c - 6 + 4 * of_nat k) [0..<4] of None \<Rightarrow> 255 | Some k \<Rightarrow> mk_chspec 0xc000 0x2000 k c)"
proof -
  have m: "ucast c OR push_bit 8 (of_nat k) OR 0x2000 OR 0xc000 = mk_chspec 0xc000 0x2000 k c" for k
    by (simp add: mk_chspec_def or.assoc or.commute or.left_commute)
  have step: "chspec_80_loop ulb c pr (push_bit 8 (of_nat k) # sbs) =
      (if pr = c - 6 + 4 * of_nat k then Some (mk_chspec 0xc000 0x2000 k c) else chspec_80_loop ulb c pr sbs)" if "k < 4" for k sbs
    by (simp only: chspec_80_loop.simps Let_def m chspec_80_fields(3) [OF that]) simp
  have "take 4 sidebands = map (\<lambda>k. push_bit 8 (of_nat k)) [0..<4]" by (simp add: sidebands_def upt_rec)
  moreover have "chspec_80_loop ulb c pr (map (\<lambda>k. push_bit 8 (of_nat k)) ks) =
      Some (case find (\<lambda>k. pr = c - 6 + 4 * of_nat k) ks of None \<Rightarrow> 255 | Some k \<Rightarrow> mk_chspec 0xc000 0x2000 k c)"
    if "\<forall>k \<in> set ks. k < 4" for ks
    using that by (induction ks) (simp_all add: step del: chspec_80_loop.simps(2))
  ultimately show ?thesis by (simp add: wf_chspec_80_def del: upt_Suc)
qed

lemma chspec_80_exact:
  "if \<exists>k < 4. pr = c - 6 + 4 * of_nat k
   then \<exists>s. wf_chspec_80 ulb c pr = Some s \<and> CHSPEC_BW s = 0x2000 \<and> CHSPEC_CHANNEL s = c \<and> wf_chspec_ctlchan ulb s = Some pr \<and>
            (c \<in> set wf_5g_80m_chans \<longrightarrow> wf_chspec_valid ulb s)
   else wf_chspec_80 ulb c pr = Some 255"
proof (cases "find (\<lambda>k. pr = c - 6 + 4 * of_nat k) [0..<4]")
  case None
  then have "\<not> (\<exists>k < 4. pr = c - 6 + 4 * of_nat k)" by (auto simp: find_None_iff)
  then show ?thesis using chspec_80_ref [of ulb c pr] None by (simp only: if_False) simp
next
  case (Some k)
  then have k: "k < 4" "pr = c - 6 + 4 * of_nat k" by (auto simp: find_Some_iff)
  then show ?thesis using chspec_80_ref [of ulb c pr] Some chspec_80_fields(1,2) [OF k(1), of c] chspec_80_fields(3) [OF k(1), of ulb c]
      valid_mk(1) [OF k(1), of c ulb] by auto
qed

text \<open>From a control channel and two centre channels of 80 MHz.\<close>

lemma id_loop_Some: "0 \<le> i \<Longrightarrow> id_loop ch i cs \<noteq> - 1 \<Longrightarrow> \<exists>j < length cs. id_loop ch i cs = i + int j \<and> ucast (cs ! j) = ch"
proof (induction cs arbitrary: i)
  case (Cons c cs)
  show ?case
  proof (cases "ch = ucast c")
    case True
    then show ?thesis by (intro exI [of _ 0]) simp
  next
    case False
    then obtain j where "j < length cs" "id_loop ch (i + 1) cs = i + 1 + int j" "ucast (cs ! j) = ch"
      using Cons.IH [of "i + 1"] Cons.prems by auto
    then show ?thesis using False by (intro exI [of _ "Suc j"]) simp
  qed
qed simp

lemma id_bounds:
  assumes "channel_80mhz_to_id (ucast c) \<noteq> - 1"
  obtains i where "i < 6" and "channel_80mhz_to_id (ucast c) = int i" and "wf_5g_80m_chans ! i = c"
proof -
  obtain i where "i < 6" "channel_80mhz_to_id (ucast c) = int i" "(ucast (wf_5g_80m_chans ! i) :: u32) = ucast c"
    using id_loop_Some [of 0 "ucast c" wf_5g_80m_chans] assms by (auto simp: channel_80mhz_to_id_def)
  then show thesis using that ucast_8_32_eq [of "wf_5g_80m_chans ! i" "ucast c"] by (simp add: ucast_8_32_back)
qed

definition spec_8080 :: "nat \<Rightarrow> nat \<Rightarrow> nat \<Rightarrow> chanspec" where
  "spec_8080 i j k = mk_chspec 0xc000 0x3000 k (of_nat i OR push_bit 4 (of_nat j))"

lemma chan_of_channel: "unat (CHSPEC_CHAN1 c) = unat (CHSPEC_CHANNEL c AND 0xf)" "unat (CHSPEC_CHAN2 c) = unat (drop_bit 4 (CHSPEC_CHANNEL c))"
proof -
  have m: "(0xff :: u16) = mask 8" "(0x0f :: u16) = mask 4" "(0xf0 :: u16) = push_bit 4 (mask 4)" "(0xf :: u8) = mask 4"
    by (simp_all add: mask_eq_exp_minus_1)
  have u: "unat (ucast w :: u16) = unat w" for w :: u8
    unfolding unsigned_ucast_eq by (rule take_bit_nat_eq_self) (use unat_u8_less [of w] in simp)
  have "CHSPEC_CHAN1 c = ucast (CHSPEC_CHANNEL c AND 0xf)" "CHSPEC_CHAN2 c = ucast (drop_bit 4 (CHSPEC_CHANNEL c))"
    unfolding CHSPEC_CHANNEL_def CHSPEC_CHAN1_def CHSPEC_CHAN2_def m by (rule bit_word_eqI, auto simp: bit_simps)+
  then show "unat (CHSPEC_CHAN1 c) = unat (CHSPEC_CHANNEL c AND 0xf)" "unat (CHSPEC_CHAN2 c) = unat (drop_bit 4 (CHSPEC_CHANNEL c))"
    by (simp_all only: u)
qed

lemma nibble_pair:
  assumes "i < 6" and "j < 6"
  shows "unat ((of_nat i OR push_bit 4 (of_nat j) :: u8) AND 0xf) = i" and "unat (drop_bit 4 (of_nat i OR push_bit 4 (of_nat j) :: u8)) = j"
    and "ucast (of_nat i OR push_bit 4 (of_nat j) :: u8) = (of_nat i OR push_bit 4 (of_nat j) :: u16)"
proof -
  have "list_all (\<lambda>i. list_all (\<lambda>j. unat ((of_nat i OR push_bit 4 (of_nat j) :: u8) AND 0xf) = i \<and>
      unat (drop_bit 4 (of_nat i OR push_bit 4 (of_nat j) :: u8)) = j \<and>
      ucast (of_nat i OR push_bit 4 (of_nat j) :: u8) = (of_nat i OR push_bit 4 (of_nat j) :: u16)) [0..<6]) [0..<6]" by code_simp
  then show "unat ((of_nat i OR push_bit 4 (of_nat j) :: u8) AND 0xf) = i" "unat (drop_bit 4 (of_nat i OR push_bit 4 (of_nat j) :: u8)) = j"
    "ucast (of_nat i OR push_bit 4 (of_nat j) :: u8) = (of_nat i OR push_bit 4 (of_nat j) :: u16)"
    using assms unfolding list_all_iff set_upt by auto
qed

lemma spec_8080_ok:
  assumes "i < 6" and "j < 6" and "k < 4"
  shows "\<not> wf_chspec_malformed ulb (spec_8080 i j k)" and "CHSPEC_BW (spec_8080 i j k) = 0x3000"
    and "\<exists>x. wf_chspec_ctlchan ulb (spec_8080 i j k) = Some x \<and> unat x = block_low (unat (wf_5g_80m_chans ! i)) 80 + 4 * k"
proof -
  have b: "CHSPEC_IS2G c \<longleftrightarrow> CHSPEC_BAND c = 0" "CHSPEC_IS5G c \<longleftrightarrow> CHSPEC_BAND c = 0xc000" for c
    by (simp_all add: CHSPEC_IS2G_def CHSPEC_IS5G_def CHSPEC_BAND_def)
  have k: "k < 8" using assms(3) by simp
  have f: "CHSPEC_BAND (spec_8080 i j k) = 0xc000" "CHSPEC_BW (spec_8080 i j k) = 0x3000" "sb_index (spec_8080 i j k) = k"
    "unat (CHSPEC_CHAN1 (spec_8080 i j k)) = i" "unat (CHSPEC_CHAN2 (spec_8080 i j k)) = j"
    unfolding chan_of_channel spec_8080_def using nibble_pair [OF assms(1,2)] k by (simp_all add: mk_fields)
  show m: "\<not> wf_chspec_malformed ulb (spec_8080 i j k)"
    using f assms by (simp add: wf_chspec_malformed_def Let_def b sb_index_values BW_LE20_def)
  show "CHSPEC_BW (spec_8080 i j k) = 0x3000" by (rule f)
  have c: "wf_5g_80m_chans ! i \<in> set wf_5g_80m_chans" using assms(1) by simp
  have "unat (channel_to_ctl_chan (ucast (wf_5g_80m_chans ! i)) (of_nat 80) (of_nat k)) = block_low (unat (wf_5g_80m_chans ! i)) 80 + 4 * k"
    by (rule ctl_chan_value) (use block_facts [OF blocks_ok_tables(2) c, of k] assms(3) in simp_all)
  moreover have "ucast (drop_bit 8 (CHSPEC_CTL_SB (spec_8080 i j k))) = (of_nat k :: u32)"
    using sb_word [of "spec_8080 i j k"] f(3) by simp
  ultimately show "\<exists>x. wf_chspec_ctlchan ulb (spec_8080 i j k) = Some x \<and> unat x = block_low (unat (wf_5g_80m_chans ! i)) 80 + 4 * k"
    using m f assms by (simp add: wf_chspec_ctlchan_def Let_def BW_LE20_def)
qed

lemma get8080_ref:
  "wf_chspec_get8080_chspec pr c0 c1 = 255 \<or>
   (\<exists>i j k. i < 6 \<and> j < 6 \<and> k < 4 \<and> {wf_5g_80m_chans ! i, wf_5g_80m_chans ! j} = {c0, c1} \<and>
      wf_chspec_get8080_chspec pr c0 c1 = spec_8080 i j k \<and> unat pr = block_low (unat (wf_5g_80m_chans ! i)) 80 + 4 * k)"
proof -
  have spec: "of_int (int i) OR push_bit 4 (of_int (int j)) OR push_bit 8 (of_int (int k)) OR 0x3000 OR 0xc000 = spec_8080 i j k"
    if "i < 6" "j < 6" for i j k
    using nibble_pair(3) [OF that] by (simp add: spec_8080_def mk_chspec_def or.assoc or.commute or.left_commute)
  have sb: "\<exists>k < 4. channel_to_sb (ucast c) (ucast pr) 80 = int k \<and> unat pr = block_low (unat c) 80 + 4 * k"
    if "c \<in> set wf_5g_80m_chans" "0 \<le> channel_to_sb (ucast c) (ucast pr) 80" for c
    using channel_to_sb_value [of 80 c "ucast pr"] block_facts(1) [OF blocks_ok_tables(2) that(1), of 0] that(2)
      sub_sb_Some [of "unat c" 80 "unat pr"] by (auto simp: unat_ucast_8_32 split: option.splits)
  show ?thesis
  proof (cases "channel_80mhz_to_id (ucast c0) = - 1 \<or> channel_80mhz_to_id (ucast c1) = - 1")
    case False
    then obtain i j where ij: "i < 6" "channel_80mhz_to_id (ucast c0) = int i" "wf_5g_80m_chans ! i = c0"
        "j < 6" "channel_80mhz_to_id (ucast c1) = int j" "wf_5g_80m_chans ! j = c1" using id_bounds by metis
    have mem: "c0 \<in> set wf_5g_80m_chans" "c1 \<in> set wf_5g_80m_chans" using ij by (metis length_80m nth_mem)+
    note d = wf_chspec_get8080_chspec_def Let_def ij(2,5)
    consider "0 \<le> channel_to_sb (ucast c0) (ucast pr) 80" | "\<not> 0 \<le> channel_to_sb (ucast c0) (ucast pr) 80" "0 \<le> channel_to_sb (ucast c1) (ucast pr) 80"
      | "\<not> 0 \<le> channel_to_sb (ucast c0) (ucast pr) 80" "\<not> 0 \<le> channel_to_sb (ucast c1) (ucast pr) 80" by blast
    then show ?thesis
    proof cases
      case 1
      then obtain k where k: "k < 4" "channel_to_sb (ucast c0) (ucast pr) 80 = int k" "unat pr = block_low (unat c0) 80 + 4 * k" using sb [OF mem(1)] by auto
      have "wf_chspec_get8080_chspec pr c0 c1 = spec_8080 i j k" using spec [OF ij(1,4), of k] k(2) by (simp add: d)
      then show ?thesis using ij k by blast
    next
      case 2
      then obtain k where k: "k < 4" "channel_to_sb (ucast c1) (ucast pr) 80 = int k" "unat pr = block_low (unat c1) 80 + 4 * k" using sb [OF mem(2)] by auto
      have "wf_chspec_get8080_chspec pr c0 c1 = spec_8080 j i k" using spec [OF ij(4,1), of k] k(2) 2(1) by (simp add: d)
      then show ?thesis using ij k by blast
    next
      case 3
      then show ?thesis by (simp add: d)
    qed
  qed (auto simp: wf_chspec_get8080_chspec_def Let_def)
qed

lemma or_5g_not_error: "x OR 0xc000 \<noteq> (255 :: u16)"
proof
  assume "x OR 0xc000 = (255 :: u16)"
  then have "(x OR 0xc000) AND 0xc000 = (255 :: u16) AND 0xc000" by (rule arg_cong)
  then show False by (simp add: bit.conj_disj_distrib2)
qed

lemma get8080_exact:
  "wf_chspec_get8080_chspec pr c0 c1 \<noteq> 255 \<longleftrightarrow>
     c0 \<in> set wf_5g_80m_chans \<and> c1 \<in> set wf_5g_80m_chans \<and> (\<exists>c \<in> {c0, c1}. \<exists>k < 4. unat pr = block_low (unat c) 80 + 4 * k)"
proof
  assume "wf_chspec_get8080_chspec pr c0 c1 \<noteq> 255"
  then obtain i j k where r: "i < 6" "j < 6" "k < 4" "{wf_5g_80m_chans ! i, wf_5g_80m_chans ! j} = {c0, c1}"
      "unat pr = block_low (unat (wf_5g_80m_chans ! i)) 80 + 4 * k"
    using get8080_ref [of pr c0 c1] by blast
  have "wf_5g_80m_chans ! i \<in> set wf_5g_80m_chans" "wf_5g_80m_chans ! j \<in> set wf_5g_80m_chans" using r(1,2) by simp_all
  then have "{c0, c1} \<subseteq> set wf_5g_80m_chans" unfolding r(4) [symmetric] by simp
  moreover have "wf_5g_80m_chans ! i \<in> {c0, c1}" unfolding r(4) [symmetric] by simp
  ultimately show "c0 \<in> set wf_5g_80m_chans \<and> c1 \<in> set wf_5g_80m_chans \<and>
      (\<exists>c \<in> {c0, c1}. \<exists>k < 4. unat pr = block_low (unat c) 80 + 4 * k)" using r(3,5) by blast
next
  assume a: "c0 \<in> set wf_5g_80m_chans \<and> c1 \<in> set wf_5g_80m_chans \<and> (\<exists>c \<in> {c0, c1}. \<exists>k < 4. unat pr = block_low (unat c) 80 + 4 * k)"
  have ids: "channel_80mhz_to_id (ucast c) \<noteq> - 1" if "c \<in> set wf_5g_80m_chans" for c
    using that id_of_80m by (auto simp: in_set_conv_nth)
  have sb: "0 \<le> channel_to_sb (ucast c) (ucast pr) 80" if "c \<in> set wf_5g_80m_chans" "k < 4" "unat pr = block_low (unat c) 80 + 4 * k" for c k
    using channel_to_sb_value [of 80 c "ucast pr"] block_facts(1) [OF blocks_ok_tables(2) that(1), of 0] that(2,3)
      sub_sb_Some [of "unat c" 80 "unat pr" k] by (simp add: unat_ucast_8_32)
  have "0 \<le> channel_to_sb (ucast c0) (ucast pr) 80 \<or> 0 \<le> channel_to_sb (ucast c1) (ucast pr) 80" using a sb by blast
  then show "wf_chspec_get8080_chspec pr c0 c1 \<noteq> 255"
    using a ids or_5g_not_error unfolding wf_chspec_get8080_chspec_def Let_def or.assoc [symmetric] by auto
qed

section \<open>Frequencies\<close>

lemma sint_small: "unat w < 2 ^ 31 \<Longrightarrow> sint (w :: u32) = uint w"
proof -
  have "sint (of_nat n :: u32) = int n" if "n < 2 ^ 31" for n
    unfolding signed_of_nat using that by (simp add: signed_take_bit_int_eq_self)
  from this [of "unat w"] show "unat w < 2 ^ 31 \<Longrightarrow> ?thesis" by simp
qed

lemma freq_small:
  assumes "unat ch \<le> 200" and "unat sf < 2 ^ 31"
  shows "unat (ch * 5 + sf div 2 :: u32) = unat ch * 5 + unat sf div 2" and "sint (ch * 5 + sf div 2) = uint (ch * 5 + sf div 2)"
    and "sint (ch * 5) = uint ch * 5"
proof -
  have b: "unat sf div 2 < 2 ^ 30" using assms(2) by simp
  show u: "unat (ch * 5 + sf div 2) = unat ch * 5 + unat sf div 2" using assms(1) b by (simp add: unat_word_ariths unat_div)
  show "sint (ch * 5 + sf div 2) = uint (ch * 5 + sf div 2)" by (rule sint_small) (use u assms(1) b in simp)
  have "unat (ch * 5) = unat ch * 5" using assms(1) by (simp add: unat_word_ariths)
  then show "sint (ch * 5) = uint ch * 5" using sint_small [of "ch * 5"] assms(1) unfolding uint_nat by simp
qed

lemma channel2mhz2channel:
  assumes "unat sf < 2 ^ 31" and "sf \<noteq> 0" and "wf_channel2mhz ch sf \<noteq> - 1"
  shows "wf_mhz2channel (of_int (wf_channel2mhz ch sf)) sf = uint ch"
proof (cases "sf = 4814 \<and> ch = 14")
  case True
  then show ?thesis by (simp add: wf_channel2mhz_def wf_mhz2channel_def)
next
  case False
  have c: "unat ch \<le> 200" using assms(3) by (auto simp: wf_channel2mhz_def word_less_nat_alt split: if_splits)
  note f = freq_small [OF c assms(1)]
  have v: "wf_channel2mhz ch sf = uint (ch * 5 + sf div 2)" using assms(3) False f(2) by (auto simp: wf_channel2mhz_def split: if_splits)
  have "1 \<le> unat ch \<and> unat ch \<le> 13" if "sf = 4814"
    using assms(3) that False by (auto simp: wf_channel2mhz_def word_less_nat_alt word_unat_eq_iff split: if_splits)
  then have r: "1 \<le> uint ch \<and> uint ch \<le> 13" if "sf = 4814" unfolding uint_nat using that by linarith
  have "\<not> ch * 5 + sf div 2 < sf div 2" "\<not> sf div 2 + 1000 < ch * 5 + sf div 2"
    using f(1) c assms(1) by (simp_all add: word_less_nat_alt unat_div unat_word_ariths)
  moreover have "ch * 5 + sf div 2 \<noteq> 2484" if "sf = 4814"
  proof
    assume "ch * 5 + sf div 2 = 2484"
    then have "unat ch * 5 + unat sf div 2 = 2484" using f(1) by simp
    then show False using that by simp presburger
  qed
  ultimately show ?thesis unfolding v using assms(2) f(3) r by (auto simp: wf_mhz2channel_def Let_def)
qed

lemma mhz2channel2mhz:
  assumes "unat sf < 2 ^ 31" and "sf \<noteq> 0" and "wf_mhz2channel freq sf \<noteq> - 1"
  shows "wf_channel2mhz (of_int (wf_mhz2channel freq sf)) sf = uint freq" and "0 \<le> wf_mhz2channel freq sf" and "wf_mhz2channel freq sf \<le> 200"
proof -
  define b where "b = sf div 2"
  define d where "d = freq - b"
  have bn: "unat b = unat sf div 2" by (simp add: b_def unat_div)
  have "(freq = 2484 \<and> sf = 4814 \<and> wf_mhz2channel freq sf = 14) \<or>
      (\<not> freq < b \<and> \<not> b + 1000 < freq \<and> sint d = sint d div 5 * 5 \<and> \<not> (sf = 4814 \<and> (sint d div 5 < 1 \<or> 13 < sint d div 5)) \<and>
       wf_mhz2channel freq sf = sint d div 5)"
    using assms(2,3) unfolding wf_mhz2channel_def Let_def b_def d_def by (auto split: if_splits)
  then consider "freq = 2484" "sf = 4814" "wf_mhz2channel freq sf = 14" |
      "\<not> freq < b" "\<not> b + 1000 < freq" "sint d = sint d div 5 * 5" "sf = 4814 \<Longrightarrow> 1 \<le> sint d div 5 \<and> sint d div 5 \<le> 13"
      "wf_mhz2channel freq sf = sint d div 5" by fastforce
  then have "wf_channel2mhz (of_int (wf_mhz2channel freq sf)) sf = uint freq \<and> 0 \<le> wf_mhz2channel freq sf \<and> wf_mhz2channel freq sf \<le> 200"
  proof cases
    case 1
    then show ?thesis by (simp add: wf_channel2mhz_def)
  next
    case 2
    have fn: "unat freq = unat b + unat d" "unat d \<le> 1000"
      using 2(1,2) bn assms(1) by (simp_all add: d_def word_less_nat_alt unat_sub word_le_nat_alt unat_word_ariths)
    then have s: "sint d = int (unat d)" using sint_small [of d] unfolding uint_nat by simp
    define k where "k = unat d div 5"
    have k2: "sint d div 5 = int k" unfolding s k_def by (simp only: zdiv_int of_nat_numeral)
    have "int (unat d) = int k * 5" using 2(3) [unfolded k2] s by simp
    then have k: "unat d = k * 5" "sint d div 5 = int k" "k \<le> 200" using k2 fn(2) by linarith+
    have kw: "unat (of_nat k :: u32) = k" using k(3) by (simp add: unat_of_nat32)
    have kl: "unat (of_nat k :: u32) \<le> 200" using k(3) kw by simp
    note f = freq_small [OF kl assms(1), folded b_def]
    have "uint (of_nat k * 5 + b) = uint freq" unfolding uint_nat using f(1) fn(1) k(1) kw bn by simp
    moreover have "1 \<le> k \<and> k \<le> 13" if "sf = 4814" using 2(4) [OF that] k(2) by simp
    then have "\<not> (sf = 4814 \<and> ((of_nat k :: u32) < 1 \<or> 14 < (of_nat k :: u32)))" "\<not> (sf = 4814 \<and> (of_nat k :: u32) = 14)"
      using kw by (auto simp: word_less_nat_alt dest: arg_cong [of _ _ unat])
    moreover have "\<not> 200 < (of_nat k :: u32)" using kw k(3) by (simp add: word_less_nat_alt)
    ultimately have "wf_channel2mhz (of_nat k) sf = uint freq" using f(2) unfolding wf_channel2mhz_def b_def [symmetric] by auto
    then show ?thesis using 2(5) k(2,3) by simp
  qed
  then show "wf_channel2mhz (of_int (wf_mhz2channel freq sf)) sf = uint freq" "0 \<le> wf_mhz2channel freq sf" "wf_mhz2channel freq sf \<le> 200" by auto
qed

section \<open>Properties\<close>

text \<open>C24. Every valid channel specification has a text of at most 17 characters, and reading this text gives the
  specification back; this holds with and without the bandwidths below 20 MHz.\<close>

theorem chspec_text_roundtrip:
  assumes "wf_chspec_valid ulb c"
  shows "\<exists>t. wf_chspec_ntoa ulb c = Some (Some t) \<and> length t \<le> 18 \<and> wf_chspec_aton ulb t = Some c"
  by (rule text_reads_back [OF assms])

theorem chspec_text_roundtrip_witness:
  "\<exists>t. wf_chspec_ntoa False 0xe12a = Some (Some t) \<and> wf_chspec_aton False t = Some 0xe12a"
proof -
  have "wf_chspec_valid False 0xe12a" by code_simp
  then show ?thesis using chspec_text_roundtrip by blast
qed



text \<open>C26. \<open>wf_channel2chspec\<close> for 40, 80 and 160 MHz is the search for the first centre channel of the table whose
  block of 20 MHz channels contains the given channel, for every 32-bit channel number (the unsigned differences of the
  code wrap for channels below the block and are refused).\<close>

theorem channel2chspec_searches:
  assumes "(w, bw, cs) \<in> {(0x1800, 40, wf_5g_40m_chans), (0x2000, 80, wf_5g_80m_chans), (0x2800, 160, wf_5g_160m_chans)}"
  shows "wf_channel2chspec ulb ctl w = (case find (\<lambda>c. \<exists>k < bw div 20. unat ctl = block_low (unat c) bw + 4 * k) cs of None \<Rightarrow> 0
     | Some c \<Rightarrow> mk_chspec 0xc000 (ucast w) ((unat ctl - block_low (unat c) bw) div 4) c)"
  by (rule channel2chspec_ref) (use assms in \<open>simp add: wide_kinds_def\<close>)

theorem channel2chspec_searches_witness:
  "wf_channel2chspec False 157 0x2000 = mk_chspec 0xc000 0x2000 2 155"
proof -
  have "(\<exists>k < 4. P k) \<longleftrightarrow> P 0 \<or> P 1 \<or> P 2 \<or> P 3" for P :: "nat \<Rightarrow> bool" by (auto simp: numeral_eq_Suc less_Suc_eq)
  then have "find (\<lambda>c. \<exists>k < 80 div 20. unat (157 :: u32) = block_low (unat c) 80 + 4 * k) wf_5g_80m_chans = Some 155"
    by (simp add: wf_5g_80m_chans_def block_low_def)
  then show ?thesis using channel2chspec_searches [of "0x2000" 80 wf_5g_80m_chans False 157] by (simp add: block_low_def)
qed

text \<open>C27. Narrowing keeps the control channel: the 20 MHz specification of a valid one, its primary 80 MHz specification
  (for 80, 160 and 80+80 MHz) and its primary 40 MHz specification (from 40 MHz on) exist, are valid, have that bandwidth
  and the same control channel; \<open>wf_chspec_primary80_channel\<close> is the centre of the primary 80 MHz specification.\<close>

theorem chspec_narrowing:
  assumes v: "wf_chspec_valid ulb c"
  shows "(\<exists>s. wf_chspec_ctlchspec ulb c = Some s \<and> wf_chspec_valid ulb s \<and> BW_LE20 ulb (CHSPEC_BW s) \<and> wf_chspec_ctlchan ulb s = wf_chspec_ctlchan ulb c) \<and>
     (CHSPEC_BW c \<in> {0x2000, 0x2800, 0x3000} \<longrightarrow> (\<exists>s. wf_chspec_primary80_chspec ulb c = Some s \<and> wf_chspec_valid ulb s \<and>
        CHSPEC_BW s = 0x2000 \<and> wf_chspec_ctlchan ulb s = wf_chspec_ctlchan ulb c \<and> CHSPEC_CHANNEL s = wf_chspec_primary80_channel c)) \<and>
     (CHSPEC_BW c \<in> {0x1800, 0x2000, 0x2800, 0x3000} \<longrightarrow> (\<exists>s. wf_chspec_primary40_chspec ulb c = Some s \<and> wf_chspec_valid ulb s \<and>
        CHSPEC_BW s = 0x1800 \<and> wf_chspec_ctlchan ulb s = wf_chspec_ctlchan ulb c))"
proof -
  have same: "wf_chspec_ctlchan ulb s = wf_chspec_ctlchan ulb c" if "wf_chspec_valid ulb s" "primary s = primary c" for s
    using valid_ctlchan [OF that(1)] valid_ctlchan [OF v] that(2) by (metis word_unat_eq_iff)
  show ?thesis using ctlchspec_ok [OF v] primary80_ok [OF v] primary40_ok [OF v] same by metis
qed

theorem chspec_narrowing_witness:
  "\<exists>s. wf_chspec_primary40_chspec False 0xee32 = Some s \<and> wf_chspec_valid False s \<and> wf_chspec_ctlchan False s = wf_chspec_ctlchan False 0xee32"
proof -
  have "wf_chspec_valid False 0xee32" "CHSPEC_BW 0xee32 = 0x2800" by code_simp+
  then show ?thesis using chspec_narrowing [of False "0xee32"] by auto
qed

text \<open>Channels and frequencies: for a base frequency below 2^31 half units the conversions are inverse to each other
  wherever they return a value, and a channel that is returned lies between 0 and 200.\<close>

theorem channel_frequencies:
  assumes "unat sf < 2 ^ 31" and "sf \<noteq> 0"
  shows "(wf_channel2mhz ch sf \<noteq> - 1 \<longrightarrow> wf_mhz2channel (of_int (wf_channel2mhz ch sf)) sf = uint ch) \<and>
     (wf_mhz2channel freq sf \<noteq> - 1 \<longrightarrow> wf_channel2mhz (of_int (wf_mhz2channel freq sf)) sf = uint freq \<and>
        0 \<le> wf_mhz2channel freq sf \<and> wf_mhz2channel freq sf \<le> 200)"
  using channel2mhz2channel [OF assms] mhz2channel2mhz [OF assms] by blast

theorem channel_frequencies_witness:
  "wf_mhz2channel (of_int (wf_channel2mhz 36 10000)) 10000 = 36 \<and> wf_channel2mhz (of_int (wf_mhz2channel 2484 4814)) 4814 = 2484"
  using channel_frequencies [of 10000 36 0] channel_frequencies [of 4814 0 2484] by (simp add: wf_channel2mhz_def wf_mhz2channel_def)


end
