(* ===== verification/Pkt_Store.thy ===== *)
theory Pkt_Store
  imports DHD_Prelude
begin

text \<open>
  The packet store: what the packet queues of \<open>hnd_pktq.c\<close> and \<open>dhd_flowring.c\<close> see of a
  packet. A packet is an address; \<open>PKTLINK\<close> and \<open>PKTSETLINK\<close> (\<open>include/linux_osl.h\<close>) read and
  write the one link field of a packet, and \<open>PKTFREE\<close> hands a packet back to the allocator. A
  link access through NULL or to a freed packet has no outcome (\<open>None\<close>). The second half is the
  theory of linked segments, which relates the link fields to lists of packets.
\<close>

section \<open>Packets, links and the allocator\<close>

type_synonym pkt = nat
type_synonym pkt_ptr = "nat option"

record pkt_store =
  plink :: "pkt \<Rightarrow> pkt_ptr"
  pfreed :: "pkt list"

definition PKTLINK :: "pkt_store \<Rightarrow> pkt_ptr \<Rightarrow> pkt_ptr option" where
  "PKTLINK s p =
     (case p of None \<Rightarrow> None
      | Some a \<Rightarrow> if a \<in> set (pfreed s) then None else Some (plink s a))"

definition PKTSETLINK :: "pkt_store \<Rightarrow> pkt_ptr \<Rightarrow> pkt_ptr \<Rightarrow> pkt_store option" where
  "PKTSETLINK s p x =
     (case p of None \<Rightarrow> None
      | Some a \<Rightarrow> if a \<in> set (pfreed s) then None else Some (s\<lparr>plink := (plink s)(a := x)\<rparr>))"

text \<open>The allocator records what was freed; freeing a packet twice has no outcome.\<close>

definition PKTFREE :: "pkt_store \<Rightarrow> pkt_ptr \<Rightarrow> pkt_store option" where
  "PKTFREE s p =
     (case p of None \<Rightarrow> None
      | Some a \<Rightarrow> if a \<in> set (pfreed s) then None else Some (s\<lparr>pfreed := a # pfreed s\<rparr>))"

lemma PKTLINK_live [simp]: "a \<notin> set (pfreed s) \<Longrightarrow> PKTLINK s (Some a) = Some (plink s a)"
  by (simp add: PKTLINK_def)

lemma PKTSETLINK_live [simp]:
  "a \<notin> set (pfreed s) \<Longrightarrow> PKTSETLINK s (Some a) x = Some (s\<lparr>plink := (plink s)(a := x)\<rparr>)"
  by (simp add: PKTSETLINK_def)

lemma PKTFREE_live [simp]:
  "a \<notin> set (pfreed s) \<Longrightarrow> PKTFREE s (Some a) = Some (s\<lparr>pfreed := a # pfreed s\<rparr>)"
  by (simp add: PKTFREE_def)

lemma PKTLINK_None [simp]: "PKTLINK s None = None"
  by (simp add: PKTLINK_def)

lemma PKTSETLINK_None [simp]: "PKTSETLINK s None x = None"
  by (simp add: PKTSETLINK_def)

section \<open>Linked segments\<close>

text \<open>\<open>seg l p xs r\<close>: following links from \<open>p\<close> visits exactly \<open>xs\<close> and arrives at \<open>r\<close>.\<close>

fun seg :: "(pkt \<Rightarrow> pkt_ptr) \<Rightarrow> pkt_ptr \<Rightarrow> pkt list \<Rightarrow> pkt_ptr \<Rightarrow> bool" where
  "seg l p [] r = (p = r)"
| "seg l p (x # xs) r = (p = Some x \<and> seg l (l x) xs r)"

definition last_ptr :: "pkt list \<Rightarrow> pkt_ptr" where
  "last_ptr xs = (if xs = [] then None else Some (last xs))"

fun head_ptr :: "pkt list \<Rightarrow> pkt_ptr" where
  "head_ptr [] = None"
| "head_ptr (x # xs) = Some x"

lemma seg_append [simp]: "seg l p (xs @ ys) r \<longleftrightarrow> (\<exists>m. seg l p xs m \<and> seg l m ys r)"
  by (induction xs arbitrary: p) auto

lemma seg_cong:
  "(\<And>x. x \<in> set xs \<Longrightarrow> l' x = l x) \<Longrightarrow> seg l' p xs r \<longleftrightarrow> seg l p xs r"
  by (induction xs arbitrary: p) auto

lemma seg_upd_notin [simp]: "a \<notin> set xs \<Longrightarrow> seg (l(a := v)) p xs r \<longleftrightarrow> seg l p xs r"
  by (rule seg_cong) auto

lemma seg_head: "seg l p xs None \<Longrightarrow> p = head_ptr xs"
  by (cases xs) auto

lemma seg_hd: "seg l p xs r \<Longrightarrow> xs \<noteq> [] \<Longrightarrow> p = Some (hd xs)"
  by (cases xs) auto

lemma seg_None_iff [simp]: "seg l None xs None \<longleftrightarrow> xs = []"
  by (cases xs) auto

lemma seg_Some_Cons: "seg l (Some a) xs None \<Longrightarrow> \<exists>ys. xs = a # ys \<and> seg l (l a) ys None"
  by (cases xs) auto

lemma head_ptr_None [simp]: "head_ptr xs = None \<longleftrightarrow> xs = []"
  by (cases xs) auto

lemma head_ptr_append_Cons [simp]: "head_ptr (xs @ y # ys) = head_ptr (xs @ [y])"
  by (cases xs) auto

lemma last_ptr_Nil [simp]: "last_ptr [] = None"
  by (simp add: last_ptr_def)

lemma last_ptr_single [simp]: "last_ptr [x] = Some x"
  by (simp add: last_ptr_def)

lemma last_ptr_None [simp]: "last_ptr xs = None \<longleftrightarrow> xs = []"
  by (simp add: last_ptr_def)

lemma last_ptr_Some [simp]: "last_ptr xs = Some a \<longleftrightarrow> xs \<noteq> [] \<and> last xs = a"
  by (simp add: last_ptr_def)

lemma last_ptr_append [simp]: "ys \<noteq> [] \<Longrightarrow> last_ptr (xs @ ys) = last_ptr ys"
  by (simp add: last_ptr_def)

lemma last_ptr_Cons [simp]: "xs \<noteq> [] \<Longrightarrow> last_ptr (x # xs) = last_ptr xs"
  by (simp add: last_ptr_def)

text \<open>Relinking the last element of a segment moves its end.\<close>

lemma seg_snoc_upd:
  "x \<notin> set xs \<Longrightarrow> seg l p (xs @ [x]) r' \<Longrightarrow> seg (l(x := r)) p (xs @ [x]) r"
  by auto

lemma seg_relink_last:
  assumes "seg l p xs r'" and "xs \<noteq> []" and "distinct xs"
  shows "seg (l(last xs := r)) p xs r"
proof -
  obtain ys y where xs: "xs = ys @ [y]" using assms(2) by (cases xs rule: rev_cases) auto
  show ?thesis using assms unfolding xs by auto
qed

end
