(* ===== verification/Pktq.thy ===== *)
theory Pktq
  imports Pkt_Store
begin

text \<open>
  The multi-precedence packet queue of \<open>shared/hnd_pktq.c\<close> and \<open>include/hnd_pktq.h\<close>: the
  structures and every operation of the file on the packet store (\<open>Pktq_Refine\<close> relates them to
  lists of packets). The build is the one of the driver's makefiles, where
  \<open>HND_PKTQ_THREAD_SAFE\<close> is not defined: the mutex macros are the constant
  \<open>OSL_EXT_SUCCESS\<close>, so their early returns are not taken and the fullness tests are the
  header's macros. \<open>ASSERT\<close> expands to nothing there (\<open>include/linux_osl.h\<close>), so no operation
  checks its limits or its precedence: a full queue is appended to, and \<open>None\<close> (no outcome) is
  only an access outside the array of precedence queues or through a NULL or freed packet.
\<close>

section \<open>Data\<close>

record pktq_prec =
  qp_head :: pkt_ptr
  qp_tail :: pkt_ptr
  qp_len :: u16
  qp_max :: u16

text \<open>
  \<open>struct pktq\<close>, and \<open>struct spktq\<close>, which has the same common part and one precedence: the
  code casts between the two. \<open>pq_q\<close> is the array of precedence queues.
\<close>

record pktq =
  num_prec :: u16
  hi_prec :: u16
  pq_max :: u16
  pq_len :: u16
  pq_q :: "pktq_prec list"

type_synonym spktq = pktq

abbreviation (input) PKTQ_MAX_PREC :: nat where "PKTQ_MAX_PREC \<equiv> 16"

text \<open>A packet filter \<open>ifpkt_cb_t\<close>; NULL (\<open>None\<close>) accepts every packet.\<close>

type_synonym ifpkt_cb = "(pkt \<Rightarrow> int \<Rightarrow> bool) option"

definition cb_match :: "ifpkt_cb \<Rightarrow> int \<Rightarrow> pkt \<Rightarrow> bool" where
  "cb_match fn arg p = (case fn of None \<Rightarrow> True | Some f \<Rightarrow> f p arg)"

definition prec_ok :: "pktq \<Rightarrow> int \<Rightarrow> bool" where
  "prec_ok pq prec \<longleftrightarrow> 0 \<le> prec \<and> prec < uint (num_prec pq)"

definition get_q :: "pktq \<Rightarrow> int \<Rightarrow> pktq_prec option" where
  "get_q pq prec = (if 0 \<le> prec then arr_get (pq_q pq) (nat prec) else None)"

definition put_q :: "pktq \<Rightarrow> int \<Rightarrow> pktq_prec \<Rightarrow> pktq" where
  "put_q pq prec q = pq\<lparr>pq_q := (pq_q pq)[nat prec := q]\<rparr>"

definition pktq_full :: "pktq \<Rightarrow> bool" where
  "pktq_full pq \<longleftrightarrow> pq_max pq \<le> pq_len pq"

definition pktq_pfull :: "pktq \<Rightarrow> int \<Rightarrow> bool option" where
  "pktq_pfull pq prec = do { q \<leftarrow> get_q pq prec; Some (qp_max q \<le> qp_len q) }"

definition pktq_avail :: "pktq \<Rightarrow> int" where
  "pktq_avail pq = uint (pq_max pq) - uint (pq_len pq)"

definition pktq_pavail :: "pktq \<Rightarrow> int \<Rightarrow> int option" where
  "pktq_pavail pq prec =
     do { q \<leftarrow> get_q pq prec; Some (uint (qp_max q) - uint (qp_len q)) }"

text \<open>\<open>if (pq->hi_prec < prec) pq->hi_prec = (uint8)prec;\<close>\<close>

definition raise_hi :: "pktq \<Rightarrow> int \<Rightarrow> pktq" where
  "raise_hi pq prec =
     (if uint (hi_prec pq) < prec
      then pq\<lparr>hi_prec := ucast (word_of_int prec :: u8)\<rparr> else pq)"

section \<open>Operations on one precedence\<close>

text \<open>\<open>if (q->head) PKTSETLINK(q->tail, p); else q->head = p;\<close>\<close>

definition link_tail ::
  "pkt_store \<Rightarrow> pktq_prec \<Rightarrow> pkt_ptr \<Rightarrow> (pkt_store \<times> pktq_prec) option" where
  "link_tail s q p =
     (if qp_head q \<noteq> None
      then do { s \<leftarrow> PKTSETLINK s (qp_tail q) p; Some (s, q) }
      else Some (s, q\<lparr>qp_head := p\<rparr>))"

definition pktq_penq ::
  "pkt_store \<Rightarrow> pktq \<Rightarrow> int \<Rightarrow> pkt_ptr \<Rightarrow> (pkt_store \<times> pktq \<times> pkt_ptr) option" where
  "pktq_penq s pq prec p = do {
     q \<leftarrow> get_q pq prec;
     (s, q) \<leftarrow> link_tail s q p;
     let q = q\<lparr>qp_tail := p, qp_len := qp_len q + 1\<rparr>;
     let pq = (put_q pq prec q)\<lparr>pq_len := pq_len pq + 1\<rparr>;
     Some (s, raise_hi pq prec, p)
   }"

definition pktq_penq_head ::
  "pkt_store \<Rightarrow> pktq \<Rightarrow> int \<Rightarrow> pkt_ptr \<Rightarrow> (pkt_store \<times> pktq \<times> pkt_ptr) option" where
  "pktq_penq_head s pq prec p = do {
     q \<leftarrow> get_q pq prec;
     let q = (if qp_head q = None then q\<lparr>qp_tail := p\<rparr> else q);
     s \<leftarrow> PKTSETLINK s p (qp_head q);
     let q = q\<lparr>qp_head := p, qp_len := qp_len q + 1\<rparr>;
     let pq = (put_q pq prec q)\<lparr>pq_len := pq_len pq + 1\<rparr>;
     Some (s, raise_hi pq prec, p)
   }"

text \<open>The list argument of append and prepend is emptied when its packets move.\<close>

definition spktq_clear :: "spktq \<Rightarrow> pktq_prec \<Rightarrow> spktq" where
  "spktq_clear list list_q =
     (put_q list 0 (list_q\<lparr>qp_head := None, qp_tail := None, qp_len := 0\<rparr>))\<lparr>pq_len := 0\<rparr>"

definition pktq_append ::
  "pkt_store \<Rightarrow> pktq \<Rightarrow> int \<Rightarrow> spktq \<Rightarrow> (pkt_store \<times> pktq \<times> spktq) option" where
  "pktq_append s pq prec list = do {
     list_q \<leftarrow> get_q list 0;
     if qp_head list_q = None then Some (s, pq, list)
     else do {
       q \<leftarrow> get_q pq prec;
       (s, q) \<leftarrow> link_tail s q (qp_head list_q);
       let q = q\<lparr>qp_tail := qp_tail list_q, qp_len := qp_len q + qp_len list_q\<rparr>;
       let pq = (put_q pq prec q)\<lparr>pq_len := pq_len pq + qp_len list_q\<rparr>;
       Some (s, raise_hi pq prec, spktq_clear list list_q)
     }
   }"

definition pktq_prepend ::
  "pkt_store \<Rightarrow> pktq \<Rightarrow> int \<Rightarrow> spktq \<Rightarrow> (pkt_store \<times> pktq \<times> spktq) option" where
  "pktq_prepend s pq prec list = do {
     list_q \<leftarrow> get_q list 0;
     if qp_head list_q = None then Some (s, pq, list)
     else do {
       q \<leftarrow> get_q pq prec;
       s \<leftarrow> PKTSETLINK s (qp_tail list_q) (qp_head q);
       let q = q\<lparr>qp_head := qp_head list_q\<rparr>;
       let q = (if qp_tail q = None then q\<lparr>qp_tail := qp_tail list_q\<rparr> else q);
       let q = q\<lparr>qp_len := qp_len q + qp_len list_q\<rparr>;
       let pq = (put_q pq prec q)\<lparr>pq_len := pq_len pq + qp_len list_q\<rparr>;
       Some (s, raise_hi pq prec, spktq_clear list list_q)
     }
   }"

text \<open>
  Unlinking the head \<open>p\<close> of precedence \<open>prec\<close>: the shared tail of \<open>pktq_pdeq\<close>, \<open>pktq_deq\<close> and
  \<open>pktq_mdeq\<close>.
\<close>

definition unlink_head ::
  "pkt_store \<Rightarrow> pktq \<Rightarrow> int \<Rightarrow> pktq_prec \<Rightarrow> pkt_ptr \<Rightarrow> (pkt_store \<times> pktq) option" where
  "unlink_head s pq prec q p = do {
     l \<leftarrow> PKTLINK s p;
     let q = q\<lparr>qp_head := l\<rparr>;
     let q = (if l = None then q\<lparr>qp_tail := None\<rparr> else q);
     let q = q\<lparr>qp_len := qp_len q - 1\<rparr>;
     let pq = (put_q pq prec q)\<lparr>pq_len := pq_len pq - 1\<rparr>;
     s \<leftarrow> PKTSETLINK s p None;
     Some (s, pq)
   }"

definition pktq_pdeq ::
  "pkt_store \<Rightarrow> pktq \<Rightarrow> int \<Rightarrow> (pkt_store \<times> pktq \<times> pkt_ptr) option" where
  "pktq_pdeq s pq prec = do {
     q \<leftarrow> get_q pq prec;
     let p = qp_head q;
     if p = None then Some (s, pq, None)
     else do { (s, pq) \<leftarrow> unlink_head s pq prec q p; Some (s, pq, p) }
   }"

definition pktq_pdeq_prev ::
  "pkt_store \<Rightarrow> pktq \<Rightarrow> int \<Rightarrow> pkt_ptr \<Rightarrow> (pkt_store \<times> pktq \<times> pkt_ptr) option" where
  "pktq_pdeq_prev s pq prec prev_p = do {
     q \<leftarrow> get_q pq prec;
     if prev_p = None then Some (s, pq, None)
     else do {
       p \<leftarrow> PKTLINK s prev_p;
       if p = None then Some (s, pq, None)
       else do {
         let q = q\<lparr>qp_len := qp_len q - 1\<rparr>;
         let pq = (put_q pq prec q)\<lparr>pq_len := pq_len pq - 1\<rparr>;
         l \<leftarrow> PKTLINK s p;
         s \<leftarrow> PKTSETLINK s prev_p l;
         s \<leftarrow> PKTSETLINK s p None;
         Some (s, pq, p)
       }
     }
   }"

text \<open>The search loop of \<open>pktq_pdeq_with_fn\<close>: the matching packet and the one before it.\<close>

partial_function (option) find_match ::
  "pkt_store \<Rightarrow> ifpkt_cb \<Rightarrow> int \<Rightarrow> pkt_ptr \<Rightarrow> pkt_ptr \<Rightarrow> (pkt_ptr \<times> pkt_ptr) option" where
  "find_match s fn arg prev p =
     (case p of None \<Rightarrow> Some (prev, None)
      | Some a \<Rightarrow>
          if cb_match fn arg a then Some (prev, Some a)
          else do { p' \<leftarrow> PKTLINK s (Some a); find_match s fn arg (Some a) p' })"

definition pktq_pdeq_with_fn ::
  "pkt_store \<Rightarrow> pktq \<Rightarrow> int \<Rightarrow> ifpkt_cb \<Rightarrow> int \<Rightarrow> (pkt_store \<times> pktq \<times> pkt_ptr) option" where
  "pktq_pdeq_with_fn s pq prec fn arg = do {
     q \<leftarrow> get_q pq prec;
     (prev, p) \<leftarrow> find_match s fn arg None (qp_head q);
     if p = None then Some (s, pq, None)
     else do {
       (s, q) \<leftarrow> (if prev = None
                 then do {
                   l \<leftarrow> PKTLINK s p;
                   let q = q\<lparr>qp_head := l\<rparr>;
                   Some (s, if l = None then q\<lparr>qp_tail := None\<rparr> else q)
                 }
                 else do {
                   l \<leftarrow> PKTLINK s p;
                   s \<leftarrow> PKTSETLINK s prev l;
                   Some (s, if qp_tail q = p then q\<lparr>qp_tail := prev\<rparr> else q)
                 });
       let q = q\<lparr>qp_len := qp_len q - 1\<rparr>;
       let pq = (put_q pq prec q)\<lparr>pq_len := pq_len pq - 1\<rparr>;
       s \<leftarrow> PKTSETLINK s p None;
       Some (s, pq, p)
     }
   }"

text \<open>\<open>for (prev = NULL; p != q->tail; p = PKTLINK(p)) prev = p;\<close>\<close>

partial_function (option) find_tail ::
  "pkt_store \<Rightarrow> pkt_ptr \<Rightarrow> pkt_ptr \<Rightarrow> pkt_ptr \<Rightarrow> (pkt_ptr \<times> pkt_ptr) option" where
  "find_tail s tail prev p =
     (if p = tail then Some (prev, p)
      else do { p' \<leftarrow> PKTLINK s p; find_tail s tail p p' })"

text \<open>The shared body of \<open>pktq_pdeq_tail\<close> and \<open>pktq_deq_tail\<close> once the precedence is chosen.\<close>

definition unlink_tail ::
  "pkt_store \<Rightarrow> pktq \<Rightarrow> int \<Rightarrow> pktq_prec \<Rightarrow> (pkt_store \<times> pktq \<times> pkt_ptr) option" where
  "unlink_tail s pq prec q = do {
     (prev, p) \<leftarrow> find_tail s (qp_tail q) None (qp_head q);
     (s, q) \<leftarrow> (if prev \<noteq> None
               then do { s \<leftarrow> PKTSETLINK s prev None; Some (s, q) }
               else Some (s, q\<lparr>qp_head := None\<rparr>));
     let q = q\<lparr>qp_tail := prev, qp_len := qp_len q - 1\<rparr>;
     let pq = (put_q pq prec q)\<lparr>pq_len := pq_len pq - 1\<rparr>;
     Some (s, pq, p)
   }"

definition pktq_pdeq_tail ::
  "pkt_store \<Rightarrow> pktq \<Rightarrow> int \<Rightarrow> (pkt_store \<times> pktq \<times> pkt_ptr) option" where
  "pktq_pdeq_tail s pq prec = do {
     q \<leftarrow> get_q pq prec;
     if qp_head q = None then Some (s, pq, None)
     else unlink_tail s pq prec q
   }"

text \<open>The loop of \<open>pktq_pflush\<close>.\<close>

partial_function (option) pflush_loop ::
  "pkt_store \<Rightarrow> pktq \<Rightarrow> int \<Rightarrow> ifpkt_cb \<Rightarrow> int \<Rightarrow> pkt_ptr \<Rightarrow> pkt_ptr \<Rightarrow>
     (pkt_store \<times> pktq) option" where
  "pflush_loop s pq prec fn arg prev p =
     (case p of None \<Rightarrow> Some (s, pq)
      | Some a \<Rightarrow>
          if cb_match fn arg a then do {
            q \<leftarrow> get_q pq prec;
            l \<leftarrow> PKTLINK s (Some a);
            (s1, q1) \<leftarrow> (if qp_head q = Some a
                      then Some (s, q\<lparr>qp_head := l\<rparr>)
                      else do { s1 \<leftarrow> PKTSETLINK s prev l; Some (s1, q) });
            s2 \<leftarrow> PKTSETLINK s1 (Some a) None;
            s3 \<leftarrow> PKTFREE s2 (Some a);
            p' \<leftarrow> (if qp_head q = Some a then Some (qp_head q1) else PKTLINK s3 prev);
            pflush_loop s3
              ((put_q pq prec (q1\<lparr>qp_len := qp_len q1 - 1\<rparr>))\<lparr>pq_len := pq_len pq - 1\<rparr>)
              prec fn arg prev p'
          }
          else do { p' \<leftarrow> PKTLINK s (Some a); pflush_loop s pq prec fn arg (Some a) p' })"

definition pktq_pflush ::
  "pkt_store \<Rightarrow> pktq \<Rightarrow> int \<Rightarrow> ifpkt_cb \<Rightarrow> int \<Rightarrow> (pkt_store \<times> pktq) option" where
  "pktq_pflush s pq prec fn arg = do {
     q \<leftarrow> get_q pq prec;
     (s, pq) \<leftarrow> pflush_loop s pq prec fn arg None (qp_head q);
     q \<leftarrow> get_q pq prec;
     if qp_head q = None
     then Some (s, put_q pq prec (q\<lparr>qp_tail := None\<rparr>))
     else Some (s, pq)
   }"

text \<open>\<open>for (p = q->head; p && PKTLINK(p) != pktbuf; p = PKTLINK(p));\<close>\<close>

partial_function (option) find_before ::
  "pkt_store \<Rightarrow> pkt_ptr \<Rightarrow> pkt_ptr \<Rightarrow> pkt_ptr option" where
  "find_before s pktbuf p =
     (case p of None \<Rightarrow> Some None
      | Some a \<Rightarrow> do {
          l \<leftarrow> PKTLINK s (Some a);
          if l = pktbuf then Some (Some a) else find_before s pktbuf l })"

definition pktq_pdel ::
  "pkt_store \<Rightarrow> pktq \<Rightarrow> pkt_ptr \<Rightarrow> int \<Rightarrow> (pkt_store \<times> pktq \<times> bool) option" where
  "pktq_pdel s pq pktbuf prec = do {
     if pktbuf = None then Some (s, pq, False)
     else do {
       q \<leftarrow> get_q pq prec;
       found \<leftarrow> (if qp_head q = pktbuf
                then do {
                  l \<leftarrow> PKTLINK s pktbuf;
                  let q = q\<lparr>qp_head := l\<rparr>;
                  Some (Some (s, if l = None then q\<lparr>qp_tail := None\<rparr> else q))
                }
                else do {
                  p \<leftarrow> find_before s pktbuf (qp_head q);
                  if p = None then Some None
                  else do {
                    l \<leftarrow> PKTLINK s pktbuf;
                    s \<leftarrow> PKTSETLINK s p l;
                    Some (Some (s, if qp_tail q = pktbuf then q\<lparr>qp_tail := p\<rparr> else q))
                  }
                });
       (case found of
          None \<Rightarrow> Some (s, pq, False)
        | Some (s, q) \<Rightarrow> do {
            let pq = (put_q pq prec (q\<lparr>qp_len := qp_len q - 1\<rparr>))\<lparr>pq_len := pq_len pq - 1\<rparr>;
            s \<leftarrow> PKTSETLINK s pktbuf None;
            Some (s, pq, True)
          })
     }
   }"

section \<open>Set-up\<close>

text \<open>Clearing more precedence queues than the array has leaves the structure: no outcome.\<close>

definition pktq_init :: "pktq \<Rightarrow> int \<Rightarrow> int \<Rightarrow> (pktq \<times> bool) option" where
  "pktq_init pq n max_len = do {
     let mx = (word_of_int max_len :: u16);
     let zero = \<lparr>qp_head = None, qp_tail = None, qp_len = 0, qp_max = mx\<rparr>;
     if 0 \<le> n \<and> n \<le> int (length (pq_q pq))
     then Some (\<lparr>num_prec = word_of_int n, hi_prec = 0, pq_max = mx, pq_len = 0,
                 pq_q = replicate (nat n) zero @ drop (nat n) (pq_q pq)\<rparr>, True)
     else None
   }"

definition pktq_deinit :: "pktq \<Rightarrow> bool" where
  "pktq_deinit pq = True"

definition pktq_set_max_plen :: "pktq \<Rightarrow> int \<Rightarrow> int \<Rightarrow> pktq option" where
  "pktq_set_max_plen pq prec max_len = do {
     if prec < uint (num_prec pq)
     then do { q \<leftarrow> get_q pq prec; Some (put_q pq prec (q\<lparr>qp_max := word_of_int max_len\<rparr>)) }
     else Some pq
   }"

section \<open>Operations on all precedences\<close>

text \<open>\<open>while ((prec = pq->hi_prec) > 0 && pq->q[prec].head == NULL) pq->hi_prec--;\<close>\<close>

function settle_hi :: "pktq \<Rightarrow> pktq option" where
  "settle_hi pq =
     (if 0 < hi_prec pq
      then (case arr_get (pq_q pq) (unat (hi_prec pq)) of
              None \<Rightarrow> None
            | Some q \<Rightarrow>
                if qp_head q = None then settle_hi (pq\<lparr>hi_prec := hi_prec pq - 1\<rparr>)
                else Some pq)
      else Some pq)"
  by pat_completeness auto
termination
proof (relation "measure (\<lambda>pq. unat (hi_prec pq))")
  fix pq :: pktq
  assume "0 < hi_prec pq"
  then have "0 < unat (hi_prec pq)" by (simp add: word_greater_zero_iff unat_gt_0)
  then show "(pq\<lparr>hi_prec := hi_prec pq - 1\<rparr>, pq) \<in> measure (\<lambda>pq. unat (hi_prec pq))"
    by (simp add: unat_dec)
qed simp

text \<open>
  The result of a dequeue or peek: the packet, and the precedence stored through \<open>prec_out\<close>
  where the code stores one.
\<close>

definition pktq_deq ::
  "pkt_store \<Rightarrow> pktq \<Rightarrow> (pkt_store \<times> pktq \<times> pkt_ptr \<times> int option) option" where
  "pktq_deq s pq =
     (if pq_len pq = 0 then Some (s, pq, None, None)
      else do {
        pq \<leftarrow> settle_hi pq;
        let prec = uint (hi_prec pq);
        q \<leftarrow> get_q pq prec;
        let p = qp_head q;
        if p = None then Some (s, pq, None, None)
        else do { (s, pq) \<leftarrow> unlink_head s pq prec q p; Some (s, pq, p, Some prec) }
      })"

text \<open>\<open>for (prec = 0; prec < pq->hi_prec; prec++) if (pq->q[prec].head) break;\<close>\<close>

function first_used :: "pktq \<Rightarrow> nat \<Rightarrow> nat option" where
  "first_used pq prec =
     (if prec < unat (hi_prec pq)
      then (case arr_get (pq_q pq) prec of
              None \<Rightarrow> None
            | Some q \<Rightarrow> if qp_head q \<noteq> None then Some prec else first_used pq (Suc prec))
      else Some prec)"
  by pat_completeness auto
termination
  by (relation "measure (\<lambda>(pq, prec). unat (hi_prec pq) - prec)") auto

definition pktq_deq_tail ::
  "pkt_store \<Rightarrow> pktq \<Rightarrow> (pkt_store \<times> pktq \<times> pkt_ptr \<times> int option) option" where
  "pktq_deq_tail s pq =
     (if pq_len pq = 0 then Some (s, pq, None, None)
      else do {
        prec \<leftarrow> first_used pq 0;
        q \<leftarrow> get_q pq (int prec);
        if qp_head q = None then Some (s, pq, None, None)
        else do {
          (s, pq, p) \<leftarrow> unlink_tail s pq (int prec) q;
          s \<leftarrow> PKTSETLINK s p None;
          Some (s, pq, p, Some (int prec))
        }
      })"

definition pktq_peek :: "pktq \<Rightarrow> (pktq \<times> pkt_ptr \<times> int option) option" where
  "pktq_peek pq =
     (if pq_len pq = 0 then Some (pq, None, None)
      else do {
        pq \<leftarrow> settle_hi pq;
        let prec = uint (hi_prec pq);
        q \<leftarrow> get_q pq prec;
        Some (pq, qp_head q, Some prec)
      })"

definition pktq_peek_tail :: "pktq \<Rightarrow> (pkt_ptr \<times> int option) option" where
  "pktq_peek_tail pq =
     (if pq_len pq = 0 then Some (None, None)
      else do {
        prec \<leftarrow> first_used pq 0;
        q \<leftarrow> get_q pq (int prec);
        Some (qp_tail q, Some (int prec))
      })"

text \<open>\<open>for (prec = 0; prec < pq->num_prec; prec++) pktq_pflush(...)\<close>, from \<open>prec\<close> for \<open>n\<close> rounds.\<close>

fun flush_loop ::
  "pkt_store \<Rightarrow> pktq \<Rightarrow> ifpkt_cb \<Rightarrow> int \<Rightarrow> int \<Rightarrow> nat \<Rightarrow> (pkt_store \<times> pktq) option" where
  "flush_loop s pq fn arg prec 0 = Some (s, pq)"
| "flush_loop s pq fn arg prec (Suc n) = do {
     (s, pq) \<leftarrow> pktq_pflush s pq prec fn arg;
     flush_loop s pq fn arg (prec + 1) n
   }"

definition pktq_flush ::
  "pkt_store \<Rightarrow> pktq \<Rightarrow> ifpkt_cb \<Rightarrow> int \<Rightarrow> (pkt_store \<times> pktq) option" where
  "pktq_flush s pq fn arg =
     (if pq_len pq = 0 then Some (s, pq)
      else do {
        (s, pq) \<leftarrow> flush_loop s pq fn arg 0 (unat (num_prec pq));
        Some (s, pq)
      })"

text \<open>\<open>for (prec = 0; prec <= pq->hi_prec; prec++)\<close> over the precedences of the bit mask.\<close>

fun mlen_loop :: "pktq \<Rightarrow> u32 \<Rightarrow> nat \<Rightarrow> nat \<Rightarrow> int \<Rightarrow> int option" where
  "mlen_loop pq prec_bmp prec 0 len = Some len"
| "mlen_loop pq prec_bmp prec (Suc n) len =
     (if bit prec_bmp prec
      then do {
        q \<leftarrow> arr_get (pq_q pq) prec;
        mlen_loop pq prec_bmp (Suc prec) n (len + uint (qp_len q))
      }
      else mlen_loop pq prec_bmp (Suc prec) n len)"

definition pktq_mlen :: "pktq \<Rightarrow> u32 \<Rightarrow> int option" where
  "pktq_mlen pq prec_bmp = mlen_loop pq prec_bmp 0 (Suc (unat (hi_prec pq))) 0"

text \<open>
  \<open>while ((prec_bmp & (1 << prec)) == 0 || pq->q[prec].head == NULL) if (prec-- == 0) goto done;\<close>
  where \<open>Some None\<close> is the jump to \<open>done\<close>.
\<close>

fun find_masked :: "pktq \<Rightarrow> u32 \<Rightarrow> nat \<Rightarrow> nat option option" where
  "find_masked pq prec_bmp prec =
     (case arr_get (pq_q pq) prec of
        None \<Rightarrow> None
      | Some q \<Rightarrow>
          if \<not> bit prec_bmp prec \<or> qp_head q = None
          then (if prec = 0 then Some None else find_masked pq prec_bmp (prec - 1))
          else Some (Some prec))"

definition pktq_mpeek :: "pktq \<Rightarrow> u32 \<Rightarrow> (pktq \<times> pkt_ptr \<times> int option) option" where
  "pktq_mpeek pq prec_bmp =
     (if pq_len pq = 0 then Some (pq, None, None)
      else do {
        pq \<leftarrow> settle_hi pq;
        found \<leftarrow> find_masked pq prec_bmp (unat (hi_prec pq));
        (case found of
           None \<Rightarrow> Some (pq, None, None)
         | Some prec \<Rightarrow> do {
             q \<leftarrow> get_q pq (int prec);
             if qp_head q = None then Some (pq, None, None)
             else Some (pq, qp_head q, Some (int prec))
           })
      })"

definition pktq_mdeq ::
  "pkt_store \<Rightarrow> pktq \<Rightarrow> u32 \<Rightarrow> (pkt_store \<times> pktq \<times> pkt_ptr \<times> int option) option" where
  "pktq_mdeq s pq prec_bmp =
     (if pq_len pq = 0 then Some (s, pq, None, None)
      else do {
        pq \<leftarrow> settle_hi pq;
        found \<leftarrow> find_masked pq prec_bmp (unat (hi_prec pq));
        (case found of
           None \<Rightarrow> Some (s, pq, None, None)
         | Some prec \<Rightarrow> do {
             q \<leftarrow> get_q pq (int prec);
             let p = qp_head q;
             if p = None then Some (s, pq, None, None)
             else do {
               (s, pq) \<leftarrow> unlink_head s pq (int prec) q p;
               Some (s, pq, p, Some (int prec))
             }
           })
      })"

declare settle_hi.simps [simp del] first_used.simps [simp del] find_masked.simps [simp del]

end
