(* ===== verification/Prio_Queue.thy ===== *)
theory Prio_Queue
  imports DHD_Prelude
begin

text \<open>
  The contract of a bounded queue with strict precedences, independent of its memory layout: the
  client's view is a list of lists, one per precedence. The clients' lemmas (a burst of enqueues is
  recorded in arrival order, a drain returns the higher precedences first and each precedence in
  arrival order) are proved here once from the laws, and hold for every implementation that is
  shown to satisfy them.
\<close>

section \<open>Precedences as a list of lists\<close>

text \<open>The highest non-empty precedence, and the lowest.\<close>

definition is_top :: "'a list list \<Rightarrow> nat \<Rightarrow> bool" where
  "is_top qs k \<longleftrightarrow> k < length qs \<and> qs ! k \<noteq> [] \<and> (\<forall>j < length qs. k < j \<longrightarrow> qs ! j = [])"

definition is_bottom :: "'a list list \<Rightarrow> nat \<Rightarrow> bool" where
  "is_bottom qs k \<longleftrightarrow> k < length qs \<and> qs ! k \<noteq> [] \<and> (\<forall>j < k. qs ! j = [])"

text \<open>What arrives at each precedence, and the order in which a strict-priority server serves it.\<close>

definition arrivals :: "(nat \<times> 'a) list \<Rightarrow> nat \<Rightarrow> 'a list" where
  "arrivals ps i = map snd (filter (\<lambda>(j, p). j = i) ps)"

definition service_order :: "'a list list \<Rightarrow> 'a list" where
  "service_order qs = concat (rev qs)"

lemma service_order_top:
  assumes "is_top qs k" and "qs ! k = p # xs"
  shows "service_order qs = p # service_order (qs[k := xs])"
proof -
  have k: "k < length qs" using assms(1) by (simp add: is_top_def)
  define as bs where "as = take k qs" and "bs = drop (Suc k) qs"
  have qs: "qs = as @ (p # xs) # bs" and upd: "qs[k := xs] = as @ xs # bs"
    using k assms(2) by (simp_all add: as_def bs_def id_take_nth_drop [symmetric] upd_conv_take_nth_drop)
      (metis id_take_nth_drop)
  have "\<forall>b \<in> set bs. b = []"
    using assms(1) by (auto simp: is_top_def bs_def in_set_conv_nth)
  then have "concat (rev bs) = []" by auto
  moreover have "service_order qs = concat (rev bs) @ (p # xs) @ concat (rev as)"
    by (simp add: service_order_def qs)
  moreover have "service_order (qs[k := xs]) = concat (rev bs) @ xs @ concat (rev as)"
    by (simp add: service_order_def upd)
  ultimately show ?thesis by (simp only: append.simps)
qed

lemma is_top_exists:
  assumes "\<exists>i < length qs. qs ! i \<noteq> []"
  shows "\<exists>k. is_top qs k"
proof -
  define S where "S = {i. i < length qs \<and> qs ! i \<noteq> []}"
  have fin: "finite S" and ne: "S \<noteq> {}" using assms by (auto simp: S_def)
  have "qs ! j = []" if "j < length qs" and "Max S < j" for j
  proof (rule ccontr)
    assume "qs ! j \<noteq> []"
    then have "j \<in> S" using that(1) by (simp add: S_def)
    then have "j \<le> Max S" by (rule Max_ge [OF fin])
    with that(2) show False by simp
  qed
  moreover have "Max S \<in> S" using fin ne by (rule Max_in)
  ultimately have "is_top qs (Max S)" unfolding is_top_def S_def by blast
  then show ?thesis by (rule exI)
qed

lemma service_order_length: "length (service_order qs) = sum_list (map length qs)"
  by (simp add: service_order_def length_concat rev_map [symmetric])

lemma service_order_Nil: "\<forall>i < length qs. qs ! i = [] \<Longrightarrow> service_order qs = []"
  by (auto simp: service_order_def in_set_conv_nth)

lemma arrivals_snoc_update:
  assumes "i < n"
  shows "(map (arrivals ps) [0..<n])[i := arrivals ps i @ [p]] = map (arrivals (ps @ [(i, p)])) [0..<n]"
  using assms by (intro nth_equalityI) (auto simp: arrivals_def nth_list_update)

lemma arrivals_lengths:
  "\<forall>(i, p) \<in> set ps. i < n \<Longrightarrow> sum_list (map length (map (arrivals ps) [0..<n])) = length ps"
proof (induction ps rule: rev_induct)
  case Nil
  then show ?case by (simp add: arrivals_def comp_def sum_list_0)
next
  case (snoc ip ps)
  obtain i p where ip: "ip = (i, p)" by (cases ip)
  have i: "i < n" using snoc.prems by (simp add: ip)
  let ?m = "map (arrivals ps) [0..<n]"
  have upd: "?m[i := ?m ! i @ [p]] = map (arrivals (ps @ [ip])) [0..<n]"
    using arrivals_snoc_update [OF i, of ps p] i by (simp add: ip)
  have "sum_list (map length (?m[i := ?m ! i @ [p]])) + length (?m ! i)
      = sum_list (map length ?m) + length (?m ! i @ [p])"
    using i by (intro sum_length_update) simp
  with snoc show ?case unfolding upd by simp
qed

lemma arrivals_set: "set (concat (map (arrivals ps) [0..<n])) \<subseteq> set (map snd ps)"
  by (auto simp: arrivals_def)

section \<open>Bursts and drains\<close>

text \<open>A client that enqueues a burst, and one that calls dequeue \<open>n\<close> times and keeps what it got.\<close>

fun enq_all :: "('st \<Rightarrow> nat \<Rightarrow> 'a \<Rightarrow> 'st option) \<Rightarrow> 'st \<Rightarrow> (nat \<times> 'a) list \<Rightarrow> 'st option" where
  "enq_all enq st [] = Some st"
| "enq_all enq st ((i, p) # ps) = do { st' \<leftarrow> enq st i p; enq_all enq st' ps }"

fun drain :: "('st \<Rightarrow> ('st \<times> 'a option) option) \<Rightarrow> nat \<Rightarrow> 'st \<Rightarrow> ('st \<times> 'a list) option" where
  "drain deq 0 st = Some (st, [])"
| "drain deq (Suc n) st = do {
     (st', r) \<leftarrow> deq st;
     (st'', ps) \<leftarrow> drain deq n st';
     Some (st'', case r of None \<Rightarrow> ps | Some p \<Rightarrow> p # ps)
   }"

lemma enq_all_append:
  "enq_all enq st (ps @ qs) = do { st' \<leftarrow> enq_all enq st ps; enq_all enq st' qs }"
  by (induction enq st ps rule: enq_all.induct) (auto split: Option.bind_splits)

section \<open>The contract\<close>

locale prio_queue =
  fixes rep :: "'st \<Rightarrow> 'a list list \<Rightarrow> bool"
    and cap :: "'st \<Rightarrow> nat"
    and fresh :: "'st \<Rightarrow> 'a \<Rightarrow> bool"
    and enq :: "'st \<Rightarrow> nat \<Rightarrow> 'a \<Rightarrow> 'st option"
    and deq :: "'st \<Rightarrow> ('st \<times> 'a option) option"
  assumes enq_law:
      "rep st qs \<Longrightarrow> i < length qs \<Longrightarrow> sum_list (map length qs) < cap st \<Longrightarrow> fresh st p \<Longrightarrow>
       p \<notin> set (concat qs) \<Longrightarrow>
       \<exists>st'. enq st i p = Some st' \<and> rep st' (qs[i := qs ! i @ [p]]) \<and> cap st' = cap st \<and>
             (\<forall>x. x \<notin> set (concat qs) \<longrightarrow> fresh st x \<longrightarrow> fresh st' x)"
    and deq_empty_law:
      "rep st qs \<Longrightarrow> \<forall>i < length qs. qs ! i = [] \<Longrightarrow> \<exists>st'. deq st = Some (st', None) \<and> rep st' qs"
    and deq_top_law:
      "rep st qs \<Longrightarrow> is_top qs k \<Longrightarrow> qs ! k = p # xs \<Longrightarrow>
       \<exists>st'. deq st = Some (st', Some p) \<and> rep st' (qs[k := xs]) \<and> cap st' = cap st"
begin

lemma enq_all_arrivals:
  assumes "rep st (replicate n [])" and "distinct (map snd ps)" and "\<forall>(i, p) \<in> set ps. i < n \<and> fresh st p"
    and "length ps \<le> cap st"
  shows "\<exists>st'. enq_all enq st ps = Some st' \<and> rep st' (map (arrivals ps) [0..<n]) \<and> cap st' = cap st \<and>
           (\<forall>x. x \<notin> set (map snd ps) \<longrightarrow> fresh st x \<longrightarrow> fresh st' x)"
  using assms
proof (induction ps rule: rev_induct)
  case Nil
  have "map (arrivals ([] :: (nat \<times> 'a) list)) [0..<n] = replicate n []"
    by (intro nth_equalityI) (simp_all add: arrivals_def)
  with Nil(1) have "rep st (map (arrivals []) [0..<n])" by simp
  then show ?case by simp
next
  case (snoc ip ps)
  obtain i p where ip: "ip = (i, p)" by (cases ip)
  have i: "i < n" and p: "fresh st p" and new: "p \<notin> set (map snd ps)"
    using snoc.prems by (auto simp: ip)
  obtain st1 where st1: "enq_all enq st ps = Some st1" "rep st1 (map (arrivals ps) [0..<n])"
      "cap st1 = cap st" and keep: "\<And>x. x \<notin> set (map snd ps) \<Longrightarrow> fresh st x \<Longrightarrow> fresh st1 x"
    using snoc by (auto simp: ip)
  let ?qs = "map (arrivals ps) [0..<n]"
  have notin: "p \<notin> set (concat ?qs)" using new arrivals_set [of ps n] by blast
  have "\<forall>(i, p) \<in> set ps. i < n" using snoc.prems(3) by auto
  then have room: "sum_list (map length ?qs) < cap st1"
    using arrivals_lengths [of ps n] snoc.prems(4) st1(3) by (simp del: map_map)
  obtain st2 where st2: "enq st1 i p = Some st2" "rep st2 (?qs[i := ?qs ! i @ [p]])" "cap st2 = cap st1"
      and keep2: "\<forall>x. x \<notin> set (concat ?qs) \<longrightarrow> fresh st1 x \<longrightarrow> fresh st2 x"
    using enq_law [OF st1(2) _ room keep [OF new p] notin, of i] i by auto
  have "fresh st2 x" if "x \<notin> set (map snd (ps @ [ip]))" and "fresh st x" for x
    using that keep [of x] keep2 arrivals_set [of ps n] by (auto simp: ip)
  then show ?case
    using st1 st2 i arrivals_snoc_update [OF i, of ps p]
    by (simp add: ip enq_all_append)
qed

lemma drain_service_order:
  "rep st qs \<Longrightarrow> n = length (service_order qs) \<Longrightarrow>
   \<exists>st'. drain deq n st = Some (st', service_order qs) \<and> rep st' (replicate (length qs) []) \<and>
         (n = 0 \<or> cap st' = cap st)"
proof (induction n arbitrary: st qs)
  case 0
  then have "\<forall>i < length qs. qs ! i = []"
    by (simp add: service_order_def)
  then have "qs = replicate (length qs) []" by (intro nth_equalityI) auto
  with 0 show ?case by auto
next
  case (Suc n)
  then have "\<exists>i < length qs. qs ! i \<noteq> []"
    using service_order_Nil [of qs] by (metis Zero_neq_Suc list.size(3))
  then obtain k where k: "is_top qs k" using is_top_exists by blast
  then obtain p xs where px: "qs ! k = p # xs" by (auto simp: is_top_def neq_Nil_conv)
  obtain st1 where st1: "deq st = Some (st1, Some p)" "rep st1 (qs[k := xs])" "cap st1 = cap st"
    using deq_top_law [OF Suc.prems(1) k px] by auto
  have so: "service_order qs = p # service_order (qs[k := xs])" by (rule service_order_top [OF k px])
  obtain st2 where "drain deq n st1 = Some (st2, service_order (qs[k := xs]))"
      "rep st2 (replicate (length qs) [])" "n = 0 \<or> cap st2 = cap st1"
    using Suc.IH [OF st1(2)] Suc.prems(2) so by auto
  with st1 so show ?case by auto
qed

text \<open>A burst into an empty queue followed by a drain is a stable sort by falling precedence.\<close>

lemma burst_then_drain:
  assumes "rep st (replicate n [])" and "distinct (map snd ps)" and "\<forall>(i, p) \<in> set ps. i < n \<and> fresh st p"
    and "length ps \<le> cap st"
  shows "\<exists>st1 st2. enq_all enq st ps = Some st1 \<and>
           drain deq (length ps) st1 = Some (st2, concat (map (arrivals ps) (rev [0..<n]))) \<and>
           rep st2 (replicate n [])"
proof -
  obtain st1 where st1: "enq_all enq st ps = Some st1" "rep st1 (map (arrivals ps) [0..<n])"
    using enq_all_arrivals [OF assms] by auto
  have "length ps = length (service_order (map (arrivals ps) [0..<n]))"
    using assms(3) by (simp add: service_order_length arrivals_lengths [of ps n] split_beta del: map_map)
  then show ?thesis
    using drain_service_order [OF st1(2)] st1(1) by (auto simp: service_order_def rev_map)
qed

end

end
