(* ===== verification/Pktq_Refine.thy ===== *)
theory Pktq_Refine
  imports Pktq Prio_Queue
begin

text \<open>
  The packet queue implements lists of packets. \<open>pktq_rep s pq qs\<close> says that the linked
  structure \<open>pq\<close> in the store \<open>s\<close> represents the list of queues \<open>qs\<close>, one per precedence, with
  every length counter exact, every tail pointer at the last packet, no packet on two queues, no
  freed packet reachable and \<open>hi_prec\<close> an upper bound of the non-empty precedences (the comment
  of \<open>hnd_pktq.c\<close>). Each operation is shown to return and to act on \<open>qs\<close> as the list operation
  it stands for.
\<close>

section \<open>The representation relation\<close>

definition prec_rep :: "pkt_store \<Rightarrow> pktq_prec \<Rightarrow> pkt list \<Rightarrow> bool" where
  "prec_rep s q xs \<longleftrightarrow>
     seg (plink s) (qp_head q) xs None \<and> qp_tail q = last_ptr xs \<and> distinct xs \<and>
     unat (qp_len q) = length xs \<and> set xs \<inter> set (pfreed s) = {}"

definition pktq_rep :: "pkt_store \<Rightarrow> pktq \<Rightarrow> pkt list list \<Rightarrow> bool" where
  "pktq_rep s pq qs \<longleftrightarrow>
     length qs = unat (num_prec pq) \<and> length qs \<le> length (pq_q pq) \<and>
     0 < length qs \<and> length qs \<le> PKTQ_MAX_PREC \<and>
     (\<forall>i < length qs. prec_rep s (pq_q pq ! i) (qs ! i)) \<and>
     (\<forall>i < length qs. \<forall>j < length qs. i \<noteq> j \<longrightarrow> set (qs ! i) \<inter> set (qs ! j) = {}) \<and>
     unat (pq_len pq) = sum_list (map length qs) \<and>
     unat (hi_prec pq) < length qs \<and>
     (\<forall>i < length qs. unat (hi_prec pq) < i \<longrightarrow> qs ! i = [])"

text \<open>What no operation changes: the number of precedences and the limits.\<close>

definition same_limits :: "pktq \<Rightarrow> pktq \<Rightarrow> bool" where
  "same_limits pq pq' \<longleftrightarrow>
     num_prec pq' = num_prec pq \<and> pq_max pq' = pq_max pq \<and>
     map qp_max (pq_q pq') = map qp_max (pq_q pq)"

lemma same_limits_refl [simp]: "same_limits pq pq"
  by (simp add: same_limits_def)

lemma same_limits_trans: "same_limits a b \<Longrightarrow> same_limits b c \<Longrightarrow> same_limits a c"
  by (simp add: same_limits_def)

lemma same_limits_upd:
  assumes "qp_max q' = qp_max (pq_q pq ! i)"
  shows "same_limits pq (pq\<lparr>pq_q := (pq_q pq)[i := q'], pq_len := l, hi_prec := h\<rparr>)"
proof -
  have "(map qp_max (pq_q pq))[i := qp_max (pq_q pq ! i)] = map qp_max (pq_q pq)"
    by (metis list_update_id map_update)
  with assms show ?thesis by (simp add: same_limits_def map_update)
qed

lemma pktq_repD:
  assumes "pktq_rep s pq qs" and "i < length qs"
  shows "prec_rep s (pq_q pq ! i) (qs ! i)" and "i < length (pq_q pq)"
    and "prec_ok pq (int i)" and "get_q pq (int i) = Some (pq_q pq ! i)"
    and "i < unat (num_prec pq)" and "i < 16"
    and "length (qs ! i) \<le> unat (pq_len pq)"
  using assms nth_length_le_sum [OF assms(2)]
  by (simp_all add: pktq_rep_def prec_ok_def get_q_def)

lemma pktq_rep_not_freed:
  "pktq_rep s pq qs \<Longrightarrow> i < length qs \<Longrightarrow> x \<in> set (qs ! i) \<Longrightarrow> x \<notin> set (pfreed s)"
  by (auto simp: pktq_rep_def prec_rep_def)

lemma prec_rep_head: "prec_rep s q xs \<Longrightarrow> qp_head q = head_ptr xs"
  by (auto simp: prec_rep_def dest: seg_head)

lemma prec_rep_empty: "prec_rep s q xs \<Longrightarrow> qp_head q = None \<longleftrightarrow> xs = []"
  by (simp add: prec_rep_head)

lemma prec_rep_frame:
  assumes "prec_rep s q xs"
    and "\<And>x. x \<in> set xs \<Longrightarrow> plink s' x = plink s x"
    and "set xs \<inter> set (pfreed s') = {}"
  shows "prec_rep s' q xs"
  using assms seg_cong [of xs "plink s'" "plink s"] by (auto simp: prec_rep_def)

text \<open>Replacing one precedence: the one lemma behind every refinement below.\<close>

lemma pktq_rep_upd:
  assumes rep: "pktq_rep s pq qs" and i: "i < length qs"
    and q': "prec_rep s' q' ys"
    and frame: "\<And>j x. j < length qs \<Longrightarrow> j \<noteq> i \<Longrightarrow> x \<in> set (qs ! j) \<Longrightarrow>
                  plink s' x = plink s x \<and> x \<notin> set (pfreed s') \<and> x \<notin> set ys"
    and len: "unat l + length (qs ! i) = unat (pq_len pq) + length ys"
    and hi: "unat h < length qs"
    and above: "\<And>j. j < length qs \<Longrightarrow> unat h < j \<Longrightarrow> (qs[i := ys]) ! j = []"
  shows "pktq_rep s' (pq\<lparr>pq_q := (pq_q pq)[i := q'], pq_len := l, hi_prec := h\<rparr>) (qs[i := ys])"
proof -
  have other: "prec_rep s' (pq_q pq ! j) (qs ! j)" if "j < length qs" "j \<noteq> i" for j
    using prec_rep_frame [OF pktq_repD(1) [OF rep that(1)]] frame [OF that] by blast
  have reps: "\<forall>j < length qs. prec_rep s' ((pq_q pq)[i := q'] ! j) (qs[i := ys] ! j)"
    using other q' pktq_repD(2) [OF rep i] i by (auto simp: nth_list_update)
  have disj: "\<forall>j < length qs. \<forall>k < length qs. j \<noteq> k \<longrightarrow>
      set (qs[i := ys] ! j) \<inter> set (qs[i := ys] ! k) = {}"
  proof (intro allI impI)
    fix j k assume jk: "j < length qs" "k < length qs" "j \<noteq> k"
    then have "set (qs ! j) \<inter> set (qs ! k) = {}"
      using rep unfolding pktq_rep_def by blast
    moreover have "set ys \<inter> set (qs ! j) = {}" if "j \<noteq> i" using frame [OF jk(1) that] by blast
    moreover have "set ys \<inter> set (qs ! k) = {}" if "k \<noteq> i" using frame [OF jk(2) that] by blast
    ultimately show "set (qs[i := ys] ! j) \<inter> set (qs[i := ys] ! k) = {}"
      using jk i by (auto simp: nth_list_update)
  qed
  have "unat l = sum_list (map length (qs[i := ys]))"
    using len sum_length_update [OF i, of ys] rep by (simp add: pktq_rep_def)
  then show ?thesis
    using rep reps disj hi above unfolding pktq_rep_def by simp
qed

lemmas pktq_rep_upd_same = pktq_rep_upd [where h = "hi_prec pq" for pq]

lemma pktq_rep_hi: "pktq_rep s pq qs \<Longrightarrow> unat (hi_prec pq) < length qs"
  by (simp add: pktq_rep_def)

lemma pktq_rep_above:
  "pktq_rep s pq qs \<Longrightarrow> j < length qs \<Longrightarrow> unat (hi_prec pq) < j \<Longrightarrow> qs ! j = []"
  by (simp add: pktq_rep_def)

lemma pktq_rep_disjoint:
  "pktq_rep s pq qs \<Longrightarrow> i < length qs \<Longrightarrow> j < length qs \<Longrightarrow> i \<noteq> j \<Longrightarrow>
     x \<in> set (qs ! i) \<Longrightarrow> x \<notin> set (qs ! j)"
  unfolding pktq_rep_def by blast

lemma unat_prec_byte: "i < 16 \<Longrightarrow> unat (ucast (word_of_int (int i) :: u8) :: u16) = i"
  by (simp add: unsigned_ucast_eq unat_of_nat take_bit_nat_eq_self_iff)

text \<open>The last steps of every enqueue: store the queue, raise the length, raise \<open>hi_prec\<close>.\<close>

lemma raise_hi_put:
  "raise_hi ((put_q pq (int i) q')\<lparr>pq_len := l\<rparr>) (int i)
     = pq\<lparr>pq_q := (pq_q pq)[i := q'], pq_len := l,
          hi_prec := (if unat (hi_prec pq) < i
                      then ucast (word_of_int (int i) :: u8) else hi_prec pq)\<rparr>"
  by (simp add: raise_hi_def put_q_def)

lemma put_len:
  "(put_q pq (int i) q')\<lparr>pq_len := l\<rparr>
     = pq\<lparr>pq_q := (pq_q pq)[i := q'], pq_len := l, hi_prec := hi_prec pq\<rparr>"
  by (simp add: put_q_def)

lemma pktq_rep_raise:
  assumes rep: "pktq_rep s pq qs" and i: "i < length qs"
    and q': "prec_rep s' q' ys"
    and frame: "\<And>j x. j < length qs \<Longrightarrow> j \<noteq> i \<Longrightarrow> x \<in> set (qs ! j) \<Longrightarrow>
                  plink s' x = plink s x \<and> x \<notin> set (pfreed s') \<and> x \<notin> set ys"
    and len: "unat l + length (qs ! i) = unat (pq_len pq) + length ys"
  shows "pktq_rep s' (raise_hi ((put_q pq (int i) q')\<lparr>pq_len := l\<rparr>) (int i)) (qs[i := ys])"
  unfolding raise_hi_put
proof (rule pktq_rep_upd [OF rep i q' _ len])
  show "plink s' x = plink s x \<and> x \<notin> set (pfreed s') \<and> x \<notin> set ys"
    if "j < length qs" "j \<noteq> i" "x \<in> set (qs ! j)" for j x
    using that by (rule frame)
  let ?h = "if unat (hi_prec pq) < i then ucast (word_of_int (int i) :: u8) else hi_prec pq"
  show "unat ?h < length qs"
    using i pktq_rep_hi [OF rep] unat_prec_byte [OF pktq_repD(6) [OF rep i]] by simp
  show "(qs[i := ys]) ! j = []" if "j < length qs" "unat ?h < j" for j
    using that pktq_rep_above [OF rep, of j] unat_prec_byte [OF pktq_repD(6) [OF rep i]]
    by (auto split: if_splits)
qed

lemma pktq_rep_keep:
  assumes rep: "pktq_rep s pq qs" and i: "i < length qs"
    and q': "prec_rep s' q' ys"
    and frame: "\<And>j x. j < length qs \<Longrightarrow> j \<noteq> i \<Longrightarrow> x \<in> set (qs ! j) \<Longrightarrow>
                  plink s' x = plink s x \<and> x \<notin> set (pfreed s') \<and> x \<notin> set ys"
    and len: "unat l + length (qs ! i) = unat (pq_len pq) + length ys"
    and sub: "qs ! i = [] \<Longrightarrow> ys = []"
  shows "pktq_rep s' ((put_q pq (int i) q')\<lparr>pq_len := l\<rparr>) (qs[i := ys])"
  unfolding put_len
  using pktq_rep_above [OF rep] sub i
  by (intro pktq_rep_upd [OF rep i q' frame len pktq_rep_hi [OF rep]])
     (auto simp: nth_list_update)

section \<open>Enqueueing\<close>

text \<open>Linking the chain \<open>h\<close> of packets \<open>ys\<close> behind a queue.\<close>

lemma link_tail_rep:
  assumes q: "prec_rep s q xs" and h: "seg (plink s) h ys None" and ne: "ys \<noteq> []"
    and ys: "distinct ys" "set xs \<inter> set ys = {}" "set ys \<inter> set (pfreed s) = {}"
    and k: "unat k = length ys" and fits: "length xs + length ys < 2 ^ 16"
  obtains s' q' where "link_tail s q h = Some (s', q')"
    and "prec_rep s' (q'\<lparr>qp_tail := last_ptr ys, qp_len := qp_len q' + k\<rparr>) (xs @ ys)"
    and "\<And>x. x \<notin> set xs \<Longrightarrow> plink s' x = plink s x"
    and "pfreed s' = pfreed s" and "qp_len q' = qp_len q" and "qp_max q' = qp_max q"
proof (cases "xs = []")
  case True
  with q have "qp_head q = None" and "qp_len q = 0"
    by (auto simp: prec_rep_def unat_eq_0)
  with True h ys k show thesis
    by (intro that [of s "q\<lparr>qp_head := h\<rparr>"]) (auto simp: link_tail_def prec_rep_def)
next
  case False
  let ?s = "s\<lparr>plink := (plink s)(last xs := h)\<rparr>"
  have hd: "qp_head q \<noteq> None" and tl: "qp_tail q = Some (last xs)"
    and live: "last xs \<notin> set (pfreed s)" and notin: "last xs \<notin> set ys"
    using q last_in_set [OF False] ys(2) False
    by (auto simp: prec_rep_def disjoint_iff dest: seg_hd)
  have "seg (plink ?s) (qp_head q) xs h"
    using q False by (auto simp: prec_rep_def intro: seg_relink_last)
  moreover have "unat (qp_len q + k) = length (xs @ ys)"
    using q k fits by (simp add: prec_rep_def unat_add_bounded)
  ultimately have "prec_rep ?s (q\<lparr>qp_tail := last_ptr ys, qp_len := qp_len q + k\<rparr>) (xs @ ys)"
    using q h ys notin ne by (auto simp: prec_rep_def)
  with hd tl live False show thesis
    by (intro that [of ?s q]) (auto simp: link_tail_def)
qed

text \<open>
  A packet can be enqueued at \<open>i\<close>: the 16-bit length does not wrap around, and the packet is live,
  unlinked and not queued. The limits do not matter: the code only asserts them.
\<close>

definition can_enq :: "pkt_store \<Rightarrow> pktq \<Rightarrow> pkt list list \<Rightarrow> nat \<Rightarrow> pkt \<Rightarrow> bool" where
  "can_enq s pq qs i p \<longleftrightarrow>
     i < length qs \<and> unat (pq_len pq) + 1 < 2 ^ 16 \<and>
     (\<forall>j < length qs. p \<notin> set (qs ! j)) \<and> p \<notin> set (pfreed s) \<and> plink s p = None"

lemma pktq_penq_rep:
  assumes rep: "pktq_rep s pq qs" and can: "can_enq s pq qs i p"
  obtains s' pq' where "pktq_penq s pq (int i) (Some p) = Some (s', pq', Some p)"
    and "pktq_rep s' pq' (qs[i := qs ! i @ [p]])" and "same_limits pq pq'"
    and "pfreed s' = pfreed s"
    and "\<And>x. x \<notin> set (qs ! i) \<Longrightarrow> plink s' x = plink s x"
proof -
  let ?q = "pq_q pq ! i"
  from can have i: "i < length qs" and pl: "unat (pq_len pq) + 1 < 2 ^ 16"
    and new: "\<And>j. j < length qs \<Longrightarrow> p \<notin> set (qs ! j)" and live: "p \<notin> set (pfreed s)"
    and unl: "plink s p = None" by (auto simp: can_enq_def)
  note q = pktq_repD [OF rep i]
  have fits: "length (qs ! i) + length [p] < 2 ^ 16"
    using pl q(7) by simp
  obtain s' q' where lt: "link_tail s ?q (Some p) = Some (s', q')"
    and rep': "prec_rep s' (q'\<lparr>qp_tail := last_ptr [p], qp_len := qp_len q' + 1\<rparr>) (qs ! i @ [p])"
    and frame: "\<And>x. x \<notin> set (qs ! i) \<Longrightarrow> plink s' x = plink s x"
    and fr: "pfreed s' = pfreed s" and lm: "qp_len q' = qp_len ?q" "qp_max q' = qp_max ?q"
    using link_tail_rep [OF q(1), of "Some p" "[p]" 1] new [OF i] live unl fits by auto
  let ?pq = "raise_hi ((put_q pq (int i) (q'\<lparr>qp_tail := Some p, qp_len := qp_len q' + 1\<rparr>))
               \<lparr>pq_len := pq_len pq + 1\<rparr>) (int i)"
  have "pktq_penq s pq (int i) (Some p) = Some (s', ?pq, Some p)"
    using q lt by (simp add: pktq_penq_def Let_def)
  moreover have "pktq_rep s' ?pq (qs[i := qs ! i @ [p]])"
    using rep' frame fr new pl
    by (intro pktq_rep_raise [OF rep i])
       (auto simp: word_count dest: pktq_rep_disjoint [OF rep _ i] pktq_rep_not_freed [OF rep])
  moreover have "same_limits pq ?pq"
    unfolding raise_hi_put by (rule same_limits_upd) (simp add: lm)
  ultimately show thesis using that frame fr by blast
qed


lemma pktq_penq_head_rep:
  assumes rep: "pktq_rep s pq qs" and can: "can_enq s pq qs i p"
  obtains s' pq' where "pktq_penq_head s pq (int i) (Some p) = Some (s', pq', Some p)"
    and "pktq_rep s' pq' (qs[i := p # qs ! i])" and "same_limits pq pq'"
    and "pfreed s' = pfreed s"
    and "\<And>x. x \<noteq> p \<Longrightarrow> plink s' x = plink s x"
proof -
  let ?q = "pq_q pq ! i"
  from can have i: "i < length qs" and pl: "unat (pq_len pq) + 1 < 2 ^ 16"
    and new: "\<And>j. j < length qs \<Longrightarrow> p \<notin> set (qs ! j)" and live: "p \<notin> set (pfreed s)"
    and unl: "plink s p = None" by (auto simp: can_enq_def)
  note q = pktq_repD [OF rep i]
  let ?t = "if qp_head ?q = None then ?q\<lparr>qp_tail := Some p\<rparr> else ?q"
  let ?s = "s\<lparr>plink := (plink s)(p := qp_head ?q)\<rparr>"
  let ?q' = "?t\<lparr>qp_head := Some p, qp_len := qp_len ?q + 1\<rparr>"
  let ?pq = "raise_hi ((put_q pq (int i) ?q')\<lparr>pq_len := pq_len pq + 1\<rparr>) (int i)"
  have eq: "pktq_penq_head s pq (int i) (Some p) = Some (?s, ?pq, Some p)"
    using q live by (simp add: pktq_penq_head_def Let_def)
  have "prec_rep ?s ?q' (p # qs ! i)"
    using q(1,7) new [OF i] live pl prec_rep_empty [OF q(1)]
    by (cases "qs ! i = []") (auto simp: prec_rep_def word_count)
  then have "pktq_rep ?s ?pq (qs[i := p # qs ! i])"
    using new pl
    by (intro pktq_rep_raise [OF rep i])
       (auto simp: word_count dest: pktq_rep_disjoint [OF rep _ i] pktq_rep_not_freed [OF rep])
  moreover have "same_limits pq ?pq"
    unfolding raise_hi_put by (rule same_limits_upd) simp
  ultimately show thesis using that [of ?s ?pq] eq by simp
qed

text \<open>Appending or prepending a whole single-precedence list \<open>ys\<close>, which is left empty.\<close>

definition can_splice :: "pkt_store \<Rightarrow> pktq \<Rightarrow> pkt list list \<Rightarrow> nat \<Rightarrow> spktq \<Rightarrow> pkt list \<Rightarrow> bool" where
  "can_splice s pq qs i list ys \<longleftrightarrow>
     pktq_rep s list [ys] \<and> i < length qs \<and>
     unat (pq_len pq) + length ys < 2 ^ 16 \<and> (\<forall>j < length qs. set (qs ! j) \<inter> set ys = {})"

lemma spktq_clear_rep:
  assumes "pktq_rep s list [ys]"
  shows "pktq_rep s' (spktq_clear list (pq_q list ! 0)) [[]]"
proof -
  from assms have "length (pq_q list) > 0" and "unat (num_prec list) = 1" and "hi_prec list = 0"
    by (auto simp: pktq_rep_def unat_eq_0)
  then show ?thesis by (auto simp: pktq_rep_def prec_rep_def spktq_clear_def put_q_def Suc_le_eq)
qed

lemma pktq_append_rep:
  assumes rep: "pktq_rep s pq qs" and can: "can_splice s pq qs i list ys"
  obtains s' pq' list' where "pktq_append s pq (int i) list = Some (s', pq', list')"
    and "pktq_rep s' pq' (qs[i := qs ! i @ ys])" and "pktq_rep s' list' [[]]"
    and "same_limits pq pq'" and "pfreed s' = pfreed s"
proof (cases "ys = []")
  case True
  from can have lst: "pktq_rep s list [ys]" and i: "i < length qs" by (auto simp: can_splice_def)
  note l0 = pktq_repD [OF lst, of 0, simplified]
  from l0(1) True have "qp_head (pq_q list ! 0) = None" by (simp add: prec_rep_def)
  then have "pktq_append s pq (int i) list = Some (s, pq, list)"
    using l0(4) by (simp add: pktq_append_def)
  with that rep lst True show thesis by simp
next
  case False
  let ?q = "pq_q pq ! i" and ?l = "pq_q list ! 0"
  from can have lst: "pktq_rep s list [ys]" and i: "i < length qs"
    and fits: "unat (pq_len pq) + length ys < 2 ^ 16"
    and dis: "\<And>j. j < length qs \<Longrightarrow> set (qs ! j) \<inter> set ys = {}" by (auto simp: can_splice_def)
  note q = pktq_repD [OF rep i]
  note l0 = pktq_repD [OF lst, of 0, simplified]
  from l0(1) have sg: "seg (plink s) (qp_head ?l) ys None" and lt: "qp_tail ?l = last_ptr ys"
    and ys: "distinct ys" "set ys \<inter> set (pfreed s) = {}" and k: "unat (qp_len ?l) = length ys"
    by (auto simp: prec_rep_def)
  obtain s' q' where lk: "link_tail s ?q (qp_head ?l) = Some (s', q')"
    and rep': "prec_rep s' (q'\<lparr>qp_tail := last_ptr ys, qp_len := qp_len q' + qp_len ?l\<rparr>) (qs ! i @ ys)"
    and frame: "\<And>x. x \<notin> set (qs ! i) \<Longrightarrow> plink s' x = plink s x"
    and fr: "pfreed s' = pfreed s" and lm: "qp_len q' = qp_len ?q" "qp_max q' = qp_max ?q"
    using link_tail_rep [OF q(1) sg False ys(1) dis [OF i] ys(2) k] q(7) fits by auto
  let ?pq = "raise_hi ((put_q pq (int i) (q'\<lparr>qp_tail := last_ptr ys, qp_len := qp_len q' + qp_len ?l\<rparr>))
               \<lparr>pq_len := pq_len pq + qp_len ?l\<rparr>) (int i)"
  have "pktq_append s pq (int i) list = Some (s', ?pq, spktq_clear list ?l)"
    using q l0(4) lk lt seg_hd [OF sg False]
    by (simp add: pktq_append_def Let_def)
  moreover have "pktq_rep s' ?pq (qs[i := qs ! i @ ys])"
    using rep' frame fr dis fits k
    by (intro pktq_rep_raise [OF rep i])
       (auto simp: word_count disjoint_iff dest: pktq_rep_disjoint [OF rep _ i] pktq_rep_not_freed [OF rep])
  moreover have "same_limits pq ?pq"
    unfolding raise_hi_put by (rule same_limits_upd) (simp add: lm)
  ultimately show thesis using that spktq_clear_rep [OF lst] fr by blast
qed


lemma pktq_prepend_rep:
  assumes rep: "pktq_rep s pq qs" and can: "can_splice s pq qs i list ys"
  obtains s' pq' list' where "pktq_prepend s pq (int i) list = Some (s', pq', list')"
    and "pktq_rep s' pq' (qs[i := ys @ qs ! i])" and "pktq_rep s' list' [[]]"
    and "same_limits pq pq'" and "pfreed s' = pfreed s"
proof (cases "ys = []")
  case True
  from can have lst: "pktq_rep s list [ys]" and i: "i < length qs" by (auto simp: can_splice_def)
  note l0 = pktq_repD [OF lst, of 0, simplified]
  from l0(1) True have "qp_head (pq_q list ! 0) = None" by (simp add: prec_rep_def)
  then have "pktq_prepend s pq (int i) list = Some (s, pq, list)"
    using l0(4) by (simp add: pktq_prepend_def)
  with that rep lst True show thesis by simp
next
  case False
  let ?q = "pq_q pq ! i" and ?l = "pq_q list ! 0"
  from can have lst: "pktq_rep s list [ys]" and i: "i < length qs"
    and fits: "unat (pq_len pq) + length ys < 2 ^ 16"
    and dis: "\<And>j. j < length qs \<Longrightarrow> set (qs ! j) \<inter> set ys = {}" by (auto simp: can_splice_def)
  note q = pktq_repD [OF rep i]
  note l0 = pktq_repD [OF lst, of 0, simplified]
  obtain zs z where yz: "ys = zs @ [z]" using False by (cases ys rule: rev_cases) auto
  from l0(1) have sg: "seg (plink s) (qp_head ?l) (zs @ [z]) None" and lt: "qp_tail ?l = Some z"
    and ys: "distinct ys" "set ys \<inter> set (pfreed s) = {}" and k: "unat (qp_len ?l) = length ys"
    unfolding yz by (auto simp: prec_rep_def)
  have live: "z \<notin> set (pfreed s)" and nxt: "plink s z = None" using ys(2) sg yz by auto
  let ?s = "s\<lparr>plink := (plink s)(z := qp_head ?q)\<rparr>"
  let ?q1 = "?q\<lparr>qp_head := qp_head ?l\<rparr>"
  let ?q2 = "if qp_tail ?q = None then ?q1\<lparr>qp_tail := Some z\<rparr> else ?q1"
  let ?q3 = "?q2\<lparr>qp_len := qp_len ?q + qp_len ?l\<rparr>"
  let ?pq = "raise_hi ((put_q pq (int i) ?q3)\<lparr>pq_len := pq_len pq + qp_len ?l\<rparr>) (int i)"
  have eq: "pktq_prepend s pq (int i) list = Some (?s, ?pq, spktq_clear list ?l)"
    using q l0(4) lt live seg_hd [OF sg]
    by (simp add: pktq_prepend_def Let_def)
  have "seg (plink ?s) (qp_head ?l) (zs @ [z]) (qp_head ?q)"
    using sg ys(1) yz by auto
  moreover have "seg (plink ?s) (qp_head ?q) (qs ! i) None"
    using q(1) dis [OF i] yz by (auto simp: prec_rep_def)
  ultimately have "prec_rep ?s ?q3 (ys @ qs ! i)"
    using q(1,7) ys dis [OF i] fits k yz
    by (cases "qs ! i = []") (auto simp: prec_rep_def word_count disjoint_iff)
  then have "pktq_rep ?s ?pq (qs[i := ys @ qs ! i])"
    using dis fits k yz
    by (intro pktq_rep_raise [OF rep i])
       (auto simp: word_count disjoint_iff dest: pktq_rep_disjoint [OF rep _ i] pktq_rep_not_freed [OF rep])
  moreover have "same_limits pq ?pq"
    unfolding raise_hi_put by (rule same_limits_upd) simp
  ultimately show thesis using that [OF eq] spktq_clear_rep [OF lst] by simp
qed

section \<open>Dequeueing\<close>

text \<open>Taking \<open>p\<close> out of the middle \<open>as @ p # bs\<close> of a precedence queue.\<close>

lemma pktq_rep_take:
  assumes rep: "pktq_rep s pq qs" and i: "i < length qs" and qi: "qs ! i = as @ p # bs"
    and q': "prec_rep s' q' (as @ bs)" and fr: "pfreed s' = pfreed s"
    and frame: "\<And>x. x \<notin> set (qs ! i) \<Longrightarrow> plink s' x = plink s x"
  shows "pktq_rep s' ((put_q pq (int i) q')\<lparr>pq_len := pq_len pq - 1\<rparr>) (qs[i := as @ bs])"
proof (rule pktq_rep_keep [OF rep i q'])
  show "plink s' x = plink s x \<and> x \<notin> set (pfreed s') \<and> x \<notin> set (as @ bs)"
    if "j < length qs" "j \<noteq> i" "x \<in> set (qs ! j)" for j x
    using pktq_rep_disjoint [OF rep that(1) i that(2,3)] pktq_rep_not_freed [OF rep that(1,3)]
      frame fr qi by auto
  show "unat (pq_len pq - 1) + length (qs ! i) = unat (pq_len pq) + length (as @ bs)"
    using pktq_repD(7) [OF rep i] qi by (simp add: unat_dec)
qed (use qi in auto)

lemma unlink_head_rep:
  assumes rep: "pktq_rep s pq qs" and i: "i < length qs" and qi: "qs ! i = p # xs"
  obtains s' pq' where "unlink_head s pq (int i) (pq_q pq ! i) (Some p) = Some (s', pq')"
    and "pktq_rep s' pq' (qs[i := xs])" and "same_limits pq pq'" and "pfreed s' = pfreed s"
    and "plink s' p = None" and "\<And>x. x \<noteq> p \<Longrightarrow> plink s' x = plink s x"
    and "hi_prec pq' = hi_prec pq"
proof -
  let ?q = "pq_q pq ! i"
  note q = pktq_repD [OF rep i]
  let ?s = "s\<lparr>plink := (plink s)(p := None)\<rparr>"
  let ?q1 = "?q\<lparr>qp_head := plink s p\<rparr>"
  let ?q2 = "(if plink s p = None then ?q1\<lparr>qp_tail := None\<rparr> else ?q1)\<lparr>qp_len := qp_len ?q - 1\<rparr>"
  let ?pq = "(put_q pq (int i) ?q2)\<lparr>pq_len := pq_len pq - 1\<rparr>"
  have live: "p \<notin> set (pfreed s)" and sg: "seg (plink s) (plink s p) xs None"
    and d: "distinct (p # xs)" using q(1) qi by (auto simp: prec_rep_def)
  have eq: "unlink_head s pq (int i) ?q (Some p) = Some (?s, ?pq)"
    using live by (simp add: unlink_head_def Let_def)
  have "prec_rep ?s ?q2 ([] @ xs)"
    using q(1) qi sg d by (cases xs) (auto simp: prec_rep_def unat_dec)
  then have "pktq_rep ?s ?pq (qs[i := [] @ xs])"
    using qi by (intro pktq_rep_take [OF rep i]) auto
  moreover have "same_limits pq ?pq"
    unfolding put_len by (rule same_limits_upd) simp
  ultimately show thesis using that [OF eq] by (simp add: put_q_def)
qed

lemma pktq_pdeq_rep:
  assumes rep: "pktq_rep s pq qs" and i: "i < length qs"
  obtains (empty) "qs ! i = []" and "pktq_pdeq s pq (int i) = Some (s, pq, None)"
  | (pkt) p xs s' pq' where "qs ! i = p # xs"
      and "pktq_pdeq s pq (int i) = Some (s', pq', Some p)"
      and "pktq_rep s' pq' (qs[i := xs])" and "same_limits pq pq'" and "pfreed s' = pfreed s"
      and "plink s' p = None" and "\<And>x. x \<noteq> p \<Longrightarrow> plink s' x = plink s x"
proof (cases "qs ! i")
  case Nil
  with pktq_repD [OF rep i] prec_rep_empty empty show thesis by (simp add: pktq_pdeq_def)
next
  case (Cons p xs)
  note q = pktq_repD [OF rep i]
  from prec_rep_head [OF q(1)] Cons have hd: "qp_head (pq_q pq ! i) = Some p" by simp
  from unlink_head_rep [OF rep i Cons] obtain s' pq' where
    u: "unlink_head s pq (int i) (pq_q pq ! i) (Some p) = Some (s', pq')"
    and rest: "pktq_rep s' pq' (qs[i := xs])" "same_limits pq pq'" "pfreed s' = pfreed s"
      "plink s' p = None" "\<And>x. x \<noteq> p \<Longrightarrow> plink s' x = plink s x" by metis
  have "pktq_pdeq s pq (int i) = Some (s', pq', Some p)"
    using q hd u by (simp add: pktq_pdeq_def)
  then show thesis by (rule pkt [OF Cons _ rest])
qed


text \<open>Unlinking \<open>p\<close>, which stands behind \<open>a\<close>, and moving the tail pointer if \<open>p\<close> was last.\<close>

lemma prec_rep_unlink:
  assumes q: "prec_rep s q (as @ a # p # bs)"
  shows "prec_rep (s\<lparr>plink := (plink s)(a := plink s p, p := None)\<rparr>)
           ((if qp_tail q = Some p then q\<lparr>qp_tail := Some a\<rparr> else q)\<lparr>qp_len := qp_len q - 1\<rparr>)
           (as @ a # bs)"
proof (cases "bs = []")
  case True
  with q show ?thesis by (auto simp: prec_rep_def unat_dec)
next
  case False
  with q have "qp_tail q \<noteq> Some p" by (auto simp: prec_rep_def)
  with q False show ?thesis by (auto simp: prec_rep_def unat_dec)
qed

lemma find_match_none:
  "seg (plink s) p xs None \<Longrightarrow> set xs \<inter> set (pfreed s) = {} \<Longrightarrow>
     \<forall>x \<in> set xs. \<not> cb_match fn arg x \<Longrightarrow>
     \<exists>pr. find_match s fn arg prev p = Some (pr, None)"
proof (induction xs arbitrary: p prev)
  case Nil
  then show ?case by (subst find_match.simps) simp
next
  case (Cons x xs)
  then show ?case by (subst find_match.simps) simp
qed

lemma find_match_some:
  "seg (plink s) p (as @ a # bs) None \<Longrightarrow> set (as @ a # bs) \<inter> set (pfreed s) = {} \<Longrightarrow>
     \<forall>x \<in> set as. \<not> cb_match fn arg x \<Longrightarrow> cb_match fn arg a \<Longrightarrow>
     find_match s fn arg prev p = Some (if as = [] then prev else Some (last as), Some a)"
proof (induction as arbitrary: p prev)
  case Nil
  then show ?case by (subst find_match.simps) simp
next
  case (Cons x xs)
  from Cons.prems have "find_match s fn arg (Some x) (plink s x) =
      Some (if xs = [] then Some x else Some (last xs), Some a)"
    by (intro Cons.IH) auto
  with Cons.prems show ?case by (subst find_match.simps) auto
qed

lemma pktq_pdeq_with_fn_rep:
  assumes rep: "pktq_rep s pq qs" and i: "i < length qs"
  obtains (none) "\<forall>x \<in> set (qs ! i). \<not> cb_match fn arg x"
      and "pktq_pdeq_with_fn s pq (int i) fn arg = Some (s, pq, None)"
  | (pkt) as p bs s' pq' where "qs ! i = as @ p # bs" and "\<forall>x \<in> set as. \<not> cb_match fn arg x"
      and "cb_match fn arg p"
      and "pktq_pdeq_with_fn s pq (int i) fn arg = Some (s', pq', Some p)"
      and "pktq_rep s' pq' (qs[i := as @ bs])" and "same_limits pq pq'"
      and "pfreed s' = pfreed s" and "plink s' p = None"
proof (cases "\<exists>x \<in> set (qs ! i). cb_match fn arg x")
  case False
  note q = pktq_repD [OF rep i]
  from False q(1) obtain pr where
    "find_match s fn arg None (qp_head (pq_q pq ! i)) = Some (pr, None)"
    using find_match_none [of s "qp_head (pq_q pq ! i)" "qs ! i" fn arg None]
    by (auto simp: prec_rep_def)
  with False q none show thesis by (simp add: pktq_pdeq_with_fn_def)
next
  case True
  then obtain as p bs where qi: "qs ! i = as @ p # bs" and m: "cb_match fn arg p"
    and nm: "\<forall>x \<in> set as. \<not> cb_match fn arg x" by (metis split_list_first_prop)
  note q = pktq_repD [OF rep i]
  let ?q = "pq_q pq ! i"
  from q(1) qi have live: "set (as @ p # bs) \<inter> set (pfreed s) = {}"
    and sg: "seg (plink s) (qp_head ?q) (as @ p # bs) None" by (auto simp: prec_rep_def)
  note fm = find_match_some [OF sg live nm m, of None]
  show thesis
  proof (cases as rule: rev_cases)
    case Nil
    have "qs ! i = p # bs" using qi Nil by simp
    from unlink_head_rep [OF rep i this] obtain s' pq' where
      u: "unlink_head s pq (int i) ?q (Some p) = Some (s', pq')"
      and rest: "pktq_rep s' pq' (qs[i := as @ bs])" "same_limits pq pq'" "pfreed s' = pfreed s"
        "plink s' p = None" using Nil by (metis append_Nil)
    have "pktq_pdeq_with_fn s pq (int i) fn arg = Some (s', pq', Some p)"
      using q fm Nil u live by (simp add: pktq_pdeq_with_fn_def unlink_head_def Let_def)
    then show thesis by (rule pkt [OF qi nm m _ rest])
  next
    case (snoc as' a)
    let ?q' = "(if qp_tail ?q = Some p then ?q\<lparr>qp_tail := Some a\<rparr> else ?q)\<lparr>qp_len := qp_len ?q - 1\<rparr>"
    let ?s = "s\<lparr>plink := (plink s)(a := plink s p, p := None)\<rparr>"
    let ?pq = "(put_q pq (int i) ?q')\<lparr>pq_len := pq_len pq - 1\<rparr>"
    have "prec_rep ?s ?q' (as @ bs)"
      using prec_rep_unlink [of s ?q as' a p bs] q(1) qi snoc by simp
    then have rep': "pktq_rep ?s ?pq (qs[i := as @ bs])"
      using snoc qi by (intro pktq_rep_take [OF rep i qi]) auto
    have eq: "pktq_pdeq_with_fn s pq (int i) fn arg = Some (?s, ?pq, Some p)"
      using q fm snoc live by (simp add: pktq_pdeq_with_fn_def Let_def)
    have "same_limits pq ?pq" unfolding put_len by (rule same_limits_upd) simp
    then show thesis by (intro pkt [OF qi nm m eq rep']) auto
  qed
qed

lemma find_before_none:
  "seg (plink s) p xs None \<Longrightarrow> set xs \<inter> set (pfreed s) = {} \<Longrightarrow> b \<notin> set xs \<Longrightarrow>
     find_before s (Some b) p = Some None"
proof (induction xs arbitrary: p)
  case Nil
  then show ?case by (subst find_before.simps) simp
next
  case (Cons x xs)
  then have "plink s x \<noteq> Some b" by (cases xs) auto
  with Cons show ?case by (subst find_before.simps) simp
qed

lemma find_before_some:
  "seg (plink s) p (as @ a # b # bs) None \<Longrightarrow> set (as @ a # b # bs) \<inter> set (pfreed s) = {} \<Longrightarrow>
     distinct (as @ a # b # bs) \<Longrightarrow> find_before s (Some b) p = Some (Some a)"
proof (induction as arbitrary: p)
  case Nil
  then show ?case by (subst find_before.simps) simp
next
  case (Cons x xs)
  then have "plink s x \<noteq> Some b" by (cases xs) auto
  with Cons show ?case by (subst find_before.simps) simp
qed

lemma pktq_pdel_rep:
  assumes rep: "pktq_rep s pq qs" and i: "i < length qs"
  obtains (absent) "p \<notin> set (qs ! i)" and "pktq_pdel s pq (Some p) (int i) = Some (s, pq, False)"
  | (gone) as bs s' pq' where "qs ! i = as @ p # bs"
      and "pktq_pdel s pq (Some p) (int i) = Some (s', pq', True)"
      and "pktq_rep s' pq' (qs[i := as @ bs])" and "same_limits pq pq'"
      and "pfreed s' = pfreed s" and "plink s' p = None"
proof (cases "p \<in> set (qs ! i)")
  case False
  note q = pktq_repD [OF rep i]
  from False q(1) have "qp_head (pq_q pq ! i) \<noteq> Some p"
    by (cases "qs ! i") (auto simp: prec_rep_def)
  moreover have "find_before s (Some p) (qp_head (pq_q pq ! i)) = Some None"
    using q(1) False by (intro find_before_none) (auto simp: prec_rep_def)
  ultimately show thesis using False q absent by (simp add: pktq_pdel_def)
next
  case True
  then obtain as bs where qi: "qs ! i = as @ p # bs" by (metis split_list)
  note q = pktq_repD [OF rep i]
  let ?q = "pq_q pq ! i"
  from q(1) qi have live: "set (as @ p # bs) \<inter> set (pfreed s) = {}"
    and sg: "seg (plink s) (qp_head ?q) (as @ p # bs) None"
    and d: "distinct (as @ p # bs)" by (auto simp: prec_rep_def)
  show thesis
  proof (cases as rule: rev_cases)
    case Nil
    have "qs ! i = p # bs" using qi Nil by simp
    from unlink_head_rep [OF rep i this] obtain s' pq' where
      u: "unlink_head s pq (int i) ?q (Some p) = Some (s', pq')"
      and rest: "pktq_rep s' pq' (qs[i := as @ bs])" "same_limits pq pq'" "pfreed s' = pfreed s"
        "plink s' p = None" using Nil by (metis append_Nil)
    have "pktq_pdel s pq (Some p) (int i) = Some (s', pq', True)"
      using q sg Nil u live by (simp add: pktq_pdel_def unlink_head_def Let_def)
    then show thesis by (rule gone [OF qi _ rest])
  next
    case (snoc as' a)
    let ?q' = "(if qp_tail ?q = Some p then ?q\<lparr>qp_tail := Some a\<rparr> else ?q)\<lparr>qp_len := qp_len ?q - 1\<rparr>"
    let ?s = "s\<lparr>plink := (plink s)(a := plink s p, p := None)\<rparr>"
    let ?pq = "(put_q pq (int i) ?q')\<lparr>pq_len := pq_len pq - 1\<rparr>"
    have "prec_rep ?s ?q' (as @ bs)"
      using prec_rep_unlink [of s ?q as' a p bs] q(1) qi snoc by simp
    then have rep': "pktq_rep ?s ?pq (qs[i := as @ bs])"
      using snoc qi by (intro pktq_rep_take [OF rep i qi]) auto
    have "find_before s (Some p) (qp_head ?q) = Some (Some a)"
      using sg live d snoc by (intro find_before_some [of s _ as' a p bs]) auto
    moreover have "qp_head ?q \<noteq> Some p" using sg d snoc by (cases as') auto
    ultimately have eq: "pktq_pdel s pq (Some p) (int i) = Some (?s, ?pq, True)"
      using q live snoc by (simp add: pktq_pdel_def Let_def)
    have "same_limits pq ?pq" unfolding put_len by (rule same_limits_upd) simp
    then show thesis by (intro gone [OF qi eq rep']) auto
  qed
qed


lemma find_tail_seg:
  "seg (plink s) p (as @ [z]) None \<Longrightarrow> set (as @ [z]) \<inter> set (pfreed s) = {} \<Longrightarrow>
     distinct (as @ [z]) \<Longrightarrow>
     find_tail s (Some z) prev p = Some (if as = [] then prev else Some (last as), Some z)"
proof (induction as arbitrary: p prev)
  case Nil
  then show ?case by (subst find_tail.simps) simp
next
  case (Cons x xs)
  then have "find_tail s (Some z) (Some x) (plink s x) =
      Some (if xs = [] then Some x else Some (last xs), Some z)"
    by (intro Cons.IH) auto
  with Cons.prems show ?case by (subst find_tail.simps) auto
qed

lemma unlink_tail_rep:
  assumes rep: "pktq_rep s pq qs" and i: "i < length qs" and qi: "qs ! i = as @ [z]"
  obtains s' pq' where "unlink_tail s pq (int i) (pq_q pq ! i) = Some (s', pq', Some z)"
    and "pktq_rep s' pq' (qs[i := as])" and "same_limits pq pq'" and "pfreed s' = pfreed s"
    and "plink s' z = None"
proof -
  note q = pktq_repD [OF rep i]
  let ?q = "pq_q pq ! i"
  from q(1) qi have live: "set (as @ [z]) \<inter> set (pfreed s) = {}"
    and sg: "seg (plink s) (qp_head ?q) (as @ [z]) None" and d: "distinct (as @ [z])"
    and tl: "qp_tail ?q = Some z" by (auto simp: prec_rep_def)
  note ft = find_tail_seg [OF sg live d, of None]
  define s' where "s' = (if as = [] then s else s\<lparr>plink := (plink s)(last as := None)\<rparr>)"
  define q' where "q' = (if as = [] then ?q\<lparr>qp_head := None\<rparr> else ?q)
                          \<lparr>qp_tail := last_ptr as, qp_len := qp_len ?q - 1\<rparr>"
  let ?pq = "(put_q pq (int i) q')\<lparr>pq_len := pq_len pq - 1\<rparr>"
  have eq: "unlink_tail s pq (int i) ?q = Some (s', ?pq, Some z)"
  proof (cases "as = []")
    case True
    with ft tl show ?thesis by (simp add: unlink_tail_def s'_def q'_def Let_def)
  next
    case False
    then have "last as \<notin> set (pfreed s)" using live last_in_set by (auto simp: disjoint_iff)
    with False ft tl show ?thesis
      by (simp add: unlink_tail_def s'_def q'_def Let_def last_ptr_def)
  qed
  have "prec_rep s' q' (as @ [])"
    using q(1) qi d sg live
    by (cases as rule: rev_cases) (auto simp: prec_rep_def unat_dec s'_def q'_def)
  then have "pktq_rep s' ?pq (qs[i := as @ []])"
    using qi by (intro pktq_rep_take [OF rep i]) (auto simp: s'_def)
  moreover have "same_limits pq ?pq"
    unfolding put_len by (rule same_limits_upd) (simp add: q'_def)
  moreover have "plink s' z = None" using sg d by (auto simp: s'_def)
  ultimately show thesis using that [OF eq] by (simp add: s'_def)
qed

section \<open>Operations across precedences\<close>

lemma pktq_rep_len0:
  assumes "pktq_rep s pq qs"
  shows "pq_len pq = 0 \<longleftrightarrow> (\<forall>i < length qs. qs ! i = [])"
proof -
  have "unat (pq_len pq) = sum_list (map length qs)" using assms by (simp add: pktq_rep_def)
  then have "pq_len pq = 0 \<longleftrightarrow> (\<forall>xs \<in> set qs. xs = [])" by (simp flip: unat_eq_0)
  then show ?thesis by (simp add: all_set_conv_all_nth)
qed

lemma pktq_rep_set_hi:
  assumes "pktq_rep s pq qs" and "unat h < length qs"
    and "\<And>j. j < length qs \<Longrightarrow> unat h < j \<Longrightarrow> qs ! j = []"
  shows "pktq_rep s (pq\<lparr>hi_prec := h\<rparr>) qs"
  using assms by (simp add: pktq_rep_def)

text \<open>
  Lowering \<open>hi_prec\<close> keeps the representation and stops at the highest non-empty precedence,
  or at 0.
\<close>

lemma settle_hi_rep:
  "pktq_rep s pq qs \<Longrightarrow>
     \<exists>h. settle_hi pq = Some (pq\<lparr>hi_prec := h\<rparr>) \<and> pktq_rep s (pq\<lparr>hi_prec := h\<rparr>) qs \<and>
         (h = 0 \<or> qs ! unat h \<noteq> [])"
proof (induction pq rule: settle_hi.induct)
  case (1 pq)
  let ?h = "hi_prec pq"
  note hi = pktq_rep_hi [OF "1.prems"]
  note q = pktq_repD [OF "1.prems" hi]
  show ?case
  proof (cases "0 < ?h \<and> qs ! unat ?h = []")
    case True
    then have pos: "0 < unat ?h" by (simp add: word_greater_zero_iff unat_gt_0)
    have "pktq_rep s (pq\<lparr>hi_prec := ?h - 1\<rparr>) qs"
    proof (rule pktq_rep_set_hi [OF "1.prems"])
      show "unat (?h - 1) < length qs" using hi pos by (simp add: unat_dec)
      show "qs ! j = []" if "j < length qs" "unat (?h - 1) < j" for j
        using that True pos pktq_rep_above [OF "1.prems" that(1)]
        by (cases "j = unat ?h") (auto simp: unat_dec)
    qed
    moreover have "qp_head (pq_q pq ! unat ?h) = None" using prec_rep_empty [OF q(1)] True by simp
    ultimately show ?thesis
      using "1.IH" True q(2) by (simp add: settle_hi.simps [of pq])
  next
    case False
    then have "settle_hi pq = Some pq"
      using q(2) prec_rep_empty [OF q(1)] by (auto simp: settle_hi.simps [of pq])
    with False "1.prems" show ?thesis
      by (intro exI [of _ ?h]) (auto simp: word_greater_zero_iff)
  qed
qed

lemma settle_hi_top:
  assumes rep: "pktq_rep s pq qs" and ne: "pq_len pq \<noteq> 0"
  obtains pq' k where "settle_hi pq = Some pq'" and "pktq_rep s pq' qs" and "is_top qs k"
    and "hi_prec pq' = of_nat k" and "unat (hi_prec pq') = k"
    and "same_limits pq pq'" and "pq_q pq' = pq_q pq" and "pq_len pq' = pq_len pq"
proof -
  from settle_hi_rep [OF rep] obtain h where
    s: "settle_hi pq = Some (pq\<lparr>hi_prec := h\<rparr>)" "pktq_rep s (pq\<lparr>hi_prec := h\<rparr>) qs"
    and h: "h = 0 \<or> qs ! unat h \<noteq> []" by blast
  note above = pktq_rep_above [OF s(2)] and hi = pktq_rep_hi [OF s(2)]
  have "qs ! unat h \<noteq> []"
  proof
    assume e: "qs ! unat h = []"
    with h have "h = 0" by blast
    with e above have "qs ! i = []" if "i < length qs" for i
      using that by (cases "i = 0") auto
    then show False using ne pktq_rep_len0 [OF rep] by blast
  qed
  with above hi have "is_top qs (unat h)" by (auto simp: is_top_def)
  with s show thesis by (intro that [of "pq\<lparr>hi_prec := h\<rparr>" "unat h"]) (auto simp: same_limits_def)
qed

lemma pktq_deq_rep:
  assumes rep: "pktq_rep s pq qs"
  obtains (empty) "\<forall>i < length qs. qs ! i = []" and "pktq_deq s pq = Some (s, pq, None, None)"
  | (pkt) k p xs s' pq' where "is_top qs k" and "qs ! k = p # xs"
      and "pktq_deq s pq = Some (s', pq', Some p, Some (int k))"
      and "pktq_rep s' pq' (qs[k := xs])" and "same_limits pq pq'"
      and "pfreed s' = pfreed s" and "plink s' p = None"
      and "\<And>x. x \<noteq> p \<Longrightarrow> plink s' x = plink s x"
proof (cases "pq_len pq = 0")
  case True
  with pktq_rep_len0 [OF rep] empty show thesis by (simp add: pktq_deq_def)
next
  case False
  from settle_hi_top [OF rep False] obtain pq1 k where
    s: "settle_hi pq = Some pq1" and rep1: "pktq_rep s pq1 qs" and top: "is_top qs k"
    and k: "unat (hi_prec pq1) = k" and lim: "same_limits pq pq1" by metis
  from top have kl: "k < length qs" by (simp add: is_top_def)
  from top obtain p xs where qk: "qs ! k = p # xs" by (cases "qs ! k") (auto simp: is_top_def)
  note q = pktq_repD [OF rep1 kl]
  from prec_rep_head [OF q(1)] qk have hd: "qp_head (pq_q pq1 ! k) = Some p" by simp
  from unlink_head_rep [OF rep1 kl qk] obtain s' pq' where
    u: "unlink_head s pq1 (int k) (pq_q pq1 ! k) (Some p) = Some (s', pq')"
    and rest: "pktq_rep s' pq' (qs[k := xs])" "same_limits pq1 pq'" "pfreed s' = pfreed s"
      "plink s' p = None" "\<And>x. x \<noteq> p \<Longrightarrow> plink s' x = plink s x" by metis
  have "uint (hi_prec pq1) = int k" using k by (simp add: uint_nat)
  then have "pktq_deq s pq = Some (s', pq', Some p, Some (int k))"
    using False s q(4) hd u by (simp add: pktq_deq_def)
  then show thesis
    by (rule pkt [OF top qk _ rest(1) same_limits_trans [OF lim rest(2)] rest(3-5)])
qed


lemma first_used_rep:
  "pktq_rep s pq qs \<Longrightarrow> k \<le> unat (hi_prec pq) \<Longrightarrow> \<forall>j < k. qs ! j = [] \<Longrightarrow>
     \<exists>m \<le> unat (hi_prec pq). first_used pq k = Some m \<and> (\<forall>j < m. qs ! j = []) \<and>
         (m = unat (hi_prec pq) \<or> qs ! m \<noteq> [])"
proof (induction pq k rule: first_used.induct)
  case (1 pq k)
  show ?case
  proof (cases "k < unat (hi_prec pq)")
    case True
    then have kl: "k < length qs" using pktq_rep_hi [OF "1.prems"(1)] by simp
    note q = pktq_repD [OF "1.prems"(1) kl]
    show ?thesis
    proof (cases "qs ! k = []")
      case Nil: True
      with prec_rep_empty [OF q(1)] have hd: "qp_head (pq_q pq ! k) = None" by simp
      have "\<forall>j < Suc k. qs ! j = []" using "1.prems"(3) Nil by (auto simp: less_Suc_eq)
      then have "\<exists>m \<le> unat (hi_prec pq). first_used pq (Suc k) = Some m \<and> (\<forall>j < m. qs ! j = []) \<and>
          (m = unat (hi_prec pq) \<or> qs ! m \<noteq> [])"
        using "1.IH" [OF True _ _ "1.prems"(1)] True hd q(2) by simp
      then show ?thesis using True hd q(2) by (simp add: first_used.simps [of pq k])
    next
      case False
      with prec_rep_empty [OF q(1)] have "first_used pq k = Some k"
        using True q(2) by (simp add: first_used.simps [of pq k])
      with False "1.prems" show ?thesis by auto
    qed
  next
    case False
    then have "first_used pq k = Some k" by (simp add: first_used.simps [of pq k])
    with False "1.prems" show ?thesis by auto
  qed
qed

lemma first_used_bottom:
  assumes rep: "pktq_rep s pq qs" and ne: "pq_len pq \<noteq> 0"
  obtains k where "first_used pq 0 = Some k" and "is_bottom qs k"
proof -
  from first_used_rep [OF rep, of 0] obtain m where m: "m \<le> unat (hi_prec pq)"
    and f: "first_used pq 0 = Some m" and below: "\<forall>j < m. qs ! j = []"
    and ok: "m = unat (hi_prec pq) \<or> qs ! m \<noteq> []" by auto
  have "qs ! m \<noteq> []"
  proof
    assume e: "qs ! m = []"
    with ok have "m = unat (hi_prec pq)" by blast
    with e below pktq_rep_above [OF rep] have "\<forall>i < length qs. qs ! i = []"
      by (metis linorder_neqE_nat)
    then show False using ne pktq_rep_len0 [OF rep] by blast
  qed
  with m below pktq_rep_hi [OF rep] have "is_bottom qs m" by (auto simp: is_bottom_def)
  with f show thesis by (rule that)
qed

lemma pktq_deq_tail_rep:
  assumes rep: "pktq_rep s pq qs"
  obtains (empty) "\<forall>i < length qs. qs ! i = []" and "pktq_deq_tail s pq = Some (s, pq, None, None)"
  | (pkt) k p xs s' pq' where "is_bottom qs k" and "qs ! k = xs @ [p]"
      and "pktq_deq_tail s pq = Some (s', pq', Some p, Some (int k))"
      and "pktq_rep s' pq' (qs[k := xs])" and "same_limits pq pq'"
      and "pfreed s' = pfreed s" and "plink s' p = None"
proof (cases "pq_len pq = 0")
  case True
  with pktq_rep_len0 [OF rep] empty show thesis by (simp add: pktq_deq_tail_def)
next
  case False
  from first_used_bottom [OF rep False] obtain k where f: "first_used pq 0 = Some k"
    and bot: "is_bottom qs k" .
  from bot have kl: "k < length qs" by (simp add: is_bottom_def)
  from bot obtain xs p where qk: "qs ! k = xs @ [p]"
    by (cases "qs ! k" rule: rev_cases) (auto simp: is_bottom_def)
  note q = pktq_repD [OF rep kl]
  from prec_rep_empty [OF q(1)] qk have hd: "qp_head (pq_q pq ! k) \<noteq> None" by simp
  from unlink_tail_rep [OF rep kl qk] obtain s1 pq' where
    u: "unlink_tail s pq (int k) (pq_q pq ! k) = Some (s1, pq', Some p)"
    and rest: "pktq_rep s1 pq' (qs[k := xs])" "same_limits pq pq'" "pfreed s1 = pfreed s"
      "plink s1 p = None" by metis
  have "s1\<lparr>plink := (plink s1)(p := None)\<rparr> = s1"
    using rest(4) by (metis fun_upd_triv pkt_store.surjective pkt_store.update_convs(1))
  moreover have "p \<notin> set (pfreed s1)" using pktq_rep_not_freed [OF rep kl] qk rest(3) by simp
  ultimately have "pktq_deq_tail s pq = Some (s1, pq', Some p, Some (int k))"
    using False f q(4) hd u by (simp add: pktq_deq_tail_def)
  then show thesis by (rule pkt [OF bot qk _ rest])
qed

lemma pktq_peek_rep:
  assumes rep: "pktq_rep s pq qs"
  obtains (empty) "\<forall>i < length qs. qs ! i = []" and "pktq_peek pq = Some (pq, None, None)"
  | (pkt) k pq' where "is_top qs k" and "pktq_peek pq = Some (pq', Some (hd (qs ! k)), Some (int k))"
      and "pktq_rep s pq' qs" and "same_limits pq pq'"
proof (cases "pq_len pq = 0")
  case True
  with pktq_rep_len0 [OF rep] empty show thesis by (simp add: pktq_peek_def)
next
  case False
  from settle_hi_top [OF rep False] obtain pq1 k where
    s: "settle_hi pq = Some pq1" and rep1: "pktq_rep s pq1 qs" and top: "is_top qs k"
    and k: "unat (hi_prec pq1) = k" and lim: "same_limits pq pq1" by metis
  from top have kl: "k < length qs" and ne: "qs ! k \<noteq> []" by (auto simp: is_top_def)
  note q = pktq_repD [OF rep1 kl]
  have "qp_head (pq_q pq1 ! k) = Some (hd (qs ! k))"
    using prec_rep_head [OF q(1)] ne by (cases "qs ! k") auto
  moreover have "uint (hi_prec pq1) = int k" using k by (simp add: uint_nat)
  ultimately have "pktq_peek pq = Some (pq1, Some (hd (qs ! k)), Some (int k))"
    using False s q(4) by (simp add: pktq_peek_def)
  then show thesis by (rule pkt [OF top _ rep1 lim])
qed

lemma pktq_peek_tail_rep:
  assumes rep: "pktq_rep s pq qs"
  obtains (empty) "\<forall>i < length qs. qs ! i = []" and "pktq_peek_tail pq = Some (None, None)"
  | (pkt) k where "is_bottom qs k" and "pktq_peek_tail pq = Some (Some (last (qs ! k)), Some (int k))"
proof (cases "pq_len pq = 0")
  case True
  with pktq_rep_len0 [OF rep] empty show thesis by (simp add: pktq_peek_tail_def)
next
  case False
  from first_used_bottom [OF rep False] obtain k where f: "first_used pq 0 = Some k"
    and bot: "is_bottom qs k" .
  from bot have kl: "k < length qs" and ne: "qs ! k \<noteq> []" by (auto simp: is_bottom_def)
  note q = pktq_repD [OF rep kl]
  from q(1) ne have "qp_tail (pq_q pq ! k) = Some (last (qs ! k))" by (simp add: prec_rep_def)
  with False f q(4) have "pktq_peek_tail pq = Some (Some (last (qs ! k)), Some (int k))"
    by (simp add: pktq_peek_tail_def)
  then show thesis by (rule pkt [OF bot])
qed


section \<open>Operations on a set of precedences\<close>

text \<open>The highest non-empty precedence of the set \<open>bmp\<close>.\<close>

definition is_top_of :: "u32 \<Rightarrow> 'a list list \<Rightarrow> nat \<Rightarrow> bool" where
  "is_top_of bmp qs k \<longleftrightarrow>
     k < length qs \<and> bit bmp k \<and> qs ! k \<noteq> [] \<and>
     (\<forall>j < length qs. k < j \<longrightarrow> bit bmp j \<longrightarrow> qs ! j = [])"

lemma find_masked_rep:
  "pktq_rep s pq qs \<Longrightarrow> n < length qs \<Longrightarrow>
     \<forall>j < length qs. n < j \<longrightarrow> bit bmp j \<longrightarrow> qs ! j = [] \<Longrightarrow>
     (find_masked pq bmp n = Some None \<and> (\<forall>j < length qs. bit bmp j \<longrightarrow> qs ! j = [])) \<or>
     (\<exists>k. find_masked pq bmp n = Some (Some k) \<and> is_top_of bmp qs k)"
proof (induction pq bmp n rule: find_masked.induct)
  case (1 pq bmp n)
  note q = pktq_repD [OF "1.prems"(1,2)]
  note emp = prec_rep_empty [OF q(1)]
  show ?case
  proof (cases "\<not> bit bmp n \<or> qs ! n = []")
    case True
    have up: "bit bmp j \<longrightarrow> qs ! j = []" if "j < length qs" "n \<le> j" for j
      using "1.prems"(3) True that by (cases "j = n") auto
    show ?thesis
    proof (cases "n = 0")
      case Z: True
      then have "find_masked pq bmp n = Some None"
        using True emp q(2) by (subst find_masked.simps) auto
      with Z up show ?thesis by simp
    next
      case False
      have "find_masked pq bmp n = find_masked pq bmp (n - 1)"
        using False True emp q(2) by (auto simp: find_masked.simps [of pq bmp n])
      moreover have "\<forall>j < length qs. n - 1 < j \<longrightarrow> bit bmp j \<longrightarrow> qs ! j = []"
        using up False by auto
      ultimately show ?thesis
        using "1.IH" [OF _ _ False "1.prems"(1)] True emp q(2) "1.prems"(2) by auto
    qed
  next
    case False
    then have "find_masked pq bmp n = Some (Some n)"
      using emp q(2) by (subst find_masked.simps) auto
    with False "1.prems" show ?thesis by (auto simp: is_top_of_def)
  qed
qed

lemma settle_hi_masked:
  assumes rep: "pktq_rep s pq qs" and ne: "pq_len pq \<noteq> 0"
  obtains pq' found where "settle_hi pq = Some pq'" and "pktq_rep s pq' qs"
    and "same_limits pq pq'" and "find_masked pq' bmp (unat (hi_prec pq')) = Some found"
    and "case found of None \<Rightarrow> \<forall>j < length qs. bit bmp j \<longrightarrow> qs ! j = [] | Some k \<Rightarrow> is_top_of bmp qs k"
proof -
  from settle_hi_top [OF rep ne] obtain pq1 where
    s: "settle_hi pq = Some pq1" and rep1: "pktq_rep s pq1 qs"
    and lim: "same_limits pq pq1" by metis
  have "(find_masked pq1 bmp (unat (hi_prec pq1)) = Some None \<and>
          (\<forall>j < length qs. bit bmp j \<longrightarrow> qs ! j = [])) \<or>
        (\<exists>k. find_masked pq1 bmp (unat (hi_prec pq1)) = Some (Some k) \<and> is_top_of bmp qs k)"
    using pktq_rep_above [OF rep1] by (intro find_masked_rep [OF rep1 pktq_rep_hi [OF rep1]]) auto
  then show thesis by (elim disjE exE conjE) (auto intro!: that [OF s rep1 lim])
qed

lemma pktq_mdeq_rep:
  assumes rep: "pktq_rep s pq qs"
  obtains (empty) pq' where "\<forall>i < length qs. bit bmp i \<longrightarrow> qs ! i = []"
      and "pktq_mdeq s pq bmp = Some (s, pq', None, None)" and "pktq_rep s pq' qs"
      and "same_limits pq pq'"
  | (pkt) k p xs s' pq' where "is_top_of bmp qs k" and "qs ! k = p # xs"
      and "pktq_mdeq s pq bmp = Some (s', pq', Some p, Some (int k))"
      and "pktq_rep s' pq' (qs[k := xs])" and "same_limits pq pq'"
      and "pfreed s' = pfreed s" and "plink s' p = None"
proof (cases "pq_len pq = 0")
  case True
  with pktq_rep_len0 [OF rep] rep empty [of pq] show thesis by (simp add: pktq_mdeq_def)
next
  case False
  from settle_hi_masked [OF rep False, of bmp] obtain pq1 found where
    s: "settle_hi pq = Some pq1" and rep1: "pktq_rep s pq1 qs" and lim: "same_limits pq pq1"
    and f: "find_masked pq1 bmp (unat (hi_prec pq1)) = Some found"
    and cs: "case found of None \<Rightarrow> \<forall>j < length qs. bit bmp j \<longrightarrow> qs ! j = [] | Some k \<Rightarrow> is_top_of bmp qs k" .
  show thesis
  proof (cases found)
    case None
    with f s False have "pktq_mdeq s pq bmp = Some (s, pq1, None, None)" by (simp add: pktq_mdeq_def)
    with cs None show thesis by (intro empty [OF _ _ rep1 lim]) auto
  next
    case (Some k)
    with cs have top: "is_top_of bmp qs k" by simp
    then have kl: "k < length qs" by (simp add: is_top_of_def)
    from top obtain p xs where qk: "qs ! k = p # xs" by (cases "qs ! k") (auto simp: is_top_of_def)
    note q = pktq_repD [OF rep1 kl]
    from prec_rep_head [OF q(1)] qk have hd: "qp_head (pq_q pq1 ! k) = Some p" by simp
    from unlink_head_rep [OF rep1 kl qk] obtain s' pq' where
      u: "unlink_head s pq1 (int k) (pq_q pq1 ! k) (Some p) = Some (s', pq')"
      and rest: "pktq_rep s' pq' (qs[k := xs])" "same_limits pq1 pq'" "pfreed s' = pfreed s"
        "plink s' p = None" by metis
    have "pktq_mdeq s pq bmp = Some (s', pq', Some p, Some (int k))"
      using False s f Some q(4) hd u by (simp add: pktq_mdeq_def)
    then show thesis
      by (rule pkt [OF top qk _ rest(1) same_limits_trans [OF lim rest(2)] rest(3,4)])
  qed
qed

lemma pktq_mpeek_rep:
  assumes rep: "pktq_rep s pq qs"
  obtains (empty) pq' where "\<forall>i < length qs. bit bmp i \<longrightarrow> qs ! i = []"
      and "pktq_mpeek pq bmp = Some (pq', None, None)" and "pktq_rep s pq' qs"
      and "same_limits pq pq'"
  | (pkt) k pq' where "is_top_of bmp qs k"
      and "pktq_mpeek pq bmp = Some (pq', Some (hd (qs ! k)), Some (int k))"
      and "pktq_rep s pq' qs" and "same_limits pq pq'"
proof (cases "pq_len pq = 0")
  case True
  with pktq_rep_len0 [OF rep] rep empty [of pq] show thesis by (simp add: pktq_mpeek_def)
next
  case False
  from settle_hi_masked [OF rep False, of bmp] obtain pq1 found where
    s: "settle_hi pq = Some pq1" and rep1: "pktq_rep s pq1 qs" and lim: "same_limits pq pq1"
    and f: "find_masked pq1 bmp (unat (hi_prec pq1)) = Some found"
    and cs: "case found of None \<Rightarrow> \<forall>j < length qs. bit bmp j \<longrightarrow> qs ! j = [] | Some k \<Rightarrow> is_top_of bmp qs k" .
  show thesis
  proof (cases found)
    case None
    with f s False have "pktq_mpeek pq bmp = Some (pq1, None, None)" by (simp add: pktq_mpeek_def)
    with cs None show thesis by (intro empty [OF _ _ rep1 lim]) auto
  next
    case (Some k)
    with cs have top: "is_top_of bmp qs k" by simp
    then have kl: "k < length qs" and ne: "qs ! k \<noteq> []" by (auto simp: is_top_of_def)
    note q = pktq_repD [OF rep1 kl]
    have "qp_head (pq_q pq1 ! k) = Some (hd (qs ! k))"
      using prec_rep_head [OF q(1)] ne by (cases "qs ! k") auto
    then have "pktq_mpeek pq bmp = Some (pq1, Some (hd (qs ! k)), Some (int k))"
      using False s f Some q(4) by (simp add: pktq_mpeek_def)
    then show thesis by (rule pkt [OF top _ rep1 lim])
  qed
qed

lemma mlen_loop_rep:
  "pktq_rep s pq qs \<Longrightarrow> k + n \<le> length qs \<Longrightarrow>
     mlen_loop pq bmp k n len =
       Some (len + (\<Sum>i = k..<k + n. if bit bmp i then int (length (qs ! i)) else 0))"
proof (induction n arbitrary: k len)
  case 0
  then show ?case by simp
next
  case (Suc n)
  then have kl: "k < length qs" by simp
  note q = pktq_repD [OF Suc.prems(1) kl]
  have "uint (qp_len (pq_q pq ! k)) = int (length (qs ! k))"
    using q(1) by (simp add: prec_rep_def uint_nat)
  moreover have "{k..<k + Suc n} = insert k {Suc k..<Suc k + n}" by auto
  ultimately show ?case
    using Suc.IH [of "Suc k"] Suc.prems q(2) by simp
qed

lemma pktq_mlen_rep:
  assumes rep: "pktq_rep s pq qs"
  shows "pktq_mlen pq bmp = Some (int (\<Sum>i < length qs. if bit bmp i then length (qs ! i) else 0))"
proof -
  let ?f = "\<lambda>i. if bit bmp i then int (length (qs ! i)) else 0"
  let ?h = "Suc (unat (hi_prec pq))"
  have le: "?h \<le> length qs" using pktq_rep_hi [OF rep] by simp
  have "(\<Sum>i = 0..<length qs. ?f i) = (\<Sum>i = 0..<?h. ?f i) + (\<Sum>i = ?h..<length qs. ?f i)"
    using le by (simp del: sum.op_ivl_Suc add: sum.atLeastLessThan_concat)
  also have "(\<Sum>i = ?h..<length qs. ?f i) = 0"
    using pktq_rep_above [OF rep] by (intro sum.neutral) auto
  finally have "(\<Sum>i = 0..<?h. ?f i) = (\<Sum>i < length qs. ?f i)" by (simp add: atLeast0LessThan)
  moreover have "(\<Sum>i < length qs. ?f i) = int (\<Sum>i < length qs. if bit bmp i then length (qs ! i) else 0)"
    by (simp add: of_nat_sum if_distrib [of int] cong: if_cong)
  ultimately show ?thesis
    using mlen_loop_rep [OF rep, of 0 ?h bmp 0] le
    by (simp del: sum.op_ivl_Suc mlen_loop.simps add: pktq_mlen_def)
qed


section \<open>Flushing\<close>

text \<open>
  The flush loop has passed the kept packets \<open>ks\<close> and stands at the head of \<open>xs\<close>. It frees the
  matching packets of \<open>xs\<close> and keeps the others linked behind \<open>ks\<close>; the tail pointer is not
  written.
\<close>

lemma pflush_loop_seg:
  assumes "i < length (pq_q pq)"
    and "seg (plink s) (qp_head (pq_q pq ! i)) (ks @ xs) None" and "distinct (ks @ xs)"
    and "set (ks @ xs) \<inter> set (pfreed s) = {}"
    and "unat (qp_len (pq_q pq ! i)) = length (ks @ xs)"
  shows "\<exists>s' q'. pflush_loop s pq (int i) fn arg (last_ptr ks) (head_ptr xs) =
           Some (s', pq\<lparr>pq_q := (pq_q pq)[i := q'],
                        pq_len := pq_len pq - of_nat (length (filter (cb_match fn arg) xs))\<rparr>) \<and>
         seg (plink s') (qp_head q') (ks @ filter (\<lambda>x. \<not> cb_match fn arg x) xs) None \<and>
         qp_tail q' = qp_tail (pq_q pq ! i) \<and> qp_max q' = qp_max (pq_q pq ! i) \<and>
         unat (qp_len q') = length (ks @ filter (\<lambda>x. \<not> cb_match fn arg x) xs) \<and>
         pfreed s' = rev (filter (cb_match fn arg) xs) @ pfreed s \<and>
         (\<forall>x. x \<notin> set (ks @ xs) \<longrightarrow> plink s' x = plink s x)"
  using assms
proof (induction xs arbitrary: s pq ks)
  case Nil
  show ?case
    using Nil.prems by (subst pflush_loop.simps) (auto intro!: exI [of _ "pq_q pq ! i"])
next
  case (Cons x xs)
  let ?q = "pq_q pq ! i" and ?m = "cb_match fn arg"
  from Cons.prems have live: "x \<notin> set (pfreed s)" and d: "x \<notin> set ks" "x \<notin> set xs"
    and gq: "get_q pq (int i) = Some ?q" by (auto simp: get_q_def)
  have nx: "plink s x = head_ptr xs"
    using Cons.prems(2) by (auto dest: seg_head)
  show ?case
  proof (cases "?m x")
    case False
    have "last_ptr (ks @ [x]) = Some x" by simp
    moreover have "pflush_loop s pq (int i) fn arg (last_ptr ks) (head_ptr (x # xs)) =
        pflush_loop s pq (int i) fn arg (Some x) (head_ptr xs)"
      using False live nx by (subst pflush_loop.simps) simp
    ultimately show ?thesis
      using Cons.IH [of pq s "ks @ [x]"] Cons.prems False by simp
  next
    case True
    let ?q1 = "(if ks = [] then ?q\<lparr>qp_head := head_ptr xs\<rparr> else ?q)\<lparr>qp_len := qp_len ?q - 1\<rparr>"
    let ?l = "if ks = [] then (plink s)(x := None) else (plink s)(last ks := head_ptr xs, x := None)"
    let ?s = "s\<lparr>plink := ?l, pfreed := x # pfreed s\<rparr>"
    let ?pq = "(put_q pq (int i) ?q1)\<lparr>pq_len := pq_len pq - 1\<rparr>"
    have lk: "ks \<noteq> [] \<Longrightarrow> last ks \<in> set ks" by simp
    have step: "pflush_loop s pq (int i) fn arg (last_ptr ks) (head_ptr (x # xs)) =
        pflush_loop ?s ?pq (int i) fn arg (last_ptr ks) (head_ptr xs)"
    proof (cases "ks = []")
      case True
      then have "qp_head ?q = Some x" using Cons.prems(2) by simp
      with True \<open>?m x\<close> live nx gq show ?thesis by (subst pflush_loop.simps) simp
    next
      case False
      then obtain k ks' where ks: "ks = k # ks'" by (cases ks) auto
      then have "qp_head ?q \<noteq> Some x" using Cons.prems(2) d by auto
      moreover have "last ks \<notin> set (pfreed s)" "last ks \<noteq> x"
        using lk [OF False] Cons.prems(4) d by (auto simp: disjoint_iff)
      ultimately show ?thesis
        using False \<open>?m x\<close> live nx gq by (subst pflush_loop.simps) (simp add: last_ptr_def)
    qed
    have il: "i < length (pq_q ?pq)" and qi: "pq_q ?pq ! i = ?q1"
      using Cons.prems(1) by (auto simp: put_q_def)
    have "seg (plink ?s) (qp_head ?q1) (ks @ xs) None"
    proof (cases ks rule: rev_cases)
      case Nil
      with Cons.prems(2) nx d show ?thesis by auto
    next
      case (snoc ks' k)
      with Cons.prems(2,3) nx d show ?thesis by auto
    qed
    moreover have "unat (qp_len ?q1) = length (ks @ xs)"
      using Cons.prems(5) by (simp add: unat_dec)
    moreover have "distinct (ks @ xs)" "set (ks @ xs) \<inter> set (pfreed ?s) = {}"
      using Cons.prems(3,4) by auto
    ultimately obtain s' q' where
      r: "pflush_loop ?s ?pq (int i) fn arg (last_ptr ks) (head_ptr xs) =
           Some (s', ?pq\<lparr>pq_q := (pq_q ?pq)[i := q'],
                        pq_len := pq_len ?pq - of_nat (length (filter ?m xs))\<rparr>)"
      and q': "seg (plink s') (qp_head q') (ks @ filter (\<lambda>x. \<not> ?m x) xs) None"
        "qp_tail q' = qp_tail ?q1" "qp_max q' = qp_max ?q1"
        "unat (qp_len q') = length (ks @ filter (\<lambda>x. \<not> ?m x) xs)"
        "pfreed s' = rev (filter ?m xs) @ pfreed ?s"
        "\<forall>x. x \<notin> set (ks @ xs) \<longrightarrow> plink s' x = plink ?s x"
      using Cons.IH [OF il, of ?s ks] unfolding qi by blast
    have "\<forall>y. y \<notin> set (ks @ x # xs) \<longrightarrow> plink s' y = plink s y"
      using q'(6) lk by (auto split: if_splits)
    then show ?thesis
      using q'(1-5) True unfolding step r
      by (intro exI [of _ s'] exI [of _ q']) (simp add: put_q_def)
  qed
qed


text \<open>What a flush does to its precedence, whatever the filter.\<close>

lemma pktq_pflush_frees:
  fixes fn :: ifpkt_cb and arg :: int
  assumes rep: "pktq_rep s pq qs" and i: "i < length qs"
  defines "kept \<equiv> filter (\<lambda>x. \<not> cb_match fn arg x) (qs ! i)"
    and "dropped \<equiv> filter (cb_match fn arg) (qs ! i)"
  obtains s' q' where "pktq_pflush s pq (int i) fn arg =
      Some (s', (put_q pq (int i) q')\<lparr>pq_len := pq_len pq - of_nat (length dropped)\<rparr>)"
    and "seg (plink s') (qp_head q') kept None" and "unat (qp_len q') = length kept"
    and "qp_max q' = qp_max (pq_q pq ! i)"
    and "qp_tail q' = (if kept = [] then None else last_ptr (qs ! i))"
    and "pfreed s' = rev dropped @ pfreed s"
    and "\<And>x. x \<notin> set (qs ! i) \<Longrightarrow> plink s' x = plink s x"
proof -
  note q = pktq_repD [OF rep i]
  let ?q = "pq_q pq ! i"
  from q(1) have "seg (plink s) (qp_head ?q) ([] @ qs ! i) None" "distinct ([] @ qs ! i)"
    "set ([] @ qs ! i) \<inter> set (pfreed s) = {}" "unat (qp_len ?q) = length ([] @ qs ! i)"
    by (auto simp: prec_rep_def)
  from pflush_loop_seg [OF q(2) this, of fn arg] prec_rep_head [OF q(1)]
  obtain s' q1 where lp: "pflush_loop s pq (int i) fn arg None (qp_head ?q) =
      Some (s', pq\<lparr>pq_q := (pq_q pq)[i := q1], pq_len := pq_len pq - of_nat (length dropped)\<rparr>)"
    and q1: "seg (plink s') (qp_head q1) kept None" "qp_tail q1 = qp_tail ?q"
      "qp_max q1 = qp_max ?q" "unat (qp_len q1) = length kept"
      "pfreed s' = rev dropped @ pfreed s" "\<forall>x. x \<notin> set (qs ! i) \<longrightarrow> plink s' x = plink s x"
    unfolding kept_def dropped_def by auto
  define q' where "q' = (if kept = [] then q1\<lparr>qp_tail := None\<rparr> else q1)"
  have emp: "qp_head q1 = None \<longleftrightarrow> kept = []" and l0: "kept = [] \<Longrightarrow> qp_len q1 = 0"
    using q1(1,4) by (auto dest: seg_head simp: unat_eq_0)
  have "pktq_pflush s pq (int i) fn arg =
      Some (s', (put_q pq (int i) q')\<lparr>pq_len := pq_len pq - of_nat (length dropped)\<rparr>)"
    using lp q(2,4) emp l0
    by (cases "kept = []") (auto simp: pktq_pflush_def get_q_def put_q_def q'_def)
  moreover have "qp_tail q' = (if kept = [] then None else last_ptr (qs ! i))"
    using q1(2) q(1) by (simp add: q'_def prec_rep_def)
  ultimately show thesis using q1 by (intro that [of s' q']) (auto simp: q'_def)
qed

text \<open>
  When the last packet is kept, or all are dropped, the flush leaves a well-formed queue: in
  particular every flush without a filter does.
\<close>

lemma pktq_pflush_rep:
  assumes rep: "pktq_rep s pq qs" and i: "i < length qs"
    and safe: "qs ! i = [] \<or> \<not> cb_match fn arg (last (qs ! i)) \<or> (\<forall>x \<in> set (qs ! i). cb_match fn arg x)"
  obtains s' pq' where "pktq_pflush s pq (int i) fn arg = Some (s', pq')"
    and "pktq_rep s' pq' (qs[i := filter (\<lambda>x. \<not> cb_match fn arg x) (qs ! i)])"
    and "same_limits pq pq'" and "pfreed s' = rev (filter (cb_match fn arg) (qs ! i)) @ pfreed s"
proof -
  let ?k = "filter (\<lambda>x. \<not> cb_match fn arg x) (qs ! i)" and ?d = "filter (cb_match fn arg) (qs ! i)"
  note q = pktq_repD [OF rep i]
  obtain s' q' where eq: "pktq_pflush s pq (int i) fn arg =
      Some (s', (put_q pq (int i) q')\<lparr>pq_len := pq_len pq - of_nat (length ?d)\<rparr>)"
    and q': "seg (plink s') (qp_head q') ?k None" "unat (qp_len q') = length ?k"
      "qp_max q' = qp_max (pq_q pq ! i)"
      "qp_tail q' = (if ?k = [] then None else last_ptr (qs ! i))"
      "pfreed s' = rev ?d @ pfreed s" "\<And>x. x \<notin> set (qs ! i) \<Longrightarrow> plink s' x = plink s x"
    using pktq_pflush_frees [OF rep i, of fn arg] by metis
  have tl: "qp_tail q' = last_ptr ?k"
  proof (cases "?k = []")
    case True
    with q'(4) show ?thesis by simp
  next
    case False
    then have ne: "qs ! i \<noteq> []" and "\<not> (\<forall>x \<in> set (qs ! i). cb_match fn arg x)"
      by (auto simp: filter_empty_conv)
    with safe have "\<not> cb_match fn arg (last (qs ! i))" by blast
    then have "last ?k = last (qs ! i)" using ne by (simp add: last_filter)
    with False ne q'(4) show ?thesis by (simp add: last_ptr_def)
  qed
  have "prec_rep s' q' ?k"
    using q' tl q(1) by (auto simp: prec_rep_def)
  moreover have "length ?d + length ?k = length (qs ! i)"
    by (simp add: sum_length_filter_compl)
  ultimately have "pktq_rep s' ((put_q pq (int i) q')\<lparr>pq_len := pq_len pq - of_nat (length ?d)\<rparr>)
      (qs[i := ?k])"
    using q' q(7)
    by (intro pktq_rep_keep [OF rep i])
       (auto simp: unat_sub_of_nat dest: pktq_rep_disjoint [OF rep _ i] pktq_rep_not_freed [OF rep])
  moreover have "same_limits pq ((put_q pq (int i) q')\<lparr>pq_len := pq_len pq - of_nat (length ?d)\<rparr>)"
    unfolding put_len by (rule same_limits_upd) (simp add: q')
  ultimately show thesis using that [OF eq] q'(5) by simp
qed

lemma flush_loop_rep:
  "pktq_rep s pq qs \<Longrightarrow> k + n = length qs \<Longrightarrow> \<forall>j < k. qs ! j = [] \<Longrightarrow>
     \<exists>s' pq'. flush_loop s pq None arg (int k) n = Some (s', pq') \<and>
        pktq_rep s' pq' (replicate (length qs) []) \<and> same_limits pq pq' \<and>
        set (pfreed s') = set (concat (drop k qs)) \<union> set (pfreed s)"
proof (induction n arbitrary: s pq qs k)
  case 0
  then have "qs = replicate (length qs) []" by (intro nth_equalityI) auto
  with 0 show ?case by simp
next
  case (Suc n)
  then have kl: "k < length qs" by simp
  have m: "cb_match None arg = (\<lambda>x. True)" by (auto simp: cb_match_def)
  obtain s1 pq1 where e: "pktq_pflush s pq (int k) None arg = Some (s1, pq1)"
    and rep1: "pktq_rep s1 pq1 (qs[k := []])" and lim: "same_limits pq pq1"
    and fr: "pfreed s1 = rev (qs ! k) @ pfreed s"
    using pktq_pflush_rep [OF Suc.prems(1) kl, of None arg] unfolding m by auto
  have "\<forall>j < Suc k. qs[k := []] ! j = []" using Suc.prems(3) kl by (auto simp: less_Suc_eq)
  then obtain s' pq' where e': "flush_loop s1 pq1 None arg (int (Suc k)) n = Some (s', pq')"
    and r: "pktq_rep s' pq' (replicate (length qs) [])" "same_limits pq1 pq'"
      "set (pfreed s') = set (concat (drop (Suc k) qs)) \<union> set (pfreed s1)"
    using Suc.IH [OF rep1, of "Suc k"] Suc.prems(2) by auto
  have "set (concat (drop k qs)) = set (qs ! k) \<union> set (concat (drop (Suc k) qs))"
    using kl by (metis Cons_nth_drop_Suc concat.simps(2) set_append)
  with e e' r fr same_limits_trans [OF lim r(2)] show ?case by (simp add: add.commute) blast
qed

lemma pktq_flush_rep:
  assumes rep: "pktq_rep s pq qs"
  obtains s' pq' where "pktq_flush s pq None arg = Some (s', pq')"
    and "pktq_rep s' pq' (replicate (length qs) [])" and "same_limits pq pq'"
    and "set (pfreed s') = set (concat qs) \<union> set (pfreed s)"
proof (cases "pq_len pq = 0")
  case True
  then have all: "\<forall>i < length qs. qs ! i = []" using pktq_rep_len0 [OF rep] by simp
  then have rq: "replicate (length qs) [] = qs" by (intro nth_equalityI) auto
  show thesis
  proof (rule that [of s pq])
    show "pktq_flush s pq None arg = Some (s, pq)" using True by (simp add: pktq_flush_def)
    show "pktq_rep s pq (replicate (length qs) [])" unfolding rq by (rule rep)
    show "set (pfreed s) = set (concat qs) \<union> set (pfreed s)" unfolding concat_all_Nil [OF all] by simp
  qed simp
next
  case False
  have "length qs = unat (num_prec pq)" using rep by (simp add: pktq_rep_def)
  with flush_loop_rep [OF rep, of 0 "length qs" arg] obtain s' pq' where
    e: "flush_loop s pq None arg 0 (unat (num_prec pq)) = Some (s', pq')"
    and r: "pktq_rep s' pq' (replicate (length qs) [])" "same_limits pq pq'"
      "set (pfreed s') = set (concat qs) \<union> set (pfreed s)" by auto
  moreover have "pq_len pq' = 0" using pktq_rep_len0 [OF r(1)] by simp
  ultimately show thesis using that [OF _ r] False by (simp add: pktq_flush_def)
qed

lemma pktq_init_rep:
  assumes n: "0 < n" "n \<le> 16" and arr: "length (pq_q pq) = 16"
  obtains pq' where "pktq_init pq (int n) max_len = Some (pq', True)"
    and "pktq_rep s pq' (replicate n [])" and "length (pq_q pq') = 16"
    and "pq_max pq' = word_of_int max_len"
    and "\<forall>i < n. qp_max (pq_q pq' ! i) = word_of_int max_len"
proof -
  have "unat (word_of_nat n :: u16) = n" using n by (simp add: unat_of_nat take_bit_nat_eq_self_iff)
  with assms show thesis
    by (intro that [of "fst (the (pktq_init pq (int n) max_len))"])
       (auto simp: pktq_init_def pktq_rep_def prec_rep_def nth_append sum_list_replicate Let_def)
qed

end
