(* ===== verification/Pktq_Props.thy ===== *)
theory Pktq_Props
  imports Pktq_Refine
begin

text \<open>
  The packet queue as an implementation of the strict-priority contract of \<open>Prio_Queue\<close>, and the
  properties of the operations of \<open>hnd_pktq.c\<close>. Each property says that the operation returns
  (no freed or NULL packet is touched and no array is left) and what it does to the lists of
  packets the structure represents.
\<close>

section \<open>The strict-priority contract\<close>

definition pktq_state_rep :: "pkt_store \<times> pktq \<Rightarrow> pkt list list \<Rightarrow> bool" where
  "pktq_state_rep st qs = pktq_rep (fst st) (snd st) qs"

text \<open>How many packets fit whatever their precedences: the least of all the limits.\<close>

definition pktq_cap :: "pkt_store \<times> pktq \<Rightarrow> nat" where
  "pktq_cap st =
     (let pq = snd st in
      Min (set (map unat (pq_max pq # take (unat (num_prec pq)) (map qp_max (pq_q pq))))))"

definition pkt_fresh :: "pkt_store \<times> pktq \<Rightarrow> pkt \<Rightarrow> bool" where
  "pkt_fresh st p \<longleftrightarrow> p \<notin> set (pfreed (fst st)) \<and> plink (fst st) p = None"

definition pktq_enq_st :: "pkt_store \<times> pktq \<Rightarrow> nat \<Rightarrow> pkt \<Rightarrow> (pkt_store \<times> pktq) option" where
  "pktq_enq_st st i p =
     do { (s, pq, _) \<leftarrow> pktq_penq (fst st) (snd st) (int i) (Some p); Some (s, pq) }"

definition pktq_deq_st :: "pkt_store \<times> pktq \<Rightarrow> ((pkt_store \<times> pktq) \<times> pkt option) option" where
  "pktq_deq_st st = do { (s, pq, p, _) \<leftarrow> pktq_deq (fst st) (snd st); Some ((s, pq), p) }"

lemma pktq_cap_limits: "same_limits pq pq' \<Longrightarrow> pktq_cap (s', pq') = pktq_cap (s, pq)"
  by (simp add: same_limits_def pktq_cap_def)

lemma pktq_cap_le:
  assumes "pktq_rep s pq qs" and "i < length qs"
  shows "pktq_cap (s, pq) \<le> unat (pq_max pq)" and "pktq_cap (s, pq) \<le> unat (qp_max (pq_q pq ! i))"
proof -
  have "qp_max (pq_q pq ! i) \<in> set (take (unat (num_prec pq)) (map qp_max (pq_q pq)))"
    using assms by (force simp: pktq_rep_def in_set_conv_nth)
  then show "pktq_cap (s, pq) \<le> unat (qp_max (pq_q pq ! i))"
    unfolding pktq_cap_def Let_def by (intro Min_le) auto
  show "pktq_cap (s, pq) \<le> unat (pq_max pq)"
    unfolding pktq_cap_def Let_def by (intro Min_le) auto
qed

lemma cap_can_enq:
  assumes rep: "pktq_rep s pq qs" and i: "i < length qs"
    and room: "sum_list (map length qs) < pktq_cap (s, pq)"
    and p: "pkt_fresh (s, pq) p" "p \<notin> set (concat qs)"
  shows "can_enq s pq qs i p"
proof -
  have "unat (pq_len pq) = sum_list (map length qs)" using rep by (simp add: pktq_rep_def)
  moreover have "unat (qp_len (pq_q pq ! i)) = length (qs ! i)"
    using pktq_repD(1) [OF rep i] by (simp add: prec_rep_def)
  ultimately show ?thesis
    using pktq_cap_le [OF rep i] room p i nth_length_le_sum [OF i]
      unat_u16_less [of "pq_max pq"]
    by (auto simp: can_enq_def pkt_fresh_def)
qed

lemma pktq_enq_st_law:
  assumes "pktq_state_rep st qs" and i: "i < length qs"
    and "sum_list (map length qs) < pktq_cap st" and p: "pkt_fresh st p" "p \<notin> set (concat qs)"
  shows "\<exists>st'. pktq_enq_st st i p = Some st' \<and> pktq_state_rep st' (qs[i := qs ! i @ [p]]) \<and>
           pktq_cap st' = pktq_cap st \<and>
           (\<forall>x. x \<notin> set (concat qs) \<longrightarrow> pkt_fresh st x \<longrightarrow> pkt_fresh st' x)"
proof -
  obtain s pq where st: "st = (s, pq)" by (cases st)
  have rep: "pktq_rep s pq qs" using assms by (simp add: st pktq_state_rep_def)
  have can: "can_enq s pq qs i p"
    by (rule cap_can_enq [OF rep i]) (use assms in \<open>simp_all add: st\<close>)
  obtain s' pq' where r: "pktq_penq s pq (int i) (Some p) = Some (s', pq', Some p)"
      "pktq_rep s' pq' (qs[i := qs ! i @ [p]])" "same_limits pq pq'" "pfreed s' = pfreed s"
      "\<And>x. x \<notin> set (qs ! i) \<Longrightarrow> plink s' x = plink s x"
    by (rule pktq_penq_rep [OF rep can]) blast
  have "pkt_fresh (s', pq') x" if "x \<notin> set (concat qs)" and "pkt_fresh st x" for x
    using that r(4) r(5) [of x] i by (auto simp: pkt_fresh_def st)
  then show ?thesis
    using r pktq_cap_limits [OF r(3)] by (auto simp: pktq_enq_st_def pktq_state_rep_def st)
qed

lemma pktq_deq_st_top:
  assumes "pktq_state_rep st qs" and top: "is_top qs k" and k: "qs ! k = p # xs"
  shows "\<exists>st'. pktq_deq_st st = Some (st', Some p) \<and> pktq_state_rep st' (qs[k := xs]) \<and>
           pktq_cap st' = pktq_cap st"
proof -
  obtain s pq where st: "st = (s, pq)" by (cases st)
  have rep: "pktq_rep s pq qs" using assms by (simp add: st pktq_state_rep_def)
  from rep show ?thesis
  proof (cases rule: pktq_deq_rep)
    case empty
    then show ?thesis using top by (auto simp: is_top_def)
  next
    case (pkt k' p' xs' s' pq')
    then have "k' = k" using top by (metis is_top_def linorder_neqE_nat)
    with pkt k show ?thesis
      using pktq_cap_limits [OF pkt(5)] by (auto simp: pktq_deq_st_def pktq_state_rep_def st)
  qed
qed

lemma pktq_deq_st_empty:
  assumes "pktq_state_rep st qs" and none: "\<forall>i < length qs. qs ! i = []"
  shows "\<exists>st'. pktq_deq_st st = Some (st', None) \<and> pktq_state_rep st' qs"
proof -
  obtain s pq where st: "st = (s, pq)" by (cases st)
  have rep: "pktq_rep s pq qs" using assms by (simp add: st pktq_state_rep_def)
  from rep show ?thesis
    by (cases rule: pktq_deq_rep)
      (use none rep in \<open>auto simp: pktq_deq_st_def pktq_state_rep_def st is_top_def\<close>)
qed

interpretation pq: prio_queue pktq_state_rep pktq_cap pkt_fresh pktq_enq_st pktq_deq_st
  by unfold_locales (fact pktq_enq_st_law pktq_deq_st_empty pktq_deq_st_top)+

section \<open>A concrete queue\<close>

text \<open>Two precedences: packets 10 and 11 at precedence 0, packet 20 at precedence 1.\<close>

definition demo_store :: pkt_store where
  "demo_store = \<lparr>plink = (\<lambda>x. if x = 10 then Some 11 else None), pfreed = []\<rparr>"

definition demo_pktq :: pktq where
  "demo_pktq = \<lparr>num_prec = 2, hi_prec = 1, pq_max = 8, pq_len = 3,
     pq_q = [\<lparr>qp_head = Some 10, qp_tail = Some 11, qp_len = 2, qp_max = 8\<rparr>,
             \<lparr>qp_head = Some 20, qp_tail = Some 20, qp_len = 1, qp_max = 8\<rparr>]\<rparr>"

definition demo_idle :: pktq where
  "demo_idle = \<lparr>num_prec = 2, hi_prec = 0, pq_max = 8, pq_len = 0,
     pq_q = [\<lparr>qp_head = None, qp_tail = None, qp_len = 0, qp_max = 8\<rparr>,
             \<lparr>qp_head = None, qp_tail = None, qp_len = 0, qp_max = 8\<rparr>]\<rparr>"

lemmas demo_simps =
  demo_store_def demo_pktq_def demo_idle_def pktq_rep_def prec_rep_def pktq_full_def All_less_Suc
  nth_Cons' word_le_nat_alt

lemma demo_rep: "pktq_rep demo_store demo_pktq [[10, 11], [20]]"
  by (simp add: demo_simps)

lemma demo_idle_rep: "pktq_rep demo_store demo_idle [[], []]"
  by (simp add: demo_simps)

lemma demo_idle_cap: "pktq_cap (demo_store, demo_idle) = 8"
  by (simp add: pktq_cap_def demo_idle_def)

lemma demo_fresh: "x \<noteq> 10 \<Longrightarrow> pkt_fresh (demo_store, pq) x"
  by (simp add: pkt_fresh_def demo_store_def)

section \<open>Properties\<close>

text \<open>
  C1. A burst of enqueues (\<open>pktq_penq\<close>) into an empty queue followed by as many dequeues
  (\<open>pktq_deq\<close>) never touches a NULL or stale packet, and returns exactly the
  packets of the burst: higher precedences first, and within a precedence in arrival order. The
  queue is then empty and well formed again.
\<close>

theorem pktq_strict_priority_fifo:
  assumes "pktq_rep s pq (replicate n [])" and "distinct (map snd ps)"
    and "\<forall>(i, p) \<in> set ps. i < n \<and> pkt_fresh (s, pq) p" and "length ps \<le> pktq_cap (s, pq)"
  shows "\<exists>st1 s2 pq2. enq_all pktq_enq_st (s, pq) ps = Some st1 \<and>
           drain pktq_deq_st (length ps) st1 =
             Some ((s2, pq2), concat (map (arrivals ps) (rev [0..<n]))) \<and>
           pktq_rep s2 pq2 (replicate n [])"
  using pq.burst_then_drain [of "(s, pq)" n ps] assms by (auto simp: pktq_state_rep_def)

theorem pktq_strict_priority_fifo_witness:
  "\<exists>st1 s2 pq2.
     enq_all pktq_enq_st (demo_store, demo_idle) [(0, 30), (1, 20), (0, 31)] = Some st1 \<and>
     drain pktq_deq_st 3 st1 = Some ((s2, pq2), [20, 30, 31]) \<and>
     pktq_rep s2 pq2 [[], []]"
  using pktq_strict_priority_fifo [of demo_store demo_idle 2 "[(0, 30), (1, 20), (0, 31)]"]
    demo_idle_rep
  by (simp add: numeral_2_eq_2 numeral_3_eq_3 demo_idle_cap demo_fresh arrivals_def
      del: enq_all.simps drain.simps)



text \<open>
  C3. \<open>pktq_deq\<close> takes the head of the highest non-empty precedence, reports that precedence and
  clears the packet's link; the packet and precedence are those \<open>pktq_peek\<close> shows beforehand. On an
  empty queue both return NULL.
\<close>

theorem pktq_deq_refines:
  assumes rep: "pktq_rep s pq qs"
  shows "(concat qs = [] \<and> pktq_deq s pq = Some (s, pq, None, None) \<and>
          pktq_peek pq = Some (pq, None, None)) \<or>
         (\<exists>k p xs s' pq' pq''. is_top qs k \<and> qs ! k = p # xs \<and>
            pktq_deq s pq = Some (s', pq', Some p, Some (int k)) \<and>
            pktq_peek pq = Some (pq'', Some p, Some (int k)) \<and> pktq_rep s pq'' qs \<and>
            pktq_rep s' pq' (qs[k := xs]) \<and> same_limits pq pq' \<and>
            pfreed s' = pfreed s \<and> plink s' p = None)"
  using rep
proof (cases rule: pktq_deq_rep)
  case empty
  note none = concat_all_Nil [OF empty(1)] and idle = empty
  from rep show ?thesis
    by (cases rule: pktq_peek_rep) (use none idle in \<open>auto simp: is_top_def\<close>)
next
  case (pkt k p xs s' pq')
  from rep show ?thesis
  proof (cases rule: pktq_peek_rep)
    case empty
    then show ?thesis using pkt(1) by (auto simp: is_top_def)
  next
    case (pkt k' pq'')
    then have "k' = k" using \<open>is_top qs k\<close> by (metis is_top_def linorder_neqE_nat)
    then show ?thesis using pkt \<open>is_top qs k\<close> \<open>qs ! k = p # xs\<close>
      \<open>pktq_deq s pq = _\<close> \<open>pktq_rep s' pq' _\<close> \<open>same_limits pq pq'\<close> \<open>pfreed s' = _\<close> \<open>plink s' p = _\<close>
      by (metis list.sel(1))
  qed
qed

theorem pktq_deq_refines_witness:
  "\<exists>s' pq'. pktq_deq demo_store demo_pktq = Some (s', pq', Some 20, Some 1) \<and>
     pktq_rep s' pq' [[10, 11], []]"
proof -
  have top: "is_top [[10, 11], [20 :: nat]] k \<longleftrightarrow> k = 1" for k
    by (auto simp: is_top_def less_Suc_eq nth_Cons')
  show ?thesis using pktq_deq_refines [OF demo_rep] by (auto simp: top)
qed

text \<open>
  Under a precedence mask, \<open>pktq_mdeq\<close> takes the head of the highest non-empty precedence whose
  bit is set, \<open>pktq_mlen\<close> counts exactly the packets at the set precedences, and \<open>pktq_mdeq\<close> returns
  NULL exactly when that count is zero.
\<close>

theorem pktq_mdeq_refines:
  fixes bmp :: u32
  assumes rep: "pktq_rep s pq qs"
  defines "n \<equiv> \<Sum>i < length qs. if bit bmp i then length (qs ! i) else 0"
  shows "pktq_mlen pq bmp = Some (int n) \<and>
         (if n = 0
          then \<exists>pq'. pktq_mdeq s pq bmp = Some (s, pq', None, None) \<and> pktq_rep s pq' qs
          else \<exists>k p xs s' pq'. is_top_of bmp qs k \<and> qs ! k = p # xs \<and>
                 pktq_mdeq s pq bmp = Some (s', pq', Some p, Some (int k)) \<and>
                 pktq_rep s' pq' (qs[k := xs]) \<and> pfreed s' = pfreed s)"
proof -
  have n0: "n = 0 \<longleftrightarrow> (\<forall>i < length qs. bit bmp i \<longrightarrow> qs ! i = [])"
    by (auto simp: n_def)
  from rep show ?thesis
  proof (cases rule: pktq_mdeq_rep [where bmp = bmp])
    case (empty pq')
    then show ?thesis using pktq_mlen_rep [OF rep] n0 by (auto simp: n_def)
  next
    case (pkt k p xs s' pq')
    then have "n \<noteq> 0" unfolding n0 by (auto simp: is_top_of_def)
    then show ?thesis using pkt pktq_mlen_rep [OF rep] unfolding n_def by auto
  qed
qed

theorem pktq_mdeq_refines_witness:
  "pktq_mlen demo_pktq 1 = Some 2 \<and>
   (\<exists>s' pq'. pktq_mdeq demo_store demo_pktq 1 = Some (s', pq', Some 10, Some 0) \<and>
      pktq_rep s' pq' [[11], [20]])"
proof -
  have top: "is_top_of 1 [[10, 11], [20 :: nat]] k \<longleftrightarrow> k = 0" for k
    by (auto simp: is_top_of_def less_Suc_eq nth_Cons' bit_1_iff)
  show ?thesis
    using pktq_mdeq_refines [OF demo_rep, of 1]
    by (auto simp: top bit_1_iff numeral_2_eq_2 lessThan_Suc)
qed

text \<open>
  C4. \<open>pktq_pdel\<close> removes the given packet from its precedence, wherever in the list it is, and
  reports success; a packet that is not there is reported as such and nothing changes.
\<close>

theorem pktq_pdel_refines:
  assumes rep: "pktq_rep s pq qs" and i: "i < length qs"
  shows "\<exists>s' pq'. pktq_pdel s pq (Some p) (int i) = Some (s', pq', p \<in> set (qs ! i)) \<and>
           pktq_rep s' pq' (qs[i := removeAll p (qs ! i)]) \<and> same_limits pq pq' \<and>
           pfreed s' = pfreed s \<and> (p \<in> set (qs ! i) \<longrightarrow> plink s' p = None)"
  using rep i
proof (cases rule: pktq_pdel_rep [where p = p])
  case absent
  then show ?thesis using rep i by auto
next
  case (gone as bs s' pq')
  have "distinct (qs ! i)" using pktq_repD(1) [OF rep i] by (simp add: prec_rep_def)
  then have "removeAll p (qs ! i) = as @ bs" using gone(1) by simp
  then show ?thesis using gone by auto
qed

theorem pktq_pdel_refines_witness:
  "\<exists>s' pq'. pktq_pdel demo_store demo_pktq (Some 11) 0 = Some (s', pq', True) \<and>
     pktq_rep s' pq' [[10], [20]]"
  using pktq_pdel_refines [OF demo_rep, of 0 11] by auto

text \<open>
  \<open>pktq_append\<close> and \<open>pktq_prepend\<close> move a whole list, in order, to the back or the front of a
  precedence and leave the list empty and well formed. Neither checks that the list fits: the
  assertions only ask for one free place, so the length afterwards is bounded by the 16-bit counter
  and not by the limit.
\<close>

theorem pktq_splice_refines:
  assumes rep: "pktq_rep s pq qs" and can: "can_splice s pq qs i list ys"
  shows "(\<exists>s' pq' list'. pktq_append s pq (int i) list = Some (s', pq', list') \<and>
            pktq_rep s' pq' (qs[i := qs ! i @ ys]) \<and> pktq_rep s' list' [[]] \<and> pfreed s' = pfreed s) \<and>
         (\<exists>s' pq' list'. pktq_prepend s pq (int i) list = Some (s', pq', list') \<and>
            pktq_rep s' pq' (qs[i := ys @ qs ! i]) \<and> pktq_rep s' list' [[]] \<and> pfreed s' = pfreed s)"
  using pktq_append_rep [OF rep can] pktq_prepend_rep [OF rep can] by (metis (no_types))

definition demo_list :: spktq where
  "demo_list = \<lparr>num_prec = 1, hi_prec = 0, pq_max = 8, pq_len = 1,
     pq_q = [\<lparr>qp_head = Some 30, qp_tail = Some 30, qp_len = 1, qp_max = 8\<rparr>]\<rparr>"

theorem pktq_splice_refines_witness:
  "\<exists>s' pq' list'. pktq_prepend demo_store demo_pktq 0 demo_list = Some (s', pq', list') \<and>
     pktq_rep s' pq' [[30, 10, 11], [20]] \<and> pktq_rep s' list' [[]]"
proof -
  have "can_splice demo_store demo_pktq [[10, 11], [20]] 0 demo_list [30]"
    by (simp add: can_splice_def demo_list_def demo_simps)
  from pktq_splice_refines [OF demo_rep this] show ?thesis by auto
qed

text \<open>
  C5. \<open>pktq_flush\<close> without a filter empties every precedence and frees every queued packet, each
  exactly once (a second free would have no outcome), and no other packet.
\<close>

theorem pktq_flush_refines:
  assumes "pktq_rep s pq qs"
  shows "\<exists>s' pq'. pktq_flush s pq None arg = Some (s', pq') \<and>
           pktq_rep s' pq' (replicate (length qs) []) \<and> same_limits pq pq' \<and>
           set (pfreed s') = set (concat qs) \<union> set (pfreed s)"
  using pktq_flush_rep [OF assms] by (metis (no_types))

theorem pktq_flush_refines_witness:
  "\<exists>s' pq'. pktq_flush demo_store demo_pktq None 0 = Some (s', pq') \<and>
     pktq_rep s' pq' [[], []] \<and> set (pfreed s') = {10, 11, 20}"
  using pktq_flush_refines [OF demo_rep, of 0]
  by (auto simp: demo_store_def numeral_2_eq_2)

text \<open>
  \<open>pktq_deq_tail\<close> takes the last packet of the lowest non-empty precedence, the packet
  \<open>pktq_peek_tail\<close> shows; \<open>pktq_pdeq_with_fn\<close> takes the first packet of a precedence the filter
  accepts and returns NULL when it accepts none.
\<close>

theorem pktq_selective_deq_refines:
  assumes rep: "pktq_rep s pq qs" and i: "i < length qs"
  shows "(concat qs = [] \<and> pktq_deq_tail s pq = Some (s, pq, None, None) \<or>
          (\<exists>k p xs s' pq'. is_bottom qs k \<and> qs ! k = xs @ [p] \<and>
             pktq_deq_tail s pq = Some (s', pq', Some p, Some (int k)) \<and>
             pktq_rep s' pq' (qs[k := xs]) \<and> plink s' p = None)) \<and>
         (case List.extract (cb_match fn arg) (qs ! i) of
            None \<Rightarrow> pktq_pdeq_with_fn s pq (int i) fn arg = Some (s, pq, None)
          | Some (as, p, bs) \<Rightarrow> \<exists>s' pq'.
              pktq_pdeq_with_fn s pq (int i) fn arg = Some (s', pq', Some p) \<and>
              pktq_rep s' pq' (qs[i := as @ bs]) \<and> plink s' p = None)"
proof
  from rep show "concat qs = [] \<and> pktq_deq_tail s pq = Some (s, pq, None, None) \<or>
      (\<exists>k p xs s' pq'. is_bottom qs k \<and> qs ! k = xs @ [p] \<and>
         pktq_deq_tail s pq = Some (s', pq', Some p, Some (int k)) \<and>
         pktq_rep s' pq' (qs[k := xs]) \<and> plink s' p = None)"
    by (cases rule: pktq_deq_tail_rep) (auto dest: concat_all_Nil simp del: concat_eq_Nil_conv)
  from rep i show "case List.extract (cb_match fn arg) (qs ! i) of
            None \<Rightarrow> pktq_pdeq_with_fn s pq (int i) fn arg = Some (s, pq, None)
          | Some (as, p, bs) \<Rightarrow> \<exists>s' pq'.
              pktq_pdeq_with_fn s pq (int i) fn arg = Some (s', pq', Some p) \<and>
              pktq_rep s' pq' (qs[i := as @ bs]) \<and> plink s' p = None"
  proof (cases rule: pktq_pdeq_with_fn_rep [where fn = fn and arg = arg])
    case none
    then have "List.extract (cb_match fn arg) (qs ! i) = None" by (auto simp: extract_None_iff)
    then show ?thesis using none by simp
  next
    case (pkt as p bs s' pq')
    then have "List.extract (cb_match fn arg) (qs ! i) = Some (as, p, bs)"
      by (auto simp: extract_Some_iff)
    then show ?thesis using pkt by auto
  qed
qed

theorem pktq_selective_deq_refines_witness:
  "\<exists>s' pq'. pktq_pdeq_with_fn demo_store demo_pktq 0 (Some (\<lambda>p arg. int p = arg)) 11
      = Some (s', pq', Some 11) \<and> pktq_rep s' pq' [[10], [20]]"
  using pktq_selective_deq_refines [OF demo_rep, of 0 "Some (\<lambda>p arg. int p = arg)" 11]
  by (auto simp: extract_Cons_code cb_match_def)

text \<open>
  \<open>pktq_pflush\<close> with a filter that accepts the last packet of a precedence but not all of it
  frees that packet and leaves \<open>q->tail\<close> pointing at it: the loop never moves the tail, and only an
  emptied precedence resets it. Every later \<open>pktq_penq\<close> to that precedence then has no outcome: it
  writes through the freed packet.
\<close>

theorem pktq_pflush_stale_tail:
  assumes rep: "pktq_rep s pq qs" and i: "i < length qs"
    and lst: "cb_match fn arg (last (qs ! i))" and keep: "x \<in> set (qs ! i)" "\<not> cb_match fn arg x"
  shows "\<exists>s' pq' q'. pktq_pflush s pq (int i) fn arg = Some (s', pq') \<and> get_q pq' (int i) = Some q' \<and>
           qp_head q' \<noteq> None \<and> qp_tail q' = Some (last (qs ! i)) \<and> last (qs ! i) \<in> set (pfreed s') \<and>
           (\<forall>p. pktq_penq s' pq' (int i) (Some p) = None)"
proof -
  let ?kept = "filter (\<lambda>x. \<not> cb_match fn arg x) (qs ! i)"
  have ne: "?kept \<noteq> []" "qs ! i \<noteq> []" using keep by (auto simp: filter_empty_conv)
  obtain s' q' where r: "pktq_pflush s pq (int i) fn arg = Some (s', (put_q pq (int i) q')
        \<lparr>pq_len := pq_len pq - of_nat (length (filter (cb_match fn arg) (qs ! i)))\<rparr>)"
      and h: "seg (plink s') (qp_head q') ?kept None"
      and t: "qp_tail q' = (if ?kept = [] then None else last_ptr (qs ! i))"
      and f: "pfreed s' = rev (filter (cb_match fn arg) (qs ! i)) @ pfreed s"
    by (rule pktq_pflush_frees [OF rep i, of fn arg]) blast
  let ?pq' = "(put_q pq (int i) q')\<lparr>pq_len := pq_len pq - of_nat (length (filter (cb_match fn arg) (qs ! i)))\<rparr>"
  have q: "get_q ?pq' (int i) = Some q'"
    using pktq_repD(2) [OF rep i] by (simp add: get_q_def put_q_def)
  have freed: "last (qs ! i) \<in> set (pfreed s')" using f lst ne(2) by simp
  have tl: "qp_tail q' = Some (last (qs ! i))" using t ne by simp
  have hd: "qp_head q' \<noteq> None" using h ne(1) by (cases ?kept) auto
  have "link_tail s' q' p = None" for p
    using hd tl freed by (simp add: link_tail_def PKTSETLINK_def)
  then have "pktq_penq s' ?pq' (int i) (Some p) = None" for p
    by (simp add: pktq_penq_def q bind_eq_None_conv)
  then show ?thesis using r q hd tl freed by blast
qed

theorem pktq_pflush_stale_tail_witness:
  "\<exists>s' pq'. pktq_pflush demo_store demo_pktq 0 (Some (\<lambda>p arg. int p = arg)) 11 = Some (s', pq') \<and>
     pktq_penq s' pq' 0 (Some 12) = None"
  using pktq_pflush_stale_tail [OF demo_rep, of 0 "Some (\<lambda>p arg. int p = arg)" 11 10]
  by (auto simp: cb_match_def)

text \<open>
  \<open>pktq_pdeq_prev\<close> removes the packet after \<open>prev_p\<close> without looking at \<open>q->tail\<close>. When that
  packet is the last one the tail is left on the removed packet, and the packet that the next
  \<open>pktq_penq\<close> adds is linked behind the removed one: the queue counts it, but following the links
  from the head never reaches it.
\<close>

theorem pktq_pdeq_prev_loses_tail:
  assumes rep: "pktq_rep s pq qs" and i: "i < length qs" and qi: "qs ! i = as @ [a, z]"
    and can: "can_enq s pq qs i p"
  shows "\<exists>s1 pq1 s2 pq2. pktq_pdeq_prev s pq (int i) (Some a) = Some (s1, pq1, Some z) \<and>
           pktq_penq s1 pq1 (int i) (Some p) = Some (s2, pq2, Some p) \<and>
           seg (plink s2) (qp_head (pq_q pq2 ! i)) (as @ [a]) None \<and> p \<notin> set (as @ [a]) \<and>
           unat (qp_len (pq_q pq2 ! i)) = Suc (length (as @ [a]))"
proof -
  let ?q = "pq_q pq ! i"
  note q = pktq_repD [OF rep i]
  have seg: "seg (plink s) (qp_head ?q) (as @ [a, z]) None" and tl: "qp_tail ?q = Some z"
    and dist: "distinct (as @ [a, z])" and len: "unat (qp_len ?q) = length as + 2"
    and live: "a \<notin> set (pfreed s)" "z \<notin> set (pfreed s)"
    using q(1) qi by (auto simp: prec_rep_def)
  have pnew: "p \<noteq> a" "p \<noteq> z" "p \<notin> set as" "p \<notin> set (pfreed s)" "plink s p = None"
    using can qi by (auto simp: can_enq_def)
  have lnk: "plink s a = Some z" "plink s z = None" "a \<noteq> z" using seg dist by auto
  let ?q1 = "?q\<lparr>qp_len := qp_len ?q - 1\<rparr>"
  let ?pq1 = "(put_q pq (int i) ?q1)\<lparr>pq_len := pq_len pq - 1\<rparr>"
  let ?s1 = "s\<lparr>plink := (plink s)(a := None, z := None)\<rparr>"
  have deq: "pktq_pdeq_prev s pq (int i) (Some a) = Some (?s1, ?pq1, Some z)"
    using lnk live q by (simp add: pktq_pdeq_prev_def)
  have len1: "unat (qp_len ?q - 1) = length as + 1"
    using len by (simp add: unat_dec)
  have plen1: "unat (pq_len pq - 1) = unat (pq_len pq) - 1"
    using q(7) qi by (intro unat_dec) simp
  have get1: "get_q ?pq1 (int i) = Some ?q1"
    using q(2) by (simp add: get_q_def put_q_def)
  have hd: "qp_head ?q \<noteq> None" using seg by (cases as) auto
  let ?s2 = "?s1\<lparr>plink := (plink ?s1)(z := Some p)\<rparr>"
  let ?q2 = "?q1\<lparr>qp_tail := Some p, qp_len := qp_len ?q1 + 1\<rparr>"
  let ?pq2 = "raise_hi ((put_q ?pq1 (int i) ?q2)\<lparr>pq_len := pq_len ?pq1 + 1\<rparr>) (int i)"
  have enq: "pktq_penq ?s1 ?pq1 (int i) (Some p) = Some (?s2, ?pq2, Some p)"
    using get1 hd tl pnew live
    by (simp add: pktq_penq_def link_tail_def)
  have q2: "pq_q ?pq2 ! i = ?q2"
    using q(2) by (simp add: raise_hi_def put_q_def)
  have "seg (plink ?s2) (qp_head ?q) (as @ [a]) None"
    using seg dist by auto
  then show ?thesis
    using deq enq q2 pnew len len1 by (simp del: seg_append)
qed

theorem pktq_pdeq_prev_loses_tail_witness:
  "\<exists>s1 pq1 s2 pq2. pktq_pdeq_prev demo_store demo_pktq 0 (Some 10) = Some (s1, pq1, Some 11) \<and>
     pktq_penq s1 pq1 0 (Some 12) = Some (s2, pq2, Some 12) \<and>
     seg (plink s2) (qp_head (pq_q pq2 ! 0)) [10] None \<and> unat (qp_len (pq_q pq2 ! 0)) = 2"
proof -
  have "can_enq demo_store demo_pktq [[10, 11], [20]] 0 12"
    by (simp add: can_enq_def demo_simps)
  from pktq_pdeq_prev_loses_tail [OF demo_rep _ _ this, of "[]" 10 11]
  show ?thesis by (auto simp del: seg.simps)
qed

end
