(* ===== verification/Id_Alloc.thy ===== *)
theory Id_Alloc
  imports DHD_Prelude
begin

text \<open>
  The contract of an id allocator: at any time the ids it manages are split into the free ones and
  the ones handed out. The client of the contract allocates and gives back ids it holds, in any
  order; for every allocator that satisfies the laws its ids are pairwise distinct, none is lost,
  and allocation fails only when every id is held.
\<close>

section \<open>A client\<close>

datatype id_op = Take | Give nat

text \<open>
  The client holds a list of ids. \<open>Take\<close> asks for one and keeps it if there is one; \<open>Give k\<close> gives
  back the id at position \<open>k\<close> of its list (nothing if there is none).
\<close>

fun id_client ::
  "('st \<Rightarrow> ('st \<times> 'id option) option) \<Rightarrow> ('st \<Rightarrow> 'id \<Rightarrow> 'st option) \<Rightarrow> id_op list \<Rightarrow>
     'st \<Rightarrow> 'id list \<Rightarrow> ('st \<times> 'id list) option" where
  "id_client alloc free [] st held = Some (st, held)"
| "id_client alloc free (Take # ops) st held = do {
     (st', r) \<leftarrow> alloc st;
     id_client alloc free ops st' (case r of None \<Rightarrow> held | Some x \<Rightarrow> held @ [x])
   }"
| "id_client alloc free (Give k # ops) st held =
     (if k < length held
      then do { st' \<leftarrow> free st (held ! k); id_client alloc free ops st' (take k held @ drop (Suc k) held) }
      else id_client alloc free ops st held)"

section \<open>The contract\<close>

locale id_alloc =
  fixes rep :: "'st \<Rightarrow> 'id set \<Rightarrow> 'id set \<Rightarrow> bool"
    and alloc :: "'st \<Rightarrow> ('st \<times> 'id option) option"
    and free :: "'st \<Rightarrow> 'id \<Rightarrow> 'st option"
  assumes rep_disjoint: "rep st avail used \<Longrightarrow> avail \<inter> used = {}"
    and alloc_some:
      "rep st avail used \<Longrightarrow> avail \<noteq> {} \<Longrightarrow>
       \<exists>st' x. alloc st = Some (st', Some x) \<and> x \<in> avail \<and> rep st' (avail - {x}) (insert x used)"
    and alloc_none:
      "rep st {} used \<Longrightarrow> \<exists>st'. alloc st = Some (st', None) \<and> rep st' {} used"
    and free_used:
      "rep st avail used \<Longrightarrow> x \<in> used \<Longrightarrow>
       \<exists>st'. free st x = Some st' \<and> rep st' (insert x avail) (used - {x})"
begin

lemma client_safe:
  assumes "rep st avail used" and "distinct held" and "set held = used"
  shows "\<exists>st' held' avail'. id_client alloc free ops st held = Some (st', held') \<and>
           rep st' avail' (set held') \<and> distinct held' \<and> avail' \<union> set held' = avail \<union> used"
  using assms
proof (induction ops arbitrary: st avail used held)
  case Nil
  then show ?case by auto
next
  case (Cons op ops)
  show ?case
  proof (cases op)
    case Take
    show ?thesis
    proof (cases "avail = {}")
      case True
      then obtain st' where st': "alloc st = Some (st', None)" "rep st' {} used"
        using alloc_none Cons.prems(1) by blast
      show ?thesis using Cons.IH [OF st'(2) Cons.prems(2,3)] st'(1) True by (simp add: Take)
    next
      case False
      then obtain st' x where st': "alloc st = Some (st', Some x)" "x \<in> avail"
          "rep st' (avail - {x}) (insert x used)"
        using alloc_some [OF Cons.prems(1)] by blast
      have "x \<notin> used" using st'(2) rep_disjoint [OF Cons.prems(1)] by blast
      then have "distinct (held @ [x])" "set (held @ [x]) = insert x used"
        using Cons.prems by auto
      moreover have "avail - {x} \<union> insert x used = avail \<union> used" using st'(2) by blast
      ultimately show ?thesis using Cons.IH [OF st'(3)] st'(1) by (simp add: Take)
    qed
  next
    case (Give k)
    show ?thesis
    proof (cases "k < length held")
      case True
      let ?held = "take k held @ drop (Suc k) held"
      have split: "held = take k held @ held ! k # drop (Suc k) held"
        using True by (rule id_take_nth_drop)
      have in_used: "held ! k \<in> used" using True Cons.prems(3) by auto
      then obtain st' where st': "free st (held ! k) = Some st'"
          "rep st' (insert (held ! k) avail) (used - {held ! k})"
        using free_used [OF Cons.prems(1)] by blast
      have "distinct ?held" "set ?held = used - {held ! k}"
        using Cons.prems(2,3) by (subst (asm) (1 2) split; auto)+
      moreover have "insert (held ! k) avail \<union> (used - {held ! k}) = avail \<union> used"
        using in_used by blast
      ultimately show ?thesis using Cons.IH [OF st'(2)] st'(1) True by (simp add: Give)
    next
      case False
      then show ?thesis using Cons.IH [OF Cons.prems] by (simp add: Give)
    qed
  qed
qed

lemma alloc_after_free:
  assumes "rep st avail used" and "x \<in> used"
  shows "\<exists>st1 st2 y. free st x = Some st1 \<and> alloc st1 = Some (st2, Some y) \<and>
           y \<in> insert x avail"
  using free_used [OF assms] alloc_some by (metis insert_not_empty)

end

end
