(* ===== verification/Mwbmap.thy ===== *)
theory Mwbmap
  imports Id_Alloc
begin

text \<open>
  The hierarchical multiword bitmap allocator of \<open>shared/bcmutils.c\<close> (\<open>bcm_mwbmap_*\<close>) and the bit
  utilities of \<open>include/bcmutils.h\<close> it uses. The build is the default one: \<open>BCM_MWBMAP_DEBUG\<close> and
  \<open>BCM_MWBMAP_USE_CNTSETBITS\<close> are not defined, so \<open>MWBMAP_ASSERT\<close> and \<open>BCM_MWBMAP_AUDIT\<close> are empty
  and the count of free ids per word is kept in \<open>wd_count\<close>. The free count \<open>ifree\<close>, an \<open>int32\<close>
  between 0 and 65536, is an \<open>int\<close>.
\<close>

unbundle bit_operations_syntax

section \<open>Bit utilities\<close>

text \<open>\<open>while (u32arg) { shifts++; u32arg >>= 1; }\<close>\<close>

function clz_shifts :: "u32 \<Rightarrow> int \<Rightarrow> int" where
  "clz_shifts u shifts = (if u \<noteq> 0 then clz_shifts (drop_bit 1 u) (shifts + 1) else shifts)"
  by pat_completeness auto
termination
proof (relation "measure (\<lambda>(u, s). unat u)")
  fix u :: u32 and s :: int
  assume "u \<noteq> 0"
  then have "0 < unat u" by (simp add: unat_gt_0)
  then show "((drop_bit 1 u, s + 1), u, s) \<in> measure (\<lambda>(u, s). unat u)"
    by (simp add: drop_bit_eq_div unat_div_distrib)
qed simp

declare clz_shifts.simps [simp del]

definition C_bcm_count_leading_zeros :: "u32 \<Rightarrow> int" where
  "C_bcm_count_leading_zeros u = 32 - clz_shifts u 0"

text \<open>The table \<open>_CSBTBL\<close> as its macros \<open>B2\<close>, \<open>B4\<close> and \<open>B6\<close> spell it, and the table-driven count.\<close>

definition B2 :: "u8 \<Rightarrow> u8 list" where
  "B2 n = [n, n + 1, n + 1, n + 2]"

definition B4 :: "u8 \<Rightarrow> u8 list" where
  "B4 n = B2 n @ B2 (n + 1) @ B2 (n + 1) @ B2 (n + 2)"

definition B6 :: "u8 \<Rightarrow> u8 list" where
  "B6 n = B4 n @ B4 (n + 1) @ B4 (n + 1) @ B4 (n + 2)"

definition CSBTBL :: "u8 list" where
  "CSBTBL = B6 0 @ B6 (0 + 1) @ B6 (0 + 1) @ B6 (0 + 2)"

definition bcm_cntsetbits :: "u32 \<Rightarrow> u32 option" where
  "bcm_cntsetbits u = do {
     b0 \<leftarrow> arr_get CSBTBL (unat (ucast u :: u8));
     b1 \<leftarrow> arr_get CSBTBL (unat (ucast (drop_bit 8 u) :: u8));
     b2 \<leftarrow> arr_get CSBTBL (unat (ucast (drop_bit 16 u) :: u8));
     b3 \<leftarrow> arr_get CSBTBL (unat (ucast (drop_bit 24 u) :: u8));
     Some (ucast b0 + ucast b1 + ucast b2 + ucast b3)
   }"

section \<open>Data\<close>

abbreviation (input) BCM_MWBMAP_ITEMS_MAX :: nat where "BCM_MWBMAP_ITEMS_MAX \<equiv> 65536"
abbreviation (input) BCM_MWBMAP_WORDS_MAX :: nat where "BCM_MWBMAP_WORDS_MAX \<equiv> 2048"
abbreviation (input) BCM_MWBMAP_WDMAP_MAX :: nat where "BCM_MWBMAP_WDMAP_MAX \<equiv> 64"
abbreviation (input) BCM_MWBMAP_INVALID_IDX :: u32 where "BCM_MWBMAP_INVALID_IDX \<equiv> 0xFFFFFFFF"

definition BCM_MWBMAP_MODOP :: "u32 \<Rightarrow> u32" where "BCM_MWBMAP_MODOP ix = ix AND 31"
definition BCM_MWBMAP_DIVOP :: "u32 \<Rightarrow> u32" where "BCM_MWBMAP_DIVOP ix = drop_bit 5 ix"
definition BCM_MWBMAP_MULOP :: "u32 \<Rightarrow> u32" where "BCM_MWBMAP_MULOP ix = push_bit 5 ix"

record bcm_mwbmap =
  wmaps :: u16
  imaps :: u16
  ifree :: int
  mwb_total :: u16
  wd_bitmap :: "u32 list"
  wd_count :: "u8 list"
  id_bitmap :: "u32 list"

section \<open>Operations\<close>

text \<open>The loops of \<open>bcm_mwbmap_init\<close>, with \<open>n\<close> rounds left.\<close>

fun fill_ids :: "nat \<Rightarrow> nat \<Rightarrow> bcm_mwbmap \<Rightarrow> bcm_mwbmap option" where
  "fill_ids 0 wordix m = Some m"
| "fill_ids (Suc n) wordix m = do {
     ids \<leftarrow> arr_set (id_bitmap m) wordix (NOT 0);
     cnt \<leftarrow> arr_set (wd_count m) wordix 32;
     fill_ids n (Suc wordix) (m\<lparr>id_bitmap := ids, wd_count := cnt\<rparr>)
   }"

fun fill_wds :: "nat \<Rightarrow> nat \<Rightarrow> bcm_mwbmap \<Rightarrow> bcm_mwbmap option" where
  "fill_wds 0 wordix m = Some m"
| "fill_wds (Suc n) wordix m = do {
     wds \<leftarrow> arr_set (wd_bitmap m) wordix (NOT 0);
     fill_wds n (Suc wordix) (m\<lparr>wd_bitmap := wds\<rparr>)
   }"

text \<open>\<open>words = DIVOP(ix) + ((extra != 0U) ? 1U : 0U)\<close> with \<open>extra = MODOP(ix)\<close>.\<close>

definition words_for :: "u32 \<Rightarrow> u32" where
  "words_for ix = BCM_MWBMAP_DIVOP ix + (if BCM_MWBMAP_MODOP ix \<noteq> 0 then 1 else 0)"

text \<open>\<open>mem_ok\<close> says whether \<open>MALLOC\<close> returned memory; where it did not, \<open>ASSERT(0)\<close> stops the code.\<close>

definition bcm_mwbmap_init :: "bool \<Rightarrow> u32 \<Rightarrow> bcm_mwbmap option" where
  "bcm_mwbmap_init mem_ok items_max = do {
     ASSERT (unat items_max \<le> BCM_MWBMAP_ITEMS_MAX);
     let extra = BCM_MWBMAP_MODOP items_max;
     let words = words_for items_max;
     ASSERT mem_ok;
     let m = \<lparr>wmaps = 0, imaps = ucast words, ifree = uint items_max, mwb_total = ucast items_max,
              wd_bitmap = replicate BCM_MWBMAP_WDMAP_MAX 0,
              wd_count = replicate BCM_MWBMAP_WORDS_MAX 0,
              id_bitmap = replicate (unat words) 0\<rparr>;
     m \<leftarrow> fill_ids (unat (imaps m)) 0 m;
     m \<leftarrow> (if extra \<noteq> 0
          then do {
            let l = unat (imaps m) - 1;
            w \<leftarrow> arr_get (id_bitmap m) l;
            ids \<leftarrow> arr_set (id_bitmap m) l (w XOR push_bit (unat extra) (NOT 0));
            cnt \<leftarrow> arr_set (wd_count m) l (ucast extra);
            Some (m\<lparr>id_bitmap := ids, wd_count := cnt\<rparr>)
          }
          else Some m);
     let extra = BCM_MWBMAP_MODOP (ucast (imaps m));
     let words = words_for (ucast (imaps m));
     let m = m\<lparr>wmaps := ucast words\<rparr>;
     m \<leftarrow> fill_wds (unat (wmaps m)) 0 m;
     if extra \<noteq> 0
     then do {
       let l = unat (wmaps m) - 1;
       w \<leftarrow> arr_get (wd_bitmap m) l;
       wds \<leftarrow> arr_set (wd_bitmap m) l (w XOR push_bit (unat extra) (NOT 0));
       Some (m\<lparr>wd_bitmap := wds\<rparr>)
     }
     else Some m
   }"

text \<open>
  \<open>bcm_mwbmap_fini\<close> only releases the block: the model is the size it passes to \<open>MFREE\<close>, with
  \<open>hdr\<close> the size of the structure without its bitmap.
\<close>

definition bcm_mwbmap_fini :: "nat \<Rightarrow> bcm_mwbmap \<Rightarrow> nat" where
  "bcm_mwbmap_fini hdr m = hdr + 4 * unat (imaps m)"

text \<open>\<open>bitmap & -bitmap\<close>: all but the trailing 1 cleared; then the index of that 1.\<close>

definition trailing_one :: "u32 \<Rightarrow> u32" where
  "trailing_one w = w AND (- w)"

definition trailing_index :: "u32 \<Rightarrow> u32" where
  "trailing_index w = 31 - word_of_int (C_bcm_count_leading_zeros (trailing_one w))"

text \<open>The search for the first non-zero word of the first hierarchy.\<close>

fun first_wd :: "nat \<Rightarrow> nat \<Rightarrow> bcm_mwbmap \<Rightarrow> nat option option" where
  "first_wd 0 wordix m = Some None"
| "first_wd (Suc n) wordix m = do {
     w \<leftarrow> arr_get (wd_bitmap m) wordix;
     if w \<noteq> 0 then Some (Some wordix) else first_wd n (Suc wordix) m
   }"

definition bcm_mwbmap_alloc :: "bcm_mwbmap \<Rightarrow> (bcm_mwbmap \<times> u32) option" where
  "bcm_mwbmap_alloc m = do {
     found \<leftarrow> first_wd (unat (wmaps m)) 0 m;
     (case found of
        None \<Rightarrow> do { ASSERT (ifree m = 0); Some (m, BCM_MWBMAP_INVALID_IDX) }
      | Some wd \<Rightarrow> do {
          bitmap \<leftarrow> arr_get (wd_bitmap m) wd;
          let bitix = trailing_index bitmap;
          let wordix = BCM_MWBMAP_MULOP (of_nat wd) + bitix;
          c \<leftarrow> arr_get (wd_count m) (unat wordix);
          let count = c - 1;
          cnt \<leftarrow> arr_set (wd_count m) (unat wordix) count;
          wds \<leftarrow> arr_set (wd_bitmap m) wd
                  (bitmap XOR push_bit (unat bitix) (if count = 0 then 1 else 0));
          idmap \<leftarrow> arr_get (id_bitmap m) (unat wordix);
          ids \<leftarrow> arr_set (id_bitmap m) (unat wordix) (idmap XOR trailing_one idmap);
          Some (m\<lparr>wd_count := cnt, wd_bitmap := wds, ifree := ifree m - 1, id_bitmap := ids\<rparr>,
                BCM_MWBMAP_MULOP wordix + trailing_index idmap)
        })
   }"

definition bcm_mwbmap_force :: "bcm_mwbmap \<Rightarrow> u32 \<Rightarrow> bcm_mwbmap option" where
  "bcm_mwbmap_force m bitix = do {
     ASSERT (unat bitix < unat (mwb_total m));
     let wordix = unat (BCM_MWBMAP_DIVOP bitix);
     let bitmap = push_bit (unat (BCM_MWBMAP_MODOP bitix)) 1;
     w \<leftarrow> arr_get (id_bitmap m) wordix;
     ASSERT (w AND bitmap = bitmap);
     ASSERT (0 \<le> ifree m - 1);
     ids \<leftarrow> arr_set (id_bitmap m) wordix (w XOR bitmap);
     let bitix1 = BCM_MWBMAP_DIVOP bitix;
     let wordix1 = unat (BCM_MWBMAP_DIVOP bitix1);
     c \<leftarrow> arr_get (wd_count m) (unat bitix1);
     let count = c - 1;
     cnt \<leftarrow> arr_set (wd_count m) (unat bitix1) count;
     wd \<leftarrow> arr_get (wd_bitmap m) wordix1;
     wds \<leftarrow> arr_set (wd_bitmap m) wordix1
             (wd XOR push_bit (unat (BCM_MWBMAP_MODOP bitix1)) (if count = 0 then 1 else 0));
     Some (m\<lparr>id_bitmap := ids, ifree := ifree m - 1, wd_count := cnt, wd_bitmap := wds\<rparr>)
   }"

definition bcm_mwbmap_free :: "bcm_mwbmap \<Rightarrow> u32 \<Rightarrow> bcm_mwbmap option" where
  "bcm_mwbmap_free m bitix = do {
     ASSERT (unat bitix < unat (mwb_total m));
     let wordix = unat (BCM_MWBMAP_DIVOP bitix);
     let bitmap = push_bit (unat (BCM_MWBMAP_MODOP bitix)) 1;
     w \<leftarrow> arr_get (id_bitmap m) wordix;
     ASSERT (w AND bitmap = 0);
     ASSERT (ifree m + 1 \<le> uint (mwb_total m));
     ids \<leftarrow> arr_set (id_bitmap m) wordix (w OR bitmap);
     let bitix1 = BCM_MWBMAP_DIVOP bitix;
     let wordix1 = unat (BCM_MWBMAP_DIVOP bitix1);
     c \<leftarrow> arr_get (wd_count m) (unat bitix1);
     cnt \<leftarrow> arr_set (wd_count m) (unat bitix1) (c + 1);
     wd \<leftarrow> arr_get (wd_bitmap m) wordix1;
     wds \<leftarrow> arr_set (wd_bitmap m) wordix1
             (wd OR push_bit (unat (BCM_MWBMAP_MODOP bitix1)) 1);
     Some (m\<lparr>id_bitmap := ids, ifree := ifree m + 1, wd_count := cnt, wd_bitmap := wds\<rparr>)
   }"

definition bcm_mwbmap_free_cnt :: "bcm_mwbmap \<Rightarrow> int option" where
  "bcm_mwbmap_free_cnt m = do { ASSERT (0 \<le> ifree m); Some (ifree m) }"

definition bcm_mwbmap_isfree :: "bcm_mwbmap \<Rightarrow> u32 \<Rightarrow> bool option" where
  "bcm_mwbmap_isfree m bitix = do {
     ASSERT (unat bitix < unat (mwb_total m));
     w \<leftarrow> arr_get (id_bitmap m) (unat (BCM_MWBMAP_DIVOP bitix));
     Some (w AND push_bit (unat (BCM_MWBMAP_MODOP bitix)) 1 \<noteq> 0)
   }"

text \<open>The audit: for every set bit of the first hierarchy, its count is right and not zero.\<close>

fun audit_bits :: "nat \<Rightarrow> nat \<Rightarrow> nat \<Rightarrow> bcm_mwbmap \<Rightarrow> u32 \<Rightarrow> u32 option" where
  "audit_bits 0 bitix wordix m free_cnt = Some free_cnt"
| "audit_bits (Suc n) bitix wordix m free_cnt = do {
     wd \<leftarrow> arr_get (wd_bitmap m) wordix;
     if bit wd bitix
     then do {
       let ix = 32 * wordix + bitix;
       c \<leftarrow> arr_get (wd_count m) ix;
       let count = (scast c :: u32);
       w \<leftarrow> arr_get (id_bitmap m) ix;
       k \<leftarrow> bcm_cntsetbits w;
       ASSERT (count = k);
       ASSERT (count \<noteq> 0);
       audit_bits n (Suc bitix) wordix m (free_cnt + count)
     }
     else audit_bits n (Suc bitix) wordix m free_cnt
   }"

fun audit_words :: "nat \<Rightarrow> nat \<Rightarrow> bcm_mwbmap \<Rightarrow> u32 \<Rightarrow> u32 option" where
  "audit_words 0 wordix m free_cnt = Some free_cnt"
| "audit_words (Suc n) wordix m free_cnt = do {
     free_cnt \<leftarrow> audit_bits 32 0 wordix m free_cnt;
     audit_words n (Suc wordix) m free_cnt
   }"

definition bcm_mwbmap_audit :: "bcm_mwbmap \<Rightarrow> unit option" where
  "bcm_mwbmap_audit m = do {
     free_cnt \<leftarrow> audit_words (unat (wmaps m)) 0 m 0;
     ASSERT (sint free_cnt = ifree m)
   }"

end
