(* ===== verification/Mwbmap_Rep.thy ===== *)
theory Mwbmap_Rep
  imports Mwbmap
begin

text \<open>
  The two bitmap levels, the per-word counts and the free count of \<open>bcm_mwbmap\<close> always agree with one
  set of free ids, every operation keeps them in agreement, and the allocator satisfies the id
  contract; allocation returns the smallest free id.
\<close>

section \<open>Bits of a word\<close>

definition pop :: "u32 \<Rightarrow> nat" where
  "pop w = card {b. bit w b}"

lemma finite_bits [simp]: "finite {b. bit (w :: u32) b}"
  by (rule finite_subset [of _ "{..<32}"]) (auto dest: bit_imp_le_length)

lemma bit32_less: "bit (w :: u32) b \<Longrightarrow> b < 32"
  by (auto dest: bit_imp_le_length)

lemma pop_0 [simp]: "pop 0 = 0"
  by (simp add: pop_def)

lemma pop_eq_0 [simp]: "pop w = 0 \<longleftrightarrow> w = 0"
  proof
  assume "pop w = 0"
  then have "{b. bit w b} = {}" by (simp add: pop_def)
  then show "w = 0" by (intro bit_eqI) auto
qed simp

lemma pop_le: "pop w \<le> 32"
proof -
  have "{b. bit w b} \<subseteq> {..<32}" by (auto dest: bit32_less)
  then show ?thesis unfolding pop_def using card_mono [of "{..<32::nat}"] by fastforce
qed

lemma bit_single [simp]: "bit ((2 :: u32) ^ b) n \<longleftrightarrow> n = b \<and> b < 32"
  by (auto simp: bit_exp_iff)

lemma pop_clear: "bit w b \<Longrightarrow> pop (w XOR 2 ^ b) = pop w - 1"
proof -
  assume b: "bit w b"
  then have "{n. bit (w XOR 2 ^ b) n} = {n. bit w n} - {b}"
    by (auto simp: bit_xor_iff dest: bit32_less)
  with b show ?thesis by (simp add: pop_def)
qed

lemma pop_set: "\<not> bit w b \<Longrightarrow> b < 32 \<Longrightarrow> pop (w OR 2 ^ b) = Suc (pop w)"
proof -
  assume b: "\<not> bit w b" "b < 32"
  then have "{n. bit (w OR 2 ^ b) n} = insert b {n. bit w n}"
    by (auto simp: bit_or_iff)
  with b show ?thesis by (simp add: pop_def)
qed

lemma lowest_bit:
  fixes w :: u32
  assumes "w \<noteq> 0"
  obtains k where "bit w k" and "k < 32" and "\<forall>j < k. \<not> bit w j"
proof -
  obtain n where "bit w n" using assms by (auto simp: bit_eq_iff)
  then show ?thesis
    using that [of "LEAST n. bit w n"] LeastI [of "bit w"] not_less_Least [of _ "bit w"]
    by (metis bit32_less)
qed

lemma trailing_one_lowest:
  assumes k: "bit w k" "k < 32" and low: "\<forall>j < k. \<not> bit w j"
  shows "trailing_one w = 2 ^ k"
proof -
  define u where "u = unset_bit k w"
  have ub: "bit u n \<longleftrightarrow> bit w n \<and> n \<noteq> k" for n
    by (auto simp: u_def bit_unset_bit_iff)
  have "u AND 2 ^ k = 0" by (rule bit_eqI) (auto simp: bit_and_iff ub)
  then have "u + 2 ^ k = u OR 2 ^ k" by (rule disjunctive_add_eq_or)
  also have "\<dots> = w" using k by (intro bit_eqI) (auto simp: bit_or_iff ub)
  finally have w: "w - 1 = u + mask k" by (simp add: mask_eq_exp_minus_1 algebra_simps)
  have "u AND mask k = 0"
    using low by (intro bit_eqI) (auto simp: bit_and_iff ub bit_mask_iff)
  then have dec: "w - 1 = u OR mask k" unfolding w by (rule disjunctive_add_eq_or)
  show ?thesis
    unfolding trailing_one_def
    using k low by (intro bit_eqI) (auto simp: bit_and_iff bit_minus_iff dec bit_or_iff ub bit_mask_iff)
qed

lemma clz_shifts_pow: "k < 32 \<Longrightarrow> clz_shifts (2 ^ k) s = s + int k + 1"
proof (induction k arbitrary: s)
  case 0
  then show ?case by (simp add: clz_shifts.simps [of 1] clz_shifts.simps [of 0])
next
  case (Suc k)
  have "bit ((2 :: u32) ^ Suc k) (Suc k)" using Suc.prems by (subst bit_single) simp
  then have nz: "(2 :: u32) ^ Suc k \<noteq> 0" by (metis bit_0_eq bot_apply bot_bool_def)
  have sh: "drop_bit 1 ((2 :: u32) ^ Suc k) = 2 ^ k"
    using Suc.prems by (intro bit_eqI) (auto simp: bit_drop_bit_eq simp del: power_Suc)
  show ?case using Suc by (subst clz_shifts.simps) (simp add: nz sh [unfolded One_nat_def] del: power_Suc)
qed

lemma trailing_index_lowest:
  assumes "bit w k" "k < 32" "\<forall>j < k. \<not> bit w j"
  shows "trailing_index w = of_nat k"
proof -
  have "trailing_index w = 31 - word_of_int (31 - int k)"
    using assms by (simp add: trailing_index_def trailing_one_lowest C_bcm_count_leading_zeros_def
        clz_shifts_pow algebra_simps)
  also have "\<dots> = of_nat k" by (simp add: of_int_of_nat_eq)
  finally show ?thesis .
qed

section \<open>The table-driven population count\<close>

function pc :: "nat \<Rightarrow> nat" where
  "pc n = (if n = 0 then 0 else n mod 2 + pc (n div 2))"
  by pat_completeness auto
termination by (relation "measure id") auto

declare pc.simps [simp del]

lemma pc_numeral:
  "pc 0 = 0" "pc (Suc 0) = 1" "pc (numeral (num.Bit0 k)) = pc (numeral k)"
  "pc (numeral (num.Bit1 k)) = Suc (pc (numeral k))"
  by (simp_all add: pc.simps [of 0] pc.simps [of "Suc 0"] pc.simps [of "numeral (num.Bit0 k)"]
      pc.simps [of "numeral (num.Bit1 k)"] numeral_Bit1_div_2)

lemma CSBTBL_pc: "CSBTBL = map (\<lambda>i. of_nat (pc i)) [0..<256]"
proof -
  have "[0..<256] = 0 # 1 # [2..<256]" by (simp add: upt_conv_Cons numeral_2_eq_2)
  then show ?thesis
    by (simp add: CSBTBL_def B6_def B4_def B2_def upt_rec_numeral pc_numeral)
qed

lemma pc_sum: "n < 2 ^ k \<Longrightarrow> pc n = (\<Sum>b < k. of_bool (bit n b))"
proof (induction k arbitrary: n)
  case 0
  then show ?case by (simp add: pc_numeral)
next
  case (Suc k)
  have "pc n = n mod 2 + pc (n div 2)" by (cases "n = 0") (simp_all add: pc.simps [of n] pc_numeral)
  also have "\<dots> = of_bool (bit n 0) + (\<Sum>b < k. of_bool (bit n (Suc b)))"
    using Suc by (simp add: bit_Suc bit_0 of_bool_odd_eq_mod_2)
  also have "\<dots> = (\<Sum>b < Suc k. of_bool (bit n b))" by (rule sum.lessThan_Suc_shift [symmetric])
  finally show ?case .
qed

lemma pop_sum: "pop w = (\<Sum>b < 32. of_bool (bit w b))"
proof -
  have "{b. bit w b} = {b \<in> {..<32}. bit w b}" by (auto dest: bit_imp_le_length)
  then have "pop w = (\<Sum>b \<in> {b \<in> {..<32}. bit w b}. 1)" by (simp add: pop_def)
  also have "\<dots> = (\<Sum>b < 32. if bit w b then 1 else 0)" by (rule sum.inter_filter) simp
  finally show ?thesis by (simp add: of_bool_def)
qed

lemma sum_split: "(\<Sum>b < m + n. f b) = (\<Sum>b < m. f b) + (\<Sum>b < n. f (m + b))"
  for f :: "nat \<Rightarrow> nat"
  by (induction n) (simp_all add: algebra_simps)

lemma CSBTBL_byte:
  fixes u :: u32
  assumes "k + 8 \<le> 32"
  shows "map_option ucast (arr_get CSBTBL (unat (ucast (drop_bit k u) :: u8)))
           = Some (of_nat (\<Sum>b < 8. of_bool (bit u (k + b))) :: u32)"
proof -
  let ?v = "ucast (drop_bit k u) :: u8" and ?n = "\<Sum>b < 8. of_bool (bit u (k + b)) :: nat"
  have v: "unat ?v < 256" using unsigned_less [of ?v, where 'a = nat] by simp
  have "pc (unat ?v) = (\<Sum>b < 8. of_bool (bit (unat ?v) b))" using pc_sum [of _ 8] v by simp
  also have "\<dots> = ?n"
    by (rule sum.cong) (simp_all add: bit_unsigned_iff bit_ucast_iff bit_drop_bit_eq)
  finally have pc: "pc (unat ?v) = ?n" .
  have "?n \<le> 8" using sum_bounded_above [of "{..<8}" "\<lambda>b. of_bool (bit u (k + b))" "1 :: nat"] by simp
  moreover have "ucast (of_nat n :: u8) = (of_nat n :: u32)" if "n \<le> 8" for n
    using that by (simp add: word_unat_eq_iff unsigned_ucast_eq unat_of_nat take_bit_nat_eq_self)
  ultimately have "ucast (of_nat ?n :: u8) = (of_nat ?n :: u32)" by blast
  then show ?thesis using v by (simp add: CSBTBL_pc pc del: sum_of_bool_eq of_nat_sum)
qed

lemma bcm_cntsetbits_pop: "bcm_cntsetbits u = Some (of_nat (pop u))"
proof -
  have "pop u = (\<Sum>b < 8. of_bool (bit u (0 + b))) + (\<Sum>b < 8. of_bool (bit u (8 + b)))
      + (\<Sum>b < 8. of_bool (bit u (16 + b))) + (\<Sum>b < 8. of_bool (bit u (24 + b)))"
    unfolding pop_sum
    using sum_split [of "\<lambda>b. of_bool (bit u b)" 24 8] sum_split [of "\<lambda>b. of_bool (bit u b)" 16 8]
      sum_split [of "\<lambda>b. of_bool (bit u b)" 8 8] by (simp del: sum_of_bool_eq)
  then show ?thesis
    using CSBTBL_byte [of 0 u] CSBTBL_byte [of 8 u] CSBTBL_byte [of 16 u] CSBTBL_byte [of 24 u]
    by (auto simp: bcm_cntsetbits_def simp del: sum_of_bool_eq)
qed
section \<open>Bits of a list of words\<close>

definition bget :: "u32 list \<Rightarrow> nat \<Rightarrow> bool" where
  "bget xs i = bit (xs ! (i div 32)) (i mod 32)"

lemma bget_update:
  "j < length xs \<Longrightarrow>
   bget (xs[j := w]) i = (if i div 32 = j then bit w (i mod 32) else bget xs i)"
  by (simp add: bget_def nth_list_update)

lemma bget_at: "b < 32 \<Longrightarrow> bget xs (32 * j + b) = bit (xs ! j) b"
  by (simp add: bget_def)

section \<open>Index arithmetic\<close>

lemma DIVOP_unat [simp]: "unat (BCM_MWBMAP_DIVOP ix) = unat ix div 32"
  by (simp add: BCM_MWBMAP_DIVOP_def drop_bit_eq_div unat_div_distrib)

lemma MODOP_unat [simp]: "unat (BCM_MWBMAP_MODOP ix) = unat ix mod 32"
proof -
  have "BCM_MWBMAP_MODOP ix = take_bit 5 ix"
    by (simp add: BCM_MWBMAP_MODOP_def take_bit_eq_mask mask_eq_exp_minus_1)
  then have "BCM_MWBMAP_MODOP ix = ix mod 32" by (simp add: take_bit_eq_mod)
  then show ?thesis by (simp add: unat_mod_distrib)
qed

lemma MULOP_add: "BCM_MWBMAP_MULOP (of_nat j) + of_nat b = (of_nat (32 * j + b) :: u32)"
  by (simp add: BCM_MWBMAP_MULOP_def push_bit_eq_mult)

lemma unat_MULOP_add:
  "32 * j + b < 2 ^ 32 \<Longrightarrow> unat (BCM_MWBMAP_MULOP (of_nat j) + of_nat b) = 32 * j + b"
  unfolding MULOP_add by (rule unat_of_nat32)

section \<open>The free ids an allocator represents\<close>

text \<open>The number of 32-bit words that hold \<open>n\<close> bits.\<close>

definition words32 :: "nat \<Rightarrow> nat" where
  "words32 n = (n + 31) div 32"

lemma words32_le: "n \<le> 32 * words32 n"
  by (simp add: words32_def)

lemma div_less_words32: "i < n \<Longrightarrow> i div 32 < words32 n"
  by (simp add: words32_def div_less_iff_less_mult)

definition mwb_sizes :: "bcm_mwbmap \<Rightarrow> bool" where
  "mwb_sizes m \<longleftrightarrow>
     unat (imaps m) = words32 (unat (mwb_total m)) \<and> unat (wmaps m) = words32 (unat (imaps m)) \<and>
     length (id_bitmap m) = unat (imaps m) \<and>
     length (wd_bitmap m) = BCM_MWBMAP_WDMAP_MAX \<and> length (wd_count m) = BCM_MWBMAP_WORDS_MAX"

definition mwb_rep :: "bcm_mwbmap \<Rightarrow> nat set \<Rightarrow> nat set \<Rightarrow> bool" where
  "mwb_rep m avail used \<longleftrightarrow>
     mwb_sizes m \<and>
     avail \<inter> used = {} \<and> avail \<union> used = {..<unat (mwb_total m)} \<and>
     (\<forall>i < 32 * unat (imaps m). bget (id_bitmap m) i \<longleftrightarrow> i \<in> avail) \<and>
     (\<forall>j < unat (imaps m). wd_count m ! j = of_nat (pop (id_bitmap m ! j))) \<and>
     (\<forall>j < 32 * unat (wmaps m).
        bget (wd_bitmap m) j \<longleftrightarrow> j < unat (imaps m) \<and> id_bitmap m ! j \<noteq> 0) \<and>
     ifree m = int (card avail)"

lemma mwb_sizes_bounds:
  assumes "mwb_sizes m"
  shows "unat (imaps m) \<le> 2048" and "unat (wmaps m) \<le> 64"
    and "i < unat (mwb_total m) \<Longrightarrow> i div 32 < unat (imaps m)"
    and "j < unat (imaps m) \<Longrightarrow> j div 32 < unat (wmaps m)"
proof -
  show im: "unat (imaps m) \<le> 2048"
    using assms unat_u16_less [of "mwb_total m"] by (simp add: mwb_sizes_def words32_def)
  then show "unat (wmaps m) \<le> 64"
    using assms by (simp add: mwb_sizes_def words32_def)
  show "i < unat (mwb_total m) \<Longrightarrow> i div 32 < unat (imaps m)"
    and "j < unat (imaps m) \<Longrightarrow> j div 32 < unat (wmaps m)"
    using assms by (simp_all add: mwb_sizes_def div_less_words32)
qed

lemma mwb_repD:
  assumes "mwb_rep m avail used"
  shows "mwb_sizes m" and "avail \<inter> used = {}" and "avail \<union> used = {..<unat (mwb_total m)}"
    and "\<And>i. i < 32 * unat (imaps m) \<Longrightarrow> bget (id_bitmap m) i \<longleftrightarrow> i \<in> avail"
    and "\<And>j. j < unat (imaps m) \<Longrightarrow> wd_count m ! j = of_nat (pop (id_bitmap m ! j))"
    and "\<And>j. j < 32 * unat (wmaps m) \<Longrightarrow>
           bget (wd_bitmap m) j \<longleftrightarrow> j < unat (imaps m) \<and> id_bitmap m ! j \<noteq> 0"
    and "ifree m = int (card avail)" and "finite avail"
    and "\<And>i. i \<in> avail \<Longrightarrow> i < unat (mwb_total m)"
  using assms finite_subset [of avail "{..<unat (mwb_total m)}"] unfolding mwb_rep_def by auto

text \<open>Where a managed id lives: its word and bit in both levels.\<close>

lemma mwb_place:
  assumes "mwb_sizes m" and "i < unat (mwb_total m)"
  shows "i div 32 < unat (imaps m)" and "i div 32 < length (id_bitmap m)"
    and "i div 32 < length (wd_count m)"
    and "i div 32 div 32 < length (wd_bitmap m)" and "i div 32 < 32 * unat (wmaps m)"
proof -
  note b = mwb_sizes_bounds [OF assms(1)]
  show im: "i div 32 < unat (imaps m)" by (rule b(3) [OF assms(2)])
  show "i div 32 < length (id_bitmap m)" "i div 32 < length (wd_count m)"
    using assms(1) im b(1) by (auto simp: mwb_sizes_def)
  have wm: "i div 32 div 32 < unat (wmaps m)" by (rule b(4) [OF im])
  then show "i div 32 div 32 < length (wd_bitmap m)" using assms(1) b(2) by (auto simp: mwb_sizes_def)
  show "i div 32 < 32 * unat (wmaps m)" using wm by (simp add: div_less_iff_less_mult mult.commute)
qed

lemma div_mod_eqI: "i div (32 :: nat) = j div 32 \<Longrightarrow> i mod 32 = j mod 32 \<Longrightarrow> i = j"
  by (metis div_mult_mod_eq)

lemma pop_count_zero: "w \<noteq> 0 \<Longrightarrow> (of_nat (pop w) - 1 :: u8) = of_nat (pop w - 1)"
  using pop_eq_0 [of w] by (cases "pop w") auto

lemma of_nat_u8_eq_0: "n < 256 \<Longrightarrow> (of_nat n :: u8) = 0 \<longleftrightarrow> n = 0"
  by (auto simp: word_of_nat_eq_0_iff dest: dvd_imp_le)

subsection \<open>Taking an id out and putting one back\<close>

definition mwb_take :: "bcm_mwbmap \<Rightarrow> nat \<Rightarrow> bcm_mwbmap" where
  "mwb_take m i =
     (let j = i div 32; count = wd_count m ! j - 1 in
      m\<lparr>id_bitmap := (id_bitmap m)[j := id_bitmap m ! j XOR 2 ^ (i mod 32)],
        ifree := ifree m - 1, wd_count := (wd_count m)[j := count],
        wd_bitmap := (wd_bitmap m)[j div 32 :=
          wd_bitmap m ! (j div 32) XOR push_bit (j mod 32) (if count = 0 then 1 else 0)]\<rparr>)"

definition mwb_give :: "bcm_mwbmap \<Rightarrow> nat \<Rightarrow> bcm_mwbmap" where
  "mwb_give m i =
     (let j = i div 32 in
      m\<lparr>id_bitmap := (id_bitmap m)[j := id_bitmap m ! j OR 2 ^ (i mod 32)],
        ifree := ifree m + 1, wd_count := (wd_count m)[j := wd_count m ! j + 1],
        wd_bitmap := (wd_bitmap m)[j div 32 := wd_bitmap m ! (j div 32) OR 2 ^ (j mod 32)]\<rparr>)"

lemma mwb_take_frame [simp]:
  "imaps (mwb_take m i) = imaps m" "wmaps (mwb_take m i) = wmaps m"
  "mwb_total (mwb_take m i) = mwb_total m"
  by (simp_all add: mwb_take_def Let_def)

lemma mwb_give_frame [simp]:
  "imaps (mwb_give m i) = imaps m" "wmaps (mwb_give m i) = wmaps m"
  "mwb_total (mwb_give m i) = mwb_total m"
  by (simp_all add: mwb_give_def Let_def)

lemma bget_single_update:
  assumes "k div 32 < length xs"
  shows "bget (xs[k div 32 := xs ! (k div 32) XOR 2 ^ (k mod 32)]) n \<longleftrightarrow> (bget xs n \<noteq> (n = k))"
    and "bget (xs[k div 32 := xs ! (k div 32) OR 2 ^ (k mod 32)]) n \<longleftrightarrow> (bget xs n \<or> n = k)"
proof -
  have "n div 32 = k div 32 \<Longrightarrow> n mod 32 = k mod 32 \<longleftrightarrow> n = k" using div_mod_eqI [of n k] by auto
  then show "bget (xs[k div 32 := xs ! (k div 32) XOR 2 ^ (k mod 32)]) n \<longleftrightarrow> (bget xs n \<noteq> (n = k))"
    and "bget (xs[k div 32 := xs ! (k div 32) OR 2 ^ (k mod 32)]) n \<longleftrightarrow> (bget xs n \<or> n = k)"
    using assms by (cases "n div 32 = k div 32"; force simp: bget_update bget_def bit_xor_iff bit_or_iff)+
qed

lemma mwb_take_rep:
  assumes rep: "mwb_rep m avail used" and i: "i \<in> avail"
  shows "mwb_rep (mwb_take m i) (avail - {i}) (insert i used)"
proof -
  note d = mwb_repD [OF rep]
  have it: "i < unat (mwb_total m)" by (rule d(9) [OF i])
  note p = mwb_place [OF d(1) it]
  let ?j = "i div 32" and ?w = "id_bitmap m ! (i div 32)" and ?m = "mwb_take m i"
  let ?w' = "?w XOR 2 ^ (i mod 32)"
  have bi: "bit ?w (i mod 32)"
    using d(4) [of i] i p(1) by (simp add: bget_def div_less_iff_less_mult mult.commute)
  then have w: "?w \<noteq> 0" by auto
  have w': "?w' \<noteq> 0 \<longleftrightarrow> pop ?w - 1 \<noteq> 0"
    using pop_clear [OF bi] pop_eq_0 [of ?w'] by simp
  have cnt: "wd_count m ! ?j - 1 = of_nat (pop ?w')"
    using d(5) [OF p(1)] pop_count_zero [OF w] pop_clear [OF bi] by simp
  have zero: "wd_count m ! ?j - 1 = 0 \<longleftrightarrow> ?w' = 0"
    unfolding cnt using pop_le [of ?w'] by (subst of_nat_u8_eq_0) auto
  have sizes: "mwb_sizes ?m" using d(1) by (simp add: mwb_sizes_def mwb_take_def Let_def)
  have bits: "bget (id_bitmap ?m) n \<longleftrightarrow> n \<in> avail - {i}" if "n < 32 * unat (imaps m)" for n
    using d(4) [OF that] i by (auto simp: mwb_take_def Let_def bget_single_update [OF p(2)])
  have idn: "id_bitmap ?m ! n = (if n = ?j then ?w' else id_bitmap m ! n)" for n
    using p(2) by (simp add: mwb_take_def Let_def nth_list_update)
  have counts: "wd_count ?m ! n = of_nat (pop (id_bitmap ?m ! n))" if "n < unat (imaps m)" for n
    using d(5) [OF that] cnt p by (simp add: mwb_take_def Let_def nth_list_update)
  have wdn: "bget (wd_bitmap ?m) n \<longleftrightarrow> (bget (wd_bitmap m) n \<noteq> (n = ?j \<and> ?w' = 0))" for n
    using bget_single_update(1) [OF p(4), of n] zero by (simp add: mwb_take_def Let_def)
  have wds: "bget (wd_bitmap ?m) n \<longleftrightarrow> n < unat (imaps m) \<and> id_bitmap ?m ! n \<noteq> 0"
    if "n < 32 * unat (wmaps m)" for n
    unfolding wdn idn d(6) [OF that] using p(1) w by auto
  have "card (avail - {i}) = card avail - 1" "card avail \<noteq> 0" using i d(8) by auto
  then have free: "ifree ?m = int (card (avail - {i}))"
    using d(7) by (simp add: mwb_take_def Let_def of_nat_diff)
  have "(avail - {i}) \<inter> insert i used = {}" "(avail - {i}) \<union> insert i used = {..<unat (mwb_total m)}"
    using d(2,3) it by auto
  then show ?thesis
    unfolding mwb_rep_def mwb_take_frame using sizes bits counts wds free by blast
qed

lemma mwb_give_rep:
  assumes rep: "mwb_rep m avail used" and i: "i \<in> used"
  shows "mwb_rep (mwb_give m i) (insert i avail) (used - {i})"
proof -
  note d = mwb_repD [OF rep]
  have it: "i < unat (mwb_total m)" and ia: "i \<notin> avail" using d(2,3) i by auto
  note p = mwb_place [OF d(1) it]
  let ?j = "i div 32" and ?w = "id_bitmap m ! (i div 32)" and ?m = "mwb_give m i"
  let ?w' = "?w OR 2 ^ (i mod 32)"
  have bi: "\<not> bit ?w (i mod 32)"
    using d(4) [of i] ia p(1) by (simp add: bget_def div_less_iff_less_mult mult.commute)
  have "bit ?w' (i mod 32)" by (simp add: bit_or_iff)
  then have w': "?w' \<noteq> 0" by auto
  have cnt: "wd_count m ! ?j + 1 = of_nat (pop ?w')"
    using d(5) [OF p(1)] pop_set [OF bi] by simp
  have sizes: "mwb_sizes ?m" using d(1) by (simp add: mwb_sizes_def mwb_give_def Let_def)
  have bits: "bget (id_bitmap ?m) n \<longleftrightarrow> n \<in> insert i avail" if "n < 32 * unat (imaps m)" for n
    using d(4) [OF that] by (auto simp: mwb_give_def Let_def bget_single_update [OF p(2)])
  have idn: "id_bitmap ?m ! n = (if n = ?j then ?w' else id_bitmap m ! n)" for n
    using p(2) by (simp add: mwb_give_def Let_def nth_list_update)
  have counts: "wd_count ?m ! n = of_nat (pop (id_bitmap ?m ! n))" if "n < unat (imaps m)" for n
    using d(5) [OF that] cnt p by (simp add: mwb_give_def Let_def nth_list_update)
  have wdn: "bget (wd_bitmap ?m) n \<longleftrightarrow> bget (wd_bitmap m) n \<or> n = ?j" for n
    using bget_single_update(2) [OF p(4), of n] by (simp add: mwb_give_def Let_def)
  have wds: "bget (wd_bitmap ?m) n \<longleftrightarrow> n < unat (imaps m) \<and> id_bitmap ?m ! n \<noteq> 0"
    if "n < 32 * unat (wmaps m)" for n
    unfolding wdn idn d(6) [OF that] using p(1) w' by auto
  have free: "ifree ?m = int (card (insert i avail))"
    using d(7,8) ia by (simp add: mwb_give_def Let_def)
  have "insert i avail \<inter> (used - {i}) = {}" "insert i avail \<union> (used - {i}) = {..<unat (mwb_total m)}"
    using d(2,3) it by auto
  then show ?thesis
    unfolding mwb_rep_def mwb_give_frame using sizes bits counts wds free by blast
qed

section \<open>The operations\<close>

lemma bcm_mwbmap_force_rep:
  assumes rep: "mwb_rep m avail used" and i: "unat bitix \<in> avail"
  shows "bcm_mwbmap_force m bitix = Some (mwb_take m (unat bitix))"
proof -
  note d = mwb_repD [OF rep]
  have it: "unat bitix < unat (mwb_total m)" by (rule d(9) [OF i])
  note p = mwb_place [OF d(1) it]
  have bi: "bit (id_bitmap m ! (unat bitix div 32)) (unat bitix mod 32)"
    using d(4) [of "unat bitix"] i p(1) by (simp add: bget_def div_less_iff_less_mult mult.commute)
  then have "id_bitmap m ! (unat bitix div 32) AND 2 ^ (unat bitix mod 32) = 2 ^ (unat bitix mod 32)"
    by (intro bit_eqI) (auto simp: bit_and_iff)
  moreover have "0 \<le> ifree m - 1" using d(7,8) i by (cases "card avail") auto
  ultimately show ?thesis
    using it p by (simp add: bcm_mwbmap_force_def mwb_take_def Let_def)
qed

lemma bcm_mwbmap_free_rep:
  assumes rep: "mwb_rep m avail used" and i: "unat bitix \<in> used"
  shows "bcm_mwbmap_free m bitix = Some (mwb_give m (unat bitix))"
proof -
  note d = mwb_repD [OF rep]
  have it: "unat bitix < unat (mwb_total m)" and ia: "unat bitix \<notin> avail" using d(2,3) i by auto
  note p = mwb_place [OF d(1) it]
  have bi: "\<not> bit (id_bitmap m ! (unat bitix div 32)) (unat bitix mod 32)"
    using d(4) [of "unat bitix"] ia p(1) by (simp add: bget_def div_less_iff_less_mult mult.commute)
  then have "id_bitmap m ! (unat bitix div 32) AND 2 ^ (unat bitix mod 32) = 0"
    by (intro bit_eqI) (auto simp: bit_and_iff)
  moreover have "ifree m + 1 \<le> uint (mwb_total m)"
  proof -
    have "avail \<subseteq> {..<unat (mwb_total m)} - {unat bitix}" using d(3) ia by auto
    then have "card avail \<le> card ({..<unat (mwb_total m)} - {unat bitix})" by (intro card_mono) auto
    then have "card avail < unat (mwb_total m)" using it by simp
    then show ?thesis unfolding d(7) uint_nat by linarith
  qed
  ultimately show ?thesis
    using it p by (simp add: bcm_mwbmap_free_def mwb_give_def Let_def)
qed

lemma bcm_mwbmap_isfree_rep:
  assumes rep: "mwb_rep m avail used" and it: "unat bitix < unat (mwb_total m)"
  shows "bcm_mwbmap_isfree m bitix = Some (unat bitix \<in> avail)"
proof -
  note d = mwb_repD [OF rep]
  note p = mwb_place [OF d(1) it]
  have bi: "bit (id_bitmap m ! (unat bitix div 32)) (unat bitix mod 32) \<longleftrightarrow> unat bitix \<in> avail"
    using d(4) [of "unat bitix"] p(1) by (simp add: bget_def div_less_iff_less_mult mult.commute)
  have "w AND 2 ^ k \<noteq> 0 \<longleftrightarrow> bit w k" if "k < 32" for w :: u32 and k
    using that by (auto simp: bit_eq_iff [of "w AND 2 ^ k"] bit_and_iff)
  then show ?thesis using it p bi by (simp add: bcm_mwbmap_isfree_def)
qed

lemma first_wd_none:
  assumes "k + n \<le> length (wd_bitmap m)" and "\<forall>j. k \<le> j \<and> j < k + n \<longrightarrow> wd_bitmap m ! j = 0"
  shows "first_wd n k m = Some None"
  using assms by (induction n arbitrary: k) auto

lemma first_wd_some:
  assumes "k + n \<le> length (wd_bitmap m)" and "k \<le> j" "j < k + n" and "wd_bitmap m ! j \<noteq> 0"
  shows "\<exists>l. first_wd n k m = Some (Some l) \<and> k \<le> l \<and> l < k + n \<and> wd_bitmap m ! l \<noteq> 0 \<and>
             (\<forall>i. k \<le> i \<and> i < l \<longrightarrow> wd_bitmap m ! i = 0)"
  using assms
proof (induction n arbitrary: k)
  case 0
  then show ?case by simp
next
  case (Suc n)
  show ?case
  proof (cases "wd_bitmap m ! k = 0")
    case True
    then have "Suc k \<le> j" using Suc.prems by (metis Suc_leI le_neq_implies_less)
    then obtain l where l: "first_wd n (Suc k) m = Some (Some l)" "Suc k \<le> l" "l < Suc k + n"
        "wd_bitmap m ! l \<noteq> 0" "\<forall>i. Suc k \<le> i \<and> i < l \<longrightarrow> wd_bitmap m ! i = 0"
      using Suc.IH [of "Suc k"] Suc.prems by auto
    then have "\<forall>i. k \<le> i \<and> i < l \<longrightarrow> wd_bitmap m ! i = 0"
      using True by (metis Suc_leI le_neq_implies_less)
    then show ?thesis using l True Suc.prems by auto
  next
    case False
    then show ?thesis using Suc.prems by auto
  qed
qed

text \<open>A free id shows in the first level.\<close>

lemma avail_wd:
  assumes rep: "mwb_rep m avail used" and i: "i \<in> avail"
  shows "bget (wd_bitmap m) (i div 32)" and "i div 32 div 32 < unat (wmaps m)"
    and "wd_bitmap m ! (i div 32 div 32) \<noteq> 0"
proof -
  note d = mwb_repD [OF rep]
  note p = mwb_place [OF d(1) d(9) [OF i]]
  have "bit (id_bitmap m ! (i div 32)) (i mod 32)"
    using d(4) [of i] i p(1) by (simp add: bget_def div_less_iff_less_mult mult.commute)
  then have "id_bitmap m ! (i div 32) \<noteq> 0" by auto
  then show b: "bget (wd_bitmap m) (i div 32)" using d(6) [OF p(5)] p(1) by simp
  then show "wd_bitmap m ! (i div 32 div 32) \<noteq> 0" by (auto simp: bget_def)
  show "i div 32 div 32 < unat (wmaps m)" by (rule mwb_sizes_bounds(4) [OF d(1) p(1)])
qed

lemma bcm_mwbmap_alloc_none:
  assumes rep: "mwb_rep m {} used"
  shows "bcm_mwbmap_alloc m = Some (m, BCM_MWBMAP_INVALID_IDX)"
proof -
  note d = mwb_repD [OF rep]
  have ids: "id_bitmap m ! j = 0" if "j < unat (imaps m)" for j
  proof (rule bit_eqI)
    fix b assume "possible_bit TYPE(32 word) b"
    then have "b < 32" by simp
    then show "bit (id_bitmap m ! j) b = bit 0 b"
      using d(4) [of "32 * j + b"] that by (simp add: bget_at)
  qed
  have "wd_bitmap m ! l = 0" if "l < unat (wmaps m)" for l
  proof (rule bit_eqI)
    fix b assume "possible_bit TYPE(32 word) b"
    then have b: "b < 32" by simp
    then have "\<not> bget (wd_bitmap m) (32 * l + b)" using d(6) [of "32 * l + b"] that ids by auto
    then show "bit (wd_bitmap m ! l) b = bit 0 b" using b by (simp add: bget_at)
  qed
  then have "first_wd (unat (wmaps m)) 0 m = Some None"
    using mwb_sizes_bounds(2) [OF d(1)] d(1) by (intro first_wd_none) (auto simp: mwb_sizes_def)
  then show ?thesis using d(7) by (simp add: bcm_mwbmap_alloc_def)
qed

lemma div_mod_leI:
  fixes n :: nat
  assumes "b < 32" and "j \<le> n div 32" and "n div 32 = j \<Longrightarrow> b \<le> n mod 32"
  shows "32 * j + b \<le> n"
proof (cases "n div 32 = j")
  case True
  then show ?thesis using assms(3) mult_div_mod_eq [of 32 n] by linarith
next
  case False
  then have "Suc j \<le> n div 32" using assms(2) by simp
  then have "32 * Suc j \<le> n" by (metis less_eq_div_iff_mult_less_eq mult.commute zero_less_numeral)
  then show ?thesis using assms(1) by simp
qed

lemma bcm_mwbmap_alloc_some:
  assumes rep: "mwb_rep m avail used" and ne: "avail \<noteq> {}"
  shows "\<exists>i. bcm_mwbmap_alloc m = Some (mwb_take m i, of_nat i) \<and> i \<in> avail \<and> (\<forall>i' \<in> avail. i \<le> i')"
proof -
  note d = mwb_repD [OF rep]
  obtain x where x: "x \<in> avail" using ne by blast
  have len: "unat (wmaps m) \<le> length (wd_bitmap m)"
    using mwb_sizes_bounds(2) [OF d(1)] d(1) by (simp add: mwb_sizes_def)
  obtain l where l: "first_wd (unat (wmaps m)) 0 m = Some (Some l)" "l < unat (wmaps m)"
      "wd_bitmap m ! l \<noteq> 0" "\<forall>i < l. wd_bitmap m ! i = 0"
    using first_wd_some [of 0 "unat (wmaps m)" m "x div 32 div 32"] avail_wd [OF rep x] len by auto
  obtain k where k: "bit (wd_bitmap m ! l) k" "k < 32" "\<forall>j < k. \<not> bit (wd_bitmap m ! l) j"
    by (rule lowest_bit [OF l(3)])
  define j where "j = 32 * l + k"
  have jd: "j div 32 = l" "j mod 32 = k" using k(2) by (simp_all add: j_def)
  have "bget (wd_bitmap m) j" using k by (simp add: j_def bget_at)
  then have j: "j < unat (imaps m)" "id_bitmap m ! j \<noteq> 0"
    using d(6) [of j] l(2) k(2) by (auto simp: j_def)
  obtain b where b: "bit (id_bitmap m ! j) b" "b < 32" "\<forall>n < b. \<not> bit (id_bitmap m ! j) n"
    by (rule lowest_bit [OF j(2)])
  define i where "i = 32 * j + b"
  have id: "i div 32 = j" "i mod 32 = b" using b(2) by (simp_all add: i_def)
  have i: "i \<in> avail" using d(4) [of i] j(1) b by (simp add: i_def bget_at)
  note p = mwb_place [OF d(1) d(9) [OF i], unfolded id]
  have ui: "unat (BCM_MWBMAP_MULOP (of_nat l) + of_nat k :: u32) = j"
    unfolding j_def using l(2) k(2) mwb_sizes_bounds(2) [OF d(1)] by (intro unat_MULOP_add) simp
  have wj: "BCM_MWBMAP_MULOP (of_nat l) + of_nat k = (of_nat j :: u32)"
    unfolding MULOP_add j_def by simp
  have wi: "BCM_MWBMAP_MULOP (of_nat j) + of_nat b = (of_nat i :: u32)"
    unfolding MULOP_add i_def by simp
  have uj: "unat (of_nat j :: u32) = j" using ui unfolding wj .
  have uk: "unat (of_nat k :: u32) = k" using k(2) by (intro unat_of_nat32) simp
  have tk: "trailing_index (wd_bitmap m ! l) = of_nat k" by (rule trailing_index_lowest [OF k])
  have tb: "trailing_index (id_bitmap m ! j) = of_nat b" "trailing_one (id_bitmap m ! j) = 2 ^ b"
    by (rule trailing_index_lowest [OF b], rule trailing_one_lowest [OF b])
  have alloc: "bcm_mwbmap_alloc m = Some (mwb_take m i, of_nat i)"
    using l(1,2) len p by (simp add: bcm_mwbmap_alloc_def tk tb wj wi uj uk mwb_take_def Let_def id jd)
  have least: "i \<le> i'" if i': "i' \<in> avail" for i'
  proof -
    note w = avail_wd [OF rep i']
    have "l \<le> i' div 32 div 32" using w(3) l(4) by (meson not_le)
    moreover have "k \<le> i' div 32 mod 32" if "i' div 32 div 32 = l"
      using w(1) k(3) that by (metis bget_def not_le)
    ultimately have jle: "j \<le> i' div 32" unfolding j_def using k(2) by (intro div_mod_leI) auto
    moreover have "b \<le> i' mod 32" if "i' div 32 = j"
    proof -
      have "bit (id_bitmap m ! j) (i' mod 32)"
        using d(4) [of i'] i' that j(1) by (simp add: bget_def div_less_iff_less_mult)
      then show ?thesis using b(3) by (meson not_le)
    qed
    ultimately show ?thesis unfolding i_def using b(2) by (intro div_mod_leI) auto
  qed
  show ?thesis using alloc i least by blast
qed

section \<open>Initialisation\<close>

text \<open>The bitmap of the first \<open>n\<close> bits, in whole words.\<close>

definition full_bits :: "nat \<Rightarrow> u32 list" where
  "full_bits n =
     map (\<lambda>j. if n mod 32 \<noteq> 0 \<and> j = words32 n - 1 then mask (n mod 32) else - 1) [0..<words32 n]"

lemma length_full_bits [simp]: "length (full_bits n) = words32 n"
  by (simp add: full_bits_def)

lemma words32_eq: "words32 n = n div 32 + (if n mod 32 \<noteq> 0 then 1 else 0)"
proof -
  have "(n mod 32 + 31) div 32 = (if n mod 32 \<noteq> 0 then 1 else 0)"
    using mod_less_divisor [of 32 n] by (auto intro!: div_nat_eqI)
  then show ?thesis by (simp add: words32_def div_add1_eq [of n 31])
qed

lemma bget_full_bits:
  assumes "i < 32 * words32 n"
  shows "bget (full_bits n @ ys) i \<longleftrightarrow> i < n"
proof -
  have j: "i div 32 < words32 n" using assms by (simp add: div_less_iff_less_mult mult.commute)
  have at: "bget (full_bits n @ ys) i \<longleftrightarrow>
      (n mod 32 \<noteq> 0 \<and> i div 32 = words32 n - 1 \<longrightarrow> i mod 32 < n mod 32)"
    using j by (simp add: bget_def nth_append full_bits_def bit_mask_iff)
  show ?thesis
  proof (cases "n mod 32 \<noteq> 0 \<and> i div 32 = words32 n - 1")
    case True
    then have eq: "i div 32 = n div 32" by (simp add: words32_eq)
    have "i = 32 * (n div 32) + i mod 32" "n = 32 * (n div 32) + n mod 32"
      using mult_div_mod_eq [of 32 i] by (simp_all add: eq)
    then have "i < n \<longleftrightarrow> i mod 32 < n mod 32" by (metis nat_add_left_cancel_less)
    then show ?thesis using True at by simp
  next
    case False
    then have "i div 32 < n div 32" using j by (auto simp: words32_eq split: if_splits)
    then have "i < n" by (metis div_le_mono not_le)
    then show ?thesis using False at by auto
  qed
qed

lemma full_bits_nonzero: "j < words32 n \<Longrightarrow> full_bits n ! j \<noteq> 0"
  by (auto simp: full_bits_def mask_eq_0_iff)

lemma pop_mask: "e \<le> 32 \<Longrightarrow> pop (mask e) = e"
proof -
  assume "e \<le> 32"
  then have "{b. bit (mask e :: u32) b} = {..<e}" by (auto simp: bit_mask_iff)
  then show ?thesis by (simp add: pop_def)
qed

lemma pop_minus_1 [simp]: "pop (- 1) = 32"
proof -
  have "{b. bit (- 1 :: u32) b} = {..<32}" by auto
  then show ?thesis by (simp add: pop_def)
qed

lemma pop_full_bits:
  "j < words32 n \<Longrightarrow>
   pop (full_bits n ! j) = (if n mod 32 \<noteq> 0 \<and> j = words32 n - 1 then n mod 32 else 32)"
  by (simp add: full_bits_def pop_mask)

lemma fill_ids_result:
  "k + n \<le> length (id_bitmap m) \<Longrightarrow> k + n \<le> length (wd_count m) \<Longrightarrow>
   fill_ids n k m = Some (m\<lparr>
     id_bitmap := take k (id_bitmap m) @ replicate n (- 1) @ drop (k + n) (id_bitmap m),
     wd_count := take k (wd_count m) @ replicate n 32 @ drop (k + n) (wd_count m)\<rparr>)"
proof (induction n arbitrary: k m)
  case 0
  then show ?case by simp
next
  case (Suc n)
  have "take (Suc k) (xs[k := v]) = take k xs @ [v]" if "k < length xs" for xs :: "'a list" and v
    using that by (simp add: take_Suc_conv_app_nth)
  then show ?case using Suc by (simp add: take_Suc_conv_app_nth)
qed

lemma fill_wds_result:
  "k + n \<le> length (wd_bitmap m) \<Longrightarrow>
   fill_wds n k m = Some (m\<lparr>
     wd_bitmap := take k (wd_bitmap m) @ replicate n (- 1) @ drop (k + n) (wd_bitmap m)\<rparr>)"
proof (induction n arbitrary: k m)
  case 0
  then show ?case by simp
next
  case (Suc n)
  then show ?case by (simp add: take_Suc_conv_app_nth)
qed

text \<open>The fix-up of the last word turns full words into \<open>full_bits\<close>.\<close>

lemma fixup_full_bits:
  assumes "n mod 32 \<noteq> 0"
  shows "(replicate (words32 n) (- 1 :: u32) @ ys)
           [words32 n - 1 := mask (n mod 32)] = full_bits n @ ys"
proof -
  have N: "words32 n \<noteq> 0" using assms by (simp add: words32_eq)
  then show ?thesis
    using assms
    by (intro nth_equalityI) (auto simp: full_bits_def nth_append nth_list_update)
qed

lemma full_bits_aligned:
  "n mod 32 = 0 \<Longrightarrow> replicate (words32 n) (- 1) = full_bits n"
  by (intro nth_equalityI) (auto simp: full_bits_def)

lemma words_for_unat: "unat ix \<le> 65536 \<Longrightarrow> unat (words_for ix) = words32 (unat ix)"
proof -
  assume le: "unat ix \<le> 65536"
  have nz: "BCM_MWBMAP_MODOP ix \<noteq> 0 \<longleftrightarrow> unat ix mod 32 \<noteq> 0"
    by (metis MODOP_unat unat_eq_0)
  show ?thesis
    using le by (auto simp: words_for_def words32_eq nz unat_word_ariths)
qed

lemma unat_ucast16: "unat (w :: u32) < 65536 \<Longrightarrow> unat (ucast w :: u16) = unat w"
  by (simp add: unsigned_ucast_eq take_bit_nat_eq_self)

lemma ucast16_of_nat: "unat (w :: u32) = n \<Longrightarrow> (ucast w :: u16) = of_nat n"
  by (metis of_nat_unat ucast_eq word_of_int_uint uint_nat of_int_of_nat_eq)

lemma unat_ucast32: "unat (ucast (w :: u16) :: u32) = unat w"
  by (simp add: unsigned_ucast_eq take_bit_nat_eq_self less_trans [OF unat_u16_less])

lemma MODOP_zero: "BCM_MWBMAP_MODOP ix = 0 \<longleftrightarrow> unat ix mod 32 = 0"
  by (metis MODOP_unat unat_eq_zero)

text \<open>What \<open>bcm_mwbmap_init\<close> builds, for every size its assertion admits.\<close>

lemma bcm_mwbmap_init_result:
  assumes le: "unat items \<le> 65536"
  defines "T \<equiv> unat items"
  shows "\<exists>cnt. bcm_mwbmap_init True items = Some
           \<lparr>wmaps = of_nat (words32 (words32 T)), imaps = of_nat (words32 T), ifree = int T,
            mwb_total = of_nat T,
            wd_bitmap = full_bits (words32 T) @ replicate (64 - words32 (words32 T)) 0,
            wd_count = cnt, id_bitmap = full_bits T\<rparr> \<and>
         length cnt = 2048 \<and> (\<forall>j < words32 T. cnt ! j = of_nat (pop (full_bits T ! j)))"
proof -
  define N where "N = words32 T"
  define W where "W = words32 N"
  have N: "N \<le> 2048" using le by (simp add: N_def T_def words32_def)
  then have W: "W \<le> 64" by (simp add: W_def words32_def)
  have wN: "unat (words_for items) = N" using words_for_unat [OF le] by (simp add: T_def N_def)
  have im: "ucast (words_for items) = (of_nat N :: u16)" by (rule ucast16_of_nat [OF wN])
  have uN: "unat (of_nat N :: u16) = N" "unat (ucast (of_nat N :: u16) :: u32) = N"
    using N by (simp_all add: unat_of_nat16 unat_ucast32)
  have wW: "unat (words_for (ucast (of_nat N :: u16))) = W"
    using words_for_unat [of "ucast (of_nat N :: u16)"] uN N by (simp add: W_def)
  have wm: "ucast (words_for (ucast (of_nat N :: u16))) = (of_nat W :: u16)"
    by (rule ucast16_of_nat [OF wW])
  have uW: "unat (of_nat W :: u16) = W" using W by (simp add: unat_of_nat16)
  have tot: "ucast items = (of_nat T :: u16)" by (rule ucast16_of_nat) (simp add: T_def)
  have xT: "BCM_MWBMAP_MODOP items = 0 \<longleftrightarrow> T mod 32 = 0" "unat (BCM_MWBMAP_MODOP items) = T mod 32"
    by (simp_all add: MODOP_zero T_def)
  have xN: "BCM_MWBMAP_MODOP (ucast (of_nat N :: u16)) = 0 \<longleftrightarrow> N mod 32 = 0"
    "unat (BCM_MWBMAP_MODOP (ucast (of_nat N :: u16))) = N mod 32"
    by (simp_all add: MODOP_zero uN)
  define c0 :: "u8 list" where "c0 = replicate N 32 @ replicate (2048 - N) 0"
  define cnt where "cnt = (if T mod 32 = 0 then c0 else c0[N - 1 := ucast (BCM_MWBMAP_MODOP items)])"
  have uT: "uint items = int T" by (simp add: T_def)
  have N1: "N - 1 < N" if "T mod 32 \<noteq> 0" using that by (simp add: N_def words32_eq)
  have W1: "W - 1 < W" if "N mod 32 \<noteq> 0" using that by (simp add: W_def words32_eq)
  have idsX: "(replicate N (- 1 :: u32))[N - Suc 0 := mask (T mod 32)] = full_bits T"
    if "T mod 32 \<noteq> 0" using fixup_full_bits [OF that, of "[]"] by (simp add: N_def)
  have ids0: "replicate N (- 1) = full_bits T" if "T mod 32 = 0"
    using full_bits_aligned [OF that] by (simp add: N_def)
  have wdsX: "(replicate W (- 1 :: u32) @ ys)[W - Suc 0 := mask (N mod 32)]
      = full_bits N @ ys" if "N mod 32 \<noteq> 0" for ys using fixup_full_bits [OF that] by (simp add: W_def)
  have wds0: "replicate W (- 1) = full_bits N" if "N mod 32 = 0"
    using full_bits_aligned [OF that] by (simp add: W_def)
  have res: "bcm_mwbmap_init True items = Some
      \<lparr>wmaps = of_nat W, imaps = of_nat N, ifree = int T, mwb_total = of_nat T,
       wd_bitmap = full_bits N @ replicate (64 - W) 0, wd_count = cnt, id_bitmap = full_bits T\<rparr>"
    using le N W N1 W1
    by (cases "T mod 32 = 0"; cases "N mod 32 = 0")
      (simp_all add: bcm_mwbmap_init_def Let_def im wN uN uW wm tot xT xN fill_ids_result fill_wds_result
        idsX ids0 wdsX wds0 cnt_def c0_def nth_append uT T_def [symmetric])
  have "length cnt = 2048" using N by (simp add: cnt_def c0_def)
  moreover have "cnt ! j = of_nat (pop (full_bits T ! j))" if "j < N" for j
  proof -
    have "ucast (BCM_MWBMAP_MODOP items) = (of_nat (T mod 32) :: u8)"
      using xT(2) by (metis of_nat_unat ucast_eq word_of_int_uint uint_nat of_int_of_nat_eq)
    then show ?thesis
      using that N by (auto simp: cnt_def c0_def pop_full_bits N_def [symmetric] nth_append nth_list_update)
  qed
  ultimately show ?thesis
    using res by (auto simp: N_def [symmetric] W_def [symmetric])
qed

lemma bcm_mwbmap_init_rep:
  assumes "unat items < 65536"
  shows "\<exists>m. bcm_mwbmap_init True items = Some m \<and> mwb_rep m {..<unat items} {} \<and>
           unat (mwb_total m) = unat items"
proof -
  define T where "T = unat items"
  obtain cnt where r: "bcm_mwbmap_init True items = Some
       \<lparr>wmaps = of_nat (words32 (words32 T)), imaps = of_nat (words32 T), ifree = int T,
        mwb_total = of_nat T,
        wd_bitmap = full_bits (words32 T) @ replicate (64 - words32 (words32 T)) 0,
        wd_count = cnt, id_bitmap = full_bits T\<rparr>"
      and c: "length cnt = 2048" "\<forall>j < words32 T. cnt ! j = of_nat (pop (full_bits T ! j))"
    using bcm_mwbmap_init_result [of items] assms by (auto simp: T_def)
  have T: "T < 65536" using assms by (simp add: T_def)
  then have N: "words32 T \<le> 2048" by (simp add: words32_def)
  then have W: "words32 (words32 T) \<le> 64" by (simp add: words32_def [of "words32 T"])
  have u: "unat (of_nat T :: u16) = T" "unat (of_nat (words32 T) :: u16) = words32 T"
    "unat (of_nat (words32 (words32 T)) :: u16) = words32 (words32 T)"
    using T N W by (simp_all add: unat_of_nat16)
  have i: "bget (full_bits T) i \<longleftrightarrow> i < T" if "i < 32 * words32 T" for i
    using bget_full_bits [OF that, of "[]"] by simp
  show ?thesis
    unfolding r T_def [symmetric]
    using c u N W i
    by (auto simp: mwb_rep_def mwb_sizes_def bget_full_bits full_bits_nonzero)
qed

section \<open>The audit\<close>

lemma scast_count: "n < 128 \<Longrightarrow> scast (of_nat n :: u8) = (of_nat n :: u32)"
proof -
  assume "n < 128"
  then have "sint (of_nat n :: u8) = int n"
    by (simp add: signed_of_nat signed_take_bit_eq_if_positive bit_iff_odd take_bit_int_eq_self)
  then show ?thesis by (simp add: scast_eq)
qed

definition wd_pop :: "bcm_mwbmap \<Rightarrow> nat \<Rightarrow> nat" where
  "wd_pop m j = (if j < unat (imaps m) then pop (id_bitmap m ! j) else 0)"

lemma audit_bits_rep:
  assumes rep: "mwb_rep m avail used" and w: "w < unat (wmaps m)" and "k + n \<le> 32"
  shows "audit_bits n k w m f = Some (f + of_nat (\<Sum>b = k..<k + n. wd_pop m (32 * w + b)))"
  using assms(3)
proof (induction n arbitrary: k f)
  case 0
  then show ?case by simp
next
  case (Suc n)
  note d = mwb_repD [OF rep]
  let ?j = "32 * w + k"
  have k: "k < 32" and wl: "w < length (wd_bitmap m)"
    using Suc.prems w mwb_sizes_bounds(2) [OF d(1)] d(1) by (auto simp: mwb_sizes_def)
  have bit: "bit (wd_bitmap m ! w) k \<longleftrightarrow> ?j < unat (imaps m) \<and> id_bitmap m ! ?j \<noteq> 0"
    using d(6) [of ?j] w k by (simp add: bget_at)
  define S where "S = (\<Sum>b = Suc k..<Suc k + n. wd_pop m (32 * w + b))"
  have step: "(\<Sum>b = k..<k + Suc n. wd_pop m (32 * w + b)) = wd_pop m ?j + S"
    unfolding S_def by (subst sum.atLeast_Suc_lessThan) simp_all
  have IH: "audit_bits n (Suc k) w m g = Some (g + of_nat S)" for g
    unfolding S_def by (rule Suc.IH) (use Suc.prems in simp)
  show ?case
  proof (cases "bit (wd_bitmap m ! w) k")
    case True
    then have j: "?j < unat (imaps m)" "id_bitmap m ! ?j \<noteq> 0" using bit by auto
    have "?j < length (wd_count m)" "?j < length (id_bitmap m)"
      using j(1) mwb_sizes_bounds(1) [OF d(1)] d(1) by (auto simp: mwb_sizes_def)
    moreover have c: "scast (wd_count m ! ?j) = (of_nat (pop (id_bitmap m ! ?j)) :: u32)"
      using d(5) [OF j(1)] pop_le [of "id_bitmap m ! ?j"] by (simp add: scast_count)
    moreover have "(of_nat (pop (id_bitmap m ! ?j)) :: u32) \<noteq> 0"
      using j(2) pop_le [of "id_bitmap m ! ?j"] unat_of_nat32 [of "pop (id_bitmap m ! ?j)"] by auto
    ultimately show ?thesis
      using True wl j unfolding step by (simp add: bcm_cntsetbits_pop wd_pop_def IH)
  next
    case False
    then have "wd_pop m ?j = 0" using bit by (auto simp: wd_pop_def)
    then show ?thesis using False wl unfolding step by (simp add: IH)
  qed
qed

lemma audit_words_rep:
  assumes rep: "mwb_rep m avail used" and "k + n \<le> unat (wmaps m)"
  shows "audit_words n k m f = Some (f + of_nat (\<Sum>j = 32 * k..<32 * (k + n). wd_pop m j))"
  using assms(2)
proof (induction n arbitrary: k f)
  case 0
  then show ?case by simp
next
  case (Suc n)
  define R where "R = (\<Sum>j = 32 * Suc k..<32 * (Suc k + n). wd_pop m j)"
  define S where "S = (\<Sum>j = 32 * k..<32 * Suc k. wd_pop m j)"
  have "(\<Sum>b = 0..<0 + 32. wd_pop m (32 * k + b)) = S"
    unfolding S_def using sum.shift_bounds_nat_ivl [of "wd_pop m" 0 "32 * k" 32]
    by (simp add: add.commute)
  then have bits: "audit_bits 32 0 k m f = Some (f + of_nat S)"
    using audit_bits_rep [OF rep, of k 0 32 f] Suc.prems by simp
  have "audit_words n (Suc k) m g = Some (g + of_nat R)" for g
    unfolding R_def by (rule Suc.IH) (use Suc.prems in simp)
  moreover have "(\<Sum>j = 32 * k..<32 * (k + Suc n). wd_pop m j) = S + R"
    unfolding S_def R_def
    using sum.atLeastLessThan_concat [of "32 * k" "32 * Suc k" "32 * (Suc k + n)" "wd_pop m"] by simp
  ultimately show ?case by (simp add: bits)
qed

lemma wd_pop_total:
  assumes rep: "mwb_rep m avail used"
  shows "(\<Sum>j < 32 * unat (wmaps m). wd_pop m j) = card avail"
proof -
  note d = mwb_repD [OF rep]
  let ?N = "unat (imaps m)" and ?B = "\<lambda>j. (\<lambda>b. 32 * j + b) ` {b. bit (id_bitmap m ! j) b}"
  have N: "?N \<le> 32 * unat (wmaps m)" using d(1) words32_le [of ?N] by (simp add: mwb_sizes_def)
  have "(\<Sum>j < 32 * unat (wmaps m). wd_pop m j) = (\<Sum>j < ?N. pop (id_bitmap m ! j))"
    using N by (intro sum.mono_neutral_cong_right) (auto simp: wd_pop_def)
  also have "\<dots> = (\<Sum>j < ?N. card (?B j))"
    by (intro sum.cong) (simp_all add: pop_def card_image inj_on_def)
  also have "\<dots> = card (\<Union>j < ?N. ?B j)"
  proof (rule card_UN_disjoint [symmetric])
    show "\<forall>i \<in> {..<?N}. \<forall>j \<in> {..<?N}. i \<noteq> j \<longrightarrow> ?B i \<inter> ?B j = {}"
    proof (intro ballI impI equals0I)
      fix i j x assume "i \<noteq> j" and "x \<in> ?B i \<inter> ?B j"
      then obtain b c where bc: "x = 32 * i + b" "bit (id_bitmap m ! i) b"
          "x = 32 * j + c" "bit (id_bitmap m ! j) c" by blast
      have "x div 32 = i" using bc(1) bit32_less [OF bc(2)] by simp
      moreover have "x div 32 = j" using bc(3) bit32_less [OF bc(4)] by simp
      ultimately have "i = j" by simp
      with \<open>i \<noteq> j\<close> show False by simp
    qed
  qed simp_all
  also have "(\<Union>j < ?N. ?B j) = avail"
  proof (intro equalityI subsetI)
    fix i assume "i \<in> (\<Union>j < ?N. ?B j)"
    then obtain j b where "j < ?N" "i = 32 * j + b" "bit (id_bitmap m ! j) b" by auto
    moreover from this have "b < 32" by (auto dest: bit32_less)
    ultimately show "i \<in> avail" using d(4) [of i] by (auto simp: bget_at)
  next
    fix i assume i: "i \<in> avail"
    note p = mwb_place(1) [OF d(1) d(9) [OF i]]
    have "bit (id_bitmap m ! (i div 32)) (i mod 32)"
      using d(4) [of i] i p by (simp add: bget_def div_less_iff_less_mult mult.commute)
    then have "i \<in> ?B (i div 32)" by (intro image_eqI [of _ _ "i mod 32"]) simp_all
    then show "i \<in> (\<Union>j < ?N. ?B j)" using p by blast
  qed
  finally show ?thesis .
qed

lemma bcm_mwbmap_audit_rep:
  assumes rep: "mwb_rep m avail used"
  shows "bcm_mwbmap_audit m = Some ()"
proof -
  note d = mwb_repD [OF rep]
  have w: "audit_words (unat (wmaps m)) 0 m 0 = Some (of_nat (card avail))"
    using audit_words_rep [OF rep, of 0 "unat (wmaps m)" 0] wd_pop_total [OF rep]
    by (simp add: lessThan_atLeast0 del: of_nat_sum)
  have "card avail \<le> card {..<unat (mwb_total m)}" using d(3) by (intro card_mono) auto
  then have "card avail < 65536" using unat_u16_less [of "mwb_total m"] by simp
  then have "sint (of_nat (card avail) :: u32) = int (card avail)"
    by (simp add: signed_of_nat signed_take_bit_eq_if_positive bit_iff_odd take_bit_int_eq_self)
  then show ?thesis using w d(7) by (simp add: bcm_mwbmap_audit_def)
qed

section \<open>The bitmap allocator satisfies the id contract\<close>

definition mwb_alloc_st :: "bcm_mwbmap \<Rightarrow> (bcm_mwbmap \<times> nat option) option" where
  "mwb_alloc_st m = do {
     (m', v) \<leftarrow> bcm_mwbmap_alloc m;
     Some (m', if v = BCM_MWBMAP_INVALID_IDX then None else Some (unat v))
   }"

definition mwb_free_st :: "bcm_mwbmap \<Rightarrow> nat \<Rightarrow> bcm_mwbmap option" where
  "mwb_free_st m i = bcm_mwbmap_free m (of_nat i)"

lemma mwb_alloc_st_some:
  assumes rep: "mwb_rep m avail used" and ne: "avail \<noteq> {}"
  shows "\<exists>m' i. mwb_alloc_st m = Some (m', Some i) \<and> i \<in> avail \<and> (\<forall>i' \<in> avail. i \<le> i') \<and>
           mwb_rep m' (avail - {i}) (insert i used)"
proof -
  obtain i where i: "bcm_mwbmap_alloc m = Some (mwb_take m i, of_nat i)" "i \<in> avail" "\<forall>i' \<in> avail. i \<le> i'"
    using bcm_mwbmap_alloc_some [OF rep ne] by blast
  have "i < 65536" using mwb_repD(9) [OF rep i(2)] unat_u16_less [of "mwb_total m"] by simp
  then have u: "unat (of_nat i :: u32) = i" by (intro unat_of_nat32) simp
  then have "(of_nat i :: u32) \<noteq> 0xFFFFFFFF" using \<open>i < 65536\<close> by auto
  then show ?thesis using i u mwb_take_rep [OF rep i(2)] by (auto simp: mwb_alloc_st_def)
qed

lemma mwb_free_st_used:
  assumes rep: "mwb_rep m avail used" and i: "i \<in> used"
  shows "\<exists>m'. mwb_free_st m i = Some m' \<and> mwb_rep m' (insert i avail) (used - {i})"
proof -
  have "i < unat (mwb_total m)" using mwb_repD(3) [OF rep] i by auto
  then have u: "unat (of_nat i :: u32) = i"
    using unat_u16_less [of "mwb_total m"] by (intro unat_of_nat32) simp
  show ?thesis
    using bcm_mwbmap_free_rep [OF rep, of "of_nat i"] mwb_give_rep [OF rep i] i
    by (simp add: mwb_free_st_def u)
qed

interpretation mwb: id_alloc mwb_rep mwb_alloc_st mwb_free_st
proof
  fix m avail used x
  assume rep: "mwb_rep m avail used"
  show "avail \<inter> used = {}" by (rule mwb_repD(2) [OF rep])
  show "\<exists>m' i. mwb_alloc_st m = Some (m', Some i) \<and> i \<in> avail \<and> mwb_rep m' (avail - {i}) (insert i used)"
    if "avail \<noteq> {}" using mwb_alloc_st_some [OF rep that] by blast
  show "\<exists>m'. mwb_free_st m x = Some m' \<and> mwb_rep m' (insert x avail) (used - {x})"
    if "x \<in> used" by (rule mwb_free_st_used [OF rep that])
next
  fix m used
  assume rep: "mwb_rep m {} used"
  show "\<exists>m'. mwb_alloc_st m = Some (m', None) \<and> mwb_rep m' {} used"
    using bcm_mwbmap_alloc_none [OF rep] rep by (auto simp: mwb_alloc_st_def)
qed

section \<open>Properties\<close>

text \<open>
  C7. A bitmap allocator for fewer than 65536 ids serves any sequence of allocations and releases of
  held ids: no assertion is violated and no array bound is left, the ids held are pairwise distinct
  and below the size, the two bitmap levels, the per-word counts and the free count agree at every
  point (the audit passes), and the free count is what is not held.
\<close>

theorem mwbmap_ids_unique:
  assumes "unat items_max < 65536"
  shows "\<exists>m. bcm_mwbmap_init True items_max = Some m \<and>
     (\<forall>ops. \<exists>m' held. id_client mwb_alloc_st mwb_free_st ops m [] = Some (m', held) \<and>
        distinct held \<and> (\<forall>i. i \<in> set held \<longrightarrow> i < unat items_max) \<and>
        bcm_mwbmap_free_cnt m' = Some (int (unat items_max) - int (length held)) \<and>
        bcm_mwbmap_audit m' = Some ())"
proof -
  obtain m where m: "bcm_mwbmap_init True items_max = Some m" and rep: "mwb_rep m {..<unat items_max} {}"
    using bcm_mwbmap_init_rep [OF assms] by blast
  have "\<exists>m' held. id_client mwb_alloc_st mwb_free_st ops m [] = Some (m', held) \<and>
        distinct held \<and> (\<forall>i. i \<in> set held \<longrightarrow> i < unat items_max) \<and>
        bcm_mwbmap_free_cnt m' = Some (int (unat items_max) - int (length held)) \<and>
        bcm_mwbmap_audit m' = Some ()" for ops
  proof -
    obtain m' held avail where r: "id_client mwb_alloc_st mwb_free_st ops m [] = Some (m', held)"
        "mwb_rep m' avail (set held)" "distinct held" "avail \<union> set held = {..<unat items_max}"
      using mwb.client_safe [OF rep, of "[]" ops] by auto
    note d = mwb_repD [OF r(2)]
    have "card avail + length held = unat items_max"
      using card_Un_disjoint [OF d(8) _ d(2)] r(3,4) by (simp add: distinct_card)
    then have "int (card avail) = int (unat items_max) - int (length held)" by linarith
    moreover have "bcm_mwbmap_free_cnt m' = Some (int (card avail))"
      using d(7) by (simp add: bcm_mwbmap_free_cnt_def)
    ultimately have "bcm_mwbmap_free_cnt m' = Some (int (unat items_max) - int (length held))"
      by (simp only:)
    then show ?thesis using r bcm_mwbmap_audit_rep [OF r(2)] by blast
  qed
  then show ?thesis using m by blast
qed

theorem mwbmap_ids_unique_witness:
  "\<exists>m. bcm_mwbmap_init True 70 = Some m \<and>
     (\<exists>m' held. id_client mwb_alloc_st mwb_free_st [Take, Take, Give 0] m [] = Some (m', held) \<and>
        distinct held \<and> bcm_mwbmap_audit m' = Some ())"
  using mwbmap_ids_unique [of 70] by (simp del: id_client.simps) blast

text \<open>
  On a well-formed allocator \<open>bcm_mwbmap_alloc\<close> returns the smallest free id (and the invalid
  index exactly when none is free), \<open>bcm_mwbmap_force\<close> takes exactly the id asked for, and
  \<open>bcm_mwbmap_isfree\<close> reads the set of free ids.
\<close>

theorem mwbmap_alloc_smallest:
  assumes rep: "mwb_rep m avail used"
  shows "(if avail = {} then bcm_mwbmap_alloc m = Some (m, BCM_MWBMAP_INVALID_IDX)
          else \<exists>m'. bcm_mwbmap_alloc m = Some (m', of_nat (Min avail)) \<and>
                 mwb_rep m' (avail - {Min avail}) (insert (Min avail) used)) \<and>
         (unat bitix \<in> avail \<longrightarrow> (\<exists>m'. bcm_mwbmap_force m bitix = Some m' \<and>
            mwb_rep m' (avail - {unat bitix}) (insert (unat bitix) used))) \<and>
         (unat bitix < unat (mwb_total m) \<longrightarrow> bcm_mwbmap_isfree m bitix = Some (unat bitix \<in> avail))"
proof -
  have "\<exists>m'. bcm_mwbmap_alloc m = Some (m', of_nat (Min avail)) \<and>
      mwb_rep m' (avail - {Min avail}) (insert (Min avail) used)" if ne: "avail \<noteq> {}"
  proof -
    obtain i where i: "bcm_mwbmap_alloc m = Some (mwb_take m i, of_nat i)" "i \<in> avail" "\<forall>i' \<in> avail. i \<le> i'"
      using bcm_mwbmap_alloc_some [OF rep ne] by blast
    then have "Min avail = i" using mwb_repD(8) [OF rep] by (intro Min_eqI) auto
    then show ?thesis using i mwb_take_rep [OF rep i(2)] by auto
  qed
  then show ?thesis
    using bcm_mwbmap_alloc_none bcm_mwbmap_force_rep [OF rep] mwb_take_rep [OF rep]
      bcm_mwbmap_isfree_rep [OF rep] rep by auto
qed

theorem mwbmap_alloc_smallest_witness:
  "\<exists>m m'. bcm_mwbmap_init True 40 = Some m \<and> bcm_mwbmap_alloc m = Some (m', 0) \<and>
     mwb_rep m' ({..<40} - {0}) {0}"
proof -
  obtain m where m: "bcm_mwbmap_init True 40 = Some m" "mwb_rep m {..<40} {}"
    using bcm_mwbmap_init_rep [of 40] by auto
  have "Min {..<40} = (0 :: nat)" by (rule Min_eqI) auto
  moreover have "{..<40 :: nat} \<noteq> {}" by (simp add: lessThan_empty_iff)
  ultimately show ?thesis using mwbmap_alloc_smallest [OF m(2), of 0] m(1) by simp
qed

text \<open>
  \<open>bcm_mwbmap_init\<close> accepts the documented maximum of 65536 ids, but the size is kept in a
  16-bit field and becomes 0. Every id can still be handed out (65536 are free and the audit sees
  them), while \<open>bcm_mwbmap_free\<close>, \<open>bcm_mwbmap_force\<close> and \<open>bcm_mwbmap_isfree\<close> stop at their range
  assertion for every id: nothing allocated can be given back.
\<close>

theorem mwbmap_full_size_wraps:
  "\<exists>m. bcm_mwbmap_init True 65536 = Some m \<and> ifree m = 65536 \<and> mwb_total m = 0 \<and>
       (\<forall>bitix. bcm_mwbmap_free m bitix = None \<and> bcm_mwbmap_force m bitix = None \<and>
                bcm_mwbmap_isfree m bitix = None) \<and>
       (\<exists>m'. bcm_mwbmap_alloc m = Some (m', 0) \<and> (\<forall>bitix. bcm_mwbmap_free m' bitix = None))"
proof -
  obtain cnt where r: "bcm_mwbmap_init True 65536 = Some
       \<lparr>wmaps = 64, imaps = 2048, ifree = 65536, mwb_total = 0,
        wd_bitmap = full_bits 2048, wd_count = cnt, id_bitmap = full_bits 65536\<rparr>"
      and c: "length cnt = 2048"
    using bcm_mwbmap_init_result [of 65536] by (auto simp: words32_def)
  let ?m = "\<lparr>wmaps = 64, imaps = 2048, ifree = 65536, mwb_total = 0,
        wd_bitmap = full_bits 2048, wd_count = cnt, id_bitmap = full_bits 65536\<rparr>"
  have w: "full_bits 2048 ! 0 = - 1" "full_bits 65536 ! 0 = - 1"
    by (simp_all add: full_bits_def words32_def)
  have idx: "trailing_index (- 1) = 0" using trailing_index_lowest [of "- 1" 0] by simp
  have "first_wd (Suc 63) 0 ?m = Some (Some 0)"
    unfolding first_wd.simps by (simp add: w words32_def)
  then have "first_wd 64 0 ?m = Some (Some 0)" by (simp only: Suc_numeral add_num_simps)
  then have "\<exists>m'. bcm_mwbmap_alloc ?m = Some (m', 0) \<and> mwb_total m' = 0"
    using c w by (simp add: bcm_mwbmap_alloc_def idx BCM_MWBMAP_MULOP_def words32_def)
  then show ?thesis
    using r by (auto simp: bcm_mwbmap_free_def bcm_mwbmap_force_def bcm_mwbmap_isfree_def)
qed

text \<open>
  The table-driven \<open>bcm_cntsetbits\<close> counts the set bits of every 32-bit word, and
  \<open>C_bcm_count_leading_zeros\<close> locates a single set bit.
\<close>

theorem bit_counting_correct:
  "bcm_cntsetbits u = Some (of_nat (card {b. bit u b})) \<and>
   (\<forall>k < 32. C_bcm_count_leading_zeros (2 ^ k) = 31 - int k)"
  using bcm_cntsetbits_pop [of u]
  by (auto simp: pop_def C_bcm_count_leading_zeros_def clz_shifts_pow)

theorem bit_counting_correct_witness:
  "bcm_cntsetbits 0xF0000001 = Some (of_nat (card {b. bit (0xF0000001 :: u32) b})) \<and>
   C_bcm_count_leading_zeros (2 ^ 4) = 27"
  using bit_counting_correct [of "0xF0000001"] by (auto dest: spec [of _ 4])

end
