(* ===== verification/Flow_Queue.thy ===== *)
theory Flow_Queue
  imports Pktq_Refine
begin

text \<open>
  The backup queue of a flow ring (\<open>flow_queue_t\<close> of \<open>dhd_flowring.h\<close> and the
  \<open>dhd_flow_queue_*\<close> functions of \<open>dhd_flowring.c\<close>): a bounded FIFO of packets on the packet store.
  In this build a cumulative counter is not kept: incrementing or decrementing it is an assertion on
  its address, which expands to nothing, so a counter is just an optional address. The overflow callback is a function
  of the packet. The queue satisfies the strict-priority contract with one precedence.
\<close>

section \<open>Data\<close>

record flow_queue =
  fq_head :: pkt_ptr
  fq_tail :: pkt_ptr
  fq_len :: u16
  fq_max :: u16
  fq_threshold :: u32
  fq_clen_ptr :: "nat option"
  fq_failures :: u32
  fq_cb :: "pkt_ptr \<Rightarrow> int"
  fq_l2threshold :: u32
  fq_l2clen_ptr :: "nat option"

definition DHD_FLOW_QUEUE_EMPTY :: "flow_queue \<Rightarrow> bool" where
  "DHD_FLOW_QUEUE_EMPTY q \<longleftrightarrow> fq_len q = 0"

definition DHD_FLOW_QUEUE_FULL :: "flow_queue \<Rightarrow> bool" where
  "DHD_FLOW_QUEUE_FULL q \<longleftrightarrow> fq_max q \<le> fq_len q"

definition DHD_FLOW_QUEUE_SET_MAX :: "flow_queue \<Rightarrow> int \<Rightarrow> flow_queue" where
  "DHD_FLOW_QUEUE_SET_MAX q budget = q\<lparr>fq_max := word_of_int (budget - 1)\<rparr>"

definition DHD_FLOW_QUEUE_SET_THRESHOLD :: "flow_queue \<Rightarrow> int \<Rightarrow> flow_queue" where
  "DHD_FLOW_QUEUE_SET_THRESHOLD q cumm = q\<lparr>fq_threshold := word_of_int (cumm - 1)\<rparr>"

definition DHD_FLOW_QUEUE_SET_L2THRESHOLD :: "flow_queue \<Rightarrow> int \<Rightarrow> flow_queue" where
  "DHD_FLOW_QUEUE_SET_L2THRESHOLD q cumm = q\<lparr>fq_l2threshold := word_of_int (cumm - 1)\<rparr>"

section \<open>Operations\<close>

definition dhd_flow_queue_throttle :: "flow_queue \<Rightarrow> bool" where
  "dhd_flow_queue_throttle q = DHD_FLOW_QUEUE_FULL q"

definition dhd_flow_queue_overflow :: "pkt_ptr \<Rightarrow> int" where
  "dhd_flow_queue_overflow pkt = BCME_NORESOURCE"

text \<open>\<open>cumm_ctr\<close> and \<open>l2cumm_ctr\<close> are the addresses of the counters in \<open>dhd_pub\<close>.\<close>

definition dhd_flow_queue_init :: "nat \<Rightarrow> nat \<Rightarrow> flow_queue \<Rightarrow> int \<Rightarrow> flow_queue option" where
  "dhd_flow_queue_init cumm_ctr l2cumm_ctr q max_len = do {
     let q = q\<lparr>fq_head := None, fq_tail := None, fq_len := 0\<rparr>;
     let q = DHD_FLOW_QUEUE_SET_MAX q max_len;
     let q = DHD_FLOW_QUEUE_SET_THRESHOLD q max_len;
     Some (q\<lparr>fq_clen_ptr := Some cumm_ctr, fq_l2clen_ptr := Some l2cumm_ctr, fq_failures := 0,
             fq_cb := dhd_flow_queue_overflow\<rparr>)
   }"

definition dhd_flow_queue_register :: "flow_queue \<Rightarrow> (pkt_ptr \<Rightarrow> int) \<Rightarrow> flow_queue" where
  "dhd_flow_queue_register q cb = q\<lparr>fq_cb := cb\<rparr>"

definition dhd_flow_queue_enqueue ::
  "pkt_store \<Rightarrow> flow_queue \<Rightarrow> pkt_ptr \<Rightarrow> (pkt_store \<times> flow_queue \<times> int) option" where
  "dhd_flow_queue_enqueue s q pkt =
     (if dhd_flow_queue_throttle q
      then Some (s, q\<lparr>fq_failures := fq_failures q + 1\<rparr>, fq_cb q pkt)
      else do {
        (s, q) \<leftarrow> (if fq_head q \<noteq> None
                  then do { s \<leftarrow> PKTSETLINK s (fq_tail q) pkt; Some (s, q) }
                  else Some (s, q\<lparr>fq_head := pkt\<rparr>));
        s \<leftarrow> PKTSETLINK s pkt None;
        let q = q\<lparr>fq_tail := pkt, fq_len := fq_len q + 1\<rparr>;
        Some (s, q, BCME_OK)
      })"

definition dhd_flow_queue_dequeue ::
  "pkt_store \<Rightarrow> flow_queue \<Rightarrow> (pkt_store \<times> flow_queue \<times> pkt_ptr) option" where
  "dhd_flow_queue_dequeue s q = do {
     let pkt = fq_head q;
     if pkt = None
     then Some (s, q, None)
     else do {
       l \<leftarrow> PKTLINK s pkt;
       let q = q\<lparr>fq_head := l\<rparr>;
       let q = (if fq_head q = None then q\<lparr>fq_tail := None\<rparr> else q);
       let q = q\<lparr>fq_len := fq_len q - 1\<rparr>;
       s \<leftarrow> PKTSETLINK s pkt None;
       Some (s, q, pkt)
     }
   }"

definition dhd_flow_queue_reinsert ::
  "pkt_store \<Rightarrow> flow_queue \<Rightarrow> pkt_ptr \<Rightarrow> (pkt_store \<times> flow_queue) option" where
  "dhd_flow_queue_reinsert s q pkt = do {
     let q = (if fq_head q = None then q\<lparr>fq_tail := pkt\<rparr> else q);
     s \<leftarrow> PKTSETLINK s pkt (fq_head q);
     let q = q\<lparr>fq_head := pkt, fq_len := fq_len q + 1\<rparr>;
     Some (s, q)
   }"

text \<open>\<open>while ((pkt = dhd_flow_queue_dequeue(queue)) != NULL) PKTFREE(pkt);\<close>\<close>

partial_function (option) flow_queue_purge ::
  "pkt_store \<Rightarrow> flow_queue \<Rightarrow> (pkt_store \<times> flow_queue) option" where
  "flow_queue_purge s q = do {
     (s, q, pkt) \<leftarrow> dhd_flow_queue_dequeue s q;
     (case pkt of
        None \<Rightarrow> Some (s, q)
      | Some p \<Rightarrow> do { s \<leftarrow> PKTFREE s (Some p); flow_queue_purge s q })
   }"

section \<open>The packets a queue holds\<close>

definition as_prec :: "flow_queue \<Rightarrow> pktq_prec" where
  "as_prec q = \<lparr>qp_head = fq_head q, qp_tail = fq_tail q, qp_len = fq_len q, qp_max = fq_max q\<rparr>"

text \<open>A well-formed queue has both counters set and a callback that reports the overflow.\<close>

definition fq_rep :: "pkt_store \<Rightarrow> flow_queue \<Rightarrow> pkt list \<Rightarrow> bool" where
  "fq_rep s q xs \<longleftrightarrow> prec_rep s (as_prec q) xs \<and> fq_clen_ptr q \<noteq> None \<and> fq_l2clen_ptr q \<noteq> None \<and>
     (\<forall>p. fq_cb q p \<noteq> BCME_OK)"

lemma fq_init_rep:
  assumes "1 < max_len"
  shows "\<exists>q'. dhd_flow_queue_init c l2 q max_len = Some q' \<and> fq_rep s q' [] \<and>
           fq_max q' = word_of_int (max_len - 1) \<and> fq_cb q' = dhd_flow_queue_overflow"
  using assms
  by (simp add: dhd_flow_queue_init_def Let_def fq_rep_def prec_rep_def as_prec_def
      DHD_FLOW_QUEUE_SET_MAX_def DHD_FLOW_QUEUE_SET_THRESHOLD_def dhd_flow_queue_overflow_def)

lemma fq_enqueue_rep:
  assumes rep: "fq_rep s q xs" and room: "\<not> DHD_FLOW_QUEUE_FULL q"
    and p: "p \<notin> set xs" "p \<notin> set (pfreed s)"
  shows "\<exists>s' q'. dhd_flow_queue_enqueue s q (Some p) = Some (s', q', BCME_OK) \<and> fq_rep s' q' (xs @ [p]) \<and>
           fq_max q' = fq_max q \<and> pfreed s' = pfreed s \<and>
           (\<forall>x. x \<notin> set xs \<longrightarrow> x \<noteq> p \<longrightarrow> plink s' x = plink s x)"
proof -
  have pr: "prec_rep s (as_prec q) xs" and ctr: "fq_clen_ptr q \<noteq> None" "fq_l2clen_ptr q \<noteq> None" "\<forall>p. fq_cb q p \<noteq> BCME_OK"
    using rep by (auto simp: fq_rep_def)
  have len: "unat (fq_len q + 1) = Suc (length xs)"
    using pr room unat_u16_less [of "fq_max q"]
    by (subst unat_inc [of _ 65535]) (auto simp: prec_rep_def as_prec_def DHD_FLOW_QUEUE_FULL_def word_le_nat_alt)
  show ?thesis
  proof (cases xs rule: rev_cases)
    case Nil
    then show ?thesis
      using pr ctr p room len
      by (auto simp: dhd_flow_queue_enqueue_def dhd_flow_queue_throttle_def fq_rep_def prec_rep_def
          as_prec_def)
  next
    case (snoc ys z)
    have seg: "seg (plink s) (fq_head q) (ys @ [z]) None" and "fq_tail q = Some z"
      and "distinct (ys @ [z])" and fr: "z \<notin> set (pfreed s)" and "fq_head q \<noteq> None"
      using pr snoc by (auto simp: prec_rep_def as_prec_def) (cases ys; auto)+
    moreover have "seg ((plink s)(z := Some p, p := None)) (fq_head q) (ys @ [z, p]) None"
      using calculation p(1) snoc by auto
    ultimately show ?thesis
      using pr ctr p room len snoc
      by (auto simp: dhd_flow_queue_enqueue_def dhd_flow_queue_throttle_def fq_rep_def prec_rep_def
          as_prec_def simp del: seg_append)
  qed
qed

lemma fq_dequeue_empty: "fq_rep s q [] \<Longrightarrow> dhd_flow_queue_dequeue s q = Some (s, q, None)"
  by (simp add: dhd_flow_queue_dequeue_def fq_rep_def prec_rep_def as_prec_def unat_eq_zero)

lemma fq_dequeue_rep:
  assumes rep: "fq_rep s q (p # xs)"
  shows "\<exists>s' q'. dhd_flow_queue_dequeue s q = Some (s', q', Some p) \<and> fq_rep s' q' xs \<and>
           fq_max q' = fq_max q \<and> pfreed s' = pfreed s \<and> plink s' = (plink s)(p := None)"
proof -
  have h: "fq_head q = Some p" and seg: "seg (plink s) (plink s p) xs None" and d: "distinct (p # xs)"
    and t: "fq_tail q = last_ptr (p # xs)" and len: "unat (fq_len q) = Suc (length xs)"
    and fr: "set (p # xs) \<inter> set (pfreed s) = {}"
    and ctr: "fq_clen_ptr q \<noteq> None" "fq_l2clen_ptr q \<noteq> None" "\<forall>p. fq_cb q p \<noteq> BCME_OK"
    using rep by (auto simp: fq_rep_def prec_rep_def as_prec_def)
  have l: "unat (fq_len q - 1) = length xs" using len by (simp add: unat_dec)
  have e: "plink s p = None \<longleftrightarrow> xs = []" using seg seg_head [OF seg] by (cases xs) auto
  have seg': "seg ((plink s)(p := None)) (plink s p) xs None" using seg d by simp
  show ?thesis
    using h t d fr ctr l e seg'
    by (cases "xs = []")
      (auto simp: dhd_flow_queue_dequeue_def Let_def fq_rep_def prec_rep_def as_prec_def)
qed

lemma fq_reinsert_rep:
  assumes rep: "fq_rep s q xs" and room: "length xs < 65535"
    and p: "p \<notin> set xs" "p \<notin> set (pfreed s)"
  shows "\<exists>s' q'. dhd_flow_queue_reinsert s q (Some p) = Some (s', q') \<and> fq_rep s' q' (p # xs) \<and>
           fq_max q' = fq_max q \<and> pfreed s' = pfreed s \<and> (\<forall>x. x \<noteq> p \<longrightarrow> plink s' x = plink s x)"
proof -
  have pr: "prec_rep s (as_prec q) xs" and ctr: "fq_clen_ptr q \<noteq> None" "fq_l2clen_ptr q \<noteq> None" "\<forall>p. fq_cb q p \<noteq> BCME_OK"
    using rep by (auto simp: fq_rep_def)
  have len: "unat (fq_len q + 1) = Suc (length xs)"
    using pr room by (subst unat_inc [of _ 65535]) (auto simp: prec_rep_def as_prec_def)
  have e: "fq_head q = None \<longleftrightarrow> xs = []"
    using prec_rep_empty [OF pr] by (simp add: as_prec_def)
  show ?thesis
    using pr ctr p len e
    by (cases "xs = []")
      (auto simp: dhd_flow_queue_reinsert_def Let_def fq_rep_def prec_rep_def as_prec_def)
qed

lemma flow_queue_purge_rep:
  "fq_rep s q xs \<Longrightarrow>
   \<exists>s' q'. flow_queue_purge s q = Some (s', q') \<and> fq_rep s' q' [] \<and> fq_max q' = fq_max q \<and>
     pfreed s' = rev xs @ pfreed s \<and> (\<forall>x. x \<notin> set xs \<longrightarrow> plink s' x = plink s x)"
proof (induction xs arbitrary: s q)
  case Nil
  then show ?case by (subst flow_queue_purge.simps) (simp add: fq_dequeue_empty)
next
  case (Cons p xs)
  obtain s1 q1 where s1: "dhd_flow_queue_dequeue s q = Some (s1, q1, Some p)" "fq_rep s1 q1 xs"
      "fq_max q1 = fq_max q" "pfreed s1 = pfreed s" "plink s1 = (plink s)(p := None)"
    using fq_dequeue_rep [OF Cons.prems] by blast
  have p: "p \<notin> set (pfreed s)" "p \<notin> set xs"
    using Cons.prems by (auto simp: fq_rep_def prec_rep_def)
  let ?s2 = "s1\<lparr>pfreed := p # pfreed s1\<rparr>"
  have "fq_rep ?s2 q1 xs" using s1(2) p by (auto simp: fq_rep_def prec_rep_def)
  then obtain s' q' where r: "flow_queue_purge ?s2 q1 = Some (s', q')" "fq_rep s' q' []" "fq_max q' = fq_max q1"
      "pfreed s' = rev xs @ pfreed ?s2" "\<forall>x. x \<notin> set xs \<longrightarrow> plink s' x = plink ?s2 x"
    using Cons.IH by blast
  then show ?case
    using s1 p by (subst flow_queue_purge.simps) auto
qed

section \<open>The flow queue satisfies the queue contract\<close>

definition fq_state_rep :: "pkt_store \<times> flow_queue \<Rightarrow> pkt list list \<Rightarrow> bool" where
  "fq_state_rep st qs \<longleftrightarrow> (\<exists>xs. qs = [xs] \<and> fq_rep (fst st) (snd st) xs)"

definition fq_cap :: "pkt_store \<times> flow_queue \<Rightarrow> nat" where
  "fq_cap st = unat (fq_max (snd st))"

definition fq_fresh :: "pkt_store \<times> flow_queue \<Rightarrow> pkt \<Rightarrow> bool" where
  "fq_fresh st p \<longleftrightarrow> p \<notin> set (pfreed (fst st))"

definition fq_enq_st :: "pkt_store \<times> flow_queue \<Rightarrow> nat \<Rightarrow> pkt \<Rightarrow> (pkt_store \<times> flow_queue) option" where
  "fq_enq_st st i p = do {
     (s, q, ret) \<leftarrow> dhd_flow_queue_enqueue (fst st) (snd st) (Some p);
     if ret = BCME_OK then Some (s, q) else None
   }"

definition fq_deq_st :: "pkt_store \<times> flow_queue \<Rightarrow> ((pkt_store \<times> flow_queue) \<times> pkt option) option" where
  "fq_deq_st st = do { (s, q, p) \<leftarrow> dhd_flow_queue_dequeue (fst st) (snd st); Some ((s, q), p) }"

interpretation fq: prio_queue fq_state_rep fq_cap fq_fresh fq_enq_st fq_deq_st
proof
  fix st qs i p
  assume rep: "fq_state_rep st qs" and "i < length qs" and room: "sum_list (map length qs) < fq_cap st"
    and p: "fq_fresh st p" "p \<notin> set (concat qs)"
  obtain s q xs where st: "st = (s, q)" "qs = [xs]" "fq_rep s q xs"
    using rep by (cases st) (auto simp: fq_state_rep_def)
  have "unat (fq_len q) = length xs" using st(3) by (simp add: fq_rep_def prec_rep_def as_prec_def)
  then have "\<not> DHD_FLOW_QUEUE_FULL q"
    using room by (simp add: st DHD_FLOW_QUEUE_FULL_def fq_cap_def word_le_nat_alt)
  then obtain s' q' where "dhd_flow_queue_enqueue s q (Some p) = Some (s', q', 0)" "fq_rep s' q' (xs @ [p])"
      "fq_max q' = fq_max q" "pfreed s' = pfreed s"
    using fq_enqueue_rep [OF st(3), of p] p by (auto simp: st fq_fresh_def)
  then show "\<exists>st'. fq_enq_st st i p = Some st' \<and> fq_state_rep st' (qs[i := qs ! i @ [p]]) \<and> fq_cap st' = fq_cap st \<and>
      (\<forall>x. x \<notin> set (concat qs) \<longrightarrow> fq_fresh st x \<longrightarrow> fq_fresh st' x)"
    using \<open>i < length qs\<close> by (auto simp: st fq_enq_st_def fq_state_rep_def fq_cap_def fq_fresh_def)
next
  fix st qs
  assume "fq_state_rep st qs" and "\<forall>i < length qs. qs ! i = []"
  then show "\<exists>st'. fq_deq_st st = Some (st', None) \<and> fq_state_rep st' qs"
    by (cases st) (auto simp: fq_state_rep_def fq_deq_st_def fq_dequeue_empty)
next
  fix st qs k p xs
  assume rep: "fq_state_rep st qs" and top: "is_top qs k" and k: "qs ! k = p # xs"
  then have "fq_rep (fst st) (snd st) (p # xs)" "qs[k := xs] = [xs]"
    by (auto simp: fq_state_rep_def is_top_def)
  then show "\<exists>st'. fq_deq_st st = Some (st', Some p) \<and> fq_state_rep st' (qs[k := xs]) \<and> fq_cap st' = fq_cap st"
    using fq_dequeue_rep [of "fst st" "snd st" p xs]
    by (auto simp: fq_deq_st_def fq_state_rep_def fq_cap_def)
qed

section \<open>Properties\<close>

text \<open>
  A flow ring's backup queue, initialised for a budget, is a bounded FIFO: any burst of at most
  budget - 1 live packets is accepted, is dequeued in the order it was enqueued, and leaves the
  queue empty; a dequeued packet can be reinserted at the head and is the next one dequeued.
\<close>

theorem flow_queue_fifo:
  assumes "dhd_flow_queue_init c l2 q0 budget = Some q" and "1 < budget" "budget \<le> 65536"
    and "distinct ps" and "set ps \<inter> set (pfreed s) = {}" and "int (length ps) < budget"
  shows "\<exists>st1 s2 q2. enq_all fq_enq_st (s, q) (map (Pair 0) ps) = Some st1 \<and>
           drain fq_deq_st (length ps) st1 = Some ((s2, q2), ps) \<and> fq_rep s2 q2 [] \<and>
           (\<forall>p. p \<notin> set (pfreed s2) \<longrightarrow>
              (\<exists>s3 q3 s4 q4. dhd_flow_queue_reinsert s2 q2 (Some p) = Some (s3, q3) \<and>
                 dhd_flow_queue_dequeue s3 q3 = Some (s4, q4, Some p) \<and> fq_rep s4 q4 []))"
proof -
  have rep: "fq_rep s q []" and mx: "fq_max q = word_of_int (budget - 1)"
    using fq_init_rep [OF assms(2), of c l2 q0 s] assms(1) by auto
  have cap: "length ps \<le> fq_cap (s, q)"
  proof -
    have "uint (word_of_int (budget - 1) :: u16) = budget - 1"
      using assms(2,3) by (subst uint_word_of_int_eq) (simp add: take_bit_int_eq_self)
    then have "int (length ps) \<le> uint (word_of_int (budget - 1) :: u16)" using assms(6) by linarith
    then show ?thesis by (simp add: fq_cap_def mx)
  qed
  have arr: "arrivals (map (Pair 0) ps) 0 = ps" by (simp add: arrivals_def filter_map comp_def)
  let ?ps = "map (Pair (0 :: nat)) ps"
  have "fq_state_rep (s, q) (replicate 1 [])" using rep by (simp add: fq_state_rep_def)
  moreover have "distinct (map snd ?ps)" using assms(4) by (simp add: comp_def)
  moreover have "\<forall>(i, p) \<in> set ?ps. i < 1 \<and> fq_fresh (s, q) p" using assms(5) by (auto simp: fq_fresh_def)
  moreover have "length ?ps \<le> fq_cap (s, q)" using cap by simp
  ultimately obtain st1 st2 where r0: "enq_all fq_enq_st (s, q) ?ps = Some st1"
      "drain fq_deq_st (length ?ps) st1 = Some (st2, concat (map (arrivals ?ps) (rev [0..<1])))"
      "fq_state_rep st2 (replicate 1 [])"
    using fq.burst_then_drain by blast
  then have r: "enq_all fq_enq_st (s, q) ?ps = Some st1" "drain fq_deq_st (length ps) st1 = Some (st2, ps)"
    by (simp_all add: arr)
  have rep2: "fq_rep (fst st2) (snd st2) []" using r0(3) by (simp add: fq_state_rep_def)
  have "\<exists>s3 q3 s4 q4. dhd_flow_queue_reinsert (fst st2) (snd st2) (Some p) = Some (s3, q3) \<and>
      dhd_flow_queue_dequeue s3 q3 = Some (s4, q4, Some p) \<and> fq_rep s4 q4 []"
    if p: "p \<notin> set (pfreed (fst st2))" for p
  proof -
    obtain s3 q3 where "dhd_flow_queue_reinsert (fst st2) (snd st2) (Some p) = Some (s3, q3)" "fq_rep s3 q3 [p]"
      using fq_reinsert_rep [OF rep2 _ _ p] by auto
    then show ?thesis using fq_dequeue_rep [of s3 q3 p "[]"] by blast
  qed
  then show ?thesis using r rep2 by (cases st2) auto
qed

theorem flow_queue_fifo_witness:
  "\<exists>q st1 s2 q2. dhd_flow_queue_init 1 2 \<lparr>fq_head = None, fq_tail = None, fq_len = 0, fq_max = 0,
        fq_threshold = 0, fq_clen_ptr = None, fq_failures = 0, fq_cb = (\<lambda>_. 0), fq_l2threshold = 0,
        fq_l2clen_ptr = None\<rparr> 2048 = Some q \<and>
     enq_all fq_enq_st (\<lparr>plink = (\<lambda>_. None), pfreed = []\<rparr>, q) [(0, 5), (0, 6), (0, 7)] = Some st1 \<and>
     drain fq_deq_st 3 st1 = Some ((s2, q2), [5, 6, 7])"
proof -
  let ?q0 = "\<lparr>fq_head = None, fq_tail = None, fq_len = 0, fq_max = 0,
        fq_threshold = 0, fq_clen_ptr = None, fq_failures = 0, fq_cb = (\<lambda>_. 0 :: int), fq_l2threshold = 0,
        fq_l2clen_ptr = None\<rparr> :: flow_queue"
  obtain q where q: "dhd_flow_queue_init 1 2 ?q0 2048 = Some q"
    using fq_init_rep [of 2048 1 2 ?q0] by auto
  from flow_queue_fifo [OF q, of "[5, 6, 7]" "\<lparr>plink = (\<lambda>_. None), pfreed = []\<rparr>"] q
  show ?thesis by (simp add: numeral_3_eq_3 del: enq_all.simps drain.simps) blast
qed

text \<open>
  A full queue refuses: \<open>dhd_flow_queue_enqueue\<close> returns the overflow callback's result (after
  initialisation \<open>BCME_NORESOURCE\<close>), counts the failure, and leaves the queue and every packet as
  they were.
\<close>

theorem flow_queue_full_refuses:
  assumes "fq_rep s q xs" and "unat (fq_max q) \<le> length xs"
  shows "\<exists>q'. dhd_flow_queue_enqueue s q pkt = Some (s, q', fq_cb q pkt) \<and> fq_rep s q' xs \<and>
           fq_failures q' = fq_failures q + 1 \<and> fq_max q' = fq_max q"
  using assms
  by (auto simp: dhd_flow_queue_enqueue_def dhd_flow_queue_throttle_def DHD_FLOW_QUEUE_FULL_def
      fq_rep_def prec_rep_def as_prec_def word_le_nat_alt)

theorem flow_queue_full_refuses_witness:
  "\<exists>q'. dhd_flow_queue_enqueue \<lparr>plink = (\<lambda>_. None), pfreed = []\<rparr>
       \<lparr>fq_head = Some 5, fq_tail = Some 5, fq_len = 1, fq_max = 1, fq_threshold = 0,
        fq_clen_ptr = Some 0, fq_failures = 0, fq_cb = dhd_flow_queue_overflow, fq_l2threshold = 0,
        fq_l2clen_ptr = Some 0\<rparr> (Some 6)
     = Some (\<lparr>plink = (\<lambda>_. None), pfreed = []\<rparr>, q', BCME_NORESOURCE) \<and> fq_failures q' = 1"
  using flow_queue_full_refuses [of "\<lparr>plink = (\<lambda>_. None), pfreed = []\<rparr>"
      "\<lparr>fq_head = Some 5, fq_tail = Some 5, fq_len = 1, fq_max = 1, fq_threshold = 0,
        fq_clen_ptr = Some 0, fq_failures = 0, fq_cb = dhd_flow_queue_overflow, fq_l2threshold = 0,
        fq_l2clen_ptr = Some 0\<rparr>" "[5]" "Some 6"]
  by (auto simp: fq_rep_def prec_rep_def as_prec_def dhd_flow_queue_overflow_def)

end
