(* ===== verification/Id16_Map.thy ===== *)
theory Id16_Map
  imports Id_Alloc
begin

text \<open>
  The 16-bit id allocator of \<open>shared/bcmutils.c\<close> (\<open>id16_map_init\<close> to \<open>id16_map_audit\<close>), a stack of
  the free ids. The debug copy (\<open>BCM_DBG_ID16\<close>) is not compiled in. A handle that may be NULL is an
  option; the result of \<open>MALLOC\<close> is an argument: NULL, or the uninitialised stack array.
\<close>

section \<open>Data\<close>

record id16_map =
  id_failures :: u32
  id_total :: u16
  id_start :: u16
  stack_idx :: int
  id_stack :: "u16 list"

abbreviation (input) ID16_INVALID :: u16 where "ID16_INVALID \<equiv> 0xFFFF"
abbreviation (input) ID16_UNDEFINED :: u16 where "ID16_UNDEFINED \<equiv> 0xFFFF"

section \<open>Operations\<close>

text \<open>
  \<open>for (idx = 0; idx < total_ids; idx++, val16++) { stack_idx = idx; stack[stack_idx] = val16; }\<close>,
  with \<open>n\<close> rounds left.
\<close>

fun fill_stack :: "nat \<Rightarrow> nat \<Rightarrow> u16 \<Rightarrow> id16_map \<Rightarrow> id16_map option" where
  "fill_stack 0 idx val16 m = Some m"
| "fill_stack (Suc n) idx val16 m = do {
     st \<leftarrow> arr_set (id_stack m) idx val16;
     fill_stack n (Suc idx) (val16 + 1) (m\<lparr>stack_idx := int idx, id_stack := st\<rparr>)
   }"

definition id16_map_init :: "u16 list option \<Rightarrow> u16 \<Rightarrow> u16 \<Rightarrow> id16_map option option" where
  "id16_map_init mem total_ids start_val16 = do {
     ASSERT (0 < total_ids);
     ASSERT (start_val16 = ID16_UNDEFINED \<or> uint start_val16 + uint total_ids < uint ID16_INVALID);
     (case mem of
        None \<Rightarrow> Some None
      | Some raw \<Rightarrow> do {
          let m = \<lparr>id_failures = 0, id_total = total_ids, id_start = start_val16,
                   stack_idx = -1, id_stack = raw\<rparr>;
          m \<leftarrow> (if id_start m \<noteq> ID16_UNDEFINED
               then fill_stack (unat total_ids) 0 start_val16 m else Some m);
          Some (Some m)
        })
   }"

definition id16_map_fini :: "id16_map option \<Rightarrow> id16_map option option" where
  "id16_map_fini hndl =
     (case hndl of None \<Rightarrow> Some None
      | Some m \<Rightarrow> do { ASSERT (0 < id_total m); Some None })"

definition id16_map_clear :: "id16_map option \<Rightarrow> u16 \<Rightarrow> u16 \<Rightarrow> id16_map option option" where
  "id16_map_clear hndl total_ids start_val16 = do {
     ASSERT (0 < total_ids);
     ASSERT (start_val16 = ID16_UNDEFINED \<or> uint start_val16 + uint total_ids < uint ID16_INVALID);
     (case hndl of
        None \<Rightarrow> Some None
      | Some m \<Rightarrow> do {
          let m = m\<lparr>id_total := total_ids, id_start := start_val16, id_failures := 0,
                    stack_idx := -1\<rparr>;
          m \<leftarrow> (if id_start m \<noteq> ID16_UNDEFINED
               then fill_stack (unat total_ids) 0 start_val16 m else Some m);
          Some (Some m)
        })
   }"

definition id16_map_alloc :: "id16_map \<Rightarrow> (id16_map \<times> u16) option" where
  "id16_map_alloc m = do {
     ASSERT (0 < id_total m);
     if stack_idx m < 0 then Some (m\<lparr>id_failures := id_failures m + 1\<rparr>, ID16_INVALID)
     else do {
       val16 \<leftarrow> arr_get (id_stack m) (nat (stack_idx m));
       Some (m\<lparr>stack_idx := stack_idx m - 1\<rparr>, val16)
     }
   }"

definition id16_map_free :: "id16_map \<Rightarrow> u16 \<Rightarrow> id16_map option" where
  "id16_map_free m val16 = do {
     let idx = stack_idx m + 1;
     st \<leftarrow> (if 0 \<le> idx then arr_set (id_stack m) (nat idx) val16 else None);
     Some (m\<lparr>stack_idx := idx, id_stack := st\<rparr>)
   }"

definition id16_map_failures :: "id16_map \<Rightarrow> u32" where
  "id16_map_failures m = id_failures m"

text \<open>The audit loop over the free part of the stack, with \<open>n\<close> rounds left.\<close>

fun audit_stack :: "nat \<Rightarrow> nat \<Rightarrow> id16_map \<Rightarrow> unit option" where
  "audit_stack 0 idx m = Some ()"
| "audit_stack (Suc n) idx m = do {
     v \<leftarrow> arr_get (id_stack m) idx;
     ASSERT (id_start m \<le> v);
     ASSERT (uint v < uint (id_start m) + uint (id_total m));
     audit_stack n (Suc idx) m
   }"

definition id16_map_audit :: "id16_map \<Rightarrow> bool option" where
  "id16_map_audit m = do {
     ASSERT (-1 \<le> stack_idx m);
     ASSERT (stack_idx m < uint (id_total m));
     if id_start m = ID16_UNDEFINED then Some False
     else do { audit_stack (nat (stack_idx m + 1)) 0 m; Some False }
   }"

section \<open>The ids the stack represents\<close>

definition id_range :: "id16_map \<Rightarrow> u16 set" where
  "id_range m = {v. id_start m \<le> v \<and> uint v < uint (id_start m) + uint (id_total m)}"

definition id16_rep :: "id16_map \<Rightarrow> u16 set \<Rightarrow> u16 set \<Rightarrow> bool" where
  "id16_rep m avail used \<longleftrightarrow>
     0 < id_total m \<and> uint (id_start m) + uint (id_total m) < 0xFFFF \<and>
     length (id_stack m) = unat (id_total m) \<and>
     -1 \<le> stack_idx m \<and> nat (stack_idx m + 1) \<le> unat (id_total m) \<and>
     distinct (take (nat (stack_idx m + 1)) (id_stack m)) \<and>
     avail = set (take (nat (stack_idx m + 1)) (id_stack m)) \<and>
     avail \<union> used = id_range m \<and> avail \<inter> used = {}"

lemma id_range_word_of_nat:
  fixes a t :: u16
  assumes "uint a + uint t < 0xFFFF"
  shows "{v :: u16. a \<le> v \<and> uint v < uint a + uint t} = (\<lambda>k. a + of_nat k) ` {..<unat t}"
proof (intro equalityI subsetI)
  fix v assume v: "v \<in> {v :: u16. a \<le> v \<and> uint v < uint a + uint t}"
  then have "unat a \<le> unat v" "unat v < unat a + unat t"
    by (simp_all add: word_le_nat_alt uint_less_add)
  then have "v = a + of_nat (unat v - unat a)" "unat v - unat a < unat t"
    by (simp_all add: of_nat_diff)
  then show "v \<in> (\<lambda>k. a + of_nat k) ` {..<unat t}" by blast
next
  fix v assume "v \<in> (\<lambda>k. a + of_nat k) ` {..<unat t}"
  then obtain k where k: "v = a + of_nat k" "k < unat t" by auto
  have "unat a + k < 2 ^ 16" using assms k(2) uint_add_less [of a t "0xFFFF"] by simp
  then have "unat v = unat a + k"
    using k(1) by (simp add: unat_word_ariths unat_of_nat take_bit_nat_eq_self)
  then show "v \<in> {v. a \<le> v \<and> uint v < uint a + uint t}"
    using k(2) by (simp add: word_le_nat_alt uint_less_add)
qed

lemma id_range_card:
  assumes "uint (id_start m) + uint (id_total m) < 0xFFFF"
  shows "finite (id_range m)" and "card (id_range m) = unat (id_total m)"
proof -
  let ?f = "\<lambda>k. id_start m + of_nat k :: u16"
  have r: "id_range m = ?f ` {..<unat (id_total m)}"
    unfolding id_range_def by (rule id_range_word_of_nat [OF assms])
  then show "finite (id_range m)" by simp
  have "inj_on ?f {..<unat (id_total m)}"
  proof (rule inj_onI)
    fix j k assume jk: "j \<in> {..<unat (id_total m)}" "k \<in> {..<unat (id_total m)}" and "?f j = ?f k"
    then have "(of_nat j :: u16) = of_nat k" by simp
    moreover have "j < 2 ^ 16" "k < 2 ^ 16" using jk unat_u16_less [of "id_total m"] by auto
    ultimately show "j = k" by (simp add: of_nat_inverse word_of_nat_eq_iff take_bit_nat_eq_self)
  qed
  then show "card (id_range m) = unat (id_total m)" by (simp add: r card_image)
qed

section \<open>Every operation keeps the representation\<close>

lemma fill_stack_result:
  "idx + n \<le> length (id_stack m) \<Longrightarrow>
   fill_stack n idx v m =
     Some (m\<lparr>stack_idx := (if n = 0 then stack_idx m else int (idx + n) - 1),
             id_stack := take idx (id_stack m) @ map (\<lambda>k. v + of_nat k) [0..<n] @
                         drop (idx + n) (id_stack m)\<rparr>)"
proof (induction n arbitrary: idx v m)
  case 0
  then show ?case by simp
next
  case (Suc n)
  have shift: "map (\<lambda>k. v + of_nat k) [0..<Suc n] = v # map (\<lambda>k. v + 1 + of_nat k) [0..<n]"
    by (simp add: upt_conv_Cons map_Suc_upt [symmetric] ac_simps del: upt_Suc)
  have "take (Suc idx) ((id_stack m)[idx := v]) = take idx (id_stack m) @ [v]"
    using Suc.prems by (simp add: take_Suc_conv_app_nth)
  then show ?case using Suc by (simp add: shift del: upt_Suc)
qed

lemma filled_rep:
  assumes "0 < total_ids" and fits: "uint start_val16 + uint total_ids < 0xFFFF"
    and "length raw = unat total_ids"
  shows "\<exists>m. fill_stack (unat total_ids) 0 start_val16
              \<lparr>id_failures = 0, id_total = total_ids, id_start = start_val16,
               stack_idx = -1, id_stack = raw\<rparr> = Some m \<and>
            id16_rep m {v. start_val16 \<le> v \<and> uint v < uint start_val16 + uint total_ids} {}"
proof -
  let ?xs = "map (\<lambda>k. start_val16 + of_nat k) [0..<unat total_ids]"
  have pos: "unat total_ids \<noteq> 0" using assms(1) by (simp add: word_greater_zero_iff unat_gt_0)
  have dist: "distinct ?xs"
  proof (subst distinct_map, intro conjI inj_onI)
    fix j k assume jk: "j \<in> set [0..<unat total_ids]" "k \<in> set [0..<unat total_ids]"
      and "start_val16 + of_nat j = start_val16 + of_nat k"
    then have "(of_nat j :: u16) = of_nat k" by simp
    moreover have "j < 2 ^ 16" "k < 2 ^ 16" using jk unat_u16_less [of total_ids] by auto
    ultimately show "j = k" by (simp add: word_of_nat_eq_iff take_bit_nat_eq_self)
  qed simp
  have set: "set ?xs = {v. start_val16 \<le> v \<and> uint v < uint start_val16 + uint total_ids}"
    unfolding id_range_word_of_nat [OF fits] by (auto simp: lessThan_atLeast0)
  have ge: "- 1 < uint total_ids" using unsigned_greater_eq [of total_ids, where 'a = int] by linarith
  show ?thesis
    using assms pos dist set ge
    by (subst fill_stack_result) (auto simp: id16_rep_def id_range_def)
qed

lemma id16_rep_card:
  assumes "id16_rep m avail used"
  shows "card avail = nat (stack_idx m + 1)" and "card avail + card used = unat (id_total m)"
    and "finite used"
proof -
  show "card avail = nat (stack_idx m + 1)"
    using assms by (auto simp: id16_rep_def distinct_card)
  have u: "avail \<union> used = id_range m" and d: "avail \<inter> used = {}"
    and f: "uint (id_start m) + uint (id_total m) < 0xFFFF"
    using assms unfolding id16_rep_def by blast+
  have fin: "finite avail" "finite used" using id_range_card(1) [OF f] u by (metis finite_Un)+
  then show "finite used" by blast
  show "card avail + card used = unat (id_total m)"
    using card_Un_disjoint [OF fin d] id_range_card(2) [OF f] u by simp
qed

lemma id16_alloc_some_rep:
  assumes rep: "id16_rep m avail used" and ne: "avail \<noteq> {}"
  shows "\<exists>m' v. id16_map_alloc m = Some (m', v) \<and> v \<noteq> ID16_INVALID \<and> v \<in> avail \<and>
           id16_rep m' (avail - {v}) (insert v used) \<and> id_failures m' = id_failures m"
proof -
  have idx: "0 \<le> stack_idx m" "nat (stack_idx m) < length (id_stack m)"
    using rep ne by (auto simp: id16_rep_def intro: ccontr)
  let ?k = "nat (stack_idx m)" and ?v = "id_stack m ! nat (stack_idx m)"
  have suc: "nat (stack_idx m + 1) = Suc ?k" using idx by simp
  have tk: "take (Suc ?k) (id_stack m) = take ?k (id_stack m) @ [?v]"
    using idx by (simp add: take_Suc_conv_app_nth)
  have av: "avail = insert ?v (set (take ?k (id_stack m)))" "?v \<notin> set (take ?k (id_stack m))"
    using rep suc tk by (auto simp: id16_rep_def)
  have "?v \<in> id_range m" using rep av by (auto simp: id16_rep_def)
  then have "?v \<noteq> 0xFFFF" using rep by (auto simp: id_range_def id16_rep_def)
  moreover have "id16_map_alloc m = Some (m\<lparr>stack_idx := stack_idx m - 1\<rparr>, ?v)"
    using rep idx by (simp add: id16_map_alloc_def id16_rep_def)
  moreover have "id16_rep (m\<lparr>stack_idx := stack_idx m - 1\<rparr>) (avail - {?v}) (insert ?v used)"
    using rep av idx suc tk by (auto simp: id16_rep_def id_range_def)
  ultimately show ?thesis using av by auto
qed

lemma id16_alloc_none_rep:
  assumes rep: "id16_rep m {} used"
  shows "id16_map_alloc m = Some (m\<lparr>id_failures := id_failures m + 1\<rparr>, ID16_INVALID)"
    and "id16_rep (m\<lparr>id_failures := id_failures m + 1\<rparr>) {} used"
proof -
  have "stack_idx m < 0" using id16_rep_card(1) [OF rep] by simp
  then show "id16_map_alloc m = Some (m\<lparr>id_failures := id_failures m + 1\<rparr>, ID16_INVALID)"
    using rep by (simp add: id16_map_alloc_def id16_rep_def)
  show "id16_rep (m\<lparr>id_failures := id_failures m + 1\<rparr>) {} used"
    using rep by (simp add: id16_rep_def id_range_def)
qed

lemma id16_free_rep:
  assumes rep: "id16_rep m avail used" and v: "v \<in> used"
  shows "\<exists>m'. id16_map_free m v = Some m' \<and> id16_rep m' (insert v avail) (used - {v})"
proof -
  have "0 < card used" using id16_rep_card(3) [OF rep] v by (auto simp: card_gt_0_iff)
  then have k: "nat (stack_idx m + 1) < unat (id_total m)" using id16_rep_card [OF rep] by simp
  let ?k = "nat (stack_idx m + 1)"
  let ?m = "m\<lparr>stack_idx := stack_idx m + 1, id_stack := (id_stack m)[?k := v]\<rparr>"
  have lo: "-1 \<le> stack_idx m" and len: "length (id_stack m) = unat (id_total m)"
    using rep by (auto simp: id16_rep_def)
  have "id16_map_free m v = Some ?m"
    using lo len k by (simp add: id16_map_free_def Let_def)
  moreover have "take (Suc ?k) ((id_stack m)[?k := v]) = take ?k (id_stack m) @ [v]"
    using k len by (simp add: take_Suc_conv_app_nth)
  moreover have "nat (stack_idx m + 1 + 1) = Suc ?k" using lo by simp
  moreover have "v \<notin> avail" using rep v by (auto simp: id16_rep_def)
  ultimately show ?thesis
    using rep v k lo by (auto simp: id16_rep_def id_range_def)
qed

lemma audit_stack_ok:
  assumes "\<And>j. idx \<le> j \<Longrightarrow> j < idx + n \<Longrightarrow> j < length (id_stack m) \<and> id_stack m ! j \<in> id_range m"
  shows "audit_stack n idx m = Some ()"
  using assms by (induction n arbitrary: idx) (auto simp: id_range_def)

lemma id16_audit_rep: "id16_rep m avail used \<Longrightarrow> id16_map_audit m = Some False"
proof -
  assume rep: "id16_rep m avail used"
  have "audit_stack (nat (stack_idx m + 1)) 0 m = Some ()"
  proof (rule audit_stack_ok)
    fix j assume "0 \<le> j" "j < 0 + nat (stack_idx m + 1)"
    then have "j < length (id_stack m)" "id_stack m ! j \<in> avail"
      using rep by (auto simp: id16_rep_def in_set_conv_nth)
    then show "j < length (id_stack m) \<and> id_stack m ! j \<in> id_range m"
      using rep by (auto simp: id16_rep_def)
  qed
  moreover have "stack_idx m < uint (id_total m)"
    using rep unfolding id16_rep_def uint_nat by linarith
  ultimately show ?thesis using rep by (auto simp: id16_map_audit_def id16_rep_def)
qed

section \<open>The id16 allocator satisfies the contract\<close>

definition id16_alloc_st :: "id16_map \<Rightarrow> (id16_map \<times> u16 option) option" where
  "id16_alloc_st m =
     do { (m', v) \<leftarrow> id16_map_alloc m; Some (m', if v = ID16_INVALID then None else Some v) }"

interpretation id16: id_alloc id16_rep id16_alloc_st id16_map_free
proof
  fix m avail used x
  assume rep: "id16_rep m avail used"
  show "avail \<inter> used = {}" using rep unfolding id16_rep_def by blast
  show "\<exists>m' x. id16_alloc_st m = Some (m', Some x) \<and> x \<in> avail \<and>
      id16_rep m' (avail - {x}) (insert x used)" if "avail \<noteq> {}"
    using id16_alloc_some_rep [OF rep that] by (auto simp: id16_alloc_st_def)
  show "\<exists>m'. id16_map_free m x = Some m' \<and> id16_rep m' (insert x avail) (used - {x})"
    if "x \<in> used" by (rule id16_free_rep [OF rep that])
next
  fix m used
  assume "id16_rep m {} used"
  then show "\<exists>m'. id16_alloc_st m = Some (m', None) \<and> id16_rep m' {} used"
    using id16_alloc_none_rep by (auto simp: id16_alloc_st_def)
qed

lemma id16_init_rep:
  assumes "0 < total_ids" and "uint start_val16 + uint total_ids < 0xFFFF"
    and "length raw = unat total_ids"
  shows "\<exists>m. id16_map_init (Some raw) total_ids start_val16 = Some (Some m) \<and>
           id16_rep m {v. start_val16 \<le> v \<and> uint v < uint start_val16 + uint total_ids} {}"
proof -
  have "start_val16 \<noteq> 0xFFFF"
  proof
    assume "start_val16 = 0xFFFF"
    then show False using assms(2) unsigned_greater_eq [of total_ids, where 'a = int] by simp
  qed
  then show ?thesis using assms filled_rep [OF assms] by (auto simp: id16_map_init_def)
qed

lemma id16_alloc_fails_iff:
  assumes rep: "id16_rep m avail used"
  shows "(\<exists>m'. id16_map_alloc m = Some (m', ID16_INVALID)) \<longleftrightarrow> card used = unat (id_total m)"
proof (cases "avail = {}")
  case True
  then show ?thesis using id16_alloc_none_rep rep id16_rep_card(2) [OF rep] by auto
next
  case False
  then have "card avail \<noteq> 0"
    using id_range_card(1) [of m] rep by (auto simp: id16_rep_def)
  then show ?thesis
    using id16_alloc_some_rep [OF rep False] id16_rep_card(2) [OF rep] by auto
qed

section \<open>Properties\<close>

text \<open>
  C6. An id16 allocator built over \<open>[start, start + total)\<close> serves any sequence of allocations and
  releases of held ids without ever leaving its stack array: the ids held are pairwise distinct and
  in range, allocation reports \<open>ID16_INVALID\<close> exactly when all \<open>total\<close> ids are held, and the audit
  passes at every point.
\<close>

theorem id16_ids_unique:
  assumes "0 < total_ids" and "uint start_val16 + uint total_ids < 0xFFFF"
    and "length raw = unat total_ids"
  shows "\<exists>m. id16_map_init (Some raw) total_ids start_val16 = Some (Some m) \<and>
     (\<forall>ops. \<exists>m' held. id_client id16_alloc_st id16_map_free ops m [] = Some (m', held) \<and>
        distinct held \<and>
        (\<forall>v. v \<in> set held \<longrightarrow> start_val16 \<le> v \<and> uint v < uint start_val16 + uint total_ids) \<and>
        ((\<exists>m''. id16_map_alloc m' = Some (m'', ID16_INVALID)) \<longleftrightarrow> length held = unat total_ids) \<and>
        id16_map_audit m' = Some False)"
proof -
  let ?all = "{v. start_val16 \<le> v \<and> uint v < uint start_val16 + uint total_ids}"
  obtain m where m: "id16_map_init (Some raw) total_ids start_val16 = Some (Some m)"
      and rep: "id16_rep m ?all {}"
    using id16_init_rep [OF assms] by blast
  have "\<exists>m' held. id_client id16_alloc_st id16_map_free ops m [] = Some (m', held) \<and>
        distinct held \<and> set held \<subseteq> ?all \<and>
        ((\<exists>m''. id16_map_alloc m' = Some (m'', ID16_INVALID)) \<longleftrightarrow> length held = unat total_ids) \<and>
        id16_map_audit m' = Some False" for ops
  proof -
    obtain m' held avail where r: "id_client id16_alloc_st id16_map_free ops m [] = Some (m', held)"
        "id16_rep m' avail (set held)" "distinct held" "avail \<union> set held = ?all"
      using id16.client_safe [OF rep, of "[]" ops] by auto
    have "card (id_range m') = card ?all" using r(2,4) by (simp add: id16_rep_def)
    moreover have "card (id_range m) = card ?all" using rep unfolding id16_rep_def by (metis Un_empty_right)
    ultimately have "unat (id_total m') = unat (id_total m)"
      using id_range_card(2) [of m] id_range_card(2) [of m'] rep r(2) by (simp add: id16_rep_def)
    moreover have "id_total m = total_ids"
      using m assms by (auto simp: id16_map_init_def fill_stack_result Let_def split: if_splits)
    ultimately have "(\<exists>m''. id16_map_alloc m' = Some (m'', ID16_INVALID)) \<longleftrightarrow>
        length held = unat total_ids"
      using id16_alloc_fails_iff [OF r(2)] r(3) by (simp add: distinct_card)
    then show ?thesis using r id16_audit_rep [OF r(2)] by auto
  qed
  then show ?thesis using m by (intro exI [of _ m]) blast
qed

theorem id16_ids_unique_witness:
  "\<exists>m. id16_map_init (Some [0, 0, 0]) 3 40 = Some (Some m) \<and>
     (\<exists>m' held. id_client id16_alloc_st id16_map_free [Take, Take, Give 0, Take] m [] = Some (m', held) \<and>
        distinct held \<and> id16_map_audit m' = Some False)"
  using id16_ids_unique [of 3 40 "[0, 0, 0]"] by (simp del: id_client.simps) blast

text \<open>
  \<open>id16_map_clear\<close> on an allocator of the same size gives every id back, whatever was held, and
  resets the failure count: the state is the one \<open>id16_map_init\<close> builds.
\<close>

theorem id16_clear_is_init:
  assumes "id16_rep m avail used" and "uint start_val16 + uint (id_total m) < 0xFFFF"
  shows "id16_map_clear (Some m) (id_total m) start_val16
         = id16_map_init (Some (id_stack m)) (id_total m) start_val16"
  using assms by (simp add: id16_map_clear_def id16_map_init_def id16_rep_def fill_stack_result Let_def)

theorem id16_clear_is_init_witness:
  "id16_map_clear (Some \<lparr>id_failures = 7, id_total = 2, id_start = 5, stack_idx = 0,
      id_stack = [5, 6]\<rparr>) 2 9 = id16_map_init (Some [5, 6]) 2 9"
proof -
  have "id_range \<lparr>id_failures = 7, id_total = 2, id_start = 5, stack_idx = 0, id_stack = [5, 6]\<rparr> = {5, 6}"
    using id_range_word_of_nat [of 5 2] by (auto simp: id_range_def lessThan_nat_numeral)
  then have "id16_rep \<lparr>id_failures = 7, id_total = 2, id_start = 5, stack_idx = 0, id_stack = [5, 6]\<rparr>
      {5} {6}"
    by (auto simp: id16_rep_def)
  from id16_clear_is_init [OF this, of 9] show ?thesis by simp
qed

end
