(* ===== verification/Dll.thy ===== *)
theory Dll
  imports Id_Alloc
begin

text \<open>
  The circular double linked lists of \<open>include/bcmutils.h\<close> (\<open>dll_t\<close>), which the flow rings use for the
  list of open rings, and the element pool built on them (\<open>dll_pool_*\<close> in \<open>shared/bcmutils.c\<close>). A
  node is an address; memory holds its two link fields.
\<close>

section \<open>Nodes and links\<close>

type_synonym dll_node = nat

record dll_mem =
  next_p :: "dll_node \<Rightarrow> dll_node"
  prev_p :: "dll_node \<Rightarrow> dll_node"

definition set_next :: "dll_mem \<Rightarrow> dll_node \<Rightarrow> dll_node \<Rightarrow> dll_mem" where
  "set_next M n v = M\<lparr>next_p := (next_p M)(n := v)\<rparr>"

definition set_prev :: "dll_mem \<Rightarrow> dll_node \<Rightarrow> dll_node \<Rightarrow> dll_mem" where
  "set_prev M n v = M\<lparr>prev_p := (prev_p M)(n := v)\<rparr>"

definition dll_init :: "dll_mem \<Rightarrow> dll_node \<Rightarrow> dll_mem" where
  "dll_init M node = set_prev (set_next M node node) node node"

definition dll_head_p :: "dll_mem \<Rightarrow> dll_node \<Rightarrow> dll_node" where
  "dll_head_p M list = next_p M list"

definition dll_tail_p :: "dll_mem \<Rightarrow> dll_node \<Rightarrow> dll_node" where
  "dll_tail_p M list = prev_p M list"

definition dll_empty :: "dll_mem \<Rightarrow> dll_node \<Rightarrow> bool" where
  "dll_empty M list \<longleftrightarrow> next_p M list = list"

definition dll_end :: "dll_node \<Rightarrow> dll_node \<Rightarrow> bool" where
  "dll_end list node \<longleftrightarrow> list = node"

definition dll_insert :: "dll_mem \<Rightarrow> dll_node \<Rightarrow> dll_node \<Rightarrow> dll_mem" where
  "dll_insert M new at =
     (let M = set_next M new (next_p M at);
          M = set_prev M new at;
          M = set_next M at new
      in set_prev M (next_p M new) new)"

definition dll_append :: "dll_mem \<Rightarrow> dll_node \<Rightarrow> dll_node \<Rightarrow> dll_mem" where
  "dll_append M list node = dll_insert M node (dll_tail_p M list)"

definition dll_prepend :: "dll_mem \<Rightarrow> dll_node \<Rightarrow> dll_node \<Rightarrow> dll_mem" where
  "dll_prepend M list node = dll_insert M node list"

definition dll_delete :: "dll_mem \<Rightarrow> dll_node \<Rightarrow> dll_mem" where
  "dll_delete M node =
     (let M = set_next M (prev_p M node) (next_p M node)
      in set_prev M (next_p M node) (prev_p M node))"

text \<open>The loop of the header's example: from the head to the list node, at most \<open>n\<close> steps.\<close>

fun dll_walk :: "nat \<Rightarrow> dll_mem \<Rightarrow> dll_node \<Rightarrow> dll_node \<Rightarrow> dll_node list option" where
  "dll_walk 0 M list item = (if dll_end list item then Some [] else None)"
| "dll_walk (Suc n) M list item =
     (if dll_end list item then Some []
      else map_option ((#) item) (dll_walk n M list (next_p M item)))"

section \<open>The list a node heads\<close>

fun linked :: "dll_mem \<Rightarrow> dll_node list \<Rightarrow> bool" where
  "linked M (x # y # zs) \<longleftrightarrow> next_p M x = y \<and> prev_p M y = x \<and> linked M (y # zs)"
| "linked M xs \<longleftrightarrow> True"

definition dll_rep :: "dll_mem \<Rightarrow> dll_node \<Rightarrow> dll_node list \<Rightarrow> bool" where
  "dll_rep M l xs \<longleftrightarrow> distinct (l # xs) \<and> linked M (l # xs @ [l])"

lemma linked_join: "linked M (xs @ x # ys) \<longleftrightarrow> linked M (xs @ [x]) \<and> linked M (x # ys)"
proof (induction xs)
  case (Cons a xs)
  then show ?case by (cases xs) auto
qed simp

lemma linked_frame:
  assumes "linked M xs" and "\<And>x. x \<in> set (butlast xs) \<Longrightarrow> next_p M' x = next_p M x"
    and "\<And>x. x \<in> set (tl xs) \<Longrightarrow> prev_p M' x = prev_p M x"
  shows "linked M' xs"
  using assms by (induction M xs rule: linked.induct) auto

lemma dll_init_rep [simp]: "dll_rep (dll_init M l) l []"
  by (simp add: dll_rep_def dll_init_def set_next_def set_prev_def)

text \<open>
  Around any gap of the circle: \<open>as\<close> before it, \<open>bs\<close> after it, \<open>at\<close> the node before the gap and \<open>nx\<close>
  the one after it.
\<close>

definition gap :: "dll_node \<Rightarrow> dll_node list \<Rightarrow> dll_node list \<Rightarrow> dll_node list \<Rightarrow> dll_node \<Rightarrow>
    dll_node \<Rightarrow> dll_node list \<Rightarrow> bool" where
  "gap l as bs P at nx R \<longleftrightarrow> l # as = P @ [at] \<and> bs @ [l] = nx # R"

lemma gap_exists: "\<exists>P nx R. gap l as bs P (last (l # as)) nx R"
proof -
  have "l # as = butlast (l # as) @ [last (l # as)]" by (rule append_butlast_last_id [symmetric]) simp
  moreover have "bs @ [l] = hd (bs @ [l]) # tl (bs @ [l])" by simp
  ultimately show ?thesis unfolding gap_def by blast
qed

lemma gap_rep:
  assumes "gap l as bs P at nx R"
  shows "dll_rep M l (as @ bs) \<longleftrightarrow> distinct (l # as @ bs) \<and> linked M (P @ [at]) \<and>
           next_p M at = nx \<and> prev_p M nx = at \<and> linked M (nx # R)"
proof -
  have "l # as @ bs @ [l] = (l # as) @ (bs @ [l])" by simp
  also have "\<dots> = P @ at # nx # R" using assms by (simp add: gap_def)
  finally have eq: "l # as @ bs @ [l] = P @ at # nx # R" .
  have "linked M (P @ at # nx # R) \<longleftrightarrow> linked M (P @ [at]) \<and> linked M (at # nx # R)"
    by (rule linked_join)
  then show ?thesis by (simp add: dll_rep_def eq)
qed

lemma gap_sets:
  assumes "gap l as bs P at nx R" and "distinct (l # as @ bs)"
  shows "at \<notin> set P" "set (tl (P @ [at])) = set as" "set (butlast (nx # R)) = set bs" "nx \<notin> set R"
    "nx \<notin> set as" "at \<notin> set bs" "at \<in> set (l # as)" "nx \<in> set (l # bs)" "set P \<subseteq> set (l # as)"
    "set R \<subseteq> set (l # bs)"
proof -
  have P: "l # as = P @ [at]" and R: "bs @ [l] = nx # R" using assms(1) by (auto simp: gap_def)
  have "distinct (P @ [at])" using assms(2) unfolding P [symmetric] by simp
  then show "at \<notin> set P" by simp
  show "set (tl (P @ [at])) = set as" unfolding P [symmetric] by simp
  show "set (butlast (nx # R)) = set bs" unfolding R [symmetric] by simp
  have "distinct (nx # R)" using assms(2) unfolding R [symmetric] by auto
  then show "nx \<notin> set R" by simp
  have sP: "set (l # as) = insert at (set P)" unfolding P by simp
  have sR: "insert l (set bs) = insert nx (set R)"
    using arg_cong [OF R, of set] by simp
  show "at \<in> set (l # as)" "set P \<subseteq> set (l # as)" unfolding sP by auto
  show nx: "nx \<in> set (l # bs)" "set R \<subseteq> set (l # bs)" using sR by auto
  show "nx \<notin> set as" using nx assms(2) by auto
  show "at \<notin> set bs" using \<open>at \<in> set (l # as)\<close> assms(2) by auto
qed

lemma dll_insert_gap:
  assumes g: "gap l as bs P at nx R" and rep: "dll_rep M l (as @ bs)" and new: "new \<notin> set (l # as @ bs)"
  shows "dll_rep (dll_insert M new at) l (as @ new # bs)"
proof -
  let ?M = "dll_insert M new at"
  have r: "distinct (l # as @ bs)" "linked M (P @ [at])" "next_p M at = nx" "linked M (nx # R)"
    using rep unfolding gap_rep [OF g] by blast+
  note s = gap_sets [OF g r(1)]
  have ne: "at \<noteq> new" "nx \<noteq> new" "new \<notin> set P" "new \<notin> set R" "new \<notin> set as" "new \<notin> set bs"
    using s new by auto
  have M: "next_p ?M = (next_p M)(new := nx, at := new)" "prev_p ?M = (prev_p M)(new := at, nx := new)"
    using ne by (simp_all add: dll_insert_def Let_def set_next_def set_prev_def r(3))
  have l1: "linked ?M (P @ [at])"
    using r(2) by (rule linked_frame) (use s ne in \<open>auto simp: M\<close>)
  have l2: "linked ?M (nx # R)"
    using r(4) by (rule linked_frame) (use s ne in \<open>auto simp: M\<close>)
  have g': "gap l as (new # bs) P at new (nx # R)" using g by (simp add: gap_def)
  show ?thesis
    unfolding gap_rep [OF g'] using l1 l2 ne r(1) new by (auto simp: M)
qed

lemma dll_delete_gap:
  assumes g: "gap l as bs P at nx R" and rep: "dll_rep M l (as @ x # bs)"
  shows "dll_rep (dll_delete M x) l (as @ bs)"
proof -
  let ?M = "dll_delete M x"
  have g': "gap l as (x # bs) P at x (nx # R)" using g by (simp add: gap_def)
  have r: "distinct (l # as @ x # bs)" "linked M (P @ [at])" "next_p M at = x" "prev_p M x = at"
      "linked M (x # nx # R)"
    using rep unfolding gap_rep [OF g'] by blast+
  have d: "distinct (l # as @ bs)" using r(1) by auto
  note s = gap_sets [OF g d]
  have nx: "next_p M x = nx" "linked M (nx # R)" using r(5) by simp_all
  have x: "x \<noteq> at" using s r(1) by auto
  have M: "next_p ?M = (next_p M)(at := nx)" "prev_p ?M = (prev_p M)(nx := at)"
    using x by (simp_all add: dll_delete_def Let_def set_next_def set_prev_def r(4) nx(1))
  have l1: "linked ?M (P @ [at])"
    using r(2) by (rule linked_frame) (use s in \<open>auto simp: M\<close>)
  have l2: "linked ?M (nx # R)"
    using nx(2) by (rule linked_frame) (use s in \<open>auto simp: M\<close>)
  show ?thesis unfolding gap_rep [OF g] using l1 l2 d by (simp add: M)
qed

lemma dll_insert_rep:
  assumes "dll_rep M l (as @ bs)" and "new \<notin> set (l # as @ bs)"
  shows "dll_rep (dll_insert M new (last (l # as))) l (as @ new # bs)"
  using gap_exists [of l as bs] dll_insert_gap assms by blast

lemma dll_prepend_rep:
  "dll_rep M l xs \<Longrightarrow> n \<notin> set (l # xs) \<Longrightarrow> dll_rep (dll_prepend M l n) l (n # xs)"
  using dll_insert_rep [of M l "[]" xs n] by (simp add: dll_prepend_def)

lemma dll_ends:
  assumes "dll_rep M l xs"
  shows "dll_tail_p M l = last (l # xs)" and "dll_head_p M l = hd (xs @ [l])"
proof -
  obtain P nx R where g: "gap l xs [] P (last (l # xs)) nx R" using gap_exists by blast
  then have "prev_p M nx = last (l # xs)" using assms gap_rep [OF g, of M] by simp
  then show "dll_tail_p M l = last (l # xs)" using g by (simp add: gap_def dll_tail_p_def)
  obtain P nx R where g: "gap l [] xs P l nx R" using gap_exists [of l "[]" xs] by auto
  then have "next_p M l = nx" using assms gap_rep [OF g, of M] by simp
  then show "dll_head_p M l = hd (xs @ [l])" using g by (simp add: gap_def dll_head_p_def)
qed

lemma dll_append_rep:
  "dll_rep M l xs \<Longrightarrow> n \<notin> set (l # xs) \<Longrightarrow> dll_rep (dll_append M l n) l (xs @ [n])"
  using dll_insert_rep [of M l xs "[]" n] dll_ends(1) [of M l xs] by (simp add: dll_append_def)

lemma dll_delete_rep:
  "dll_rep M l (as @ x # bs) \<Longrightarrow> dll_rep (dll_delete M x) l (as @ bs)"
  using gap_exists [of l as bs] dll_delete_gap by blast

lemma dll_empty_rep: "dll_rep M l xs \<Longrightarrow> dll_empty M l \<longleftrightarrow> xs = []"
  using dll_ends(2) [of M l xs] by (cases xs) (auto simp: dll_empty_def dll_head_p_def dll_rep_def)

lemma dll_walk_linked:
  "linked M (x # xs @ [l]) \<Longrightarrow> l \<notin> set xs \<Longrightarrow> length xs \<le> n \<Longrightarrow>
   dll_walk n M l (next_p M x) = Some xs"
proof (induction xs arbitrary: x n)
  case Nil
  then show ?case by (cases n) (simp_all add: dll_end_def)
next
  case (Cons y ys)
  then obtain k where "n = Suc k" by (cases n) auto
  with Cons show ?case by (auto simp: dll_end_def)
qed

lemma dll_walk_rep: "dll_rep M l xs \<Longrightarrow> length xs \<le> n \<Longrightarrow> dll_walk n M l (dll_head_p M l) = Some xs"
  unfolding dll_head_p_def by (rule dll_walk_linked) (auto simp: dll_rep_def)

section \<open>The element pool\<close>

text \<open>
  A pool is one block: the list node \<open>free_list\<close> at its start, the counters, and the elements, each
  \<open>elem_size\<close> bytes from the next. \<open>dll_sz\<close> is \<open>sizeof(dll_t)\<close> and \<open>elems_off\<close> the offset of the
  elements in the block; both depend on the machine's pointer size.
\<close>

record dll_pool =
  free_list :: dll_node
  free_count :: u16
  elems_max :: u16
  elem_size :: u16
  elements :: dll_node

fun pool_fill :: "nat \<Rightarrow> dll_mem \<Rightarrow> dll_node \<Rightarrow> nat \<Rightarrow> dll_node \<Rightarrow> dll_mem" where
  "pool_fill 0 M fl sz elem_p = M"
| "pool_fill (Suc n) M fl sz elem_p = pool_fill n (dll_append M fl elem_p) fl sz (elem_p + sz)"

definition dll_pool_init ::
  "nat \<Rightarrow> nat \<Rightarrow> dll_mem \<Rightarrow> dll_node option \<Rightarrow> u16 \<Rightarrow> u16 \<Rightarrow> (dll_mem \<times> dll_pool) option" where
  "dll_pool_init dll_sz elems_off M mem emax esize = do {
     ASSERT (dll_sz < unat esize);
     (case mem of
        None \<Rightarrow> None
      | Some blk \<Rightarrow> do {
          let M = dll_init M blk;
          let M = pool_fill (unat emax) M blk (unat esize) (blk + elems_off);
          Some (M, \<lparr>free_list = blk, free_count = emax, elems_max = emax, elem_size = esize,
                    elements = blk + elems_off\<rparr>)
        })
   }"

definition dll_pool_alloc ::
  "dll_mem \<Rightarrow> dll_pool \<Rightarrow> (dll_mem \<times> dll_pool \<times> dll_node option) option" where
  "dll_pool_alloc M pl =
     (if free_count pl = 0
      then do { ASSERT (dll_empty M (free_list pl)); Some (M, pl, None) }
      else do {
        let elem_p = dll_head_p M (free_list pl);
        Some (dll_delete M elem_p, pl\<lparr>free_count := free_count pl - 1\<rparr>, Some elem_p)
      })"

definition dll_pool_free :: "dll_mem \<Rightarrow> dll_pool \<Rightarrow> dll_node \<Rightarrow> dll_mem \<times> dll_pool" where
  "dll_pool_free M pl elem_p =
     (dll_prepend M (free_list pl) elem_p, pl\<lparr>free_count := free_count pl + 1\<rparr>)"

definition dll_pool_free_tail :: "dll_mem \<Rightarrow> dll_pool \<Rightarrow> dll_node \<Rightarrow> dll_mem \<times> dll_pool" where
  "dll_pool_free_tail M pl elem_p =
     (dll_append M (free_list pl) elem_p, pl\<lparr>free_count := free_count pl + 1\<rparr>)"

definition pool_nodes :: "dll_pool \<Rightarrow> dll_node set" where
  "pool_nodes pl = (\<lambda>i. elements pl + i * unat (elem_size pl)) ` {..<unat (elems_max pl)}"

definition pool_rep :: "dll_mem \<times> dll_pool \<Rightarrow> dll_node set \<Rightarrow> dll_node set \<Rightarrow> bool" where
  "pool_rep st avail used \<longleftrightarrow>
     (\<exists>xs. dll_rep (fst st) (free_list (snd st)) xs \<and> avail = set xs \<and>
        unat (free_count (snd st)) = length xs) \<and>
     avail \<union> used = pool_nodes (snd st) \<and> avail \<inter> used = {} \<and> free_list (snd st) \<notin> pool_nodes (snd st)"

lemma pool_fill_rep:
  assumes "dll_rep M fl xs" and "0 < sz"
    and "\<And>i. i < n \<Longrightarrow> e + i * sz \<notin> set (fl # xs)"
  shows "dll_rep (pool_fill n M fl sz e) fl (xs @ map (\<lambda>i. e + i * sz) [0..<n])"
  using assms
proof (induction n arbitrary: M xs e)
  case 0
  then show ?case by simp
next
  case (Suc n)
  have e: "e \<notin> set (fl # xs)" using Suc.prems(3) [of 0] by simp
  have "dll_rep (dll_append M fl e) fl (xs @ [e])" by (rule dll_append_rep [OF Suc.prems(1) e])
  moreover have "e + sz + i * sz \<notin> set (fl # xs @ [e])" if "i < n" for i
    using Suc.prems(2) Suc.prems(3) [of "Suc i"] that by (auto simp: algebra_simps)
  ultimately have "dll_rep (pool_fill n (dll_append M fl e) fl sz (e + sz)) fl
      ((xs @ [e]) @ map (\<lambda>i. e + sz + i * sz) [0..<n])"
    using Suc.prems(2) by (intro Suc.IH) (auto simp: ac_simps)
  moreover have "map (\<lambda>i. e + i * sz) [0..<Suc n] = e # map (\<lambda>i. e + sz + i * sz) [0..<n]"
    by (simp add: upt_conv_Cons map_Suc_upt [symmetric] ac_simps del: upt_Suc)
  ultimately show ?case by (simp del: upt_Suc)
qed

lemma dll_pool_init_rep:
  assumes "dll_sz < unat esize" and off: "0 < elems_off"
  shows "\<exists>M' pl. dll_pool_init dll_sz elems_off M (Some blk) emax esize = Some (M', pl) \<and>
           pool_rep (M', pl) (pool_nodes pl) {} \<and> elems_max pl = emax"
proof -
  let ?pl = "\<lparr>free_list = blk, free_count = emax, elems_max = emax, elem_size = esize,
               elements = blk + elems_off\<rparr>"
  let ?xs = "map (\<lambda>i. blk + elems_off + i * unat esize) [0..<unat emax]"
  have "dll_rep (pool_fill (unat emax) (dll_init M blk) blk (unat esize) (blk + elems_off)) blk ([] @ ?xs)"
    using assms by (intro pool_fill_rep) auto
  moreover have "set ?xs = pool_nodes ?pl" by (auto simp: pool_nodes_def)
  moreover have "blk \<notin> pool_nodes ?pl" using off by (auto simp: pool_nodes_def)
  ultimately show ?thesis
    using assms(1) by (auto simp: dll_pool_init_def pool_rep_def Let_def intro!: exI [of _ ?xs])
qed

lemma pool_nodes_card: "card (pool_nodes pl) \<le> unat (elems_max pl)" "finite (pool_nodes pl)"
  unfolding pool_nodes_def using card_image_le [of "{..<unat (elems_max pl)}"] by auto

text \<open>A node that is out leaves room in the 16-bit count.\<close>

lemma pool_count_room:
  assumes rep: "pool_rep (M, pl) avail used" and x: "x \<in> used"
  shows "unat (free_count pl + 1) = Suc (unat (free_count pl))"
proof -
  obtain xs where xs: "dll_rep M (free_list pl) xs" "avail = set xs" "unat (free_count pl) = length xs"
    using rep by (auto simp: pool_rep_def)
  have "distinct xs" using xs(1) by (simp add: dll_rep_def)
  then have "length xs = card avail" by (simp add: xs(2) distinct_card)
  also have "\<dots> < card (pool_nodes pl)"
    using rep x pool_nodes_card(2) [of pl] by (intro psubset_card_mono) (auto simp: pool_rep_def)
  also have "\<dots> \<le> unat (elems_max pl)" by (rule pool_nodes_card)
  finally have "unat (free_count pl) < 65535" using xs(3) unat_u16_less [of "elems_max pl"] by simp
  then show ?thesis by (rule unat_inc) simp
qed

lemma pool_put_rep:
  assumes rep: "pool_rep (M, pl) avail used" and x: "x \<in> used"
    and ins: "\<And>xs. dll_rep M (free_list pl) xs \<Longrightarrow> x \<notin> set (free_list pl # xs) \<Longrightarrow>
                \<exists>ys. dll_rep M' (free_list pl) ys \<and> set ys = insert x (set xs) \<and> length ys = Suc (length xs)"
  shows "pool_rep (M', pl\<lparr>free_count := free_count pl + 1\<rparr>) (insert x avail) (used - {x})"
proof -
  obtain xs where xs: "dll_rep M (free_list pl) xs" "avail = set xs" "unat (free_count pl) = length xs"
    using rep by (auto simp: pool_rep_def)
  have "x \<notin> set (free_list pl # xs)" using rep x xs(2) by (auto simp: pool_rep_def)
  then obtain ys where "dll_rep M' (free_list pl) ys" "set ys = insert x (set xs)" "length ys = Suc (length xs)"
    using ins [OF xs(1)] by blast
  then show ?thesis
    using rep x xs pool_count_room [OF rep x] by (auto simp: pool_rep_def pool_nodes_def)
qed

definition pool_alloc_st :: "dll_mem \<times> dll_pool \<Rightarrow> ((dll_mem \<times> dll_pool) \<times> dll_node option) option" where
  "pool_alloc_st st = do { (M, pl, r) \<leftarrow> dll_pool_alloc (fst st) (snd st); Some ((M, pl), r) }"

definition pool_free_st :: "dll_mem \<times> dll_pool \<Rightarrow> dll_node \<Rightarrow> (dll_mem \<times> dll_pool) option" where
  "pool_free_st st x = Some (dll_pool_free (fst st) (snd st) x)"

definition pool_free_tail_st :: "dll_mem \<times> dll_pool \<Rightarrow> dll_node \<Rightarrow> (dll_mem \<times> dll_pool) option" where
  "pool_free_tail_st st x = Some (dll_pool_free_tail (fst st) (snd st) x)"

lemma pool_alloc_some:
  assumes rep: "pool_rep st avail used" and ne: "avail \<noteq> {}"
  shows "\<exists>st' x. pool_alloc_st st = Some (st', Some x) \<and> x \<in> avail \<and> pool_rep st' (avail - {x}) (insert x used)"
proof -
  obtain M pl where st: "st = (M, pl)" by (cases st)
  obtain xs where xs: "dll_rep M (free_list pl) xs" "avail = set xs" "unat (free_count pl) = length xs"
    using rep by (auto simp: pool_rep_def st)
  obtain x ys where x: "xs = x # ys" using ne xs(2) by (cases xs) auto
  have hd: "dll_head_p M (free_list pl) = x" using dll_ends(2) [OF xs(1)] by (simp add: x)
  have del: "dll_rep (dll_delete M x) (free_list pl) ys"
    using dll_delete_rep [of M "free_list pl" "[]" x ys] xs(1) by (simp add: x)
  have "x \<notin> set ys" using xs(1) by (simp add: dll_rep_def x)
  moreover have cnt: "free_count pl \<noteq> 0" "unat (free_count pl - 1) = length ys"
    using xs(3) by (auto simp: x unat_dec)
  ultimately show ?thesis
    using rep xs del hd
    by (auto simp: st pool_alloc_st_def dll_pool_alloc_def Let_def pool_rep_def pool_nodes_def x)
qed

lemma pool_alloc_none:
  assumes "pool_rep st {} used"
  shows "\<exists>st'. pool_alloc_st st = Some (st', None) \<and> pool_rep st' {} used"
proof -
  obtain M pl where st: "st = (M, pl)" by (cases st)
  have e: "dll_rep M (free_list pl) []" and "unat (free_count pl) = 0"
    using assms by (auto simp: pool_rep_def st)
  then have "free_count pl = 0" by (metis unat_eq_zero)
  then have "pool_alloc_st st = Some (st, None)"
    using dll_empty_rep [OF e] by (simp add: st pool_alloc_st_def dll_pool_alloc_def)
  then show ?thesis using assms by blast
qed

interpretation pool: id_alloc pool_rep pool_alloc_st pool_free_st
proof
  fix st avail used x
  assume rep: "pool_rep st avail used"
  show "avail \<inter> used = {}" using rep by (simp add: pool_rep_def)
  show "\<exists>st' x. pool_alloc_st st = Some (st', Some x) \<and> x \<in> avail \<and> pool_rep st' (avail - {x}) (insert x used)"
    if "avail \<noteq> {}" by (rule pool_alloc_some [OF rep that])
  show "\<exists>st'. pool_free_st st x = Some st' \<and> pool_rep st' (insert x avail) (used - {x})" if x: "x \<in> used"
  proof -
    have "pool_rep (dll_prepend (fst st) (free_list (snd st)) x,
        (snd st)\<lparr>free_count := free_count (snd st) + 1\<rparr>) (insert x avail) (used - {x})"
      using rep x by (intro pool_put_rep [of "fst st"]) (force intro: dll_prepend_rep)+
    then show ?thesis by (simp add: pool_free_st_def dll_pool_free_def)
  qed
qed (rule pool_alloc_none)

interpretation pool_tail: id_alloc pool_rep pool_alloc_st pool_free_tail_st
proof
  fix st avail used x
  assume rep: "pool_rep st avail used"
  show "avail \<inter> used = {}" using rep by (simp add: pool_rep_def)
  show "\<exists>st' x. pool_alloc_st st = Some (st', Some x) \<and> x \<in> avail \<and> pool_rep st' (avail - {x}) (insert x used)"
    if "avail \<noteq> {}" by (rule pool_alloc_some [OF rep that])
  show "\<exists>st'. pool_free_tail_st st x = Some st' \<and> pool_rep st' (insert x avail) (used - {x})" if x: "x \<in> used"
  proof -
    have "pool_rep (dll_append (fst st) (free_list (snd st)) x,
        (snd st)\<lparr>free_count := free_count (snd st) + 1\<rparr>) (insert x avail) (used - {x})"
      using rep x by (intro pool_put_rep [of "fst st"]) (force intro: dll_append_rep)+
    then show ?thesis by (simp add: pool_free_tail_st_def dll_pool_free_tail_def)
  qed
qed (rule pool_alloc_none)

section \<open>Properties\<close>

text \<open>
  C8. The list macros refine operations on the list a node heads: insertion after a member (or the
  list node), append, prepend and deletion change that list and nothing else of it, the links stay
  consistent in both directions, and the header's walk loop visits exactly its members.
\<close>

theorem dll_refines_list:
  assumes "dll_rep M l (as @ bs)" and "new \<notin> set (l # as @ bs)"
  shows "dll_rep (dll_insert M new (last (l # as))) l (as @ new # bs) \<and>
         dll_rep (dll_append M l new) l (as @ bs @ [new]) \<and>
         dll_rep (dll_prepend M l new) l (new # as @ bs) \<and>
         dll_rep (dll_delete (dll_insert M new (last (l # as))) new) l (as @ bs) \<and>
         dll_walk (length (as @ bs)) M l (dll_head_p M l) = Some (as @ bs) \<and>
         (dll_empty M l \<longleftrightarrow> as @ bs = [])"
  using dll_insert_rep [OF assms] dll_append_rep [OF assms] dll_prepend_rep [OF assms]
    dll_delete_rep [OF dll_insert_rep [OF assms]] dll_walk_rep [OF assms(1)] dll_empty_rep [OF assms(1)]
  by simp

theorem dll_refines_list_witness:
  "dll_rep (dll_append (dll_init \<lparr>next_p = id, prev_p = id\<rparr> 0) 0 7) 0 [7]"
  using dll_refines_list [of "dll_init \<lparr>next_p = id, prev_p = id\<rparr> 0" 0 "[]" "[]" 7] by simp

text \<open>
  Deleting a node that was already deleted and not initialised since is not harmless: after
  another node has been prepended, the second deletion through the stale links takes that other
  node out of the list.
\<close>

theorem dll_stale_delete_loses_node:
  assumes rep: "dll_rep M l (x # xs)" and y: "y \<notin> set (l # x # xs)"
  shows "dll_rep (dll_prepend (dll_delete M x) l y) l (y # xs) \<and>
         dll_rep (dll_delete (dll_prepend (dll_delete M x) l y) x) l xs"
proof -
  let ?M1 = "dll_delete M x" and ?nx = "hd (xs @ [l])"
  let ?M2 = "dll_prepend ?M1 l y"
  have d: "distinct (l # x # xs)" using rep by (simp add: dll_rep_def)
  have M1: "dll_rep ?M1 l xs" using dll_delete_rep [of M l "[]" x xs] rep by simp
  have M2: "dll_rep ?M2 l (y # xs)" using dll_prepend_rep [OF M1] y by simp
  have nx: "?nx \<in> set (l # xs)" by (cases xs) auto
  have x: "next_p M x = ?nx" "prev_p M x = l"
    using rep by (cases xs; simp add: dll_rep_def)+
  have f1: "next_p ?M1 x = ?nx" "prev_p ?M1 x = l" "next_p ?M1 l = ?nx"
    using d nx x by (auto simp: dll_delete_def Let_def set_next_def set_prev_def)
  have f2: "next_p ?M2 x = ?nx" "prev_p ?M2 x = l" "next_p ?M2 y = ?nx" "prev_p ?M2 y = l"
    using d nx y f1 by (auto simp: dll_prepend_def dll_insert_def Let_def set_next_def set_prev_def)
  have "dll_delete ?M2 x = dll_delete ?M2 y"
    using d nx y f2 by (auto simp: dll_delete_def Let_def set_next_def set_prev_def)
  moreover have "dll_rep (dll_delete ?M2 y) l xs" using dll_delete_rep [of ?M2 l "[]" y xs] M2 by simp
  ultimately show ?thesis using M2 by simp
qed

theorem dll_stale_delete_loses_node_witness:
  "let M = dll_prepend (dll_init \<lparr>next_p = id, prev_p = id\<rparr> 0) 0 5
   in dll_rep (dll_prepend (dll_delete M 5) 0 7) 0 [7] \<and>
      dll_rep (dll_delete (dll_prepend (dll_delete M 5) 0 7) 5) 0 []"
proof -
  have "dll_rep (dll_prepend (dll_init \<lparr>next_p = id, prev_p = id\<rparr> 0) 0 5) 0 [5]"
    by (rule dll_prepend_rep) simp_all
  from dll_stale_delete_loses_node [OF this, of 7] show ?thesis by (simp add: Let_def)
qed

text \<open>
  A pool of elements serves any sequence of allocations and releases of held elements, whether
  they are released to the front or to the back of the free list: the elements held are pairwise
  distinct elements of the pool and the free list and its 16-bit count stay exact.
\<close>

theorem dll_pool_elements_unique:
  assumes "dll_sz < unat esize" and "0 < elems_off"
  shows "\<exists>M' pl. dll_pool_init dll_sz elems_off M (Some blk) emax esize = Some (M', pl) \<and>
     (\<forall>ops. \<exists>M2 pl2 held. id_client pool_alloc_st pool_free_st ops (M', pl) [] = Some ((M2, pl2), held) \<and>
        distinct held \<and> set held \<subseteq> pool_nodes pl \<and>
        card (pool_nodes pl) = unat (free_count pl2) + length held) \<and>
     (\<forall>ops. \<exists>M2 pl2 held. id_client pool_alloc_st pool_free_tail_st ops (M', pl) [] = Some ((M2, pl2), held) \<and>
        distinct held \<and> set held \<subseteq> pool_nodes pl \<and>
        card (pool_nodes pl) = unat (free_count pl2) + length held)"
proof -
  obtain M' pl where i: "dll_pool_init dll_sz elems_off M (Some blk) emax esize = Some (M', pl)"
      and rep: "pool_rep (M', pl) (pool_nodes pl) {}"
    using dll_pool_init_rep [OF assms] by blast
  have out: "distinct held \<and> set held \<subseteq> pool_nodes pl \<and> card (pool_nodes pl) = unat (free_count pl2) + length held"
    if r: "pool_rep (M2, pl2) avail (set held)" "distinct held" "avail \<union> set held = pool_nodes pl"
    for M2 pl2 avail held
  proof -
    obtain xs where xs: "avail = set xs" "distinct xs" "unat (free_count pl2) = length xs"
      using r(1) by (auto simp: pool_rep_def dll_rep_def)
    have "avail \<inter> set held = {}" using r(1) by (simp add: pool_rep_def)
    then have "card (pool_nodes pl) = card avail + card (set held)"
      unfolding r(3) [symmetric] using xs(1) by (intro card_Un_disjoint) auto
    then show ?thesis using xs r(2,3) by (auto simp: distinct_card)
  qed
  have "\<exists>M2 pl2 held. id_client pool_alloc_st pool_free_st ops (M', pl) [] = Some ((M2, pl2), held) \<and>
      distinct held \<and> set held \<subseteq> pool_nodes pl \<and> card (pool_nodes pl) = unat (free_count pl2) + length held"
    for ops
    using pool.client_safe [OF rep, of "[]" ops] out by auto
  moreover have "\<exists>M2 pl2 held. id_client pool_alloc_st pool_free_tail_st ops (M', pl) [] = Some ((M2, pl2), held) \<and>
      distinct held \<and> set held \<subseteq> pool_nodes pl \<and> card (pool_nodes pl) = unat (free_count pl2) + length held"
    for ops
    using pool_tail.client_safe [OF rep, of "[]" ops] out by auto
  ultimately show ?thesis using i by blast
qed

theorem dll_pool_elements_unique_witness:
  "\<exists>M' pl. dll_pool_init 16 24 \<lparr>next_p = id, prev_p = id\<rparr> (Some 4096) 3 32 = Some (M', pl) \<and>
     (\<exists>M2 pl2 held. id_client pool_alloc_st pool_free_st [Take, Take, Give 1, Take] (M', pl) []
          = Some ((M2, pl2), held) \<and> distinct held \<and> set held \<subseteq> pool_nodes pl)"
proof -
  have "(16 :: nat) < unat (32 :: u16)" by simp
  from dll_pool_elements_unique [OF this, of 24 "\<lparr>next_p = id, prev_p = id\<rparr>" 4096 3]
  show ?thesis by (simp del: id_client.simps) blast
qed

end
