(* ===== verification/Flow_Ring.thy ===== *)
theory Flow_Ring
  imports Flow_Queue Id16_Map Dll
begin

text \<open>
  Flow rings: \<open>dhd/sys/dhd_flowring.c\<close> with the bus handlers of \<open>dhd/sys/dhd_pcie.c\<close> that drive a
  ring's life (\<open>dhd_bus_flow_ring_*\<close>, \<open>dhd_bus_clean_flow_ring\<close>). The build has \<open>WLTDLS\<close> defined, as
  in \<open>Android.mk\<close>. A chain of hash entries is a list; it has no other owner, so its links are not
  modelled. The \<open>list\<close> node of a ring is modelled with its links, since the bus threads it through
  \<open>const_flowring\<close>. Spin locks are not modelled: every function below is one critical section after
  another, run to the end. What other code decides is an argument: whether memory and locks are
  granted, whether \<open>dhd_prot_flow_ring_create\<close> accepts the request, what the firmware answers. The
  station table that \<open>dhd_add_flowid\<close> and \<open>dhd_del_flowid\<close> of \<open>dhd_linux.c\<close> keep on the side, and the
  allocation of the \<open>prot_info\<close> of a ring, are not modelled.
\<close>

section \<open>Data\<close>

abbreviation (input) FLOW_RING_STATUS_OPEN :: u8 where "FLOW_RING_STATUS_OPEN \<equiv> 0"
abbreviation (input) FLOW_RING_STATUS_PENDING :: u8 where "FLOW_RING_STATUS_PENDING \<equiv> 1"
abbreviation (input) FLOW_RING_STATUS_CLOSED :: u8 where "FLOW_RING_STATUS_CLOSED \<equiv> 2"
abbreviation (input) FLOW_RING_STATUS_DELETE_PENDING :: u8 where "FLOW_RING_STATUS_DELETE_PENDING \<equiv> 3"
abbreviation (input) FLOW_RING_STATUS_FLUSH_PENDING :: u8 where "FLOW_RING_STATUS_FLUSH_PENDING \<equiv> 4"
abbreviation (input) FLOW_RING_STATUS_STA_FREEING :: u8 where "FLOW_RING_STATUS_STA_FREEING \<equiv> 5"

abbreviation (input) FLOWID_INVALID :: u16 where "FLOWID_INVALID \<equiv> 0xFFFF"
abbreviation (input) FLOW_RING_COMMON :: nat where "FLOW_RING_COMMON \<equiv> 2"
abbreviation (input) FLOWID_RESERVED :: u16 where "FLOWID_RESERVED \<equiv> 2"
abbreviation (input) FLOW_RING_QUEUE_THRESHOLD :: int where "FLOW_RING_QUEUE_THRESHOLD \<equiv> 2048"
abbreviation (input) DHD_FLOWRING_HASH_SIZE :: nat where "DHD_FLOWRING_HASH_SIZE \<equiv> 256"
abbreviation (input) DHD_MAX_IFS :: nat where "DHD_MAX_IFS \<equiv> 16"
abbreviation (input) WLC_E_IF_ROLE_STA :: u8 where "WLC_E_IF_ROLE_STA \<equiv> 0"
abbreviation (input) WLC_E_IF_ADD :: u8 where "WLC_E_IF_ADD \<equiv> 1"
abbreviation (input) WLC_E_IF_DEL :: u8 where "WLC_E_IF_DEL \<equiv> 2"
abbreviation (input) WLC_E_IF_CHANGE :: u8 where "WLC_E_IF_CHANGE \<equiv> 3"

type_synonym ether_addr = "u8 list"

record flow_info =
  tid :: u8
  fi_ifindex :: u8
  sa :: ether_addr
  da :: ether_addr

record flow_ring_node =
  queue :: flow_queue
  active :: bool
  status :: u8
  flowid :: u16
  finfo :: flow_info

text \<open>The source address of a hash entry is neither written nor read.\<close>

record flow_hash_info =
  fh_flowid :: u16
  fh_tid :: u8
  fh_ifindex :: u8
  fh_da :: ether_addr

record if_flow_lkup =
  if_status :: bool
  role :: u8
  fl_hash :: "flow_hash_info list list"

text \<open>
  \<open>ring_links\<close> and \<open>max_sub_queues\<close> belong to the bus; \<open>tx_log\<close> records the packets the protocol layer
  (\<open>dhd_prot_txdata\<close>) accepted, in order.
\<close>

record dhd_pub =
  num_flow_rings :: u32
  flowid_allocator :: "id16_map option"
  flow_ring_table :: "flow_ring_node list option"
  if_lkup :: "if_flow_lkup list option"
  flow_prio_map_type :: u8
  flow_prio_map :: "u8 list"
  flow_rings_inited :: bool
  tdls_peers :: "ether_addr list"
  tdls_peer_count :: u8
  ring_links :: dll_mem
  max_sub_queues :: u32
  tx_log :: "pkt list"

text \<open>The list node of ring \<open>i\<close>, and the bus's list head \<open>const_flowring\<close>.\<close>

definition ring_link :: "nat \<Rightarrow> dll_node" where
  "ring_link i = Suc i"

abbreviation (input) const_flowring :: dll_node where "const_flowring \<equiv> 0"

definition prio2ac :: "u8 list" where "prio2ac = [0, 1, 1, 0, 2, 2, 3, 3]"
definition prio2tid :: "u8 list" where "prio2tid = [0, 1, 2, 3, 4, 5, 6, 7]"

definition ETHER_ISMULTI :: "ether_addr \<Rightarrow> bool" where
  "ETHER_ISMULTI ea = odd (ea ! 0)"

definition DHD_FLOWRING_HASHINDEX :: "ether_addr \<Rightarrow> u8 \<Rightarrow> nat" where
  "DHD_FLOWRING_HASHINDEX ea prio =
     unat (xor (xor (xor (ea ! 3) (ea ! 4)) (ea ! 5)) prio) mod DHD_FLOWRING_HASH_SIZE"

definition get_if :: "dhd_pub \<Rightarrow> u8 \<Rightarrow> if_flow_lkup option" where
  "get_if d ifindex = do { tbl \<leftarrow> if_lkup d; arr_get tbl (unat ifindex) }"

definition put_if :: "dhd_pub \<Rightarrow> u8 \<Rightarrow> if_flow_lkup \<Rightarrow> dhd_pub" where
  "put_if d ifindex l = d\<lparr>if_lkup := map_option (\<lambda>tbl. tbl[unat ifindex := l]) (if_lkup d)\<rparr>"

definition get_ring :: "dhd_pub \<Rightarrow> nat \<Rightarrow> flow_ring_node option" where
  "get_ring d i = do { tbl \<leftarrow> flow_ring_table d; arr_get tbl i }"

definition put_ring :: "dhd_pub \<Rightarrow> nat \<Rightarrow> flow_ring_node \<Rightarrow> dhd_pub" where
  "put_ring d i n = d\<lparr>flow_ring_table := map_option (\<lambda>tbl. tbl[i := n]) (flow_ring_table d)\<rparr>"

section \<open>Access to a ring\<close>

definition dhd_flow_ring_node :: "dhd_pub \<Rightarrow> u16 \<Rightarrow> flow_ring_node option" where
  "dhd_flow_ring_node d fid = get_ring d (unat fid)"

definition dhd_flow_queue :: "dhd_pub \<Rightarrow> u16 \<Rightarrow> flow_queue option" where
  "dhd_flow_queue d fid = do { n \<leftarrow> dhd_flow_ring_node d fid; Some (queue n) }"

definition dhd_flow_ring_config_thresholds ::
  "dhd_pub \<Rightarrow> u16 \<Rightarrow> int \<Rightarrow> int \<Rightarrow> nat option \<Rightarrow> int \<Rightarrow> nat option \<Rightarrow> dhd_pub option" where
  "dhd_flow_ring_config_thresholds d fid queue_budget cumm_threshold cumm_ctr l2cumm_threshold l2cumm_ctr = do {
     n \<leftarrow> dhd_flow_ring_node d fid;
     q \<leftarrow> dhd_flow_queue d fid;
     let q = DHD_FLOW_QUEUE_SET_MAX q queue_budget;
     let q = (DHD_FLOW_QUEUE_SET_THRESHOLD q cumm_threshold)\<lparr>fq_clen_ptr := cumm_ctr\<rparr>;
     let q = (DHD_FLOW_QUEUE_SET_L2THRESHOLD q l2cumm_threshold)\<lparr>fq_l2clen_ptr := l2cumm_ctr\<rparr>;
     Some (put_ring d (unat fid) (n\<lparr>queue := q\<rparr>))
   }"

section \<open>Set-up and tear-down\<close>

definition zero_node :: flow_ring_node where
  "zero_node = \<lparr>queue = \<lparr>fq_head = None, fq_tail = None, fq_len = 0, fq_max = 0, fq_threshold = 0,
      fq_clen_ptr = None, fq_failures = 0, fq_cb = (\<lambda>_. 0), fq_l2threshold = 0, fq_l2clen_ptr = None\<rparr>,
    active = False, status = 0, flowid = 0,
    finfo = \<lparr>tid = 0, fi_ifindex = 0, sa = replicate 6 0, da = replicate 6 0\<rparr>\<rparr>"

text \<open>
  The loop over the rings, with \<open>n\<close> rounds left; \<open>lock_ok i\<close> says whether ring \<open>i\<close> gets its lock,
  and \<open>Some None\<close> is the jump to \<open>fail\<close>. \<open>c\<close> and \<open>l2\<close> are the addresses of the counters of
  \<open>dhd_pub\<close>.
\<close>

fun init_rings :: "nat \<Rightarrow> nat \<Rightarrow> (nat \<Rightarrow> bool) \<Rightarrow> nat \<Rightarrow> nat \<Rightarrow> flow_ring_node list \<Rightarrow> dll_mem \<Rightarrow>
    (flow_ring_node list \<times> dll_mem) option option" where
  "init_rings c l2 lock_ok 0 idx tbl M = Some (Some (tbl, M))"
| "init_rings c l2 lock_ok (Suc n) idx tbl M = do {
     node \<leftarrow> arr_get tbl idx;
     let node = node\<lparr>status := FLOW_RING_STATUS_CLOSED, flowid := of_nat idx\<rparr>;
     if \<not> lock_ok idx then Some None
     else do {
       let M = dll_init M (ring_link idx);
       q \<leftarrow> dhd_flow_queue_init c l2 (queue node) FLOW_RING_QUEUE_THRESHOLD;
       init_rings c l2 lock_ok n (Suc idx) (tbl[idx := node\<lparr>queue := q\<rparr>]) M
     }
   }"

text \<open>The grants of memory and locks \<open>dhd_flow_rings_init\<close> asks for.\<close>

record init_env =
  id_mem :: "u16 list option"
  table_ok :: bool
  ring_lock_ok :: "nat \<Rightarrow> bool"
  lkup_ok :: bool
  lock_ok :: bool
  list_lock_ok :: bool

definition dhd_flow_rings_init ::
  "init_env \<Rightarrow> nat \<Rightarrow> nat \<Rightarrow> dhd_pub \<Rightarrow> u32 \<Rightarrow> (dhd_pub \<times> int) option" where
  "dhd_flow_rings_init env c l2 d num = do {
     alloc \<leftarrow> id16_map_init (id_mem env) (ucast (num - of_nat FLOW_RING_COMMON)) FLOWID_RESERVED;
     (case alloc of
        None \<Rightarrow> Some (d, BCME_NOMEM)
      | Some ids \<Rightarrow>
          if \<not> table_ok env then do { id16_map_fini alloc; Some (d, BCME_NOMEM) }
          else do {
            rings \<leftarrow> init_rings c l2 (ring_lock_ok env) (unat num) 0 (replicate (unat num) zero_node)
                      (ring_links d);
            (case rings of
               None \<Rightarrow> do { id16_map_fini alloc; Some (d, BCME_NOMEM) }
             | Some (tbl, M) \<Rightarrow>
                 if \<not> lkup_ok env \<or> \<not> lock_ok env \<or> \<not> list_lock_ok env
                 then do { id16_map_fini alloc; Some (d, BCME_NOMEM) }
                 else Some (d\<lparr>flow_prio_map_type := 0, flow_prio_map := prio2ac,
                        num_flow_rings := num, flowid_allocator := alloc,
                        flow_ring_table := Some tbl,
                        if_lkup := Some (replicate DHD_MAX_IFS
                          \<lparr>if_status = False, role = 0, fl_hash = replicate DHD_FLOWRING_HASH_SIZE []\<rparr>),
                        flow_rings_inited := True, ring_links := M\<rparr>, BCME_OK))
          })
   }"

definition dhd_flow_rings_ifindex2role :: "dhd_pub \<Rightarrow> u8 \<Rightarrow> u8 option" where
  "dhd_flow_rings_ifindex2role d ifindex = do { l \<leftarrow> get_if d ifindex; Some (role l) }"

section \<open>Flow ids\<close>

fun is_tdls_list :: "ether_addr list \<Rightarrow> ether_addr \<Rightarrow> bool" where
  "is_tdls_list [] ea = False"
| "is_tdls_list (p # ps) ea = (if ea = p then True else is_tdls_list ps ea)"

definition is_tdls_destination :: "dhd_pub \<Rightarrow> ether_addr \<Rightarrow> bool" where
  "is_tdls_destination d ea = is_tdls_list (tdls_peers d) ea"

text \<open>The walk along one chain: the first entry that matches.\<close>

fun chain_find :: "(flow_hash_info \<Rightarrow> bool) \<Rightarrow> flow_hash_info list \<Rightarrow> u16" where
  "chain_find P [] = FLOWID_INVALID"
| "chain_find P (e # es) = (if P e then fh_flowid e else chain_find P es)"

definition dhd_flowid_find :: "dhd_pub \<Rightarrow> u8 \<Rightarrow> u8 \<Rightarrow> ether_addr \<Rightarrow> u16 option" where
  "dhd_flowid_find d ifindex prio dst = do {
     l \<leftarrow> get_if d ifindex;
     if role l = WLC_E_IF_ROLE_STA
     then
       if tdls_peer_count d \<noteq> 0 \<and> \<not> ETHER_ISMULTI dst \<and> is_tdls_destination d dst
       then do {
         chain \<leftarrow> arr_get (fl_hash l) (DHD_FLOWRING_HASHINDEX dst prio);
         Some (chain_find (\<lambda>e. fh_da e = dst) chain)
       }
       else do {
         chain \<leftarrow> arr_get (fl_hash l) (unat prio);
         Some (case chain of [] \<Rightarrow> FLOWID_INVALID | e # _ \<Rightarrow> fh_flowid e)
       }
     else do {
       let ismcast = ETHER_ISMULTI dst;
       let hash = (if ismcast then 0 else DHD_FLOWRING_HASHINDEX dst prio);
       chain \<leftarrow> arr_get (fl_hash l) hash;
       Some (chain_find (\<lambda>e. (ismcast \<and> ETHER_ISMULTI (fh_da e)) \<or> (fh_da e = dst \<and> fh_tid e = prio)) chain)
     }
   }"

text \<open>\<open>mem_ok\<close>: whether \<open>MALLOC\<close> granted the entry; the code writes to it without looking.\<close>

definition dhd_flowid_alloc ::
  "bool \<Rightarrow> dhd_pub \<Rightarrow> u8 \<Rightarrow> u8 \<Rightarrow> ether_addr \<Rightarrow> (dhd_pub \<times> u16) option" where
  "dhd_flowid_alloc mem_ok d ifindex prio dst = do {
     ASSERT mem_ok;
     ids \<leftarrow> flowid_allocator d;
     (ids, fid) \<leftarrow> id16_map_alloc ids;
     let d = d\<lparr>flowid_allocator := Some ids\<rparr>;
     if fid = FLOWID_INVALID then Some (d, FLOWID_INVALID)
     else do {
       let entry = \<lparr>fh_flowid = fid, fh_tid = prio, fh_ifindex = ifindex, fh_da = dst\<rparr>;
       l \<leftarrow> get_if d ifindex;
       l \<leftarrow> (if role l = WLC_E_IF_ROLE_STA
            then
              if tdls_peer_count d \<noteq> 0 \<and> is_tdls_destination d dst
              then do {
                let hash = DHD_FLOWRING_HASHINDEX dst prio;
                chain \<leftarrow> arr_get (fl_hash l) hash;
                Some (l\<lparr>fl_hash := (fl_hash l)[hash := chain @ [entry]]\<rparr>)
              }
              else do {
                tbl \<leftarrow> arr_set (fl_hash l) (unat prio) [entry];
                Some (l\<lparr>fl_hash := tbl\<rparr>)
              }
            else do {
              let hash = (if ETHER_ISMULTI dst then 0 else DHD_FLOWRING_HASHINDEX dst prio);
              chain \<leftarrow> arr_get (fl_hash l) hash;
              Some (l\<lparr>fl_hash := (fl_hash l)[hash := chain @ [entry]]\<rparr>)
            });
       Some (put_if d ifindex l, fid)
     }
   }"

text \<open>
  \<open>create\<close> is the result of \<open>dhd_prot_flow_ring_create\<close>. The last component is what the function
  stored through \<open>flowid\<close>, if it did.
\<close>

definition dhd_bus_flow_ring_create_request :: "int \<Rightarrow> int" where
  "dhd_bus_flow_ring_create_request create = (if create \<noteq> BCME_OK then BCME_NOMEM else BCME_OK)"

definition dhd_flowid_lookup ::
  "bool \<Rightarrow> int \<Rightarrow> dhd_pub \<Rightarrow> u8 \<Rightarrow> u8 \<Rightarrow> ether_addr \<Rightarrow> ether_addr \<Rightarrow> (dhd_pub \<times> int \<times> u16 option) option" where
  "dhd_flowid_lookup mem_ok create d ifindex prio src dst =
     (if flow_ring_table d = None then Some (d, BCME_ERROR, None)
      else do {
        i \<leftarrow> dhd_flowid_find d ifindex prio dst;
        if i = FLOWID_INVALID
        then do {
          l \<leftarrow> get_if d ifindex;
          if \<not> if_status l then Some (d, BCME_ERROR, None)
          else do {
            (d, i) \<leftarrow> dhd_flowid_alloc mem_ok d ifindex prio dst;
            if i = FLOWID_INVALID then Some (d, BCME_ERROR, None)
            else do {
              n \<leftarrow> get_ring d (unat i);
              let n = n\<lparr>finfo := \<lparr>tid = prio, fi_ifindex = ifindex, sa = src, da = dst\<rparr>,
                        active := True, status := FLOW_RING_STATUS_PENDING\<rparr>;
              let d = put_ring d (unat i) n;
              if dhd_bus_flow_ring_create_request create \<noteq> BCME_OK then Some (d, BCME_ERROR, None)
              else Some (d, BCME_OK, Some i)
            }
          }
        }
        else do {
          n \<leftarrow> get_ring d (unat i);
          if status n = FLOW_RING_STATUS_OPEN \<or> status n = FLOW_RING_STATUS_PENDING
          then Some (d, BCME_OK, Some i)
          else Some (d, BCME_ERROR, Some FLOWID_INVALID)
        }
      })"

text \<open>The result carries the flow id the packet is tagged with.\<close>

definition dhd_flowid_update ::
  "bool \<Rightarrow> int \<Rightarrow> dhd_pub \<Rightarrow> u8 \<Rightarrow> u8 \<Rightarrow> ether_addr \<Rightarrow> ether_addr \<Rightarrow> (dhd_pub \<times> int \<times> u16 option) option" where
  "dhd_flowid_update mem_ok create d ifindex prio shost dhost = do {
     if DHD_MAX_IFS \<le> unat ifindex then Some (d, BCME_BADARG, None)
     else if flowid_allocator d = None then Some (d, BCME_ERROR, None)
     else do {
       (d, ret, fid) \<leftarrow> dhd_flowid_lookup mem_ok create d ifindex prio shost dhost;
       if ret \<noteq> BCME_OK then Some (d, BCME_ERROR, None)
       else Some (d, BCME_OK, fid)
     }
   }"

text \<open>The search for the entry over all chains, with \<open>n\<close> rounds left, and its removal.\<close>

fun chain_remove :: "u16 \<Rightarrow> flow_hash_info list \<Rightarrow> flow_hash_info list option" where
  "chain_remove fid [] = None"
| "chain_remove fid (e # es) =
     (if fh_flowid e = fid then Some es else map_option ((#) e) (chain_remove fid es))"

fun hash_remove :: "u16 \<Rightarrow> flow_hash_info list list \<Rightarrow> flow_hash_info list list option" where
  "hash_remove fid [] = None"
| "hash_remove fid (chain # cs) =
     (case chain_remove fid chain of
        Some chain' \<Rightarrow> Some (chain' # cs)
      | None \<Rightarrow> map_option ((#) chain) (hash_remove fid cs))"

definition dhd_flowid_free :: "dhd_pub \<Rightarrow> u8 \<Rightarrow> u16 \<Rightarrow> dhd_pub option" where
  "dhd_flowid_free d ifindex fid = do {
     l \<leftarrow> get_if d ifindex;
     (case hash_remove fid (take DHD_FLOWRING_HASH_SIZE (fl_hash l)) of
        None \<Rightarrow> Some d
      | Some cs \<Rightarrow> do {
          ids \<leftarrow> flowid_allocator d;
          ids \<leftarrow> id16_map_free ids fid;
          Some ((put_if d ifindex (l\<lparr>fl_hash := cs\<rparr>))\<lparr>flowid_allocator := Some ids\<rparr>)
        })
   }"

section \<open>The life of a ring\<close>

text \<open>
  \<open>dhd_bus_clean_flow_ring\<close>, on the node \<open>n\<close> of ring \<open>i\<close>: drop the queued packets, close the ring,
  unlink it from the list of open rings and give its id back. Returning the ring to the protocol
  layer's pool is not modelled.
\<close>

definition clean_node ::
  "pkt_store \<Rightarrow> dhd_pub \<Rightarrow> nat \<Rightarrow> flow_ring_node \<Rightarrow> (pkt_store \<times> dhd_pub \<times> flow_ring_node) option" where
  "clean_node s d i n = do {
     (s, q) \<leftarrow> flow_queue_purge s (queue n);
     let n = n\<lparr>queue := q, status := FLOW_RING_STATUS_CLOSED, active := False\<rparr>;
     let d = d\<lparr>ring_links := dll_delete (ring_links d) (ring_link i)\<rparr>;
     d \<leftarrow> dhd_flowid_free d (fi_ifindex (finfo n)) (flowid n);
     Some (s, d, n)
   }"

definition dhd_bus_clean_flow_ring ::
  "pkt_store \<Rightarrow> dhd_pub \<Rightarrow> nat \<Rightarrow> (pkt_store \<times> dhd_pub) option" where
  "dhd_bus_clean_flow_ring s d i = do {
     n \<leftarrow> get_ring d i;
     (s, d, n) \<leftarrow> clean_node s d i n;
     Some (s, put_ring d i n)
   }"

text \<open>
  From the backup queue to the flow ring. \<open>prot\<close> stands for the result of \<open>dhd_prot_txdata\<close>, which may
  depend on the packets it accepted before. The hook of the TCP-ACK suppression is not modelled.
\<close>

partial_function (option) schedule_loop ::
  "(pkt list \<Rightarrow> pkt \<Rightarrow> int) \<Rightarrow> pkt_store \<Rightarrow> flow_queue \<Rightarrow> pkt list \<Rightarrow> int \<Rightarrow>
    (pkt_store \<times> flow_queue \<times> pkt list \<times> int) option" where
  "schedule_loop prot s q lg ret = do {
     (s, q, txp) \<leftarrow> dhd_flow_queue_dequeue s q;
     (case txp of
        None \<Rightarrow> Some (s, q, lg, ret)
      | Some p \<Rightarrow> do {
          let ret = prot lg p;
          if ret \<noteq> BCME_OK
          then do { (s, q) \<leftarrow> dhd_flow_queue_reinsert s q (Some p); Some (s, q, lg, BCME_OK) }
          else schedule_loop prot s q (lg @ [p]) ret
        })
   }"

definition dhd_bus_schedule_queue ::
  "(pkt list \<Rightarrow> pkt \<Rightarrow> int) \<Rightarrow> pkt_store \<Rightarrow> dhd_pub \<Rightarrow> u16 \<Rightarrow> (pkt_store \<times> dhd_pub \<times> int) option" where
  "dhd_bus_schedule_queue prot s d fid =
     (if unat (max_sub_queues d) \<le> unat fid then Some (s, d, 0)
      else do {
        n \<leftarrow> get_ring d (unat fid);
        if status n \<noteq> FLOW_RING_STATUS_OPEN then Some (s, d, BCME_NOTREADY)
        else do {
          (s, q, lg, ret) \<leftarrow> schedule_loop prot s (queue n) (tx_log d) BCME_OK;
          Some (s, put_ring (d\<lparr>tx_log := lg\<rparr>) (unat fid) (n\<lparr>queue := q\<rparr>), ret)
        }
      })"

text \<open>\<open>fid\<close> is the flow id the packet \<open>txp\<close> is tagged with; \<open>toss\<close> is the label at the end.\<close>

definition toss :: "pkt_store \<Rightarrow> dhd_pub \<Rightarrow> pkt \<Rightarrow> int \<Rightarrow> (pkt_store \<times> dhd_pub \<times> int) option" where
  "toss s d txp ret = do { s \<leftarrow> PKTFREE s (Some txp); Some (s, d, ret) }"

definition dhd_bus_txdata ::
  "(pkt list \<Rightarrow> pkt \<Rightarrow> int) \<Rightarrow> pkt_store \<Rightarrow> dhd_pub \<Rightarrow> u16 \<Rightarrow> pkt \<Rightarrow> (pkt_store \<times> dhd_pub \<times> int) option" where
  "dhd_bus_txdata prot s d fid txp =
     (if flowid_allocator d = None then toss s d txp BCME_OK
      else do {
        n \<leftarrow> get_ring d (unat fid);
        if unat (num_flow_rings d) \<le> unat fid \<or> \<not> active n \<or>
           status n = FLOW_RING_STATUS_DELETE_PENDING \<or> status n = FLOW_RING_STATUS_STA_FREEING
        then toss s d txp BCME_ERROR
        else do {
          (s, q, ret) \<leftarrow> dhd_flow_queue_enqueue s (queue n) (Some txp);
          let pend = (ret \<noteq> BCME_OK);
          let d = put_ring d (unat fid) (n\<lparr>queue := q\<rparr>);
          if status n \<noteq> 0
          then if pend then toss s d txp ret else Some (s, d, BCME_OK)
          else do {
            (s, d, ret) \<leftarrow> dhd_bus_schedule_queue prot s d fid;
            if pend
            then do {
              n \<leftarrow> get_ring d (unat fid);
              (s, q, ret) \<leftarrow> dhd_flow_queue_enqueue s (queue n) (Some txp);
              let d = put_ring d (unat fid) (n\<lparr>queue := q\<rparr>);
              if ret \<noteq> BCME_OK then toss s d txp ret else Some (s, d, ret)
            }
            else Some (s, d, ret)
          }
        }
      })"

definition dhd_bus_flow_ring_create_response ::
  "(pkt list \<Rightarrow> pkt \<Rightarrow> int) \<Rightarrow> pkt_store \<Rightarrow> dhd_pub \<Rightarrow> u16 \<Rightarrow> int \<Rightarrow> (pkt_store \<times> dhd_pub) option" where
  "dhd_bus_flow_ring_create_response prot s d fid resp = do {
     n \<leftarrow> get_ring d (unat fid);
     if resp \<noteq> BCME_OK then dhd_bus_clean_flow_ring s d (unat fid)
     else do {
       let d = put_ring d (unat fid) (n\<lparr>status := FLOW_RING_STATUS_OPEN\<rparr>);
       let d = d\<lparr>ring_links := dll_prepend (ring_links d) const_flowring (ring_link (unat fid))\<rparr>;
       (s, d, _) \<leftarrow> dhd_bus_schedule_queue prot s d fid;
       Some (s, d)
     }
   }"

text \<open>The message to the device about the deletion is not modelled.\<close>

definition dhd_bus_flow_ring_delete_request ::
  "pkt_store \<Rightarrow> dhd_pub \<Rightarrow> nat \<Rightarrow> (pkt_store \<times> dhd_pub \<times> int) option" where
  "dhd_bus_flow_ring_delete_request s d i = do {
     n \<leftarrow> get_ring d i;
     if status n = FLOW_RING_STATUS_DELETE_PENDING then Some (s, d, BCME_ERROR)
     else do {
       (s, q) \<leftarrow> flow_queue_purge s (queue n);
       Some (s, put_ring d i (n\<lparr>status := FLOW_RING_STATUS_DELETE_PENDING, queue := q\<rparr>), BCME_OK)
     }
   }"

definition dhd_bus_flow_ring_delete_response ::
  "pkt_store \<Rightarrow> dhd_pub \<Rightarrow> u16 \<Rightarrow> int \<Rightarrow> (pkt_store \<times> dhd_pub) option" where
  "dhd_bus_flow_ring_delete_response s d fid resp = do {
     n \<leftarrow> get_ring d (unat fid);
     if resp \<noteq> BCME_OK then Some (s, d) else dhd_bus_clean_flow_ring s d (unat fid)
   }"

definition dhd_bus_flow_ring_flush_request ::
  "pkt_store \<Rightarrow> dhd_pub \<Rightarrow> nat \<Rightarrow> (pkt_store \<times> dhd_pub \<times> int) option" where
  "dhd_bus_flow_ring_flush_request s d i = do {
     n \<leftarrow> get_ring d i;
     (s, q) \<leftarrow> flow_queue_purge s (queue n);
     Some (s, put_ring d i (n\<lparr>queue := q, status := FLOW_RING_STATUS_FLUSH_PENDING\<rparr>), BCME_OK)
   }"

definition dhd_bus_flow_ring_flush_response :: "dhd_pub \<Rightarrow> u16 \<Rightarrow> int \<Rightarrow> dhd_pub option" where
  "dhd_bus_flow_ring_flush_response d fid resp =
     (if resp \<noteq> BCME_OK then Some d
      else do {
        n \<leftarrow> get_ring d (unat fid);
        Some (put_ring d (unat fid) (n\<lparr>status := FLOW_RING_STATUS_OPEN\<rparr>))
      })"

text \<open>The deletion loops over the table, with \<open>n\<close> rounds left.\<close>

fun delete_loop ::
  "(flow_ring_node \<Rightarrow> bool) \<Rightarrow> nat \<Rightarrow> nat \<Rightarrow> pkt_store \<Rightarrow> dhd_pub \<Rightarrow> (pkt_store \<times> dhd_pub) option" where
  "delete_loop P 0 i s d = Some (s, d)"
| "delete_loop P (Suc k) i s d = do {
     n \<leftarrow> get_ring d i;
     if P n
     then do {
       (s, d, _) \<leftarrow> dhd_bus_flow_ring_delete_request s d i;
       delete_loop P k (Suc i) s d
     }
     else delete_loop P k (Suc i) s d
   }"

definition dhd_flow_rings_delete :: "pkt_store \<Rightarrow> dhd_pub \<Rightarrow> u8 \<Rightarrow> (pkt_store \<times> dhd_pub) option" where
  "dhd_flow_rings_delete s d ifindex = do {
     if DHD_MAX_IFS \<le> unat ifindex then Some (s, d)
     else if flow_ring_table d = None then Some (s, d)
     else delete_loop (\<lambda>n. active n \<and> fi_ifindex (finfo n) = ifindex) (unat (num_flow_rings d)) 0 s d
   }"

definition dhd_flow_rings_delete_for_peer ::
  "pkt_store \<Rightarrow> dhd_pub \<Rightarrow> u8 \<Rightarrow> ether_addr \<Rightarrow> (pkt_store \<times> dhd_pub) option" where
  "dhd_flow_rings_delete_for_peer s d ifindex addr = do {
     if DHD_MAX_IFS \<le> unat ifindex then Some (s, d)
     else if flow_ring_table d = None then Some (s, d)
     else delete_loop
            (\<lambda>n. active n \<and> fi_ifindex (finfo n) = ifindex \<and> da (finfo n) = addr \<and>
                 status n \<noteq> FLOW_RING_STATUS_DELETE_PENDING)
            (unat (num_flow_rings d)) 0 s d
   }"

section \<open>Interfaces and priorities\<close>

definition dhd_update_interface_flow_info :: "dhd_pub \<Rightarrow> u8 \<Rightarrow> u8 \<Rightarrow> u8 \<Rightarrow> dhd_pub option" where
  "dhd_update_interface_flow_info d ifindex op rl = do {
     if DHD_MAX_IFS \<le> unat ifindex then Some d
     else if flowid_allocator d = None then Some d
     else do {
       l \<leftarrow> get_if d ifindex;
       if op = WLC_E_IF_ADD \<or> op = WLC_E_IF_CHANGE
       then do {
         let l = l\<lparr>role := rl\<rparr>;
         let l = (if rl \<noteq> WLC_E_IF_ROLE_STA then l\<lparr>if_status := True\<rparr> else l);
         Some (put_if d ifindex l)
       }
       else if op = WLC_E_IF_DEL then Some (put_if d ifindex (l\<lparr>if_status := False\<rparr>))
       else Some d
     }
   }"

definition dhd_update_interface_link_status :: "dhd_pub \<Rightarrow> u8 \<Rightarrow> u8 \<Rightarrow> (dhd_pub \<times> int) option" where
  "dhd_update_interface_link_status d ifindex st = do {
     if DHD_MAX_IFS \<le> unat ifindex then Some (d, BCME_BADARG)
     else do {
       l \<leftarrow> get_if d ifindex;
       if role l = WLC_E_IF_ROLE_STA
       then Some (put_if d ifindex (l\<lparr>if_status := (st \<noteq> 0)\<rparr>), BCME_OK)
       else Some (d, BCME_OK)
     }
   }"

text \<open>
  \<open>ioctl\<close> is the result of \<open>dhd_wl_ioctl_cmd\<close> and \<open>reply\<close> the first byte of the buffer after it. The
  result is what \<open>*map\<close> holds at the end and the code returned.
\<close>

definition dhd_flow_prio_map :: "int \<Rightarrow> u8 \<Rightarrow> u8 \<Rightarrow> bool \<Rightarrow> u8 \<times> int" where
  "dhd_flow_prio_map ioctl reply mp set_it =
     (if \<not> set_it then if ioctl < 0 then (mp, BCME_ERROR) else (reply, BCME_OK)
      else if ioctl < 0 then (mp, BCME_ERROR) else (mp, BCME_OK))"

fun any_active :: "nat \<Rightarrow> nat \<Rightarrow> dhd_pub \<Rightarrow> bool option" where
  "any_active 0 i d = Some False"
| "any_active (Suc k) i d = do {
     n \<leftarrow> get_ring d i;
     if active n then Some True else any_active k (Suc i) d
   }"

definition dhd_update_flow_prio_map :: "int \<Rightarrow> dhd_pub \<Rightarrow> u8 \<Rightarrow> (dhd_pub \<times> int) option" where
  "dhd_update_flow_prio_map ioctl d mp =
     (if 2 < mp then Some (d, BCME_BADOPTION)
      else if mp = flow_prio_map_type d then Some (d, BCME_OK)
      else do {
        busy \<leftarrow> any_active (unat (num_flow_rings d)) 0 d;
        if busy then Some (d, BCME_EPERM)
        else if snd (dhd_flow_prio_map ioctl 0 mp True) \<noteq> BCME_OK then Some (d, BCME_ERROR)
        else Some (d\<lparr>flow_prio_map_type := mp,
                     flow_prio_map := (if mp = 1 then prio2tid else prio2ac)\<rparr>, BCME_OK)
      })"

text \<open>The loop of \<open>dhd_flow_rings_deinit\<close> over the detached table, with \<open>k\<close> rounds left.\<close>

fun deinit_loop ::
  "nat \<Rightarrow> nat \<Rightarrow> flow_ring_node list \<Rightarrow> pkt_store \<Rightarrow> dhd_pub \<Rightarrow> (pkt_store \<times> dhd_pub) option" where
  "deinit_loop 0 i tbl s d = Some (s, d)"
| "deinit_loop (Suc k) i tbl s d = do {
     n \<leftarrow> arr_get tbl i;
     (s, d, n) \<leftarrow> (if active n then clean_node s d i n else Some (s, d, n));
     deinit_loop k (Suc i) tbl s d
   }"

definition dhd_flow_rings_deinit :: "pkt_store \<Rightarrow> dhd_pub \<Rightarrow> (pkt_store \<times> dhd_pub) option" where
  "dhd_flow_rings_deinit s d =
     (if \<not> flow_rings_inited d then Some (s, d)
      else do {
        (s, d) \<leftarrow> (case flow_ring_table d of
                    None \<Rightarrow> Some (s, d)
                  | Some tbl \<Rightarrow> do {
                      deinit_loop (unat (num_flow_rings d)) 0 tbl s (d\<lparr>flow_ring_table := None\<rparr>)
                    });
        let d = d\<lparr>if_lkup := None\<rparr>;
        alloc \<leftarrow> (case flowid_allocator d of None \<Rightarrow> Some None | Some ids \<Rightarrow> id16_map_fini (Some ids));
        let d = d\<lparr>flowid_allocator := alloc, num_flow_rings := 0, flow_prio_map := replicate 8 0\<rparr>;
        Some (s, d\<lparr>flow_rings_inited := False\<rparr>)
      })"

end
