(* ===== verification/Flow_Ring_Inv.thy ===== *)
theory Flow_Ring_Inv
  imports Flow_Ring "HOL-Library.Multiset"
begin

text \<open>
  The invariant of the flow rings. The ids that are out are exactly the ids of the hash entries,
  each in one entry only; a ring is active exactly when its id is out, and it knows the interface
  its entry hangs on; every backup queue is well formed and no packet is on two of them. Every
  operation of \<open>Flow_Ring\<close> keeps it and, from a state that satisfies it, returns.
\<close>

section \<open>Entries of the hash tables\<close>

definition if_entries :: "if_flow_lkup \<Rightarrow> flow_hash_info list" where
  "if_entries l = concat (fl_hash l)"

definition entries :: "if_flow_lkup list \<Rightarrow> flow_hash_info list" where
  "entries lk = concat (map if_entries lk)"

lemma mset_concat_update:
  "i < length xss \<Longrightarrow> mset (concat (xss[i := ys])) + mset (xss ! i) = mset (concat xss) + mset ys"
proof (induction xss arbitrary: i)
  case Nil
  then show ?case by simp
next
  case (Cons xs xss)
  show ?case
  proof (cases i)
    case 0
    then show ?thesis by simp
  next
    case (Suc j)
    then show ?thesis using Cons.IH [of j] Cons.prems by (simp add: add.assoc)
  qed
qed

lemma mset_entries_update:
  assumes "j < length lk"
  shows "mset (entries (lk[j := l])) + mset (if_entries (lk ! j)) = mset (entries lk) + mset (if_entries l)"
  using mset_concat_update [of j "map if_entries lk" "if_entries l"] assms
  by (simp add: entries_def map_update)

lemma mset_chain_snoc:
  "h < length (fl_hash l) \<Longrightarrow>
   mset (if_entries (l\<lparr>fl_hash := (fl_hash l)[h := fl_hash l ! h @ [e]]\<rparr>)) = add_mset e (mset (if_entries l))"
  using mset_concat_update [of h "fl_hash l" "fl_hash l ! h @ [e]"] by (simp add: if_entries_def)

lemma mset_add_entry:
  assumes "j < length lk" and "mset (if_entries l) = add_mset e (mset (if_entries (lk ! j)))"
  shows "mset (entries (lk[j := l])) = add_mset e (mset (entries lk))"
  using mset_entries_update [OF assms(1), of l] assms(2) by simp

lemma mset_remove_entry:
  assumes "j < length lk" and "mset (if_entries (lk ! j)) = add_mset e (mset (if_entries l))"
  shows "mset (entries lk) = add_mset e (mset (entries (lk[j := l])))"
  using mset_entries_update [OF assms(1), of l] assms(2) by simp

lemma mset_add_distinct:
  assumes "mset ys = add_mset e (mset xs)"
  shows "distinct (map f ys) \<longleftrightarrow> f e \<notin> f ` set xs \<and> distinct (map f xs)" and "set ys = insert e (set xs)"
proof -
  have "mset (map f ys) = mset (map f (e # xs))" using assms by simp
  then have "distinct (map f ys) = distinct (map f (e # xs))" by (rule mset_eq_imp_distinct_iff)
  then show "distinct (map f ys) \<longleftrightarrow> f e \<notin> f ` set xs \<and> distinct (map f xs)" by simp
  show "set ys = insert e (set xs)" using assms by (metis set_mset_mset set_mset_add_mset_insert)
qed

lemma chain_remove_Some:
  "chain_remove fid es = Some es' \<Longrightarrow> \<exists>e. fh_flowid e = fid \<and> mset es = add_mset e (mset es')"
  by (induction es arbitrary: es') (auto split: if_splits)

lemma chain_remove_None: "chain_remove fid es = None \<longleftrightarrow> fid \<notin> fh_flowid ` set es"
  by (induction es) auto

lemma hash_remove_Some:
  "hash_remove fid cs = Some cs' \<Longrightarrow>
   length cs' = length cs \<and> (\<exists>e. fh_flowid e = fid \<and> mset (concat cs) = add_mset e (mset (concat cs')))"
proof (induction cs arbitrary: cs')
  case Nil
  then show ?case by simp
next
  case (Cons c cs)
  show ?case
  proof (cases "chain_remove fid c")
    case None
    then obtain ds where "hash_remove fid cs = Some ds" "cs' = c # ds" using Cons.prems by auto
    with Cons.IH show ?thesis by fastforce
  next
    case (Some c')
    then show ?thesis using Cons.prems chain_remove_Some [OF Some] by auto
  qed
qed

lemma hash_remove_None: "hash_remove fid cs = None \<longleftrightarrow> fid \<notin> fh_flowid ` set (concat cs)"
proof (induction cs)
  case (Cons c cs)
  then show ?case
    using chain_remove_None [of fid c] by (cases "chain_remove fid c") auto
qed simp

section \<open>The invariant\<close>

text \<open>Sizes and identities of the tables.\<close>

definition tables_ok :: "dhd_pub \<Rightarrow> id16_map \<Rightarrow> flow_ring_node list \<Rightarrow> if_flow_lkup list \<Rightarrow> bool" where
  "tables_ok d ids tbl lk \<longleftrightarrow>
     flowid_allocator d = Some ids \<and> flow_ring_table d = Some tbl \<and> if_lkup d = Some lk \<and>
     id_start ids = FLOWID_RESERVED \<and> length tbl = unat (id_total ids) + FLOW_RING_COMMON \<and>
     unat (num_flow_rings d) = length tbl \<and> max_sub_queues d = num_flow_rings d \<and>
     (\<forall>i < length tbl. flowid (tbl ! i) = of_nat i \<and> unat (fi_ifindex (finfo (tbl ! i))) < DHD_MAX_IFS) \<and>
     length lk = DHD_MAX_IFS \<and> (\<forall>l \<in> set lk. length (fl_hash l) = DHD_FLOWRING_HASH_SIZE)"

text \<open>The ids out, the entries and the active rings agree.\<close>

definition ids_ok :: "id16_map \<Rightarrow> flow_ring_node list \<Rightarrow> if_flow_lkup list \<Rightarrow> bool" where
  "ids_ok ids tbl lk \<longleftrightarrow>
     (\<exists>avail. id16_rep ids avail (fh_flowid ` set (entries lk))) \<and>
     distinct (map fh_flowid (entries lk)) \<and>
     (\<forall>i < length tbl. active (tbl ! i) \<longleftrightarrow> of_nat i \<in> fh_flowid ` set (entries lk)) \<and>
     (\<forall>j < length lk. \<forall>e \<in> set (if_entries (lk ! j)).
        unat (fi_ifindex (finfo (tbl ! unat (fh_flowid e)))) = j)"

lemma ids_okD:
  assumes "ids_ok ids tbl lk"
  shows "\<exists>avail. id16_rep ids avail (fh_flowid ` set (entries lk))" and "distinct (map fh_flowid (entries lk))"
    and "\<And>i. i < length tbl \<Longrightarrow> active (tbl ! i) \<longleftrightarrow> of_nat i \<in> fh_flowid ` set (entries lk)"
    and "\<And>j e. j < length lk \<Longrightarrow> e \<in> set (if_entries (lk ! j)) \<Longrightarrow>
           unat (fi_ifindex (finfo (tbl ! unat (fh_flowid e)))) = j"
  using assms unfolding ids_ok_def by (elim conjE, assumption | simp only:)+

lemma ids_okI:
  assumes "id16_rep ids avail (fh_flowid ` set (entries lk))" and "distinct (map fh_flowid (entries lk))"
    and "\<And>i. i < length tbl \<Longrightarrow> active (tbl ! i) \<longleftrightarrow> of_nat i \<in> fh_flowid ` set (entries lk)"
    and "\<And>j e. j < length lk \<Longrightarrow> e \<in> set (if_entries (lk ! j)) \<Longrightarrow>
           unat (fi_ifindex (finfo (tbl ! unat (fh_flowid e)))) = j"
  shows "ids_ok ids tbl lk"
  unfolding ids_ok_def using assms by blast

definition queues_ok :: "pkt_store \<Rightarrow> flow_ring_node list \<Rightarrow> pkt list list \<Rightarrow> bool" where
  "queues_ok s tbl qs \<longleftrightarrow>
     length qs = length tbl \<and> (\<forall>i < length tbl. fq_rep s (queue (tbl ! i)) (qs ! i)) \<and>
     (\<forall>i < length tbl. \<not> active (tbl ! i) \<longrightarrow> qs ! i = []) \<and>
     (\<forall>i < length tbl. \<forall>j < length tbl. i \<noteq> j \<longrightarrow> set (qs ! i) \<inter> set (qs ! j) = {})"

definition fr_inv :: "pkt_store \<Rightarrow> dhd_pub \<Rightarrow> pkt list list \<Rightarrow> bool" where
  "fr_inv s d qs \<longleftrightarrow> (\<exists>ids tbl lk. tables_ok d ids tbl lk \<and> ids_ok ids tbl lk \<and> queues_ok s tbl qs)"

lemma ids_ok_range:
  assumes "tables_ok d ids tbl lk" and "ids_ok ids tbl lk" and "e \<in> set (entries lk)"
  shows "fh_flowid e \<noteq> FLOWID_INVALID" and "unat (fh_flowid e) < length tbl"
proof -
  obtain avail where rep: "id16_rep ids avail (fh_flowid ` set (entries lk))"
    using assms(2) by (auto simp: ids_ok_def)
  have "fh_flowid e \<in> id_range ids" using rep assms(3) by (auto simp: id16_rep_def)
  then have "uint (fh_flowid e) < uint (id_start ids) + uint (id_total ids)" by (simp add: id_range_def)
  then have lt: "unat (fh_flowid e) < unat (id_start ids) + unat (id_total ids)" by (simp add: uint_less_add)
  then show "unat (fh_flowid e) < length tbl" using assms(1) by (simp add: tables_ok_def)
  have "unat (id_start ids) + unat (id_total ids) < 65535"
    using rep uint_add_less [of "id_start ids" "id_total ids" 65535] by (simp add: id16_rep_def)
  then show "fh_flowid e \<noteq> FLOWID_INVALID" using lt by auto
qed

lemma if_entries_subset: "j < length lk \<Longrightarrow> set (if_entries (lk ! j)) \<subseteq> set (entries lk)"
  by (force simp: entries_def)

lemma tables_ok_length:
  assumes "tables_ok d ids tbl lk" and "ids_ok ids tbl lk"
  shows "length tbl < 65536"
proof -
  have "uint (id_start ids) + uint (id_total ids) < 0xFFFF"
    using assms(2) by (auto simp: ids_ok_def id16_rep_def)
  then show ?thesis
    using assms(1) uint_add_less [of "id_start ids" "id_total ids" 65535] by (simp add: tables_ok_def)
qed

section \<open>Looking up and creating a flow\<close>

lemma HASHINDEX_less: "DHD_FLOWRING_HASHINDEX ea prio < 256"
  by (simp add: DHD_FLOWRING_HASHINDEX_def)

lemma chain_find_cases:
  "(chain_find P es = FLOWID_INVALID \<and> (\<forall>e \<in> set es. P e \<longrightarrow> fh_flowid e = FLOWID_INVALID)) \<or>
   (\<exists>e \<in> set es. P e \<and> chain_find P es = fh_flowid e)"
  by (induction es) auto

lemma tables_ok_if:
  assumes "tables_ok d ids tbl lk" and "unat ifindex < 16"
  shows "get_if d ifindex = Some (lk ! unat ifindex)" and "length (fl_hash (lk ! unat ifindex)) = 256"
    and "unat ifindex < length lk"
proof -
  show lt: "unat ifindex < length lk" using assms by (simp add: tables_ok_def)
  then show "get_if d ifindex = Some (lk ! unat ifindex)" using assms(1) by (simp add: get_if_def tables_ok_def)
  show "length (fl_hash (lk ! unat ifindex)) = 256" using assms(1) nth_mem [OF lt] by (simp add: tables_ok_def)
qed

text \<open>The chain a flow belongs to, as find reads it and as alloc extends it.\<close>

definition find_slot :: "dhd_pub \<Rightarrow> if_flow_lkup \<Rightarrow> u8 \<Rightarrow> ether_addr \<Rightarrow> nat \<times> (flow_hash_info \<Rightarrow> bool)" where
  "find_slot d l prio dst =
     (if role l = WLC_E_IF_ROLE_STA
      then if tdls_peer_count d \<noteq> 0 \<and> \<not> ETHER_ISMULTI dst \<and> is_tdls_destination d dst
           then (DHD_FLOWRING_HASHINDEX dst prio, \<lambda>e. fh_da e = dst)
           else (unat prio, \<lambda>e. True)
      else if ETHER_ISMULTI dst
           then (0, \<lambda>e. ETHER_ISMULTI (fh_da e) \<or> (fh_da e = dst \<and> fh_tid e = prio))
           else (DHD_FLOWRING_HASHINDEX dst prio, \<lambda>e. fh_da e = dst \<and> fh_tid e = prio))"

lemma find_slot_less: "fst (find_slot d l prio dst) < 256"
  by (simp add: find_slot_def HASHINDEX_less unat_u8_less)

lemma dhd_flowid_find_slot:
  assumes "tables_ok d ids tbl lk" and "unat ifindex < 16"
  defines "l \<equiv> lk ! unat ifindex"
  shows "dhd_flowid_find d ifindex prio dst =
           Some (chain_find (snd (find_slot d l prio dst)) (fl_hash l ! fst (find_slot d l prio dst)))"
proof -
  note t = tables_ok_if [OF assms(1,2), folded l_def]
  have "(case xs of [] \<Rightarrow> FLOWID_INVALID | e # _ \<Rightarrow> fh_flowid e) = chain_find (\<lambda>e. True) xs" for xs
    by (cases xs) simp_all
  then show ?thesis
    using t by (auto simp: dhd_flowid_find_def find_slot_def HASHINDEX_less unat_u8_less Let_def)
qed

lemma if_chain_entries:
  "h < length (fl_hash l) \<Longrightarrow> e \<in> set (fl_hash l ! h) \<Longrightarrow> e \<in> set (if_entries l)"
  by (force simp: if_entries_def)

lemma find_result:
  assumes tok: "tables_ok d ids tbl lk" and iok: "ids_ok ids tbl lk" and i: "unat ifindex < 16"
    and find: "dhd_flowid_find d ifindex prio dst = Some r"
  defines "l \<equiv> lk ! unat ifindex"
  shows "if r = FLOWID_INVALID
         then \<forall>e \<in> set (fl_hash l ! fst (find_slot d l prio dst)). \<not> snd (find_slot d l prio dst) e
         else \<exists>e \<in> set (if_entries l). snd (find_slot d l prio dst) e \<and> fh_flowid e = r"
proof -
  note t = tables_ok_if [OF tok i, folded l_def]
  let ?h = "fst (find_slot d l prio dst)" and ?P = "snd (find_slot d l prio dst)"
  have r: "r = chain_find ?P (fl_hash l ! ?h)" using dhd_flowid_find_slot [OF tok i] find by (simp add: l_def)
  have h: "?h < length (fl_hash l)" using t(2) find_slot_less by simp
  have ok: "fh_flowid e \<noteq> FLOWID_INVALID" if "e \<in> set (fl_hash l ! ?h)" for e
    using ids_ok_range(1) [OF tok iok] if_chain_entries [OF h that] if_entries_subset [OF t(3)]
    by (auto simp: l_def)
  show ?thesis
    using chain_find_cases [of ?P "fl_hash l ! ?h"] ok if_chain_entries [OF h] r by (auto split: if_splits)
qed

lemma alloc_entry:
  assumes tok: "tables_ok d ids tbl lk" and iok: "ids_ok ids tbl lk" and i: "unat ifindex < 16"
    and find: "dhd_flowid_find d ifindex prio dst = Some FLOWID_INVALID"
  defines "l \<equiv> lk ! unat ifindex"
  obtains (full) ids' where "dhd_flowid_alloc True d ifindex prio dst
        = Some (d\<lparr>flowid_allocator := Some ids'\<rparr>, FLOWID_INVALID)"
      and "ids' = ids\<lparr>id_failures := id_failures ids + 1\<rparr>" and "stack_idx ids < 0"
  | (new) ids' fid l' h avail where "dhd_flowid_alloc True d ifindex prio dst
        = Some (put_if (d\<lparr>flowid_allocator := Some ids'\<rparr>) ifindex l', fid)"
      and "fid \<noteq> FLOWID_INVALID" and "fid \<notin> fh_flowid ` set (entries lk)" and "h < 256"
      and "l' = l\<lparr>fl_hash := (fl_hash l)[h := fl_hash l ! h @
             [\<lparr>fh_flowid = fid, fh_tid = prio, fh_ifindex = ifindex, fh_da = dst\<rparr>]]\<rparr>"
      and "id16_rep ids' avail (insert fid (fh_flowid ` set (entries lk)))"
      and "id_start ids' = id_start ids" and "id_total ids' = id_total ids"
      and "(ETHER_ISMULTI dst \<longrightarrow> \<not> is_tdls_destination d dst) \<longrightarrow> h = fst (find_slot d l prio dst)"
proof -
  note t = tables_ok_if [OF tok i, folded l_def]
  obtain avail where rep: "id16_rep ids avail (fh_flowid ` set (entries lk))" using iok by (auto simp: ids_ok_def)
  have a: "flowid_allocator d = Some ids" using tok by (simp add: tables_ok_def)
  show thesis
  proof (cases "avail = {}")
    case True
    then show thesis
      using full rep id16_alloc_none_rep(1) [of ids "fh_flowid ` set (entries lk)"]
      by (auto simp: dhd_flowid_alloc_def a id16_rep_def word_less_nat_alt)
  next
    case False
    then obtain ids' v where v: "id16_map_alloc ids = Some (ids', v)" "v \<noteq> FLOWID_INVALID" "v \<in> avail"
        "id16_rep ids' (avail - {v}) (insert v (fh_flowid ` set (entries lk)))"
      using id16_alloc_some_rep [OF rep] by auto
    have same: "id_start ids' = id_start ids" "id_total ids' = id_total ids"
      using v(1) rep by (auto simp: id16_map_alloc_def id16_rep_def arr_get_def split: if_splits Option.bind_splits)
    have vnew: "v \<notin> fh_flowid ` set (entries lk)" using v(3) rep by (auto simp: id16_rep_def)
    let ?e = "\<lparr>fh_flowid = v, fh_tid = prio, fh_ifindex = ifindex, fh_da = dst\<rparr>"
    define h where "h = (if role l = WLC_E_IF_ROLE_STA
        then if tdls_peer_count d \<noteq> 0 \<and> is_tdls_destination d dst then DHD_FLOWRING_HASHINDEX dst prio else unat prio
        else if ETHER_ISMULTI dst then 0 else DHD_FLOWRING_HASHINDEX dst prio)"
    have h: "h < 256" by (simp add: h_def HASHINDEX_less unat_u8_less)
    have empty: "fl_hash l ! unat prio = []"
      if "role l = WLC_E_IF_ROLE_STA" "\<not> (tdls_peer_count d \<noteq> 0 \<and> is_tdls_destination d dst)"
      using find_result [OF tok iok i find, folded l_def] that by (auto simp: find_slot_def split: if_splits)
    have g: "get_if (d\<lparr>flowid_allocator := Some ids'\<rparr>) ifindex = Some l"
      using t(1) by (simp add: get_if_def)
    have td: "is_tdls_destination (d\<lparr>flowid_allocator := Some ids'\<rparr>) dst = is_tdls_destination d dst"
      by (simp add: is_tdls_destination_def)
    have alloc: "dhd_flowid_alloc True d ifindex prio dst
        = Some (put_if (d\<lparr>flowid_allocator := Some ids'\<rparr>) ifindex
            (l\<lparr>fl_hash := (fl_hash l)[h := fl_hash l ! h @ [?e]]\<rparr>), v)"
      using v(2) t(2) h empty by (auto simp: dhd_flowid_alloc_def a v(1) g td Let_def h_def HASHINDEX_less unat_u8_less)
    show thesis
      by (rule new [OF alloc v(2) vnew h refl v(4) same]) (auto simp: h_def find_slot_def)
  qed
qed

text \<open>Changing a ring's fields other than its queue, its id and its place in the hash.\<close>

lemma tables_ok_put_ring:
  assumes "tables_ok d ids tbl lk" and "i < length tbl" and "flowid n = of_nat i"
    and "unat (fi_ifindex (finfo n)) < DHD_MAX_IFS"
  shows "tables_ok (put_ring d i n) ids (tbl[i := n]) lk" and "get_ring d i = Some (tbl ! i)"
  using assms by (auto simp: tables_ok_def put_ring_def get_ring_def nth_list_update)

lemma queues_ok_same:
  assumes "queues_ok s tbl qs" and "i < length tbl" and "queue n = queue (tbl ! i)" and "active (tbl ! i) \<longrightarrow> active n"
  shows "queues_ok s (tbl[i := n]) qs"
  using assms by (auto simp: queues_ok_def nth_list_update)

lemma ids_ok_same:
  assumes iok: "ids_ok ids tbl lk" and i: "i < length tbl" and "active n = active (tbl ! i)" "finfo n = finfo (tbl ! i)"
  shows "ids_ok ids (tbl[i := n]) lk"
proof -
  have "active (tbl[i := n] ! k) = active (tbl ! k)" "finfo (tbl[i := n] ! k) = finfo (tbl ! k)" for k
    using assms by (cases "k = i"; simp)+
  then show ?thesis using iok by (simp add: ids_ok_def)
qed

lemma ids_ok_add:
  assumes tok: "tables_ok d ids tbl lk" and iok: "ids_ok ids tbl lk" and j: "j < length lk"
    and l': "mset (if_entries l') = add_mset e (mset (if_entries (lk ! j)))"
    and new: "fh_flowid e \<notin> fh_flowid ` set (entries lk)"
    and rep: "id16_rep ids' avail (insert (fh_flowid e) (fh_flowid ` set (entries lk)))"
    and fid: "unat (fh_flowid e) < length tbl"
    and n: "active n" "unat (fi_ifindex (finfo n)) = j"
  shows "ids_ok ids' (tbl[unat (fh_flowid e) := n]) (lk[j := l'])"
proof -
  have ms: "mset (entries (lk[j := l'])) = add_mset e (mset (entries lk))" by (rule mset_add_entry [OF j l'])
  have ent: "set (entries (lk[j := l'])) = insert e (set (entries lk))" by (rule mset_add_distinct(2) [OF ms])
  have dist: "distinct (map fh_flowid (entries (lk[j := l'])))"
    using new iok unfolding mset_add_distinct(1) [OF ms] by (simp add: ids_ok_def)
  have lt: "length tbl < 65536" by (rule tables_ok_length [OF tok iok])
  have act: "active (tbl[unat (fh_flowid e) := n] ! i) \<longleftrightarrow> of_nat i \<in> fh_flowid ` set (entries (lk[j := l']))"
    if "i < length tbl" for i
  proof -
    have "of_nat i = fh_flowid e \<longleftrightarrow> i = unat (fh_flowid e)"
      using that lt by (metis unat_of_nat16 of_nat_unat ucast_id less_trans)
    then show ?thesis using iok that n(1) fid by (auto simp: ids_ok_def ent nth_list_update)
  qed
  have own: "unat (fi_ifindex (finfo (tbl[unat (fh_flowid e) := n] ! unat (fh_flowid x)))) = k"
    if k: "k < length lk" and x: "x \<in> set (if_entries (lk[j := l'] ! k))" for k x
  proof (cases "k = j \<and> x = e")
    case True
    then show ?thesis using fid n by simp
  next
    case False
    then have old: "x \<in> set (if_entries (lk ! k))"
      using x k j mset_add_distinct(2) [OF l'] by (auto simp: nth_list_update split: if_splits)
    then have "unat (fh_flowid x) \<noteq> unat (fh_flowid e)" unfolding word_unat_eq_iff [symmetric] using new if_entries_subset [OF k] by (metis image_eqI subsetD)
    then show ?thesis using iok old k by (auto simp: ids_ok_def nth_list_update)
  qed
  show ?thesis unfolding ids_ok_def using rep dist act own by (auto simp: ent)
qed

lemma tables_ok_put_if:
  assumes "tables_ok d ids tbl lk" and "unat ifindex < 16" and "length (fl_hash l) = 256"
  shows "tables_ok (put_if d ifindex l) ids tbl (lk[unat ifindex := l])"
  using assms by (auto simp: tables_ok_def put_if_def dest: set_update_subset_insert [THEN subsetD])

lemma tables_ok_put_ids:
  assumes "tables_ok d ids tbl lk" and "id_start ids' = id_start ids" "id_total ids' = id_total ids"
  shows "tables_ok (d\<lparr>flowid_allocator := Some ids'\<rparr>) ids' tbl lk"
  using assms by (auto simp: tables_ok_def)

lemma put_if_commute: "put_if (d\<lparr>flowid_allocator := a\<rparr>) i l = (put_if d i l)\<lparr>flowid_allocator := a\<rparr>"
  by (simp add: put_if_def)

lemma fid_in_table:
  assumes tok: "tables_ok d ids tbl lk" and rep: "id16_rep ids avail used" and "fid \<in> used"
  shows "unat fid < length tbl"
proof -
  have "fid \<in> id_range ids" using rep assms(3) by (auto simp: id16_rep_def)
  then have "unat fid < unat (id_start ids) + unat (id_total ids)" by (simp add: id_range_def uint_less_add)
  then show ?thesis using tok by (simp add: tables_ok_def)
qed

text \<open>A new flow: the whole creating branch of \<open>dhd_flowid_lookup\<close>.\<close>

lemma create_flow_inv:
  assumes tok: "tables_ok d ids tbl lk" and iok: "ids_ok ids tbl lk" and qok: "queues_ok s tbl qs"
    and i: "unat ifindex < 16"
    and h: "h < 256" and new: "fid \<notin> fh_flowid ` set (entries lk)"
    and l': "l' = (lk ! unat ifindex)\<lparr>fl_hash := (fl_hash (lk ! unat ifindex))[h := fl_hash (lk ! unat ifindex) ! h @
               [\<lparr>fh_flowid = fid, fh_tid = prio, fh_ifindex = ifindex, fh_da = dst\<rparr>]]\<rparr>"
    and rep: "id16_rep ids' avail (insert fid (fh_flowid ` set (entries lk)))"
    and same: "id_start ids' = id_start ids" "id_total ids' = id_total ids"
    and n: "n = (tbl ! unat fid)\<lparr>finfo := \<lparr>tid = prio, fi_ifindex = ifindex, sa = src, da = dst\<rparr>,
               active := True, status := st\<rparr>"
  defines "d1 \<equiv> put_if (d\<lparr>flowid_allocator := Some ids'\<rparr>) ifindex l'"
  shows "tables_ok (put_ring d1 (unat fid) n) ids' (tbl[unat fid := n]) (lk[unat ifindex := l'])"
    and "ids_ok ids' (tbl[unat fid := n]) (lk[unat ifindex := l'])"
    and "queues_ok s (tbl[unat fid := n]) qs"
    and "unat fid < length tbl" and "get_ring d1 (unat fid) = Some (tbl ! unat fid)"
    and "unat (num_flow_rings d1) = length tbl"
proof -
  note t = tables_ok_if [OF tok i]
  let ?e = "\<lparr>fh_flowid = fid, fh_tid = prio, fh_ifindex = ifindex, fh_da = dst\<rparr>"
  have len: "length (fl_hash l') = 256" using t(2) by (simp add: l')
  have tok1: "tables_ok d1 ids' tbl (lk[unat ifindex := l'])"
    unfolding d1_def by (rule tables_ok_put_if [OF tables_ok_put_ids [OF tok same] i len])
  show fl: "unat fid < length tbl" by (rule fid_in_table [OF tables_ok_put_ids [OF tok same] rep]) simp
  have nid: "flowid n = of_nat (unat fid)" and nif: "unat (fi_ifindex (finfo n)) < DHD_MAX_IFS"
    using tok fl i by (simp_all add: n tables_ok_def)
  show "tables_ok (put_ring d1 (unat fid) n) ids' (tbl[unat fid := n]) (lk[unat ifindex := l'])"
    by (rule tables_ok_put_ring(1) [OF tok1 fl nid nif])
  show "get_ring d1 (unat fid) = Some (tbl ! unat fid)" by (rule tables_ok_put_ring(2) [OF tok1 fl nid nif])
  show "queues_ok s (tbl[unat fid := n]) qs" by (rule queues_ok_same [OF qok fl]) (simp_all add: n)
  show "unat (num_flow_rings d1) = length tbl" using tok1 by (simp add: tables_ok_def)
  have "mset (if_entries l') = add_mset ?e (mset (if_entries (lk ! unat ifindex)))"
    using mset_chain_snoc [of h "lk ! unat ifindex" ?e] t(2) h by (simp add: l')
  from ids_ok_add [OF tok iok t(3) this, of ids' avail n] new rep fl
  show "ids_ok ids' (tbl[unat fid := n]) (lk[unat ifindex := l'])" by (simp add: n)
qed

lemma chain_find_snoc:
  "\<forall>e \<in> set es. \<not> P e \<Longrightarrow> P e' \<Longrightarrow> chain_find P (es @ [e']) = fh_flowid e'"
  by (induction es) auto

text \<open>\<open>dhd_flowid_lookup\<close> when the flow is not known yet and its interface is up.\<close>

lemma lookup_unknown:
  assumes inv: "fr_inv s d qs" and i: "unat ifindex < 16" and find: "dhd_flowid_find d ifindex prio dst = Some FLOWID_INVALID"
    and l: "get_if d ifindex = Some l" "if_status l"
  obtains (full) d' where "dhd_flowid_lookup True create d ifindex prio src dst = Some (d', BCME_ERROR, None)"
      and "fr_inv s d' qs" and "\<And>ids. flowid_allocator d = Some ids \<Longrightarrow> stack_idx ids < 0"
  | (new) d' fid n h e where "dhd_flowid_lookup True create d ifindex prio src dst =
        (if create = BCME_OK then Some (d', BCME_OK, Some fid) else Some (d', BCME_ERROR, None))"
      and "fr_inv s d' qs" and "fid \<noteq> FLOWID_INVALID"
      and "get_ring d' (unat fid) = Some n" and "active n" and "status n = FLOW_RING_STATUS_PENDING"
      and "(ETHER_ISMULTI dst \<longrightarrow> \<not> is_tdls_destination d dst) \<longrightarrow> dhd_flowid_find d' ifindex prio dst = Some fid"
      and "get_if d' ifindex = Some (l\<lparr>fl_hash := (fl_hash l)[h := fl_hash l ! h @ [e]]\<rparr>)" and "fh_flowid e = fid"
      and "(ETHER_ISMULTI dst \<longrightarrow> \<not> is_tdls_destination d dst) \<longrightarrow> h = fst (find_slot d l prio dst)"
      and "tdls_peers d' = tdls_peers d" and "tdls_peer_count d' = tdls_peer_count d"
proof -
  obtain ids tbl lk where tok: "tables_ok d ids tbl lk" and iok: "ids_ok ids tbl lk" and qok: "queues_ok s tbl qs"
    using inv by (auto simp: fr_inv_def)
  note t = tables_ok_if [OF tok i]
  have le: "lk ! unat ifindex = l" using t(1) l(1) by simp
  have ft: "flow_ring_table d = Some tbl" using tok by (simp add: tables_ok_def)
  from tok iok i find show thesis
  proof (cases rule: alloc_entry)
    case (full ids')
    have "tables_ok (d\<lparr>flowid_allocator := Some ids'\<rparr>) ids' tbl lk"
      by (rule tables_ok_put_ids [OF tok]) (simp_all add: full(2))
    moreover have "ids_ok ids' tbl lk" using iok by (auto simp: full(2) ids_ok_def id16_rep_def id_range_def)
    ultimately have "fr_inv s (d\<lparr>flowid_allocator := Some ids'\<rparr>) qs" using qok by (auto simp: fr_inv_def)
    moreover have "stack_idx ids < 0" using full(3) .
    ultimately show thesis
      using that(1) ft find l full(1) tok by (simp add: dhd_flowid_lookup_def tables_ok_def)
  next
    case (new ids' fid l' h avail)
    let ?e = "\<lparr>fh_flowid = fid, fh_tid = prio, fh_ifindex = ifindex, fh_da = dst\<rparr>"
    let ?n = "(tbl ! unat fid)\<lparr>finfo := \<lparr>tid = prio, fi_ifindex = ifindex, sa = src, da = dst\<rparr>,
           active := True, status := FLOW_RING_STATUS_PENDING\<rparr>"
    let ?d1 = "put_if (d\<lparr>flowid_allocator := Some ids'\<rparr>) ifindex l'"
    let ?d2 = "put_ring ?d1 (unat fid) ?n"
    note c = create_flow_inv [where src = src and st = FLOW_RING_STATUS_PENDING,
      OF tok iok qok i new(4,3,5,6,7,8) refl]
    have inv': "fr_inv s ?d2 qs" using c(1-3) by (auto simp: fr_inv_def)
    have g: "get_ring ?d2 (unat fid) = Some ?n" using c(1,4) by (simp add: tables_ok_def get_ring_def)
    have look: "dhd_flowid_lookup True create d ifindex prio src dst =
        (if create = BCME_OK then Some (?d2, BCME_OK, Some fid) else Some (?d2, BCME_ERROR, None))"
      using ft find l new(1,2) c(4-6) by (simp add: dhd_flowid_lookup_def dhd_bus_flow_ring_create_request_def Let_def)
    have td: "tdls_peers ?d2 = tdls_peers d" "tdls_peer_count ?d2 = tdls_peer_count d"
      by (simp_all add: put_ring_def put_if_def)
    have gi: "get_if ?d2 ifindex = Some l'" using tables_ok_if(1) [OF c(1) i] t(3) by simp
    have "find_slot ?d2 l' prio dst = find_slot d l prio dst"
      using td by (simp add: find_slot_def new(5) le is_tdls_destination_def)
    then have "dhd_flowid_find ?d2 ifindex prio dst = Some fid"
      if "ETHER_ISMULTI dst \<longrightarrow> \<not> is_tdls_destination d dst"
    proof -
      have h: "h = fst (find_slot d l prio dst)" using new(9) that by (simp add: le)
      have none: "\<forall>e \<in> set (fl_hash l ! h). \<not> snd (find_slot d l prio dst) e"
        using find_result [OF tok iok i find] by (simp add: le h)
      have "snd (find_slot d l prio dst) ?e" by (simp add: find_slot_def)
      then have "chain_find (snd (find_slot d l prio dst)) (fl_hash l ! h @ [?e]) = fid"
        using chain_find_snoc [OF none, of ?e] by simp
      then show ?thesis
        using dhd_flowid_find_slot [OF c(1) i, of prio dst] \<open>find_slot ?d2 l' prio dst = _\<close> t(2,3) new(4)
        by (simp add: new(5) le h [symmetric])
    qed
    moreover have "get_if ?d2 ifindex = Some (l\<lparr>fl_hash := (fl_hash l)[h := fl_hash l ! h @ [?e]]\<rparr>)"
      using gi by (simp add: new(5) le)
    moreover have "(ETHER_ISMULTI dst \<longrightarrow> \<not> is_tdls_destination d dst) \<longrightarrow> h = fst (find_slot d l prio dst)"
      using new(9) by (simp add: le)
    ultimately show thesis using that(2) look inv' new(2) g td by simp
  qed
qed

lemma lookup_known:
  assumes inv: "fr_inv s d qs" and i: "unat ifindex < 16"
    and find: "dhd_flowid_find d ifindex prio dst = Some r" "r \<noteq> FLOWID_INVALID"
  obtains n where "get_ring d (unat r) = Some n" and "active n" and "unat (fi_ifindex (finfo n)) = unat ifindex"
    and "dhd_flowid_lookup True create d ifindex prio src dst =
      (if status n = FLOW_RING_STATUS_OPEN \<or> status n = FLOW_RING_STATUS_PENDING
       then Some (d, BCME_OK, Some r) else Some (d, BCME_ERROR, Some FLOWID_INVALID))"
proof -
  obtain ids tbl lk where tok: "tables_ok d ids tbl lk" and iok: "ids_ok ids tbl lk"
    using inv by (auto simp: fr_inv_def)
  note t = tables_ok_if [OF tok i]
  have ft: "flow_ring_table d = Some tbl" using tok by (simp add: tables_ok_def)
  obtain e where e: "e \<in> set (if_entries (lk ! unat ifindex))" "fh_flowid e = r"
    using find_result [OF tok iok i find(1)] find(2) by auto
  then have es: "e \<in> set (entries lk)" using if_entries_subset [OF t(3)] by auto
  then have rl: "unat r < length tbl" using ids_ok_range(2) [OF tok iok es] e(2) by simp
  have act: "active (tbl ! unat r)" using ids_okD(3) [OF iok rl] es e(2) by auto
  have own: "unat (fi_ifindex (finfo (tbl ! unat r))) = unat ifindex" using ids_okD(4) [OF iok t(3) e(1)] e(2) by simp
  have "unat (num_flow_rings d) = length tbl" "get_ring d (unat r) = Some (tbl ! unat r)"
    using tok rl by (simp_all add: tables_ok_def get_ring_def)
  then show thesis using that [of "tbl ! unat r"] act own ft find rl by (simp add: dhd_flowid_lookup_def)
qed

lemma lookup_inv:
  assumes inv: "fr_inv s d qs" and i: "unat ifindex < 16"
  shows "\<exists>d' ret r. dhd_flowid_lookup True create d ifindex prio src dst = Some (d', ret, r) \<and> fr_inv s d' qs"
proof -
  obtain ids tbl lk where tok: "tables_ok d ids tbl lk" using inv by (auto simp: fr_inv_def)
  note t = tables_ok_if [OF tok i]
  have ft: "flow_ring_table d = Some tbl" using tok by (simp add: tables_ok_def)
  obtain r where find: "dhd_flowid_find d ifindex prio dst = Some r"
    using dhd_flowid_find_slot [OF tok i] by blast
  show ?thesis
  proof (cases "r = FLOWID_INVALID")
    case False
    obtain n :: flow_ring_node where "dhd_flowid_lookup True create d ifindex prio src dst =
        (if status n = FLOW_RING_STATUS_OPEN \<or> status n = FLOW_RING_STATUS_PENDING
         then Some (d, BCME_OK, Some r) else Some (d, BCME_ERROR, Some FLOWID_INVALID))"
      by (rule lookup_known [where create = create and src = src, OF inv i find False])
    then show ?thesis using inv by simp
  next
    case True
    show ?thesis
    proof (cases "if_status (lk ! unat ifindex)")
      case False
      then show ?thesis using ft find True t(1) inv by (auto simp: dhd_flowid_lookup_def)
    next
      case st: True
      from inv i find [unfolded True] t(1) st show ?thesis
        by (cases rule: lookup_unknown [where create = create and src = src]) auto
    qed
  qed
qed

section \<open>Closing a ring\<close>

lemma ids_ok_remove:
  assumes tok: "tables_ok d ids tbl lk" and iok: "ids_ok ids tbl lk" and j: "j < length lk"
    and l': "mset (if_entries (lk ! j)) = add_mset e (mset (if_entries l'))"
    and rep: "id16_rep ids' avail (fh_flowid ` set (entries lk) - {fh_flowid e})"
    and n: "\<not> active n" and i: "unat (fh_flowid e) = i" "i < length tbl"
  shows "ids_ok ids' (tbl[i := n]) (lk[j := l'])" and "fh_flowid e \<notin> fh_flowid ` set (entries (lk[j := l']))"
proof -
  have ms: "mset (entries lk) = add_mset e (mset (entries (lk[j := l'])))" by (rule mset_remove_entry [OF j l'])
  note m = mset_add_distinct(1) [OF ms, of fh_flowid] mset_add_distinct(2) [OF ms]
  have dist: "distinct (map fh_flowid (entries (lk[j := l'])))"
    and new: "fh_flowid e \<notin> fh_flowid ` set (entries (lk[j := l']))"
    using iok m(1) by (auto simp: ids_ok_def)
  then have used: "fh_flowid ` set (entries (lk[j := l'])) = fh_flowid ` set (entries lk) - {fh_flowid e}"
    unfolding m(2) by auto
  show "fh_flowid e \<notin> fh_flowid ` set (entries (lk[j := l']))" by (rule new)
  have lt: "length tbl < 65536" by (rule tables_ok_length [OF tok iok])
  have act: "active (tbl[i := n] ! k) \<longleftrightarrow> of_nat k \<in> fh_flowid ` set (entries (lk[j := l']))"
    if "k < length tbl" for k
  proof -
    have "of_nat k = fh_flowid e \<longleftrightarrow> k = i"
      using that lt i(1) by (metis unat_of_nat16 of_nat_unat ucast_id less_trans)
    then show ?thesis using iok that n unfolding used by (auto simp: ids_ok_def nth_list_update)
  qed
  have own: "unat (fi_ifindex (finfo (tbl[i := n] ! unat (fh_flowid x)))) = k"
    if k: "k < length lk" and x: "x \<in> set (if_entries (lk[j := l'] ! k))" for k x
  proof -
    have old: "x \<in> set (if_entries (lk ! k))"
      using x k j mset_add_distinct(2) [OF l'] by (auto simp: nth_list_update split: if_splits)
    have "x \<in> set (entries (lk[j := l']))" using x if_entries_subset [of k "lk[j := l']"] k by auto
    then have "fh_flowid x \<noteq> fh_flowid e" using new by (metis image_eqI)
    then have "unat (fh_flowid x) \<noteq> i" using i(1) by (metis word_unat_eq_iff)
    then show ?thesis using iok old k by (auto simp: ids_ok_def)
  qed
  show "ids_ok ids' (tbl[i := n]) (lk[j := l'])"
    unfolding ids_ok_def using rep dist act own by (auto simp: used)
qed

lemma ids_ok_not_active:
  assumes tok: "tables_ok d ids tbl lk" and iok: "ids_ok ids tbl lk" and i: "i < length tbl"
    and "of_nat i \<notin> fh_flowid ` set (entries lk)" and n: "\<not> active n"
  shows "ids_ok ids (tbl[i := n]) lk"
proof -
  have lt: "length tbl < 65536" by (rule tables_ok_length [OF tok iok])
  have own: "unat (fi_ifindex (finfo (tbl[i := n] ! unat (fh_flowid x)))) = k"
    if k: "k < length lk" and x: "x \<in> set (if_entries (lk ! k))" for k x
  proof -
    have "fh_flowid x \<noteq> of_nat i" using x if_entries_subset [OF k] assms(4) by (metis image_eqI subsetD)
    then have "unat (fh_flowid x) \<noteq> i" by (metis of_nat_unat ucast_id)
    then show ?thesis using iok x k by (auto simp: ids_ok_def)
  qed
  have act: "active (tbl[i := n] ! k) \<longleftrightarrow> of_nat k \<in> fh_flowid ` set (entries lk)" if "k < length tbl" for k
  proof (cases "k = i")
    case True
    then show ?thesis using n assms(4) i by simp
  next
    case False
    have "active (tbl ! k) \<longleftrightarrow> of_nat k \<in> fh_flowid ` set (entries lk)" by (rule ids_okD(3) [OF iok that])
    then show ?thesis unfolding nth_list_update_neq [OF False [symmetric]] .
  qed
  obtain avail where rep: "id16_rep ids avail (fh_flowid ` set (entries lk))" using ids_okD(1) [OF iok] by blast
  show ?thesis
  proof (rule ids_okI [OF rep ids_okD(2) [OF iok]])
    fix k assume "k < length (tbl[i := n])"
    then have "k < length tbl" by simp
    then show "active (tbl[i := n] ! k) \<longleftrightarrow> of_nat k \<in> fh_flowid ` set (entries lk)" by (rule act)
  qed (rule own)
qed

lemma queues_ok_update:
  assumes qok: "queues_ok s tbl qs" and i: "i < length tbl" and rep: "fq_rep s' (queue n) xs"
    and new: "set xs \<inter> (\<Union>k \<in> {..<length tbl} - {i}. set (qs ! k)) = {}"
    and link: "\<And>x. x \<in> (\<Union>k \<in> {..<length tbl} - {i}. set (qs ! k)) \<Longrightarrow> plink s' x = plink s x \<and> x \<notin> set (pfreed s')"
    and idle: "\<not> active n \<longrightarrow> xs = []"
  shows "queues_ok s' (tbl[i := n]) (qs[i := xs])"
proof -
  have len: "length qs = length tbl" using qok by (simp add: queues_ok_def)
  have q: "fq_rep s' (queue (tbl[i := n] ! k)) (qs[i := xs] ! k)" if k: "k < length tbl" for k
  proof (cases "k = i")
    case False
    have rk: "prec_rep s (as_prec (queue (tbl ! k))) (qs ! k)" "fq_rep s (queue (tbl ! k)) (qs ! k)"
      using qok k by (auto simp: queues_ok_def fq_rep_def)
    have "\<And>x. x \<in> set (qs ! k) \<Longrightarrow> plink s' x = plink s x \<and> x \<notin> set (pfreed s')" using link k False by blast
    then have "prec_rep s' (as_prec (queue (tbl ! k))) (qs ! k)" by (intro prec_rep_frame [OF rk(1)]) auto
    then show ?thesis using rk(2) False by (simp add: fq_rep_def)
  qed (use rep i len in simp)
  have dj: "set (qs[i := xs] ! k) \<inter> set (qs[i := xs] ! j) = {}"
    if "k < length tbl" "j < length tbl" "k \<noteq> j" for k j
  proof -
    have "set (qs ! k) \<inter> set (qs ! j) = {}" using qok that by (simp add: queues_ok_def)
    moreover have "set xs \<inter> set (qs ! m) = {}" if "m < length tbl" "m \<noteq> i" for m using new that by blast
    ultimately show ?thesis using that i len by (cases "k = i"; cases "j = i") auto
  qed
  have "\<not> active (tbl[i := n] ! k) \<longrightarrow> qs[i := xs] ! k = []" if "k < length tbl" for k
    using qok idle that len i by (cases "k = i") (simp_all add: queues_ok_def)
  then show ?thesis unfolding queues_ok_def using q dj len by simp
qed

lemma queues_ok_purge:
  assumes qok: "queues_ok s tbl qs" and i: "i < length tbl"
  shows "\<exists>s' q'. flow_queue_purge s (queue (tbl ! i)) = Some (s', q') \<and> DHD_FLOW_QUEUE_EMPTY q' \<and>
           pfreed s' = rev (qs ! i) @ pfreed s \<and>
           (\<forall>n. queue n = q' \<longrightarrow> queues_ok s' (tbl[i := n]) (qs[i := []]))"
proof -
  have rep: "fq_rep s (queue (tbl ! i)) (qs ! i)" using qok i by (simp add: queues_ok_def)
  obtain s' q' where r: "flow_queue_purge s (queue (tbl ! i)) = Some (s', q')" "fq_rep s' q' []"
      "pfreed s' = rev (qs ! i) @ pfreed s" "\<And>x. x \<notin> set (qs ! i) \<Longrightarrow> plink s' x = plink s x"
    using flow_queue_purge_rep [OF rep] by blast
  have keep: "plink s' x = plink s x \<and> x \<notin> set (pfreed s')"
    if x: "x \<in> (\<Union>k \<in> {..<length tbl} - {i}. set (qs ! k))" for x
  proof -
    obtain k where k: "k < length tbl" "k \<noteq> i" "x \<in> set (qs ! k)" using x by blast
    have "set (qs ! i) \<inter> set (qs ! k) = {}" "fq_rep s (queue (tbl ! k)) (qs ! k)"
      using qok i k(1,2) by (simp_all add: queues_ok_def)
    then show ?thesis using k(3) r(3,4) by (auto simp: fq_rep_def prec_rep_def)
  qed
  have "DHD_FLOW_QUEUE_EMPTY q'"
    using r(2) by (simp add: DHD_FLOW_QUEUE_EMPTY_def fq_rep_def prec_rep_def as_prec_def unat_eq_zero)
  moreover have "queues_ok s' (tbl[i := n]) (qs[i := []])" if "queue n = q'" for n
    by (rule queues_ok_update [OF qok i _ _ keep]) (use r(2) that in simp_all)
  ultimately show ?thesis using r(1,3) by blast
qed

end
