(* ===== verification/Flow_Ring_Life.thy ===== *)
theory Flow_Ring_Life
  imports Flow_Ring_Inv
begin

text \<open>
  The life of a flow ring: closing, opening, deleting and flushing rings, tear-down and set-up, each
  shown to return and to keep the invariant of \<open>Flow_Ring_Inv\<close>; then the steps the driver can take
  as an inductive relation, and the properties of the reachable states.
\<close>

section \<open>Closing a ring\<close>

text \<open>The table the invariant speaks of may be detached from \<open>dhd_pub\<close>, as it is during tear-down.\<close>

abbreviation with_table :: "dhd_pub \<Rightarrow> flow_ring_node list \<Rightarrow> dhd_pub" where
  "with_table d tbl \<equiv> d\<lparr>flow_ring_table := Some tbl\<rparr>"

lemma tables_ok_ring:
  assumes "tables_ok d ids tbl lk" and "i < length tbl"
  shows "flowid (tbl ! i) = of_nat i" and "unat (fi_ifindex (finfo (tbl ! i))) < 16" and "length lk = 16"
    and "flowid_allocator d = Some ids" and "get_ring d i = Some (tbl ! i)"
  using assms by (simp_all add: tables_ok_def get_ring_def)

lemma entry_home:
  assumes tok: "tables_ok d ids tbl lk" and iok: "ids_ok ids tbl lk" and i: "i < length tbl"
    and out: "of_nat i \<in> fh_flowid ` set (entries lk)"
  shows "of_nat i \<in> fh_flowid ` set (if_entries (lk ! unat (fi_ifindex (finfo (tbl ! i)))))"
proof -
  obtain e where e: "e \<in> set (entries lk)" "of_nat i = fh_flowid e" using out by blast
  then obtain l where "l \<in> set lk" "e \<in> set (if_entries l)" by (auto simp: entries_def)
  then obtain j where j: "j < length lk" "e \<in> set (if_entries (lk ! j))" by (metis in_set_conv_nth)
  have "unat (fh_flowid e) = i"
    using e(2) [symmetric] tables_ok_length [OF tok iok] i by (simp add: unat_of_nat16)
  then have "unat (fi_ifindex (finfo (tbl ! i))) = j" using ids_okD(4) [OF iok j] by simp
  then show ?thesis using e(2) j(2) by auto
qed

lemma id16_free_same:
  "id16_map_free m v = Some m' \<Longrightarrow> id_start m' = id_start m \<and> id_total m' = id_total m"
  by (auto simp: id16_map_free_def Let_def arr_set_def split: Option.bind_splits if_splits)

lemma flowid_free_inv:
  assumes tok: "tables_ok (with_table d tbl) ids tbl lk" and iok: "ids_ok ids tbl lk" and i: "i < length tbl"
    and n: "\<not> active n" "flowid n = of_nat i" "finfo n = finfo (tbl ! i)"
  shows "\<exists>ids' lk'. dhd_flowid_free d (fi_ifindex (finfo n)) (flowid n)
             = Some (d\<lparr>flowid_allocator := Some ids', if_lkup := Some lk'\<rparr>) \<and>
           tables_ok (with_table (d\<lparr>flowid_allocator := Some ids', if_lkup := Some lk'\<rparr>) (tbl[i := n])) ids' (tbl[i := n]) lk' \<and>
           ids_ok ids' (tbl[i := n]) lk' \<and> of_nat i \<notin> fh_flowid ` set (entries lk') \<and>
           fh_flowid ` set (entries lk') = fh_flowid ` set (entries lk) - {of_nat i}"
proof -
  let ?x = "fi_ifindex (finfo (tbl ! i))" and ?fid = "of_nat i :: u16"
  let ?l = "lk ! unat ?x"
  note r = tables_ok_ring [OF tok i]
  note t = tables_ok_if [OF tok r(2)]
  have g: "get_if d ?x = Some ?l" using t(1) by (simp add: get_if_def)
  have fu: "unat ?fid = i" using tables_ok_length [OF tok iok] i by (simp add: unat_of_nat16)
  have n_ok: "unat (fi_ifindex (finfo n)) < 16" using r(2) n(3) by simp
  have put: "tables_ok (with_table d' (tbl[i := n])) ids' (tbl[i := n]) lk'"
    if "tables_ok (with_table d' tbl) ids' tbl lk'" for d' ids' lk'
    using tables_ok_put_ring(1) [OF that i n(2) n_ok] by (simp add: put_ring_def)
  show ?thesis
  proof (cases "hash_remove ?fid (fl_hash ?l)")
    case None
    then have "?fid \<notin> fh_flowid ` set (if_entries ?l)" by (simp add: hash_remove_None if_entries_def)
    then have out: "?fid \<notin> fh_flowid ` set (entries lk)" using entry_home [OF tok iok i] by blast
    have "dhd_flowid_free d ?x ?fid = Some d" using g t(2) None by (simp add: dhd_flowid_free_def)
    moreover have "d\<lparr>flowid_allocator := Some ids, if_lkup := Some lk\<rparr> = d"
      using tok by (cases d) (simp add: tables_ok_def)
    moreover have "ids_ok ids (tbl[i := n]) lk" by (rule ids_ok_not_active [OF tok iok i out n(1)])
    ultimately show ?thesis
      using put [OF tok] out n(2,3) by (intro exI [of _ ids] exI [of _ lk]) simp
  next
    case (Some cs)
    let ?l' = "?l\<lparr>fl_hash := cs\<rparr>"
    obtain e where e: "fh_flowid e = ?fid" "mset (if_entries ?l) = add_mset e (mset (if_entries ?l'))"
        and len: "length cs = 256"
      using hash_remove_Some [OF Some] t(2) by (auto simp: if_entries_def)
    have es: "e \<in> set (entries lk)"
      using mset_add_distinct(2) [OF e(2)] if_entries_subset [OF t(3)] by auto
    obtain avail where rep: "id16_rep ids avail (fh_flowid ` set (entries lk))" using ids_okD(1) [OF iok] by blast
    obtain ids' where f: "id16_map_free ids ?fid = Some ids'"
        "id16_rep ids' (insert ?fid avail) (fh_flowid ` set (entries lk) - {?fid})"
      using id16_free_rep [OF rep, of ?fid] es e(1) by (metis image_eqI)
    let ?lk = "lk[unat ?x := ?l']"
    have free: "dhd_flowid_free d ?x ?fid = Some (d\<lparr>flowid_allocator := Some ids', if_lkup := Some ?lk\<rparr>)"
      using g t(2) Some f(1) tok by (simp add: dhd_flowid_free_def tables_ok_def put_if_def)
    have "tables_ok (put_if ((with_table d tbl)\<lparr>flowid_allocator := Some ids'\<rparr>) ?x ?l') ids' tbl ?lk"
      using id16_free_same [OF f(1)] len by (intro tables_ok_put_if tables_ok_put_ids [OF tok] r(2)) simp_all
    then have tok': "tables_ok (with_table (d\<lparr>flowid_allocator := Some ids', if_lkup := Some ?lk\<rparr>) tbl) ids' tbl ?lk"
      using tok by (simp add: put_if_def tables_ok_def)
    have eu: "unat (fh_flowid e) = i" using e(1) fu by simp
    note rem = ids_ok_remove [OF tok iok t(3) e(2) f(2) [folded e(1)] n(1) eu i]
    have "set (entries lk) = insert e (set (entries ?lk))"
      by (rule mset_add_distinct(2) [OF mset_remove_entry [OF t(3) e(2)]])
    then have "fh_flowid ` set (entries ?lk) = fh_flowid ` set (entries lk) - {?fid}"
      using rem(2) e(1) by auto
    then show ?thesis
      using free put [OF tok'] rem e(1) n(2,3) by (intro exI [of _ ids'] exI [of _ ?lk]) simp
  qed
qed

lemma clean_node_inv:
  assumes tok: "tables_ok (with_table d tbl) ids tbl lk" and iok: "ids_ok ids tbl lk"
    and qok: "queues_ok s tbl qs" and i: "i < length tbl"
  shows "\<exists>s' d' n' ids' lk'. clean_node s d i (tbl ! i) = Some (s', d', n') \<and>
           flow_ring_table d' = flow_ring_table d \<and>
           tables_ok (with_table d' (tbl[i := n'])) ids' (tbl[i := n']) lk' \<and>
           ids_ok ids' (tbl[i := n']) lk' \<and> queues_ok s' (tbl[i := n']) (qs[i := []]) \<and>
           \<not> active n' \<and> status n' = FLOW_RING_STATUS_CLOSED \<and> DHD_FLOW_QUEUE_EMPTY (queue n') \<and>
           pfreed s' = rev (qs ! i) @ pfreed s \<and>
           fh_flowid ` set (entries lk') = fh_flowid ` set (entries lk) - {of_nat i} \<and>
           d' = d\<lparr>ring_links := dll_delete (ring_links d) (ring_link i), flowid_allocator := Some ids', if_lkup := Some lk'\<rparr>"
proof -
  obtain s' q' where p: "flow_queue_purge s (queue (tbl ! i)) = Some (s', q')" "DHD_FLOW_QUEUE_EMPTY q'"
      "pfreed s' = rev (qs ! i) @ pfreed s" "\<forall>n. queue n = q' \<longrightarrow> queues_ok s' (tbl[i := n]) (qs[i := []])"
    using queues_ok_purge [OF qok i] by blast
  let ?n = "(tbl ! i)\<lparr>queue := q', status := FLOW_RING_STATUS_CLOSED, active := False\<rparr>"
  let ?d = "d\<lparr>ring_links := dll_delete (ring_links d) (ring_link i)\<rparr>"
  have "tables_ok (with_table ?d tbl) ids tbl lk" using tok by (simp add: tables_ok_def)
  note f = flowid_free_inv [OF this iok i, of ?n]
  obtain ids' lk' where "dhd_flowid_free ?d (fi_ifindex (finfo ?n)) (flowid ?n)
        = Some (?d\<lparr>flowid_allocator := Some ids', if_lkup := Some lk'\<rparr>)"
      "tables_ok (with_table (?d\<lparr>flowid_allocator := Some ids', if_lkup := Some lk'\<rparr>) (tbl[i := ?n])) ids' (tbl[i := ?n]) lk'"
      "ids_ok ids' (tbl[i := ?n]) lk'" "fh_flowid ` set (entries lk') = fh_flowid ` set (entries lk) - {of_nat i}"
    using f tables_ok_ring(1) [OF tok i] by auto
  then show ?thesis
    using p by (intro exI [of _ s'] exI [of _ "?d\<lparr>flowid_allocator := Some ids', if_lkup := Some lk'\<rparr>"]
        exI [of _ ?n] exI [of _ ids'] exI [of _ lk']) (simp add: clean_node_def Let_def)
qed

lemma clean_flow_ring_inv:
  assumes inv: "fr_inv s d qs" and i: "i < unat (num_flow_rings d)"
  shows "\<exists>s' d' n'. dhd_bus_clean_flow_ring s d i = Some (s', d') \<and> fr_inv s' d' (qs[i := []]) \<and>
           num_flow_rings d' = num_flow_rings d \<and> pfreed s' = rev (qs ! i) @ pfreed s \<and>
           get_ring d' i = Some n' \<and> \<not> active n' \<and> status n' = FLOW_RING_STATUS_CLOSED"
proof -
  obtain ids tbl lk where tok: "tables_ok d ids tbl lk" and iok: "ids_ok ids tbl lk" and qok: "queues_ok s tbl qs"
    using inv by (auto simp: fr_inv_def)
  have il: "i < length tbl" and tb: "flow_ring_table d = Some tbl" using tok i by (simp_all add: tables_ok_def)
  then have wt: "with_table d tbl = d" by (cases d) simp
  obtain s' d' n' ids' lk' where c: "clean_node s d i (tbl ! i) = Some (s', d', n')"
      "flow_ring_table d' = Some tbl" "tables_ok (with_table d' (tbl[i := n'])) ids' (tbl[i := n']) lk'"
      "ids_ok ids' (tbl[i := n']) lk'" "queues_ok s' (tbl[i := n']) (qs[i := []])"
      "\<not> active n'" "status n' = FLOW_RING_STATUS_CLOSED" "pfreed s' = rev (qs ! i) @ pfreed s"
      "num_flow_rings d' = num_flow_rings d"
    using clean_node_inv [where d = d and tbl = tbl and ids = ids and lk = lk and s = s and qs = qs and i = i] tok iok qok il tb unfolding wt by auto
  have put: "put_ring d' i n' = with_table d' (tbl[i := n'])" using c(2) by (simp add: put_ring_def)
  have "fr_inv s' (put_ring d' i n') (qs[i := []])" unfolding put fr_inv_def using c(3-5) by blast
  moreover have "dhd_bus_clean_flow_ring s d i = Some (s', put_ring d' i n')"
    using tables_ok_ring(5) [OF tok il] c(1) by (simp add: dhd_bus_clean_flow_ring_def)
  ultimately show ?thesis using c(6-9) il by (auto simp: put get_ring_def)
qed

section \<open>Changing a ring\<close>

lemma get_ring_put:
  "get_ring d i = Some m \<Longrightarrow> get_ring (put_ring d i n) j = (if j = i then Some n else get_ring d j)"
  by (auto simp: get_ring_def put_ring_def arr_get_def split: Option.bind_splits if_splits)

lemma put_ring_fields [simp]:
  "num_flow_rings (put_ring d i n) = num_flow_rings d" "if_lkup (put_ring d i n) = if_lkup d"
  "tdls_peers (put_ring d i n) = tdls_peers d" "tdls_peer_count (put_ring d i n) = tdls_peer_count d"
  by (simp_all add: put_ring_def)

lemma fr_inv_links: "fr_inv s (d\<lparr>ring_links := M\<rparr>) qs \<longleftrightarrow> fr_inv s d qs"
  by (simp add: fr_inv_def tables_ok_def)

lemma fr_inv_length: "fr_inv s d qs \<Longrightarrow> length qs = unat (num_flow_rings d)"
  by (auto simp: fr_inv_def tables_ok_def queues_ok_def)

lemma fr_inv_ring:
  assumes inv: "fr_inv s d qs" and i: "i < unat (num_flow_rings d)"
  obtains n where "get_ring d i = Some n" and "flowid n = of_nat i" and "fq_rep s (queue n) (qs ! i)"
    and "\<not> active n \<longrightarrow> qs ! i = []"
proof -
  obtain ids tbl lk where tok: "tables_ok d ids tbl lk" and qok: "queues_ok s tbl qs"
    using inv by (auto simp: fr_inv_def)
  have il: "i < length tbl" using tok i by (simp add: tables_ok_def)
  show thesis
    by (rule that [of "tbl ! i"]) (use tables_ok_ring [OF tok il] qok il in \<open>simp_all add: queues_ok_def\<close>)
qed

text \<open>The packets on the queues of the other rings.\<close>

definition other_pkts :: "pkt list list \<Rightarrow> nat \<Rightarrow> pkt set" where
  "other_pkts qs i = (\<Union>k \<in> {..<length qs} - {i}. set (qs ! k))"

lemma queued_live:
  assumes "fr_inv s d qs" and "k < length qs" and "x \<in> set (qs ! k)"
  shows "x \<notin> set (pfreed s)"
  using assms by (auto simp: fr_inv_def queues_ok_def fq_rep_def prec_rep_def)

lemma other_pkts_live: "fr_inv s d qs \<Longrightarrow> x \<in> other_pkts qs i \<Longrightarrow> x \<notin> set (pfreed s)"
  using queued_live by (auto simp: other_pkts_def)

lemma other_pkts_disjoint:
  assumes "fr_inv s d qs" and "i < length qs"
  shows "set (qs ! i) \<inter> other_pkts qs i = {}"
  using assms unfolding fr_inv_def queues_ok_def other_pkts_def by fastforce

text \<open>A ring may change its queue and its status, as long as its new queue shares no packet with others.\<close>

lemma fr_inv_swap:
  assumes inv: "fr_inv s d qs" and g: "get_ring d i = Some n"
    and n': "active n' = active n" "finfo n' = finfo n" "flowid n' = flowid n" and q: "fq_rep s' (queue n') xs"
    and dj: "set xs \<inter> other_pkts qs i = {}"
    and keep: "\<And>x. x \<in> other_pkts qs i \<Longrightarrow> plink s' x = plink s x \<and> x \<notin> set (pfreed s')"
    and idle: "\<not> active n \<longrightarrow> xs = []"
  shows "fr_inv s' (put_ring d i n') (qs[i := xs])"
proof -
  obtain ids tbl lk where tok: "tables_ok d ids tbl lk" and iok: "ids_ok ids tbl lk" and qok: "queues_ok s tbl qs"
    using inv by (auto simp: fr_inv_def)
  have il: "i < length tbl" and n: "n = tbl ! i"
    using g tok by (auto simp: tables_ok_def get_ring_def arr_get_def split: if_splits)
  have len: "length qs = length tbl" using qok by (simp add: queues_ok_def)
  have "tables_ok (put_ring d i n') ids (tbl[i := n']) lk"
    by (rule tables_ok_put_ring(1) [OF tok il]) (use tables_ok_ring [OF tok il] n' n in simp_all)
  moreover have "ids_ok ids (tbl[i := n']) lk" by (rule ids_ok_same [OF iok il]) (use n' n in simp_all)
  moreover have "queues_ok s' (tbl[i := n']) (qs[i := xs])"
    using queues_ok_update [OF qok il q] dj keep idle n' len by (simp add: other_pkts_def)
  ultimately show ?thesis unfolding fr_inv_def by blast
qed

lemma fr_inv_same:
  assumes inv: "fr_inv s d qs" and g: "get_ring d i = Some n" and i: "i < unat (num_flow_rings d)"
    and n': "active n' = active n" "finfo n' = finfo n" "flowid n' = flowid n" and q: "fq_rep s (queue n') (qs ! i)"
  shows "fr_inv s (put_ring d i n') qs"
proof -
  have "\<not> active n \<longrightarrow> qs ! i = []" using fr_inv_ring [OF inv i] g by auto
  moreover have "i < length qs" using fr_inv_length [OF inv] i by simp
  ultimately have "fr_inv s (put_ring d i n') (qs[i := qs ! i])"
    using other_pkts_live [OF inv] by (intro fr_inv_swap [OF inv g n' q] other_pkts_disjoint [OF inv]) auto
  then show ?thesis by simp
qed

section \<open>Traffic\<close>

text \<open>A packet the driver may queue: it is alive and on no backup queue.\<close>

definition pkt_idle :: "pkt_store \<Rightarrow> pkt list list \<Rightarrow> pkt \<Rightarrow> bool" where
  "pkt_idle s qs p \<longleftrightarrow> p \<notin> set (pfreed s) \<and> p \<notin> set (concat qs)"

lemma pkt_idle_not_queued: "pkt_idle s qs p \<Longrightarrow> i < length qs \<Longrightarrow> p \<notin> set (qs ! i)" "pkt_idle s qs p \<Longrightarrow> p \<notin> other_pkts qs i"
  by (auto simp: pkt_idle_def other_pkts_def)

lemma schedule_loop_rep:
  "fq_rep s q xs \<Longrightarrow>
   \<exists>s' q' k ret'. schedule_loop prot s q lg ret = Some (s', q', lg @ take k xs, ret') \<and> fq_rep s' q' (drop k xs) \<and>
     pfreed s' = pfreed s \<and> (\<forall>x. x \<notin> set xs \<longrightarrow> plink s' x = plink s x) \<and>
     (k < length xs \<longrightarrow> prot (lg @ take k xs) (xs ! k) \<noteq> BCME_OK)"
proof (induction xs arbitrary: s q lg ret)
  case Nil
  then show ?case by (subst schedule_loop.simps) (simp add: fq_dequeue_empty)
next
  case (Cons p xs)
  obtain s1 q1 where s1: "dhd_flow_queue_dequeue s q = Some (s1, q1, Some p)" "fq_rep s1 q1 xs"
      "pfreed s1 = pfreed s" "plink s1 = (plink s)(p := None)"
    using fq_dequeue_rep [OF Cons.prems] by blast
  show ?case
  proof (cases "prot lg p = BCME_OK")
    case True
    from Cons.IH [OF s1(2), of "lg @ [p]" BCME_OK]
    obtain s' q' k ret' where r: "schedule_loop prot s1 q1 (lg @ [p]) BCME_OK = Some (s', q', (lg @ [p]) @ take k xs, ret')"
        "fq_rep s' q' (drop k xs)" "pfreed s' = pfreed s1" "\<forall>x. x \<notin> set xs \<longrightarrow> plink s' x = plink s1 x"
        "k < length xs \<longrightarrow> prot ((lg @ [p]) @ take k xs) (xs ! k) \<noteq> BCME_OK"
      by blast
    have "schedule_loop prot s q lg ret = Some (s', q', lg @ take (Suc k) (p # xs), ret')"
      using s1(1) r(1) True by (subst schedule_loop.simps) simp
    then show ?thesis using r(2-5) s1(3,4) by (intro exI [of _ s'] exI [of _ q'] exI [of _ "Suc k"] exI [of _ ret']) auto
  next
    case False
    have p: "p \<notin> set xs" "p \<notin> set (pfreed s1)" and len: "length xs < 65535"
      using Cons.prems s1(3) unat_u16_less [of "fq_len q"] by (auto simp: fq_rep_def prec_rep_def as_prec_def)
    from fq_reinsert_rep [OF s1(2) len p]
    obtain s' q' where r: "dhd_flow_queue_reinsert s1 q1 (Some p) = Some (s', q')" "fq_rep s' q' (p # xs)"
        "pfreed s' = pfreed s1" "\<forall>x. x \<noteq> p \<longrightarrow> plink s' x = plink s1 x" by blast
    have "schedule_loop prot s q lg ret = Some (s', q', lg @ take 0 (p # xs), BCME_OK)"
      using s1(1) r(1) False by (subst schedule_loop.simps) simp
    then show ?thesis using r(2-4) s1(3,4) False by (intro exI [of _ s'] exI [of _ q'] exI [of _ 0] exI [of _ BCME_OK]) auto
  qed
qed

lemma fr_inv_log: "fr_inv s (d\<lparr>tx_log := lg\<rparr>) qs \<longleftrightarrow> fr_inv s d qs"
  by (simp add: fr_inv_def tables_ok_def)

lemma schedule_inv:
  assumes inv: "fr_inv s d qs" and i: "unat fid < unat (num_flow_rings d)"
  shows "\<exists>s' d' ret k. dhd_bus_schedule_queue prot s d fid = Some (s', d', ret) \<and>
           fr_inv s' d' (qs[unat fid := drop k (qs ! unat fid)]) \<and> tx_log d' = tx_log d @ take k (qs ! unat fid) \<and>
           pfreed s' = pfreed s \<and> num_flow_rings d' = num_flow_rings d \<and>
           (\<forall>n. get_ring d (unat fid) = Some n \<longrightarrow> (\<exists>n'. get_ring d' (unat fid) = Some n' \<and> active n' = active n \<and> status n' = status n) \<and>
              (if status n = FLOW_RING_STATUS_OPEN
               then k < length (qs ! unat fid) \<longrightarrow> prot (tx_log d') (qs ! unat fid ! k) \<noteq> BCME_OK else k = 0))"
proof -
  have il: "unat fid < length qs" using fr_inv_length [OF inv] i by simp
  have mx: "\<not> unat (max_sub_queues d) \<le> unat fid" using inv i by (auto simp: fr_inv_def tables_ok_def)
  obtain n where g: "get_ring d (unat fid) = Some n" and q: "fq_rep s (queue n) (qs ! unat fid)"
      and idle: "\<not> active n \<longrightarrow> qs ! unat fid = []"
    by (rule fr_inv_ring [OF inv i]) blast
  show ?thesis
  proof (cases "status n = FLOW_RING_STATUS_OPEN")
    case False
    then have "dhd_bus_schedule_queue prot s d fid = Some (s, d, BCME_NOTREADY)"
      using g mx by (simp add: dhd_bus_schedule_queue_def)
    then show ?thesis using inv g False by (intro exI [of _ s] exI [of _ d] exI [of _ BCME_NOTREADY] exI [of _ 0]) simp
  next
    case True
    from schedule_loop_rep [OF q, of prot "tx_log d" BCME_OK]
    obtain s' q' k ret where r: "schedule_loop prot s (queue n) (tx_log d) BCME_OK = Some (s', q', tx_log d @ take k (qs ! unat fid), ret)"
        "fq_rep s' q' (drop k (qs ! unat fid))" "pfreed s' = pfreed s"
        "\<forall>x. x \<notin> set (qs ! unat fid) \<longrightarrow> plink s' x = plink s x"
        "k < length (qs ! unat fid) \<longrightarrow> prot (tx_log d @ take k (qs ! unat fid)) (qs ! unat fid ! k) \<noteq> BCME_OK" by blast
    let ?d = "d\<lparr>tx_log := tx_log d @ take k (qs ! unat fid)\<rparr>" and ?n = "n\<lparr>queue := q'\<rparr>"
    have g': "get_ring ?d (unat fid) = Some n" using g by (simp add: get_ring_def)
    have dj: "set (qs ! unat fid) \<inter> other_pkts qs (unat fid) = {}" by (rule other_pkts_disjoint [OF inv il])
    have "fr_inv s' (put_ring ?d (unat fid) ?n) (qs[unat fid := drop k (qs ! unat fid)])"
    proof (rule fr_inv_swap [where s = s and n = n])
      show "fr_inv s ?d qs" using inv by (simp add: fr_inv_log)
      show "set (drop k (qs ! unat fid)) \<inter> other_pkts qs (unat fid) = {}"
        using dj set_drop_subset [of k "qs ! unat fid"] by blast
      show "plink s' x = plink s x \<and> x \<notin> set (pfreed s')" if "x \<in> other_pkts qs (unat fid)" for x
        using that dj r(3,4) other_pkts_live [OF inv that] by auto
    qed (use g' r(2) idle in simp_all)
    moreover have "dhd_bus_schedule_queue prot s d fid = Some (s', put_ring ?d (unat fid) ?n, ret)"
      using g mx True r(1) by (simp add: dhd_bus_schedule_queue_def)
    moreover have "tx_log (put_ring ?d (unat fid) ?n) = tx_log d @ take k (qs ! unat fid)" by (simp add: put_ring_def)
    ultimately show ?thesis
      using r(3,5) g True get_ring_put [OF g', of ?n "unat fid"]
      by (intro exI [of _ s'] exI [of _ "put_ring ?d (unat fid) ?n"] exI [of _ ret] exI [of _ k]) simp
  qed
qed

lemma enqueue_ring_inv:
  assumes inv: "fr_inv s d qs" and g: "get_ring d i = Some n" and i: "i < unat (num_flow_rings d)"
    and act: "active n" and p: "pkt_idle s qs p"
  obtains (full) q' ret where "dhd_flow_queue_enqueue s (queue n) (Some p) = Some (s, q', ret)" and "ret \<noteq> BCME_OK"
      and "fr_inv s (put_ring d i (n\<lparr>queue := q'\<rparr>)) qs"
  | (room) s' q' where "dhd_flow_queue_enqueue s (queue n) (Some p) = Some (s', q', BCME_OK)"
      and "fr_inv s' (put_ring d i (n\<lparr>queue := q'\<rparr>)) (qs[i := qs ! i @ [p]])" and "pfreed s' = pfreed s"
proof -
  have il: "i < length qs" using fr_inv_length [OF inv] i by simp
  have q: "fq_rep s (queue n) (qs ! i)" using fr_inv_ring [OF inv i] g by auto
  have dj: "set (qs ! i) \<inter> other_pkts qs i = {}" by (rule other_pkts_disjoint [OF inv il])
  show thesis
  proof (cases "DHD_FLOW_QUEUE_FULL (queue n)")
    case True
    let ?q = "(queue n)\<lparr>fq_failures := fq_failures (queue n) + 1\<rparr>"
    have "fq_rep s ?q (qs ! i)" using q by (simp add: fq_rep_def as_prec_def)
    then have "fr_inv s (put_ring d i (n\<lparr>queue := ?q\<rparr>)) qs" by (intro fr_inv_same [OF inv g i]) simp_all
    moreover have "fq_cb (queue n) (Some p) \<noteq> BCME_OK" using q by (simp add: fq_rep_def)
    ultimately show thesis
      using full True by (simp add: dhd_flow_queue_enqueue_def dhd_flow_queue_throttle_def)
  next
    case False
    obtain s' q' where e: "dhd_flow_queue_enqueue s (queue n) (Some p) = Some (s', q', BCME_OK)"
        "fq_rep s' q' (qs ! i @ [p])" "pfreed s' = pfreed s"
        "\<forall>x. x \<notin> set (qs ! i) \<longrightarrow> x \<noteq> p \<longrightarrow> plink s' x = plink s x"
      using fq_enqueue_rep [OF q False pkt_idle_not_queued(1) [OF p il]] p by (auto simp: pkt_idle_def)
    have "fr_inv s' (put_ring d i (n\<lparr>queue := q'\<rparr>)) (qs[i := qs ! i @ [p]])"
    proof (rule fr_inv_swap [OF inv g])
      show "set (qs ! i @ [p]) \<inter> other_pkts qs i = {}" using dj pkt_idle_not_queued(2) [OF p] by auto
      show "plink s' x = plink s x \<and> x \<notin> set (pfreed s')" if "x \<in> other_pkts qs i" for x
        using that dj e(3,4) other_pkts_live [OF inv that] pkt_idle_not_queued(2) [OF p] by auto
    qed (use e(2) act in simp_all)
    then show thesis using room e(1,3) by blast
  qed
qed

lemma fr_inv_free:
  assumes inv: "fr_inv s d qs" and p: "pkt_idle s qs p"
  shows "fr_inv (s\<lparr>pfreed := p # pfreed s\<rparr>) d qs"
proof -
  have "fq_rep (s\<lparr>pfreed := p # pfreed s\<rparr>) q (qs ! i)" if "fq_rep s q (qs ! i)" "i < length qs" for q i
    using that pkt_idle_not_queued(1) [OF p that(2)] by (simp add: fq_rep_def prec_rep_def)
  then have "queues_ok (s\<lparr>pfreed := p # pfreed s\<rparr>) tbl qs" if "queues_ok s tbl qs" for tbl
    using that by (simp add: queues_ok_def)
  then show ?thesis using inv unfolding fr_inv_def by blast
qed

lemma toss_inv:
  assumes "fr_inv s d qs" and p: "pkt_idle s qs p"
  shows "toss s d p ret = Some (s\<lparr>pfreed := p # pfreed s\<rparr>, d, ret)" and "fr_inv (s\<lparr>pfreed := p # pfreed s\<rparr>) d qs"
  using fr_inv_free [OF assms] p by (simp_all add: toss_def pkt_idle_def)

text \<open>
  What becomes of a packet given to \<open>dhd_bus_txdata\<close>: either it joins the end of the stream of packets
  sent and queued, or it is freed and the stream is as before; other rings are not touched.
\<close>

definition tx_outcome ::
  "pkt_store \<Rightarrow> dhd_pub \<Rightarrow> pkt list list \<Rightarrow> nat \<Rightarrow> pkt \<Rightarrow> (pkt_store \<times> dhd_pub \<times> int) option \<Rightarrow> bool" where
  "tx_outcome s d qs i p r \<longleftrightarrow> (\<exists>s' d' ret qs'. r = Some (s', d', ret) \<and> fr_inv s' d' qs' \<and>
     (\<forall>k. k \<noteq> i \<longrightarrow> qs' ! k = qs ! k) \<and>
     (pfreed s' = pfreed s \<and> tx_log d' @ qs' ! i = tx_log d @ qs ! i @ [p] \<or>
      pfreed s' = p # pfreed s \<and> tx_log d' @ qs' ! i = tx_log d @ qs ! i))"

lemma tx_outcome_sent:
  assumes "fr_inv s' d' qs'" and "\<And>k. k \<noteq> i \<Longrightarrow> qs' ! k = qs ! k" and "pfreed s' = pfreed s"
    and "tx_log d' @ qs' ! i = tx_log d @ qs ! i @ [p]"
  shows "tx_outcome s d qs i p (Some (s', d', ret))"
  using assms unfolding tx_outcome_def by blast

lemma tx_outcome_toss:
  assumes "fr_inv s' d' qs'" and "pkt_idle s' qs' p" and "\<And>k. k \<noteq> i \<Longrightarrow> qs' ! k = qs ! k" and "pfreed s' = pfreed s"
    and "tx_log d' @ qs' ! i = tx_log d @ qs ! i"
  shows "tx_outcome s d qs i p (toss s' d' p ret)"
  unfolding tx_outcome_def toss_inv(1) [OF assms(1,2)] using toss_inv(2) [OF assms(1,2)] assms(3-5)
  by (intro exI [of _ "s'\<lparr>pfreed := p # pfreed s'\<rparr>"] exI [of _ d'] exI [of _ ret] exI [of _ qs']) simp

lemma put_ring_log [simp]: "tx_log (put_ring d j m) = tx_log d"
  by (simp add: put_ring_def)

lemma pkt_idle_drop:
  assumes "pkt_idle s qs p" and "i < length qs" and "pfreed s' = pfreed s"
  shows "pkt_idle s' (qs[i := drop k (qs ! i)]) p"
proof -
  have "set (qs[i := drop k (qs ! i)]) \<subseteq> insert (drop k (qs ! i)) (set qs)" by (rule set_update_subset_insert)
  then show ?thesis
    using assms set_drop_subset [of k "qs ! i"] nth_mem [OF assms(2)] by (fastforce simp: pkt_idle_def)
qed

text \<open>The queue was full and the ring is open: send what the ring takes, then try again.\<close>

lemma txdata_retry:
  assumes inv: "fr_inv s d qs" and i: "unat fid < unat (num_flow_rings d)" and p: "pkt_idle s qs p"
    and g: "get_ring d (unat fid) = Some n" and act: "active n"
  shows "tx_outcome s d qs (unat fid) p (do {
           (s, d, ret) \<leftarrow> dhd_bus_schedule_queue prot s d fid;
           n \<leftarrow> get_ring d (unat fid);
           (s, q, ret) \<leftarrow> dhd_flow_queue_enqueue s (queue n) (Some p);
           let d = put_ring d (unat fid) (n\<lparr>queue := q\<rparr>);
           if ret \<noteq> BCME_OK then toss s d p ret else Some (s, d, ret) })"
proof -
  have il: "unat fid < length qs" using fr_inv_length [OF inv] i by simp
  from schedule_inv [OF inv i, of prot] g
  obtain s2 d2 ret2 k n2 where r: "dhd_bus_schedule_queue prot s d fid = Some (s2, d2, ret2)"
      "fr_inv s2 d2 (qs[unat fid := drop k (qs ! unat fid)])" "tx_log d2 = tx_log d @ take k (qs ! unat fid)"
      "pfreed s2 = pfreed s" "num_flow_rings d2 = num_flow_rings d" "get_ring d2 (unat fid) = Some n2" "active n2"
    using act by (auto split: if_splits)
  have p2: "pkt_idle s2 (qs[unat fid := drop k (qs ! unat fid)]) p" by (rule pkt_idle_drop [OF p il r(4)])
  have "unat fid < unat (num_flow_rings d2)" using i r(5) by simp
  from r(2,6) this r(7) p2 show ?thesis
  proof (cases rule: enqueue_ring_inv)
    case (full q3 ret3)
    have "tx_outcome s d qs (unat fid) p (toss s2 (put_ring d2 (unat fid) (n2\<lparr>queue := q3\<rparr>)) p ret3)"
      by (rule tx_outcome_toss [OF full(3) p2]) (use r(3,4) il in simp_all)
    then show ?thesis using r(1,6) full(1,2) by simp
  next
    case (room s3 q3)
    have "tx_outcome s d qs (unat fid) p (Some (s3, put_ring d2 (unat fid) (n2\<lparr>queue := q3\<rparr>), BCME_OK))"
      by (rule tx_outcome_sent [OF room(2)]) (use r(3,4) room(3) il in simp_all)
    then show ?thesis using r(1,6) room(1) by simp
  qed
qed

lemma txdata_inv:
  assumes inv: "fr_inv s d qs" and i: "unat fid < unat (num_flow_rings d)" and p: "pkt_idle s qs p"
  shows "tx_outcome s d qs (unat fid) p (dhd_bus_txdata prot s d fid p)"
proof -
  have il: "unat fid < length qs" using fr_inv_length [OF inv] i by simp
  obtain ids where al: "flowid_allocator d = Some ids" using inv by (auto simp: fr_inv_def tables_ok_def)
  obtain n where g: "get_ring d (unat fid) = Some n" by (rule fr_inv_ring [OF inv i])
  show ?thesis
  proof (cases "\<not> active n \<or> status n = FLOW_RING_STATUS_DELETE_PENDING \<or> status n = FLOW_RING_STATUS_STA_FREEING")
    case True
    then have "dhd_bus_txdata prot s d fid p = toss s d p BCME_ERROR" using al g by (auto simp: dhd_bus_txdata_def)
    then show ?thesis using tx_outcome_toss [OF inv p] by simp
  next
    case ok: False
    then have act: "active n" by simp
    from inv g i act p show ?thesis
    proof (cases rule: enqueue_ring_inv)
      case (full q' ret)
      let ?d1 = "put_ring d (unat fid) (n\<lparr>queue := q'\<rparr>)"
      have g1: "get_ring ?d1 (unat fid) = Some (n\<lparr>queue := q'\<rparr>)" using get_ring_put [OF g] by simp
      have toss: "tx_outcome s d qs (unat fid) p (toss s ?d1 p ret)" by (rule tx_outcome_toss [OF full(3) p]) simp_all
      have retry: "tx_outcome s ?d1 qs (unat fid) p r \<Longrightarrow> tx_outcome s d qs (unat fid) p r" for r
        by (simp add: tx_outcome_def)
      show ?thesis
        using toss retry [OF txdata_retry [OF full(3) _ p g1, of prot]] al g ok i full(1,2)
        by (simp add: dhd_bus_txdata_def Let_def)
    next
      case (room s' q')
      let ?d1 = "put_ring d (unat fid) (n\<lparr>queue := q'\<rparr>)" and ?qs1 = "qs[unat fid := qs ! unat fid @ [p]]"
      have i1: "unat fid < unat (num_flow_rings ?d1)" using i by simp
      obtain s2 d2 ret2 k where r: "dhd_bus_schedule_queue prot s' ?d1 fid = Some (s2, d2, ret2)"
          "fr_inv s2 d2 (?qs1[unat fid := drop k (?qs1 ! unat fid)])" "tx_log d2 = tx_log ?d1 @ take k (?qs1 ! unat fid)"
          "pfreed s2 = pfreed s'"
        using schedule_inv [OF room(2) i1, of prot] by blast
      have queued: "tx_outcome s d qs (unat fid) p (Some (s', ?d1, BCME_OK))"
        by (rule tx_outcome_sent [OF room(2)]) (use room(3) il in simp_all)
      have sent: "tx_outcome s d qs (unat fid) p (Some (s2, d2, ret2))"
        by (rule tx_outcome_sent [OF r(2)]) (use r(3,4) room(3) il in \<open>simp_all del: take_append drop_append\<close>)
      show ?thesis using queued sent al g ok i room(1) r(1) by (simp add: dhd_bus_txdata_def Let_def)
    qed
  qed
qed

section \<open>Opening, deleting and flushing a ring\<close>

lemma set_status_inv:
  assumes inv: "fr_inv s d qs" and i: "unat fid < unat (num_flow_rings d)"
  obtains n where "get_ring d (unat fid) = Some n" and "flowid n = fid"
    and "fr_inv s (put_ring d (unat fid) (n\<lparr>status := st\<rparr>)) qs"
proof -
  obtain n where n: "get_ring d (unat fid) = Some n" "flowid n = of_nat (unat fid)" "fq_rep s (queue n) (qs ! unat fid)"
    by (rule fr_inv_ring [OF inv i])
  moreover have "fr_inv s (put_ring d (unat fid) (n\<lparr>status := st\<rparr>)) qs"
    by (rule fr_inv_same [OF inv n(1) i]) (use n(3) in simp_all)
  ultimately show thesis using that by simp
qed

lemma create_response_inv:
  assumes inv: "fr_inv s d qs" and i: "unat fid < unat (num_flow_rings d)"
  shows "\<exists>s' d' qs'. dhd_bus_flow_ring_create_response prot s d fid resp = Some (s', d') \<and> fr_inv s' d' qs'"
proof -
  obtain n where n: "get_ring d (unat fid) = Some n" "flowid n = fid"
      "fr_inv s (put_ring d (unat fid) (n\<lparr>status := FLOW_RING_STATUS_OPEN\<rparr>)) qs"
    by (rule set_status_inv [OF inv i])
  let ?d = "put_ring d (unat fid) (n\<lparr>status := FLOW_RING_STATUS_OPEN\<rparr>)"
  let ?d1 = "?d\<lparr>ring_links := dll_prepend (ring_links ?d) const_flowring (ring_link (unat fid))\<rparr>"
  have "fr_inv s ?d1 qs" using n(3) by (simp add: fr_inv_links)
  from schedule_inv [OF this, of fid prot] i
  obtain s' d' ret qs' where "dhd_bus_schedule_queue prot s ?d1 fid = Some (s', d', ret)" "fr_inv s' d' qs'" by auto
  then show ?thesis
    using n clean_flow_ring_inv [OF inv i]
    by (cases "resp = BCME_OK") (auto simp: dhd_bus_flow_ring_create_response_def Let_def)
qed

lemma delete_response_inv:
  assumes inv: "fr_inv s d qs" and i: "unat fid < unat (num_flow_rings d)"
  shows "\<exists>s' d' qs'. dhd_bus_flow_ring_delete_response s d fid resp = Some (s', d') \<and> fr_inv s' d' qs'"
proof -
  obtain n where "get_ring d (unat fid) = Some n" "flowid n = fid" by (rule fr_inv_ring [OF inv i]) simp
  then show ?thesis
    using clean_flow_ring_inv [OF inv i] inv by (auto simp: dhd_bus_flow_ring_delete_response_def)
qed

lemma flush_response_inv:
  assumes inv: "fr_inv s d qs" and i: "unat fid < unat (num_flow_rings d)"
  shows "\<exists>d'. dhd_bus_flow_ring_flush_response d fid resp = Some d' \<and> fr_inv s d' qs"
proof -
  obtain n where "get_ring d (unat fid) = Some n" "flowid n = fid"
      "fr_inv s (put_ring d (unat fid) (n\<lparr>status := FLOW_RING_STATUS_OPEN\<rparr>)) qs"
    by (rule set_status_inv [OF inv i])
  then show ?thesis using inv by (auto simp: dhd_bus_flow_ring_flush_response_def)
qed

text \<open>Dropping a ring's packets, which the delete and the flush request share.\<close>

lemma purge_ring:
  assumes inv: "fr_inv s d qs" and i: "i < unat (num_flow_rings d)"
  obtains n s' q' where "get_ring d i = Some n" "flow_queue_purge s (queue n) = Some (s', q')"
    "DHD_FLOW_QUEUE_EMPTY q'" "pfreed s' = rev (qs ! i) @ pfreed s"
    "\<And>st. fr_inv s' (put_ring d i (n\<lparr>queue := q', status := st\<rparr>)) (qs[i := []])"
proof -
  obtain ids tbl lk where tok: "tables_ok d ids tbl lk" and iok: "ids_ok ids tbl lk" and qok: "queues_ok s tbl qs"
    using inv by (auto simp: fr_inv_def)
  have il: "i < length tbl" using tok i by (simp add: tables_ok_def)
  note r = tables_ok_ring [OF tok il]
  obtain s' q' where p: "flow_queue_purge s (queue (tbl ! i)) = Some (s', q')" "DHD_FLOW_QUEUE_EMPTY q'"
      "pfreed s' = rev (qs ! i) @ pfreed s" "\<forall>n. queue n = q' \<longrightarrow> queues_ok s' (tbl[i := n]) (qs[i := []])"
    using queues_ok_purge [OF qok il] by blast
  have "fr_inv s' (put_ring d i ((tbl ! i)\<lparr>queue := q', status := st\<rparr>)) (qs[i := []])" for st
  proof -
    let ?n = "(tbl ! i)\<lparr>queue := q', status := st\<rparr>"
    have "tables_ok (put_ring d i ?n) ids (tbl[i := ?n]) lk"
      by (rule tables_ok_put_ring(1) [OF tok il]) (use r in simp_all)
    moreover have "ids_ok ids (tbl[i := ?n]) lk" by (rule ids_ok_same [OF iok il]) simp_all
    moreover have "queues_ok s' (tbl[i := ?n]) (qs[i := []])" using p(4) by simp
    ultimately show ?thesis unfolding fr_inv_def by blast
  qed
  then show thesis using that r(5) p(1-3) by blast
qed

lemma flush_request_inv:
  assumes inv: "fr_inv s d qs" and i: "i < unat (num_flow_rings d)"
  shows "\<exists>s' d'. dhd_bus_flow_ring_flush_request s d i = Some (s', d', BCME_OK) \<and> fr_inv s' d' (qs[i := []])"
proof -
  obtain n s' q' where "get_ring d i = Some n" "flow_queue_purge s (queue n) = Some (s', q')"
    "DHD_FLOW_QUEUE_EMPTY q'" "\<And>st. fr_inv s' (put_ring d i (n\<lparr>queue := q', status := st\<rparr>)) (qs[i := []])"
    by (rule purge_ring [OF inv i]) blast
  then show ?thesis by (simp add: dhd_bus_flow_ring_flush_request_def)
qed

lemma delete_request_inv:
  assumes inv: "fr_inv s d qs" and i: "i < unat (num_flow_rings d)"
  shows "\<exists>s' d' ret qs' n n'. dhd_bus_flow_ring_delete_request s d i = Some (s', d', ret) \<and> fr_inv s' d' qs' \<and>
           get_ring d i = Some n \<and> get_ring d' i = Some n' \<and> status n' = FLOW_RING_STATUS_DELETE_PENDING \<and>
           active n' = active n \<and> finfo n' = finfo n \<and> (\<forall>j. j \<noteq> i \<longrightarrow> get_ring d' j = get_ring d j) \<and>
           num_flow_rings d' = num_flow_rings d"
proof -
  obtain n s' q' where n: "get_ring d i = Some n" "flow_queue_purge s (queue n) = Some (s', q')"
    "DHD_FLOW_QUEUE_EMPTY q'" "\<And>st. fr_inv s' (put_ring d i (n\<lparr>queue := q', status := st\<rparr>)) (qs[i := []])"
    by (rule purge_ring [OF inv i]) blast
  show ?thesis
  proof (cases "status n = FLOW_RING_STATUS_DELETE_PENDING")
    case True
    then show ?thesis using n(1) inv by (auto simp: dhd_bus_flow_ring_delete_request_def)
  next
    case False
    let ?n = "n\<lparr>queue := q', status := FLOW_RING_STATUS_DELETE_PENDING\<rparr>"
    have "dhd_bus_flow_ring_delete_request s d i = Some (s', put_ring d i ?n, BCME_OK)"
      using n(1-3) False by (simp add: dhd_bus_flow_ring_delete_request_def) (cases n, simp)
    then show ?thesis
      using n(4) [of FLOW_RING_STATUS_DELETE_PENDING] n(1) get_ring_put [OF n(1), of ?n]
      by (intro exI [of _ s'] exI [of _ "put_ring d i ?n"]) auto
  qed
qed

text \<open>The deletion loops mark exactly the rings that satisfy the condition and leave the others alone.\<close>

definition delete_marked :: "(flow_ring_node \<Rightarrow> bool) \<Rightarrow> flow_ring_node \<Rightarrow> flow_ring_node \<Rightarrow> bool" where
  "delete_marked P n n' \<longleftrightarrow> active n' = active n \<and> finfo n' = finfo n \<and>
     (if P n then status n' = FLOW_RING_STATUS_DELETE_PENDING else n' = n)"

lemma delete_loop_inv:
  "fr_inv s d qs \<Longrightarrow> i + k = unat (num_flow_rings d) \<Longrightarrow>
   \<exists>s' d' qs'. delete_loop P k i s d = Some (s', d') \<and> fr_inv s' d' qs' \<and> num_flow_rings d' = num_flow_rings d \<and>
     (\<forall>j < i. get_ring d' j = get_ring d j) \<and>
     (\<forall>j n. i \<le> j \<longrightarrow> get_ring d j = Some n \<longrightarrow> (\<exists>n'. get_ring d' j = Some n' \<and> delete_marked P n n'))"
proof (induction k arbitrary: i s d qs)
  case 0
  have "get_ring d j = None" if "i \<le> j" for j
    using 0 that by (auto simp: fr_inv_def tables_ok_def get_ring_def arr_get_def)
  then show ?case using 0 by auto
next
  case (Suc k)
  have i: "i < unat (num_flow_rings d)" using Suc.prems(2) by simp
  obtain n where n: "get_ring d i = Some n" by (rule fr_inv_ring [OF Suc.prems(1) i])
  obtain s1 d1 qs1 n1 where r: "fr_inv s1 d1 qs1" "get_ring d1 i = Some n1" "delete_marked P n n1"
      "\<forall>j. j \<noteq> i \<longrightarrow> get_ring d1 j = get_ring d j" "num_flow_rings d1 = num_flow_rings d"
      "delete_loop P (Suc k) i s d = delete_loop P k (Suc i) s1 d1"
  proof (cases "P n")
    case False
    then show thesis using that [of s d qs n] Suc.prems(1) n by (simp add: delete_marked_def)
  next
    case True
    from delete_request_inv [OF Suc.prems(1) i] n show thesis
      using that True by (auto simp: delete_marked_def)
  qed
  have "Suc i + k = unat (num_flow_rings d1)" using Suc.prems(2) r(5) by simp
  from Suc.IH [OF r(1) this]
  obtain s' d' qs' where e: "delete_loop P k (Suc i) s1 d1 = Some (s', d')" "fr_inv s' d' qs'"
      "num_flow_rings d' = num_flow_rings d1" "\<forall>j < Suc i. get_ring d' j = get_ring d1 j"
      "\<forall>j n. Suc i \<le> j \<longrightarrow> get_ring d1 j = Some n \<longrightarrow> (\<exists>n'. get_ring d' j = Some n' \<and> delete_marked P n n')"
    by blast
  have "\<exists>n'. get_ring d' j = Some n' \<and> delete_marked P m n'" if j: "i \<le> j" "get_ring d j = Some m" for j m
  proof (cases "j = i")
    case True
    then show ?thesis using e(4) r(2,3) j n by auto
  next
    case False
    then show ?thesis using e(5) r(4) j by simp
  qed
  moreover have "\<forall>j < i. get_ring d' j = get_ring d j" using e(4) r(4) by simp
  ultimately show ?case using e(1-3) r(5,6) by (intro exI [of _ s'] exI [of _ d'] exI [of _ qs']) simp
qed

section \<open>Interfaces and thresholds\<close>

lemma fr_inv_put_if:
  assumes inv: "fr_inv s d qs" and j: "unat ifindex < 16" and l: "get_if d ifindex = Some l" "fl_hash l' = fl_hash l"
  shows "fr_inv s (put_if d ifindex l') qs"
proof -
  obtain ids tbl lk where tok: "tables_ok d ids tbl lk" and iok: "ids_ok ids tbl lk" and qok: "queues_ok s tbl qs"
    using inv by (auto simp: fr_inv_def)
  note t = tables_ok_if [OF tok j]
  have l': "if_entries l' = if_entries (lk ! unat ifindex)" using l t(1) by (simp add: if_entries_def)
  have "map if_entries (lk[unat ifindex := l']) = map if_entries lk"
    unfolding map_update l' nth_map [OF t(3), symmetric] by (rule list_update_id)
  then have e: "entries (lk[unat ifindex := l']) = entries lk" by (simp add: entries_def)
  have ie: "if_entries (lk[unat ifindex := l'] ! k) = if_entries (lk ! k)" for k
    using t(3) l' by (cases "k = unat ifindex") simp_all
  have "ids_ok ids tbl (lk[unat ifindex := l'])"
    using iok unfolding ids_ok_def e ie length_list_update .
  moreover have "tables_ok (put_if d ifindex l') ids tbl (lk[unat ifindex := l'])"
    using tables_ok_put_if [OF tok j] l t by simp
  ultimately show ?thesis using qok by (auto simp: fr_inv_def)
qed

lemma fr_inv_if:
  assumes "fr_inv s d qs" and "unat ifindex < 16"
  obtains l where "get_if d ifindex = Some l" and "flowid_allocator d \<noteq> None" and "flow_ring_table d \<noteq> None"
proof -
  obtain ids tbl lk where tok: "tables_ok d ids tbl lk" using assms(1) by (auto simp: fr_inv_def)
  then show thesis using that tables_ok_if(1) [OF tok assms(2)] by (simp add: tables_ok_def)
qed

lemma interface_info_inv:
  assumes "fr_inv s d qs" and "unat ifindex < 16"
  shows "\<exists>d'. dhd_update_interface_flow_info d ifindex op rl = Some d' \<and> fr_inv s d' qs"
proof -
  obtain l where l: "get_if d ifindex = Some l" "flowid_allocator d \<noteq> None" by (rule fr_inv_if [OF assms])
  then show ?thesis
    using fr_inv_put_if [OF assms l(1)] assms by (auto simp: dhd_update_interface_flow_info_def Let_def)
qed

lemma link_status_inv:
  assumes "fr_inv s d qs" and "unat ifindex < 16"
  shows "\<exists>d'. dhd_update_interface_link_status d ifindex st = Some (d', BCME_OK) \<and> fr_inv s d' qs"
proof -
  obtain l where l: "get_if d ifindex = Some l" by (rule fr_inv_if [OF assms])
  then show ?thesis
    using fr_inv_put_if [OF assms l(1)] assms by (auto simp: dhd_update_interface_link_status_def)
qed

lemma thresholds_inv:
  assumes inv: "fr_inv s d qs" and i: "unat fid < unat (num_flow_rings d)"
  shows "\<exists>d'. dhd_flow_ring_config_thresholds d fid queue_budget cumm_threshold (Some c) l2cumm_threshold (Some l2) = Some d' \<and>
           fr_inv s d' qs"
proof -
  obtain n where n: "get_ring d (unat fid) = Some n" "flowid n = of_nat (unat fid)" "fq_rep s (queue n) (qs ! unat fid)"
    by (rule fr_inv_ring [OF inv i])
  let ?q = "(DHD_FLOW_QUEUE_SET_L2THRESHOLD ((DHD_FLOW_QUEUE_SET_THRESHOLD
      (DHD_FLOW_QUEUE_SET_MAX (queue n) queue_budget) cumm_threshold)\<lparr>fq_clen_ptr := Some c\<rparr>) l2cumm_threshold)\<lparr>fq_l2clen_ptr := Some l2\<rparr>"
  have "fq_rep s ?q (qs ! unat fid)"
    using n(3) by (simp add: fq_rep_def prec_rep_def as_prec_def DHD_FLOW_QUEUE_SET_L2THRESHOLD_def
        DHD_FLOW_QUEUE_SET_THRESHOLD_def DHD_FLOW_QUEUE_SET_MAX_def)
  then have "fr_inv s (put_ring d (unat fid) (n\<lparr>queue := ?q\<rparr>)) qs" by (intro fr_inv_same [OF inv n(1) i]) simp_all
  then show ?thesis
    using n(1,2) i by (simp add: dhd_flow_ring_config_thresholds_def dhd_flow_queue_def dhd_flow_ring_node_def Let_def)
qed

lemma any_active_total:
  assumes inv: "fr_inv s d qs"
  shows "i + k \<le> unat (num_flow_rings d) \<Longrightarrow>
    \<exists>b. any_active k i d = Some b \<and> (b \<longleftrightarrow> (\<exists>j n. i \<le> j \<and> j < i + k \<and> get_ring d j = Some n \<and> active n))"
proof (induction k arbitrary: i)
  case (Suc k)
  have "i < unat (num_flow_rings d)" using Suc.prems by simp
  then obtain n where n: "get_ring d i = Some n" by (rule fr_inv_ring [OF inv])
  show ?case
  proof (cases "active n")
    case True
    then show ?thesis using n by (auto intro!: exI [of _ i])
  next
    case False
    have "Suc i + k \<le> unat (num_flow_rings d)" using Suc.prems by simp
    from Suc.IH [OF this] obtain b where b: "any_active k (Suc i) d = Some b"
        "b \<longleftrightarrow> (\<exists>j n. Suc i \<le> j \<and> j < Suc i + k \<and> get_ring d j = Some n \<and> active n)" by blast
    have "(\<exists>j m. i \<le> j \<and> j < i + Suc k \<and> get_ring d j = Some m \<and> active m) \<longleftrightarrow>
        (\<exists>j n. Suc i \<le> j \<and> j < Suc i + k \<and> get_ring d j = Some n \<and> active n)"
      using n False by (metis Suc_le_eq add_Suc add_Suc_right le_less option.inject)
    then show ?thesis using n False b by simp
  qed
qed simp

lemma prio_map_inv:
  assumes inv: "fr_inv s d qs"
  shows "\<exists>d' ret. dhd_update_flow_prio_map ioctl d mp = Some (d', ret) \<and> fr_inv s d' qs"
proof -
  obtain b where "any_active (unat (num_flow_rings d)) 0 d = Some b"
    using any_active_total [OF inv, of 0 "unat (num_flow_rings d)"] by auto
  moreover have "fr_inv s (d\<lparr>flow_prio_map_type := t, flow_prio_map := m\<rparr>) qs" for t m
    using inv by (simp add: fr_inv_def tables_ok_def)
  ultimately show ?thesis using inv by (simp add: dhd_update_flow_prio_map_def)
qed

section \<open>Set-up\<close>

definition ring_fresh :: "nat \<Rightarrow> flow_ring_node \<Rightarrow> bool" where
  "ring_fresh j n \<longleftrightarrow> flowid n = of_nat j \<and> \<not> active n \<and> status n = FLOW_RING_STATUS_CLOSED \<and>
     fi_ifindex (finfo n) = 0 \<and> (\<forall>s. fq_rep s (queue n) [])"

lemma init_rings_fresh:
  assumes "init_rings c l2 granted n idx tbl M = Some (Some (tbl', M'))"
    and "\<forall>j < length tbl. \<not> active (tbl ! j) \<and> fi_ifindex (finfo (tbl ! j)) = 0" and "\<forall>j < idx. ring_fresh j (tbl ! j)"
  shows "length tbl' = length tbl \<and> (\<forall>j < idx + n. ring_fresh j (tbl' ! j))"
  using assms
proof (induction n arbitrary: idx tbl M)
  case (Suc n)
  let ?node = "(tbl ! idx)\<lparr>status := FLOW_RING_STATUS_CLOSED, flowid := of_nat idx\<rparr>"
  have idx: "idx < length tbl" using Suc.prems(1) by (auto simp: arr_get_def split: if_splits)
  obtain q where q: "dhd_flow_queue_init c l2 (queue ?node) 2048 = Some q" "\<And>s. fq_rep s q []"
    by (simp add: dhd_flow_queue_init_def Let_def fq_rep_def prec_rep_def as_prec_def
      DHD_FLOW_QUEUE_SET_MAX_def DHD_FLOW_QUEUE_SET_THRESHOLD_def dhd_flow_queue_overflow_def)
  let ?tbl = "tbl[idx := ?node\<lparr>queue := q\<rparr>]"
  have 1: "\<forall>j < Suc idx. ring_fresh j (?tbl ! j)"
    using Suc.prems(2,3) q(2) idx by (auto simp: ring_fresh_def nth_list_update less_Suc_eq)
  have 2: "\<forall>j < length ?tbl. \<not> active (?tbl ! j) \<and> fi_ifindex (finfo (?tbl ! j)) = 0"
    using Suc.prems(2) idx by (auto simp: nth_list_update)
  have "init_rings c l2 granted n (Suc idx) ?tbl (dll_init M (ring_link idx)) = Some (Some (tbl', M'))"
    using idx Suc.prems(1) q(1) by (simp add: Let_def split: if_splits)
  then show ?case using Suc.IH [OF _ 2 1] by simp
qed simp

lemma entries_empty: "entries (replicate k \<lparr>if_status = b, role = r, fl_hash = replicate m []\<rparr>) = []"
  by (auto simp: entries_def if_entries_def)

lemma rings_init_inv:
  assumes init: "dhd_flow_rings_init env c l2 d num = Some (d', BCME_OK)"
    and raw: "\<And>raw. id_mem env = Some raw \<Longrightarrow> length raw = unat num - 2"
    and num: "2 < num" "num < 0xFFFF" "max_sub_queues d = num"
  shows "fr_inv s d' (replicate (unat num) [])" and "flow_rings_inited d'" and "num_flow_rings d' = num"
proof -
  let ?total = "ucast (num - of_nat 2) :: u16"
  have un: "2 < unat num" "unat num < 65535" using num by (simp_all add: word_less_nat_alt)
  have "unat (num - 2) = unat num - 2" using un by (subst unat_sub) (simp_all add: word_le_nat_alt)
  then have tot: "unat ?total = unat num - 2" using un by (simp add: unsigned_ucast_eq take_bit_nat_eq_self)
  have pos: "0 < ?total" using tot un by (simp add: word_less_nat_alt)
  obtain mem where mem: "id_mem env = Some mem"
    using init by (cases "id_mem env") (auto simp: dhd_flow_rings_init_def id16_map_init_def split: Option.bind_splits)
  have "uint (2::u16) + uint ?total < 0xFFFF" using uint_add_less [of "2 :: u16" ?total 65535] un tot by simp
  from id16_init_rep [OF pos this, of mem] tot raw [OF mem]
  obtain m where m: "id16_map_init (Some mem) ?total 2 = Some (Some m)" "\<exists>avail. id16_rep m avail {}" by auto
  have mt: "id_start m = 2" "id_total m = ?total"
    using m(1) tot raw [OF mem] by (auto simp: id16_map_init_def Let_def fill_stack_result split: if_splits Option.bind_splits)
  let ?tbl0 = "replicate (unat num) zero_node"
  let ?lk = "replicate 16 \<lparr>if_status = False, role = 0, fl_hash = replicate 256 []\<rparr>"
  obtain tbl M where r: "init_rings c l2 (ring_lock_ok env) (unat num) 0 ?tbl0 (ring_links d) = Some (Some (tbl, M))"
    and d': "d' = d\<lparr>flow_prio_map_type := 0, flow_prio_map := prio2ac, num_flow_rings := num, flowid_allocator := Some m,
     flow_ring_table := Some tbl, if_lkup := Some ?lk, flow_rings_inited := True, ring_links := M\<rparr>"
    using init m(1) mem
    by (auto simp: dhd_flow_rings_init_def split: if_splits Option.bind_splits option.splits prod.splits)
  have f: "length tbl = unat num" "\<forall>j < unat num. ring_fresh j (tbl ! j)"
    using init_rings_fresh [OF r] by (auto simp: zero_node_def)
  have "tables_ok d' m tbl ?lk" using f mt tot un num(3) by (simp add: tables_ok_def ring_fresh_def d')
  moreover have "ids_ok m tbl ?lk"
    using m(2) f by (auto simp: ids_ok_def entries_empty ring_fresh_def if_entries_def)
  moreover have "queues_ok s tbl (replicate (unat num) [])"
    using f by (simp add: queues_ok_def ring_fresh_def)
  ultimately show "fr_inv s d' (replicate (unat num) [])" unfolding fr_inv_def by blast
  show "flow_rings_inited d'" "num_flow_rings d' = num" by (simp_all add: d')
qed

end
