(* ===== verification/Flow_Ring_Props.thy ===== *)
theory Flow_Ring_Props
  imports Flow_Ring_Life
begin

text \<open>
  Tear-down of the flow rings, the steps the driver takes on them as an inductive relation, and the
  properties of the flow rings.
\<close>

section \<open>Tear-down\<close>

lemma deinit_node:
  assumes tok: "tables_ok (with_table d tbl) ids tbl lk" and iok: "ids_ok ids tbl lk" and qok: "queues_ok s tbl qs"
    and i: "i < length tbl"
  obtains s' d' n' ids' lk' where
    "(if active (tbl ! i) then clean_node s d i (tbl ! i) else Some (s, d, tbl ! i)) = Some (s', d', n')"
    and "tables_ok (with_table d' (tbl[i := n'])) ids' (tbl[i := n']) lk'" and "ids_ok ids' (tbl[i := n']) lk'"
    and "queues_ok s' (tbl[i := n']) (qs[i := []])" and "DHD_FLOW_QUEUE_EMPTY (queue n')"
    and "pfreed s' = rev (qs ! i) @ pfreed s" and "flow_ring_table d' = flow_ring_table d"
    and "flow_rings_inited d' = flow_rings_inited d" and "\<not> active n'"
proof (cases "active (tbl ! i)")
  case False
  then have e: "qs ! i = []" using qok i by (simp add: queues_ok_def)
  then have q: "qs[i := []] = qs" using list_update_id [of qs i] by simp
  have "fq_rep s (queue (tbl ! i)) []" using qok i e by (auto simp: queues_ok_def)
  then have "DHD_FLOW_QUEUE_EMPTY (queue (tbl ! i))"
    by (simp add: DHD_FLOW_QUEUE_EMPTY_def fq_rep_def prec_rep_def as_prec_def unat_eq_zero)
  then show thesis using that [of s d "tbl ! i" ids lk] tok iok qok False e q by simp
next
  case True
  from clean_node_inv [OF tok iok qok i]
  obtain s' d' n' ids' lk' where c: "clean_node s d i (tbl ! i) = Some (s', d', n')"
      "flow_ring_table d' = flow_ring_table d" "tables_ok (with_table d' (tbl[i := n'])) ids' (tbl[i := n']) lk'"
      "ids_ok ids' (tbl[i := n']) lk'" "queues_ok s' (tbl[i := n']) (qs[i := []])" "\<not> active n'"
      "DHD_FLOW_QUEUE_EMPTY (queue n')" "pfreed s' = rev (qs ! i) @ pfreed s"
      "flow_rings_inited d' = flow_rings_inited d" by auto
  show thesis by (rule that [OF _ c(3,4,5,7,8,2,9,6)]) (use c(1) True in simp)
qed

lemma deinit_loop_inv:
  assumes "tables_ok (with_table d tbl) ids tbl lk" and "ids_ok ids tbl lk" and "queues_ok s tbl qs"
    and "i + k = length tbl" and "\<And>j. i \<le> j \<Longrightarrow> j < length tbl \<Longrightarrow> tbl ! j = tbl0 ! j" and "length tbl0 = length tbl"
    and "\<And>j. j < i \<Longrightarrow> \<not> active (tbl ! j)"
  shows "\<exists>s' d' ids' lk' avail. deinit_loop k i tbl0 s d = Some (s', d') \<and> flowid_allocator d' = Some ids' \<and>
           if_lkup d' = Some lk' \<and> entries lk' = [] \<and> id16_rep ids' avail {} \<and>
           mset (pfreed s') = mset (pfreed s) + mset (concat (drop i qs)) \<and>
           flow_ring_table d' = flow_ring_table d \<and> flow_rings_inited d' = flow_rings_inited d"
  using assms
proof (induction k arbitrary: i s d tbl ids lk qs)
  case 0
  have "entries lk = []"
  proof (rule ccontr)
    assume "entries lk \<noteq> []"
    then obtain e where e: "e \<in> set (entries lk)" by (cases "entries lk") auto
    have "unat (fh_flowid e) < i" using ids_ok_range(2) [OF 0(1,2) e] 0(4) by simp
    moreover have "active (tbl ! unat (fh_flowid e))"
      using ids_okD(3) [OF 0(2) ids_ok_range(2) [OF 0(1,2) e]] e by simp
    ultimately show False using 0(7) by blast
  qed
  moreover have "flowid_allocator d = Some ids" "if_lkup d = Some lk" using 0(1) by (simp_all add: tables_ok_def)
  moreover have "length qs = i" using 0(3,4) by (simp add: queues_ok_def)
  ultimately show ?case using ids_okD(1) [OF 0(2)] by auto
next
  case (Suc k)
  have i: "i < length tbl" using Suc.prems(4) by simp
  have g: "arr_get tbl0 i = Some (tbl ! i)" using i Suc.prems(5) [of i] Suc.prems(6) by simp
  have len: "length qs = length tbl" using Suc.prems(3) by (simp add: queues_ok_def)
  from Suc.prems(1-3) i obtain s1 d1 n1 ids1 lk1 where c:
    "(if active (tbl ! i) then clean_node s d i (tbl ! i) else Some (s, d, tbl ! i)) = Some (s1, d1, n1)"
    "tables_ok (with_table d1 (tbl[i := n1])) ids1 (tbl[i := n1]) lk1" "ids_ok ids1 (tbl[i := n1]) lk1"
    "queues_ok s1 (tbl[i := n1]) (qs[i := []])" "DHD_FLOW_QUEUE_EMPTY (queue n1)"
    "pfreed s1 = rev (qs ! i) @ pfreed s" "flow_ring_table d1 = flow_ring_table d"
    "flow_rings_inited d1 = flow_rings_inited d" "\<not> active n1"
    by (rule deinit_node)
  have "\<exists>s' d' ids' lk' avail. deinit_loop k (Suc i) tbl0 s1 d1 = Some (s', d') \<and> flowid_allocator d' = Some ids' \<and>
           if_lkup d' = Some lk' \<and> entries lk' = [] \<and> id16_rep ids' avail {} \<and>
           mset (pfreed s') = mset (pfreed s1) + mset (concat (drop (Suc i) (qs[i := []]))) \<and>
           flow_ring_table d' = flow_ring_table d1 \<and> flow_rings_inited d' = flow_rings_inited d1"
  proof (rule Suc.IH [OF c(2-4)])
    show "\<not> active (tbl[i := n1] ! j)" if "j < Suc i" for j
      using that c(9) Suc.prems(7) i by (cases "j = i") simp_all
  qed (use Suc.prems(4-6) in simp_all)
  moreover have "deinit_loop (Suc k) i tbl0 s d = deinit_loop k (Suc i) tbl0 s1 d1"
    using g c(1,5) by simp
  moreover have "mset (pfreed s1) + mset (concat (drop (Suc i) (qs[i := []])))
      = mset (pfreed s) + mset (concat (drop i qs))"
    using c(6) i len by (simp add: drop_update_cancel flip: Cons_nth_drop_Suc)
  ultimately show ?case using c(7,8) by simp
qed

lemma deinit_inv:
  assumes inv: "fr_inv s d qs" and init: "flow_rings_inited d"
  shows "\<exists>s' d'. dhd_flow_rings_deinit s d = Some (s', d') \<and> \<not> flow_rings_inited d' \<and> flow_ring_table d' = None \<and>
           if_lkup d' = None \<and> flowid_allocator d' = None \<and> num_flow_rings d' = 0 \<and>
           mset (pfreed s') = mset (pfreed s) + mset (concat qs)"
proof -
  obtain ids tbl lk where tok: "tables_ok d ids tbl lk" and iok: "ids_ok ids tbl lk" and qok: "queues_ok s tbl qs"
    using inv by (auto simp: fr_inv_def)
  let ?d = "d\<lparr>flow_ring_table := None\<rparr>"
  have t: "flow_ring_table d = Some tbl" "unat (num_flow_rings d) = length tbl" "2 \<le> length tbl"
    using tok by (simp_all add: tables_ok_def)
  have tok': "tables_ok (with_table ?d tbl) ids tbl lk" using tok by (simp add: tables_ok_def)
  from deinit_loop_inv [OF tok' iok qok, of 0 "length tbl" tbl]
  obtain s' d' ids' lk' where l: "deinit_loop (length tbl) 0 tbl s ?d = Some (s', d')" "flowid_allocator d' = Some ids'"
      "if_lkup d' = Some lk'" "mset (pfreed s') = mset (pfreed s) + mset (concat qs)" "flow_ring_table d' = None"
      "0 < id_total ids'"
    by (auto simp: id16_rep_def)
  have "0 < num_flow_rings d" using t(2,3) by (cases tbl) (auto simp: word_less_nat_alt)
  then show ?thesis using init t l by (simp add: dhd_flow_rings_deinit_def id16_map_fini_def Let_def)
qed

section \<open>The steps of the driver\<close>

text \<open>A packet the stack hands to the driver is alive and on no ring's backup queue.\<close>

definition pkt_unqueued :: "pkt_store \<Rightarrow> dhd_pub \<Rightarrow> pkt \<Rightarrow> bool" where
  "pkt_unqueued s d p \<longleftrightarrow> p \<notin> set (pfreed s) \<and>
     (\<forall>i n xs. get_ring d i = Some n \<longrightarrow> fq_rep s (queue n) xs \<longrightarrow> p \<notin> set xs)"

lemma pkt_unqueued_idle:
  assumes inv: "fr_inv s d qs" and p: "pkt_unqueued s d p"
  shows "pkt_idle s qs p"
proof -
  have "p \<notin> set (qs ! i)" if "i < length qs" for i
  proof -
    have "i < unat (num_flow_rings d)" using that fr_inv_length [OF inv] by simp
    then obtain n where "get_ring d i = Some n" "fq_rep s (queue n) (qs ! i)" by (rule fr_inv_ring [OF inv])
    then show ?thesis using p by (auto simp: pkt_unqueued_def)
  qed
  then have "\<forall>xs \<in> set qs. p \<notin> set xs" by (metis in_set_conv_nth)
  then show ?thesis using p by (simp add: pkt_idle_def pkt_unqueued_def)
qed

text \<open>
  One step: a handler called with any arguments within its bounds, any answer of the protocol layer
  and of the firmware. TDLS peers come and go by other code.
\<close>

inductive fr_step :: "pkt_store \<times> dhd_pub \<Rightarrow> pkt_store \<times> dhd_pub \<Rightarrow> bool" where
  flow_update: "unat ifindex < DHD_MAX_IFS \<Longrightarrow>
    dhd_flowid_update True create d ifindex prio shost dhost = Some (d', ret, fid) \<Longrightarrow> fr_step (s, d) (s, d')"
| tx: "unat fid < unat (num_flow_rings d) \<Longrightarrow> pkt_unqueued s d p \<Longrightarrow>
    dhd_bus_txdata prot s d fid p = Some (s', d', ret) \<Longrightarrow> fr_step (s, d) (s', d')"
| schedule: "unat fid < unat (num_flow_rings d) \<Longrightarrow>
    dhd_bus_schedule_queue prot s d fid = Some (s', d', ret) \<Longrightarrow> fr_step (s, d) (s', d')"
| created: "unat fid < unat (num_flow_rings d) \<Longrightarrow>
    dhd_bus_flow_ring_create_response prot s d fid resp = Some (s', d') \<Longrightarrow> fr_step (s, d) (s', d')"
| deleted: "unat fid < unat (num_flow_rings d) \<Longrightarrow>
    dhd_bus_flow_ring_delete_response s d fid resp = Some (s', d') \<Longrightarrow> fr_step (s, d) (s', d')"
| flushed: "unat fid < unat (num_flow_rings d) \<Longrightarrow>
    dhd_bus_flow_ring_flush_response d fid resp = Some d' \<Longrightarrow> fr_step (s, d) (s, d')"
| delete: "i < unat (num_flow_rings d) \<Longrightarrow>
    dhd_bus_flow_ring_delete_request s d i = Some (s', d', ret) \<Longrightarrow> fr_step (s, d) (s', d')"
| flush: "i < unat (num_flow_rings d) \<Longrightarrow>
    dhd_bus_flow_ring_flush_request s d i = Some (s', d', ret) \<Longrightarrow> fr_step (s, d) (s', d')"
| delete_if: "unat ifindex < DHD_MAX_IFS \<Longrightarrow>
    dhd_flow_rings_delete s d ifindex = Some (s', d') \<Longrightarrow> fr_step (s, d) (s', d')"
| delete_peer: "unat ifindex < DHD_MAX_IFS \<Longrightarrow>
    dhd_flow_rings_delete_for_peer s d ifindex addr = Some (s', d') \<Longrightarrow> fr_step (s, d) (s', d')"
| if_info: "unat ifindex < DHD_MAX_IFS \<Longrightarrow>
    dhd_update_interface_flow_info d ifindex op rl = Some d' \<Longrightarrow> fr_step (s, d) (s, d')"
| link: "unat ifindex < DHD_MAX_IFS \<Longrightarrow>
    dhd_update_interface_link_status d ifindex st = Some (d', ret) \<Longrightarrow> fr_step (s, d) (s, d')"
| prio_map: "dhd_update_flow_prio_map ioctl d mp = Some (d', ret) \<Longrightarrow> fr_step (s, d) (s, d')"
| thresholds: "unat fid < unat (num_flow_rings d) \<Longrightarrow>
    dhd_flow_ring_config_thresholds d fid b t (Some c) t2 (Some l2) = Some d' \<Longrightarrow> fr_step (s, d) (s, d')"
| tdls: "fr_step (s, d) (s, d\<lparr>tdls_peers := ps, tdls_peer_count := n\<rparr>)"

text \<open>The states the driver can be in between a successful set-up and the tear-down.\<close>

inductive fr_reach :: "pkt_store \<times> dhd_pub \<Rightarrow> bool" where
  init: "dhd_flow_rings_init env c l2 d0 num = Some (d, BCME_OK) \<Longrightarrow>
    (\<And>raw. id_mem env = Some raw \<Longrightarrow> length raw = unat num - 2) \<Longrightarrow> 2 < num \<Longrightarrow> num < 0xFFFF \<Longrightarrow>
    max_sub_queues d0 = num \<Longrightarrow> fr_reach (s, d)"
| step: "fr_reach st \<Longrightarrow> fr_step st st' \<Longrightarrow> fr_reach st'"

lemma flowid_update_inv:
  assumes inv: "fr_inv s d qs" and i: "unat ifindex < 16"
  shows "\<exists>d' ret fid. dhd_flowid_update True create d ifindex prio shost dhost = Some (d', ret, fid) \<and> fr_inv s d' qs"
proof -
  obtain d' ret r where "dhd_flowid_lookup True create d ifindex prio shost dhost = Some (d', ret, r)" "fr_inv s d' qs"
    using lookup_inv [OF inv i] by blast
  moreover have "flowid_allocator d \<noteq> None" using inv by (auto simp: fr_inv_def tables_ok_def)
  ultimately show ?thesis using i by (auto simp: dhd_flowid_update_def)
qed

lemma rings_delete_inv:
  assumes inv: "fr_inv s d qs" and i: "unat ifindex < 16"
  shows "\<exists>s' d' qs'. dhd_flow_rings_delete s d ifindex = Some (s', d') \<and> fr_inv s' d' qs'"
    and "\<exists>s' d' qs'. dhd_flow_rings_delete_for_peer s d ifindex addr = Some (s', d') \<and> fr_inv s' d' qs'"
proof -
  have ft: "flow_ring_table d \<noteq> None" using inv by (auto simp: fr_inv_def tables_ok_def)
  show "\<exists>s' d' qs'. dhd_flow_rings_delete s d ifindex = Some (s', d') \<and> fr_inv s' d' qs'"
    using ft i delete_loop_inv [OF inv, of 0 "unat (num_flow_rings d)" "\<lambda>n. active n \<and> fi_ifindex (finfo n) = ifindex"]
    by (auto simp: dhd_flow_rings_delete_def)
  show "\<exists>s' d' qs'. dhd_flow_rings_delete_for_peer s d ifindex addr = Some (s', d') \<and> fr_inv s' d' qs'"
    using ft i delete_loop_inv [OF inv, of 0 "unat (num_flow_rings d)"
        "\<lambda>n. active n \<and> fi_ifindex (finfo n) = ifindex \<and> da (finfo n) = addr \<and> status n \<noteq> FLOW_RING_STATUS_DELETE_PENDING"]
    by (auto simp: dhd_flow_rings_delete_for_peer_def)
qed

lemma fr_step_inv: "fr_step st st' \<Longrightarrow> \<exists>qs. fr_inv (fst st) (snd st) qs \<Longrightarrow> \<exists>qs. fr_inv (fst st') (snd st') qs"
proof (induction rule: fr_step.induct)
  case (flow_update ifindex create d prio shost dhost d' ret fid s)
  then obtain qs where inv: "fr_inv s d qs" by auto
  show ?case using flowid_update_inv [OF inv flow_update(1), of create prio shost dhost] flow_update(2) by auto
next
  case (tx fid d s p prot s' d' ret)
  then obtain qs where inv: "fr_inv s d qs" by auto
  have "tx_outcome s d qs (unat fid) p (Some (s', d', ret))"
    using txdata_inv [OF inv tx(1) pkt_unqueued_idle [OF inv tx(2)], of prot] tx(3) by simp
  then show ?case by (auto simp: tx_outcome_def)
next
  case (schedule fid d prot s s' d' ret)
  then obtain qs where inv: "fr_inv s d qs" by auto
  show ?case using schedule_inv [OF inv schedule(1), of prot] schedule(2) by auto
next
  case (created fid d prot s resp s' d')
  then obtain qs where inv: "fr_inv s d qs" by auto
  show ?case using create_response_inv [OF inv created(1), of prot resp] created(2) by auto
next
  case (deleted fid d s resp s' d')
  then obtain qs where inv: "fr_inv s d qs" by auto
  show ?case using delete_response_inv [OF inv deleted(1), of resp] deleted(2) by auto
next
  case (flushed fid d resp d' s)
  then obtain qs where inv: "fr_inv s d qs" by auto
  show ?case using flush_response_inv [OF inv flushed(1), of resp] flushed(2) by auto
next
  case (delete i d s s' d' ret)
  then obtain qs where inv: "fr_inv s d qs" by auto
  show ?case using delete_request_inv [OF inv delete(1)] delete(2) by auto
next
  case (flush i d s s' d' ret)
  then obtain qs where inv: "fr_inv s d qs" by auto
  show ?case using flush_request_inv [OF inv flush(1)] flush(2) by auto
next
  case (delete_if ifindex s d s' d')
  then obtain qs where inv: "fr_inv s d qs" by auto
  show ?case using rings_delete_inv(1) [OF inv delete_if(1)] delete_if(2) by auto
next
  case (delete_peer ifindex s d addr s' d')
  then obtain qs where inv: "fr_inv s d qs" by auto
  show ?case using rings_delete_inv(2) [OF inv delete_peer(1), of addr] delete_peer(2) by auto
next
  case (if_info ifindex d op rl d' s)
  then obtain qs where inv: "fr_inv s d qs" by auto
  show ?case using interface_info_inv [OF inv if_info(1), of op rl] if_info(2) by auto
next
  case (link ifindex d st d' ret s)
  then obtain qs where inv: "fr_inv s d qs" by auto
  show ?case using link_status_inv [OF inv link(1), of st] link(2) by auto
next
  case (prio_map ioctl d mp d' ret s)
  then obtain qs where inv: "fr_inv s d qs" by auto
  show ?case using prio_map_inv [OF inv, of ioctl mp] prio_map(1) by auto
next
  case (thresholds fid d b t c t2 l2 d' s)
  then obtain qs where inv: "fr_inv s d qs" by auto
  show ?case using thresholds_inv [OF inv thresholds(1), of b t c t2 l2] thresholds(2) by auto
next
  case (tdls s d ps n)
  then show ?case by (simp add: fr_inv_def tables_ok_def)
qed

lemma fr_reach_inv: "fr_reach st \<Longrightarrow> \<exists>qs. fr_inv (fst st) (snd st) qs"
proof (induction rule: fr_reach.induct)
  case (init env c l2 d0 num d s)
  then show ?case using rings_init_inv(1) [OF init] by auto
next
  case (step st st')
  then show ?case using fr_step_inv by blast
qed

section \<open>A concrete driver\<close>

text \<open>Six rings, two of them common: four flow ids, with every grant of memory.\<close>

definition demo_env :: init_env where
  "demo_env = \<lparr>id_mem = Some [0, 0, 0, 0], table_ok = True, ring_lock_ok = (\<lambda>_. True), lkup_ok = True,
     lock_ok = True, list_lock_ok = True\<rparr>"

definition demo_store :: pkt_store where
  "demo_store = \<lparr>plink = (\<lambda>_. None), pfreed = []\<rparr>"

definition demo_pub :: dhd_pub where
  "demo_pub = \<lparr>num_flow_rings = 0, flowid_allocator = None, flow_ring_table = None, if_lkup = None,
     flow_prio_map_type = 0, flow_prio_map = [], flow_rings_inited = False, tdls_peers = [[2, 0, 0, 0, 0, 1]],
     tdls_peer_count = 1, ring_links = \<lparr>next_p = id, prev_p = id\<rparr>, max_sub_queues = 6, tx_log = []\<rparr>"

definition demo_init :: dhd_pub where
  "demo_init = fst (the (dhd_flow_rings_init demo_env 0 1 demo_pub 6))"

lemma init_rings_total:
  "idx + n \<le> length tbl \<Longrightarrow> (\<And>j. granted j) \<Longrightarrow> \<exists>r. init_rings c l2 granted n idx tbl M = Some (Some r)"
proof (induction n arbitrary: idx tbl M)
  case (Suc n)
  obtain q where "dhd_flow_queue_init c l2 (queue (tbl ! idx)) 2048 = Some q"
    by (simp add: dhd_flow_queue_init_def Let_def)
  then show ?case using Suc by (simp add: Let_def)
qed simp

lemma demo_init_ok:
  "dhd_flow_rings_init demo_env 0 1 demo_pub 6 = Some (demo_init, BCME_OK)"
  "if_lkup demo_init = Some (replicate 16 \<lparr>if_status = False, role = 0, fl_hash = replicate 256 []\<rparr>)"
  "\<exists>ids. flowid_allocator demo_init = Some ids \<and> stack_idx ids = 3" "tdls_peers demo_init = [[2, 0, 0, 0, 0, 1]]"
  "tdls_peer_count demo_init = 1" "flow_rings_inited demo_init" "num_flow_rings demo_init = 6"
proof -
  obtain tbl M where r: "init_rings 0 1 (\<lambda>_. True) 6 0 (replicate 6 zero_node) \<lparr>next_p = id, prev_p = id\<rparr> = Some (Some (tbl, M))"
    using init_rings_total [of 0 6 "replicate 6 zero_node" "\<lambda>_. True" 0 1 "\<lparr>next_p = id, prev_p = id\<rparr>"] by auto
  obtain m where m: "id16_map_init (Some [0, 0, 0, 0]) 4 2 = Some (Some m)" "stack_idx m = 3"
    by (simp add: id16_map_init_def fill_stack_result)
  have "\<exists>d. dhd_flow_rings_init demo_env 0 1 demo_pub 6 = Some (d, BCME_OK) \<and>
    if_lkup d = Some (replicate 16 \<lparr>if_status = False, role = 0, fl_hash = replicate 256 []\<rparr>) \<and>
    flowid_allocator d = Some m \<and> tdls_peers d = [[2, 0, 0, 0, 0, 1]] \<and> tdls_peer_count d = 1 \<and>
    flow_rings_inited d \<and> num_flow_rings d = 6"
    using r m by (simp add: dhd_flow_rings_init_def demo_env_def demo_pub_def)
  then show "dhd_flow_rings_init demo_env 0 1 demo_pub 6 = Some (demo_init, BCME_OK)"
    "if_lkup demo_init = Some (replicate 16 \<lparr>if_status = False, role = 0, fl_hash = replicate 256 []\<rparr>)"
    "\<exists>ids. flowid_allocator demo_init = Some ids \<and> stack_idx ids = 3" "tdls_peers demo_init = [[2, 0, 0, 0, 0, 1]]"
    "tdls_peer_count demo_init = 1" "flow_rings_inited demo_init" "num_flow_rings demo_init = 6"
    using m(2) by (auto simp: demo_init_def)
qed

lemma demo_init_reach: "fr_reach (demo_store, demo_init)"
  by (rule fr_reach.init [OF demo_init_ok(1)]) (simp_all add: demo_env_def demo_pub_def)

text \<open>Interface 0 as an access point, and as a station whose link is up.\<close>

definition demo_if :: "u8 \<Rightarrow> if_flow_lkup" where
  "demo_if rl = \<lparr>if_status = True, role = rl, fl_hash = replicate 256 []\<rparr>"

definition demo_ap :: dhd_pub where
  "demo_ap = put_if demo_init 0 (demo_if 1)"

definition demo_sta :: dhd_pub where
  "demo_sta = put_if demo_init 0 (demo_if 0)"

lemma demo_get_if: "get_if demo_init 0 = Some \<lparr>if_status = False, role = 0, fl_hash = replicate 256 []\<rparr>"
  by (simp add: get_if_def demo_init_ok(2))

lemma demo_reach: "fr_reach (demo_store, demo_ap)" "fr_reach (demo_store, demo_sta)"
proof -
  have "dhd_update_interface_flow_info demo_init 0 WLC_E_IF_ADD 1 = Some demo_ap"
    using demo_init_ok(3) by (auto simp: dhd_update_interface_flow_info_def demo_get_if demo_ap_def demo_if_def Let_def)
  then show "fr_reach (demo_store, demo_ap)" by (intro fr_reach.step [OF demo_init_reach] fr_step.if_info [of 0]) simp_all
  have "dhd_update_interface_link_status demo_init 0 1 = Some (demo_sta, BCME_OK)"
    by (simp add: dhd_update_interface_link_status_def demo_get_if demo_sta_def demo_if_def)
  then show "fr_reach (demo_store, demo_sta)" by (intro fr_reach.step [OF demo_init_reach] fr_step.link [of 0]) simp_all
qed

lemma demo_put_if:
  "get_if (put_if demo_init 0 (demo_if rl)) 0 = Some (demo_if rl)"
  "tdls_peers (put_if demo_init 0 (demo_if rl)) = [[2, 0, 0, 0, 0, 1]]" "tdls_peer_count (put_if demo_init 0 (demo_if rl)) = 1"
  "num_flow_rings (put_if demo_init 0 (demo_if rl)) = 6" "flow_rings_inited (put_if demo_init 0 (demo_if rl))"
  "flowid_allocator (put_if demo_init 0 (demo_if rl)) = flowid_allocator demo_init"
  using demo_init_ok(2,4-7) by (simp_all add: put_if_def get_if_def)

lemma demo_find: "dhd_flowid_find (put_if demo_init 0 (demo_if rl)) 0 prio dst = Some FLOWID_INVALID"
  unfolding dhd_flowid_find_def demo_put_if(1,3)
  by (simp add: demo_if_def HASHINDEX_less unat_u8_less Let_def)

section \<open>Properties\<close>

text \<open>
  C9. In every state the driver reaches from a successful \<open>dhd_flow_rings_init\<close>, by any interleaving
  of flow creation and removal, traffic, firmware answers, interface and TDLS changes: the flow ids
  that are out are exactly the ids of the hash entries, no id is in two entries, a ring is active
  exactly when its id is out, it knows the interface its entry hangs on, every backup queue is well
  formed, an inactive ring has none queued and no packet is on two queues.
\<close>

theorem flow_rings_invariant:
  assumes "fr_reach (s, d)"
  shows "\<exists>qs. fr_inv s d qs"
  using fr_reach_inv [OF assms] by simp

theorem flow_rings_invariant_witness: "\<exists>qs. fr_inv demo_store demo_ap qs"
  by (rule flow_rings_invariant [OF demo_reach(1)])

text \<open>
  Where the handlers have no outcome. The table is as long as \<open>num_flow_rings\<close>, and the handlers index
  it with the id they are given.
\<close>

lemma get_ring_None:
  assumes "fr_inv s d qs"
  shows "get_ring d i = None \<longleftrightarrow> unat (num_flow_rings d) \<le> i"
  using assms by (auto simp: fr_inv_def tables_ok_def get_ring_def arr_get_def split: if_splits)

text \<open>\<open>MALLOC\<close> fails for a flow that is new on an interface that is up: the code writes to NULL.\<close>

definition needs_entry :: "dhd_pub \<Rightarrow> u8 \<Rightarrow> u8 \<Rightarrow> ether_addr \<Rightarrow> bool" where
  "needs_entry d ifindex prio dst \<longleftrightarrow>
     unat ifindex < DHD_MAX_IFS \<and> dhd_flowid_find d ifindex prio dst = Some FLOWID_INVALID \<and>
     (case get_if d ifindex of None \<Rightarrow> False | Some l \<Rightarrow> if_status l)"

lemma flowid_update_None:
  assumes inv: "fr_inv s d qs"
  shows "dhd_flowid_update mem create d ifindex prio shost dhost = None \<longleftrightarrow>
           \<not> mem \<and> needs_entry d ifindex prio dhost"
proof (cases "unat ifindex < 16")
  case False
  then show ?thesis by (simp add: dhd_flowid_update_def needs_entry_def)
next
  case True
  obtain l where l: "get_if d ifindex = Some l" "flowid_allocator d \<noteq> None" "flow_ring_table d \<noteq> None"
    by (rule fr_inv_if [OF inv True])
  obtain ids tbl lk where tok: "tables_ok d ids tbl lk" using inv by (auto simp: fr_inv_def)
  obtain r where r: "dhd_flowid_find d ifindex prio dhost = Some r"
    using dhd_flowid_find_slot [OF tok True] by blast
  have ok: "dhd_flowid_update True create d ifindex prio shost dhost \<noteq> None"
    using flowid_update_inv [OF inv True, of create prio shost dhost] by auto
  show ?thesis
  proof (cases "needs_entry d ifindex prio dhost")
    case new: True
    then have "dhd_flowid_lookup False create d ifindex prio shost dhost = None"
      using l r by (simp add: needs_entry_def dhd_flowid_lookup_def dhd_flowid_alloc_def)
    then have "dhd_flowid_update False create d ifindex prio shost dhost = None"
      using l(2) True by (simp add: dhd_flowid_update_def)
    then show ?thesis using ok new by (cases mem) simp_all
  next
    case False
    then have "dhd_flowid_lookup False create d ifindex prio shost dhost =
        dhd_flowid_lookup True create d ifindex prio shost dhost"
      using l r True by (auto simp: needs_entry_def dhd_flowid_lookup_def)
    then have "dhd_flowid_update False create d ifindex prio shost dhost =
        dhd_flowid_update True create d ifindex prio shost dhost"
      by (simp add: dhd_flowid_update_def)
    then show ?thesis using ok False by (cases mem) simp_all
  qed
qed

lemma out_of_table_None:
  assumes inv: "fr_inv s d qs" and i: "\<not> unat fid < unat (num_flow_rings d)"
  shows "dhd_bus_txdata prot s d fid p = None" and "dhd_bus_schedule_queue prot s d fid = Some (s, d, 0)"
    and "dhd_bus_flow_ring_create_response prot s d fid resp = None"
    and "dhd_bus_flow_ring_delete_response s d fid resp = None"
    and "dhd_bus_flow_ring_flush_response d fid resp = (if resp \<noteq> BCME_OK then Some d else None)"
    and "dhd_flow_ring_config_thresholds d fid b t c t2 l2 = None"
proof -
  have n: "get_ring d (unat fid) = None" using get_ring_None [OF inv, of "unat fid"] i by simp
  have al: "flowid_allocator d \<noteq> None" and mx: "unat (max_sub_queues d) \<le> unat fid"
    using inv i by (auto simp: fr_inv_def tables_ok_def)
  show "dhd_bus_txdata prot s d fid p = None" using n al by (auto simp: dhd_bus_txdata_def)
  show "dhd_bus_schedule_queue prot s d fid = Some (s, d, 0)" using mx by (simp add: dhd_bus_schedule_queue_def)
  show "dhd_bus_flow_ring_create_response prot s d fid resp = None" using n by (simp add: dhd_bus_flow_ring_create_response_def)
  show "dhd_bus_flow_ring_delete_response s d fid resp = None" using n by (simp add: dhd_bus_flow_ring_delete_response_def)
  show "dhd_bus_flow_ring_flush_response d fid resp = (if resp \<noteq> BCME_OK then Some d else None)"
    using n by (simp add: dhd_bus_flow_ring_flush_response_def)
  show "dhd_flow_ring_config_thresholds d fid b t c t2 l2 = None"
    using n by (simp add: dhd_flow_ring_config_thresholds_def dhd_flow_ring_node_def)
qed

lemma thresholds_total:
  assumes inv: "fr_inv s d qs" and i: "unat fid < unat (num_flow_rings d)"
  shows "dhd_flow_ring_config_thresholds d fid b t c t2 l2 \<noteq> None"
  using get_ring_None [OF inv, of "unat fid"] i
  by (auto simp: dhd_flow_ring_config_thresholds_def dhd_flow_queue_def dhd_flow_ring_node_def Let_def)

lemma interface_handlers_total:
  assumes inv: "fr_inv s d qs"
  shows "dhd_flow_rings_delete s d ifindex \<noteq> None" and "dhd_flow_rings_delete_for_peer s d ifindex addr \<noteq> None"
    and "dhd_update_interface_flow_info d ifindex op rl \<noteq> None" and "dhd_update_interface_link_status d ifindex st \<noteq> None"
proof -
  show "dhd_flow_rings_delete s d ifindex \<noteq> None"
    using rings_delete_inv(1) [OF inv, of ifindex] by (cases "unat ifindex < 16") (auto simp: dhd_flow_rings_delete_def)
  show "dhd_flow_rings_delete_for_peer s d ifindex addr \<noteq> None"
    using rings_delete_inv(2) [OF inv, of ifindex addr] by (cases "unat ifindex < 16") (auto simp: dhd_flow_rings_delete_for_peer_def)
  show "dhd_update_interface_flow_info d ifindex op rl \<noteq> None"
    using interface_info_inv [OF inv, of ifindex op rl] by (cases "unat ifindex < 16") (auto simp: dhd_update_interface_flow_info_def)
  show "dhd_update_interface_link_status d ifindex st \<noteq> None"
    using link_status_inv [OF inv, of ifindex st] by (cases "unat ifindex < 16") (auto simp: dhd_update_interface_link_status_def)
qed


lemma demo_unqueued: "pkt_unqueued demo_store demo_ap 7"
proof -
  have "xs = []" if "fq_rep demo_store (queue n) xs" "get_ring demo_ap i = Some n" for n i xs
  proof -
    have inv: "fr_inv demo_store demo_init (replicate 6 [])"
      using rings_init_inv(1) [OF demo_init_ok(1), of demo_store] by (simp add: demo_env_def demo_pub_def)
    have g: "get_ring demo_init i = Some n" using that(2) by (simp add: demo_ap_def put_if_def get_ring_def)
    then have i: "i < unat (num_flow_rings demo_init)"
      using inv by (auto simp: fr_inv_def tables_ok_def get_ring_def arr_get_def split: if_splits)
    then have "fq_rep demo_store (queue n) []" using fr_inv_ring [OF inv i] g demo_init_ok(7) by auto
    then show ?thesis using that(1) by (simp add: fq_rep_def prec_rep_def)
  qed
  moreover have "7 \<notin> set (pfreed demo_store)" by (simp add: demo_store_def)
  ultimately show ?thesis unfolding pkt_unqueued_def by (metis empty_iff list.set(1))
qed


text \<open>
  C11. Looking a flow up is stable: when \<open>dhd_flowid_lookup\<close> returns an id, it is a valid id of an
  active ring of that interface, \<open>dhd_flowid_find\<close> finds the same id from then on, and a second lookup
  returns it without changing anything. The exception is a multicast address that is a TDLS peer,
  which is entered under one hash and looked for under another.
\<close>

theorem flowid_lookup_stable:
  assumes reach: "fr_reach (s, d)" and i: "unat ifindex < DHD_MAX_IFS"
    and look: "dhd_flowid_lookup True create d ifindex prio src dst = Some (d', BCME_OK, Some fid)"
    and uni: "ETHER_ISMULTI dst \<longrightarrow> \<not> is_tdls_destination d dst"
  shows "fid \<noteq> FLOWID_INVALID \<and> dhd_flowid_find d' ifindex prio dst = Some fid \<and>
         dhd_flowid_lookup True create' d' ifindex prio src dst = Some (d', BCME_OK, Some fid) \<and>
         (\<exists>n. get_ring d' (unat fid) = Some n \<and> active n \<and> fi_ifindex (finfo n) = ifindex)"
proof -
  obtain qs where inv: "fr_inv s d qs" using fr_reach_inv [OF reach] by auto
  obtain ids tbl lk where tok: "tables_ok d ids tbl lk" using inv by (auto simp: fr_inv_def)
  note t = tables_ok_if [OF tok i]
  obtain r where find: "dhd_flowid_find d ifindex prio dst = Some r"
    using dhd_flowid_find_slot [OF tok i] by blast
  have ft: "flow_ring_table d = Some tbl" using tok by (simp add: tables_ok_def)
  have key: "fr_inv s d' qs \<and> fid \<noteq> FLOWID_INVALID \<and> dhd_flowid_find d' ifindex prio dst = Some fid \<and>
      (\<forall>n. get_ring d' (unat fid) = Some n \<longrightarrow> status n = FLOW_RING_STATUS_OPEN \<or> status n = FLOW_RING_STATUS_PENDING)"
  proof (cases "r = FLOWID_INVALID")
    case False
    obtain n where "get_ring d (unat r) = Some n" "dhd_flowid_lookup True create d ifindex prio src dst =
        (if status n = FLOW_RING_STATUS_OPEN \<or> status n = FLOW_RING_STATUS_PENDING
         then Some (d, BCME_OK, Some r) else Some (d, BCME_ERROR, Some FLOWID_INVALID))"
      by (rule lookup_known [where create = create and src = src, OF inv i find False])
    then show ?thesis using look inv find False by (auto split: if_splits)
  next
    case True
    have st: "if_status (lk ! unat ifindex)"
      using look ft find True t(1) by (auto simp: dhd_flowid_lookup_def split: if_splits)
    from inv i find [unfolded True] t(1) st show ?thesis
    proof (cases rule: lookup_unknown [where create = create and src = src])
      case (full d'')
      then show ?thesis using look by simp
    next
      case (new d'' fid' n h e)
      have "create = BCME_OK" using look new(1) by (simp split: if_splits)
      then have "d'' = d'" "fid' = fid" using look new(1) by simp_all
      then show ?thesis using new(2-4,6,7) uni by simp
    qed
  qed
  then have inv': "fr_inv s d' qs" and find': "dhd_flowid_find d' ifindex prio dst = Some fid" "fid \<noteq> FLOWID_INVALID"
    by simp_all
  obtain n where n: "get_ring d' (unat fid) = Some n" "active n" "unat (fi_ifindex (finfo n)) = unat ifindex"
      "dhd_flowid_lookup True create' d' ifindex prio src dst =
      (if status n = FLOW_RING_STATUS_OPEN \<or> status n = FLOW_RING_STATUS_PENDING
       then Some (d', BCME_OK, Some fid) else Some (d', BCME_ERROR, Some FLOWID_INVALID))"
    by (rule lookup_known [where create = create' and src = src, OF inv' i find'])
  moreover have "status n = FLOW_RING_STATUS_OPEN \<or> status n = FLOW_RING_STATUS_PENDING" using key n(1) by blast
  moreover have "fi_ifindex (finfo n) = ifindex" using n(3) by (simp add: word_unat_eq_iff)
  ultimately show ?thesis using find' by auto
qed

lemma demo_flow:
  obtains d' fid n l where "dhd_flowid_lookup True 0 demo_ap 0 5 [2, 0, 0, 0, 0, 2] [2, 0, 0, 0, 0, 3] = Some (d', BCME_OK, Some fid)"
    and "fr_reach (demo_store, d')" and "get_if d' 0 = Some l" and "role l = 1" and "fid \<noteq> FLOWID_INVALID"
    and "get_ring d' (unat fid) = Some n" and "active n" and "dhd_flowid_find d' 0 5 [2, 0, 0, 0, 0, 3] = Some fid"
proof -
  obtain qs where inv: "fr_inv demo_store demo_ap qs" using fr_reach_inv [OF demo_reach(1)] by auto
  have up: "if_status (demo_if 1)" by (simp add: demo_if_def)
  have z: "unat (0 :: u8) < 16" by simp
  from inv z demo_find [of 1 5 "[2, 0, 0, 0, 0, 3]", folded demo_ap_def] demo_put_if(1) [of 1, folded demo_ap_def] up
  show thesis
  proof (cases rule: lookup_unknown [where create = 0 and src = "[2, 0, 0, 0, 0, 2]"])
    case (full d')
    then show thesis using demo_init_ok(3) demo_put_if(6) [of 1] by (auto simp: demo_ap_def)
  next
    case (new d' fid n h e)
    have "flowid_allocator demo_ap \<noteq> None" using demo_init_ok(3) demo_put_if(6) [of 1] by (auto simp: demo_ap_def)
    then have "dhd_flowid_update True 0 demo_ap 0 5 [2, 0, 0, 0, 0, 2] [2, 0, 0, 0, 0, 3] = Some (d', BCME_OK, Some fid)"
      using new(1) by (simp add: dhd_flowid_update_def)
    then have "fr_reach (demo_store, d')" by (intro fr_reach.step [OF demo_reach(1)] fr_step.flow_update [of 0]) simp_all
    moreover have "\<not> ETHER_ISMULTI [2, 0, 0, 0, 0, 3]" by (simp add: ETHER_ISMULTI_def)
    ultimately show thesis using that new by (simp add: demo_if_def)
  qed
qed

theorem flowid_lookup_stable_witness:
  "\<exists>d' fid. dhd_flowid_lookup True 0 demo_ap 0 5 [2, 0, 0, 0, 0, 2] [2, 0, 0, 0, 0, 3] = Some (d', BCME_OK, Some fid) \<and>
     dhd_flowid_find d' 0 5 [2, 0, 0, 0, 0, 3] = Some fid"
proof -
  obtain d' fid where l: "dhd_flowid_lookup True 0 demo_ap 0 5 [2, 0, 0, 0, 0, 2] [2, 0, 0, 0, 0, 3] = Some (d', BCME_OK, Some fid)"
    by (rule demo_flow)
  have "\<not> ETHER_ISMULTI [2, 0, 0, 0, 0, 3]" by (simp add: ETHER_ISMULTI_def)
  with flowid_lookup_stable [OF demo_reach(1) _ l] l show ?thesis by auto
qed

text \<open>
  C12. Flows do not share ids: on interfaces that are not a station, two unicast flows found under the
  same valid id have the same interface, destination and priority.
\<close>

theorem flow_ids_separate:
  assumes reach: "fr_reach (s, d)" and "unat i1 < DHD_MAX_IFS" "unat i2 < DHD_MAX_IFS"
    and l: "get_if d i1 = Some l1" "role l1 \<noteq> WLC_E_IF_ROLE_STA" "get_if d i2 = Some l2" "role l2 \<noteq> WLC_E_IF_ROLE_STA"
    and uni: "\<not> ETHER_ISMULTI a1" "\<not> ETHER_ISMULTI a2"
    and find: "dhd_flowid_find d i1 p1 a1 = Some fid" "dhd_flowid_find d i2 p2 a2 = Some fid" "fid \<noteq> FLOWID_INVALID"
  shows "i1 = i2 \<and> a1 = a2 \<and> p1 = p2"
proof -
  obtain qs where "fr_inv s d qs" using fr_reach_inv [OF reach] by auto
  then obtain ids tbl lk where tok: "tables_ok d ids tbl lk" and iok: "ids_ok ids tbl lk" by (auto simp: fr_inv_def)
  note t1 = tables_ok_if [OF tok assms(2)] and t2 = tables_ok_if [OF tok assms(3)]
  obtain e1 where e1: "e1 \<in> set (if_entries (lk ! unat i1))" "fh_da e1 = a1" "fh_tid e1 = p1" "fh_flowid e1 = fid"
    using find_result [OF tok iok assms(2) find(1)] find(3) l(1,2) uni(1) t1(1) by (auto simp: find_slot_def)
  obtain e2 where e2: "e2 \<in> set (if_entries (lk ! unat i2))" "fh_da e2 = a2" "fh_tid e2 = p2" "fh_flowid e2 = fid"
    using find_result [OF tok iok assms(3) find(2)] find(3) l(3,4) uni(2) t2(1) by (auto simp: find_slot_def)
  have "e1 \<in> set (entries lk)" "e2 \<in> set (entries lk)"
    using e1(1) e2(1) if_entries_subset [OF t1(3)] if_entries_subset [OF t2(3)] by auto
  then have "e1 = e2" using ids_okD(2) [OF iok] e1(4) e2(4) by (metis distinct_map inj_onD)
  moreover have "unat i1 = unat i2"
    using ids_okD(4) [OF iok t1(3) e1(1)] ids_okD(4) [OF iok t2(3) e2(1)] e1(4) e2(4) by simp
  ultimately show ?thesis using e1(2,3) e2(2,3) by (simp add: word_unat_eq_iff)
qed

theorem flow_ids_separate_witness:
  "\<exists>d fid l. fr_reach (demo_store, d) \<and> get_if d 0 = Some l \<and> role l \<noteq> WLC_E_IF_ROLE_STA \<and>
     dhd_flowid_find d 0 5 [2, 0, 0, 0, 0, 3] = Some fid \<and> fid \<noteq> FLOWID_INVALID \<and>
     (\<forall>a p. \<not> ETHER_ISMULTI a \<longrightarrow> dhd_flowid_find d 0 p a = Some fid \<longrightarrow> a = [2, 0, 0, 0, 0, 3] \<and> p = 5)"
proof -
  obtain d fid n l where d: "fr_reach (demo_store, d)" "get_if d 0 = Some l" "role l = 1" "fid \<noteq> FLOWID_INVALID"
      "dhd_flowid_find d 0 5 [2, 0, 0, 0, 0, 3] = Some fid"
    by (rule demo_flow) blast
  have "a = [2, 0, 0, 0, 0, 3] \<and> p = 5" if "\<not> ETHER_ISMULTI a" "dhd_flowid_find d 0 p a = Some fid" for a p
    using flow_ids_separate [OF d(1), of 0 0 l l a "[2, 0, 0, 0, 0, 3]" p fid 5] d that by (simp add: ETHER_ISMULTI_def)
  then show ?thesis using d by auto
qed

text \<open>
  C13. \<open>dhd_bus_txdata\<close> keeps the order of a flow and loses no packet: the packet either joins the end
  of the stream formed by what the protocol layer has accepted and what the ring's backup queue
  holds, or is freed while that stream stays as it was; the queues of other rings do not change.
\<close>

theorem txdata_keeps_order:
  assumes "fr_inv s d qs" and "unat fid < unat (num_flow_rings d)" and "pkt_unqueued s d p"
  shows "\<exists>s' d' ret qs'. dhd_bus_txdata prot s d fid p = Some (s', d', ret) \<and> fr_inv s' d' qs' \<and>
           (\<forall>k. k \<noteq> unat fid \<longrightarrow> qs' ! k = qs ! k) \<and>
           (pfreed s' = pfreed s \<and> tx_log d' @ qs' ! unat fid = tx_log d @ qs ! unat fid @ [p] \<or>
            pfreed s' = p # pfreed s \<and> tx_log d' @ qs' ! unat fid = tx_log d @ qs ! unat fid)"
  using txdata_inv [OF assms(1,2) pkt_unqueued_idle [OF assms(1,3)], of prot] by (simp add: tx_outcome_def)

theorem txdata_keeps_order_witness:
  "\<exists>qs s' d' ret. fr_inv demo_store demo_ap qs \<and>
     dhd_bus_txdata (\<lambda>_ _. 0) demo_store demo_ap 3 7 = Some (s', d', ret)"
proof -
  obtain qs where inv: "fr_inv demo_store demo_ap qs" using fr_reach_inv [OF demo_reach(1)] by auto
  have "unat (3 :: u16) < unat (num_flow_rings demo_ap)" using demo_put_if(4) [of 1] by (simp add: demo_ap_def)
  from txdata_keeps_order [OF inv this demo_unqueued, of "\<lambda>_ _. 0"] inv show ?thesis by blast
qed

text \<open>
  C14. \<open>dhd_flow_rings_delete_for_peer\<close> asks for the deletion of exactly the active rings of that peer
  on that interface: those are marked, every other ring is left as it was.
\<close>

theorem delete_for_peer_exact:
  assumes reach: "fr_reach (s, d)" and i: "unat ifindex < DHD_MAX_IFS"
    and del: "dhd_flow_rings_delete_for_peer s d ifindex addr = Some (s', d')" and g: "get_ring d j = Some n"
  shows "\<exists>n'. get_ring d' j = Some n' \<and> active n' = active n \<and> finfo n' = finfo n \<and>
           (if active n \<and> fi_ifindex (finfo n) = ifindex \<and> da (finfo n) = addr
            then status n' = FLOW_RING_STATUS_DELETE_PENDING else n' = n)"
proof -
  obtain qs where inv: "fr_inv s d qs" using fr_reach_inv [OF reach] by auto
  have ft: "flow_ring_table d \<noteq> None" using inv by (auto simp: fr_inv_def tables_ok_def)
  let ?P = "\<lambda>n. active n \<and> fi_ifindex (finfo n) = ifindex \<and> da (finfo n) = addr \<and> status n \<noteq> FLOW_RING_STATUS_DELETE_PENDING"
  have "delete_loop ?P (unat (num_flow_rings d)) 0 s d = Some (s', d')"
    using del ft i by (auto simp: dhd_flow_rings_delete_for_peer_def)
  then obtain n' where "get_ring d' j = Some n'" "delete_marked ?P n n'"
    using delete_loop_inv [OF inv, of 0 "unat (num_flow_rings d)" ?P] g by auto
  then show ?thesis by (auto simp: delete_marked_def split: if_splits)
qed

theorem delete_for_peer_exact_witness:
  "\<exists>d fid s' d' n n'. dhd_flow_rings_delete_for_peer demo_store d 0 [2, 0, 0, 0, 0, 3] = Some (s', d') \<and>
     get_ring d (unat fid) = Some n \<and> active n \<and> get_ring d' (unat (fid :: u16)) = Some n' \<and> active n'"
proof -
  obtain d n and fid :: u16 where d: "fr_reach (demo_store, d)" "get_ring d (unat fid) = Some n" "active n"
    by (rule demo_flow) blast
  obtain qs where inv: "fr_inv demo_store d qs" using fr_reach_inv [OF d(1)] by auto
  obtain s' d' where del: "dhd_flow_rings_delete_for_peer demo_store d 0 [2, 0, 0, 0, 0, 3] = Some (s', d')"
    using rings_delete_inv(2) [OF inv, of 0 "[2, 0, 0, 0, 0, 3]"] by auto
  obtain n' where "get_ring d' (unat fid) = Some n'" "active n'"
    using delete_for_peer_exact [OF d(1) _ del d(2)] d(3) by auto
  with del d(2,3) show ?thesis by blast
qed

text \<open>
  C15. Tear-down leaves nothing behind: it returns, the ring table, the lookup table and the id
  allocator are gone, and every packet that was queued has been freed exactly once.
\<close>

theorem flow_rings_deinit_frees_all:
  assumes "fr_inv s d qs" and "flow_rings_inited d"
  shows "\<exists>s' d'. dhd_flow_rings_deinit s d = Some (s', d') \<and> \<not> flow_rings_inited d' \<and> flow_ring_table d' = None \<and>
           if_lkup d' = None \<and> flowid_allocator d' = None \<and> num_flow_rings d' = 0 \<and>
           mset (pfreed s') = mset (pfreed s) + mset (concat qs)"
  using deinit_inv [OF assms] .

theorem flow_rings_deinit_frees_all_witness:
  "\<exists>s' d'. dhd_flow_rings_deinit demo_store demo_ap = Some (s', d') \<and> flow_ring_table d' = None"
proof -
  obtain qs where inv: "fr_inv demo_store demo_ap qs" using fr_reach_inv [OF demo_reach(1)] by auto
  from flow_rings_deinit_frees_all [OF inv] demo_put_if(5) [of 1] show ?thesis by (auto simp: demo_ap_def)
qed

text \<open>
  On a station interface a flow to the access point may get the ring of a TDLS peer: when the
  peer's flow is entered first and its hash equals the priority, \<open>dhd_flowid_find\<close> for any other
  destination of that priority takes the head of that chain and returns the peer's ring.
\<close>

theorem sta_flow_takes_tdls_ring:
  assumes reach: "fr_reach (s, d)" and i: "unat ifindex < DHD_MAX_IFS"
    and l: "get_if d ifindex = Some l" "role l = WLC_E_IF_ROLE_STA" "if_status l"
    and peer: "tdls_peer_count d \<noteq> 0" "is_tdls_destination d peer" "\<not> ETHER_ISMULTI peer"
    and dst: "\<not> is_tdls_destination d dst"
    and hash: "DHD_FLOWRING_HASHINDEX peer prio' = unat prio" "fl_hash l ! unat prio = []"
    and look: "dhd_flowid_lookup True create d ifindex prio' src peer = Some (d', BCME_OK, Some fid)"
  shows "dhd_flowid_find d' ifindex prio dst = Some fid"
proof -
  obtain qs where inv: "fr_inv s d qs" using fr_reach_inv [OF reach] by auto
  obtain ids tbl lk where tok: "tables_ok d ids tbl lk" using inv by (auto simp: fr_inv_def)
  have len: "length (fl_hash l) = 256" using tables_ok_if [OF tok i] l(1) by simp
  have slot: "fst (find_slot d l prio' peer) = unat prio" using l(2) peer hash(1) by (simp add: find_slot_def)
  have find: "dhd_flowid_find d ifindex prio' peer = Some FLOWID_INVALID"
    using dhd_flowid_find_slot [OF tok i, of prio' peer] tables_ok_if(1) [OF tok i] l(1) slot hash(2) by simp
  from inv i find l(1,3) show ?thesis
  proof (cases rule: lookup_unknown [where create = create and src = src])
    case (full d'')
    then show ?thesis using look by simp
  next
    case (new d'' fid' n h e)
    have "create = BCME_OK" using look new(1) by (simp split: if_splits)
    then have eq: "d'' = d'" "fid' = fid" using look new(1) by simp_all
    have h: "h = unat prio" using new(10) peer(3) slot by simp
    have td: "is_tdls_destination d' dst = is_tdls_destination d dst" using new(11) by (simp add: eq is_tdls_destination_def)
    show ?thesis
      using new(8,9) l(2) dst h len hash(2) unat_u8_less [of prio] by (simp add: eq dhd_flowid_find_def td)
  qed
qed

lemma demo_tdls_flow:
  obtains d' fid where "dhd_flowid_lookup True 0 demo_sta 0 0 [2, 0, 0, 0, 0, 2] [2, 0, 0, 0, 0, 1] = Some (d', BCME_OK, Some fid)"
proof -
  obtain qs where inv: "fr_inv demo_store demo_sta qs" using fr_reach_inv [OF demo_reach(2)] by auto
  have up: "if_status (demo_if 0)" by (simp add: demo_if_def)
  have z: "unat (0 :: u8) < 16" by simp
  from inv z demo_find [of 0 0 "[2, 0, 0, 0, 0, 1]", folded demo_sta_def] demo_put_if(1) [of 0, folded demo_sta_def] up
  show thesis
  proof (cases rule: lookup_unknown [where create = 0 and src = "[2, 0, 0, 0, 0, 2]"])
    case (full d')
    then show thesis using demo_init_ok(3) demo_put_if(6) [of 0] by (auto simp: demo_sta_def)
  next
    case (new d' fid n h e)
    then show thesis using that by simp
  qed
qed

theorem sta_flow_takes_tdls_ring_witness:
  "\<exists>d' fid. dhd_flowid_lookup True 0 demo_sta 0 0 [2, 0, 0, 0, 0, 2] [2, 0, 0, 0, 0, 1] = Some (d', BCME_OK, Some fid) \<and>
     dhd_flowid_find d' 0 1 [0, 1, 2, 3, 4, 5] = Some fid"
proof -
  obtain d' fid where look: "dhd_flowid_lookup True 0 demo_sta 0 0 [2, 0, 0, 0, 0, 2] [2, 0, 0, 0, 0, 1] = Some (d', BCME_OK, Some fid)"
    by (rule demo_tdls_flow)
  have z: "unat (0 :: u8) < 16" by simp
  have l: "get_if demo_sta 0 = Some (demo_if 0)" "tdls_peer_count demo_sta \<noteq> 0"
    and td: "is_tdls_destination demo_sta [2, 0, 0, 0, 0, 1]" "\<not> is_tdls_destination demo_sta [0, 1, 2, 3, 4, 5]"
    using demo_put_if [of 0] by (simp_all add: demo_sta_def is_tdls_destination_def)
  have h: "DHD_FLOWRING_HASHINDEX [2, 0, 0, 0, 0, 1] 0 = unat (1 :: u8)"
    by (simp add: DHD_FLOWRING_HASHINDEX_def)
  have m: "\<not> ETHER_ISMULTI [2, 0, 0, 0, 0, 1]" by (simp add: ETHER_ISMULTI_def)
  have f: "role (demo_if 0) = 0" "if_status (demo_if 0)" "fl_hash (demo_if 0) ! unat (1 :: u8) = []"
    by (simp_all add: demo_if_def)
  have "dhd_flowid_find d' 0 1 [0, 1, 2, 3, 4, 5] = Some fid"
    by (rule sta_flow_takes_tdls_ring [OF demo_reach(2) z l(1) f(1,2) l(2) td(1) m td(2) h f(3) look])
  then show ?thesis using look by blast
qed

text \<open>
  A failed create request is not undone: the first lookup of a new flow whose
  \<open>dhd_prot_flow_ring_create\<close> fails reports \<open>BCME_ERROR\<close>, but its entry, id and pending ring stay; the next
  lookup reports \<open>BCME_OK\<close> for a ring the firmware was never asked to create.
\<close>

theorem failed_create_reported_ok_later:
  assumes reach: "fr_reach (s, d)" and i: "unat ifindex < DHD_MAX_IFS"
    and find: "dhd_flowid_find d ifindex prio dst = Some FLOWID_INVALID" and l: "get_if d ifindex = Some l" "if_status l"
    and uni: "ETHER_ISMULTI dst \<longrightarrow> \<not> is_tdls_destination d dst"
    and ids: "flowid_allocator d = Some ids" "0 \<le> stack_idx ids" and fail: "create \<noteq> BCME_OK"
  shows "\<exists>d' fid. dhd_flowid_lookup True create d ifindex prio src dst = Some (d', BCME_ERROR, None) \<and>
           dhd_flowid_lookup True create d' ifindex prio src dst = Some (d', BCME_OK, Some fid)"
proof -
  obtain qs where inv: "fr_inv s d qs" using fr_reach_inv [OF reach] by auto
  from inv i find l show ?thesis
  proof (cases rule: lookup_unknown [where create = create and src = src])
    case (full d')
    then show ?thesis using ids by fastforce
  next
    case (new d' fid n h e)
    have f: "dhd_flowid_find d' ifindex prio dst = Some fid" using new(7) uni by simp
    obtain n' where "get_ring d' (unat fid) = Some n'" "dhd_flowid_lookup True create d' ifindex prio src dst =
      (if status n' = FLOW_RING_STATUS_OPEN \<or> status n' = FLOW_RING_STATUS_PENDING
       then Some (d', BCME_OK, Some fid) else Some (d', BCME_ERROR, Some FLOWID_INVALID))"
      by (rule lookup_known [where create = create and src = src, OF new(2) i f new(3)])
    then show ?thesis using new(1,4,6) fail by auto
  qed
qed

theorem failed_create_reported_ok_later_witness:
  "\<exists>d' fid. dhd_flowid_lookup True BCME_NOMEM demo_ap 0 5 [2, 0, 0, 0, 0, 2] [2, 0, 0, 0, 0, 3] = Some (d', BCME_ERROR, None) \<and>
     dhd_flowid_lookup True BCME_NOMEM d' 0 5 [2, 0, 0, 0, 0, 2] [2, 0, 0, 0, 0, 3] = Some (d', BCME_OK, Some fid)"
proof -
  obtain ids where "flowid_allocator demo_ap = Some ids" "0 \<le> stack_idx ids"
    using demo_init_ok(3) demo_put_if(6) [of 1] by (auto simp: demo_ap_def)
  then show ?thesis
    using demo_find [of 1] demo_put_if(1) [of 1]
    by (intro failed_create_reported_ok_later [OF demo_reach(1), of _ _ _ "demo_if 1"])
      (simp_all add: demo_ap_def demo_if_def ETHER_ISMULTI_def)
qed

end
