(* ===== verification/Xtlv.thy ===== *)
theory Xtlv
  imports Byte_Buf
begin

text \<open>
  Records with 16-bit id and length (\<open>bcm_xtlv_t\<close>): \<open>shared/bcmxtlv.c\<close> and the \<open>BCM_XTLV_*\<close> macros of
  \<open>include/bcmutils.h\<close>. A record is a little-endian id and length, the data and, with
  \<open>BCM_XTLV_OPTION_ALIGN32\<close>, padding to a multiple of four bytes that is neither written nor read. A
  buffer is the block of memory the caller passes, which may be longer than the length it states;
  a pointer is an offset into it.
\<close>

section \<open>Sizes\<close>

type_synonym bcm_xtlv_opts = u16

abbreviation (input) BCM_XTLV_OPTION_ALIGN32 :: u16 where "BCM_XTLV_OPTION_ALIGN32 \<equiv> 1"
abbreviation (input) BCM_XTLV_HDR_SIZE :: nat where "BCM_XTLV_HDR_SIZE \<equiv> 4"

definition ALIGN_SIZE :: "int \<Rightarrow> int \<Rightarrow> int" where
  "ALIGN_SIZE sz boundary = (sz + boundary - 1) AND NOT (boundary - 1)"

definition bcm_xtlv_size_for_data :: "int \<Rightarrow> bcm_xtlv_opts \<Rightarrow> int" where
  "bcm_xtlv_size_for_data dlen opts =
     (if opts AND BCM_XTLV_OPTION_ALIGN32 \<noteq> 0 then ALIGN_SIZE (dlen + int BCM_XTLV_HDR_SIZE) 4
      else dlen + int BCM_XTLV_HDR_SIZE)"

definition BCM_XTLV_ID :: "bytes \<Rightarrow> nat \<Rightarrow> u16 option" where
  "BCM_XTLV_ID buf elt = ltoh16_ua buf elt"

definition BCM_XTLV_LEN :: "bytes \<Rightarrow> nat \<Rightarrow> u16 option" where
  "BCM_XTLV_LEN buf elt = ltoh16_ua buf (elt + 2)"

definition bcm_xtlv_size :: "bytes \<Rightarrow> nat \<Rightarrow> bcm_xtlv_opts \<Rightarrow> int option" where
  "bcm_xtlv_size buf elt opts = do {
     len \<leftarrow> BCM_XTLV_LEN buf elt;
     Some (bcm_xtlv_size_for_data (uint len) opts)
   }"

definition bcm_valid_xtlv :: "bytes \<Rightarrow> nat \<Rightarrow> int \<Rightarrow> bcm_xtlv_opts \<Rightarrow> bool option" where
  "bcm_valid_xtlv buf elt buflen opts = do {
     sz \<leftarrow> bcm_xtlv_size buf elt opts;
     Some (sz \<le> buflen)
   }"

definition bcm_next_xtlv :: "bytes \<Rightarrow> nat \<Rightarrow> int \<Rightarrow> bcm_xtlv_opts \<Rightarrow> (nat option \<times> int) option" where
  "bcm_next_xtlv buf elt buflen opts = do {
     sz \<leftarrow> bcm_xtlv_size buf elt opts;
     let elt = elt + nat sz;
     let buflen = buflen - sz;
     ok \<leftarrow> bcm_valid_xtlv buf elt buflen opts;
     Some (if \<not> ok then None else Some elt, buflen)
   }"

section \<open>Appending records\<close>

text \<open>\<open>head\<close> is offset 0 of the block \<open>mem\<close>, \<open>cur\<close> the current position.\<close>

record bcm_xtlvbuf =
  xb_opts :: bcm_xtlv_opts
  xb_size :: u16
  xb_mem :: bytes
  xb_cur :: nat

text \<open>A null pointer to the buffer descriptor is \<open>None\<close>.\<close>

definition bcm_xtlv_buf_init :: "bcm_xtlvbuf option \<Rightarrow> bytes option \<Rightarrow> u16 \<Rightarrow> bcm_xtlv_opts \<Rightarrow> bcm_xtlvbuf option \<times> int" where
  "bcm_xtlv_buf_init tlv_buf buf len opts =
     (case (tlv_buf, buf) of
        (Some tb, Some mem) \<Rightarrow>
          if len = 0 then (tlv_buf, BCME_BADARG)
          else (Some (tb\<lparr>xb_opts := opts, xb_size := len, xb_mem := mem, xb_cur := 0\<rparr>), BCME_OK)
      | _ \<Rightarrow> (tlv_buf, BCME_BADARG))"

definition bcm_xtlv_buf_len :: "bcm_xtlvbuf option \<Rightarrow> u16" where
  "bcm_xtlv_buf_len tbuf = (case tbuf of None \<Rightarrow> 0 | Some tb \<Rightarrow> of_nat (xb_cur tb))"

definition bcm_xtlv_buf_rlen :: "bcm_xtlvbuf option \<Rightarrow> u16" where
  "bcm_xtlv_buf_rlen tbuf = (case tbuf of None \<Rightarrow> 0 | Some tb \<Rightarrow> xb_size tb - bcm_xtlv_buf_len tbuf)"

definition bcm_xtlv_buf :: "bcm_xtlvbuf option \<Rightarrow> nat option" where
  "bcm_xtlv_buf tbuf = map_option xb_cur tbuf"

definition bcm_xtlv_head :: "bcm_xtlvbuf option \<Rightarrow> nat option" where
  "bcm_xtlv_head tbuf = map_option (\<lambda>_. 0) tbuf"

text \<open>
  What the four \<open>put\<close> functions share: the checks, the header, the bytes of the value, the advance.
  \<open>value\<close> is \<open>None\<close> when the source of the copy is too short.
\<close>

definition put_record ::
  "bcm_xtlvbuf option \<Rightarrow> u16 \<Rightarrow> u16 \<Rightarrow> bytes option \<Rightarrow> (bcm_xtlvbuf option \<times> int) option" where
  "put_record tbuf type len value =
     (case tbuf of
        None \<Rightarrow> Some (tbuf, BCME_BADARG)
      | Some tb \<Rightarrow>
          let sz = bcm_xtlv_size_for_data (uint len) (xb_opts tb)
          in if uint (bcm_xtlv_buf_rlen tbuf) < sz then Some (tbuf, BCME_NOMEM)
             else do {
               xtlv \<leftarrow> bcm_xtlv_buf tbuf;
               mem \<leftarrow> htol16_ua_store type (xb_mem tb) xtlv;
               mem \<leftarrow> htol16_ua_store len mem (xtlv + 2);
               data \<leftarrow> value;
               mem \<leftarrow> mem_copy_to mem (xtlv + BCM_XTLV_HDR_SIZE) data;
               Some (Some (tb\<lparr>xb_mem := mem, xb_cur := xtlv + nat sz\<rparr>), BCME_OK)
             })"

definition bcm_xtlv_put_data :: "bcm_xtlvbuf option \<Rightarrow> u16 \<Rightarrow> bytes \<Rightarrow> u16 \<Rightarrow> (bcm_xtlvbuf option \<times> int) option" where
  "bcm_xtlv_put_data tbuf type data dlen = put_record tbuf type dlen (mem_copy_from data 0 (unat dlen))"

definition bcm_xtlv_put_8 :: "bcm_xtlvbuf option \<Rightarrow> u16 \<Rightarrow> u8 \<Rightarrow> (bcm_xtlvbuf option \<times> int) option" where
  "bcm_xtlv_put_8 tbuf type data = put_record tbuf type 1 (Some [data])"

definition bcm_xtlv_put_16 :: "bcm_xtlvbuf option \<Rightarrow> u16 \<Rightarrow> u16 \<Rightarrow> (bcm_xtlvbuf option \<times> int) option" where
  "bcm_xtlv_put_16 tbuf type data = put_record tbuf type 2 (Some (le16 data))"

definition bcm_xtlv_put_32 :: "bcm_xtlvbuf option \<Rightarrow> u16 \<Rightarrow> u32 \<Rightarrow> (bcm_xtlvbuf option \<times> int) option" where
  "bcm_xtlv_put_32 tbuf type data = put_record tbuf type 4 (Some (le32 data))"

section \<open>Single records\<close>

text \<open>The result: what was copied to \<open>dst\<close>, if anything was, the new position and the code.\<close>

definition bcm_unpack_xtlv_entry ::
  "bytes \<Rightarrow> nat \<Rightarrow> u16 \<Rightarrow> u16 \<Rightarrow> bcm_xtlv_opts \<Rightarrow> (bytes option \<times> nat \<times> int) option" where
  "bcm_unpack_xtlv_entry buf tlv_buf xpct_type xpct_len opts = do {
     len \<leftarrow> BCM_XTLV_LEN buf tlv_buf;
     type \<leftarrow> BCM_XTLV_ID buf tlv_buf;
     sz \<leftarrow> bcm_xtlv_size buf tlv_buf opts;
     if len = 0 then Some (None, tlv_buf + nat sz, BCME_OK)
     else if type \<noteq> xpct_type \<or> xpct_len < len then Some (None, tlv_buf, BCME_BADARG)
     else do {
       data \<leftarrow> mem_copy_from buf (tlv_buf + BCM_XTLV_HDR_SIZE) (unat len);
       Some (Some data, tlv_buf + nat sz, BCME_OK)
     }
   }"

definition bcm_pack_xtlv_entry ::
  "bytes \<Rightarrow> nat \<Rightarrow> u16 \<Rightarrow> u16 \<Rightarrow> u16 \<Rightarrow> bytes \<Rightarrow> bcm_xtlv_opts \<Rightarrow> (bytes \<times> nat \<times> u16 \<times> int) option" where
  "bcm_pack_xtlv_entry buf tlv_buf buflen type len src opts = do {
     let sz = bcm_xtlv_size_for_data (uint len) opts;
     if uint buflen < sz then Some (buf, tlv_buf, buflen, BCME_BADLEN)
     else do {
       buf \<leftarrow> htol16_ua_store type buf tlv_buf;
       buf \<leftarrow> htol16_ua_store len buf (tlv_buf + 2);
       data \<leftarrow> mem_copy_from src 0 (unat len);
       buf \<leftarrow> mem_copy_to buf (tlv_buf + BCM_XTLV_HDR_SIZE) data;
       Some (buf, tlv_buf + nat sz, buflen - word_of_int sz, BCME_OK)
     }
   }"

section \<open>Whole buffers\<close>

lemma ALIGN_SIZE_4: "ALIGN_SIZE n 4 = (n + 3) div 4 * 4"
proof -
  have "m AND NOT (mask 2) = push_bit 2 (drop_bit 2 m)" for m :: int
  proof (rule bit_eqI)
    fix k
    show "bit (m AND NOT (mask 2)) k = bit (push_bit 2 (drop_bit 2 m)) k"
      by (cases "2 \<le> k") (auto simp: bit_simps dest!: le_Suc_ex)
  qed
  moreover have "mask 2 = (3 :: int)" by (simp add: mask_eq_exp_minus_1)
  ultimately have "(n + 3) AND NOT 3 = push_bit 2 (drop_bit 2 (n + 3))" by metis
  then show ?thesis by (simp add: ALIGN_SIZE_def push_bit_eq_mult drop_bit_eq_div ac_simps)
qed

lemma xtlv_size_bounds: "0 \<le> dlen \<Longrightarrow> dlen + 4 \<le> bcm_xtlv_size_for_data dlen opts"
  "bcm_xtlv_size_for_data dlen opts \<le> dlen + 7"
  by (auto simp: bcm_xtlv_size_for_data_def ALIGN_SIZE_4)

lemma xtlv_size_pos: "4 \<le> bcm_xtlv_size_for_data (uint len) opts"
  using xtlv_size_bounds(1) [of "uint len" opts] unsigned_greater_eq [of len, where 'a = int] by linarith

text \<open>
  Unpacking with a callback on a context. The callback reads the data and the length it is given and
  returns its context and a code.
\<close>

function unpack_loop ::
  "('c \<Rightarrow> bytes \<Rightarrow> u16 \<Rightarrow> u16 \<Rightarrow> 'c \<times> int) \<Rightarrow> 'c \<Rightarrow> bytes \<Rightarrow> nat \<Rightarrow> int \<Rightarrow> bcm_xtlv_opts \<Rightarrow> int \<Rightarrow> ('c \<times> int) option" where
  "unpack_loop cbfn ctx buf tlv_buf sbuflen opts res =
     (if sbuflen < int BCM_XTLV_HDR_SIZE then Some (ctx, res)
      else
        case (BCM_XTLV_LEN buf tlv_buf, BCM_XTLV_ID buf tlv_buf) of
          (Some len, Some type) \<Rightarrow>
            (let sz = bcm_xtlv_size_for_data (uint len) opts; sbuflen = sbuflen - sz
             in if sbuflen < 0 then Some (ctx, res)
                else case mem_copy_from buf (tlv_buf + BCM_XTLV_HDR_SIZE) (unat len) of
                       None \<Rightarrow> None
                     | Some data \<Rightarrow>
                         let (ctx, res) = cbfn ctx data type len
                         in if res \<noteq> BCME_OK then Some (ctx, res)
                            else unpack_loop cbfn ctx buf (tlv_buf + nat sz) sbuflen opts res)
        | _ \<Rightarrow> None)"
  by pat_completeness auto
termination
proof (relation "measure (\<lambda>(_, _, _, _, sbuflen, _, _). nat sbuflen)", goal_cases)
  case (2 cbfn ctx buf tlv_buf sbuflen opts res a b len)
  then show ?case using xtlv_size_pos [of len opts] by auto
qed simp

definition bcm_unpack_xtlv_buf ::
  "('c \<Rightarrow> bytes \<Rightarrow> u16 \<Rightarrow> u16 \<Rightarrow> 'c \<times> int) \<Rightarrow> 'c \<Rightarrow> bytes \<Rightarrow> u16 \<Rightarrow> bcm_xtlv_opts \<Rightarrow> ('c \<times> int) option" where
  "bcm_unpack_xtlv_buf cbfn ctx buf buflen opts = unpack_loop cbfn ctx buf 0 (uint buflen) opts BCME_OK"

text \<open>
  Packing with callbacks: \<open>get_next\<close> gives the id and length of the next record and whether there are
  more, \<open>pack_next\<close> the bytes it writes. The result: memory, number of bytes packed, context, code.
\<close>

function pack_loop ::
  "('c \<Rightarrow> 'c \<times> bool \<times> u16 \<times> u16) \<Rightarrow> ('c \<Rightarrow> u16 \<Rightarrow> u16 \<Rightarrow> 'c \<times> bytes) \<Rightarrow> 'c \<Rightarrow> bytes \<Rightarrow> nat \<Rightarrow> nat \<Rightarrow>
    bcm_xtlv_opts \<Rightarrow> bool \<Rightarrow> (bytes \<times> nat \<times> 'c \<times> int) option" where
  "pack_loop get_next pack_next ctx mem buf endp opts left =
     (if \<not> (left \<and> buf < endp) then Some (mem, buf, ctx, if left then BCME_BUFTOOSHORT else BCME_OK)
      else
        let (ctx, left, tlv_id, tlv_len) = get_next ctx; sz = nat (bcm_xtlv_size_for_data (uint tlv_len) opts)
        in if endp \<le> buf + sz then Some (mem, buf, ctx, BCME_BUFTOOSHORT)
           else
             case do {
                    mem \<leftarrow> htol16_ua_store tlv_id mem buf;
                    mem \<leftarrow> htol16_ua_store tlv_len mem (buf + 2);
                    let (ctx, data) = pack_next ctx tlv_id tlv_len;
                    mem \<leftarrow> mem_copy_to mem (buf + BCM_XTLV_HDR_SIZE) data;
                    Some (mem, ctx)
                  } of
               None \<Rightarrow> None
             | Some (mem, ctx) \<Rightarrow> pack_loop get_next pack_next ctx mem (buf + sz) endp opts left)"
  by pat_completeness auto
termination
proof (relation "measure (\<lambda>(_, _, _, _, buf, endp, _, _). endp - buf)", goal_cases)
  case (2 get_next pack_next ctx mem buf endp opts left p ctx' q left' r tlv_id tlv_len sz)
  then have "0 < sz" using xtlv_size_pos [of tlv_len opts] by simp
  then show ?case using 2 by auto
qed simp

definition bcm_pack_xtlv_buf ::
  "('c \<Rightarrow> 'c \<times> bool \<times> u16 \<times> u16) \<Rightarrow> ('c \<Rightarrow> u16 \<Rightarrow> u16 \<Rightarrow> 'c \<times> bytes) \<Rightarrow> 'c \<Rightarrow> bytes \<Rightarrow> u16 \<Rightarrow>
    bcm_xtlv_opts \<Rightarrow> (bytes \<times> nat \<times> 'c \<times> int) option" where
  "bcm_pack_xtlv_buf get_next pack_next ctx tlv_buf buflen opts =
     pack_loop get_next pack_next ctx tlv_buf 0 (unat buflen) opts True"

text \<open>
  A descriptor names a type, a length and a place in memory. The list of descriptors ends at the
  first whose type is 0; a list without one has no outcome.
\<close>

record xtlv_desc =
  xd_type :: u16
  xd_len :: u16
  xd_ptr :: bytes

fun bcm_pack_xtlv_buf_from_mem ::
  "bytes \<Rightarrow> nat \<Rightarrow> u16 \<Rightarrow> xtlv_desc list \<Rightarrow> bcm_xtlv_opts \<Rightarrow> (bytes \<times> nat \<times> u16 \<times> int) option" where
  "bcm_pack_xtlv_buf_from_mem buf ptlv buflen [] opts = None"
| "bcm_pack_xtlv_buf_from_mem buf ptlv buflen (item # items) opts =
     (if xd_type item = 0 then Some (buf, ptlv, buflen, BCME_OK)
      else do {
        (buf, ptlv, buflen, ret) \<leftarrow> bcm_pack_xtlv_entry buf ptlv buflen (xd_type item) (xd_len item) (xd_ptr item) opts;
        let res = (if ret \<noteq> BCME_OK then 1 else 0 :: int);
        if res \<noteq> 0 then Some (buf, ptlv, buflen, res)
        else bcm_pack_xtlv_buf_from_mem buf ptlv buflen items opts
      })"

text \<open>The inner loop of the unpacking: the first descriptor with the type of the record.\<close>

fun store_match :: "bytes \<Rightarrow> nat \<Rightarrow> u16 \<Rightarrow> u16 \<Rightarrow> xtlv_desc list \<Rightarrow> (xtlv_desc list \<times> int) option" where
  "store_match buf elt xid len [] = None"
| "store_match buf elt xid len (d # ds) =
     (if xd_type d = 0 then Some (d # ds, BCME_OK)
      else if xid = xd_type d
      then if len \<noteq> xd_len d then Some (d # ds, BCME_BADLEN)
           else do {
             data \<leftarrow> mem_copy_from buf (elt + BCM_XTLV_HDR_SIZE) (unat len);
             dst \<leftarrow> mem_copy_to (xd_ptr d) 0 data;
             Some (d\<lparr>xd_ptr := dst\<rparr> # ds, BCME_OK)
           }
      else do { (ds, res) \<leftarrow> store_match buf elt xid len ds; Some (d # ds, res) })"

partial_function (option) unpack_mem_loop ::
  "bytes \<Rightarrow> nat option \<Rightarrow> int \<Rightarrow> xtlv_desc list \<Rightarrow> int \<Rightarrow> bcm_xtlv_opts \<Rightarrow> (xtlv_desc list \<times> int \<times> int) option" where
  "unpack_mem_loop buf elt buflen items res opts =
     (case elt of
        None \<Rightarrow> Some (items, buflen, res)
      | Some e \<Rightarrow>
          if res \<noteq> BCME_OK then Some (items, buflen, res)
          else do {
            len \<leftarrow> BCM_XTLV_LEN buf e;
            xid \<leftarrow> BCM_XTLV_ID buf e;
            (items, res) \<leftarrow> store_match buf e xid len items;
            (elt, buflen) \<leftarrow> bcm_next_xtlv buf e buflen opts;
            unpack_mem_loop buf elt buflen items res opts
          })"

definition bcm_unpack_xtlv_buf_to_mem ::
  "bytes \<Rightarrow> int \<Rightarrow> xtlv_desc list option \<Rightarrow> bcm_xtlv_opts \<Rightarrow> (xtlv_desc list option \<times> int \<times> int) option" where
  "bcm_unpack_xtlv_buf_to_mem tlv_buf buflen items opts = do {
     ok \<leftarrow> bcm_valid_xtlv tlv_buf 0 buflen opts;
     (case (ok, items) of
        (True, Some ds) \<Rightarrow> do {
          (ds, buflen, res) \<leftarrow> unpack_mem_loop tlv_buf (Some 0) buflen ds BCME_OK opts;
          Some (Some ds, buflen, if res = BCME_OK \<and> buflen \<noteq> 0 then BCME_BUFTOOSHORT else res)
        }
      | _ \<Rightarrow> Some (items, buflen, BCME_BADARG))
   }"

text \<open>The first record with an id: the offset of its data and its length.\<close>

function get_data_loop :: "bytes \<Rightarrow> nat \<Rightarrow> int \<Rightarrow> u16 \<Rightarrow> bcm_xtlv_opts \<Rightarrow> (nat \<times> u16) option option" where
  "get_data_loop buf tlv_buf sbuflen xid opts =
     (if sbuflen < int BCM_XTLV_HDR_SIZE then Some None
      else
        case (BCM_XTLV_ID buf tlv_buf, BCM_XTLV_LEN buf tlv_buf) of
          (Some type, Some len) \<Rightarrow>
            (let sz = bcm_xtlv_size_for_data (uint len) opts; sbuflen = sbuflen - sz
             in if sbuflen < 0 then Some None
                else if xid = type then Some (Some (tlv_buf + BCM_XTLV_HDR_SIZE, len))
                else get_data_loop buf (tlv_buf + nat sz) sbuflen xid opts)
        | _ \<Rightarrow> None)"
  by pat_completeness auto
termination
proof (relation "measure (\<lambda>(_, _, sbuflen, _, _). nat sbuflen)", goal_cases)
  case (2 buf tlv_buf sbuflen xid opts a b type len)
  then show ?case using xtlv_size_pos [of len opts] by auto
qed simp

definition bcm_get_data_from_xtlv_buf :: "bytes \<Rightarrow> u16 \<Rightarrow> u16 \<Rightarrow> bcm_xtlv_opts \<Rightarrow> (nat \<times> u16) option option" where
  "bcm_get_data_from_xtlv_buf tlv_buf buflen xid opts = get_data_loop tlv_buf 0 (uint buflen) xid opts"

declare unpack_loop.simps [simp del] pack_loop.simps [simp del] get_data_loop.simps [simp del]

end
