(* ===== verification/Xtlv_Props.thy ===== *)
theory Xtlv_Props
  imports Xtlv
begin

text \<open>
  Properties of the record buffers: what a packed buffer looks like (\<open>packed\<close>), that unpacking gives
  back what was packed, that parsing never leaves the stated length, and where the code reads one
  header too far.
\<close>

section \<open>Packed buffers\<close>

definition xsize :: "u16 \<Rightarrow> bcm_xtlv_opts \<Rightarrow> nat" where
  "xsize len opts = nat (bcm_xtlv_size_for_data (uint len) opts)"

lemma xsize_bounds: "unat len + 4 \<le> xsize len opts" "xsize len opts < 65544" "int (xsize len opts) = bcm_xtlv_size_for_data (uint len) opts"
proof -
  have "int (unat len + 4) \<le> bcm_xtlv_size_for_data (uint len) opts"
    using xtlv_size_bounds(1) [of "uint len" opts] by simp
  then show "unat len + 4 \<le> xsize len opts" unfolding xsize_def by (metis nat_int nat_mono)
  have "uint len < 65536" using unsigned_less [of len, where 'a = int] by simp
  then show "xsize len opts < 65544"
    using xtlv_size_bounds(2) [of "uint len" opts] by (simp add: xsize_def)
  show "int (xsize len opts) = bcm_xtlv_size_for_data (uint len) opts"
    using xtlv_size_pos [of len opts] by (simp add: xsize_def)
qed

text \<open>The bytes of the descriptors \<open>ds\<close>, one record after the other, with any padding.\<close>

fun packed :: "bcm_xtlv_opts \<Rightarrow> xtlv_desc list \<Rightarrow> bytes \<Rightarrow> bool" where
  "packed opts [] bs \<longleftrightarrow> bs = []"
| "packed opts (d # ds) bs \<longleftrightarrow>
     (\<exists>pad rest. bs = le16 (xd_type d) @ le16 (xd_len d) @ xd_ptr d @ pad @ rest \<and>
        4 + unat (xd_len d) + length pad = xsize (xd_len d) opts \<and> packed opts ds rest)"

definition desc_ok :: "xtlv_desc \<Rightarrow> bool" where
  "desc_ok d \<longleftrightarrow> xd_type d \<noteq> 0 \<and> length (xd_ptr d) = unat (xd_len d)"

definition total_size :: "bcm_xtlv_opts \<Rightarrow> xtlv_desc list \<Rightarrow> nat" where
  "total_size opts ds = sum_list (map (\<lambda>d. xsize (xd_len d) opts) ds)"

lemma packed_length: "packed opts ds bs \<Longrightarrow> \<forall>d \<in> set ds. desc_ok d \<Longrightarrow> length bs = total_size opts ds"
  by (induction ds arbitrary: bs) (fastforce simp: total_size_def desc_ok_def)+

lemma header_mid:
  assumes "buf = pre @ le16 type @ le16 len @ rest"
  shows "BCM_XTLV_ID buf (length pre) = Some type" "BCM_XTLV_LEN buf (length pre) = Some len"
    "bcm_xtlv_size buf (length pre) opts = Some (int (xsize len opts))"
proof -
  show "BCM_XTLV_ID buf (length pre) = Some type" by (simp add: BCM_XTLV_ID_def assms)
  have "buf = (pre @ le16 type) @ le16 len @ rest" "length pre + 2 = length (pre @ le16 type)" using assms by simp_all
  then show l: "BCM_XTLV_LEN buf (length pre) = Some len" unfolding BCM_XTLV_LEN_def by (metis ltoh16_ua_mid)
  show "bcm_xtlv_size buf (length pre) opts = Some (int (xsize len opts))"
    by (simp add: bcm_xtlv_size_def l xsize_bounds(3))
qed

lemma data_mid:
  assumes "buf = pre @ le16 type @ le16 len @ data @ rest" and "length data = unat len"
  shows "mem_copy_from buf (length pre + 4) (unat len) = Some data"
proof -
  have "buf = (pre @ le16 type @ le16 len) @ data @ rest" "length pre + 4 = length (pre @ le16 type @ le16 len)"
    using assms(1) by simp_all
  then show ?thesis unfolding assms(2) [symmetric] by (metis mem_copy_from_mid)
qed

section \<open>Packing\<close>

lemma split_at: "n \<le> length xs \<Longrightarrow> \<exists>a b. xs = a @ b \<and> length a = n"
  by (intro exI [of _ "take n xs"] exI [of _ "drop n xs"]) simp

text \<open>Writing id, length and data over a piece of memory that has room for the record.\<close>

lemma write_record:
  assumes src: "length src = unat len" and old: "length old = xsize len opts"
  obtains pad where "4 + unat len + length pad = xsize len opts"
    and "\<And>pre post. do {
           buf \<leftarrow> htol16_ua_store type (pre @ old @ post) (length pre);
           buf \<leftarrow> htol16_ua_store len buf (length pre + 2);
           mem_copy_to buf (length pre + 4) src } = Some (pre @ le16 type @ le16 len @ src @ pad @ post)"
proof -
  obtain a r1 where a: "old = a @ r1" "length a = 2" using split_at [of 2 old] old xsize_bounds(1) [of len opts] by auto
  obtain b r2 where b: "r1 = b @ r2" "length b = 2" using split_at [of 2 r1] a old xsize_bounds(1) [of len opts] by auto
  obtain c pad where c: "r2 = c @ pad" "length c = unat len"
    using split_at [of "unat len" r2] a b old xsize_bounds(1) [of len opts] by auto
  show thesis
  proof (rule that [of pad])
    show "4 + unat len + length pad = xsize len opts" using a b c old by simp
    fix pre post :: bytes
    have 1: "htol16_ua_store type (pre @ old @ post) (length pre) = Some (pre @ le16 type @ b @ c @ pad @ post)"
      using mem_copy_to_mid [of a "le16 type" pre "b @ c @ pad @ post"] a b c by (simp add: htol16_ua_store_def)
    have 2: "htol16_ua_store len (pre @ le16 type @ b @ c @ pad @ post) (length pre + 2) =
        Some (pre @ le16 type @ le16 len @ c @ pad @ post)"
      using mem_copy_to_mid [of b "le16 len" "pre @ le16 type" "c @ pad @ post"] b by (simp add: htol16_ua_store_def)
    have 3: "mem_copy_to (pre @ le16 type @ le16 len @ c @ pad @ post) (length pre + 4) src =
        Some (pre @ le16 type @ le16 len @ src @ pad @ post)"
      using mem_copy_to_mid [of c src "pre @ le16 type @ le16 len" "pad @ post"] c src by simp
    show "do { buf \<leftarrow> htol16_ua_store type (pre @ old @ post) (length pre);
           buf \<leftarrow> htol16_ua_store len buf (length pre + 2);
           mem_copy_to buf (length pre + 4) src } = Some (pre @ le16 type @ le16 len @ src @ pad @ post)"
      using 1 2 3 by simp
  qed
qed

lemma pack_entry_result:
  assumes src: "length src = unat len" and old: "length old = xsize len opts" and fits: "xsize len opts \<le> unat buflen"
  obtains pad where "4 + unat len + length pad = xsize len opts"
    and "\<And>pre post. bcm_pack_xtlv_entry (pre @ old @ post) (length pre) buflen type len src opts =
           Some (pre @ le16 type @ le16 len @ src @ pad @ post, length pre + xsize len opts,
                 buflen - of_nat (xsize len opts), BCME_OK)"
proof -
  obtain pad where p: "4 + unat len + length pad = xsize len opts"
    "\<And>pre post. do {
           buf \<leftarrow> htol16_ua_store type (pre @ old @ post) (length pre);
           buf \<leftarrow> htol16_ua_store len buf (length pre + 2);
           mem_copy_to buf (length pre + 4) src } = Some (pre @ le16 type @ le16 len @ src @ pad @ post)"
    by (rule write_record [where type = type, OF src old]) blast
  have room: "\<not> uint buflen < bcm_xtlv_size_for_data (uint len) opts"
    using fits unfolding xsize_bounds(3) [symmetric] by simp
  have sz: "(word_of_int (bcm_xtlv_size_for_data (uint len) opts) :: u16) = of_nat (xsize len opts)"
    unfolding xsize_bounds(3) [symmetric] by simp
  have all: "mem_copy_from src 0 (unat len) = Some src" using src by (simp add: mem_copy_from_def)
  show thesis
  proof (rule that [OF p(1)])
    fix pre post
    show "bcm_pack_xtlv_entry (pre @ old @ post) (length pre) buflen type len src opts =
           Some (pre @ le16 type @ le16 len @ src @ pad @ post, length pre + xsize len opts,
                 buflen - of_nat (xsize len opts), BCME_OK)"
      using p(2) [of pre post] room sz all
      by (simp add: bcm_pack_xtlv_entry_def Let_def xsize_def bind_eq_Some_conv)
  qed
qed

lemma total_size_Cons: "total_size opts (d # ds) = xsize (xd_len d) opts + total_size opts ds"
  by (simp add: total_size_def)

lemma pack_from_mem_result:
  assumes "\<forall>d \<in> set ds. desc_ok d" and "xd_type t = 0" and "total_size opts ds \<le> unat buflen"
    and "length old = total_size opts ds"
  shows "\<exists>bs buflen'. packed opts ds bs \<and>
           bcm_pack_xtlv_buf_from_mem (pre @ old @ post) (length pre) buflen (ds @ [t]) opts =
             Some (pre @ bs @ post, length pre + total_size opts ds, buflen', BCME_OK)"
  using assms
proof (induction ds arbitrary: pre old buflen)
  case Nil
  then show ?case by (simp add: total_size_def)
next
  case (Cons d ds)
  have d: "xd_type d \<noteq> 0" "length (xd_ptr d) = unat (xd_len d)" using Cons.prems(1) by (simp_all add: desc_ok_def)
  let ?n = "xsize (xd_len d) opts"
  obtain old1 old2 where old: "old = old1 @ old2" "length old1 = ?n"
    using split_at [of ?n old] Cons.prems(4) by (auto simp: total_size_Cons)
  have fits: "?n \<le> unat buflen" using Cons.prems(3) by (simp add: total_size_Cons)
  obtain pad where p: "4 + unat (xd_len d) + length pad = ?n"
    "\<And>pre post. bcm_pack_xtlv_entry (pre @ old1 @ post) (length pre) buflen (xd_type d) (xd_len d) (xd_ptr d) opts =
       Some (pre @ le16 (xd_type d) @ le16 (xd_len d) @ xd_ptr d @ pad @ post, length pre + ?n, buflen - of_nat ?n, BCME_OK)"
    by (rule pack_entry_result [where type = "xd_type d", OF d(2) old(2) fits]) blast
  let ?pre = "pre @ le16 (xd_type d) @ le16 (xd_len d) @ xd_ptr d @ pad"
  have lp: "length ?pre = length pre + ?n" using p(1) d(2) by simp
  have left: "total_size opts ds \<le> unat (buflen - of_nat ?n)"
    using Cons.prems(3) unat_sub_of_nat [OF fits] by (simp add: total_size_Cons)
  have "\<exists>bs buflen'. packed opts ds bs \<and>
       bcm_pack_xtlv_buf_from_mem (?pre @ old2 @ post) (length ?pre) (buflen - of_nat ?n) (ds @ [t]) opts =
         Some (?pre @ bs @ post, length ?pre + total_size opts ds, buflen', BCME_OK)"
    by (rule Cons.IH) (use Cons.prems old left in \<open>simp_all add: total_size_Cons\<close>)
  then obtain bs buflen' where b: "packed opts ds bs"
      "bcm_pack_xtlv_buf_from_mem (?pre @ old2 @ post) (length ?pre) (buflen - of_nat ?n) (ds @ [t]) opts =
         Some (?pre @ bs @ post, length ?pre + total_size opts ds, buflen', BCME_OK)" by blast
  have "packed opts (d # ds) (le16 (xd_type d) @ le16 (xd_len d) @ xd_ptr d @ pad @ bs)" using p(1) b(1) by auto
  moreover have "bcm_pack_xtlv_buf_from_mem (pre @ old @ post) (length pre) buflen ((d # ds) @ [t]) opts =
      Some (pre @ (le16 (xd_type d) @ le16 (xd_len d) @ xd_ptr d @ pad @ bs) @ post,
        length pre + total_size opts (d # ds), buflen', BCME_OK)"
    using p(2) [of pre "old2 @ post"] b(2) [unfolded lp] d(1) old(1) by (simp add: total_size_Cons add.assoc)
  ultimately show ?case by blast
qed

section \<open>Unpacking\<close>

text \<open>The inner loop finds the descriptor with the type of the record, if the types are distinct.\<close>

lemma store_match_result:
  assumes "\<forall>x \<in> set es. xd_type x \<noteq> 0 \<and> xd_type x \<noteq> xd_type d"
    and "xd_type e = xd_type d" "xd_len e = xd_len d" "length (xd_ptr e) = unat (xd_len e)" "desc_ok d"
    and "mem_copy_from buf (elt + 4) (unat (xd_len d)) = Some (xd_ptr d)"
  shows "store_match buf elt (xd_type d) (xd_len d) (es @ e # fs) = Some (es @ d # fs, BCME_OK)"
  using assms
proof (induction es)
  case Nil
  have "e\<lparr>xd_ptr := xd_ptr d\<rparr> = d" using Nil by (cases e; cases d) simp
  then show ?case using Nil by (simp add: desc_ok_def mem_copy_to_def)
qed auto

text \<open>
  The loop over the records: the first \<open>k\<close> have been stored; at the end of the last record the code
  looks at the header behind it, so two more bytes of memory after its first two are read.
\<close>

lemma next_xtlv_result:
  assumes buf: "buf = pre @ le16 (xd_type d) @ le16 (xd_len d) @ xd_ptr d @ pad @ rest @ post"
    and d: "desc_ok d" and pad: "4 + unat (xd_len d) + length pad = xsize (xd_len d) opts"
    and more: "packed opts ds rest" "\<forall>d \<in> set ds. desc_ok d" and slack: "4 \<le> length post"
  shows "bcm_next_xtlv buf (length pre) (int (xsize (xd_len d) opts + length rest)) opts =
           Some (if ds = [] then None else Some (length pre + xsize (xd_len d) opts), int (length rest))"
proof -
  let ?n = "xsize (xd_len d) opts"
  let ?pre = "pre @ le16 (xd_type d) @ le16 (xd_len d) @ xd_ptr d @ pad"
  have lp: "length ?pre = length pre + ?n" using d pad by (simp add: desc_ok_def)
  have b: "buf = ?pre @ rest @ post" using buf by simp
  have sz: "bcm_xtlv_size buf (length pre) opts = Some (int ?n)" by (rule header_mid(3)) (use buf in simp)
  show ?thesis
  proof (cases ds)
    case Nil
    then have rest: "rest = []" using more(1) by simp
    have "Suc (length ?pre + 2) < length buf" using b slack by simp
    then obtain w where "ltoh16_ua buf (length ?pre + 2) = Some w" using ltoh16_ua_total by blast
    then have "bcm_xtlv_size buf (length pre + ?n) opts = Some (bcm_xtlv_size_for_data (uint w) opts)"
      unfolding lp [symmetric] by (simp add: bcm_xtlv_size_def BCM_XTLV_LEN_def)
    moreover have "\<not> bcm_xtlv_size_for_data (uint w) opts \<le> 0" using xtlv_size_pos [of w opts] by simp
    ultimately show ?thesis using sz Nil rest by (simp add: bcm_next_xtlv_def bcm_valid_xtlv_def Let_def)
  next
    case (Cons e es)
    then obtain pad' rest' where r: "rest = le16 (xd_type e) @ le16 (xd_len e) @ xd_ptr e @ pad' @ rest'"
        "4 + unat (xd_len e) + length pad' = xsize (xd_len e) opts" using more(1) by auto
    have "bcm_xtlv_size buf (length ?pre) opts = Some (int (xsize (xd_len e) opts))"
      by (rule header_mid(3)) (use b r in simp)
    moreover have "xsize (xd_len e) opts \<le> length rest" using r more(2) Cons by (simp add: desc_ok_def)
    ultimately show ?thesis using sz Cons unfolding lp by (simp add: bcm_next_xtlv_def bcm_valid_xtlv_def Let_def)
  qed
qed

lemma unpack_mem_step:
  assumes buf: "buf = pre @ bs @ post" and pk: "packed opts (d # ds) bs" and ok: "\<forall>d \<in> set (fin @ d # ds). desc_ok d"
    and dist: "distinct (map xd_type (fin @ d # ds))" and slack: "4 \<le> length post" and t: "xd_type t = 0"
    and es: "map xd_type es = map xd_type (d # ds)" "map xd_len es = map xd_len (d # ds)"
      "\<forall>e \<in> set es. length (xd_ptr e) = unat (xd_len e)"
  obtains pad rest e es' where "bs = le16 (xd_type d) @ le16 (xd_len d) @ xd_ptr d @ pad @ rest" and "es = e # es'"
    and "packed opts ds rest" and "4 + unat (xd_len d) + length pad = xsize (xd_len d) opts"
    and "unpack_mem_loop buf (Some (length pre)) (int (length bs)) (fin @ es @ [t]) BCME_OK opts =
           unpack_mem_loop buf (if ds = [] then None else Some (length pre + xsize (xd_len d) opts)) (int (length rest))
             ((fin @ [d]) @ es' @ [t]) BCME_OK opts"
proof -
  obtain pad rest where r: "bs = le16 (xd_type d) @ le16 (xd_len d) @ xd_ptr d @ pad @ rest"
      "4 + unat (xd_len d) + length pad = xsize (xd_len d) opts" "packed opts ds rest" using pk by auto
  obtain e es' where e: "es = e # es'" using es(1) by (cases es) auto
  have d: "desc_ok d" "length (xd_ptr d) = unat (xd_len d)" using ok by (simp_all add: desc_ok_def)
  let ?n = "xsize (xd_len d) opts"
  have "length bs = ?n + length rest" using r(1,2) d(2) by simp
  then have ls: "int (length bs) = int (?n + length rest)" by (simp only:)
  have b: "buf = pre @ le16 (xd_type d) @ le16 (xd_len d) @ xd_ptr d @ pad @ rest @ post" using buf r(1) by simp
  have hd: "BCM_XTLV_ID buf (length pre) = Some (xd_type d)" "BCM_XTLV_LEN buf (length pre) = Some (xd_len d)"
    by (rule header_mid; use b in simp)+
  have data: "mem_copy_from buf (length pre + 4) (unat (xd_len d)) = Some (xd_ptr d)"
    by (rule data_mid [OF _ d(2)]) (use b in simp)
  have "\<forall>x \<in> set fin. xd_type x \<noteq> 0 \<and> xd_type x \<noteq> xd_type d" using ok dist by (auto simp: desc_ok_def image_iff)
  then have m: "store_match buf (length pre) (xd_type d) (xd_len d) (fin @ e # es' @ [t]) =
      Some (fin @ d # es' @ [t], BCME_OK)"
    using store_match_result [of fin d e buf "length pre" "es' @ [t]"] e es d(1) data by simp
  have nx: "bcm_next_xtlv buf (length pre) (int (?n + length rest)) opts =
      Some (if ds = [] then None else Some (length pre + ?n), int (length rest))"
    by (rule next_xtlv_result [OF b d(1) r(2,3) _ slack]) (use ok in simp)
  have "unpack_mem_loop buf (Some (length pre)) (int (length bs)) (fin @ es @ [t]) BCME_OK opts =
           unpack_mem_loop buf (if ds = [] then None else Some (length pre + ?n)) (int (length rest))
             ((fin @ [d]) @ es' @ [t]) BCME_OK opts"
    unfolding ls by (subst unpack_mem_loop.simps) (simp add: hd m nx e del: of_nat_add)
  with r e that show thesis by blast
qed

lemma unpack_mem_loop_result:
  assumes "buf = pre @ bs @ post" and "packed opts (d # ds) bs" and "\<forall>d \<in> set (fin @ d # ds). desc_ok d"
    and "distinct (map xd_type (fin @ d # ds))" and "4 \<le> length post" and "xd_type t = 0"
    and "map xd_type es = map xd_type (d # ds)" "map xd_len es = map xd_len (d # ds)"
    and "\<forall>e \<in> set es. length (xd_ptr e) = unat (xd_len e)"
  shows "unpack_mem_loop buf (Some (length pre)) (int (length bs)) (fin @ es @ [t]) BCME_OK opts =
           Some (fin @ d # ds @ [t], 0, BCME_OK)"
  using assms
proof (induction ds arbitrary: d pre bs es fin)
  case Nil
  obtain pad rest e es' where s: "bs = le16 (xd_type d) @ le16 (xd_len d) @ xd_ptr d @ pad @ rest"
    "es = e # es'" "packed opts [] rest" "4 + unat (xd_len d) + length pad = xsize (xd_len d) opts"
    "unpack_mem_loop buf (Some (length pre)) (int (length bs)) (fin @ es @ [t]) BCME_OK opts =
       unpack_mem_loop buf (if ([] :: xtlv_desc list) = [] then None else Some (length pre + xsize (xd_len d) opts)) (int (length rest))
         ((fin @ [d]) @ es' @ [t]) BCME_OK opts"
    by (rule unpack_mem_step [OF Nil.prems])
  have "es' = []" using s(2) Nil.prems(7) by simp
  then show ?case unfolding s(5) using s(3) by (subst unpack_mem_loop.simps) simp
next
  case (Cons d' ds)
  obtain pad rest e es' where s: "bs = le16 (xd_type d) @ le16 (xd_len d) @ xd_ptr d @ pad @ rest"
    "es = e # es'" "packed opts (d' # ds) rest" "4 + unat (xd_len d) + length pad = xsize (xd_len d) opts"
    "unpack_mem_loop buf (Some (length pre)) (int (length bs)) (fin @ es @ [t]) BCME_OK opts =
       unpack_mem_loop buf (if d' # ds = [] then None else Some (length pre + xsize (xd_len d) opts)) (int (length rest))
         ((fin @ [d]) @ es' @ [t]) BCME_OK opts"
    by (rule unpack_mem_step [OF Cons.prems])
  let ?pre = "pre @ le16 (xd_type d) @ le16 (xd_len d) @ xd_ptr d @ pad"
  have lp: "length ?pre = length pre + xsize (xd_len d) opts" using s(4) Cons.prems(3) by (simp add: desc_ok_def)
  have "unpack_mem_loop buf (Some (length ?pre)) (int (length rest)) ((fin @ [d]) @ es' @ [t]) BCME_OK opts =
      Some ((fin @ [d]) @ d' # ds @ [t], 0, BCME_OK)"
    by (rule Cons.IH [OF _ s(3)]) (use Cons.prems s(1,2) in simp_all)
  then show ?case unfolding s(5) lp by simp
qed

section \<open>Bounds\<close>

lemma header_total:
  assumes "off + 4 \<le> length buf"
  obtains type len where "BCM_XTLV_ID buf off = Some type" and "BCM_XTLV_LEN buf off = Some len"
  using assms ltoh16_ua_total [of off buf] ltoh16_ua_total [of "off + 2" buf]
  by (auto simp: BCM_XTLV_ID_def BCM_XTLV_LEN_def)

lemma record_inside:
  fixes len :: u16
  assumes "0 \<le> sbuflen - bcm_xtlv_size_for_data (uint len) opts" and "int off + sbuflen \<le> int (length buf)"
  shows "off + 4 + unat len \<le> length buf"
    and "int (off + nat (bcm_xtlv_size_for_data (uint len) opts)) + (sbuflen - bcm_xtlv_size_for_data (uint len) opts) \<le> int (length buf)"
  using assms xsize_bounds(1) [of len opts] xtlv_size_pos [of len opts] by (simp_all add: xsize_def)

lemma unpack_loop_total:
  "int off + sbuflen \<le> int (length buf) \<Longrightarrow> \<exists>r. unpack_loop cbfn ctx buf off sbuflen opts res = Some r"
proof (induction "nat sbuflen" arbitrary: ctx off sbuflen res rule: less_induct)
  case less
  show ?case
  proof (cases "sbuflen < 4")
    case True
    then show ?thesis by (subst unpack_loop.simps) simp
  next
    case False
    then have "off + 4 \<le> length buf" using less.prems by simp
    then obtain type len where h: "BCM_XTLV_ID buf off = Some type" "BCM_XTLV_LEN buf off = Some len"
      by (rule header_total)
    let ?sz = "bcm_xtlv_size_for_data (uint len) opts"
    show ?thesis
    proof (cases "sbuflen - ?sz < 0")
      case True
      then show ?thesis using h False by (subst unpack_loop.simps) (simp add: Let_def)
    next
      case fit: False
      have r: "off + 4 + unat len \<le> length buf" "int (off + nat ?sz) + (sbuflen - ?sz) \<le> int (length buf)"
        using record_inside [of sbuflen len opts off buf] fit less.prems by simp_all
      obtain ctx' res' where cb: "cbfn ctx (take (unat len) (drop (off + 4) buf)) type len = (ctx', res')" by fastforce
      have "\<exists>r. unpack_loop cbfn ctx' buf (off + nat ?sz) (sbuflen - ?sz) opts 0 = Some r"
        using less.hyps [of "sbuflen - ?sz" "off + nat ?sz"] xtlv_size_pos [of len opts] False r(2) by simp
      then show ?thesis
        using h False fit r(1) cb by (subst unpack_loop.simps) (simp add: Let_def mem_copy_from_def)
    qed
  qed
qed

lemma get_data_loop_total:
  "int off + sbuflen \<le> int (length buf) \<Longrightarrow>
   \<exists>r. get_data_loop buf off sbuflen xid opts = Some r \<and>
     (\<forall>p len. r = Some (p, len) \<longrightarrow> off + 4 \<le> p \<and> int p + uint len \<le> int off + sbuflen \<and> BCM_XTLV_ID buf (p - 4) = Some xid)"
proof (induction "nat sbuflen" arbitrary: off sbuflen rule: less_induct)
  case less
  show ?case
  proof (cases "sbuflen < 4")
    case True
    then show ?thesis by (subst get_data_loop.simps) simp
  next
    case False
    then have "off + 4 \<le> length buf" using less.prems by simp
    then obtain type len where h: "BCM_XTLV_ID buf off = Some type" "BCM_XTLV_LEN buf off = Some len"
      by (rule header_total)
    let ?sz = "bcm_xtlv_size_for_data (uint len) opts"
    have sz: "uint len + 4 \<le> ?sz" using xtlv_size_bounds(1) [of "uint len" opts] by simp
    show ?thesis
    proof (cases "sbuflen - ?sz < 0 \<or> xid = type")
      case True
      then show ?thesis using h False sz by (subst get_data_loop.simps) (auto simp: Let_def)
    next
      case fit: False
      have r: "int (off + nat ?sz) + (sbuflen - ?sz) \<le> int (length buf)"
        using record_inside(2) [of sbuflen len opts off buf] fit less.prems by simp
      obtain r where g: "get_data_loop buf (off + nat ?sz) (sbuflen - ?sz) xid opts = Some r"
          "\<forall>p len. r = Some (p, len) \<longrightarrow> off + nat ?sz + 4 \<le> p \<and> int p + uint len \<le> int (off + nat ?sz) + (sbuflen - ?sz) \<and>
             BCM_XTLV_ID buf (p - 4) = Some xid"
        using less.hyps [of "sbuflen - ?sz" "off + nat ?sz"] xtlv_size_pos [of len opts] False r by auto
      have "get_data_loop buf off sbuflen xid opts = Some r"
        using h False fit g(1) by (subst get_data_loop.simps) (simp add: Let_def)
      moreover have "off + 4 \<le> p \<and> int p + uint len' \<le> int off + sbuflen \<and> BCM_XTLV_ID buf (p - 4) = Some xid"
        if "r = Some (p, len')" for p len'
        using g(2) that xtlv_size_pos [of len opts] by auto
      ultimately show ?thesis by blast
    qed
  qed
qed

section \<open>Properties\<close>

text \<open>
  C38. Packing and unpacking are inverse: descriptors with distinct non-zero types that fit the buffer
  are packed by \<open>bcm_pack_xtlv_buf_from_mem\<close>, and \<open>bcm_unpack_xtlv_buf_to_mem\<close>, given descriptors of the
  same types and lengths, stores every value back and reports that all bytes were used; with and
  without alignment. The memory must extend at least four bytes behind the packed records.
\<close>

theorem xtlv_pack_unpack:
  assumes ok: "\<forall>d \<in> set ds. desc_ok d" and dist: "distinct (map xd_type ds)" and ne: "ds \<noteq> []" and t: "xd_type t = 0"
    and fits: "total_size opts ds \<le> unat buflen" "total_size opts ds + 4 \<le> length mem"
    and es: "map xd_type es = map xd_type ds" "map xd_len es = map xd_len ds"
      "\<forall>e \<in> set es. length (xd_ptr e) = unat (xd_len e)"
  shows "\<exists>mem' buflen'. bcm_pack_xtlv_buf_from_mem mem 0 buflen (ds @ [t]) opts =
             Some (mem', total_size opts ds, buflen', BCME_OK) \<and>
           bcm_unpack_xtlv_buf_to_mem mem' (int (total_size opts ds)) (Some (es @ [t])) opts =
             Some (Some (ds @ [t]), 0, BCME_OK)"
proof -
  obtain old post where mem: "mem = old @ post" "length old = total_size opts ds"
    using split_at [of "total_size opts ds" mem] fits(2) by auto
  obtain bs buflen' where p: "packed opts ds bs"
      "bcm_pack_xtlv_buf_from_mem mem 0 buflen (ds @ [t]) opts = Some (bs @ post, total_size opts ds, buflen', BCME_OK)"
    using pack_from_mem_result [OF ok t fits(1) mem(2), of "[]" post] mem(1) by auto
  obtain d ds' where ds: "ds = d # ds'" using ne by (cases ds) auto
  have len: "length bs = total_size opts ds" by (rule packed_length [OF p(1) ok])
  have slack: "4 \<le> length post" using fits(2) mem by simp
  have loop: "unpack_mem_loop (bs @ post) (Some 0) (int (length bs)) (es @ [t]) BCME_OK opts =
      Some (ds @ [t], 0, BCME_OK)"
    using unpack_mem_loop_result [of "bs @ post" "[]" bs post opts d ds' "[]" t es] p(1) ok dist slack t es
    by (simp add: ds)
  have "bcm_valid_xtlv (bs @ post) 0 (int (length bs)) opts = Some True"
  proof -
    obtain pad rest where r: "bs = le16 (xd_type d) @ le16 (xd_len d) @ xd_ptr d @ pad @ rest"
        "4 + unat (xd_len d) + length pad = xsize (xd_len d) opts" using p(1) by (auto simp: ds)
    have "bcm_xtlv_size (bs @ post) (length ([] :: bytes)) opts = Some (int (xsize (xd_len d) opts))"
      by (rule header_mid(3)) (use r(1) in simp)
    moreover have "xsize (xd_len d) opts \<le> length bs" using len by (simp add: ds total_size_Cons)
    ultimately show ?thesis by (simp add: bcm_valid_xtlv_def)
  qed
  then have "bcm_unpack_xtlv_buf_to_mem (bs @ post) (int (total_size opts ds)) (Some (es @ [t])) opts =
      Some (Some (ds @ [t]), 0, BCME_OK)"
    using loop len by (simp add: bcm_unpack_xtlv_buf_to_mem_def)
  with p(2) show ?thesis by blast
qed

definition demo_descs :: "xtlv_desc list" where
  "demo_descs = [\<lparr>xd_type = 7, xd_len = 1, xd_ptr = [42]\<rparr>, \<lparr>xd_type = 9, xd_len = 2, xd_ptr = [1, 2]\<rparr>]"

definition demo_dests :: "xtlv_desc list" where
  "demo_dests = [\<lparr>xd_type = 7, xd_len = 1, xd_ptr = [0]\<rparr>, \<lparr>xd_type = 9, xd_len = 2, xd_ptr = [0, 0]\<rparr>]"

definition demo_end :: xtlv_desc where
  "demo_end = \<lparr>xd_type = 0, xd_len = 0, xd_ptr = []\<rparr>"

lemma demo_total: "total_size 1 demo_descs = 16"
  by (simp add: total_size_def demo_descs_def xsize_def bcm_xtlv_size_for_data_def ALIGN_SIZE_4)

theorem xtlv_pack_unpack_witness:
  "\<exists>mem' buflen'. bcm_pack_xtlv_buf_from_mem (replicate 20 0) 0 16 (demo_descs @ [demo_end]) 1 =
       Some (mem', 16, buflen', BCME_OK) \<and>
     bcm_unpack_xtlv_buf_to_mem mem' 16 (Some (demo_dests @ [demo_end])) 1 =
       Some (Some (demo_descs @ [demo_end]), 0, BCME_OK)"
  using xtlv_pack_unpack [of demo_descs demo_end 1 16 "replicate 20 0" demo_dests] demo_total
  by (simp add: demo_descs_def demo_dests_def demo_end_def desc_ok_def)

text \<open>
  At the end of a well-formed buffer \<open>bcm_unpack_xtlv_buf_to_mem\<close> reads outside it: \<open>bcm_next_xtlv\<close>
  asks for the size of the record behind the last one before it looks at the remaining length. When
  no memory follows the records, the access is out of bounds.
\<close>

theorem xtlv_unpack_reads_past_end:
  assumes ok: "desc_ok d" and fits: "length bs = xsize (xd_len d) opts"
    and rec: "bs = le16 (xd_type d) @ le16 (xd_len d) @ xd_ptr d @ pad"
  shows "bcm_unpack_xtlv_buf_to_mem bs (int (length bs)) (Some [d, t]) opts = None"
proof -
  have sz: "bcm_xtlv_size bs 0 opts = Some (int (length bs))"
    using header_mid(3) [of bs "[]" "xd_type d" "xd_len d" "xd_ptr d @ pad" opts] rec fits by simp
  have hd: "BCM_XTLV_ID bs 0 = Some (xd_type d)" "BCM_XTLV_LEN bs 0 = Some (xd_len d)"
    using header_mid(1,2) [of bs "[]" "xd_type d" "xd_len d" "xd_ptr d @ pad"] rec by simp_all
  have data: "mem_copy_from bs (0 + 4) (unat (xd_len d)) = Some (xd_ptr d)"
    using data_mid [of bs "[]" "xd_type d" "xd_len d" "xd_ptr d" pad] rec ok by (simp add: desc_ok_def)
  have "store_match bs 0 (xd_type d) (xd_len d) [d, t] = Some ([d, t], BCME_OK)"
    using store_match_result [of "[]" d d bs 0 "[t]"] ok data by (simp add: desc_ok_def)
  moreover have "bcm_xtlv_size bs (length bs) opts = None"
    by (simp add: bcm_xtlv_size_def BCM_XTLV_LEN_def ltoh16_ua_None)
  then have "bcm_next_xtlv bs 0 (int (length bs)) opts = None"
    using sz by (simp add: bcm_next_xtlv_def bcm_valid_xtlv_def Let_def)
  ultimately have "unpack_mem_loop bs (Some 0) (int (length bs)) [d, t] BCME_OK opts = None"
    using hd by (subst unpack_mem_loop.simps) simp
  then show ?thesis using sz by (simp add: bcm_unpack_xtlv_buf_to_mem_def bcm_valid_xtlv_def)
qed

theorem xtlv_unpack_reads_past_end_witness:
  "bcm_unpack_xtlv_buf_to_mem [7, 0, 1, 0, 42] 5 (Some [\<lparr>xd_type = 7, xd_len = 1, xd_ptr = [42]\<rparr>, demo_end]) 0 = None"
proof -
  let ?d = "\<lparr>xd_type = 7, xd_len = 1, xd_ptr = [42]\<rparr>"
  have "desc_ok ?d" by (simp add: desc_ok_def)
  moreover have "length [7, 0, 1, 0, 42 :: u8] = xsize (xd_len ?d) 0" by (simp add: xsize_def bcm_xtlv_size_for_data_def)
  moreover have "[7, 0, 1, 0, 42] = le16 (xd_type ?d) @ le16 (xd_len ?d) @ xd_ptr ?d @ []" by (simp add: le16_def)
  ultimately have "bcm_unpack_xtlv_buf_to_mem [7, 0, 1, 0, 42] (int (length [7, 0, 1, 0, 42 :: u8])) (Some [?d, demo_end]) 0 = None"
    by (rule xtlv_unpack_reads_past_end)
  then show ?thesis by simp
qed

text \<open>
  C40. Parsing untrusted bytes stays inside the stated length: for every content of the buffer
  \<open>bcm_unpack_xtlv_buf\<close> and \<open>bcm_get_data_from_xtlv_buf\<close> return without an access outside it, whatever
  the callback answers; a value found lies inside and is that of a record with the requested id.
\<close>

theorem xtlv_parse_in_bounds:
  assumes "unat buflen \<le> length buf"
  shows "bcm_unpack_xtlv_buf cbfn ctx buf buflen opts \<noteq> None \<and>
         (\<exists>r. bcm_get_data_from_xtlv_buf buf buflen xid opts = Some r \<and>
            (\<forall>p len. r = Some (p, len) \<longrightarrow> 4 \<le> p \<and> p + unat len \<le> unat buflen \<and> BCM_XTLV_ID buf (p - 4) = Some xid))"
proof -
  have le: "int 0 + uint buflen \<le> int (length buf)" using assms by simp
  obtain r where r: "get_data_loop buf 0 (uint buflen) xid opts = Some r"
      "\<forall>p len. r = Some (p, len) \<longrightarrow> 0 + 4 \<le> p \<and> int p + uint len \<le> int 0 + uint buflen \<and> BCM_XTLV_ID buf (p - 4) = Some xid"
    using get_data_loop_total [OF le] by blast
  have "p + unat len \<le> unat buflen" if "int p + uint len \<le> uint buflen" for p and len :: u16
  proof -
    have "int (p + unat len) \<le> int (unat buflen)" using that by simp
    then show ?thesis by (simp only: of_nat_le_iff)
  qed
  then show ?thesis
    using r unpack_loop_total [OF le, of cbfn ctx opts BCME_OK]
    by (auto simp: bcm_unpack_xtlv_buf_def bcm_get_data_from_xtlv_buf_def)
qed

theorem xtlv_parse_in_bounds_witness:
  "bcm_unpack_xtlv_buf (\<lambda>ctx data type len. (ctx @ [(type, data)], 0)) [] [7, 0, 1, 0, 42, 9, 0, 200, 0, 1] 10 0 \<noteq> None"
  using xtlv_parse_in_bounds [of 10 "[7, 0, 1, 0, 42, 9, 0, 200, 0, 1]" "\<lambda>ctx data type len. (ctx @ [(type, data)], 0)" "[]" 0] by simp

text \<open>
  The error codes of packing: a record that does not fit makes \<open>bcm_pack_xtlv_entry\<close> report
  \<open>BCME_BADLEN\<close> and leave the buffer alone, but \<open>bcm_pack_xtlv_buf_from_mem\<close>, whose assignment takes the
  result of the comparison, returns 1; and \<open>bcm_pack_xtlv_buf\<close> refuses a single record that would fill
  the buffer exactly.
\<close>

theorem xtlv_pack_error_codes:
  assumes "unat buflen < xsize (xd_len d) opts" and "xd_type d \<noteq> 0"
    and "get_next ctx = (ctx', more', tid, tlen)" and "xsize tlen opts = unat buflen'"
  shows "bcm_pack_xtlv_entry buf off buflen (xd_type d) (xd_len d) (xd_ptr d) opts = Some (buf, off, buflen, BCME_BADLEN) \<and>
         bcm_pack_xtlv_buf_from_mem buf off buflen (d # items) opts = Some (buf, off, buflen, 1) \<and>
         bcm_pack_xtlv_buf get_next pack_next ctx buf buflen' opts = Some (buf, 0, ctx', BCME_BUFTOOSHORT)"
proof -
  have "uint buflen < bcm_xtlv_size_for_data (uint (xd_len d)) opts"
    using assms(1) unfolding xsize_bounds(3) [symmetric] by simp
  then have e: "bcm_pack_xtlv_entry buf off buflen (xd_type d) (xd_len d) (xd_ptr d) opts = Some (buf, off, buflen, BCME_BADLEN)"
    by (simp add: bcm_pack_xtlv_entry_def Let_def)
  have "0 < unat buflen'" using assms(4) xsize_bounds(1) [of tlen opts] by simp
  then have "bcm_pack_xtlv_buf get_next pack_next ctx buf buflen' opts = Some (buf, 0, ctx', BCME_BUFTOOSHORT)"
    using assms(3,4) by (simp add: bcm_pack_xtlv_buf_def xsize_def pack_loop.simps Let_def)
  with e show ?thesis using assms(2) by simp
qed

theorem xtlv_pack_error_codes_witness:
  "bcm_pack_xtlv_buf_from_mem [0, 0, 0, 0] 0 4 [\<lparr>xd_type = 7, xd_len = 1, xd_ptr = [42]\<rparr>, demo_end] 0 = Some ([0, 0, 0, 0], 0, 4, 1) \<and>
   bcm_pack_xtlv_buf (\<lambda>c. (c, False, 7, 1)) (\<lambda>c _ _. (c, [42])) () [0, 0, 0, 0, 0] 5 0 = Some ([0, 0, 0, 0, 0], 0, (), BCME_BUFTOOSHORT)"
proof -
  have x: "xsize 1 0 = 5" by (simp add: xsize_def bcm_xtlv_size_for_data_def)
  show ?thesis
    using xtlv_pack_error_codes [of 4 "\<lparr>xd_type = 7, xd_len = 1, xd_ptr = [42]\<rparr>" 0 "\<lambda>c. (c, False, 7, 1)" "()" "()" False 7 1 5
        "[0, 0, 0, 0]" 0 "[demo_end]" "\<lambda>c _ _. (c, [42])"]
      xtlv_pack_error_codes [of 4 "\<lparr>xd_type = 7, xd_len = 1, xd_ptr = [42]\<rparr>" 0 "\<lambda>c. (c, False, 7, 1)" "()" "()" False 7 1 5
        "[0, 0, 0, 0, 0]" 0 "[demo_end]" "\<lambda>c _ _. (c, [42])"] x
    by simp
qed

end
