(* ===== verification/Xtlv_Append.thy ===== *)
theory Xtlv_Append
  imports Xtlv_Props
begin

text \<open>
  The append interface of the record buffers (\<open>bcm_xtlv_buf_init\<close>, \<open>bcm_xtlv_put_data\<close>,
  \<open>bcm_xtlv_put_8/16/32\<close>): the descriptor represents the list of records put so far, every put appends
  one or reports that it does not fit, and looking an id up finds the first record with it.
\<close>

definition rec_ok :: "xtlv_desc \<Rightarrow> bool" where
  "rec_ok d \<longleftrightarrow> length (xd_ptr d) = unat (xd_len d)"

definition tbuf_rep :: "bcm_xtlvbuf \<Rightarrow> xtlv_desc list \<Rightarrow> bool" where
  "tbuf_rep tb ds \<longleftrightarrow> (\<forall>d \<in> set ds. rec_ok d) \<and> unat (xb_size tb) \<le> length (xb_mem tb) \<and> xb_cur tb \<le> unat (xb_size tb) \<and>
     (\<exists>bs rest. xb_mem tb = bs @ rest \<and> packed (xb_opts tb) ds bs \<and> xb_cur tb = length bs)"

lemma packed_snoc:
  assumes "packed opts ds bs" and "4 + unat (xd_len d) + length pad = xsize (xd_len d) opts"
  shows "packed opts (ds @ [d]) (bs @ le16 (xd_type d) @ le16 (xd_len d) @ xd_ptr d @ pad)"
  using assms by (induction ds arbitrary: bs) fastforce+

lemma rlen_eq:
  assumes "xb_cur tb \<le> unat (xb_size tb)"
  shows "uint (bcm_xtlv_buf_rlen (Some tb)) = int (unat (xb_size tb) - xb_cur tb)"
    and "unat (bcm_xtlv_buf_len (Some tb)) = xb_cur tb"
proof -
  have "unat (xb_size tb - of_nat (xb_cur tb)) = unat (xb_size tb) - xb_cur tb"
    by (rule unat_sub_of_nat [OF assms])
  then show "uint (bcm_xtlv_buf_rlen (Some tb)) = int (unat (xb_size tb) - xb_cur tb)"
    by (simp only: bcm_xtlv_buf_rlen_def bcm_xtlv_buf_len_def option.case uint_nat)
  have "xb_cur tb < 2 ^ 16" using assms unsigned_less [of "xb_size tb", where 'a = nat] by simp
  then show "unat (bcm_xtlv_buf_len (Some tb)) = xb_cur tb"
    by (simp add: bcm_xtlv_buf_len_def unat_of_nat take_bit_nat_eq_self)
qed

lemma put_record_result:
  assumes rep: "tbuf_rep tb ds" and d: "rec_ok d"
  shows "if xb_cur tb + xsize (xd_len d) (xb_opts tb) \<le> unat (xb_size tb)
         then \<exists>tb'. put_record (Some tb) (xd_type d) (xd_len d) (Some (xd_ptr d)) = Some (Some tb', BCME_OK) \<and>
                tbuf_rep tb' (ds @ [d]) \<and> xb_opts tb' = xb_opts tb \<and> xb_size tb' = xb_size tb
         else put_record (Some tb) (xd_type d) (xd_len d) (Some (xd_ptr d)) = Some (Some tb, BCME_NOMEM)"
proof -
  let ?n = "xsize (xd_len d) (xb_opts tb)"
  obtain bs rest where r: "xb_mem tb = bs @ rest" "packed (xb_opts tb) ds bs" "xb_cur tb = length bs"
      "unat (xb_size tb) \<le> length (xb_mem tb)" "xb_cur tb \<le> unat (xb_size tb)" "\<forall>d \<in> set ds. rec_ok d"
    using rep by (auto simp: tbuf_rep_def)
  have cmp: "uint (bcm_xtlv_buf_rlen (Some tb)) < bcm_xtlv_size_for_data (uint (xd_len d)) (xb_opts tb) \<longleftrightarrow>
      \<not> xb_cur tb + ?n \<le> unat (xb_size tb)"
    unfolding rlen_eq(1) [OF r(5)] xsize_bounds(3) [symmetric] using r(5) by linarith
  show ?thesis
  proof (cases "xb_cur tb + ?n \<le> unat (xb_size tb)")
    case False
    then show ?thesis using cmp by (simp add: put_record_def Let_def)
  next
    case True
    then have "?n \<le> length rest" using r by simp
    then obtain old post where o: "rest = old @ post" "length old = ?n" using split_at by blast
    obtain pad where p: "4 + unat (xd_len d) + length pad = ?n"
      "\<And>pre post. do {
           buf \<leftarrow> htol16_ua_store (xd_type d) (pre @ old @ post) (length pre);
           buf \<leftarrow> htol16_ua_store (xd_len d) buf (length pre + 2);
           mem_copy_to buf (length pre + 4) (xd_ptr d) } =
         Some (pre @ le16 (xd_type d) @ le16 (xd_len d) @ xd_ptr d @ pad @ post)"
      by (rule write_record [where type = "xd_type d", OF d [unfolded rec_ok_def] o(2)]) blast
    let ?bs = "bs @ le16 (xd_type d) @ le16 (xd_len d) @ xd_ptr d @ pad"
    let ?tb = "tb\<lparr>xb_mem := ?bs @ post, xb_cur := length bs + ?n\<rparr>"
    have "put_record (Some tb) (xd_type d) (xd_len d) (Some (xd_ptr d)) = Some (Some ?tb, BCME_OK)"
      using p(2) [of bs post] True cmp r(1,3) o(1)
      by (auto simp: put_record_def Let_def bcm_xtlv_buf_def bind_eq_Some_conv xsize_def)
    moreover have "length ?bs = length bs + ?n" using p(1) d by (simp add: rec_ok_def)
    then have "tbuf_rep ?tb (ds @ [d])"
      unfolding tbuf_rep_def using packed_snoc [OF r(2) p(1)] True r o d
      by (intro conjI exI [of _ ?bs] exI [of _ post]) auto
    ultimately show ?thesis using True by auto
  qed
qed

text \<open>The four functions are \<open>put_record\<close> on the bytes of the value.\<close>

lemma put_functions:
  "unat dlen = length data \<Longrightarrow> bcm_xtlv_put_data tbuf type data dlen = put_record tbuf type dlen (Some data)"
  by (simp add: bcm_xtlv_put_data_def mem_copy_from_def)

lemma get_data_loop_result:
  assumes "packed opts ds bs" and "\<forall>d \<in> set ds. rec_ok d" and "buf = pre @ bs @ post"
  shows "case find (\<lambda>d. xd_type d = xid) ds of
           None \<Rightarrow> get_data_loop buf (length pre) (int (length bs)) xid opts = Some None
         | Some d \<Rightarrow> \<exists>p. get_data_loop buf (length pre) (int (length bs)) xid opts = Some (Some (p, xd_len d)) \<and>
                        mem_copy_from buf p (unat (xd_len d)) = Some (xd_ptr d)"
  using assms
proof (induction ds arbitrary: pre bs)
  case Nil
  then show ?case by (simp add: get_data_loop.simps)
next
  case (Cons d ds)
  obtain pad rest where r: "bs = le16 (xd_type d) @ le16 (xd_len d) @ xd_ptr d @ pad @ rest"
      "4 + unat (xd_len d) + length pad = xsize (xd_len d) opts" "packed opts ds rest" using Cons.prems(1) by auto
  have d: "length (xd_ptr d) = unat (xd_len d)" using Cons.prems(2) by (simp add: rec_ok_def)
  let ?n = "xsize (xd_len d) opts"
  let ?pre = "pre @ le16 (xd_type d) @ le16 (xd_len d) @ xd_ptr d @ pad"
  have b: "buf = pre @ le16 (xd_type d) @ le16 (xd_len d) @ xd_ptr d @ pad @ rest @ post" using Cons.prems(3) r(1) by simp
  have hd: "BCM_XTLV_ID buf (length pre) = Some (xd_type d)" "BCM_XTLV_LEN buf (length pre) = Some (xd_len d)"
    by (rule header_mid; use b in simp)+
  have data: "mem_copy_from buf (length pre + 4) (unat (xd_len d)) = Some (xd_ptr d)"
    by (rule data_mid [OF _ d]) (use b in simp)
  have len: "length bs = ?n + length rest" using r(1,2) d by simp
  have lp: "length ?pre = length pre + ?n" using r(2) d by simp
  have big: "\<not> int (length bs) < 4" using len xsize_bounds(1) [of "xd_len d" opts] by simp
  have left: "int (length bs) - bcm_xtlv_size_for_data (uint (xd_len d)) opts = int (length rest)"
    unfolding xsize_bounds(3) [symmetric] len by simp
  have step: "get_data_loop buf (length pre) (int (length bs)) xid opts =
      (if xid = xd_type d then Some (Some (length pre + 4, xd_len d))
       else get_data_loop buf (length ?pre) (int (length rest)) xid opts)"
    unfolding lp by (subst get_data_loop.simps) (use hd big left in \<open>simp add: Let_def xsize_def\<close>)
  show ?case
  proof (cases "xd_type d = xid")
    case True
    then show ?thesis using step data by simp
  next
    case False
    have "buf = ?pre @ rest @ post" using b by simp
    from Cons.IH [OF r(3) _ this] show ?thesis
      unfolding step using Cons.prems(2) False by (simp del: length_append split: option.splits)
  qed
qed

section \<open>Properties\<close>

text \<open>
  C39. Appending and looking up are inverse. A buffer descriptor that holds the records \<open>ds\<close> holds them
  and the new one after a put that fits, with any of the four functions (here on the bytes of the
  value), and is left alone with \<open>BCME_NOMEM\<close> by one that does not; \<open>bcm_get_data_from_xtlv_buf\<close> on the
  bytes used returns the value of the first record with the id, or nothing if there is none.
\<close>

theorem xtlv_append_lookup:
  assumes rep: "tbuf_rep tb ds" and data: "length data = unat dlen"
  shows "(if xb_cur tb + xsize dlen (xb_opts tb) \<le> unat (xb_size tb)
          then \<exists>tb'. bcm_xtlv_put_data (Some tb) type data dlen = Some (Some tb', BCME_OK) \<and>
                 tbuf_rep tb' (ds @ [\<lparr>xd_type = type, xd_len = dlen, xd_ptr = data\<rparr>])
          else bcm_xtlv_put_data (Some tb) type data dlen = Some (Some tb, BCME_NOMEM)) \<and>
         (case find (\<lambda>d. xd_type d = xid) ds of
            None \<Rightarrow> bcm_get_data_from_xtlv_buf (xb_mem tb) (bcm_xtlv_buf_len (Some tb)) xid (xb_opts tb) = Some None
          | Some d \<Rightarrow> \<exists>p. bcm_get_data_from_xtlv_buf (xb_mem tb) (bcm_xtlv_buf_len (Some tb)) xid (xb_opts tb) =
                          Some (Some (p, xd_len d)) \<and> mem_copy_from (xb_mem tb) p (unat (xd_len d)) = Some (xd_ptr d)) \<and>
         bcm_xtlv_put_8 (Some tb) type b = bcm_xtlv_put_data (Some tb) type [b] 1 \<and>
         bcm_xtlv_put_16 (Some tb) type h = bcm_xtlv_put_data (Some tb) type (le16 h) 2 \<and>
         bcm_xtlv_put_32 (Some tb) type w = bcm_xtlv_put_data (Some tb) type (le32 w) 4"
proof (intro conjI)
  let ?d = "\<lparr>xd_type = type, xd_len = dlen, xd_ptr = data\<rparr>"
  show "if xb_cur tb + xsize dlen (xb_opts tb) \<le> unat (xb_size tb)
        then \<exists>tb'. bcm_xtlv_put_data (Some tb) type data dlen = Some (Some tb', BCME_OK) \<and> tbuf_rep tb' (ds @ [?d])
        else bcm_xtlv_put_data (Some tb) type data dlen = Some (Some tb, BCME_NOMEM)"
    using put_record_result [OF rep, of ?d] data by (auto simp: rec_ok_def put_functions split: if_splits)
  obtain bs rest where r: "xb_mem tb = bs @ rest" "packed (xb_opts tb) ds bs" "xb_cur tb = length bs"
      "xb_cur tb \<le> unat (xb_size tb)" "\<forall>d \<in> set ds. rec_ok d"
    using rep by (auto simp: tbuf_rep_def)
  have "uint (bcm_xtlv_buf_len (Some tb)) = int (length bs)"
    using rlen_eq(2) [OF r(4)] r(3) by (simp only: uint_nat)
  then show "case find (\<lambda>d. xd_type d = xid) ds of
            None \<Rightarrow> bcm_get_data_from_xtlv_buf (xb_mem tb) (bcm_xtlv_buf_len (Some tb)) xid (xb_opts tb) = Some None
          | Some d \<Rightarrow> \<exists>p. bcm_get_data_from_xtlv_buf (xb_mem tb) (bcm_xtlv_buf_len (Some tb)) xid (xb_opts tb) =
                          Some (Some (p, xd_len d)) \<and> mem_copy_from (xb_mem tb) p (unat (xd_len d)) = Some (xd_ptr d)"
    using get_data_loop_result [OF r(2,5), of "xb_mem tb" "[]" rest xid] r(1)
    by (simp add: bcm_get_data_from_xtlv_buf_def split: option.splits)
qed (simp_all add: put_functions bcm_xtlv_put_8_def bcm_xtlv_put_16_def bcm_xtlv_put_32_def)

definition demo_tbuf :: bcm_xtlvbuf where
  "demo_tbuf = \<lparr>xb_opts = 0, xb_size = 8, xb_mem = [7, 0, 1, 0, 42, 0, 0, 0], xb_cur = 5\<rparr>"

theorem xtlv_append_lookup_witness:
  "bcm_xtlv_put_data (Some demo_tbuf) 9 [] 0 = Some (Some demo_tbuf, BCME_NOMEM) \<and>
   (\<exists>p. bcm_get_data_from_xtlv_buf (xb_mem demo_tbuf) (bcm_xtlv_buf_len (Some demo_tbuf)) 7 0 = Some (Some (p, 1)) \<and>
      mem_copy_from (xb_mem demo_tbuf) p 1 = Some [42])"
proof -
  let ?d = "\<lparr>xd_type = 7, xd_len = 1, xd_ptr = [42]\<rparr>"
  have x: "xsize 1 0 = 5" "xsize 0 0 = 4" by (simp_all add: xsize_def bcm_xtlv_size_for_data_def)
  have "packed 0 [?d] [7, 0, 1, 0, 42]" by (simp add: le16_def x)
  moreover have "xb_mem demo_tbuf = [7, 0, 1, 0, 42] @ [0, 0, 0]" "xb_cur demo_tbuf = length [7, 0, 1, 0, 42 :: u8]" "xb_opts demo_tbuf = 0"
    by (simp_all add: demo_tbuf_def)
  ultimately have "\<exists>bs rest. xb_mem demo_tbuf = bs @ rest \<and> packed (xb_opts demo_tbuf) [?d] bs \<and> xb_cur demo_tbuf = length bs" by metis
  then have "tbuf_rep demo_tbuf [?d]" unfolding tbuf_rep_def by (simp add: demo_tbuf_def rec_ok_def)
  from xtlv_append_lookup [OF this, of "[]" 0 9 7] show ?thesis by (simp add: x demo_tbuf_def)
qed

end
