(* ===== verification/Pktid_Map.thy ===== *)
theory Pktid_Map
  imports Mwbmap_Rep Pkt_Store
begin

text \<open>
  The packet-id map of the message-buffer protocol (\<open>dhd/sys/dhd_msgbuf.c\<close>): packets handed to the
  device are known to it by a 32-bit id; the map keeps, for each id, a locker with the packet and how
  its buffer was mapped for DMA, and a stack of free ids. Ids come back from the device, so the error
  branches matter. \<open>dbg\<close> says whether \<open>ASSERT\<close> stops the code: in builds where it does not, the
  statements behind a violated assertion are executed. The auditing of ids during ring operation
  (\<open>DHD_PKTID_AUDIT_RING\<close>) uses the bitmap allocator of \<open>Mwbmap\<close>.
\<close>

section \<open>Data\<close>

type_synonym dmaaddr = "64 word"

definition DBG_ASSERT :: "bool \<Rightarrow> bool \<Rightarrow> unit option" where
  "DBG_ASSERT dbg b = (if dbg then ASSERT b else Some ())"

lemma DBG_ASSERT_True [simp]: "DBG_ASSERT dbg True = Some ()"
  by (simp add: DBG_ASSERT_def)

lemma DBG_ASSERT_off [simp]: "DBG_ASSERT False b = Some ()"
  by (simp add: DBG_ASSERT_def)

lemma DBG_ASSERT_on [simp]: "DBG_ASSERT True b = ASSERT b"
  by (simp add: DBG_ASSERT_def)

datatype dhd_pkttype = PKTTYPE_DATA_TX | PKTTYPE_DATA_RX | PKTTYPE_IOCTL_RX | PKTTYPE_EVENT_RX | PKTTYPE_NO_CHECK

datatype dhd_locker_state = LOCKER_IS_FREE | LOCKER_IS_BUSY | LOCKER_IS_RSVD

record dhd_pktid_item =
  lk_state :: dhd_locker_state
  lk_dir :: u8
  lk_pkttype :: dhd_pkttype
  lk_len :: u16
  lk_pkt :: pkt_ptr
  lk_pa :: dmaaddr
  lk_dmah :: "nat option"
  lk_secdma :: "nat option"

record dhd_pktid_map =
  pm_items :: u32
  pm_avail :: u32
  pm_failures :: int
  pm_audit :: "bcm_mwbmap option"
  pm_keys :: "u32 list"
  pm_lockers :: "dhd_pktid_item list"

abbreviation (input) MAX_PKTID_ITEMS :: nat where "MAX_PKTID_ITEMS \<equiv> 3072"
abbreviation (input) DHD_PKTID_INVALID :: u32 where "DHD_PKTID_INVALID \<equiv> 0"
abbreviation (input) DHD_IOCTL_REQ_PKTID :: u32 where "DHD_IOCTL_REQ_PKTID \<equiv> 0xFFFE"
abbreviation (input) DHD_FAKE_PKTID :: u32 where "DHD_FAKE_PKTID \<equiv> 0xFACE"

text \<open>A locker of all zeros, as \<open>bzero\<close> leaves it.\<close>

definition zero_locker :: dhd_pktid_item where
  "zero_locker = \<lparr>lk_state = LOCKER_IS_FREE, lk_dir = 0, lk_pkttype = PKTTYPE_DATA_TX, lk_len = 0, lk_pkt = None,
     lk_pa = 0, lk_dmah = None, lk_secdma = None\<rparr>"

section \<open>Auditing\<close>

datatype audit_test = DHD_DUPLICATE_ALLOC | DHD_DUPLICATE_FREE | DHD_TEST_IS_ALLOC | DHD_TEST_IS_FREE

definition audit_error :: "bool \<Rightarrow> dhd_pktid_map option \<Rightarrow> (dhd_pktid_map option \<times> int) option" where
  "audit_error dbg mp = do { DBG_ASSERT dbg False; Some (mp, BCME_ERROR) }"

definition dhd_pktid_audit ::
  "bool \<Rightarrow> dhd_pktid_map option \<Rightarrow> u32 \<Rightarrow> audit_test \<Rightarrow> (dhd_pktid_map option \<times> int) option" where
  "dhd_pktid_audit dbg pktid_map pktid test_for =
     (case pktid_map of
        None \<Rightarrow> Some (None, BCME_OK)
      | Some mp \<Rightarrow>
          (case pm_audit mp of
             None \<Rightarrow> Some (pktid_map, BCME_OK)
           | Some handle \<Rightarrow>
               if pktid = DHD_IOCTL_REQ_PKTID \<or> pktid = DHD_FAKE_PKTID then Some (pktid_map, BCME_OK)
               else if pktid = DHD_PKTID_INVALID \<or> of_nat MAX_PKTID_ITEMS < pktid then audit_error dbg pktid_map
               else do {
                 free \<leftarrow> bcm_mwbmap_isfree handle pktid;
                 (case test_for of
                    DHD_DUPLICATE_ALLOC \<Rightarrow>
                      if \<not> free then audit_error dbg pktid_map
                      else do {
                        handle \<leftarrow> bcm_mwbmap_force handle pktid;
                        Some (Some (mp\<lparr>pm_audit := Some handle\<rparr>), BCME_OK)
                      }
                  | DHD_DUPLICATE_FREE \<Rightarrow>
                      if free then audit_error dbg pktid_map
                      else do {
                        handle \<leftarrow> bcm_mwbmap_free handle pktid;
                        Some (Some (mp\<lparr>pm_audit := Some handle\<rparr>), BCME_OK)
                      }
                  | DHD_TEST_IS_ALLOC \<Rightarrow> if free then audit_error dbg pktid_map else Some (pktid_map, BCME_OK)
                  | DHD_TEST_IS_FREE \<Rightarrow> if \<not> free then audit_error dbg pktid_map else Some (pktid_map, BCME_OK))
               }))"

text \<open>The callers ignore the code; a map in use stays in use.\<close>

definition audit :: "bool \<Rightarrow> dhd_pktid_map \<Rightarrow> u32 \<Rightarrow> audit_test \<Rightarrow> dhd_pktid_map option" where
  "audit dbg mp pktid test_for = do {
     (m, _) \<leftarrow> dhd_pktid_audit dbg (Some mp) pktid test_for;
     m
   }"

section \<open>Construction\<close>

text \<open>The loop over the ids, with \<open>n\<close> rounds left.\<close>

fun init_loop :: "nat \<Rightarrow> u32 \<Rightarrow> dhd_pktid_map \<Rightarrow> dhd_pktid_map option" where
  "init_loop 0 nkey mp = Some mp"
| "init_loop (Suc n) nkey mp = do {
     keys \<leftarrow> arr_set (pm_keys mp) (unat nkey) nkey;
     locker \<leftarrow> arr_get (pm_lockers mp) (unat nkey);
     lks \<leftarrow> arr_set (pm_lockers mp) (unat nkey) (locker\<lparr>lk_state := LOCKER_IS_FREE, lk_pkt := None, lk_len := 0\<rparr>);
     init_loop n (nkey + 1) (mp\<lparr>pm_keys := keys, pm_lockers := lks\<rparr>)
   }"

text \<open>
  \<open>mem_ok\<close> and \<open>audit_mem_ok\<close>: whether the memory of the map and of its bitmap was available. The
  result \<open>Some None\<close> is the NULL handle.
\<close>

definition dhd_pktid_map_init :: "bool \<Rightarrow> bool \<Rightarrow> bool \<Rightarrow> u32 \<Rightarrow> dhd_pktid_map option option" where
  "dhd_pktid_map_init dbg mem_ok audit_mem_ok num_items = do {
     DBG_ASSERT dbg (1 \<le> unat num_items \<and> unat num_items \<le> MAX_PKTID_ITEMS);
     if \<not> mem_ok then Some None
     else if \<not> audit_mem_ok then do { DBG_ASSERT dbg False; Some None }
     else do {
       audit \<leftarrow> bcm_mwbmap_init True (num_items + 1);
       let mp = \<lparr>pm_items = num_items, pm_avail = num_items, pm_failures = 0, pm_audit = Some audit,
                  pm_keys = replicate (MAX_PKTID_ITEMS + 1) 0,
                  pm_lockers = replicate (unat num_items + 1) zero_locker\<rparr>;
       mp \<leftarrow> init_loop (unat num_items) 1 mp;
       locker \<leftarrow> arr_get (pm_lockers mp) 0;
       lks \<leftarrow> arr_set (pm_lockers mp) 0 (locker\<lparr>lk_state := LOCKER_IS_BUSY, lk_pkt := None, lk_len := 0\<rparr>);
       audit \<leftarrow> bcm_mwbmap_force audit DHD_PKTID_INVALID;
       Some (Some (mp\<lparr>pm_lockers := lks, pm_audit := Some audit\<rparr>))
     }
   }"

section \<open>Ids and lockers\<close>

definition dhd_pktid_map_avail_cnt :: "dhd_pktid_map \<Rightarrow> u32" where
  "dhd_pktid_map_avail_cnt mp = pm_avail mp"

definition dhd_pktid_map_reserve :: "bool \<Rightarrow> dhd_pktid_map \<Rightarrow> pkt_ptr \<Rightarrow> (dhd_pktid_map \<times> u32) option" where
  "dhd_pktid_map_reserve dbg mp pkt =
     (if pm_avail mp = 0 then Some (mp\<lparr>pm_failures := pm_failures mp + 1\<rparr>, DHD_PKTID_INVALID)
      else do {
        DBG_ASSERT dbg (pm_avail mp \<le> pm_items mp);
        nkey \<leftarrow> arr_get (pm_keys mp) (unat (pm_avail mp));
        locker \<leftarrow> arr_get (pm_lockers mp) (unat nkey);
        lks \<leftarrow> arr_set (pm_lockers mp) (unat nkey)
                (locker\<lparr>lk_pkt := pkt, lk_len := 0, lk_state := LOCKER_IS_BUSY\<rparr>);
        DBG_ASSERT dbg (nkey \<noteq> DHD_PKTID_INVALID);
        Some (mp\<lparr>pm_avail := pm_avail mp - 1, pm_lockers := lks\<rparr>, nkey)
      })"

definition dhd_pktid_map_save ::
  "bool \<Rightarrow> dhd_pktid_map \<Rightarrow> pkt_ptr \<Rightarrow> u32 \<Rightarrow> dmaaddr \<Rightarrow> u32 \<Rightarrow> u8 \<Rightarrow> nat option \<Rightarrow> nat option \<Rightarrow> dhd_pkttype \<Rightarrow>
    dhd_pktid_map option" where
  "dhd_pktid_map_save dbg mp pkt nkey pa len dir dmah secdma pkttype = do {
     DBG_ASSERT dbg (nkey \<noteq> DHD_PKTID_INVALID \<and> nkey \<le> pm_items mp);
     locker \<leftarrow> arr_get (pm_lockers mp) (unat nkey);
     DBG_ASSERT dbg (lk_state locker = LOCKER_IS_BUSY \<and> lk_pkt locker = pkt \<or>
                     lk_state locker = LOCKER_IS_RSVD \<and> lk_pkt locker = None);
     lks \<leftarrow> arr_set (pm_lockers mp) (unat nkey)
             (locker\<lparr>lk_dir := dir, lk_pa := pa, lk_len := ucast len, lk_dmah := dmah, lk_secdma := secdma,
                lk_pkttype := pkttype, lk_pkt := pkt, lk_state := LOCKER_IS_BUSY\<rparr>);
     Some (mp\<lparr>pm_lockers := lks\<rparr>)
   }"

definition dhd_pktid_map_alloc ::
  "bool \<Rightarrow> dhd_pktid_map \<Rightarrow> pkt_ptr \<Rightarrow> dmaaddr \<Rightarrow> u32 \<Rightarrow> u8 \<Rightarrow> nat option \<Rightarrow> nat option \<Rightarrow> dhd_pkttype \<Rightarrow>
    (dhd_pktid_map \<times> u32) option" where
  "dhd_pktid_map_alloc dbg mp pkt pa len dir dmah secdma pkttype = do {
     (mp, nkey) \<leftarrow> dhd_pktid_map_reserve dbg mp pkt;
     if nkey \<noteq> DHD_PKTID_INVALID
     then do {
       mp \<leftarrow> dhd_pktid_map_save dbg mp pkt nkey pa len dir dmah secdma pkttype;
       Some (mp, nkey)
     }
     else Some (mp, nkey)
   }"

text \<open>
  The result: the map, the packet (NULL in the error branches) and the contents of the locker, which
  are stored through the pointers of the caller only when there was no error.
\<close>

definition dhd_pktid_map_free ::
  "bool \<Rightarrow> dhd_pktid_map \<Rightarrow> u32 \<Rightarrow> dhd_pkttype \<Rightarrow> bool \<Rightarrow>
    (dhd_pktid_map \<times> pkt_ptr \<times> (dmaaddr \<times> u32 \<times> nat option \<times> nat option) option) option" where
  "dhd_pktid_map_free dbg mp nkey pkttype rsv_locker = do {
     DBG_ASSERT dbg (nkey \<noteq> DHD_PKTID_INVALID \<and> nkey \<le> pm_items mp);
     locker \<leftarrow> arr_get (pm_lockers mp) (unat nkey);
     if lk_state locker = LOCKER_IS_FREE
     then do { DBG_ASSERT dbg (lk_state locker \<noteq> LOCKER_IS_FREE); Some (mp, None, None) }
     else if pkttype \<noteq> PKTTYPE_NO_CHECK \<and> lk_pkttype locker \<noteq> pkttype
     then do { DBG_ASSERT dbg (lk_pkttype locker = pkttype); Some (mp, None, None) }
     else do {
       (mp, st) \<leftarrow>
         (if \<not> rsv_locker
          then do {
            let avail = pm_avail mp + 1;
            keys \<leftarrow> arr_set (pm_keys mp) (unat avail) nkey;
            Some (mp\<lparr>pm_avail := avail, pm_keys := keys\<rparr>, LOCKER_IS_FREE)
          }
          else Some (mp, LOCKER_IS_RSVD));
       lks \<leftarrow> arr_set (pm_lockers mp) (unat nkey) (locker\<lparr>lk_state := st, lk_pkt := None, lk_len := 0\<rparr>);
       Some (mp\<lparr>pm_lockers := lks\<rparr>, lk_pkt locker,
             Some (lk_pa locker, ucast (lk_len locker), lk_dmah locker, lk_secdma locker))
     }
   }"

section \<open>Destruction\<close>

definition dhd_prot_packet_free :: "pkt_store \<Rightarrow> pkt_ptr \<Rightarrow> pkt_store option" where
  "dhd_prot_packet_free s p = (if p \<noteq> None then PKTFREE s p else Some s)"

text \<open>The buffers unmapped are recorded in the order of the calls.\<close>

type_synonym unmaps = "(dmaaddr \<times> u16 \<times> u8) list"

fun fini_loop :: "bool \<Rightarrow> nat \<Rightarrow> u32 \<Rightarrow> pkt_store \<Rightarrow> unmaps \<Rightarrow> dhd_pktid_map \<Rightarrow> (pkt_store \<times> unmaps \<times> dhd_pktid_map) option" where
  "fini_loop dbg 0 nkey s un mp = Some (s, un, mp)"
| "fini_loop dbg (Suc n) nkey s un mp = do {
     locker \<leftarrow> arr_get (pm_lockers mp) (unat nkey);
     (s, un, mp, locker) \<leftarrow>
       (if lk_state locker = LOCKER_IS_BUSY
        then do {
          mp \<leftarrow> audit dbg mp nkey DHD_DUPLICATE_FREE;
          s \<leftarrow> dhd_prot_packet_free s (lk_pkt locker);
          Some (s, un @ [(lk_pa locker, lk_len locker, lk_dir locker)], mp, locker\<lparr>lk_state := LOCKER_IS_FREE\<rparr>)
        }
        else do { mp \<leftarrow> audit dbg mp nkey DHD_TEST_IS_FREE; Some (s, un, mp, locker) });
     lks \<leftarrow> arr_set (pm_lockers mp) (unat nkey) (locker\<lparr>lk_pkt := None, lk_len := 0\<rparr>);
     fini_loop dbg n (nkey + 1) s un (mp\<lparr>pm_lockers := lks\<rparr>)
   }"

text \<open>A NULL handle is ignored; otherwise the map is gone afterwards, what is left are the effects.\<close>

definition dhd_pktid_map_fini :: "bool \<Rightarrow> pkt_store \<Rightarrow> dhd_pktid_map option \<Rightarrow> (pkt_store \<times> unmaps) option" where
  "dhd_pktid_map_fini dbg s handle =
     (case handle of
        None \<Rightarrow> Some (s, [])
      | Some mp \<Rightarrow> do {
          (s, un, _) \<leftarrow> fini_loop dbg (unat (pm_items mp)) 1 s [] mp;
          Some (s, un)
        })"

end
