(* ===== verification/Msgbuf_Ring.thy ===== *)
theory Msgbuf_Ring
  imports Byte_Buf Pktid_Map
begin

text \<open>
  The message rings between host and device (\<open>dhd/sys/dhd_msgbuf.c\<close>, macros of \<open>include/bcmpcie.h\<close>): a
  ring of \<open>max_items\<close> slots of \<open>item_len\<close> bytes with a write and a read index. The producer owns the
  write index, the consumer the read index, and each sees the other's through shared memory: either
  an array of indices in host memory that is transferred by DMA, or words of the device's memory. One
  slot stays empty. An address into a ring is the offset from the start of its buffer.
\<close>

section \<open>Space\<close>

text \<open>The operands are \<open>uint16\<close>, so the arithmetic is done in \<open>int\<close>.\<close>

definition NTXPACTIVE :: "int \<Rightarrow> int \<Rightarrow> int \<Rightarrow> int" where
  "NTXPACTIVE r w d = (if r \<le> w then w - r else d - r + w)"

definition READ_AVAIL_SPACE :: "int \<Rightarrow> int \<Rightarrow> int \<Rightarrow> int" where
  "READ_AVAIL_SPACE w r d = (if r \<le> w then w - r else d - r)"

definition WRITE_SPACE_AVAIL_CONTINUOUS :: "int \<Rightarrow> int \<Rightarrow> int \<Rightarrow> int" where
  "WRITE_SPACE_AVAIL_CONTINUOUS r w d = (if r \<le> w then d - w else r - w)"

definition WRITE_SPACE_AVAIL :: "int \<Rightarrow> int \<Rightarrow> int \<Rightarrow> int" where
  "WRITE_SPACE_AVAIL r w d = d - NTXPACTIVE r w d - 1"

definition CHECK_WRITE_SPACE :: "int \<Rightarrow> int \<Rightarrow> int \<Rightarrow> int" where
  "CHECK_WRITE_SPACE r w d = min (WRITE_SPACE_AVAIL r w d) (WRITE_SPACE_AVAIL_CONTINUOUS r w d)"

section \<open>Rings and shared indices\<close>

record msgbuf_ring =
  mr_inited :: bool
  mr_idx :: u16
  mr_rd :: u16
  mr_wr :: u16
  mr_max_items :: u16
  mr_item_len :: u16
  mr_base_addr :: dmaaddr
  mr_seqnum :: u32
  mr_start_addr :: "nat option"
  mr_pend_items_count :: u16

text \<open>
  What is shared with the device: the four arrays of indices in host memory, the indices in the
  device's memory by ring id, the description of each common ring (base address, number and length of
  items) there, and the record of the doorbells rung.
\<close>

record ring_dev =
  dma_h2d_ring_upd_support :: bool
  dma_d2h_ring_upd_support :: bool
  rw_index_sz :: u32
  h2d_dma_indx_wr_buf :: bytes
  h2d_dma_indx_rd_buf :: bytes
  d2h_dma_indx_wr_buf :: bytes
  d2h_dma_indx_rd_buf :: bytes
  ring_state_w :: "u16 \<Rightarrow> u16"
  ring_state_r :: "u16 \<Rightarrow> u16"
  ring_mem :: "u16 \<Rightarrow> dmaaddr \<times> u16 \<times> u16"
  doorbells :: "u16 list"

abbreviation (input) BCMPCIE_H2D_COMMON_MSGRINGS :: u16 where "BCMPCIE_H2D_COMMON_MSGRINGS \<equiv> 2"
abbreviation (input) BCMPCIE_COMMON_MSGRINGS :: u16 where "BCMPCIE_COMMON_MSGRINGS \<equiv> 5"

definition DHD_IS_FLOWRING :: "u16 \<Rightarrow> bool" where
  "DHD_IS_FLOWRING ringid \<longleftrightarrow> BCMPCIE_COMMON_MSGRINGS \<le> ringid"

definition DHD_FLOWID_TO_RINGID :: "u16 \<Rightarrow> u16" where
  "DHD_FLOWID_TO_RINGID flowid = BCMPCIE_COMMON_MSGRINGS + (flowid - BCMPCIE_H2D_COMMON_MSGRINGS)"

definition DHD_RINGID_TO_FLOWID :: "u16 \<Rightarrow> u16" where
  "DHD_RINGID_TO_FLOWID ringid = BCMPCIE_H2D_COMMON_MSGRINGS + (ringid - BCMPCIE_COMMON_MSGRINGS)"

definition DHD_H2D_RING_OFFSET :: "u16 \<Rightarrow> u16" where
  "DHD_H2D_RING_OFFSET ringid = (if DHD_IS_FLOWRING ringid then DHD_RINGID_TO_FLOWID ringid else ringid)"

definition DHD_D2H_RING_OFFSET :: "u16 \<Rightarrow> u16" where
  "DHD_D2H_RING_OFFSET ringid = ringid - BCMPCIE_H2D_COMMON_MSGRINGS"

datatype dma_indx = H2D_DMA_INDX_WR_UPD | H2D_DMA_INDX_RD_UPD | D2H_DMA_INDX_WR_UPD | D2H_DMA_INDX_RD_UPD

definition dhd_prot_dma_indx_set :: "bool \<Rightarrow> ring_dev \<Rightarrow> u16 \<Rightarrow> dma_indx \<Rightarrow> u16 \<Rightarrow> ring_dev option" where
  "dhd_prot_dma_indx_set dbg dv new_index type ringid =
     (case type of
        H2D_DMA_INDX_WR_UPD \<Rightarrow> do {
          DBG_ASSERT dbg (rw_index_sz dv \<noteq> 0);
          buf \<leftarrow> htol16_ua_store new_index (h2d_dma_indx_wr_buf dv)
                  (unat (DHD_H2D_RING_OFFSET ringid) * unat (rw_index_sz dv));
          Some (dv\<lparr>h2d_dma_indx_wr_buf := buf\<rparr>)
        }
      | D2H_DMA_INDX_RD_UPD \<Rightarrow> do {
          DBG_ASSERT dbg (rw_index_sz dv \<noteq> 0);
          buf \<leftarrow> htol16_ua_store new_index (d2h_dma_indx_rd_buf dv)
                  (unat (DHD_D2H_RING_OFFSET ringid) * unat (rw_index_sz dv));
          Some (dv\<lparr>d2h_dma_indx_rd_buf := buf\<rparr>)
        }
      | _ \<Rightarrow> Some dv)"

definition dhd_prot_dma_indx_get :: "bool \<Rightarrow> ring_dev \<Rightarrow> dma_indx \<Rightarrow> u16 \<Rightarrow> u16 option" where
  "dhd_prot_dma_indx_get dbg dv type ringid = do {
     let (buf, offset) =
       (case type of
          H2D_DMA_INDX_WR_UPD \<Rightarrow> (h2d_dma_indx_wr_buf dv, DHD_H2D_RING_OFFSET ringid)
        | H2D_DMA_INDX_RD_UPD \<Rightarrow> (h2d_dma_indx_rd_buf dv, DHD_H2D_RING_OFFSET ringid)
        | D2H_DMA_INDX_WR_UPD \<Rightarrow> (d2h_dma_indx_wr_buf dv, DHD_D2H_RING_OFFSET ringid)
        | D2H_DMA_INDX_RD_UPD \<Rightarrow> (d2h_dma_indx_rd_buf dv, DHD_D2H_RING_OFFSET ringid));
     DBG_ASSERT dbg (rw_index_sz dv \<noteq> 0);
     ltoh16_ua buf (unat offset * unat (rw_index_sz dv))
   }"

section \<open>Producing\<close>

text \<open>The result: the ring, and the address and number of the slots unless there is no space.\<close>

definition dhd_prot_get_ring_space ::
  "bool \<Rightarrow> msgbuf_ring \<Rightarrow> u16 \<Rightarrow> bool \<Rightarrow> (msgbuf_ring \<times> (nat \<times> u16) option) option" where
  "dhd_prot_get_ring_space dbg ring nitems exactly_nitems = do {
     DBG_ASSERT dbg (nitems \<le> mr_max_items ring);
     let ring_avail_cnt = (word_of_int
           (CHECK_WRITE_SPACE (uint (mr_rd ring)) (uint (mr_wr ring)) (uint (mr_max_items ring))) :: u16);
     if ring_avail_cnt = 0 \<or>
        exactly_nitems \<and> ring_avail_cnt < nitems \<and> uint nitems \<le> uint (mr_max_items ring) - uint (mr_wr ring)
     then Some (ring, None)
     else do {
       let alloced = min nitems ring_avail_cnt;
       let ret_ptr = unat (mr_wr ring) * unat (mr_item_len ring);
       let sum = uint (mr_wr ring) + uint alloced;
       if sum = uint (mr_max_items ring) then Some (ring\<lparr>mr_wr := 0\<rparr>, Some (ret_ptr, alloced))
       else if sum < uint (mr_max_items ring) then Some (ring\<lparr>mr_wr := mr_wr ring + alloced\<rparr>, Some (ret_ptr, alloced))
       else do { DBG_ASSERT dbg False; Some (ring, None) }
     }
   }"

definition fetch_rd :: "bool \<Rightarrow> ring_dev \<Rightarrow> msgbuf_ring \<Rightarrow> msgbuf_ring option" where
  "fetch_rd dbg dv ring = do {
     rd \<leftarrow> (if dma_d2h_ring_upd_support dv then dhd_prot_dma_indx_get dbg dv H2D_DMA_INDX_RD_UPD (mr_idx ring)
            else Some (ring_state_r dv (mr_idx ring)));
     Some (ring\<lparr>mr_rd := rd\<rparr>)
   }"

definition dhd_prot_alloc_ring_space ::
  "bool \<Rightarrow> ring_dev \<Rightarrow> msgbuf_ring \<Rightarrow> u16 \<Rightarrow> bool \<Rightarrow> (msgbuf_ring \<times> (nat \<times> u16) option) option" where
  "dhd_prot_alloc_ring_space dbg dv ring nitems exactly_nitems = do {
     (ring, ret) \<leftarrow> dhd_prot_get_ring_space dbg ring nitems exactly_nitems;
     (case ret of
        Some buf \<Rightarrow> Some (ring, ret)
      | None \<Rightarrow> do {
          ring \<leftarrow> fetch_rd dbg dv ring;
          dhd_prot_get_ring_space dbg ring nitems exactly_nitems
        })
   }"

definition dhd_prot_ring_write_complete :: "bool \<Rightarrow> ring_dev \<Rightarrow> msgbuf_ring \<Rightarrow> ring_dev option" where
  "dhd_prot_ring_write_complete dbg dv ring = do {
     dv \<leftarrow> (if dma_h2d_ring_upd_support dv
            then dhd_prot_dma_indx_set dbg dv (mr_wr ring) H2D_DMA_INDX_WR_UPD (mr_idx ring)
            else Some (dv\<lparr>ring_state_w := (ring_state_w dv)(mr_idx ring := mr_wr ring)\<rparr>));
     Some (dv\<lparr>doorbells := doorbells dv @ [mr_wr ring]\<rparr>)
   }"

section \<open>Consuming\<close>

definition dhd_prot_upd_read_idx :: "bool \<Rightarrow> ring_dev \<Rightarrow> msgbuf_ring \<Rightarrow> ring_dev option" where
  "dhd_prot_upd_read_idx dbg dv ring =
     (if dma_h2d_ring_upd_support dv
      then dhd_prot_dma_indx_set dbg dv (mr_rd ring) D2H_DMA_INDX_RD_UPD (mr_idx ring)
      else Some (dv\<lparr>ring_state_r := (ring_state_r dv)(mr_idx ring := mr_rd ring)\<rparr>))"

definition fetch_wr :: "bool \<Rightarrow> ring_dev \<Rightarrow> msgbuf_ring \<Rightarrow> msgbuf_ring option" where
  "fetch_wr dbg dv ring = do {
     wr \<leftarrow> (if dma_d2h_ring_upd_support dv then dhd_prot_dma_indx_get dbg dv D2H_DMA_INDX_WR_UPD (mr_idx ring)
            else Some (ring_state_w dv (mr_idx ring)));
     Some (ring\<lparr>mr_wr := wr\<rparr>)
   }"

text \<open>The result: the ring, and the address and the number of bytes to read, if there is a message.\<close>

definition dhd_prot_get_read_addr ::
  "bool \<Rightarrow> ring_dev \<Rightarrow> msgbuf_ring \<Rightarrow> (msgbuf_ring \<times> (nat \<times> u32) option) option" where
  "dhd_prot_get_read_addr dbg dv ring = do {
     ring \<leftarrow> fetch_wr dbg dv ring;
     let items = (word_of_int
           (READ_AVAIL_SPACE (uint (mr_wr ring)) (uint (mr_rd ring)) (uint (mr_max_items ring))) :: u16);
     if items = 0 then Some (ring, None)
     else do {
       DBG_ASSERT dbg (items < mr_max_items ring);
       if mr_max_items ring \<le> items then Some (ring, None)
       else do {
         let read_addr = unat (mr_rd ring) * unat (mr_item_len ring);
         let rd = (if uint (mr_max_items ring) \<le> uint (mr_rd ring) + uint items then 0 else mr_rd ring + items);
         DBG_ASSERT dbg (rd < mr_max_items ring);
         Some (ring\<lparr>mr_rd := rd\<rparr>, Some (read_addr, ucast items * ucast (mr_item_len ring)))
       }
     }
   }"

section \<open>Waiting for the transfer of a message\<close>

abbreviation (input) D2H_EPOCH_MODULO :: u32 where "D2H_EPOCH_MODULO \<equiv> 253"
abbreviation (input) PCIE_D2H_SYNC_WAIT_TRIES :: nat where "PCIE_D2H_SYNC_WAIT_TRIES \<equiv> 512"
abbreviation (input) MSG_TYPE_INVALID :: u8 where "MSG_TYPE_INVALID \<equiv> 0"

record sync_stat =
  d2h_sync_wait_max :: nat
  d2h_sync_wait_tot :: nat

text \<open>
  The message is in memory the device writes while the host polls it: \<open>msg t\<close> are its 32-bit words at
  the poll number \<open>t\<close>. The header is in the first word: type, interface, flags and epoch from the
  least significant byte up. The loop of both modes, with the test \<open>done\<close> on the words.
\<close>

definition hdr_msg_type :: "u32 list \<Rightarrow> u8 option" where
  "hdr_msg_type ws = map_option ucast (arr_get ws 0)"

definition hdr_epoch :: "u32 list \<Rightarrow> u8 option" where
  "hdr_epoch ws = map_option (\<lambda>w. ucast (drop_bit 24 w)) (arr_get ws 0)"

fun sync_loop :: "(u32 list \<Rightarrow> bool option) \<Rightarrow> (nat \<Rightarrow> u32 list) \<Rightarrow> nat \<Rightarrow> nat \<Rightarrow> sync_stat \<Rightarrow> (nat option \<times> sync_stat) option" where
  "sync_loop complete msg 0 tries st = Some (None, st)"
| "sync_loop complete msg (Suc n) tries st = do {
     ok \<leftarrow> complete (msg tries);
     if ok then Some (Some tries, st)
     else sync_loop complete msg n (Suc tries)
            (if d2h_sync_wait_max st < tries then st\<lparr>d2h_sync_wait_max := tries\<rparr> else st)
   }"

definition sync_finish ::
  "msgbuf_ring \<Rightarrow> (nat \<Rightarrow> u32 list) \<Rightarrow> nat option \<times> sync_stat \<Rightarrow> (msgbuf_ring \<times> sync_stat \<times> u8) option" where
  "sync_finish ring msg r =
     (case r of
        (None, st) \<Rightarrow> Some (ring\<lparr>mr_seqnum := mr_seqnum ring + 1\<rparr>, st, MSG_TYPE_INVALID)
      | (Some tries, st) \<Rightarrow> do {
          ty \<leftarrow> hdr_msg_type (msg tries);
          Some (ring\<lparr>mr_seqnum := mr_seqnum ring + 1\<rparr>, st\<lparr>d2h_sync_wait_tot := d2h_sync_wait_tot st + tries\<rparr>, ty)
        })"

definition dhd_prot_d2h_sync_seqnum ::
  "msgbuf_ring \<Rightarrow> (nat \<Rightarrow> u32 list) \<Rightarrow> sync_stat \<Rightarrow> (msgbuf_ring \<times> sync_stat \<times> u8) option" where
  "dhd_prot_d2h_sync_seqnum ring msg st = do {
     let num_words = unat (mr_item_len ring) div 4;
     let ring_seqnum = mr_seqnum ring mod D2H_EPOCH_MODULO;
     r \<leftarrow> sync_loop (\<lambda>ws. map_option (\<lambda>w. w = ring_seqnum) (arr_get ws (num_words - 1))) msg PCIE_D2H_SYNC_WAIT_TRIES 0 st;
     sync_finish ring msg r
   }"

definition bcm_compute_xor32 :: "u32 list \<Rightarrow> nat \<Rightarrow> u32 option" where
  "bcm_compute_xor32 ws num = (if num \<le> length ws then Some (fold (XOR) (take num ws) 0) else None)"

definition dhd_prot_d2h_sync_xorcsum ::
  "msgbuf_ring \<Rightarrow> (nat \<Rightarrow> u32 list) \<Rightarrow> sync_stat \<Rightarrow> (msgbuf_ring \<times> sync_stat \<times> u8) option" where
  "dhd_prot_d2h_sync_xorcsum ring msg st = do {
     let num_words = unat (mr_item_len ring) div 4;
     let ring_seqnum = (ucast (mr_seqnum ring mod D2H_EPOCH_MODULO) :: u8);
     r \<leftarrow> sync_loop
           (\<lambda>ws. do {
              x \<leftarrow> bcm_compute_xor32 ws num_words;
              e \<leftarrow> hdr_epoch ws;
              Some (x = 0 \<and> e = ring_seqnum)
            }) msg PCIE_D2H_SYNC_WAIT_TRIES 0 st;
     sync_finish ring msg r
   }"

definition dhd_prot_d2h_sync_none ::
  "msgbuf_ring \<Rightarrow> (nat \<Rightarrow> u32 list) \<Rightarrow> sync_stat \<Rightarrow> (msgbuf_ring \<times> sync_stat \<times> u8) option" where
  "dhd_prot_d2h_sync_none ring msg st = do { ty \<leftarrow> hdr_msg_type (msg 0); Some (ring, st, ty) }"

section \<open>Consuming messages\<close>

text \<open>
  \<open>dhd_prot_process_msgtype\<close> calls the handler of each message of the block; \<open>sync\<close> waits for the
  message and gives its type, \<open>handler\<close> is the table of handlers acting on the rest of the driver
  (\<open>table_lookup\<close>, without entry for types that are ignored), \<open>hang\<close> reads \<open>hang_was_sent\<close>.
\<close>

abbreviation (input) DHD_PROT_FUNCS :: u8 where "DHD_PROT_FUNCS \<equiv> 37"

fun msgtype_loop ::
  "bool \<Rightarrow> (msgbuf_ring \<Rightarrow> nat \<Rightarrow> 's \<Rightarrow> (msgbuf_ring \<times> 's \<times> u8) option) \<Rightarrow> (u8 \<Rightarrow> (nat \<Rightarrow> 's \<Rightarrow> 's option) option) \<Rightarrow>
    ('s \<Rightarrow> bool) \<Rightarrow> u16 \<Rightarrow> nat \<Rightarrow> msgbuf_ring \<Rightarrow> nat \<Rightarrow> int \<Rightarrow> 's \<Rightarrow> (msgbuf_ring \<times> 's \<times> int) option" where
  "msgtype_loop dbg sync table_lookup hang item_len 0 ring buf buf_len s = Some (ring, s, BCME_OK)"
| "msgtype_loop dbg sync table_lookup hang item_len (Suc n) ring buf buf_len s =
     (if buf_len \<le> 0 then Some (ring, s, BCME_OK)
      else if hang s then Some (ring, s, BCME_ERROR)
      else do {
        (ring, s, msg_type) \<leftarrow> sync ring buf s;
        DBG_ASSERT dbg (msg_type < DHD_PROT_FUNCS);
        if DHD_PROT_FUNCS \<le> msg_type then Some (ring, s, BCME_ERROR)
        else do {
          s \<leftarrow> (case table_lookup msg_type of None \<Rightarrow> Some s | Some h \<Rightarrow> h buf s);
          if buf_len < uint item_len then Some (ring, s, BCME_ERROR)
          else msgtype_loop dbg sync table_lookup hang item_len n ring (buf + unat item_len) (buf_len - uint item_len) s
        }
      })"

text \<open>Each round consumes at least one byte, so \<open>len\<close> rounds are enough.\<close>

definition dhd_prot_process_msgtype ::
  "bool \<Rightarrow> (msgbuf_ring \<Rightarrow> nat \<Rightarrow> 's \<Rightarrow> (msgbuf_ring \<times> 's \<times> u8) option) \<Rightarrow> (u8 \<Rightarrow> (nat \<Rightarrow> 's \<Rightarrow> 's option) option) \<Rightarrow>
    ('s \<Rightarrow> bool) \<Rightarrow> msgbuf_ring \<Rightarrow> nat \<Rightarrow> u32 \<Rightarrow> 's \<Rightarrow> (msgbuf_ring \<times> 's \<times> int) option" where
  "dhd_prot_process_msgtype dbg sync table_lookup hang ring buf len s =
     (if mr_item_len ring = 0 then Some (ring, s, BCME_ERROR)
      else msgtype_loop dbg sync table_lookup hang (mr_item_len ring) (unat len) ring buf (sint len) s)"

section \<open>Setting up\<close>

definition dhd_prot_ring_init :: "ring_dev \<Rightarrow> msgbuf_ring \<Rightarrow> ring_dev \<times> msgbuf_ring" where
  "dhd_prot_ring_init dv ring =
     (dv\<lparr>ring_mem := (ring_mem dv)(mr_idx ring := (mr_base_addr ring, mr_max_items ring, mr_item_len ring)),
         ring_state_w := (ring_state_w dv)(mr_idx ring := 0), ring_state_r := (ring_state_r dv)(mr_idx ring := 0)\<rparr>,
      ring\<lparr>mr_wr := 0, mr_rd := 0, mr_inited := True\<rparr>)"

text \<open>With the bytes of the buffer of the ring, which are cleared.\<close>

definition dhd_prot_ring_reset :: "msgbuf_ring \<Rightarrow> bytes \<Rightarrow> msgbuf_ring \<times> bytes" where
  "dhd_prot_ring_reset ring buf = (ring\<lparr>mr_rd := 0, mr_wr := 0\<rparr>, replicate (length buf) 0)"

end
