(* ===== verification/Msgbuf_Rx.thy ===== *)
theory Msgbuf_Rx
  imports Msgbuf_Ring
begin

text \<open>
  Receive buffers and completions (\<open>dhd/sys/dhd_msgbuf.c\<close>): the host posts empty buffers to the device
  over a message ring, each under a packet id of the packet-id map; the device fills one and sends a
  completion with the id, upon which the host takes the packet out of the map, delivers it and posts
  new buffers. Transmit completions take the packet out of the map and free it. Modelled as built
  without \<open>BCM_SECURE_DMA\<close>, \<open>DHD_LB_RXC\<close> and \<open>DHD_LB_TXC\<close>, and with ids audited during ring operation
  (\<open>DHD_PKTID_AUDIT_RING\<close>).
\<close>

section \<open>State\<close>

record host_rxbuf_post =
  rp_epoch :: u8
  rp_request_id :: u32
  rp_metadata_buf_len :: u16
  rp_data_buf_len :: u16
  rp_metadata_buf_addr :: "u32 \<times> u32"
  rp_data_buf_addr :: "u32 \<times> u32"

text \<open>A packet handed up: how much was pulled from its front, its length and interface.\<close>

record rx_frame =
  rf_pkt :: pkt
  rf_pull :: u32
  rf_len :: u16
  rf_ifidx :: u8

text \<open>
  \<open>pkt_supply\<close> stands for \<open>PKTGET\<close> and \<open>DMA_MAP\<close>: the packets the operating system will hand out with the
  address their buffers are mapped at, \<open>None\<close> where it has none; the calls take from its front.
  \<open>rxp_slots\<close> are the messages in the buffer of the ring.
\<close>

record dhd_prot =
  rxbufpost :: u16
  max_rxbufpost :: u16
  active_tx_count :: u16
  rx_dataoffset :: u32
  rx_metadata_offset :: u16
  h2dring_rxp_subn :: msgbuf_ring
  rxp_slots :: "host_rxbuf_post list"
  pktid_map :: dhd_pktid_map
  rdev :: ring_dev
  pstore :: pkt_store
  pkt_supply :: "(pkt \<times> dmaaddr) option list"
  unmapped :: "(dmaaddr \<times> u32) list"
  rx_pktgetfail :: nat
  rx_frames :: "rx_frame list"
  tx_done :: "pkt list"
  wake_unlocks :: nat

abbreviation (input) DHD_FLOWRING_RX_BUFPOST_PKTSZ :: u32 where "DHD_FLOWRING_RX_BUFPOST_PKTSZ \<equiv> 2048"
abbreviation (input) H2D_EPOCH_MODULO :: u32 where "H2D_EPOCH_MODULO \<equiv> 253"
abbreviation (input) RX_BUF_BURST :: int where "RX_BUF_BURST \<equiv> 32"
abbreviation (input) RXBUFPOST_THRESHOLD :: int where "RXBUFPOST_THRESHOLD \<equiv> 32"
abbreviation (input) DMA_RX :: u8 where "DMA_RX \<equiv> 2"

definition PHYSADDRHI :: "dmaaddr \<Rightarrow> u32" where
  "PHYSADDRHI pa = ucast (drop_bit 32 pa)"

definition PHYSADDRLO :: "dmaaddr \<Rightarrow> u32" where
  "PHYSADDRLO pa = ucast pa"

section \<open>Posting\<close>

definition PKTGET :: "dhd_prot \<Rightarrow> dhd_prot \<times> (pkt \<times> dmaaddr) option" where
  "PKTGET s = (case pkt_supply s of [] \<Rightarrow> (s, None) | b # bs \<Rightarrow> (s\<lparr>pkt_supply := bs\<rparr>, b))"

definition unmap_free :: "dhd_prot \<Rightarrow> dmaaddr \<Rightarrow> u32 \<Rightarrow> pkt \<Rightarrow> dhd_prot option" where
  "unmap_free s pa len p = do {
     st \<leftarrow> PKTFREE (pstore s) (Some p);
     Some (s\<lparr>pstore := st, unmapped := unmapped s @ [(pa, len)]\<rparr>)
   }"

definition rxpost_msg :: "dhd_prot \<Rightarrow> u8 \<Rightarrow> u32 \<Rightarrow> u32 \<Rightarrow> dmaaddr \<Rightarrow> host_rxbuf_post" where
  "rxpost_msg s epoch pktid pktlen pa =
     (let off = rx_metadata_offset s
      in \<lparr>rp_epoch = epoch, rp_request_id = pktid, rp_metadata_buf_len = off, rp_data_buf_len = ucast pktlen,
          rp_metadata_buf_addr = (if off \<noteq> 0 then (PHYSADDRHI pa, PHYSADDRLO pa) else (0, 0)),
          rp_data_buf_addr = (PHYSADDRHI pa, PHYSADDRLO pa + ucast off)\<rparr>)"

text \<open>
  The loop over the claimed slots: \<open>n\<close> are left, \<open>i\<close> have been filled, \<open>slot\<close> is the next. It stops early
  when there is no packet, its buffer has address 0, or there is no packet id; the result counts the
  messages written.
\<close>

fun rxpost_loop :: "bool \<Rightarrow> nat \<Rightarrow> nat \<Rightarrow> nat \<Rightarrow> dhd_prot \<Rightarrow> (dhd_prot \<times> nat) option" where
  "rxpost_loop dbg 0 i slot s = Some (s, i)"
| "rxpost_loop dbg (Suc n) i slot s =
     (case PKTGET s of
        (s, None) \<Rightarrow> Some (s\<lparr>rx_pktgetfail := rx_pktgetfail s + 1\<rparr>, i)
      | (s, Some (p, pa)) \<Rightarrow>
          if pa = 0
          then do { s \<leftarrow> unmap_free s pa DHD_FLOWRING_RX_BUFPOST_PKTSZ p; DBG_ASSERT dbg False; Some (s, i) }
          else do {
            let pktlen = DHD_FLOWRING_RX_BUFPOST_PKTSZ - ucast (rx_metadata_offset s);
            let ring = h2dring_rxp_subn s;
            let epoch = ucast (mr_seqnum ring mod H2D_EPOCH_MODULO);
            let s = s\<lparr>h2dring_rxp_subn := ring\<lparr>mr_seqnum := mr_seqnum ring + 1\<rparr>\<rparr>;
            (mp, pktid) \<leftarrow> dhd_pktid_map_alloc dbg (pktid_map s) (Some p) pa pktlen DMA_RX None None PKTTYPE_DATA_RX;
            if pktid = DHD_PKTID_INVALID
            then do { s \<leftarrow> unmap_free (s\<lparr>pktid_map := mp\<rparr>) pa pktlen p; Some (s, i) }
            else do {
              mp \<leftarrow> audit dbg mp pktid DHD_DUPLICATE_ALLOC;
              slots \<leftarrow> arr_set (rxp_slots s) slot (rxpost_msg s epoch pktid pktlen pa);
              rxpost_loop dbg n (Suc i) (Suc slot) (s\<lparr>pktid_map := mp, rxp_slots := slots\<rparr>)
            }
          })"

text \<open>Giving back the slots that were claimed and not filled.\<close>

definition unclaim :: "msgbuf_ring \<Rightarrow> u16 \<Rightarrow> msgbuf_ring" where
  "unclaim ring k =
     ring\<lparr>mr_wr := if mr_wr ring < k then mr_max_items ring - k else mr_wr ring - k\<rparr>"

text \<open>
  The result: the number of buffers posted, or -1 if the ring has no space. The counter of the loop
  is a \<open>uint8\<close>: for 256 claimed slots or more it would wrap, which has no outcome here. The callers ask
  for at most \<open>RX_BUF_BURST\<close>.
\<close>

definition dhd_prot_rxbuf_post :: "bool \<Rightarrow> u16 \<Rightarrow> dhd_prot \<Rightarrow> (dhd_prot \<times> int) option" where
  "dhd_prot_rxbuf_post dbg count s = do {
     let slot = unat (mr_wr (h2dring_rxp_subn s));
     (ring, ret) \<leftarrow> dhd_prot_alloc_ring_space dbg (rdev s) (h2dring_rxp_subn s) count True;
     let s = s\<lparr>h2dring_rxp_subn := ring\<rparr>;
     (case ret of
        None \<Rightarrow> Some (s, -1)
      | Some (_, alloced) \<Rightarrow> do {
          DBG_ASSERT dbg (0 < alloced);
          ASSERT (unat alloced < 256);
          (s, i) \<leftarrow> rxpost_loop dbg (unat alloced) 0 slot s;
          let s = (if i < unat alloced
                   then s\<lparr>h2dring_rxp_subn := unclaim (h2dring_rxp_subn s) (alloced - of_nat i)\<rparr> else s);
          if 0 < i
          then do {
            dv \<leftarrow> dhd_prot_ring_write_complete dbg (rdev s) (h2dring_rxp_subn s);
            Some (s\<lparr>rdev := dv\<rparr>, int i)
          }
          else Some (s, int i)
        })
   }"

text \<open>The loop that fills up, with its own bound on the number of rounds; \<open>fillbufs\<close> is an \<open>int16\<close>.\<close>

definition to_fill :: "dhd_prot \<Rightarrow> int" where
  "to_fill s = sint (word_of_int (uint (max_rxbufpost s) - uint (rxbufpost s)) :: u16)"

fun rxbuf_fill :: "bool \<Rightarrow> nat \<Rightarrow> int \<Rightarrow> dhd_prot \<Rightarrow> dhd_prot option" where
  "rxbuf_fill dbg 0 fillbufs s = Some s"
| "rxbuf_fill dbg (Suc cnt) fillbufs s =
     (if fillbufs < RX_BUF_BURST \<or> cnt = 0 then Some s
      else do {
        (s, retcount) \<leftarrow> dhd_prot_rxbuf_post dbg (word_of_int (min fillbufs RX_BUF_BURST)) s;
        if 0 \<le> retcount
        then do { let s = s\<lparr>rxbufpost := rxbufpost s + word_of_int retcount\<rparr>; rxbuf_fill dbg cnt (to_fill s) s }
        else rxbuf_fill dbg cnt 0 s
      })"

definition dhd_msgbuf_rxbuf_post :: "bool \<Rightarrow> dhd_prot \<Rightarrow> dhd_prot option" where
  "dhd_msgbuf_rxbuf_post dbg s = rxbuf_fill dbg 256 (to_fill s) s"

definition dhd_prot_return_rxbuf :: "bool \<Rightarrow> u32 \<Rightarrow> dhd_prot \<Rightarrow> dhd_prot option" where
  "dhd_prot_return_rxbuf dbg rxcnt s = do {
     let s = s\<lparr>rxbufpost := if rxcnt \<le> ucast (rxbufpost s) then rxbufpost s - ucast rxcnt else 0\<rparr>;
     if uint (rxbufpost s) \<le> uint (max_rxbufpost s) - RXBUFPOST_THRESHOLD then dhd_msgbuf_rxbuf_post dbg s else Some s
   }"

section \<open>Completions\<close>

definition dhd_prot_packet_get :: "bool \<Rightarrow> u32 \<Rightarrow> dhd_pkttype \<Rightarrow> bool \<Rightarrow> dhd_prot \<Rightarrow> (dhd_prot \<times> pkt_ptr) option" where
  "dhd_prot_packet_get dbg pktid pkttype free_pktid s = do {
     (mp, pkt, out) \<leftarrow> dhd_pktid_map_free dbg (pktid_map s) pktid pkttype (\<not> free_pktid);
     let s = s\<lparr>pktid_map := mp\<rparr>;
     (case (pkt, out) of
        (Some p, Some (pa, len, dmah, secdma)) \<Rightarrow> Some (s\<lparr>unmapped := unmapped s @ [(pa, len)]\<rparr>, pkt)
      | _ \<Rightarrow> Some (s, pkt))
   }"

definition dhd_prot_rxcmplt_process :: "bool \<Rightarrow> u32 \<Rightarrow> u16 \<Rightarrow> u16 \<Rightarrow> u8 \<Rightarrow> dhd_prot \<Rightarrow> dhd_prot option" where
  "dhd_prot_rxcmplt_process dbg pktid data_offset data_len if_id s = do {
     mp \<leftarrow> audit dbg (pktid_map s) pktid DHD_DUPLICATE_FREE;
     (s, pkt) \<leftarrow> dhd_prot_packet_get dbg pktid PKTTYPE_DATA_RX True (s\<lparr>pktid_map := mp\<rparr>);
     (case pkt of
        None \<Rightarrow> Some s
      | Some p \<Rightarrow> do {
          s \<leftarrow> dhd_prot_return_rxbuf dbg 1 s;
          let pull = (if data_offset \<noteq> 0 then ucast data_offset else rx_dataoffset s);
          Some (s\<lparr>rx_frames := rx_frames s @ [\<lparr>rf_pkt = p, rf_pull = pull, rf_len = data_len, rf_ifidx = if_id\<rparr>]\<rparr>)
        })
   }"

definition dhd_prot_txstatus_process :: "bool \<Rightarrow> u32 \<Rightarrow> dhd_prot \<Rightarrow> dhd_prot option" where
  "dhd_prot_txstatus_process dbg pktid s = do {
     mp \<leftarrow> audit dbg (pktid_map s) pktid DHD_DUPLICATE_FREE;
     let s = s\<lparr>pktid_map := mp\<rparr>;
     let s = (if active_tx_count s \<noteq> 0
              then s\<lparr>active_tx_count := active_tx_count s - 1,
                     wake_unlocks := if active_tx_count s = 1 then wake_unlocks s + 1 else wake_unlocks s\<rparr>
              else s);
     DBG_ASSERT dbg (pktid \<noteq> 0);
     (mp, pkt, out) \<leftarrow> dhd_pktid_map_free dbg (pktid_map s) pktid PKTTYPE_DATA_TX False;
     let s = s\<lparr>pktid_map := mp\<rparr>;
     (case (pkt, out) of
        (Some p, Some (pa, len, dmah, secdma)) \<Rightarrow> do {
          s \<leftarrow> unmap_free s pa len p;
          Some (s\<lparr>tx_done := tx_done s @ [p]\<rparr>)
        }
      | _ \<Rightarrow> Some s)
   }"

end
