(* ===== verification/Msgbuf_Tx.thy ===== *)
theory Msgbuf_Tx
  imports Msgbuf_Rx Flow_Ring
begin

text \<open>
  The transmit side of \<open>dhd/sys/dhd_msgbuf.c\<close>: a packet taken from the backup queue of a flow ring gets a
  packet id and a message on the ring of its flow (\<open>dhd_prot_txdata\<close>); messages are announced to the
  device in batches (\<open>TXP_FLUSH_NITEMS\<close>, which the file defines), and \<open>dhd_prot_txdata_write_flush\<close>
  announces what is left. Modelled as built without \<open>BCM_SECURE_DMA\<close>.
\<close>

section \<open>State\<close>

record cmn_msg_hdr =
  ch_msg_type :: u8
  ch_if_id :: u8
  ch_epoch :: u8
  ch_request_id :: u32

text \<open>The header of a transmit message has neither its flags nor its epoch written.\<close>

record host_txbuf_post =
  tx_if_id :: u8
  tx_request_id :: u32
  tx_txhdr :: bytes
  tx_flags :: u8
  tx_seg_cnt :: u8
  tx_metadata_buf_addr :: "u32 \<times> u32"
  tx_data_buf_addr :: "u32 \<times> u32"
  tx_metadata_buf_len :: u16
  tx_data_len :: u16

text \<open>The items of the control ring, by message type; addresses are (high, low).\<close>

datatype ctrl_submit_item =
    Ctrl_Unused
  | Ioctl_Req cmn_msg_hdr (ioctl_cmd: u32) (ioctl_trans: u16) (input_buf_len: u16) (output_buf_len: u16) "u32 \<times> u32"
  | Buf_Post cmn_msg_hdr u16 "u32 \<times> u32"
  | Flow_Create cmn_msg_hdr ether_addr ether_addr u8 u16 u16 u16 "u32 \<times> u32"
  | Flow_Delete cmn_msg_hdr u16 u16
  | Flow_Flush cmn_msg_hdr u16 u16
  | Host_Event cmn_msg_hdr u32

text \<open>
  The rest of \<open>struct dhd_prot\<close>, around the part that the receive path uses, with the fields of
  \<open>dhd_pub_t\<close> the protocol reads. \<open>prot_info\<close> is that field of the nodes of the flow-ring table: the
  position in the pool of the ring a node points to; \<open>None\<close> stands for a NULL table. \<open>bus_down\<close> and
  \<open>bus_suspend\<close> are \<open>busstate\<close> compared with \<open>DHD_BUS_DOWN\<close> and \<open>DHD_BUS_SUSPEND\<close>. \<open>flow_slots\<close> and
  \<open>ctrl_slots\<close> are the messages in the buffers of the rings.
\<close>

record dhd_msgbuf =
  mprot :: dhd_prot
  txp_threshold :: u16
  tx_metadata_offset :: u16
  h2d_rings_total :: u16
  h2d_flowrings_pool :: "msgbuf_ring list"
  flow_slots :: "host_txbuf_post list list"
  prot_info :: "nat option list option"
  wake_locks :: nat
  h2dring_ctrl_subn :: msgbuf_ring
  ctrl_slots :: "ctrl_submit_item list"
  max_eventbufpost :: u16
  max_ioctlrespbufpost :: u16
  cur_event_bufs_posted :: u16
  cur_ioctlresp_bufs_posted :: u16
  bus_down :: bool
  bus_suspend :: bool
  ioctl_state :: u8
  ioctl_status :: "16 word"
  ioctl_resplen :: u16
  ioctl_received :: u32
  curr_ioctl_cmd :: u32
  ioctl_trans_id :: u16
  retbuf :: bytes
  ioctbuf :: bytes
  ioctbuf_pa :: dmaaddr
  hang_was_sent :: bool
  dongle_reset :: bool
  dongle_trap_occured :: bool
  rxcnt_timeout :: nat
  rx_ctlerrs :: nat
  rx_ctlpkts :: nat
  dongle_error :: int
  wme_dp :: u8
  host_bus_throughput_pa :: dmaaddr

text \<open>
  What the operating system knows of a packet to be sent: its bytes, priority and headroom, the
  addresses \<open>DMA_MAP\<close> gives for its data and its metadata, and the flow id it is tagged with.
\<close>

record tx_pkt =
  tk_data :: bytes
  tk_prio :: u8
  tk_headroom :: u16
  tk_pa :: dmaaddr
  tk_meta_pa :: dmaaddr
  tk_flowid :: u16

abbreviation (input) ETHER_HDR_LEN :: nat where "ETHER_HDR_LEN \<equiv> 14"
abbreviation (input) DMA_TX :: u8 where "DMA_TX \<equiv> 1"

definition paddr :: "dmaaddr \<Rightarrow> u32 \<times> u32" where
  "paddr pa = (PHYSADDRHI pa, PHYSADDRLO pa)"

section \<open>Announcing and posting\<close>

definition get_flow_ring :: "dhd_msgbuf \<Rightarrow> u16 \<Rightarrow> (nat \<times> msgbuf_ring) option" where
  "get_flow_ring s fid = do {
     tbl \<leftarrow> prot_info s;
     pi \<leftarrow> arr_get tbl (unat fid);
     ri \<leftarrow> pi;
     ring \<leftarrow> arr_get (h2d_flowrings_pool s) ri;
     Some (ri, ring)
   }"

definition dhd_prot_txdata_write_flush :: "bool \<Rightarrow> u16 \<Rightarrow> dhd_msgbuf \<Rightarrow> dhd_msgbuf option" where
  "dhd_prot_txdata_write_flush dbg fid s =
     (if prot_info s = None then Some s
      else do {
        (ri, ring) \<leftarrow> get_flow_ring s fid;
        if mr_pend_items_count ring \<noteq> 0
        then do {
          dv \<leftarrow> dhd_prot_ring_write_complete dbg (rdev (mprot s)) ring;
          Some (s\<lparr>mprot := (mprot s)\<lparr>rdev := dv\<rparr>,
                  h2d_flowrings_pool := (h2d_flowrings_pool s)[ri := ring\<lparr>mr_pend_items_count := 0, mr_start_addr := None\<rparr>]\<rparr>)
        }
        else Some s
      })"

definition txpost_msg :: "dhd_msgbuf \<Rightarrow> tx_pkt \<Rightarrow> u8 \<Rightarrow> u32 \<Rightarrow> u32 \<Rightarrow> host_txbuf_post" where
  "txpost_msg s tp ifidx pktid pktlen =
     (let off = tx_metadata_offset s; meta = (off \<noteq> 0 \<and> off \<le> tk_headroom tp)
      in \<lparr>tx_if_id = ifidx, tx_request_id = pktid, tx_txhdr = take ETHER_HDR_LEN (tk_data tp),
          tx_flags = 1 OR push_bit 5 (tk_prio tp AND 7), tx_seg_cnt = 1,
          tx_metadata_buf_addr = (if meta then paddr (tk_meta_pa tp) else (0, 0)), tx_data_buf_addr = paddr (tk_pa tp),
          tx_metadata_buf_len = (if meta then off else 0), tx_data_len = ucast pktlen\<rparr>)"

text \<open>
  \<open>tp\<close> describes the packet \<open>p\<close>. The packet is left with the caller when the result is
  \<open>BCME_NORESOURCE\<close>. The data pointer is moved and moved back, so the packet is as before.
\<close>

definition dhd_prot_txdata :: "bool \<Rightarrow> pkt \<Rightarrow> tx_pkt \<Rightarrow> u8 \<Rightarrow> dhd_msgbuf \<Rightarrow> (dhd_msgbuf \<times> int) option" where
  "dhd_prot_txdata dbg p tp ifidx s =
     (if prot_info s = None then Some (s, BCME_NORESOURCE)
      else do {
        let pr = mprot s;
        (mp, pktid) \<leftarrow> dhd_pktid_map_reserve dbg (pktid_map pr) (Some p);
        if pktid = DHD_PKTID_INVALID then Some (s\<lparr>mprot := pr\<lparr>pktid_map := mp\<rparr>\<rparr>, BCME_NORESOURCE)
        else do {
          (ri, ring) \<leftarrow> get_flow_ring s (tk_flowid tp);
          let slot = unat (mr_wr ring);
          (ring, txdesc) \<leftarrow> dhd_prot_alloc_ring_space dbg (rdev pr) ring 1 False;
          (case txdesc of
             None \<Rightarrow> do {
               (mp, _, _) \<leftarrow> dhd_pktid_map_free dbg mp pktid PKTTYPE_NO_CHECK False;
               Some (s\<lparr>mprot := pr\<lparr>pktid_map := mp\<rparr>, h2d_flowrings_pool := (h2d_flowrings_pool s)[ri := ring]\<rparr>, BCME_NORESOURCE)
             }
           | Some (addr, _) \<Rightarrow> do {
               ASSERT (ETHER_HDR_LEN \<le> length (tk_data tp));
               let pktlen = of_nat (length (tk_data tp)) - of_nat ETHER_HDR_LEN;
               DBG_ASSERT dbg (tk_pa tp \<noteq> 0);
               mp \<leftarrow> dhd_pktid_map_save dbg mp (Some p) pktid (tk_pa tp) pktlen DMA_TX None None PKTTYPE_DATA_TX;
               let ring = (if mr_pend_items_count ring = 0 then ring\<lparr>mr_start_addr := Some addr\<rparr> else ring);
               let ring = ring\<lparr>mr_pend_items_count := mr_pend_items_count ring + 1\<rparr>;
               let off = tx_metadata_offset s;
               DBG_ASSERT dbg (off \<noteq> 0 \<and> off \<le> tk_headroom tp \<longrightarrow> tk_meta_pa tp \<noteq> 0);
               mp \<leftarrow> audit dbg mp pktid DHD_DUPLICATE_ALLOC;
               slots \<leftarrow> arr_get (flow_slots s) ri;
               slots \<leftarrow> arr_set slots slot (txpost_msg s tp ifidx pktid pktlen);
               let s = s\<lparr>mprot := pr\<lparr>pktid_map := mp\<rparr>, h2d_flowrings_pool := (h2d_flowrings_pool s)[ri := ring],
                         flow_slots := (flow_slots s)[ri := slots]\<rparr>;
               s \<leftarrow> (if mr_pend_items_count ring = txp_threshold s \<or>
                        addr = (unat (mr_max_items ring) - 1) * unat (mr_item_len ring)
                     then dhd_prot_txdata_write_flush dbg (tk_flowid tp) s else Some s);
               let cnt = active_tx_count (mprot s) + 1;
               Some (s\<lparr>mprot := (mprot s)\<lparr>active_tx_count := cnt\<rparr>,
                       wake_locks := if cnt = 1 then wake_locks s + 1 else wake_locks s\<rparr>, BCME_OK)
             })
        }
      })"

text \<open>
  The loop of \<open>dhd_bus_schedule_queue\<close> over the real protocol: the packets of a backup queue are posted
  in order until one is refused, and what was posted is announced. The result: the packets that
  stay on the queue.
\<close>

fun tx_burst :: "bool \<Rightarrow> (pkt \<Rightarrow> tx_pkt) \<Rightarrow> u8 \<Rightarrow> u16 \<Rightarrow> pkt list \<Rightarrow> dhd_msgbuf \<Rightarrow> (dhd_msgbuf \<times> pkt list) option" where
  "tx_burst dbg os ifidx fid [] s = do { s \<leftarrow> dhd_prot_txdata_write_flush dbg fid s; Some (s, []) }"
| "tx_burst dbg os ifidx fid (p # ps) s = do {
     (s, ret) \<leftarrow> dhd_prot_txdata dbg p (os p) ifidx s;
     if ret \<noteq> BCME_OK
     then do { s \<leftarrow> dhd_prot_txdata_write_flush dbg fid s; Some (s, p # ps) }
     else tx_burst dbg os ifidx fid ps s
   }"

end
