(* ===== verification/Msgbuf_Ctrl.thy ===== *)
theory Msgbuf_Ctrl
  imports Msgbuf_Tx
begin

text \<open>
  The control ring of \<open>dhd/sys/dhd_msgbuf.c\<close>: posting of the buffers the device returns events and ioctl
  responses in, delivery of events, the requests to create, delete and flush a flow ring with the pool
  their rings come from, and the dummy message. Modelled as built without \<open>BCM_SECURE_DMA\<close>,
  \<open>IOCTLRESP_USE_CONSTMEM\<close> and \<open>DHD_USE_STATIC_CTRLBUF\<close>. A field of a message that the code does not write
  (the request id of the dummy message) is 0 here; nothing reads it back.
\<close>

section \<open>One message on the control ring\<close>

abbreviation (input) MSG_TYPE_FLOW_RING_CREATE :: u8 where "MSG_TYPE_FLOW_RING_CREATE \<equiv> 0x3"
abbreviation (input) MSG_TYPE_FLOW_RING_DELETE :: u8 where "MSG_TYPE_FLOW_RING_DELETE \<equiv> 0x5"
abbreviation (input) MSG_TYPE_FLOW_RING_FLUSH :: u8 where "MSG_TYPE_FLOW_RING_FLUSH \<equiv> 0x7"
abbreviation (input) MSG_TYPE_IOCTLPTR_REQ :: u8 where "MSG_TYPE_IOCTLPTR_REQ \<equiv> 0x9"
abbreviation (input) MSG_TYPE_IOCTLRESP_BUF_POST :: u8 where "MSG_TYPE_IOCTLRESP_BUF_POST \<equiv> 0xB"
abbreviation (input) MSG_TYPE_EVENT_BUF_POST :: u8 where "MSG_TYPE_EVENT_BUF_POST \<equiv> 0xD"
abbreviation (input) MSG_TYPE_HOST_EVNT :: u8 where "MSG_TYPE_HOST_EVNT \<equiv> 0x82"
abbreviation (input) H2DRING_TXPOST_MAX_ITEM :: u16 where "H2DRING_TXPOST_MAX_ITEM \<equiv> 512"
abbreviation (input) H2DRING_TXPOST_ITEMSIZE :: u16 where "H2DRING_TXPOST_ITEMSIZE \<equiv> 48"
abbreviation (input) DHD_FLOWRING_IOCTL_BUFPOST_PKTSZ :: u32 where "DHD_FLOWRING_IOCTL_BUFPOST_PKTSZ \<equiv> 8192"
abbreviation (input) HOST_EVENT_CONS_CMD :: u32 where "HOST_EVENT_CONS_CMD \<equiv> 1"

text \<open>
  The three steps the senders share: claiming one item (the result is its position, if there is
  space), filling it with the epoch of the ring, and announcing it.
\<close>

definition ctrl_claim :: "bool \<Rightarrow> dhd_msgbuf \<Rightarrow> (dhd_msgbuf \<times> nat option) option" where
  "ctrl_claim dbg s = do {
     let ring = h2dring_ctrl_subn s;
     (ring', ret) \<leftarrow> dhd_prot_alloc_ring_space dbg (rdev (mprot s)) ring 1 False;
     Some (s\<lparr>h2dring_ctrl_subn := ring'\<rparr>, map_option (\<lambda>_. unat (mr_wr ring)) ret)
   }"

definition ctrl_fill :: "nat \<Rightarrow> (u8 \<Rightarrow> ctrl_submit_item) \<Rightarrow> dhd_msgbuf \<Rightarrow> dhd_msgbuf option" where
  "ctrl_fill slot msg s = do {
     let ring = h2dring_ctrl_subn s;
     slots \<leftarrow> arr_set (ctrl_slots s) slot (msg (ucast (mr_seqnum ring mod H2D_EPOCH_MODULO)));
     Some (s\<lparr>ctrl_slots := slots, h2dring_ctrl_subn := ring\<lparr>mr_seqnum := mr_seqnum ring + 1\<rparr>\<rparr>)
   }"

definition ctrl_send :: "bool \<Rightarrow> dhd_msgbuf \<Rightarrow> dhd_msgbuf option" where
  "ctrl_send dbg s = do {
     dv \<leftarrow> dhd_prot_ring_write_complete dbg (rdev (mprot s)) (h2dring_ctrl_subn s);
     Some (s\<lparr>mprot := (mprot s)\<lparr>rdev := dv\<rparr>\<rparr>)
   }"

definition dhd_post_dummy_msg :: "bool \<Rightarrow> dhd_msgbuf \<Rightarrow> (dhd_msgbuf \<times> int) option" where
  "dhd_post_dummy_msg dbg s = do {
     (s, hevent) \<leftarrow> ctrl_claim dbg s;
     (case hevent of
        None \<Rightarrow> Some (s, -1)
      | Some slot \<Rightarrow> do {
          s \<leftarrow> ctrl_fill slot (\<lambda>epoch. Host_Event
                 \<lparr>ch_msg_type = MSG_TYPE_HOST_EVNT, ch_if_id = 0, ch_epoch = epoch, ch_request_id = 0\<rparr> HOST_EVENT_CONS_CMD) s;
          s \<leftarrow> ctrl_send dbg s;
          Some (s, 0)
        })
   }"

section \<open>Buffers for events and ioctl responses\<close>

text \<open>The result is 1 if a buffer was posted and -1 otherwise.\<close>

definition dhd_prot_rxbufpost_ctrl :: "bool \<Rightarrow> bool \<Rightarrow> dhd_msgbuf \<Rightarrow> (dhd_msgbuf \<times> int) option" where
  "dhd_prot_rxbufpost_ctrl dbg event_buf s =
     (if bus_down s then Some (s, -1)
      else do {
        let pktlen = (if event_buf then DHD_FLOWRING_RX_BUFPOST_PKTSZ else DHD_FLOWRING_IOCTL_BUFPOST_PKTSZ);
        (case PKTGET (mprot s) of
           (q, None) \<Rightarrow> Some (s\<lparr>mprot := q\<lparr>rx_pktgetfail := rx_pktgetfail q + 1\<rparr>\<rparr>, -1)
         | (q, Some (p, pa)) \<Rightarrow>
             if pa = 0
             then do {
               DBG_ASSERT dbg False;
               st \<leftarrow> dhd_prot_packet_free (pstore q) (Some p);
               Some (s\<lparr>mprot := q\<lparr>pstore := st\<rparr>\<rparr>, -1)
             }
             else do {
               (s, rxbuf_post) \<leftarrow> ctrl_claim dbg (s\<lparr>mprot := q\<rparr>);
               (case rxbuf_post of
                  None \<Rightarrow> do { q \<leftarrow> unmap_free (mprot s) pa pktlen p; Some (s\<lparr>mprot := q\<rparr>, -1) }
                | Some slot \<Rightarrow> do {
                    (mp, pktid) \<leftarrow> dhd_pktid_map_alloc dbg (pktid_map (mprot s)) (Some p) pa pktlen DMA_RX None None
                      (if event_buf then PKTTYPE_EVENT_RX else PKTTYPE_IOCTL_RX);
                    let s = s\<lparr>mprot := (mprot s)\<lparr>pktid_map := mp\<rparr>\<rparr>;
                    if pktid = DHD_PKTID_INVALID
                    then do {
                      let ring = h2dring_ctrl_subn s;
                      let ring = ring\<lparr>mr_wr := if mr_wr ring = 0 then mr_max_items ring - 1 else mr_wr ring - 1\<rparr>;
                      q \<leftarrow> unmap_free (mprot s) pa pktlen p;
                      Some (s\<lparr>h2dring_ctrl_subn := ring, mprot := q\<rparr>, -1)
                    }
                    else do {
                      mp \<leftarrow> audit dbg mp pktid DHD_DUPLICATE_ALLOC;
                      let s = s\<lparr>mprot := (mprot s)\<lparr>pktid_map := mp\<rparr>\<rparr>;
                      s \<leftarrow> ctrl_fill slot (\<lambda>epoch. Buf_Post
                             \<lparr>ch_msg_type = if event_buf then MSG_TYPE_EVENT_BUF_POST else MSG_TYPE_IOCTLRESP_BUF_POST,
                              ch_if_id = 0, ch_epoch = epoch, ch_request_id = pktid\<rparr> (ucast pktlen) (paddr pa)) s;
                      s \<leftarrow> ctrl_send dbg s;
                      Some (s, 1)
                    }
                  })
             })
      })"

fun ctrlpath_loop :: "bool \<Rightarrow> bool \<Rightarrow> nat \<Rightarrow> u16 \<Rightarrow> dhd_msgbuf \<Rightarrow> (dhd_msgbuf \<times> u16) option" where
  "ctrlpath_loop dbg event_buf 0 i s = Some (s, i)"
| "ctrlpath_loop dbg event_buf (Suc n) i s = do {
     (s, ret_val) \<leftarrow> dhd_prot_rxbufpost_ctrl dbg event_buf s;
     if ret_val < 0 then Some (s, i) else ctrlpath_loop dbg event_buf n (i + 1) s
   }"

definition dhd_msgbuf_rxbuf_post_ctrlpath :: "bool \<Rightarrow> bool \<Rightarrow> nat \<Rightarrow> dhd_msgbuf \<Rightarrow> (dhd_msgbuf \<times> u16) option" where
  "dhd_msgbuf_rxbuf_post_ctrlpath dbg event_buf max_to_post s =
     (if bus_down s then Some (s, 0) else ctrlpath_loop dbg event_buf max_to_post 0 s)"

definition dhd_msgbuf_rxbuf_post_ioctlresp_bufs :: "bool \<Rightarrow> dhd_msgbuf \<Rightarrow> dhd_msgbuf option" where
  "dhd_msgbuf_rxbuf_post_ioctlresp_bufs dbg s = do {
     let max_to_post = uint (max_ioctlrespbufpost s) - uint (cur_ioctlresp_bufs_posted s);
     if max_to_post \<le> 0 then Some s
     else do {
       (s, n) \<leftarrow> dhd_msgbuf_rxbuf_post_ctrlpath dbg False (nat max_to_post) s;
       Some (s\<lparr>cur_ioctlresp_bufs_posted := cur_ioctlresp_bufs_posted s + n\<rparr>)
     }
   }"

definition dhd_msgbuf_rxbuf_post_event_bufs :: "bool \<Rightarrow> dhd_msgbuf \<Rightarrow> dhd_msgbuf option" where
  "dhd_msgbuf_rxbuf_post_event_bufs dbg s = do {
     let max_to_post = uint (max_eventbufpost s) - uint (cur_event_bufs_posted s);
     if max_to_post \<le> 0 then Some s
     else do {
       (s, n) \<leftarrow> dhd_msgbuf_rxbuf_post_ctrlpath dbg True (nat max_to_post) s;
       Some (s\<lparr>cur_event_bufs_posted := cur_event_bufs_posted s + n\<rparr>)
     }
   }"

text \<open>
  An event of the device: \<open>bufid\<close>, \<open>buflen\<close> and \<open>ifidx\<close> are fields of the message. New buffers are posted
  before the packet is taken out of the map.
\<close>

definition dhd_prot_event_process :: "bool \<Rightarrow> u32 \<Rightarrow> u16 \<Rightarrow> u8 \<Rightarrow> dhd_msgbuf \<Rightarrow> dhd_msgbuf option" where
  "dhd_prot_event_process dbg bufid buflen ifidx s = do {
     mp \<leftarrow> audit dbg (pktid_map (mprot s)) bufid DHD_DUPLICATE_FREE;
     let s = s\<lparr>mprot := (mprot s)\<lparr>pktid_map := mp\<rparr>\<rparr>;
     let s = (if cur_event_bufs_posted s \<noteq> 0 then s\<lparr>cur_event_bufs_posted := cur_event_bufs_posted s - 1\<rparr> else s);
     s \<leftarrow> dhd_msgbuf_rxbuf_post_event_bufs dbg s;
     (q, pkt) \<leftarrow> dhd_prot_packet_get dbg bufid PKTTYPE_EVENT_RX True (mprot s);
     (case pkt of
        None \<Rightarrow> Some (s\<lparr>mprot := q\<rparr>)
      | Some p \<Rightarrow>
          Some (s\<lparr>mprot := q\<lparr>rx_frames := rx_frames q @
            [\<lparr>rf_pkt = p, rf_pull = rx_dataoffset q, rf_len = buflen, rf_ifidx = ifidx\<rparr>]\<rparr>\<rparr>))
   }"

section \<open>Flow rings\<close>

text \<open>
  The pool starts at flow id \<open>DHD_FLOWRING_START_FLOWID\<close> (2); a smaller id points before it. The result is
  the position of the ring in the pool.
\<close>

definition DHD_RING_IN_FLOWRINGS_POOL :: "dhd_msgbuf \<Rightarrow> u16 \<Rightarrow> (nat \<times> msgbuf_ring) option" where
  "DHD_RING_IN_FLOWRINGS_POOL s fid = do {
     ASSERT (2 \<le> unat fid);
     ring \<leftarrow> arr_get (h2d_flowrings_pool s) (unat fid - 2);
     Some (unat fid - 2, ring)
   }"

definition dhd_prot_flowrings_pool_fetch :: "bool \<Rightarrow> u16 \<Rightarrow> dhd_msgbuf \<Rightarrow> (dhd_msgbuf \<times> nat) option" where
  "dhd_prot_flowrings_pool_fetch dbg fid s = do {
     DBG_ASSERT dbg (2 \<le> unat fid);
     DBG_ASSERT dbg (fid < h2d_rings_total s);
     (ri, ring) \<leftarrow> DHD_RING_IN_FLOWRINGS_POOL s fid;
     Some (s\<lparr>h2d_flowrings_pool := (h2d_flowrings_pool s)[ri := ring\<lparr>mr_wr := 0, mr_rd := 0, mr_inited := True\<rparr>]\<rparr>, ri)
   }"

definition dhd_prot_flowrings_pool_release :: "bool \<Rightarrow> u16 \<Rightarrow> nat \<Rightarrow> dhd_msgbuf \<Rightarrow> dhd_msgbuf option" where
  "dhd_prot_flowrings_pool_release dbg fid flow_ring s = do {
     DBG_ASSERT dbg (2 \<le> unat fid);
     DBG_ASSERT dbg (fid < h2d_rings_total s);
     (ri, ring) \<leftarrow> DHD_RING_IN_FLOWRINGS_POOL s fid;
     DBG_ASSERT dbg (ri = flow_ring);
     Some (s\<lparr>h2d_flowrings_pool := (h2d_flowrings_pool s)[ri := ring\<lparr>mr_wr := 0, mr_rd := 0, mr_inited := False\<rparr>]\<rparr>)
   }"

text \<open>\<open>node\<close> is the entry of the flow-ring table; the position of its ring is stored in \<open>prot_info\<close>.\<close>

definition dhd_prot_flow_ring_create :: "bool \<Rightarrow> flow_ring_node \<Rightarrow> dhd_msgbuf \<Rightarrow> (dhd_msgbuf \<times> int) option" where
  "dhd_prot_flow_ring_create dbg node s = do {
     (s, ri) \<leftarrow> dhd_prot_flowrings_pool_fetch dbg (flowid node) s;
     (s, rqst) \<leftarrow> ctrl_claim dbg s;
     (case rqst of
        None \<Rightarrow> do { s \<leftarrow> dhd_prot_flowrings_pool_release dbg (flowid node) ri s; Some (s, BCME_NOMEM) }
      | Some slot \<Rightarrow> do {
          tbl \<leftarrow> prot_info s;
          tbl \<leftarrow> arr_set tbl (unat (flowid node)) (Some ri);
          ring \<leftarrow> arr_get (h2d_flowrings_pool s) ri;
          s \<leftarrow> ctrl_fill slot (\<lambda>epoch. Flow_Create
                 \<lparr>ch_msg_type = MSG_TYPE_FLOW_RING_CREATE, ch_if_id = fi_ifindex (finfo node), ch_epoch = epoch, ch_request_id = 0\<rparr>
                 (sa (finfo node)) (da (finfo node)) (tid (finfo node)) (flowid node)
                 H2DRING_TXPOST_MAX_ITEM H2DRING_TXPOST_ITEMSIZE (paddr (mr_base_addr ring))) (s\<lparr>prot_info := Some tbl\<rparr>);
          let dv = rdev (mprot s);
          dv \<leftarrow> (if dma_h2d_ring_upd_support dv
                 then dhd_prot_dma_indx_set dbg dv (mr_wr ring) H2D_DMA_INDX_WR_UPD (mr_idx ring)
                 else Some (dv\<lparr>ring_state_w := (ring_state_w dv)(mr_idx ring := mr_wr ring)\<rparr>));
          s \<leftarrow> ctrl_send dbg (s\<lparr>mprot := (mprot s)\<lparr>rdev := dv\<rparr>\<rparr>);
          Some (s, BCME_OK)
        })
   }"

definition dhd_prot_flow_ring_delete :: "bool \<Rightarrow> flow_ring_node \<Rightarrow> dhd_msgbuf \<Rightarrow> (dhd_msgbuf \<times> int) option" where
  "dhd_prot_flow_ring_delete dbg node s = do {
     (s, rqst) \<leftarrow> ctrl_claim dbg s;
     (case rqst of
        None \<Rightarrow> Some (s, BCME_NOMEM)
      | Some slot \<Rightarrow> do {
          s \<leftarrow> ctrl_fill slot (\<lambda>epoch. Flow_Delete
                 \<lparr>ch_msg_type = MSG_TYPE_FLOW_RING_DELETE, ch_if_id = fi_ifindex (finfo node), ch_epoch = epoch, ch_request_id = 0\<rparr>
                 (flowid node) 0) s;
          s \<leftarrow> ctrl_send dbg s;
          Some (s, BCME_OK)
        })
   }"

definition dhd_prot_flow_ring_flush :: "bool \<Rightarrow> flow_ring_node \<Rightarrow> dhd_msgbuf \<Rightarrow> (dhd_msgbuf \<times> int) option" where
  "dhd_prot_flow_ring_flush dbg node s = do {
     (s, rqst) \<leftarrow> ctrl_claim dbg s;
     (case rqst of
        None \<Rightarrow> Some (s, BCME_NOMEM)
      | Some slot \<Rightarrow> do {
          s \<leftarrow> ctrl_fill slot (\<lambda>epoch. Flow_Flush
                 \<lparr>ch_msg_type = MSG_TYPE_FLOW_RING_FLUSH, ch_if_id = fi_ifindex (finfo node), ch_epoch = epoch, ch_request_id = 0\<rparr>
                 (flowid node) 0) s;
          s \<leftarrow> ctrl_send dbg s;
          Some (s, BCME_OK)
        })
   }"

end
