(* ===== verification/Msgbuf_Ioctl.thy ===== *)
theory Msgbuf_Ioctl
  imports Msgbuf_Ctrl C_String
begin

text \<open>
  Ioctl requests of \<open>dhd/sys/dhd_msgbuf.c\<close>: the request on the control ring, the acknowledgement and the
  response of the device, the wait for the response, and \<open>dhd_prot_ioctl\<close>. While a thread waits, the
  messages of the device are handled by another one: the messages handled before the wait returns are
  a parameter. The wait ends with a timeout exactly when none of them has set \<open>ioctl_received\<close>.
\<close>

unbundle bit_operations_syntax

abbreviation (input) MSGBUF_IOCTL_ACK_PENDING :: u8 where "MSGBUF_IOCTL_ACK_PENDING \<equiv> 1"
abbreviation (input) MSGBUF_IOCTL_RESP_PENDING :: u8 where "MSGBUF_IOCTL_RESP_PENDING \<equiv> 2"
abbreviation (input) MSGBUF_IOCTL_MAX_RQSTLEN :: u16 where "MSGBUF_IOCTL_MAX_RQSTLEN \<equiv> 2008"
abbreviation (input) WLC_IOCTL_MAXLEN :: int where "WLC_IOCTL_MAXLEN \<equiv> 8192"
abbreviation (input) WLC_GET_VAR :: u32 where "WLC_GET_VAR \<equiv> 262"
abbreviation (input) WLC_SET_VAR :: u32 where "WLC_SET_VAR \<equiv> 263"
abbreviation (input) DHD_BUS_TPUT_BUF_LEN :: u16 where "DHD_BUS_TPUT_BUF_LEN \<equiv> 2048"
abbreviation (input) BCME_BUSY :: int where "BCME_BUSY \<equiv> -16"
abbreviation (input) EIO :: int where "EIO \<equiv> 5"
abbreviation (input) ETIMEDOUT :: int where "ETIMEDOUT \<equiv> 110"
abbreviation (input) EREMOTEIO :: int where "EREMOTEIO \<equiv> 121"

section \<open>The request\<close>

text \<open>A NULL \<open>buf\<close> is \<open>None\<close>.\<close>

definition dhd_fillup_ioct_reqst :: "bool \<Rightarrow> u16 \<Rightarrow> u32 \<Rightarrow> bytes option \<Rightarrow> int \<Rightarrow> dhd_msgbuf \<Rightarrow> (dhd_msgbuf \<times> int) option" where
  "dhd_fillup_ioct_reqst dbg len cmd buf ifidx s =
     (let rqstlen = min len MSGBUF_IOCTL_MAX_RQSTLEN; resplen = len
      in if ioctl_state s \<noteq> 0 then Some (s, BCME_BUSY)
         else do {
           let s = s\<lparr>ioctl_state := MSGBUF_IOCTL_ACK_PENDING OR MSGBUF_IOCTL_RESP_PENDING\<rparr>;
           (s, ioct_rqst) \<leftarrow> ctrl_claim dbg s;
           (case ioct_rqst of
              None \<Rightarrow> Some (s\<lparr>ioctl_state := 0, curr_ioctl_cmd := 0\<rparr>, -1)
            | Some slot \<Rightarrow> do {
                let s = s\<lparr>curr_ioctl_cmd := cmd, ioctl_trans_id := ioctl_trans_id s + 1\<rparr>;
                s \<leftarrow> ctrl_fill slot (\<lambda>epoch. Ioctl_Req
                       \<lparr>ch_msg_type = MSG_TYPE_IOCTLPTR_REQ, ch_if_id = of_int ifidx, ch_epoch = epoch, ch_request_id = DHD_IOCTL_REQ_PKTID\<rparr>
                       cmd (ioctl_trans_id s) rqstlen resplen (paddr (ioctbuf_pa s))) s;
                s \<leftarrow> (case buf of
                        None \<Rightarrow> Some s
                      | Some b \<Rightarrow> do {
                          src \<leftarrow> mem_copy_from b 0 (unat len);
                          ib \<leftarrow> mem_copy_to (ioctbuf s) 0 src;
                          Some (s\<lparr>ioctbuf := ib\<rparr>)
                        });
                s \<leftarrow> ctrl_send dbg s;
                Some (s, 0)
              })
         })"

section \<open>Messages of the device\<close>

definition dhd_prot_ioctack_process :: "bool \<Rightarrow> u32 \<Rightarrow> dhd_msgbuf \<Rightarrow> dhd_msgbuf option" where
  "dhd_prot_ioctack_process dbg pktid s = do {
     mp \<leftarrow> (if pktid \<noteq> DHD_IOCTL_REQ_PKTID then audit dbg (pktid_map (mprot s)) pktid DHD_TEST_IS_ALLOC
            else Some (pktid_map (mprot s)));
     let s = s\<lparr>mprot := (mprot s)\<lparr>pktid_map := mp\<rparr>\<rparr>;
     Some (if ioctl_state s AND MSGBUF_IOCTL_ACK_PENDING \<noteq> 0 \<and> ioctl_state s AND MSGBUF_IOCTL_RESP_PENDING \<noteq> 0
           then s\<lparr>ioctl_state := ioctl_state s AND NOT MSGBUF_IOCTL_ACK_PENDING\<rparr> else s)
   }"

text \<open>\<open>pktdata\<close> are the bytes of the response packet.\<close>

definition dhd_prot_ioctcmplt_process :: "bool \<Rightarrow> u32 \<Rightarrow> 16 word \<Rightarrow> u16 \<Rightarrow> u16 \<Rightarrow> bytes \<Rightarrow> dhd_msgbuf \<Rightarrow> dhd_msgbuf option" where
  "dhd_prot_ioctcmplt_process dbg pkt_id code resp_len xt_id pktdata s = do {
     mp \<leftarrow> audit dbg (pktid_map (mprot s)) pkt_id DHD_DUPLICATE_FREE;
     let s = s\<lparr>mprot := (mprot s)\<lparr>pktid_map := mp\<rparr>\<rparr>;
     if ioctl_state s AND MSGBUF_IOCTL_ACK_PENDING \<noteq> 0 \<or> ioctl_state s AND MSGBUF_IOCTL_RESP_PENDING = 0
     then Some (s\<lparr>ioctl_state := 0\<rparr>)
     else do {
       (q, pkt) \<leftarrow> dhd_prot_packet_get dbg pkt_id PKTTYPE_IOCTL_RX True (mprot s);
       let s = s\<lparr>mprot := q\<rparr>;
       if pkt = None then Some (s\<lparr>ioctl_state := 0\<rparr>)
       else do {
         let s = s\<lparr>ioctl_resplen := resp_len, ioctl_status := code\<rparr>;
         s \<leftarrow> (if xt_id \<noteq> ioctl_trans_id s then do { DBG_ASSERT dbg False; Some s }
               else do {
                 s \<leftarrow> (if 0 < resp_len
                       then do {
                         src \<leftarrow> mem_copy_from pktdata 0 (unat resp_len);
                         rb \<leftarrow> mem_copy_to (retbuf s) 0 src;
                         Some (s\<lparr>retbuf := rb\<rparr>)
                       }
                       else Some s);
                 Some (s\<lparr>ioctl_received := 1\<rparr>)
               });
         st \<leftarrow> dhd_prot_packet_free (pstore (mprot s)) pkt;
         Some (s\<lparr>mprot := (mprot s)\<lparr>pstore := st\<rparr>\<rparr>)
       }
     }
   }"

datatype d2h_ctrl_msg =
    Ioctl_Ack u32
  | Ioctl_Cmplt u32 "16 word" u16 u16 bytes
  | Wl_Event u32 u16 u8

definition process_ctrl_msg :: "bool \<Rightarrow> d2h_ctrl_msg \<Rightarrow> dhd_msgbuf \<Rightarrow> dhd_msgbuf option" where
  "process_ctrl_msg dbg msg s =
     (case msg of
        Ioctl_Ack pktid \<Rightarrow> dhd_prot_ioctack_process dbg pktid s
      | Ioctl_Cmplt pktid code resp_len xt_id pktdata \<Rightarrow> dhd_prot_ioctcmplt_process dbg pktid code resp_len xt_id pktdata s
      | Wl_Event bufid buflen ifidx \<Rightarrow> dhd_prot_event_process dbg bufid buflen ifidx s)"

fun process_ctrl_msgs :: "bool \<Rightarrow> d2h_ctrl_msg list \<Rightarrow> dhd_msgbuf \<Rightarrow> dhd_msgbuf option" where
  "process_ctrl_msgs dbg [] s = Some s"
| "process_ctrl_msgs dbg (m # ms) s = do { s \<leftarrow> process_ctrl_msg dbg m s; process_ctrl_msgs dbg ms s }"

section \<open>Waiting\<close>

text \<open>The label \<open>out\<close>.\<close>

definition wait_out :: "int \<Rightarrow> bytes option \<Rightarrow> dhd_msgbuf \<Rightarrow> dhd_msgbuf \<times> int \<times> bytes option" where
  "wait_out ret buf s =
     (s\<lparr>ioctl_state := ioctl_state s AND NOT MSGBUF_IOCTL_RESP_PENDING, ioctl_resplen := 0, ioctl_received := 0, curr_ioctl_cmd := 0\<rparr>, ret, buf)"

definition dhd_msgbuf_wait_ioctl_cmplt ::
    "bool \<Rightarrow> d2h_ctrl_msg list \<Rightarrow> u32 \<Rightarrow> bytes option \<Rightarrow> dhd_msgbuf \<Rightarrow> (dhd_msgbuf \<times> int \<times> bytes option) option" where
  "dhd_msgbuf_wait_ioctl_cmplt dbg msgs len buf s =
     (if dongle_reset s then Some (wait_out (- EIO) buf s)
      else do {
        let s = (if cur_ioctlresp_bufs_posted s \<noteq> 0 then s\<lparr>cur_ioctlresp_bufs_posted := cur_ioctlresp_bufs_posted s - 1\<rparr> else s);
        s \<leftarrow> dhd_msgbuf_rxbuf_post_ioctlresp_bufs dbg s;
        s \<leftarrow> process_ctrl_msgs dbg msgs s;
        if ioctl_received s = 0
        then Some (wait_out (- ETIMEDOUT) buf (s\<lparr>rxcnt_timeout := rxcnt_timeout s + 1, rx_ctlerrs := rx_ctlerrs s + 1\<rparr>))
        else do {
          let s = s\<lparr>rxcnt_timeout := 0, rx_ctlpkts := rx_ctlpkts s + 1\<rparr>;
          if dongle_trap_occured s then Some (wait_out (- EREMOTEIO) buf s)
          else do {
            let s = (if len < ucast (ioctl_resplen s) then s\<lparr>ioctl_resplen := ucast len\<rparr> else s);
            buf \<leftarrow> (case buf of
                      None \<Rightarrow> Some None
                    | Some b \<Rightarrow> do {
                        src \<leftarrow> mem_copy_from (retbuf s) 0 (unat (ioctl_resplen s));
                        b \<leftarrow> mem_copy_to b 0 src;
                        Some (Some b)
                      });
            Some (wait_out (sint (ioctl_status s)) buf s)
          }
        }
      })"

section \<open>The entry points\<close>

definition dhd_msgbuf_set_ioctl ::
    "bool \<Rightarrow> d2h_ctrl_msg list \<Rightarrow> int \<Rightarrow> u32 \<Rightarrow> bytes option \<Rightarrow> u32 \<Rightarrow> dhd_msgbuf \<Rightarrow> (dhd_msgbuf \<times> int \<times> bytes option) option" where
  "dhd_msgbuf_set_ioctl dbg msgs ifidx cmd buf len s =
     (if bus_down s then Some (s, - EIO, buf)
      else if hang_was_sent s then Some (s, - EIO, buf)
      else do {
        (s, _) \<leftarrow> dhd_fillup_ioct_reqst dbg (ucast len) cmd buf ifidx s;
        dhd_msgbuf_wait_ioctl_cmplt dbg msgs len buf s
      })"

definition dhd_msgbuf_query_ioctl ::
    "bool \<Rightarrow> d2h_ctrl_msg list \<Rightarrow> int \<Rightarrow> u32 \<Rightarrow> bytes option \<Rightarrow> u32 \<Rightarrow> dhd_msgbuf \<Rightarrow> (dhd_msgbuf \<times> int \<times> bytes option) option" where
  "dhd_msgbuf_query_ioctl dbg msgs ifidx cmd buf len s = do {
     local \<leftarrow> (case buf of
                 None \<Rightarrow> Some None
               | Some b \<Rightarrow>
                   if cmd \<noteq> WLC_GET_VAR then Some None
                   else do {
                     errstr \<leftarrow> strcmp_eq b (c_str ''bcmerrorstr'');
                     if errstr
                     then do {
                       src \<leftarrow> strncpy_bytes BCME_STRLEN (bcmerrorstr (dongle_error s));
                       b \<leftarrow> mem_copy_to b 0 src;
                       Some (Some b)
                     }
                     else do {
                       err \<leftarrow> strcmp_eq b (c_str ''bcmerror'');
                       if err
                       then do { b \<leftarrow> mem_copy_to b 0 (le32 (of_int (dongle_error s))); Some (Some b) }
                       else Some None
                     }
                   });
     (case local of
        Some b \<Rightarrow> Some (s, 0, Some b)
      | None \<Rightarrow> do {
          (s, _) \<leftarrow> dhd_fillup_ioct_reqst dbg (ucast len) cmd buf ifidx s;
          dhd_msgbuf_wait_ioctl_cmplt dbg msgs len buf s
        })
   }"

text \<open>The parameters of \<open>pcie_bus_tput\<close> follow the name: a count, the length and the address of a buffer of the host.\<close>

definition dhd_prot_wlioctl_intercept :: "u32 \<Rightarrow> bytes option \<Rightarrow> dhd_msgbuf \<Rightarrow> bytes option option" where
  "dhd_prot_wlioctl_intercept cmd buf s =
     (case buf of
        None \<Rightarrow> Some None
      | Some b \<Rightarrow>
          if cmd \<noteq> WLC_SET_VAR then Some buf
          else do {
            tput \<leftarrow> strcmp_eq b (c_str ''pcie_bus_tput'');
            if tput
            then do {
              let params = length (c_str ''pcie_bus_tput'');
              b \<leftarrow> mem_copy_to b (params + 4)
                     (le32 (PHYSADDRLO (host_bus_throughput_pa s)) @ le32 (PHYSADDRHI (host_bus_throughput_pa s)));
              b \<leftarrow> mem_copy_to b (params + 2) (le16 DHD_BUS_TPUT_BUF_LEN);
              Some (Some b)
            }
            else Some buf
          })"

record wl_ioctl =
  ioc_cmd :: u32
  ioc_set :: u8
  ioc_used :: u32

definition intercept_wme_dp :: "int \<Rightarrow> bytes option \<Rightarrow> dhd_msgbuf \<Rightarrow> dhd_msgbuf option" where
  "intercept_wme_dp len buf s =
     (case buf of
        None \<Rightarrow> Some s
      | Some b \<Rightarrow> do {
          dp \<leftarrow> strcmp_eq b (c_str ''wme_dp'');
          if dp
          then if int (length (c_str ''wme_dp'')) + 4 \<le> len
               then do { v \<leftarrow> mem_copy_from b (length (c_str ''wme_dp'')) 4; Some (s\<lparr>wme_dp := hd v\<rparr>) }
               else Some (s\<lparr>wme_dp := 0\<rparr>)
          else Some s
        })"

text \<open>The result also has \<open>ioc\<close> and the caller's buffer.\<close>

definition dhd_prot_ioctl ::
    "bool \<Rightarrow> d2h_ctrl_msg list \<Rightarrow> int \<Rightarrow> wl_ioctl \<Rightarrow> bytes option \<Rightarrow> int \<Rightarrow> dhd_msgbuf \<Rightarrow> (dhd_msgbuf \<times> int \<times> wl_ioctl \<times> bytes option) option" where
  "dhd_prot_ioctl dbg msgs ifidx ioc buf len s =
     (if bus_down s \<or> hang_was_sent s then Some (s, -1, ioc, buf)
      else if bus_suspend s then Some (s, -1, ioc, buf)
      else do {
        DBG_ASSERT dbg (len \<le> WLC_IOCTL_MAXLEN);
        if WLC_IOCTL_MAXLEN < len then Some (s, -1, ioc, buf)
        else do {
          buf \<leftarrow> dhd_prot_wlioctl_intercept (ioc_cmd ioc) buf s;
          (s, ret, ioc, buf) \<leftarrow>
            (if ioc_set ioc AND 1 \<noteq> 0
             then do {
               (s, ret, buf) \<leftarrow> dhd_msgbuf_set_ioctl dbg msgs ifidx (ioc_cmd ioc) buf (of_int len) s;
               Some (s, ret, ioc, buf)
             }
             else do {
               (s, ret, buf) \<leftarrow> dhd_msgbuf_query_ioctl dbg msgs ifidx (ioc_cmd ioc) buf (of_int len) s;
               Some (s, ret, if 0 < ret then ioc\<lparr>ioc_used := of_int ret\<rparr> else ioc, buf)
             });
          let (ret, s) = (if 0 \<le> ret then (0, s) else (ret, s\<lparr>dongle_error := ret\<rparr>));
          s \<leftarrow> (if ret = 0 \<and> ioc_cmd ioc = WLC_SET_VAR then intercept_wme_dp len buf s else Some s);
          Some (s, ret, ioc, buf)
        }
      })"

end
