(* ===== verification/Msgbuf_Ring_Props.thy ===== *)
theory Msgbuf_Ring_Props
  imports Msgbuf_Ring
begin

text \<open>
  Properties of the message rings: the slots and the two indices represent a bounded queue
  (\<open>rqueue\<close>); claiming slots and writing them appends, reading a block removes from the front, in
  bounds and without touching the other side's slots; and the bounded wait for a message.
\<close>

section \<open>The queue in a ring\<close>

lemma of_nat16_eq_0: "n < 65536 \<Longrightarrow> (of_nat n :: u16) = 0 \<longleftrightarrow> n = 0"
  using unat_of_nat16 [of n] by (cases "n = 0") auto

lemma ucast_of_nat16: "n < 65536 \<Longrightarrow> (ucast (of_nat n :: u16) :: u32) = of_nat n"
proof -
  assume "n < 65536"
  have "(of_nat (unat (of_nat n :: u16)) :: u32) = ucast (of_nat n :: u16)" by (rule of_nat_unat)
  then show ?thesis using unat_of_nat16 [OF \<open>n < 65536\<close>] by (simp only:)
qed

lemma uint_of_nat16: "n < 65536 \<Longrightarrow> uint (of_nat n :: u16) = int n"
  using unat_of_nat16 [of n] by (simp only: uint_nat)

definition ring_ok :: "msgbuf_ring \<Rightarrow> bool" where
  "ring_ok r \<longleftrightarrow> mr_rd r < mr_max_items r \<and> mr_wr r < mr_max_items r"

definition rcount :: "msgbuf_ring \<Rightarrow> nat" where
  "rcount r = (if unat (mr_rd r) \<le> unat (mr_wr r) then unat (mr_wr r) - unat (mr_rd r)
              else unat (mr_max_items r) - unat (mr_rd r) + unat (mr_wr r))"

definition rqueue :: "msgbuf_ring \<Rightarrow> 'a list \<Rightarrow> 'a list" where
  "rqueue r slots = map (\<lambda>i. slots ! ((unat (mr_rd r) + i) mod unat (mr_max_items r))) [0..<rcount r]"

definition write_slots :: "'a list \<Rightarrow> nat \<Rightarrow> 'a list \<Rightarrow> 'a list" where
  "write_slots slots w ms = take w slots @ ms @ drop (w + length ms) slots"

lemma ring_okD:
  assumes "ring_ok r"
  shows "unat (mr_rd r) < unat (mr_max_items r)" "unat (mr_wr r) < unat (mr_max_items r)" "unat (mr_max_items r) < 65536"
    "rcount r < unat (mr_max_items r)"
  using assms unat_u16_less [of "mr_max_items r"] by (auto simp: ring_ok_def word_less_nat_alt rcount_def)

lemma length_rqueue [simp]: "length (rqueue r slots) = rcount r"
  by (simp add: rqueue_def)

text \<open>The slots that can be written at the write index without wrapping.\<close>

definition rspace :: "msgbuf_ring \<Rightarrow> nat" where
  "rspace r = min (unat (mr_max_items r) - rcount r - 1)
     (if unat (mr_rd r) \<le> unat (mr_wr r) then unat (mr_max_items r) - unat (mr_wr r) else unat (mr_rd r) - unat (mr_wr r))"

lemma rspace_bounds:
  assumes "ring_ok r"
  shows "unat (mr_wr r) + rspace r \<le> unat (mr_max_items r)" "rcount r + rspace r < unat (mr_max_items r)" "rspace r < 65536"
  using ring_okD [OF assms] by (auto simp: rspace_def rcount_def)

lemma rspace_word:
  assumes "ring_ok r"
  shows "(word_of_int (CHECK_WRITE_SPACE (uint (mr_rd r)) (uint (mr_wr r)) (uint (mr_max_items r))) :: u16) = of_nat (rspace r)"
proof -
  define a b d where "a = unat (mr_rd r)" and "b = unat (mr_wr r)" and "d = unat (mr_max_items r)"
  have "a < d" "b < d" using ring_okD [OF assms] by (simp_all add: a_def b_def d_def)
  then have "CHECK_WRITE_SPACE (int a) (int b) (int d) = int (rspace r)"
    unfolding CHECK_WRITE_SPACE_def WRITE_SPACE_AVAIL_def WRITE_SPACE_AVAIL_CONTINUOUS_def NTXPACTIVE_def rspace_def
      rcount_def a_def [symmetric] b_def [symmetric] d_def [symmetric]
    by (cases "a \<le> b") (auto simp: min_def of_nat_diff)
  moreover have "uint (mr_rd r) = int a" "uint (mr_wr r) = int b" "uint (mr_max_items r) = int d"
    by (simp_all only: uint_nat a_def b_def d_def)
  ultimately show ?thesis by simp
qed

section \<open>Producing\<close>

definition advance_wr :: "msgbuf_ring \<Rightarrow> nat \<Rightarrow> msgbuf_ring" where
  "advance_wr r k = r\<lparr>mr_wr := if unat (mr_wr r) + k = unat (mr_max_items r) then 0 else mr_wr r + of_nat k\<rparr>"

lemma get_ring_space_result:
  assumes ok: "ring_ok r" and n: "nitems \<le> mr_max_items r"
  shows "dhd_prot_get_ring_space dbg r nitems ex =
    Some (if rspace r = 0 \<or> ex \<and> rspace r < unat nitems \<and> unat nitems + unat (mr_wr r) \<le> unat (mr_max_items r) then (r, None)
          else (advance_wr r (min (unat nitems) (rspace r)),
                Some (unat (mr_wr r) * unat (mr_item_len r), of_nat (min (unat nitems) (rspace r)))))"
proof -
  note b = rspace_bounds [OF ok] and d = ring_okD [OF ok]
  define k where "k = min (unat nitems) (rspace r)"
  have u: "unat (of_nat (rspace r) :: u16) = rspace r" by (rule unat_of_nat16 [OF b(3)])
  have z: "(of_nat (rspace r) :: u16) = 0 \<longleftrightarrow> rspace r = 0" by (rule of_nat16_eq_0 [OF b(3)])
  have lt: "(of_nat (rspace r) :: u16) < nitems \<longleftrightarrow> rspace r < unat nitems" using u by (simp add: word_less_nat_alt)
  have le: "uint nitems \<le> uint (mr_max_items r) - uint (mr_wr r) \<longleftrightarrow> unat nitems + unat (mr_wr r) \<le> unat (mr_max_items r)"
    unfolding uint_nat by linarith
  have uk: "unat (min nitems (of_nat (rspace r))) = k" using u by (auto simp: k_def min_def word_le_nat_alt)
  then have mk: "min nitems (of_nat (rspace r)) = of_nat k"
    by (simp flip: uk)
  have kb: "unat (mr_wr r) + k \<le> unat (mr_max_items r)" using b(1) by (simp add: k_def)
  have "uint (of_nat k :: u16) = int k" by (rule uint_of_nat16) (use b(3) in \<open>simp add: k_def\<close>)
  then have ui: "uint (mr_wr r) + uint (of_nat k :: u16) = int (unat (mr_wr r) + k)" by (simp only: uint_nat [of "mr_wr r"] of_nat_add)
  have eq: "uint (mr_wr r) + uint (of_nat k :: u16) = uint (mr_max_items r) \<longleftrightarrow> unat (mr_wr r) + k = unat (mr_max_items r)"
    unfolding ui unfolding uint_nat by linarith
  have ls: "uint (mr_wr r) + uint (of_nat k :: u16) < uint (mr_max_items r) \<longleftrightarrow> unat (mr_wr r) + k < unat (mr_max_items r)"
    unfolding ui unfolding uint_nat by linarith
  show ?thesis
    unfolding dhd_prot_get_ring_space_def rspace_word [OF ok] Let_def z lt le mk eq ls k_def [symmetric]
    using n kb by (simp add: advance_wr_def)
qed

lemma advance_wr_ok:
  assumes ok: "ring_ok r" and k: "k \<le> rspace r"
  shows "ring_ok (advance_wr r k)" and "rcount (advance_wr r k) = rcount r + k"
    and "mr_rd (advance_wr r k) = mr_rd r" and "mr_max_items (advance_wr r k) = mr_max_items r"
proof -
  note b = rspace_bounds [OF ok] and d = ring_okD [OF ok]
  show rd: "mr_rd (advance_wr r k) = mr_rd r" "mr_max_items (advance_wr r k) = mr_max_items r" by (simp_all add: advance_wr_def)
  have w: "unat (mr_wr (advance_wr r k)) = (if unat (mr_wr r) + k = unat (mr_max_items r) then 0 else unat (mr_wr r) + k)"
    using b(1) k d by (simp add: advance_wr_def unat_add_bounded unat_of_nat16)
  show "ring_ok (advance_wr r k)"
    using w b(1) k d unfolding ring_ok_def rd word_less_nat_alt by auto
  show "rcount (advance_wr r k) = rcount r + k"
    unfolding rcount_def rd w using b k d by (auto simp: rcount_def rspace_def split: if_splits)
qed

lemma rqueue_index:
  assumes ok: "ring_ok r" and i: "i < rcount r"
  shows "(unat (mr_rd r) + i) mod unat (mr_max_items r) < unat (mr_wr r) \<or>
         unat (mr_wr r) + rspace r \<le> (unat (mr_rd r) + i) mod unat (mr_max_items r)"
    and "(unat (mr_rd r) + i) mod unat (mr_max_items r) < unat (mr_max_items r)"
proof -
  note d = ring_okD [OF ok]
  show "(unat (mr_rd r) + i) mod unat (mr_max_items r) < unat (mr_max_items r)" using d by simp
  show "(unat (mr_rd r) + i) mod unat (mr_max_items r) < unat (mr_wr r) \<or>
         unat (mr_wr r) + rspace r \<le> (unat (mr_rd r) + i) mod unat (mr_max_items r)"
  proof (cases "unat (mr_rd r) + i < unat (mr_max_items r)")
    case True
    then show ?thesis using i d by (auto simp: rcount_def rspace_def split: if_splits)
  next
    case False
    then have "(unat (mr_rd r) + i) mod unat (mr_max_items r) = unat (mr_rd r) + i - unat (mr_max_items r)"
      using i d by (simp add: le_mod_geq rcount_def split: if_splits)
    then show ?thesis using False i d by (auto simp: rcount_def split: if_splits)
  qed
qed

lemma rqueue_append:
  assumes ok: "ring_ok r" and k: "length ms \<le> rspace r" and s: "length slots = unat (mr_max_items r)"
  shows "rqueue (advance_wr r (length ms)) (write_slots slots (unat (mr_wr r)) ms) = rqueue r slots @ ms"
proof (rule nth_equalityI)
  let ?w = "unat (mr_wr r)" and ?d = "unat (mr_max_items r)" and ?rd = "unat (mr_rd r)"
  note a = advance_wr_ok [OF ok k] and b = rspace_bounds [OF ok] and d = ring_okD [OF ok]
  show "length (rqueue (advance_wr r (length ms)) (write_slots slots ?w ms)) = length (rqueue r slots @ ms)"
    using a(2) by simp
  fix i assume "i < length (rqueue (advance_wr r (length ms)) (write_slots slots ?w ms))"
  then have i: "i < rcount r + length ms" using a(2) by simp
  let ?p = "(?rd + i) mod ?d"
  have lhs: "rqueue (advance_wr r (length ms)) (write_slots slots ?w ms) ! i = write_slots slots ?w ms ! ?p"
    using i a by (simp add: rqueue_def)
  show "rqueue (advance_wr r (length ms)) (write_slots slots ?w ms) ! i = (rqueue r slots @ ms) ! i"
  proof (cases "i < rcount r")
    case True
    have "write_slots slots ?w ms ! ?p = slots ! ?p"
      using rqueue_index [OF ok True] k b s d by (auto simp: write_slots_def nth_append min_def)
    then show ?thesis unfolding lhs using True by (simp add: nth_append rqueue_def)
  next
    case False
    define j where "j = i - rcount r"
    have j: "i = rcount r + j" "j < length ms" using False i by (simp_all add: j_def)
    have "?rd + i = ?w + j \<or> ?rd + i = ?d + (?w + j)" using j(1) d by (auto simp: rcount_def)
    moreover have "?w + j < ?d" using j(2) k b by simp
    ultimately have "?p = ?w + j" by auto
    then have "write_slots slots ?w ms ! ?p = ms ! j" using j(2) s d by (simp add: write_slots_def nth_append min_def)
    then show ?thesis unfolding lhs using j by (simp add: nth_append)
  qed
qed

section \<open>Consuming\<close>

text \<open>The messages that can be read at the read index without wrapping.\<close>

definition rblock :: "msgbuf_ring \<Rightarrow> nat" where
  "rblock r = (if unat (mr_rd r) \<le> unat (mr_wr r) then unat (mr_wr r) - unat (mr_rd r) else unat (mr_max_items r) - unat (mr_rd r))"

definition advance_rd :: "msgbuf_ring \<Rightarrow> nat \<Rightarrow> msgbuf_ring" where
  "advance_rd r k = r\<lparr>mr_rd := if unat (mr_max_items r) \<le> unat (mr_rd r) + k then 0 else mr_rd r + of_nat k\<rparr>"

lemma rblock_word:
  "(word_of_int (READ_AVAIL_SPACE (uint (mr_wr r)) (uint (mr_rd r)) (uint (mr_max_items r))) :: u16) = of_nat (rblock r)"
  if "mr_rd r < mr_max_items r"
proof -
  define a b d where "a = unat (mr_rd r)" and "b = unat (mr_wr r)" and "d = unat (mr_max_items r)"
  have "a < d" using that by (simp add: a_def d_def word_less_nat_alt)
  then have "READ_AVAIL_SPACE (int b) (int a) (int d) = int (rblock r)"
    by (simp add: READ_AVAIL_SPACE_def rblock_def a_def [symmetric] b_def [symmetric] d_def [symmetric] of_nat_diff)
  moreover have "uint (mr_rd r) = int a" "uint (mr_wr r) = int b" "uint (mr_max_items r) = int d"
    by (simp_all only: uint_nat a_def b_def d_def)
  ultimately show ?thesis by simp
qed

text \<open>For any write index, also one out of range, as the device wrote it.\<close>

lemma get_read_addr_result:
  assumes f: "fetch_wr dbg dv r0 = Some r" and rd: "mr_rd r < mr_max_items r"
  shows "dhd_prot_get_read_addr dbg dv r0 =
     (if rblock r = 0 then Some (r, None)
      else if unat (mr_max_items r) \<le> rblock r then (if dbg then None else Some (r, None))
      else Some (advance_rd r (rblock r), Some (unat (mr_rd r) * unat (mr_item_len r), of_nat (rblock r * unat (mr_item_len r)))))"
proof -
  have lt: "rblock r < 65536" using unat_u16_less [of "mr_wr r"] unat_u16_less [of "mr_max_items r"] by (auto simp: rblock_def)
  then have u: "unat (of_nat (rblock r) :: u16) = rblock r" by (rule unat_of_nat16)
  have z: "(of_nat (rblock r) :: u16) = 0 \<longleftrightarrow> rblock r = 0" by (rule of_nat16_eq_0 [OF lt])
  have ls: "(of_nat (rblock r) :: u16) < mr_max_items r \<longleftrightarrow> rblock r < unat (mr_max_items r)" using u by (simp add: word_less_nat_alt)
  have le: "mr_max_items r \<le> (of_nat (rblock r) :: u16) \<longleftrightarrow> unat (mr_max_items r) \<le> rblock r" using u by (simp add: word_le_nat_alt)
  have w: "uint (mr_max_items r) \<le> uint (mr_rd r) + uint (of_nat (rblock r) :: u16) \<longleftrightarrow> unat (mr_max_items r) \<le> unat (mr_rd r) + rblock r"
    unfolding uint_nat u by linarith
  have len: "(ucast (of_nat (rblock r) :: u16) * ucast (mr_item_len r) :: u32) = of_nat (rblock r * unat (mr_item_len r))"
    using ucast_of_nat16 [OF lt] by simp
  have nrd: "(if unat (mr_max_items r) \<le> unat (mr_rd r) + rblock r then 0 else mr_rd r + of_nat (rblock r)) < mr_max_items r"
    using rd u unat_u16_less [of "mr_max_items r"] by (auto simp: word_less_nat_alt unat_add_bounded)
  show ?thesis
    unfolding dhd_prot_get_read_addr_def f bind.bind_lunit Let_def rblock_word [OF rd] z ls le w len
    using nrd by (auto simp: advance_rd_def)
qed

lemma advance_rd_unat:
  "mr_rd r < mr_max_items r \<Longrightarrow> k < 65536 \<Longrightarrow>
   unat (mr_rd (advance_rd r k)) = (if unat (mr_max_items r) \<le> unat (mr_rd r) + k then 0 else unat (mr_rd r) + k)"
  using unat_u16_less [of "mr_max_items r"] by (simp add: advance_rd_def unat_add_bounded unat_of_nat16)

lemma rblock_bounds:
  assumes ok: "ring_ok r"
  shows "unat (mr_rd r) + rblock r \<le> unat (mr_max_items r)" and "rblock r < unat (mr_max_items r) \<or> mr_wr r < mr_rd r"
    and "rblock r \<le> rcount r" and "rblock r < 65536" and "rblock r = 0 \<longleftrightarrow> rcount r = 0" and "rblock r < unat (mr_max_items r)"
  using ring_okD [OF ok] by (auto simp: rblock_def rcount_def word_less_nat_alt)

lemma advance_rd_ok:
  assumes ok: "ring_ok r"
  shows "ring_ok (advance_rd r (rblock r))" and "rcount (advance_rd r (rblock r)) = rcount r - rblock r"
    and "mr_max_items (advance_rd r (rblock r)) = mr_max_items r"
proof -
  note d = ring_okD [OF ok] and b = rblock_bounds [OF ok]
  have rd: "mr_rd r < mr_max_items r" using ok by (simp add: ring_ok_def)
  note u = advance_rd_unat [OF rd b(4)]
  show m: "mr_max_items (advance_rd r (rblock r)) = mr_max_items r" by (simp add: advance_rd_def)
  have w: "mr_wr (advance_rd r (rblock r)) = mr_wr r" by (simp add: advance_rd_def)
  show "ring_ok (advance_rd r (rblock r))" using d u unfolding ring_ok_def m w word_less_nat_alt by auto
  show "rcount (advance_rd r (rblock r)) = rcount r - rblock r"
    unfolding rcount_def m w u using d b(1) by (auto simp: rblock_def)
qed

lemma rqueue_read:
  assumes ok: "ring_ok r" and s: "length slots = unat (mr_max_items r)"
  shows "rqueue r slots = take (rblock r) (drop (unat (mr_rd r)) slots) @ rqueue (advance_rd r (rblock r)) slots"
proof (rule nth_equalityI)
  let ?d = "unat (mr_max_items r)" and ?rd = "unat (mr_rd r)"
  note d = ring_okD [OF ok] and b = rblock_bounds [OF ok] and a = advance_rd_ok [OF ok]
  have u: "unat (mr_rd (advance_rd r (rblock r))) = (if ?d \<le> ?rd + rblock r then 0 else ?rd + rblock r)"
    by (rule advance_rd_unat) (use ok b(4) in \<open>simp_all add: ring_ok_def\<close>)
  have blk: "length (take (rblock r) (drop ?rd slots)) = rblock r" using b(1) s by simp
  show "length (rqueue r slots) = length (take (rblock r) (drop ?rd slots) @ rqueue (advance_rd r (rblock r)) slots)"
    using blk a(2) b(3) by simp
  fix i assume "i < length (rqueue r slots)"
  then have i: "i < rcount r" by simp
  have lhs: "rqueue r slots ! i = slots ! ((?rd + i) mod ?d)" using i by (simp add: rqueue_def)
  show "rqueue r slots ! i = (take (rblock r) (drop ?rd slots) @ rqueue (advance_rd r (rblock r)) slots) ! i"
  proof (cases "i < rblock r")
    case True
    then show ?thesis unfolding lhs using b(1) s by (simp add: nth_append)
  next
    case False
    define j where "j = i - rblock r"
    have j: "i = rblock r + j" "j < rcount r - rblock r" using False i b(3) by (simp_all add: j_def)
    have "(?rd + i) mod ?d = (unat (mr_rd (advance_rd r (rblock r))) + j) mod ?d"
      unfolding u j(1) using b(1) by (auto simp: le_antisym add.assoc [symmetric])
    then show ?thesis unfolding lhs using j blk a by (simp add: nth_append rqueue_def)
  qed
qed

section \<open>Waiting\<close>

lemma sync_loop_result:
  assumes "\<And>t. complete (msg t) = Some (P t)"
  shows "\<exists>r st'. sync_loop complete msg n k st = Some (r, st') \<and> d2h_sync_wait_tot st' = d2h_sync_wait_tot st \<and>
    (case r of Some t \<Rightarrow> k \<le> t \<and> t < k + n \<and> P t \<and> (\<forall>u. k \<le> u \<and> u < t \<longrightarrow> \<not> P u)
     | None \<Rightarrow> \<forall>u. k \<le> u \<and> u < k + n \<longrightarrow> \<not> P u)"
proof (induction n arbitrary: k st)
  case 0
  then show ?case by auto
next
  case (Suc n)
  show ?case
  proof (cases "P k")
    case True
    then show ?thesis using assms by auto
  next
    case False
    define st1 where "st1 = (if d2h_sync_wait_max st < k then st\<lparr>d2h_sync_wait_max := k\<rparr> else st)"
    have tot: "d2h_sync_wait_tot st1 = d2h_sync_wait_tot st" by (simp add: st1_def)
    obtain r st' where r: "sync_loop complete msg n (Suc k) st1 = Some (r, st')" "d2h_sync_wait_tot st' = d2h_sync_wait_tot st1"
        "case r of Some t \<Rightarrow> Suc k \<le> t \<and> t < Suc k + n \<and> P t \<and> (\<forall>u. Suc k \<le> u \<and> u < t \<longrightarrow> \<not> P u)
         | None \<Rightarrow> \<forall>u. Suc k \<le> u \<and> u < Suc k + n \<longrightarrow> \<not> P u"
      using Suc.IH by blast
    have all: "(\<forall>u. k \<le> u \<and> u < b \<longrightarrow> \<not> P u) \<longleftrightarrow> (\<forall>u. Suc k \<le> u \<and> u < b \<longrightarrow> \<not> P u)" for b
      using False by (metis Suc_leD Suc_leI le_neq_implies_less)
    have "sync_loop complete msg (Suc n) k st = Some (r, st')" using r(1) False assms by (simp add: st1_def)
    then show ?thesis using r(2,3) tot all by (cases r) auto
  qed
qed

lemma sync_finish_result:
  assumes ty: "\<And>t. hdr_msg_type (msg t) = Some (tyf t)"
    and r: "case r of Some t \<Rightarrow> P t \<and> (\<forall>u < t. \<not> P u) \<and> t < n | None \<Rightarrow> \<forall>u < n. \<not> P u"
  shows "\<exists>st'. sync_finish ring msg (r, st) =
     Some (ring\<lparr>mr_seqnum := mr_seqnum ring + 1\<rparr>, st', if \<exists>t < n. P t then tyf (LEAST t. P t) else 0)"
proof (cases r)
  case None
  then show ?thesis using r by (auto simp: sync_finish_def)
next
  case (Some t)
  then have "P t" "\<forall>u < t. \<not> P u" "t < n" using r by auto
  then have "(LEAST t. P t) = t" "\<exists>t < n. P t" by (auto intro!: Least_equality simp: not_less [symmetric])
  then show ?thesis using Some ty by (simp add: sync_finish_def)
qed

section \<open>Properties\<close>

lemma rspace_eq:
  assumes "ring_ok r"
  shows "rspace r = min (unat (mr_max_items r) - Suc (rcount r)) (unat (mr_max_items r) - unat (mr_wr r))"
    and "rspace r = 0 \<longleftrightarrow> Suc (rcount r) = unat (mr_max_items r)"
  using ring_okD [OF assms] by (auto simp: rspace_def rcount_def)

lemma rblock_eq:
  assumes "ring_ok r"
  shows "rblock r = min (rcount r) (unat (mr_max_items r) - unat (mr_rd r))"
  using ring_okD [OF assms] by (auto simp: rblock_def rcount_def)


definition demo_ring :: msgbuf_ring where
  "demo_ring = \<lparr>mr_inited = True, mr_idx = 3, mr_rd = 2, mr_wr = 1, mr_max_items = 4, mr_item_len = 16, mr_base_addr = 0, mr_seqnum = 254,
     mr_start_addr = None, mr_pend_items_count = 0\<rparr>"

definition demo_dev :: ring_dev where
  "demo_dev = \<lparr>dma_h2d_ring_upd_support = False, dma_d2h_ring_upd_support = False, rw_index_sz = 2,
     h2d_dma_indx_wr_buf = [], h2d_dma_indx_rd_buf = [], d2h_dma_indx_wr_buf = [], d2h_dma_indx_rd_buf = [],
     ring_state_w = (\<lambda>_. 1), ring_state_r = (\<lambda>_. 2), ring_mem = (\<lambda>_. (0, 0, 0)), doorbells = []\<rparr>"

lemma demo_fetch: "fetch_wr True demo_dev demo_ring = Some demo_ring"
  by (simp add: fetch_wr_def demo_dev_def demo_ring_def)


text \<open>
  C37. Reading is in bounds exactly for write indices the device may use. As long as the write index
  is at most the number of items, the block returned lies inside the ring; but the index, which comes
  from the device, is not checked against that number: one beyond it, by less than the read index,
  makes the host process a block that ends behind the ring, in both kinds of builds.
\<close>

theorem msgbuf_read_bounds:
  assumes f: "fetch_wr dbg dv r0 = Some r" and rd: "mr_rd r < mr_max_items r" and il: "0 < mr_item_len r"
  shows "(mr_wr r \<le> mr_max_items r \<longrightarrow>
            (\<forall>r' a len. dhd_prot_get_read_addr dbg dv r0 = Some (r', Some (a, len)) \<longrightarrow>
               a + unat len \<le> unat (mr_max_items r) * unat (mr_item_len r))) \<and>
         (mr_max_items r < mr_wr r \<and> unat (mr_wr r) < unat (mr_max_items r) + unat (mr_rd r) \<longrightarrow>
            (\<exists>r' a len. dhd_prot_get_read_addr dbg dv r0 = Some (r', Some (a, len)) \<and>
               unat (mr_max_items r) * unat (mr_item_len r) < a + unat len))"
proof -
  define d i a k where "d = unat (mr_max_items r)" and "i = unat (mr_item_len r)" and "a = unat (mr_rd r)" and "k = rblock r"
  have b: "k < 65536" "i < 65536" "0 < i" "a < d"
    using rd il unat_u16_less [of "mr_wr r"] unat_u16_less [of "mr_max_items r"] unat_u16_less [of "mr_item_len r"]
    by (auto simp: rblock_def d_def i_def a_def k_def word_less_nat_alt)
  have "k * i \<le> 65535 * 65535" by (rule mult_le_mono) (use b in simp_all)
  then have u: "unat (of_nat (k * i) :: u32) = k * i" by (intro unat_of_nat32) simp
  note g = get_read_addr_result [OF f rd, unfolded k_def [symmetric] i_def [symmetric] a_def [symmetric] d_def [symmetric]]
  have sum: "a * i + k * i = (a + k) * i" by (simp add: algebra_simps)
  show ?thesis
  proof (intro conjI impI allI)
    fix r' ad len
    assume le: "mr_wr r \<le> mr_max_items r" and eq: "dhd_prot_get_read_addr dbg dv r0 = Some (r', Some (ad, len))"
    have "ad = a * i" "len = of_nat (k * i)" using eq unfolding g by (auto simp del: of_nat_mult split: if_splits)
    moreover have "a + k \<le> d" using le b(4) by (auto simp: k_def rblock_def a_def d_def word_le_nat_alt)
    then have "(a + k) * i \<le> d * i" by (rule mult_le_mono1)
    ultimately show "ad + unat len \<le> unat (mr_max_items r) * unat (mr_item_len r)"
      using u sum by (simp add: d_def [symmetric] i_def [symmetric] del: of_nat_mult)
  next
    assume w: "mr_max_items r < mr_wr r \<and> unat (mr_wr r) < unat (mr_max_items r) + unat (mr_rd r)"
    have k: "0 < k" "k < d" "d < a + k" using w b(4) by (auto simp: k_def rblock_def a_def d_def word_less_nat_alt)
    then have "d * i < (a + k) * i" using b(3) by simp
    then show "\<exists>r' ad len. dhd_prot_get_read_addr dbg dv r0 = Some (r', Some (ad, len)) \<and>
        unat (mr_max_items r) * unat (mr_item_len r) < ad + unat len"
      unfolding g using k u sum by (simp add: d_def [symmetric] i_def [symmetric] del: of_nat_mult)
  qed
qed

theorem msgbuf_read_bounds_witness:
  "\<exists>r' a len. dhd_prot_get_read_addr True (demo_dev\<lparr>ring_state_w := \<lambda>_. 5\<rparr>) demo_ring = Some (r', Some (a, len)) \<and> 64 < a + unat len"
proof -
  let ?r = "demo_ring\<lparr>mr_wr := 5\<rparr>"
  have f: "fetch_wr True (demo_dev\<lparr>ring_state_w := \<lambda>_. 5\<rparr>) demo_ring = Some ?r"
    by (simp add: fetch_wr_def demo_dev_def)
  have v: "mr_rd ?r < mr_max_items ?r" "0 < mr_item_len ?r" "mr_max_items ?r < mr_wr ?r"
    "unat (mr_wr ?r) < unat (mr_max_items ?r) + unat (mr_rd ?r)" "unat (mr_max_items ?r) * unat (mr_item_len ?r) = 64"
    by (simp_all add: demo_ring_def)
  from msgbuf_read_bounds [OF f v(1,2)] v(3-5) show ?thesis by (simp add: demo_ring_def)
qed

text \<open>
  C36. Waiting for the transfer of a message always ends, after at most 512 polls, and moves the
  expected sequence number on by one in every case. The message type is reported exactly if at some
  poll the message was complete, which is decided at the first such poll: the last word is the
  expected sequence number modulo 253, or, in the other mode, the words have exclusive or 0 and the
  epoch of the header is that number. Otherwise the message is dropped as type 0.
\<close>

theorem d2h_sync_bounded:
  assumes len: "\<And>t. length (msg t) = unat (mr_item_len ring) div 4" and ne: "4 \<le> unat (mr_item_len ring)"
    and marker: "marker = mr_seqnum ring mod 253"
  shows "(\<exists>st'. dhd_prot_d2h_sync_seqnum ring msg st =
            Some (ring\<lparr>mr_seqnum := mr_seqnum ring + 1\<rparr>, st',
                  if \<exists>t < 512. last (msg t) = marker then ucast (hd (msg (LEAST t. last (msg t) = marker))) else 0)) \<and>
         (\<exists>st'. dhd_prot_d2h_sync_xorcsum ring msg st =
            Some (ring\<lparr>mr_seqnum := mr_seqnum ring + 1\<rparr>, st',
                  if \<exists>t < 512. fold (XOR) (msg t) 0 = 0 \<and> ucast (drop_bit 24 (hd (msg t))) = (ucast marker :: u8)
                  then ucast (hd (msg (LEAST t. fold (XOR) (msg t) 0 = 0 \<and> ucast (drop_bit 24 (hd (msg t))) = (ucast marker :: u8)))) else 0))"
proof (intro conjI)
  let ?n = "unat (mr_item_len ring) div 4"
  have n: "0 < ?n" using ne by simp
  have hd: "arr_get (msg t) 0 = Some (hd (msg t))" "arr_get (msg t) (?n - 1) = Some (last (msg t))" for t
    using len [of t] n by (auto simp: hd_conv_nth last_conv_nth simp flip: length_0_conv)
  have ty: "hdr_msg_type (msg t) = Some (ucast (hd (msg t)))" for t using hd by (simp add: hdr_msg_type_def)
  let ?P = "\<lambda>t. last (msg t) = marker"
  let ?c = "\<lambda>ws. map_option (\<lambda>w. w = mr_seqnum ring mod 253) (arr_get ws (?n - 1))"
  have "?c (msg t) = Some (?P t)" for t using hd marker by simp
  from sync_loop_result [of ?c msg ?P 512 0 st, OF this]
  obtain r st1 where r: "sync_loop ?c msg 512 0 st = Some (r, st1)"
      "case r of Some t \<Rightarrow> 0 \<le> t \<and> t < 0 + 512 \<and> ?P t \<and> (\<forall>u. 0 \<le> u \<and> u < t \<longrightarrow> \<not> ?P u) | None \<Rightarrow> \<forall>u. 0 \<le> u \<and> u < 0 + 512 \<longrightarrow> \<not> ?P u"
    by auto
  have "case r of Some t \<Rightarrow> ?P t \<and> (\<forall>u < t. \<not> ?P u) \<and> t < 512 | None \<Rightarrow> \<forall>u < 512. \<not> ?P u" using r(2) by (cases r) auto
  from sync_finish_result [where msg = msg and tyf = "\<lambda>t. ucast (hd (msg t))" and r = r and P = "?P" and n = 512, OF ty this]
  show "\<exists>st'. dhd_prot_d2h_sync_seqnum ring msg st = Some (ring\<lparr>mr_seqnum := mr_seqnum ring + 1\<rparr>, st',
      if \<exists>t < 512. last (msg t) = marker then ucast (hd (msg (LEAST t. last (msg t) = marker))) else 0)"
    using r(1) by (simp add: dhd_prot_d2h_sync_seqnum_def Let_def)
  let ?Q = "\<lambda>t. fold (XOR) (msg t) 0 = 0 \<and> ucast (drop_bit 24 (hd (msg t))) = (ucast marker :: u8)"
  let ?e = "\<lambda>ws. do { x \<leftarrow> bcm_compute_xor32 ws ?n; e \<leftarrow> hdr_epoch ws; Some (x = 0 \<and> e = ucast (mr_seqnum ring mod 253)) }"
  have "?e (msg t) = Some (?Q t)" for t using hd marker len [of t] by (simp add: bcm_compute_xor32_def hdr_epoch_def)
  from sync_loop_result [of ?e msg ?Q 512 0 st, OF this]
  obtain q st2 where q: "sync_loop ?e msg 512 0 st = Some (q, st2)"
      "case q of Some t \<Rightarrow> 0 \<le> t \<and> t < 0 + 512 \<and> ?Q t \<and> (\<forall>u. 0 \<le> u \<and> u < t \<longrightarrow> \<not> ?Q u) | None \<Rightarrow> \<forall>u. 0 \<le> u \<and> u < 0 + 512 \<longrightarrow> \<not> ?Q u"
    by auto
  have "case q of Some t \<Rightarrow> ?Q t \<and> (\<forall>u < t. \<not> ?Q u) \<and> t < 512 | None \<Rightarrow> \<forall>u < 512. \<not> ?Q u" using q(2) by (cases q) auto
  from sync_finish_result [where msg = msg and tyf = "\<lambda>t. ucast (hd (msg t))" and r = q and P = "?Q" and n = 512, OF ty this]
  show "\<exists>st'. dhd_prot_d2h_sync_xorcsum ring msg st =
            Some (ring\<lparr>mr_seqnum := mr_seqnum ring + 1\<rparr>, st', if \<exists>t < 512. ?Q t then ucast (hd (msg (LEAST t. ?Q t))) else 0)"
    using q(1) by (simp add: dhd_prot_d2h_sync_xorcsum_def Let_def)
qed

theorem d2h_sync_bounded_witness:
  "\<exists>st'. dhd_prot_d2h_sync_seqnum demo_ring (\<lambda>t. [18, 7, 0, 1]) \<lparr>d2h_sync_wait_max = 0, d2h_sync_wait_tot = 0\<rparr> =
     Some (demo_ring\<lparr>mr_seqnum := 255\<rparr>, st', 18)"
proof -
  have v: "unat (mr_item_len demo_ring) div 4 = 4" "4 \<le> unat (mr_item_len demo_ring)" "mr_seqnum demo_ring mod 253 = 1" "mr_seqnum demo_ring + 1 = 255"
    by (simp_all add: demo_ring_def)
  have "\<exists>t :: nat. t < 512" by (rule exI [of _ 0]) simp
  with d2h_sync_bounded [of "\<lambda>t. [18, 7, 0, 1]" demo_ring 1 "\<lparr>d2h_sync_wait_max = 0, d2h_sync_wait_tot = 0\<rparr>"] v show ?thesis by simp
qed

end
