(* ===== verification/Pktid_Props.thy ===== *)
theory Pktid_Props
  imports Pktid_Map Id_Alloc
begin

text \<open>
  Properties of the packet-id map: the stack of free ids and the states of the lockers agree
  (\<open>pktid_ok\<close>), the operations act on the partial map from ids in use to lockers (\<open>contents\<close>), the map
  satisfies the contract of an id allocator, and what was saved under an id is what comes back.
\<close>

section \<open>Well-formed maps\<close>

definition id_stack_of :: "dhd_pktid_map \<Rightarrow> nat list" where
  "id_stack_of m = map (\<lambda>i. unat (pm_keys m ! i)) [1..<Suc (unat (pm_avail m))]"

definition ids_of :: "dhd_pktid_map \<Rightarrow> nat set" where
  "ids_of m = {1..unat (pm_items m)}"

definition free_ids :: "dhd_pktid_map \<Rightarrow> nat set" where
  "free_ids m = {k \<in> ids_of m. lk_state (pm_lockers m ! k) = LOCKER_IS_FREE}"

definition pktid_ok :: "dhd_pktid_map \<Rightarrow> bool" where
  "pktid_ok m \<longleftrightarrow> unat (pm_items m) \<le> MAX_PKTID_ITEMS \<and> length (pm_keys m) = MAX_PKTID_ITEMS + 1 \<and>
     length (pm_lockers m) = Suc (unat (pm_items m)) \<and> unat (pm_avail m) \<le> unat (pm_items m) \<and>
     distinct (id_stack_of m) \<and> set (id_stack_of m) = free_ids m"

lemma pktid_okD:
  assumes "pktid_ok m"
  shows "unat (pm_items m) \<le> 3072" "length (pm_keys m) = 3073" "length (pm_lockers m) = Suc (unat (pm_items m))"
    "unat (pm_avail m) \<le> unat (pm_items m)" "distinct (id_stack_of m)" "set (id_stack_of m) = free_ids m"
    "card (free_ids m) = unat (pm_avail m)"
proof -
  show "unat (pm_items m) \<le> 3072" "length (pm_keys m) = 3073" "length (pm_lockers m) = Suc (unat (pm_items m))"
    "unat (pm_avail m) \<le> unat (pm_items m)" and d: "distinct (id_stack_of m)" "set (id_stack_of m) = free_ids m"
    using assms by (simp_all add: pktid_ok_def)
  show "card (free_ids m) = unat (pm_avail m)"
    using distinct_card [OF d(1)] unfolding d(2) by (simp add: id_stack_of_def)
qed

lemma id_in_lockers: "pktid_ok m \<Longrightarrow> k \<in> ids_of m \<Longrightarrow> k < length (pm_lockers m)"
  by (auto simp: pktid_ok_def ids_of_def)

lemma ids_of_u32: "pktid_ok m \<Longrightarrow> k \<in> ids_of m \<Longrightarrow> unat (of_nat k :: u32) = k"
  by (rule unat_of_nat32) (auto simp: pktid_ok_def ids_of_def)

section \<open>The ids in use\<close>

definition contents :: "dhd_pktid_map \<Rightarrow> nat \<Rightarrow> dhd_pktid_item option" where
  "contents m k = (if k \<in> ids_of m \<and> lk_state (pm_lockers m ! k) \<noteq> LOCKER_IS_FREE then Some (pm_lockers m ! k) else None)"

lemma dom_contents: "dom (contents m) = ids_of m - free_ids m"
  by (auto simp: contents_def free_ids_def split: if_splits)

lemma free_ids_subset: "free_ids m \<subseteq> ids_of m"
  by (auto simp: free_ids_def)

lemma contents_Some:
  "contents m k = Some lk \<longleftrightarrow> k \<in> ids_of m \<and> pm_lockers m ! k = lk \<and> lk_state lk \<noteq> LOCKER_IS_FREE"
  by (auto simp: contents_def free_ids_def)

lemma contents_None: "k \<in> ids_of m \<Longrightarrow> contents m k = None \<longleftrightarrow> lk_state (pm_lockers m ! k) = LOCKER_IS_FREE"
  by (auto simp: contents_def free_ids_def)

text \<open>Changing one locker.\<close>

lemma free_ids_update:
  assumes "pktid_ok m" and "k \<in> ids_of m"
  shows "free_ids (m\<lparr>pm_lockers := (pm_lockers m)[k := lk]\<rparr>) =
           (if lk_state lk = LOCKER_IS_FREE then insert k (free_ids m) else free_ids m - {k})"
  using assms id_in_lockers [OF assms] by (auto simp: free_ids_def ids_of_def nth_list_update)

lemma contents_update:
  assumes "pktid_ok m" and "k \<in> ids_of m"
  shows "contents (m\<lparr>pm_lockers := (pm_lockers m)[k := lk]\<rparr>) =
           (if lk_state lk = LOCKER_IS_FREE then (contents m)(k := None) else (contents m)(k \<mapsto> lk))"
  using assms id_in_lockers [OF assms]
  by (auto simp: fun_eq_iff contents_def free_ids_def ids_of_def nth_list_update)

text \<open>Only the size and the lockers matter.\<close>

lemma view_cong:
  assumes "pm_items m' = pm_items m" and "pm_lockers m' = pm_lockers m"
  shows "free_ids m' = free_ids m" and "contents m' = contents m" and "ids_of m' = ids_of m"
  using assms by (simp_all add: free_ids_def ids_of_def contents_def fun_eq_iff)

lemma frame [simp]:
  "free_ids (m\<lparr>pm_failures := f\<rparr>) = free_ids m" "free_ids (m\<lparr>pm_audit := au\<rparr>) = free_ids m"
  "contents (m\<lparr>pm_failures := f\<rparr>) = contents m" "contents (m\<lparr>pm_audit := au\<rparr>) = contents m"
  "ids_of (m\<lparr>pm_failures := f\<rparr>) = ids_of m" "ids_of (m\<lparr>pm_audit := au\<rparr>) = ids_of m"
  by (rule view_cong; simp)+

lemma ids_of_lockers [simp]: "ids_of (m\<lparr>pm_lockers := lks\<rparr>) = ids_of m"
  by (simp add: ids_of_def)

lemma pktid_ok_audit [simp]: "pktid_ok (m\<lparr>pm_audit := au\<rparr>) = pktid_ok m" "pktid_ok (m\<lparr>pm_failures := f\<rparr>) = pktid_ok m"
  by (simp_all add: pktid_ok_def id_stack_of_def)

section \<open>The operations\<close>

definition take_id :: "dhd_pktid_map \<Rightarrow> nat \<Rightarrow> dhd_pktid_item \<Rightarrow> dhd_pktid_map" where
  "take_id m k lk = m\<lparr>pm_avail := pm_avail m - 1, pm_lockers := (pm_lockers m)[k := lk]\<rparr>"

definition give_id :: "dhd_pktid_map \<Rightarrow> u32 \<Rightarrow> dhd_pktid_item \<Rightarrow> dhd_pktid_map" where
  "give_id m nkey lk = m\<lparr>pm_avail := pm_avail m + 1, pm_keys := (pm_keys m)[unat (pm_avail m + 1) := nkey],
     pm_lockers := (pm_lockers m)[unat nkey := lk]\<rparr>"

definition top_id :: "dhd_pktid_map \<Rightarrow> u32" where
  "top_id m = pm_keys m ! unat (pm_avail m)"

lemma stack_nonempty:
  assumes "pktid_ok m" and "free_ids m \<noteq> {}"
  shows "0 < unat (pm_avail m)" and "unat (top_id m) \<in> free_ids m"
    and "id_stack_of m = map (\<lambda>i. unat (pm_keys m ! i)) [1..<unat (pm_avail m)] @ [unat (top_id m)]"
proof -
  have "finite (free_ids m)" by (rule finite_subset [OF free_ids_subset]) (simp add: ids_of_def)
  then show a: "0 < unat (pm_avail m)" using assms(2) pktid_okD(7) [OF assms(1)] by (metis card_gt_0_iff)
  then show st: "id_stack_of m = map (\<lambda>i. unat (pm_keys m ! i)) [1..<unat (pm_avail m)] @ [unat (top_id m)]"
    by (simp add: id_stack_of_def top_id_def)
  show "unat (top_id m) \<in> free_ids m" using st pktid_okD(6) [OF assms(1)] by auto
qed

lemma take_id_ok:
  assumes ok: "pktid_ok m" and ne: "free_ids m \<noteq> {}" and lk: "lk_state lk \<noteq> LOCKER_IS_FREE"
  shows "pktid_ok (take_id m (unat (top_id m)) lk)"
    and "free_ids (take_id m (unat (top_id m)) lk) = free_ids m - {unat (top_id m)}"
    and "contents (take_id m (unat (top_id m)) lk) = (contents m)(unat (top_id m) \<mapsto> lk)"
    and "ids_of (take_id m (unat (top_id m)) lk) = ids_of m"
proof -
  let ?k = "unat (top_id m)"
  note s = stack_nonempty [OF ok ne] and d = pktid_okD [OF ok]
  have k: "?k \<in> ids_of m" using s(2) free_ids_subset by blast
  have v: "pm_items (take_id m ?k lk) = pm_items (m\<lparr>pm_lockers := (pm_lockers m)[?k := lk]\<rparr>)"
    "pm_lockers (take_id m ?k lk) = pm_lockers (m\<lparr>pm_lockers := (pm_lockers m)[?k := lk]\<rparr>)" by (simp_all add: take_id_def)
  show f: "free_ids (take_id m ?k lk) = free_ids m - {?k}"
    using free_ids_update [OF ok k, of lk] lk view_cong(1) [OF v] by simp
  show "contents (take_id m ?k lk) = (contents m)(?k \<mapsto> lk)"
    using contents_update [OF ok k, of lk] lk view_cong(2) [OF v] by simp
  show "ids_of (take_id m ?k lk) = ids_of m" by (simp add: take_id_def ids_of_def)
  have dec: "unat (pm_avail m - 1) = unat (pm_avail m) - 1" by (rule unat_dec [OF s(1)])
  have "id_stack_of (take_id m ?k lk) = map (\<lambda>i. unat (pm_keys m ! i)) [1..<unat (pm_avail m)]"
    using s(1) by (simp add: id_stack_of_def take_id_def dec del: upt_Suc)
  then have st: "id_stack_of m = id_stack_of (take_id m ?k lk) @ [?k]" using s(3) by simp
  have "distinct (id_stack_of (take_id m ?k lk))" "set (id_stack_of (take_id m ?k lk)) = free_ids m - {?k}"
    using d(5,6) unfolding st by auto
  then show "pktid_ok (take_id m ?k lk)"
    using d unfolding pktid_ok_def f by (simp add: take_id_def dec)
qed

lemma give_id_ok:
  assumes ok: "pktid_ok m" and k: "contents m (unat nkey) \<noteq> None" and lk: "lk_state lk = LOCKER_IS_FREE"
  shows "pktid_ok (give_id m nkey lk)" and "free_ids (give_id m nkey lk) = insert (unat nkey) (free_ids m)"
    and "contents (give_id m nkey lk) = (contents m)(unat nkey := None)"
    and "unat (pm_avail m + 1) < length (pm_keys m)" and "ids_of (give_id m nkey lk) = ids_of m"
proof -
  let ?k = "unat nkey"
  note d = pktid_okD [OF ok]
  have ki: "?k \<in> ids_of m" "?k \<notin> free_ids m" using k by (auto simp: contents_def free_ids_def split: if_splits)
  have "free_ids m \<subset> ids_of m" using ki free_ids_subset by blast
  then have "card (free_ids m) < card (ids_of m)" by (rule psubset_card_mono [rotated]) (simp add: ids_of_def)
  then have less: "unat (pm_avail m) < unat (pm_items m)" using d(7) by (simp add: ids_of_def)
  have inc: "unat (pm_avail m + 1) = Suc (unat (pm_avail m))"
    by (rule unat_inc [OF less]) (use d(1) in simp)
  show "unat (pm_avail m + 1) < length (pm_keys m)" using inc less d(1,2) by simp
  have v: "pm_items (give_id m nkey lk) = pm_items (m\<lparr>pm_lockers := (pm_lockers m)[?k := lk]\<rparr>)"
    "pm_lockers (give_id m nkey lk) = pm_lockers (m\<lparr>pm_lockers := (pm_lockers m)[?k := lk]\<rparr>)" by (simp_all add: give_id_def)
  show f: "free_ids (give_id m nkey lk) = insert ?k (free_ids m)"
    using free_ids_update [OF ok ki(1), of lk] lk view_cong(1) [OF v] by simp
  show "contents (give_id m nkey lk) = (contents m)(?k := None)"
    using contents_update [OF ok ki(1), of lk] lk view_cong(2) [OF v] by simp
  show "ids_of (give_id m nkey lk) = ids_of m" by (simp add: give_id_def ids_of_def)
  have "id_stack_of (give_id m nkey lk) = id_stack_of m @ [?k]"
    using less d(1,2) by (auto simp: id_stack_of_def give_id_def inc)
  then show "pktid_ok (give_id m nkey lk)"
    using d less ki unfolding pktid_ok_def f by (simp add: give_id_def inc)
qed

lemma reserve_none:
  assumes "pktid_ok m" and "free_ids m = {}"
  shows "dhd_pktid_map_reserve dbg m pkt = Some (m\<lparr>pm_failures := pm_failures m + 1\<rparr>, 0)"
  using assms pktid_okD(7) [OF assms(1)] by (simp add: dhd_pktid_map_reserve_def unat_eq_zero)

lemma reserve_some:
  assumes ok: "pktid_ok m" and ne: "free_ids m \<noteq> {}"
  shows "dhd_pktid_map_reserve dbg m pkt =
           Some (take_id m (unat (top_id m))
             ((pm_lockers m ! unat (top_id m))\<lparr>lk_pkt := pkt, lk_len := 0, lk_state := LOCKER_IS_BUSY\<rparr>), top_id m)"
    and "top_id m \<noteq> 0"
proof -
  note s = stack_nonempty [OF ok ne] and d = pktid_okD [OF ok]
  have k: "unat (top_id m) \<in> ids_of m" using s(2) free_ids_subset by blast
  show nz: "top_id m \<noteq> 0" using k by (auto simp: ids_of_def)
  have "pm_avail m \<noteq> 0" using s(1) by auto
  moreover have "unat (pm_avail m) < length (pm_keys m)" using d(1,2,4) by simp
  moreover have "pm_avail m \<le> pm_items m" using d(4) by (simp add: word_le_nat_alt)
  ultimately show "dhd_pktid_map_reserve dbg m pkt =
           Some (take_id m (unat (top_id m))
             ((pm_lockers m ! unat (top_id m))\<lparr>lk_pkt := pkt, lk_len := 0, lk_state := LOCKER_IS_BUSY\<rparr>), top_id m)"
    using id_in_lockers [OF ok k] nz by (simp add: dhd_pktid_map_reserve_def take_id_def top_id_def [symmetric])
qed

text \<open>The locker \<open>dhd_pktid_map_save\<close> leaves.\<close>

definition saved :: "pkt_ptr \<Rightarrow> dmaaddr \<Rightarrow> u32 \<Rightarrow> u8 \<Rightarrow> nat option \<Rightarrow> nat option \<Rightarrow> dhd_pkttype \<Rightarrow> dhd_pktid_item" where
  "saved pkt pa len dir dmah secdma ty = \<lparr>lk_state = LOCKER_IS_BUSY, lk_dir = dir, lk_pkttype = ty, lk_len = ucast len,
     lk_pkt = pkt, lk_pa = pa, lk_dmah = dmah, lk_secdma = secdma\<rparr>"

lemma saved_eq:
  "lk\<lparr>lk_dir := dir, lk_pa := pa, lk_len := ucast len, lk_dmah := dmah, lk_secdma := secdma, lk_pkttype := ty,
     lk_pkt := pkt, lk_state := LOCKER_IS_BUSY\<rparr> = saved pkt pa len dir dmah secdma ty"
  by (cases lk) (simp add: saved_def)

lemma save_some:
  assumes ok: "pktid_ok m" and k: "unat nkey \<in> ids_of m"
    and st: "lk_state (pm_lockers m ! unat nkey) = LOCKER_IS_BUSY \<and> lk_pkt (pm_lockers m ! unat nkey) = pkt \<or>
       lk_state (pm_lockers m ! unat nkey) = LOCKER_IS_RSVD \<and> lk_pkt (pm_lockers m ! unat nkey) = None"
  shows "dhd_pktid_map_save dbg m pkt nkey pa len dir dmah secdma ty =
           Some (m\<lparr>pm_lockers := (pm_lockers m)[unat nkey := saved pkt pa len dir dmah secdma ty]\<rparr>)"
proof -
  have "nkey \<noteq> 0" "nkey \<le> pm_items m" using k by (auto simp: ids_of_def word_le_nat_alt)
  then show ?thesis
    using id_in_lockers [OF ok k] st by (simp add: dhd_pktid_map_save_def saved_eq)
qed

lemma alloc_some:
  assumes ok: "pktid_ok m" and ne: "free_ids m \<noteq> {}"
  shows "dhd_pktid_map_alloc dbg m pkt pa len dir dmah secdma ty =
           Some (take_id m (unat (top_id m)) (saved pkt pa len dir dmah secdma ty), top_id m)"
proof -
  let ?k = "unat (top_id m)"
  let ?b = "(pm_lockers m ! ?k)\<lparr>lk_pkt := pkt, lk_len := 0, lk_state := LOCKER_IS_BUSY\<rparr>"
  note s = stack_nonempty [OF ok ne] and r = reserve_some [OF ok ne]
  have k: "?k \<in> ids_of m" using s(2) free_ids_subset by blast
  have t: "pktid_ok (take_id m ?k ?b)" "ids_of (take_id m ?k ?b) = ids_of m" using take_id_ok [OF ok ne] by simp_all
  have "pm_lockers (take_id m ?k ?b) ! ?k = ?b" using id_in_lockers [OF ok k] by (simp add: take_id_def)
  then have "dhd_pktid_map_save dbg (take_id m ?k ?b) pkt (top_id m) pa len dir dmah secdma ty =
      Some ((take_id m ?k ?b)\<lparr>pm_lockers := (pm_lockers (take_id m ?k ?b))[?k := saved pkt pa len dir dmah secdma ty]\<rparr>)"
    by (intro save_some) (use t k in simp_all)
  then show ?thesis
    using r by (simp add: dhd_pktid_map_alloc_def take_id_def)
qed

lemma free_some:
  assumes ok: "pktid_ok m" and k: "contents m (unat nkey) = Some lk" and ty: "ty = PKTTYPE_NO_CHECK \<or> lk_pkttype lk = ty"
  shows "dhd_pktid_map_free dbg m nkey ty rsv =
     Some (if rsv then m\<lparr>pm_lockers := (pm_lockers m)[unat nkey := lk\<lparr>lk_state := LOCKER_IS_RSVD, lk_pkt := None, lk_len := 0\<rparr>]\<rparr>
           else give_id m nkey (lk\<lparr>lk_state := LOCKER_IS_FREE, lk_pkt := None, lk_len := 0\<rparr>),
           lk_pkt lk, Some (lk_pa lk, ucast (lk_len lk), lk_dmah lk, lk_secdma lk))"
proof -
  have i: "unat nkey \<in> ids_of m" "pm_lockers m ! unat nkey = lk" "lk_state lk \<noteq> LOCKER_IS_FREE"
    using k by (auto simp: contents_Some)
  have "nkey \<noteq> 0" "nkey \<le> pm_items m" using i(1) by (auto simp: ids_of_def word_le_nat_alt)
  moreover have "unat (pm_avail m + 1) < length (pm_keys m)"
    using give_id_ok(4) [OF ok, of nkey "lk\<lparr>lk_state := LOCKER_IS_FREE\<rparr>"] k by simp
  ultimately show ?thesis
    using id_in_lockers [OF ok i(1)] i ty by (auto simp: dhd_pktid_map_free_def give_id_def Let_def)
qed

text \<open>An id that is not in use, or a locker of another type: an assertion, or NULL and no change.\<close>

lemma free_refused:
  assumes ok: "pktid_ok m" and i: "unat nkey \<in> ids_of m"
    and bad: "contents m (unat nkey) = None \<or>
      (\<exists>lk. contents m (unat nkey) = Some lk \<and> ty \<noteq> PKTTYPE_NO_CHECK \<and> lk_pkttype lk \<noteq> ty)"
  shows "dhd_pktid_map_free dbg m nkey ty rsv = (if dbg then None else Some (m, None, None))"
proof -
  have "nkey \<noteq> 0" "nkey \<le> pm_items m" using i by (auto simp: ids_of_def word_le_nat_alt)
  then show ?thesis
    using id_in_lockers [OF ok i] bad contents_None [OF i]
    by (auto simp: dhd_pktid_map_free_def contents_Some)
qed

text \<open>Storing in an id that is in use keeps the map well-formed.\<close>

lemma update_used_ok:
  assumes ok: "pktid_ok m" and k: "contents m (unat nkey) \<noteq> None" and lk: "lk_state lk \<noteq> LOCKER_IS_FREE"
  shows "pktid_ok (m\<lparr>pm_lockers := (pm_lockers m)[unat nkey := lk]\<rparr>)"
    and "contents (m\<lparr>pm_lockers := (pm_lockers m)[unat nkey := lk]\<rparr>) = (contents m)(unat nkey \<mapsto> lk)"
proof -
  have ki: "unat nkey \<in> ids_of m" "unat nkey \<notin> free_ids m" using k by (auto simp: contents_def free_ids_def split: if_splits)
  show "contents (m\<lparr>pm_lockers := (pm_lockers m)[unat nkey := lk]\<rparr>) = (contents m)(unat nkey \<mapsto> lk)"
    using contents_update [OF ok ki(1), of lk] lk by simp
  have "free_ids (m\<lparr>pm_lockers := (pm_lockers m)[unat nkey := lk]\<rparr>) = free_ids m"
    using free_ids_update [OF ok ki(1), of lk] lk ki(2) by simp
  then show "pktid_ok (m\<lparr>pm_lockers := (pm_lockers m)[unat nkey := lk]\<rparr>)"
    using pktid_okD [OF ok] by (simp add: pktid_ok_def id_stack_of_def)
qed

section \<open>Construction\<close>

lemma init_loop_result:
  assumes "n + k \<le> unat N" and "unat N \<le> 3072" and "length (pm_keys m) = 3073" and "length (pm_lockers m) = Suc (unat N)"
  shows "\<exists>ks ls. init_loop n (of_nat (Suc k)) m = Some (m\<lparr>pm_keys := ks, pm_lockers := ls\<rparr>) \<and>
     length ks = 3073 \<and> length ls = Suc (unat N) \<and>
     (\<forall>i. ks ! i = (if k < i \<and> i \<le> n + k then of_nat i else pm_keys m ! i)) \<and>
     (\<forall>i. ls ! i = (if k < i \<and> i \<le> n + k
        then (pm_lockers m ! i)\<lparr>lk_state := LOCKER_IS_FREE, lk_pkt := None, lk_len := 0\<rparr> else pm_lockers m ! i))"
  using assms
proof (induction n arbitrary: k m)
  case 0
  then show ?case by (intro exI [of _ "pm_keys m"] exI [of _ "pm_lockers m"]) auto
next
  case (Suc n)
  have u: "unat (of_nat (Suc k) :: u32) = Suc k" by (rule unat_of_nat32) (use Suc.prems in simp)
  let ?m = "m\<lparr>pm_keys := (pm_keys m)[Suc k := of_nat (Suc k)],
     pm_lockers := (pm_lockers m)[Suc k := (pm_lockers m ! Suc k)\<lparr>lk_state := LOCKER_IS_FREE, lk_pkt := None, lk_len := 0\<rparr>]\<rparr>"
  have step: "init_loop (Suc n) (of_nat (Suc k)) m = init_loop n (of_nat (Suc (Suc k))) ?m"
    using Suc.prems u by (simp del: of_nat_Suc) (simp add: add.commute)
  obtain ks ls where r: "init_loop n (of_nat (Suc (Suc k))) ?m = Some (?m\<lparr>pm_keys := ks, pm_lockers := ls\<rparr>)"
     "length ks = 3073" "length ls = Suc (unat N)"
     "\<forall>i. ks ! i = (if Suc k < i \<and> i \<le> n + Suc k then of_nat i else pm_keys ?m ! i)"
     "\<forall>i. ls ! i = (if Suc k < i \<and> i \<le> n + Suc k
        then (pm_lockers ?m ! i)\<lparr>lk_state := LOCKER_IS_FREE, lk_pkt := None, lk_len := 0\<rparr> else pm_lockers ?m ! i)"
    using Suc.IH [of "Suc k" ?m] Suc.prems by auto
  show ?case
    unfolding step r(1)
    by (rule exI [of _ ks], rule exI [of _ ls]) (use r(2-5) Suc.prems in \<open>auto simp: nth_list_update\<close>)
qed

lemma pktid_init_ok:
  assumes N: "1 \<le> unat num_items" "unat num_items \<le> 3072"
  shows "\<exists>m. dhd_pktid_map_init dbg True True num_items = Some (Some m) \<and> pktid_ok m \<and> free_ids m = ids_of m \<and>
           pm_items m = num_items \<and> pm_avail m = num_items \<and> pm_lockers m ! 0 = zero_locker\<lparr>lk_state := LOCKER_IS_BUSY\<rparr> \<and>
           (\<exists>a. pm_audit m = Some a \<and> mwb_rep a {1..unat num_items} {0} \<and> unat (mwb_total a) = unat num_items + 1)"
proof -
  let ?N = "unat num_items"
  have inc: "unat (num_items + 1) = Suc ?N" by (rule unat_inc [of _ 3073]) (use N in simp_all)
  obtain a where a: "bcm_mwbmap_init True (num_items + 1) = Some a" "mwb_rep a {..<Suc ?N} {}" "unat (mwb_total a) = Suc ?N"
    using bcm_mwbmap_init_rep [of "num_items + 1"] N unfolding inc by auto
  have f: "bcm_mwbmap_force a 0 = Some (mwb_take a 0)" using bcm_mwbmap_force_rep [OF a(2), of 0] by simp
  have "{..<Suc ?N} - {0} = {1..?N}" by auto
  then have ar: "mwb_rep (mwb_take a 0) {1..?N} {0}" using mwb_take_rep [OF a(2), of 0] by simp
  define m0 where "m0 = \<lparr>pm_items = num_items, pm_avail = num_items, pm_failures = 0, pm_audit = Some a,
     pm_keys = replicate 3073 0, pm_lockers = replicate (?N + 1) zero_locker\<rparr>"
  obtain ks ls where r: "init_loop ?N 1 m0 = Some (m0\<lparr>pm_keys := ks, pm_lockers := ls\<rparr>)" "length ks = 3073" "length ls = Suc ?N"
      "\<forall>i. ks ! i = (if 0 < i \<and> i \<le> ?N then of_nat i else pm_keys m0 ! i)"
      "\<forall>i. ls ! i = (if 0 < i \<and> i \<le> ?N then (pm_lockers m0 ! i)\<lparr>lk_state := LOCKER_IS_FREE, lk_pkt := None, lk_len := 0\<rparr>
         else pm_lockers m0 ! i)"
    using init_loop_result [of ?N 0 num_items m0] N by (auto simp: m0_def)
  define m where "m = m0\<lparr>pm_keys := ks, pm_lockers := ls[0 := (ls ! 0)\<lparr>lk_state := LOCKER_IS_BUSY, lk_pkt := None, lk_len := 0\<rparr>],
     pm_audit := Some (mwb_take a 0)\<rparr>"
  have "dhd_pktid_map_init dbg True True num_items = Some (Some m)"
    using N a(1) f r(1,3) unfolding dhd_pktid_map_init_def by (simp add: m0_def m_def)
  moreover have st: "id_stack_of m = [1..<Suc ?N]"
  proof -
    have "unat (ks ! i) = i" if "i \<in> set [1..<Suc ?N]" for i
      using that r(4) N by (auto intro!: unat_of_nat32)
    then have "map (\<lambda>i. unat (ks ! i)) [1..<Suc ?N] = map id [1..<Suc ?N]" by (intro map_cong) auto
    then show ?thesis by (simp add: id_stack_of_def m_def m0_def del: upt_Suc)
  qed
  moreover have fr: "free_ids m = ids_of m"
    using r(3,5) by (auto simp: free_ids_def ids_of_def m_def m0_def)
  moreover have "pktid_ok m"
    unfolding pktid_ok_def st fr using N r(2,3) by (auto simp: ids_of_def m_def m0_def)
  moreover have "pm_lockers m ! 0 = zero_locker\<lparr>lk_state := LOCKER_IS_BUSY\<rparr>"
    using r(3,5) by (simp add: m_def m0_def zero_locker_def)
  ultimately show ?thesis using ar a(3) by (auto simp: m_def m0_def)
qed

section \<open>The contract of an id allocator\<close>

definition pktid_rep :: "dhd_pktid_map \<Rightarrow> nat set \<Rightarrow> nat set \<Rightarrow> bool" where
  "pktid_rep m avail used \<longleftrightarrow> pktid_ok m \<and> avail = free_ids m \<and> used = ids_of m - free_ids m"

definition pktid_alloc_st :: "bool \<Rightarrow> dhd_pktid_item \<Rightarrow> dhd_pktid_map \<Rightarrow> (dhd_pktid_map \<times> nat option) option" where
  "pktid_alloc_st dbg lk m = do {
     (m', nkey) \<leftarrow> dhd_pktid_map_alloc dbg m (lk_pkt lk) (lk_pa lk) (ucast (lk_len lk)) (lk_dir lk) (lk_dmah lk) (lk_secdma lk) (lk_pkttype lk);
     Some (m', if nkey = DHD_PKTID_INVALID then None else Some (unat nkey))
   }"

definition pktid_free_st :: "bool \<Rightarrow> dhd_pktid_map \<Rightarrow> nat \<Rightarrow> dhd_pktid_map option" where
  "pktid_free_st dbg m k = map_option fst (dhd_pktid_map_free dbg m (of_nat k) PKTTYPE_NO_CHECK False)"

interpretation pktid: id_alloc pktid_rep "pktid_alloc_st dbg lk" "pktid_free_st dbg" for dbg lk
proof
  fix m avail used x
  assume rep: "pktid_rep m avail used"
  then have ok: "pktid_ok m" and av: "avail = free_ids m" and us: "used = ids_of m - free_ids m" by (auto simp: pktid_rep_def)
  show "avail \<inter> used = {}" using av us by blast
  show "\<exists>m' y. pktid_alloc_st dbg lk m = Some (m', Some y) \<and> y \<in> avail \<and> pktid_rep m' (avail - {y}) (insert y used)"
    if "avail \<noteq> {}"
  proof -
    have ne: "free_ids m \<noteq> {}" using that av by simp
    note t = take_id_ok [OF ok ne, of "saved (lk_pkt lk) (lk_pa lk) (ucast (lk_len lk)) (lk_dir lk) (lk_dmah lk) (lk_secdma lk) (lk_pkttype lk)"]
    have "top_id m \<noteq> 0" and "unat (top_id m) \<in> free_ids m" using reserve_some(2) [OF ok ne] stack_nonempty(2) [OF ok ne] .
    then show ?thesis
      using t alloc_some [OF ok ne] av us free_ids_subset [of m]
      by (auto simp: pktid_alloc_st_def pktid_rep_def saved_def)
  qed
  show "\<exists>m'. pktid_free_st dbg m x = Some m' \<and> pktid_rep m' (insert x avail) (used - {x})" if x: "x \<in> used"
  proof -
    have u: "unat (of_nat x :: u32) = x" using ids_of_u32 [OF ok] x us by blast
    obtain lk' where c: "contents m x = Some lk'" using x us by (auto simp: contents_def free_ids_def)
    note g = give_id_ok [OF ok, of "of_nat x", unfolded u, of "lk'\<lparr>lk_state := LOCKER_IS_FREE, lk_pkt := None, lk_len := 0\<rparr>"]
    show ?thesis
      using free_some [OF ok, of "of_nat x" lk' PKTTYPE_NO_CHECK dbg False] c g av us u
      by (auto simp: pktid_free_st_def pktid_rep_def)
  qed
next
  fix m used
  assume "pktid_rep m {} used"
  then have ok: "pktid_ok m" "free_ids m = {}" "used = ids_of m" by (auto simp: pktid_rep_def)
  then show "\<exists>m'. pktid_alloc_st dbg lk m = Some (m', None) \<and> pktid_rep m' {} used"
    using reserve_none [OF ok(1,2)] by (auto simp: pktid_alloc_st_def dhd_pktid_map_alloc_def pktid_rep_def)
qed

section \<open>Histories\<close>

text \<open>
  What the rest of the driver and the device do to the map: allocations, and releases of ids, also of
  ids that are not in use or with the wrong type.
\<close>

datatype pktid_op =
    AllocOp pkt_ptr dmaaddr u32 u8 "nat option" "nat option" dhd_pkttype
  | FreeOp u32 dhd_pkttype bool

fun pktid_run :: "bool \<Rightarrow> pktid_op list \<Rightarrow> dhd_pktid_map \<Rightarrow> dhd_pktid_map option" where
  "pktid_run dbg [] m = Some m"
| "pktid_run dbg (AllocOp pkt pa len dir dmah secdma ty # ops) m = do {
     (m, _) \<leftarrow> dhd_pktid_map_alloc dbg m pkt pa len dir dmah secdma ty;
     pktid_run dbg ops m
   }"
| "pktid_run dbg (FreeOp nkey ty rsv # ops) m = do {
     (m, _) \<leftarrow> dhd_pktid_map_free dbg m nkey ty rsv;
     pktid_run dbg ops m
   }"

text \<open>An operation that does not release the id \<open>nkey\<close>: if it names the id at all, then with another type than \<open>ty\<close>.\<close>

fun op_spares :: "nat set \<Rightarrow> u32 \<Rightarrow> dhd_pkttype \<Rightarrow> pktid_op \<Rightarrow> bool" where
  "op_spares ids nkey ty (FreeOp k t rsv) \<longleftrightarrow> unat k \<in> ids \<and> (k = nkey \<longrightarrow> t \<noteq> PKTTYPE_NO_CHECK \<and> t \<noteq> ty)"
| "op_spares ids nkey ty _ \<longleftrightarrow> True"

lemma alloc_step:
  assumes ok: "pktid_ok m"
  obtains m' k where "dhd_pktid_map_alloc dbg m pkt pa len dir dmah secdma ty = Some (m', k)" and "pktid_ok m'"
    and "ids_of m' = ids_of m" and "\<And>i. i \<in> dom (contents m) \<Longrightarrow> contents m' i = contents m i"
    and "k \<noteq> 0 \<Longrightarrow> contents m (unat k) = None \<and> contents m' (unat k) = Some (saved pkt pa len dir dmah secdma ty)"
    and "k = 0 \<longleftrightarrow> free_ids m = {}"
proof (cases "free_ids m = {}")
  case True
  then have "dhd_pktid_map_alloc dbg m pkt pa len dir dmah secdma ty = Some (m\<lparr>pm_failures := pm_failures m + 1\<rparr>, 0)"
    using reserve_none [OF ok] by (simp add: dhd_pktid_map_alloc_def)
  then show thesis by (rule that) (use ok True in simp_all)
next
  case False
  let ?lk = "saved pkt pa len dir dmah secdma ty"
  have "lk_state ?lk \<noteq> LOCKER_IS_FREE" by (simp add: saved_def)
  note t = take_id_ok [OF ok False this]
  have f: "unat (top_id m) \<in> free_ids m" by (rule stack_nonempty(2) [OF ok False])
  then have "contents m (unat (top_id m)) = None" by (auto simp: contents_def free_ids_def)
  then show thesis
    by (intro that [OF alloc_some [OF ok False]]) (use t False reserve_some(2) [OF ok False] in auto)
qed

lemma free_step:
  assumes ok: "pktid_ok m" and k: "unat k \<in> ids_of m"
  obtains m' r where "dhd_pktid_map_free False m k ty rsv = Some (m', r)" and "pktid_ok m'" and "ids_of m' = ids_of m"
    and "\<And>i. i \<noteq> unat k \<Longrightarrow> contents m' i = contents m i"
proof (cases "\<exists>lk. contents m (unat k) = Some lk \<and> (ty = PKTTYPE_NO_CHECK \<or> lk_pkttype lk = ty)")
  case False
  then have "dhd_pktid_map_free False m k ty rsv = Some (m, None, None)"
    using free_refused [OF ok k, of ty False rsv] by (cases "contents m (unat k)") auto
  then show thesis by (rule that) (use ok in simp_all)
next
  case True
  then obtain lk where lk: "contents m (unat k) = Some lk" "ty = PKTTYPE_NO_CHECK \<or> lk_pkttype lk = ty" by blast
  show thesis
  proof (rule that [OF free_some [OF ok lk]])
    let ?u = "m\<lparr>pm_lockers := (pm_lockers m)[unat k := lk\<lparr>lk_state := LOCKER_IS_RSVD, lk_pkt := None, lk_len := 0\<rparr>]\<rparr>"
    let ?g = "give_id m k (lk\<lparr>lk_state := LOCKER_IS_FREE, lk_pkt := None, lk_len := 0\<rparr>)"
    have c: "contents m (unat k) \<noteq> None" using lk by simp
    note u = update_used_ok [OF ok c, of "lk\<lparr>lk_state := LOCKER_IS_RSVD, lk_pkt := None, lk_len := 0\<rparr>"]
    note g = give_id_ok [OF ok c, of "lk\<lparr>lk_state := LOCKER_IS_FREE, lk_pkt := None, lk_len := 0\<rparr>"]
    show "pktid_ok (if rsv then ?u else ?g)" "ids_of (if rsv then ?u else ?g) = ids_of m"
      using u g by simp_all
    show "contents (if rsv then ?u else ?g) i = contents m i" if "i \<noteq> unat k" for i
      using u g that by simp
  qed
qed

lemma run_keeps:
  assumes "pktid_ok m" and "contents m (unat nkey) = Some lk" and "\<forall>op \<in> set ops. op_spares (ids_of m) nkey (lk_pkttype lk) op"
  shows "\<exists>m'. pktid_run False ops m = Some m' \<and> pktid_ok m' \<and> contents m' (unat nkey) = Some lk \<and> ids_of m' = ids_of m"
  using assms
proof (induction ops arbitrary: m)
  case Nil
  then show ?case by simp
next
  case (Cons op ops)
  show ?case
  proof (cases op)
    case (AllocOp pkt pa len dir dmah secdma ty)
    obtain m' k where a: "dhd_pktid_map_alloc False m pkt pa len dir dmah secdma ty = Some (m', k)" "pktid_ok m'"
        "ids_of m' = ids_of m" "\<And>i. i \<in> dom (contents m) \<Longrightarrow> contents m' i = contents m i"
      by (rule alloc_step [OF Cons.prems(1)]) blast
    then have "contents m' (unat nkey) = Some lk" using Cons.prems(2) by (metis domI)
    from Cons.IH [OF a(2) this] show ?thesis using a(1,3) Cons.prems(3) by (simp add: AllocOp)
  next
    case (FreeOp k t rsv)
    then have k: "unat k \<in> ids_of m" "k = nkey \<longrightarrow> t \<noteq> PKTTYPE_NO_CHECK \<and> t \<noteq> lk_pkttype lk" using Cons.prems(3) by auto
    show ?thesis
    proof (cases "k = nkey")
      case True
      then have "dhd_pktid_map_free False m k t rsv = Some (m, None, None)"
        using free_refused [OF Cons.prems(1) k(1), of t False rsv] k(2) Cons.prems(2) by auto
      with Cons.IH [OF Cons.prems(1,2)] show ?thesis using Cons.prems(3) by (simp add: FreeOp)
    next
      case False
      obtain m' r where f: "dhd_pktid_map_free False m k t rsv = Some (m', r)" "pktid_ok m'" "ids_of m' = ids_of m"
          "\<And>i. i \<noteq> unat k \<Longrightarrow> contents m' i = contents m i"
        by (rule free_step [OF Cons.prems(1) k(1)]) blast
      have "unat nkey \<noteq> unat k" using False by (auto simp: word_unat_eq_iff)
      then have "contents m' (unat nkey) = Some lk" using f(4) Cons.prems(2) by simp
      from Cons.IH [OF f(2) this] show ?thesis using f(1,3) Cons.prems(3) by (simp add: FreeOp)
    qed
  qed
qed

section \<open>Properties\<close>

text \<open>
  C33. A map of 1 to 3072 packet ids serves any sequence of allocations and releases of held ids
  without violating an assertion: the ids held are pairwise distinct, between 1 and the size, never
  the invalid id, and the count of available ids is what is not held.
\<close>

theorem pktid_ids_unique:
  assumes "1 \<le> unat num_items" and "unat num_items \<le> 3072"
  shows "\<exists>m. dhd_pktid_map_init dbg True True num_items = Some (Some m) \<and>
     (\<forall>ops. \<exists>m' held. id_client (pktid_alloc_st dbg lk) (pktid_free_st dbg) ops m [] = Some (m', held) \<and>
        distinct held \<and> set held \<subseteq> {1..unat num_items} \<and>
        unat (dhd_pktid_map_avail_cnt m') + length held = unat num_items)"
proof -
  obtain m where m: "dhd_pktid_map_init dbg True True num_items = Some (Some m)" "pktid_ok m" "free_ids m = ids_of m" "pm_items m = num_items"
    using pktid_init_ok [OF assms] by blast
  have rep: "pktid_rep m {1..unat num_items} {}" using m by (auto simp: pktid_rep_def ids_of_def)
  have "\<exists>m' held. id_client (pktid_alloc_st dbg lk) (pktid_free_st dbg) ops m [] = Some (m', held) \<and>
        distinct held \<and> set held \<subseteq> {1..unat num_items} \<and> unat (dhd_pktid_map_avail_cnt m') + length held = unat num_items" for ops
  proof -
    obtain m' held avail where r: "id_client (pktid_alloc_st dbg lk) (pktid_free_st dbg) ops m [] = Some (m', held)"
        "pktid_rep m' avail (set held)" "distinct held" "avail \<union> set held = {1..unat num_items}"
      using pktid.client_safe [OF rep, of "[]" dbg lk ops] by auto
    have ok: "pktid_ok m'" "avail = free_ids m'" using r(2) by (auto simp: pktid_rep_def)
    have "avail \<inter> set held = {}" by (rule pktid.rep_disjoint [OF r(2)])
    moreover have "finite avail" using r(4) by (metis finite_Un finite_atLeastAtMost)
    ultimately have "card avail + length held = unat num_items"
      using card_Un_disjoint [of avail "set held"] r(3,4) by (simp add: distinct_card)
    then show ?thesis using r pktid_okD(7) [OF ok(1)] ok(2) by (auto simp: dhd_pktid_map_avail_cnt_def)
  qed
  then show ?thesis using m(1) by blast
qed

theorem pktid_ids_unique_witness:
  "\<exists>m. dhd_pktid_map_init True True True 8 = Some (Some m) \<and>
     (\<exists>m' held. id_client (pktid_alloc_st True zero_locker) (pktid_free_st True) [Take, Take, Give 0] m [] = Some (m', held) \<and> distinct held)"
  using pktid_ids_unique [of 8 True zero_locker] by (simp del: id_client.simps) blast

text \<open>
  C34. What is saved under a packet id is what comes back, and only for its packet type. After an
  allocation and any history of further allocations, of releases of other ids (in use or not, of any
  type) and of releases of this id with another type: a release with another type (other than
  \<open>PKTTYPE_NO_CHECK\<close>) returns no packet and changes nothing; a release with the type, or without a
  check, returns the packet, the DMA address and handles and the length modulo 65536; and a second
  release of the id, with any type, returns no packet and changes nothing.
\<close>

theorem pktid_roundtrip:
  assumes "pktid_ok m" and "dhd_pktid_map_alloc dbg m pkt pa len dir dmah secdma ty = Some (m1, nkey)" and "nkey \<noteq> 0"
    and "\<forall>op \<in> set ops. op_spares (ids_of m) nkey ty op"
  shows "\<exists>m2 m3. pktid_run False ops m1 = Some m2 \<and>
           (\<forall>t rsv. t \<noteq> ty \<and> t \<noteq> PKTTYPE_NO_CHECK \<longrightarrow> dhd_pktid_map_free False m2 nkey t rsv = Some (m2, None, None)) \<and>
           (\<forall>t \<in> {ty, PKTTYPE_NO_CHECK}.
              dhd_pktid_map_free dbg m2 nkey t False = Some (m3, pkt, Some (pa, ucast (ucast len :: u16), dmah, secdma))) \<and>
           (\<forall>t rsv. dhd_pktid_map_free False m3 nkey t rsv = Some (m3, None, None))"
proof -
  let ?lk = "saved pkt pa len dir dmah secdma ty"
  have ty: "lk_pkttype ?lk = ty" by (simp add: saved_def)
  obtain m' k where a: "dhd_pktid_map_alloc dbg m pkt pa len dir dmah secdma ty = Some (m', k)" "pktid_ok m'" "ids_of m' = ids_of m"
      "k \<noteq> 0 \<Longrightarrow> contents m (unat k) = None \<and> contents m' (unat k) = Some ?lk"
    by (rule alloc_step [OF assms(1)]) blast
  then have m1: "pktid_ok m1" "contents m1 (unat nkey) = Some ?lk" "ids_of m1 = ids_of m" using assms(2,3) by auto
  obtain m2 where m2: "pktid_run False ops m1 = Some m2" "pktid_ok m2" "contents m2 (unat nkey) = Some ?lk" "ids_of m2 = ids_of m"
    using run_keeps [OF m1(1,2), of ops] assms(4) m1(3) ty by auto
  have i2: "unat nkey \<in> ids_of m2" using m2(3) by (simp add: contents_Some)
  have wrong: "dhd_pktid_map_free False m2 nkey t rsv = Some (m2, None, None)" if "t \<noteq> ty" "t \<noteq> PKTTYPE_NO_CHECK" for t rsv
    using free_refused [OF m2(2) i2, of t False rsv] m2(3) ty that by auto
  let ?m3 = "give_id m2 nkey (?lk\<lparr>lk_state := LOCKER_IS_FREE, lk_pkt := None, lk_len := 0\<rparr>)"
  have "contents m2 (unat nkey) \<noteq> None" using m2(3) by simp
  note g = give_id_ok [OF m2(2) this, of "?lk\<lparr>lk_state := LOCKER_IS_FREE, lk_pkt := None, lk_len := 0\<rparr>"]
  have "unat nkey \<in> ids_of ?m3" using i2 g(5) by simp
  then have again: "dhd_pktid_map_free False ?m3 nkey t rsv = Some (?m3, None, None)" for t rsv
    using free_refused [of ?m3 nkey t False rsv] g by simp
  have "dhd_pktid_map_free dbg m2 nkey t False = Some (?m3, pkt, Some (pa, ucast (ucast len :: u16), dmah, secdma))"
    if "t = ty \<or> t = PKTTYPE_NO_CHECK" for t
    using free_some [OF m2(2,3), of t dbg False] that by (auto simp: saved_def)
  with m2(1) wrong again show ?thesis by blast
qed

theorem pktid_roundtrip_witness:
  "\<exists>m m1 m2 m3 nkey. dhd_pktid_map_init True True True 8 = Some (Some m) \<and>
     dhd_pktid_map_alloc True m (Some 100) 4096 1500 1 None None PKTTYPE_DATA_TX = Some (m1, nkey) \<and>
     pktid_run False [AllocOp (Some 200) 8192 70000 1 None None PKTTYPE_DATA_RX, FreeOp nkey PKTTYPE_DATA_RX False] m1 = Some m2 \<and>
     dhd_pktid_map_free False m2 nkey PKTTYPE_EVENT_RX False = Some (m2, None, None) \<and>
     dhd_pktid_map_free True m2 nkey PKTTYPE_DATA_TX False = Some (m3, Some 100, Some (4096, 1500, None, None))"
proof -
  obtain m where m: "dhd_pktid_map_init True True True 8 = Some (Some m)" "pktid_ok m" "free_ids m = ids_of m" "pm_items m = 8"
    using pktid_init_ok [of 8 True] by auto
  have ne: "free_ids m \<noteq> {}" using m(3,4) by (simp add: ids_of_def)
  obtain m1 nkey where a: "dhd_pktid_map_alloc True m (Some 100) 4096 1500 1 None None PKTTYPE_DATA_TX = Some (m1, nkey)" "nkey \<noteq> 0"
      "unat nkey \<in> ids_of m"
    using alloc_some [OF m(2) ne] reserve_some(2) [OF m(2) ne] stack_nonempty(2) [OF m(2) ne] free_ids_subset by blast
  from pktid_roundtrip [OF m(2) a(1,2), of "[AllocOp (Some 200) 8192 70000 1 None None PKTTYPE_DATA_RX, FreeOp nkey PKTTYPE_DATA_RX False]"] a(3)
  obtain m2 m3 where r: "pktid_run False [AllocOp (Some 200) 8192 70000 1 None None PKTTYPE_DATA_RX, FreeOp nkey PKTTYPE_DATA_RX False] m1 = Some m2"
      "dhd_pktid_map_free False m2 nkey PKTTYPE_EVENT_RX False = Some (m2, None, None)"
      "dhd_pktid_map_free True m2 nkey PKTTYPE_DATA_TX False = Some (m3, Some 100, Some (4096, 1500, None, None))"
    by auto
  then show ?thesis using m(1) a(1) by blast
qed

text \<open>
  Packet id 0 in a completion message corrupts the map when assertions do not stop the code: the
  reserved locker is busy and its type is \<open>PKTTYPE_DATA_TX\<close> (0), so both checks of \<open>dhd_pktid_map_free\<close>
  accept it. With the full 3072 ids available the stack is written out of bounds; otherwise id 0 is
  pushed as if it were free, and the next allocation returns it, which the caller must read as an
  exhausted pool, although every id is available.
\<close>

theorem pktid_zero_corrupts:
  assumes "1 \<le> unat num_items" and "unat num_items \<le> 3072" and "dhd_pktid_map_init False True True num_items = Some (Some m)"
  shows "if unat num_items = 3072 then dhd_pktid_map_free False m 0 PKTTYPE_DATA_TX False = None
         else \<exists>m' m''. dhd_pktid_map_free False m 0 PKTTYPE_DATA_TX False = Some (m', None, Some (0, 0, None, None)) \<and>
                unat (dhd_pktid_map_avail_cnt m') = Suc (unat num_items) \<and>
                dhd_pktid_map_alloc False m' pkt pa len dir dmah secdma ty = Some (m'', 0) \<and>
                lk_pkt (pm_lockers m'' ! 0) = pkt \<and> free_ids m'' = ids_of m"
proof -
  obtain mi where i: "dhd_pktid_map_init False True True num_items = Some (Some mi)" "pktid_ok mi" "free_ids mi = ids_of mi"
      "pm_items mi = num_items" "pm_avail mi = num_items" "pm_lockers mi ! 0 = zero_locker\<lparr>lk_state := LOCKER_IS_BUSY\<rparr>"
    using pktid_init_ok [OF assms(1,2), of False] by blast
  have "mi = m" using i(1) unfolding assms(3) by simp
  note m = i(2-6) [unfolded this]
  note d = pktid_okD [OF m(1)]
  have inc: "unat (num_items + 1) = Suc (unat num_items)" by (rule unat_inc [of _ 3073]) (use assms(2) in simp_all)
  show ?thesis
  proof (cases "unat num_items = 3072")
    case True
    then have "unat (pm_avail m + 1) = length (pm_keys m)" using d(2) m(4) inc by simp
    then show ?thesis using True m(5) d(3) by (simp add: dhd_pktid_map_free_def zero_locker_def Let_def arr_set_def)
  next
    case False
    then have lt: "Suc (unat num_items) < 3073" using assms(2) by simp
    let ?l0 = "zero_locker\<lparr>lk_pkt := None, lk_len := 0\<rparr>"
    define m' where "m' = m\<lparr>pm_avail := num_items + 1, pm_keys := (pm_keys m)[Suc (unat num_items) := 0],
       pm_lockers := (pm_lockers m)[0 := ?l0]\<rparr>"
    have f: "dhd_pktid_map_free False m 0 PKTTYPE_DATA_TX False = Some (m', None, Some (0, 0, None, None))"
      using m(4,5) d(2,3) lt inc by (simp add: dhd_pktid_map_free_def zero_locker_def Let_def m'_def)
    define m'' where "m'' = m'\<lparr>pm_avail := num_items + 1 - 1, pm_lockers := (pm_lockers m')[0 := ?l0\<lparr>lk_pkt := pkt, lk_len := 0, lk_state := LOCKER_IS_BUSY\<rparr>]\<rparr>"
    have nz: "num_items + 1 \<noteq> 0" using inc by (intro notI) simp
    have "dhd_pktid_map_alloc False m' pkt pa len dir dmah secdma ty = Some (m'', 0)"
      using d(2,3) lt inc nz by (simp add: dhd_pktid_map_alloc_def dhd_pktid_map_reserve_def m'_def m''_def)
    moreover have "lk_pkt (pm_lockers m'' ! 0) = pkt" using d(3) by (simp add: m''_def m'_def)
    moreover have "free_ids m'' = ids_of m"
    proof -
      have "pm_lockers m'' ! k = pm_lockers m ! k" if "1 \<le> k" for k using that by (simp add: m''_def m'_def)
      moreover have "ids_of m'' = ids_of m" by (simp add: ids_of_def m''_def m'_def)
      ultimately have "free_ids m'' = free_ids m" unfolding free_ids_def ids_of_def by auto
      then show ?thesis using m(2) by simp
    qed
    moreover have "unat (dhd_pktid_map_avail_cnt m') = Suc (unat num_items)"
      using inc by (simp add: dhd_pktid_map_avail_cnt_def m'_def)
    ultimately show ?thesis unfolding if_not_P [OF False] using f by (intro exI [of _ m'] exI [of _ m'']) blast
  qed
qed

theorem pktid_zero_corrupts_witness:
  "\<exists>m m' m''. dhd_pktid_map_init False True True 8 = Some (Some m) \<and>
     dhd_pktid_map_free False m 0 PKTTYPE_DATA_TX False = Some (m', None, Some (0, 0, None, None)) \<and>
     dhd_pktid_map_alloc False m' (Some 100) 4096 1500 1 None None PKTTYPE_DATA_TX = Some (m'', 0)"
proof -
  obtain m where m: "dhd_pktid_map_init False True True 8 = Some (Some m)" using pktid_init_ok [of 8 False] by auto
  from pktid_zero_corrupts [OF _ _ m, of "Some 100" 4096 1500 1 None None PKTTYPE_DATA_TX] m show ?thesis by auto
qed

end
