(* ===== verification/Msgbuf_Rx_Props.thy ===== *)
theory Msgbuf_Rx_Props
  imports Msgbuf_Rx Msgbuf_Ring_Props Pktid_Props "HOL-Library.Multiset"
begin

text \<open>
  Properties of the receive path: posting buffers adds exactly the posted messages to the ring and
  their lockers to the packet-id map and loses no packet; a completion delivers the packet that was
  posted under its id, once, and any other id of the map is ignored.
\<close>

section \<open>Audited maps\<close>

definition audited :: "dhd_pktid_map \<Rightarrow> bool" where
  "audited m \<longleftrightarrow> (\<exists>a. pm_audit m = Some a \<and> mwb_rep a (free_ids m) (insert 0 (ids_of m - free_ids m)))"

definition map_ok :: "dhd_pktid_map \<Rightarrow> bool" where
  "map_ok m \<longleftrightarrow> pktid_ok m \<and> audited m"

lemma id_not_special:
  fixes k :: u32
  assumes "pktid_ok m" and "unat k \<in> ids_of m"
  shows "k \<noteq> 0xFFFE" "k \<noteq> 0xFACE" "k \<noteq> 0" "\<not> 3072 < k"
proof -
  have b: "1 \<le> unat k" "unat k \<le> 3072" using assms pktid_okD(1) [OF assms(1)] by (auto simp: ids_of_def)
  then show "k \<noteq> 0xFFFE" "k \<noteq> 0xFACE" "k \<noteq> 0" by auto
  show "\<not> 3072 < k" using b(2) by (simp add: word_less_nat_alt)
qed

text \<open>
  While a completion is handled its id is already cleared in the audit and still in use: \<open>X\<close> are the ids
  in that state.
\<close>

definition audited_but :: "nat set \<Rightarrow> dhd_pktid_map \<Rightarrow> bool" where
  "audited_but X m \<longleftrightarrow> (\<exists>a. pm_audit m = Some a \<and> mwb_rep a (free_ids m \<union> X) (insert 0 (ids_of m - free_ids m - X)))"

definition map_ok_but :: "nat set \<Rightarrow> dhd_pktid_map \<Rightarrow> bool" where
  "map_ok_but X m \<longleftrightarrow> pktid_ok m \<and> X \<subseteq> ids_of m - free_ids m \<and> audited_but X m"

lemma map_ok_but_empty [simp]: "map_ok_but {} m = map_ok m"
  by (simp add: map_ok_but_def map_ok_def audited_but_def audited_def)

lemma isfree_but:
  assumes "mwb_rep a (free_ids m \<union> X) (insert 0 (ids_of m - free_ids m - X))" and "unat k \<in> ids_of m"
  shows "bcm_mwbmap_isfree a k = Some (unat k \<in> free_ids m \<union> X)"
proof (rule bcm_mwbmap_isfree_rep [OF assms(1)])
  have "unat k \<in> (free_ids m \<union> X) \<union> insert 0 (ids_of m - free_ids m - X)" using assms(2) by blast
  then show "unat k < unat (mwb_total a)" using mwb_repD(3) [OF assms(1)] by auto
qed

lemma isfree_id:
  assumes "pktid_ok m" and "mwb_rep a (free_ids m) (insert 0 (ids_of m - free_ids m))" and "unat k \<in> ids_of m"
  shows "bcm_mwbmap_isfree a k = Some (unat k \<in> free_ids m)"
  using isfree_but [of a m "{}" k] assms(2,3) by simp

lemma audit_some:
  assumes ok: "pktid_ok m" and a: "pm_audit m = Some a" and k: "unat k \<in> ids_of m" and f: "bcm_mwbmap_isfree a k = Some fr"
  shows "audit dbg m k DHD_DUPLICATE_ALLOC =
           (if fr then map_option (\<lambda>a. m\<lparr>pm_audit := Some a\<rparr>) (bcm_mwbmap_force a k) else if dbg then None else Some m)"
    and "audit dbg m k DHD_DUPLICATE_FREE =
           (if \<not> fr then map_option (\<lambda>a. m\<lparr>pm_audit := Some a\<rparr>) (bcm_mwbmap_free a k) else if dbg then None else Some m)"
  using a f id_not_special [OF ok k]
  by (auto simp: audit_def dhd_pktid_audit_def audit_error_def map_option_case split: option.splits)

text \<open>An allocated id is recorded, and one in use is cleared.\<close>

lemma alloc_audit_but:
  assumes ok: "map_ok_but X m" and ne: "free_ids m \<noteq> {}" and lk: "lk_state lk \<noteq> LOCKER_IS_FREE"
  obtains m' where "audit dbg (take_id m (unat (top_id m)) lk) (top_id m) DHD_DUPLICATE_ALLOC = Some m'" and "map_ok_but X m'"
    and "contents m' = (contents m)(unat (top_id m) \<mapsto> lk)" and "ids_of m' = ids_of m"
proof -
  let ?k = "unat (top_id m)" and ?m = "take_id m (unat (top_id m)) lk"
  have pk: "pktid_ok m" and X: "X \<subseteq> ids_of m - free_ids m" using ok by (simp_all add: map_ok_but_def)
  obtain a where a: "pm_audit m = Some a" "mwb_rep a (free_ids m \<union> X) (insert 0 (ids_of m - free_ids m - X))"
    using ok by (auto simp: map_ok_but_def audited_but_def)
  note t = take_id_ok [OF pk ne lk]
  have kf: "?k \<in> free_ids m" by (rule stack_nonempty(2) [OF pk ne])
  then have ki: "?k \<in> ids_of m" "?k \<in> free_ids m \<union> X" "?k \<notin> X" using free_ids_subset X by blast+
  have am: "pm_audit ?m = Some a" using a(1) by (simp add: take_id_def)
  have fo: "bcm_mwbmap_force a (top_id m) = Some (mwb_take a ?k)" by (rule bcm_mwbmap_force_rep [OF a(2) ki(2)])
  have "audit dbg ?m (top_id m) DHD_DUPLICATE_ALLOC = Some (?m\<lparr>pm_audit := Some (mwb_take a ?k)\<rparr>)"
    using audit_some(1) [OF t(1) am, of "top_id m" True dbg] isfree_but [OF a(2) ki(1)] kf ki t(4) fo by simp
  moreover have sets: "insert ?k (insert 0 (ids_of m - free_ids m - X)) = insert 0 (ids_of m - (free_ids m - {?k}) - X)"
      "free_ids m \<union> X - {?k} = (free_ids m - {?k}) \<union> X" using ki kf by blast+
  then have "audited_but X (?m\<lparr>pm_audit := Some (mwb_take a ?k)\<rparr>)"
    using mwb_take_rep [OF a(2) ki(2)] t(2,4) by (simp add: audited_but_def)
  then have "map_ok_but X (?m\<lparr>pm_audit := Some (mwb_take a ?k)\<rparr>)" using t X ki(3) by (auto simp: map_ok_but_def)
  ultimately show thesis by (intro that [of "?m\<lparr>pm_audit := Some (mwb_take a ?k)\<rparr>"]) (use t in simp_all)
qed

lemma alloc_audit:
  assumes ok: "map_ok m" and ne: "free_ids m \<noteq> {}" and lk: "lk_state lk \<noteq> LOCKER_IS_FREE"
  obtains m' where "audit dbg (take_id m (unat (top_id m)) lk) (top_id m) DHD_DUPLICATE_ALLOC = Some m'" and "map_ok m'"
    and "contents m' = (contents m)(unat (top_id m) \<mapsto> lk)" and "ids_of m' = ids_of m"
  by (rule alloc_audit_but [of "{}", OF _ ne lk]) (use ok that in simp_all)

text \<open>Clearing the audit of an id in use.\<close>

lemma clear_audit:
  assumes ok: "map_ok m" and k: "contents m (unat k) = Some lk"
  obtains m' where "audit dbg m k DHD_DUPLICATE_FREE = Some m'" and "map_ok_but {unat k} m'" and "contents m' = contents m" and "ids_of m' = ids_of m"
proof -
  have pk: "pktid_ok m" using ok by (simp add: map_ok_def)
  obtain a where a: "pm_audit m = Some a" "mwb_rep a (free_ids m) (insert 0 (ids_of m - free_ids m))"
    using ok by (auto simp: map_ok_def audited_def)
  have ki: "unat k \<in> ids_of m" "unat k \<notin> free_ids m" using k by (auto simp: contents_Some free_ids_def)
  then have ku: "unat k \<in> insert 0 (ids_of m - free_ids m)" "unat k \<noteq> 0" by (auto simp: ids_of_def)
  let ?m = "m\<lparr>pm_audit := Some (mwb_give a (unat k))\<rparr>"
  have "audit dbg m k DHD_DUPLICATE_FREE = Some ?m"
    using audit_some(2) [OF pk a(1) ki(1), of False dbg] isfree_id [OF pk a(2) ki(1)] ki(2) bcm_mwbmap_free_rep [OF a(2) ku(1)] by simp
  moreover have "insert 0 (ids_of m - free_ids m) - {unat k} = insert 0 (ids_of m - free_ids m - {unat k})"
      "insert (unat k) (free_ids m) = free_ids m \<union> {unat k}" using ku(2) by blast+
  then have "map_ok_but {unat k} ?m" using pk ki mwb_give_rep [OF a(2) ku(1)] by (simp add: map_ok_but_def audited_but_def)
  ultimately show thesis by (rule that) simp_all
qed

text \<open>Giving back an id whose audit is cleared.\<close>

lemma give_id_but:
  assumes ok: "map_ok_but {unat k} m" and c: "contents m (unat k) \<noteq> None" and lk: "lk_state lk = LOCKER_IS_FREE"
  shows "map_ok (give_id m k lk)"
proof -
  have pk: "pktid_ok m" and ab: "audited_but {unat k} m" using ok by (simp_all add: map_ok_but_def)
  note g = give_id_ok [OF pk c lk]
  have "ids_of m - free_ids m - {unat k} = ids_of m - insert (unat k) (free_ids m)" "free_ids m \<union> {unat k} = insert (unat k) (free_ids m)" by blast+
  then show ?thesis using ab g by (simp add: map_ok_def audited_def audited_but_def give_id_def [of m])
qed

lemma free_audit:
  assumes ok: "map_ok m" and k: "contents m (unat k) = Some lk" and lk: "lk_state lk' = LOCKER_IS_FREE"
  obtains m' where "audit dbg m k DHD_DUPLICATE_FREE = Some m'" and "pktid_ok m'" and "contents m' = contents m"
    and "map_ok (give_id m' k lk')" and "ids_of m' = ids_of m"
proof -
  obtain m' where m: "audit dbg m k DHD_DUPLICATE_FREE = Some m'" "map_ok_but {unat k} m'" "contents m' = contents m" "ids_of m' = ids_of m"
    by (rule clear_audit [OF ok k])
  have "map_ok (give_id m' k lk')" by (rule give_id_but [OF m(2) _ lk]) (use m(3) k in simp)
  then show thesis using that m by (simp add: map_ok_but_def)
qed

section \<open>The posting loop\<close>

lemma write_slots_Cons:
  "slot + length ms < length slots \<Longrightarrow> write_slots (slots[slot := m]) (Suc slot) ms = write_slots slots slot (m # ms)"
  by (simp add: write_slots_def take_Suc_conv_app_nth upd_conv_take_nth_drop add.commute)

lemma length_write_slots: "w + length ms \<le> length slots \<Longrightarrow> length (write_slots slots w ms) = length slots"
  by (simp add: write_slots_def)

definition freed_of :: "(pkt \<times> dmaaddr) option list \<Rightarrow> pkt list" where
  "freed_of rest = (case rest of Some (p, pa) # _ \<Rightarrow> [p] | _ \<Rightarrow> [])"

text \<open>The buffer of such a packet is unmapped; one at address 0 with the length before the metadata is cut off.\<close>

definition unmap_of :: "u16 \<Rightarrow> pkt \<times> dmaaddr \<Rightarrow> dmaaddr \<times> u32" where
  "unmap_of off b = (snd b, if snd b = 0 then 2048 else 2048 - ucast off)"

definition unmaps_of :: "u16 \<Rightarrow> (pkt \<times> dmaaddr) option list \<Rightarrow> (dmaaddr \<times> u32) list" where
  "unmaps_of off rest = (case rest of Some b # _ \<Rightarrow> [unmap_of off b] | _ \<Rightarrow> [])"

text \<open>
  How many buffers are posted, given \<open>n\<close> slots and \<open>c\<close> free packet ids: the packets at the front of the
  supply, up to the first the system does not have or cannot map.
\<close>

definition rx_usable :: "nat \<Rightarrow> nat \<Rightarrow> (pkt \<times> dmaaddr) option list \<Rightarrow> nat" where
  "rx_usable n c bs = length (takeWhile (\<lambda>b. case b of None \<Rightarrow> False | Some (p, pa) \<Rightarrow> pa \<noteq> 0) (take (min n c) bs))"

lemma rx_usable_simps [simp]:
  "rx_usable 0 c bs = 0" "rx_usable n 0 bs = 0" "rx_usable n c [] = 0" "rx_usable n c (None # bs) = 0" "rx_usable n c (Some (p, 0) # bs) = 0"
  "pa \<noteq> 0 \<Longrightarrow> rx_usable (Suc n) (Suc c) (Some (p, pa) # bs) = Suc (rx_usable n c bs)"
  by (simp_all add: rx_usable_def take_Cons' min_def)

text \<open>The messages for the buffers under the given ids, the epochs counting up from the sequence number.\<close>

fun rx_msgs :: "dhd_prot \<Rightarrow> u32 \<Rightarrow> u32 list \<Rightarrow> (pkt \<times> dmaaddr) list \<Rightarrow> host_rxbuf_post list" where
  "rx_msgs s sq (k # ks) (b # bs) =
     rxpost_msg s (ucast (sq mod 253)) k (2048 - ucast (rx_metadata_offset s)) (snd b) # rx_msgs s (sq + 1) ks bs"
| "rx_msgs s sq _ _ = []"

lemma rx_msgs_cong: "rx_metadata_offset s1 = rx_metadata_offset s \<Longrightarrow> rx_msgs s1 sq ks bs = rx_msgs s sq ks bs"
  by (induction s sq ks bs rule: rx_msgs.induct) (simp_all add: rxpost_msg_def Let_def)

lemma length_rx_msgs [simp]: "length ks = length bs \<Longrightarrow> length (rx_msgs s sq ks bs) = length bs"
  by (induction ks bs arbitrary: sq rule: list_induct2) simp_all

lemma free_ids_contents: "free_ids m = ids_of m - dom (contents m)"
  using dom_contents [of m] free_ids_subset [of m] by blast

lemma finite_free_ids [simp]: "finite (free_ids m)"
  by (rule finite_subset [OF free_ids_subset]) (simp add: ids_of_def)

definition rx_locker :: "u16 \<Rightarrow> pkt \<times> dmaaddr \<Rightarrow> dhd_pktid_item" where
  "rx_locker off b = saved (Some (fst b)) (snd b) (2048 - ucast off) 2 None None PKTTYPE_DATA_RX"

text \<open>What the loop leaves alone.\<close>

definition rx_frame_of :: "dhd_prot \<Rightarrow> dhd_prot \<Rightarrow> bool" where
  "rx_frame_of s s' \<longleftrightarrow> rxbufpost s' = rxbufpost s \<and> max_rxbufpost s' = max_rxbufpost s \<and> rdev s' = rdev s \<and>
     rx_metadata_offset s' = rx_metadata_offset s \<and> rx_dataoffset s' = rx_dataoffset s \<and> rx_frames s' = rx_frames s \<and>
     ids_of (pktid_map s') = ids_of (pktid_map s) \<and>
     (\<exists>sq. h2dring_rxp_subn s' = (h2dring_rxp_subn s)\<lparr>mr_seqnum := sq\<rparr>)"

lemma rx_frame_of_trans: "rx_frame_of s s1 \<Longrightarrow> rx_frame_of s1 s' \<Longrightarrow> rx_frame_of s s'"
  by (auto simp: rx_frame_of_def)

text \<open>
  \<open>rx_posted s s' slot bufs ids\<close>: from \<open>s\<close> to \<open>s'\<close> the messages for the buffers \<open>bufs\<close> have been written from
  \<open>slot\<close> on, under the \<open>ids\<close>, which were not in use, and their lockers filled.
\<close>

definition rx_posted :: "dhd_prot \<Rightarrow> dhd_prot \<Rightarrow> nat \<Rightarrow> (pkt \<times> dmaaddr) list \<Rightarrow> u32 list \<Rightarrow> bool" where
  "rx_posted s s' slot bufs ids \<longleftrightarrow>
     length ids = length bufs \<and>
     rxp_slots s' = write_slots (rxp_slots s) slot (rx_msgs s (mr_seqnum (h2dring_rxp_subn s)) ids bufs) \<and>
     distinct (map unat ids) \<and> (\<forall>k \<in> set ids. contents (pktid_map s) (unat k) = None) \<and>
     contents (pktid_map s') = (contents (pktid_map s))(map unat ids [\<mapsto>] map (rx_locker (rx_metadata_offset s)) bufs)"

lemma rx_posted_Nil [simp]: "rxp_slots s' = rxp_slots s \<Longrightarrow> contents (pktid_map s') = contents (pktid_map s) \<Longrightarrow> rx_posted s s' slot [] []"
  by (simp add: rx_posted_def write_slots_def)

text \<open>Stopping early: the packet taken is freed, if there was one.\<close>

lemma unmap_free_live:
  "p \<notin> set (pfreed (pstore s)) \<Longrightarrow> unmap_free s pa len p =
     Some (s\<lparr>pstore := (pstore s)\<lparr>pfreed := p # pfreed (pstore s)\<rparr>, unmapped := unmapped s @ [(pa, len)]\<rparr>)"
  by (simp add: unmap_free_def)

text \<open>What the loop does with \<open>n\<close> slots left.\<close>

definition rx_loop_spec :: "bool \<Rightarrow> nat \<Rightarrow> nat \<Rightarrow> nat \<Rightarrow> dhd_prot \<Rightarrow> bool" where
  "rx_loop_spec dbg n i slot s \<longleftrightarrow>
     (\<exists>s' bufs ids rest. rxpost_loop dbg n i slot s = Some (s', i + length bufs) \<and> length bufs \<le> n \<and>
       length bufs = rx_usable n (card (free_ids (pktid_map s))) (pkt_supply s) \<and>
       unmapped s' = unmapped s @ (if length bufs < n then unmaps_of (rx_metadata_offset s) rest else []) \<and>
       pkt_supply s = map Some bufs @ rest \<and> pkt_supply s' = (if length bufs < n then tl rest else rest) \<and>
       pfreed (pstore s') = (if length bufs < n then freed_of rest else []) @ pfreed (pstore s) \<and>
       map_ok (pktid_map s') \<and> rx_frame_of s s' \<and> rx_posted s s' slot bufs ids)"

lemma rx_loop_stop:
  assumes "rxpost_loop dbg (Suc n) i slot s = Some (s', i)" and "pkt_supply s' = tl (pkt_supply s)"
    and "pfreed (pstore s') = freed_of (pkt_supply s) @ pfreed (pstore s)" and "map_ok (pktid_map s')" and "rx_frame_of s s'"
    and "rxp_slots s' = rxp_slots s" and "contents (pktid_map s') = contents (pktid_map s)"
    and "rx_usable (Suc n) (card (free_ids (pktid_map s))) (pkt_supply s) = 0"
    and "unmapped s' = unmapped s @ unmaps_of (rx_metadata_offset s) (pkt_supply s)"
  shows "rx_loop_spec dbg (Suc n) i slot s"
  unfolding rx_loop_spec_def
  by (intro exI [of _ s'] exI [of _ "[] :: (pkt \<times> dmaaddr) list"] exI [of _ "[] :: u32 list"] exI [of _ "pkt_supply s"])
    (use assms in simp)

lemma rx_loop_step:
  fixes k :: u32
  assumes step: "rxpost_loop dbg (Suc n) i slot s = rxpost_loop dbg n (Suc i) (Suc slot) s1"
    and rest: "rx_loop_spec dbg n (Suc i) (Suc slot) s1"
    and sup: "pkt_supply s = Some b # pkt_supply s1" and pa: "snd b \<noteq> 0"
    and same: "pstore s1 = pstore s" "unmapped s1 = unmapped s" and frame: "rx_frame_of s s1"
    and slots: "rxp_slots s1 = (rxp_slots s)[slot := rxpost_msg s (ucast (mr_seqnum (h2dring_rxp_subn s) mod 253)) k
        (2048 - ucast (rx_metadata_offset s)) (snd b)]" "slot + Suc n \<le> length (rxp_slots s)"
    and sq: "mr_seqnum (h2dring_rxp_subn s1) = mr_seqnum (h2dring_rxp_subn s) + 1"
    and new: "contents (pktid_map s) (unat k) = None" "unat k \<in> ids_of (pktid_map s)"
      "contents (pktid_map s1) = (contents (pktid_map s))(unat k \<mapsto> rx_locker (rx_metadata_offset s) b)"
  shows "rx_loop_spec dbg (Suc n) i slot s"
proof -
  obtain s' bufs ids rest where r: "rxpost_loop dbg n (Suc i) (Suc slot) s1 = Some (s', Suc i + length bufs)" "length bufs \<le> n"
      "pkt_supply s1 = map Some bufs @ rest" "pkt_supply s' = (if length bufs < n then tl rest else rest)"
      "pfreed (pstore s') = (if length bufs < n then freed_of rest else []) @ pfreed (pstore s1)"
      "map_ok (pktid_map s')" "rx_frame_of s1 s'" "rx_posted s1 s' (Suc slot) bufs ids"
      "length bufs = rx_usable n (card (free_ids (pktid_map s1))) (pkt_supply s1)"
      "unmapped s' = unmapped s1 @ (if length bufs < n then unmaps_of (rx_metadata_offset s1) rest else [])"
    using rest unfolding rx_loop_spec_def by blast
  have off: "rx_metadata_offset s1 = rx_metadata_offset s" and idsof: "ids_of (pktid_map s1) = ids_of (pktid_map s)"
    using frame by (simp_all add: rx_frame_of_def)
  let ?sq = "mr_seqnum (h2dring_rxp_subn s)"
  have p: "length ids = length bufs" "rxp_slots s' = write_slots (rxp_slots s1) (Suc slot) (rx_msgs s (?sq + 1) ids bufs)"
      "distinct (map unat ids)" "\<forall>x \<in> set ids. contents (pktid_map s1) (unat x) = None"
      "contents (pktid_map s') = (contents (pktid_map s1))(map unat ids [\<mapsto>] map (rx_locker (rx_metadata_offset s)) bufs)"
    using r(8) off rx_msgs_cong [OF off] sq by (simp_all add: rx_posted_def)
  have "free_ids (pktid_map s1) = free_ids (pktid_map s) - {unat k}" "unat k \<in> free_ids (pktid_map s)"
    using new idsof by (auto simp: free_ids_contents)
  then have "card (free_ids (pktid_map s)) = Suc (card (free_ids (pktid_map s1)))" by (metis card_Suc_Diff1 finite_free_ids)
  moreover obtain q a where b: "b = (q, a)" by (cases b)
  ultimately have use: "length (b # bufs) = rx_usable (Suc n) (card (free_ids (pktid_map s))) (pkt_supply s)"
    using r(9) sup pa by simp
  have fresh: "unat x \<noteq> unat k \<and> contents (pktid_map s) (unat x) = None" if "x \<in> set ids" for x
    using p(4) that unfolding new(3) by (auto split: if_splits)
  have "rx_posted s s' slot (b # bufs) (k # ids)"
    unfolding rx_posted_def
  proof (intro conjI)
    show "length (k # ids) = length (b # bufs)" using p(1) by simp
    show "rxp_slots s' = write_slots (rxp_slots s) slot (rx_msgs s ?sq (k # ids) (b # bufs))"
      using p(1,2) slots r(2) by (simp add: write_slots_Cons)
    have "unat k \<notin> set (map unat ids)" unfolding set_map using fresh by (metis imageE)
    then show "distinct (map unat (k # ids))" using p(3) by simp
    show "\<forall>x \<in> set (k # ids). contents (pktid_map s) (unat x) = None" using new(1) fresh by auto
    show "contents (pktid_map s') = (contents (pktid_map s))
        (map unat (k # ids) [\<mapsto>] map (rx_locker (rx_metadata_offset s)) (b # bufs))"
      using p(5) new(3) by simp
  qed
  then show ?thesis
    unfolding rx_loop_spec_def step r(1)
  proof (intro exI [of _ s'] exI [of _ "b # bufs"] exI [of _ "k # ids"] exI [of _ rest] conjI)
    show "rx_frame_of s s'" by (rule rx_frame_of_trans [OF frame r(7)])
    show "length (b # bufs) = rx_usable (Suc n) (card (free_ids (pktid_map s))) (pkt_supply s)" by (rule use)
  qed (use r(2-6,10) sup same off in simp_all)
qed

lemma rxpost_loop_result:
  assumes "map_ok (pktid_map s)" and "slot + n \<le> length (rxp_slots s)"
    and "\<forall>p pa. Some (p, pa) \<in> set (pkt_supply s) \<longrightarrow> p \<notin> set (pfreed (pstore s)) \<and> (dbg \<longrightarrow> pa \<noteq> 0)"
  shows "rx_loop_spec dbg n i slot s"
  using assms
proof (induction n arbitrary: i slot s)
  case 0
  show ?case
    unfolding rx_loop_spec_def
    by (intro exI [of _ s] exI [of _ "[] :: (pkt \<times> dmaaddr) list"] exI [of _ "[] :: u32 list"] exI [of _ "pkt_supply s"])
      (use 0 in \<open>simp add: rx_frame_of_def exI [of _ "mr_seqnum (h2dring_rxp_subn s)"]\<close>)
next
  case (Suc n)
  let ?sq = "mr_seqnum (h2dring_rxp_subn s)"
  have ok: "map_ok (pktid_map s)" and pk: "pktid_ok (pktid_map s)" using Suc.prems(1) by (simp_all add: map_ok_def)
  have refl: "\<exists>sq. h2dring_rxp_subn s = (h2dring_rxp_subn s)\<lparr>mr_seqnum := sq\<rparr>" by (rule exI [of _ ?sq]) simp
  consider (none) "pkt_supply s = []" | (null) bs where "pkt_supply s = None # bs"
    | (zero) p bs where "pkt_supply s = Some (p, 0) # bs" | (buf) p pa bs where "pkt_supply s = Some (p, pa) # bs" "pa \<noteq> 0"
    by (metis list.exhaust option.exhaust surj_pair)
  then show ?case
  proof cases
    case none
    then show ?thesis
      by (intro rx_loop_stop [of dbg n i slot s "s\<lparr>rx_pktgetfail := rx_pktgetfail s + 1\<rparr>"])
        (use ok refl in \<open>simp_all add: PKTGET_def freed_of_def unmaps_of_def rx_frame_of_def\<close>)
  next
    case (null bs)
    then show ?thesis
      by (intro rx_loop_stop [of dbg n i slot s "s\<lparr>pkt_supply := bs, rx_pktgetfail := rx_pktgetfail s + 1\<rparr>"])
        (use ok refl in \<open>simp_all add: PKTGET_def freed_of_def unmaps_of_def rx_frame_of_def\<close>)
  next
    case (zero p bs)
    then have "p \<notin> set (pfreed (pstore s))" "\<not> dbg" using Suc.prems(3) by auto
    then show ?thesis
      by (intro rx_loop_stop [of dbg n i slot s "s\<lparr>pkt_supply := bs, pstore := (pstore s)\<lparr>pfreed := p # pfreed (pstore s)\<rparr>,
            unmapped := unmapped s @ [(0, 2048)]\<rparr>"])
        (use zero ok refl in \<open>simp_all add: PKTGET_def freed_of_def unmaps_of_def unmap_of_def rx_frame_of_def unmap_free_live\<close>)
  next
    case (buf p pa bs)
    let ?len = "2048 - ucast (rx_metadata_offset s) :: u32"
    let ?s = "s\<lparr>pkt_supply := bs, h2dring_rxp_subn := (h2dring_rxp_subn s)\<lparr>mr_seqnum := ?sq + 1\<rparr>\<rparr>"
    have live: "p \<notin> set (pfreed (pstore s))" using Suc.prems(3) buf by auto
    show ?thesis
    proof (cases "free_ids (pktid_map s) = {}")
      case True
      let ?m = "(pktid_map s)\<lparr>pm_failures := pm_failures (pktid_map s) + 1\<rparr>"
      have "audited ?m" using ok by (simp add: map_ok_def audited_def)
      moreover have "dhd_pktid_map_alloc dbg (pktid_map s) (Some p) pa ?len 2 None None PKTTYPE_DATA_RX = Some (?m, 0)"
        using reserve_none [OF pk True] by (simp add: dhd_pktid_map_alloc_def)
      ultimately show ?thesis
        by (intro rx_loop_stop [of dbg n i slot s "?s\<lparr>pktid_map := ?m, pstore := (pstore s)\<lparr>pfreed := p # pfreed (pstore s)\<rparr>,
              unmapped := unmapped s @ [(pa, ?len)]\<rparr>"])
          (use True buf live pk in \<open>simp_all add: PKTGET_def freed_of_def unmaps_of_def unmap_of_def rx_frame_of_def unmap_free_live map_ok_def Let_def\<close>, blast)
    next
      case False
      let ?k = "top_id (pktid_map s)" and ?lk = "rx_locker (rx_metadata_offset s) (p, pa)"
      have lk: "lk_state ?lk \<noteq> LOCKER_IS_FREE" by (simp add: rx_locker_def saved_def)
      obtain m' where a: "audit dbg (take_id (pktid_map s) (unat ?k) ?lk) ?k DHD_DUPLICATE_ALLOC = Some m'" "map_ok m'"
          "contents m' = (contents (pktid_map s))(unat ?k \<mapsto> ?lk)" "ids_of m' = ids_of (pktid_map s)"
        by (rule alloc_audit [OF ok False lk])
      have al: "dhd_pktid_map_alloc dbg (pktid_map s) (Some p) pa ?len 2 None None PKTTYPE_DATA_RX =
          Some (take_id (pktid_map s) (unat ?k) ?lk, ?k)"
        using alloc_some [OF pk False] by (simp add: rx_locker_def)
      have nz: "?k \<noteq> 0" by (rule reserve_some(2) [OF pk False])
      let ?msg = "rxpost_msg ?s (ucast (?sq mod 253)) ?k ?len pa"
      let ?s1 = "?s\<lparr>pktid_map := m', rxp_slots := (rxp_slots s)[slot := ?msg]\<rparr>"
      have sl: "slot < length (rxp_slots s)" using Suc.prems(2) by simp
      have "unat ?k \<in> free_ids (pktid_map s)" by (rule stack_nonempty(2) [OF pk False])
      then have c: "contents (pktid_map s) (unat ?k) = None" "unat ?k \<in> ids_of (pktid_map s)" by (auto simp: contents_def free_ids_def)
      have msg: "?msg = rxpost_msg s (ucast (?sq mod 253)) ?k ?len pa" by (simp add: rxpost_msg_def Let_def)
      have spec: "rx_loop_spec dbg n (Suc i) (Suc slot) ?s1"
        by (rule Suc.IH) (use a(2) Suc.prems(2,3) buf in auto)
      show ?thesis
        by (rule rx_loop_step [of dbg n i slot s ?s1 "(p, pa)" ?k])
          (use spec a al nz sl buf c msg Suc.prems(2) in \<open>auto simp: PKTGET_def Let_def rx_frame_of_def\<close>)
    qed
  qed
qed

section \<open>Posting\<close>

text \<open>The device's index is in range, and the index arrays are long enough.\<close>

definition dev_ok :: "bool \<Rightarrow> ring_dev \<Rightarrow> msgbuf_ring \<Rightarrow> bool" where
  "dev_ok dbg dv r \<longleftrightarrow> (\<exists>r'. fetch_rd dbg dv r = Some r' \<and> mr_rd r' < mr_max_items r) \<and>
     (dma_h2d_ring_upd_support dv \<longrightarrow> rw_index_sz dv \<noteq> 0 \<and>
        unat (DHD_H2D_RING_OFFSET (mr_idx r)) * unat (rw_index_sz dv) + 2 \<le> length (h2d_dma_indx_wr_buf dv))"

lemma dev_ok_cong: "mr_idx r' = mr_idx r \<Longrightarrow> mr_max_items r' = mr_max_items r \<Longrightarrow> dev_ok dbg dv r' = dev_ok dbg dv r"
  by (auto simp: dev_ok_def fetch_rd_def bind_eq_Some_conv)

lemma fetch_rd_result:
  assumes "dev_ok dbg dv r" and "ring_ok r"
  obtains rd where "fetch_rd dbg dv r = Some (r\<lparr>mr_rd := rd\<rparr>)" and "ring_ok (r\<lparr>mr_rd := rd\<rparr>)"
  using assms by (auto simp: dev_ok_def fetch_rd_def ring_ok_def bind_eq_Some_conv)

lemma fetch_rd_frame [simp]:
  "fetch_rd dbg (dv\<lparr>h2d_dma_indx_wr_buf := b\<rparr>) r = fetch_rd dbg dv r"
  "fetch_rd dbg (dv\<lparr>ring_state_w := w\<rparr>) r = fetch_rd dbg dv r"
  "fetch_rd dbg (dv\<lparr>doorbells := db\<rparr>) r = fetch_rd dbg dv r"
  by (simp_all add: fetch_rd_def dhd_prot_dma_indx_get_def)

text \<open>The write index the device sees, and what announcing changes.\<close>

definition seen_wr :: "ring_dev \<Rightarrow> msgbuf_ring \<Rightarrow> u16 option" where
  "seen_wr dv r =
     (if dma_h2d_ring_upd_support dv
      then ltoh16_ua (h2d_dma_indx_wr_buf dv) (unat (DHD_H2D_RING_OFFSET (mr_idx r)) * unat (rw_index_sz dv))
      else Some (ring_state_w dv (mr_idx r)))"

lemma write_complete_seen:
  assumes "dev_ok dbg dv r"
  obtains dv' where "dhd_prot_ring_write_complete dbg dv r = Some dv'" and "seen_wr dv' r = Some (mr_wr r)"
    and "\<And>r'. dev_ok dbg dv r' \<Longrightarrow> dev_ok dbg dv' r'"
proof (cases "dma_h2d_ring_upd_support dv")
  case True
  let ?o = "unat (DHD_H2D_RING_OFFSET (mr_idx r)) * unat (rw_index_sz dv)"
  have o: "?o + 2 \<le> length (h2d_dma_indx_wr_buf dv)" "rw_index_sz dv \<noteq> 0" using assms True by (simp_all add: dev_ok_def)
  define b where "b = take ?o (h2d_dma_indx_wr_buf dv) @ le16 (mr_wr r) @ drop (?o + 2) (h2d_dma_indx_wr_buf dv)"
  let ?dv = "dv\<lparr>h2d_dma_indx_wr_buf := b, doorbells := doorbells dv @ [mr_wr r]\<rparr>"
  have l: "length (take ?o (h2d_dma_indx_wr_buf dv)) = ?o" "length b = length (h2d_dma_indx_wr_buf dv)" using o by (simp_all add: b_def)
  have "htol16_ua_store (mr_wr r) (h2d_dma_indx_wr_buf dv) ?o = Some b" using o by (simp add: htol16_ua_store_def mem_copy_to_def b_def)
  then have "dhd_prot_ring_write_complete dbg dv r = Some ?dv"
    using True o by (simp add: dhd_prot_ring_write_complete_def dhd_prot_dma_indx_set_def)
  moreover have "ltoh16_ua b ?o = Some (mr_wr r)"
    using ltoh16_ua_mid [of "take ?o (h2d_dma_indx_wr_buf dv)"] unfolding l(1) b_def .
  then have "seen_wr ?dv r = Some (mr_wr r)" using True by (simp add: seen_wr_def)
  moreover have "dev_ok dbg ?dv r'" if "dev_ok dbg dv r'" for r' using that l(2) by (simp add: dev_ok_def)
  ultimately show thesis using that by blast
next
  case False
  let ?dv = "dv\<lparr>ring_state_w := (ring_state_w dv)(mr_idx r := mr_wr r), doorbells := doorbells dv @ [mr_wr r]\<rparr>"
  have "dhd_prot_ring_write_complete dbg dv r = Some ?dv" using False by (simp add: dhd_prot_ring_write_complete_def)
  moreover have "seen_wr ?dv r = Some (mr_wr r)" using False by (simp add: seen_wr_def)
  moreover have "dev_ok dbg ?dv r'" if "dev_ok dbg dv r'" for r' using that False by (simp add: dev_ok_def)
  ultimately show thesis using that by blast
qed

text \<open>
  An exact request of \<open>k\<close> slots is refused when the ring is full, or when \<open>k\<close> slots would end inside the ring and
  are not free. A refused request is tried again with the read index the device reports.
\<close>

definition claim_refused :: "msgbuf_ring \<Rightarrow> nat \<Rightarrow> bool" where
  "claim_refused r k \<longleftrightarrow> Suc (rcount r) = unat (mr_max_items r) \<or> rspace r < k \<and> unat (mr_wr r) + k \<le> unat (mr_max_items r)"

definition claim_ring :: "bool \<Rightarrow> ring_dev \<Rightarrow> msgbuf_ring \<Rightarrow> nat \<Rightarrow> msgbuf_ring" where
  "claim_ring dbg dv r k = (if claim_refused r k then (case fetch_rd dbg dv r of None \<Rightarrow> r | Some r' \<Rightarrow> r') else r)"

lemma claim_ring_cases:
  assumes "ring_ok r" and "dev_ok dbg dv r"
  obtains rd where "claim_ring dbg dv r k = r\<lparr>mr_rd := rd\<rparr>" and "ring_ok (claim_ring dbg dv r k)"
proof -
  obtain rd where f: "fetch_rd dbg dv r = Some (r\<lparr>mr_rd := rd\<rparr>)" "ring_ok (r\<lparr>mr_rd := rd\<rparr>)" by (rule fetch_rd_result [OF assms(2,1)])
  show thesis using that [of rd] that [of "mr_rd r"] f assms(1) by (cases "claim_refused r k") (simp_all add: claim_ring_def)
qed

lemma get_ring_space_exact:
  assumes ok: "ring_ok r" and n: "nitems \<le> mr_max_items r"
  shows "dhd_prot_get_ring_space dbg r nitems True =
    Some (if claim_refused r (unat nitems) then (r, None)
          else (advance_wr r (min (unat nitems) (rspace r)),
                Some (unat (mr_wr r) * unat (mr_item_len r), of_nat (min (unat nitems) (rspace r)))))"
  using get_ring_space_result [OF assms, of dbg True] rspace_eq(2) [OF ok] by (simp add: claim_refused_def add.commute)

lemma alloc_ring_space_exact:
  assumes ok: "ring_ok r" and dv: "dev_ok dbg dv r" and n: "nitems \<le> mr_max_items r"
  defines "r1 \<equiv> claim_ring dbg dv r (unat nitems)"
  shows "dhd_prot_alloc_ring_space dbg dv r nitems True =
    Some (if claim_refused r1 (unat nitems) then (r1, None)
          else (advance_wr r1 (min (unat nitems) (rspace r1)),
                Some (unat (mr_wr r) * unat (mr_item_len r), of_nat (min (unat nitems) (rspace r1)))))"
proof (cases "claim_refused r (unat nitems)")
  case False
  then have "r1 = r" by (simp add: r1_def claim_ring_def)
  then show ?thesis using get_ring_space_exact [OF ok n, of dbg] False by (simp add: dhd_prot_alloc_ring_space_def)
next
  case True
  obtain rd where f: "fetch_rd dbg dv r = Some (r\<lparr>mr_rd := rd\<rparr>)" "ring_ok (r\<lparr>mr_rd := rd\<rparr>)" by (rule fetch_rd_result [OF dv ok])
  have r1: "r1 = r\<lparr>mr_rd := rd\<rparr>" using True f by (simp add: r1_def claim_ring_def)
  have "dhd_prot_alloc_ring_space dbg dv r nitems True = dhd_prot_get_ring_space dbg r1 nitems True"
    using get_ring_space_exact [OF ok n, of dbg] True f(1) r1 by (simp add: dhd_prot_alloc_ring_space_def)
  then show ?thesis using get_ring_space_exact [OF f(2), of nitems dbg] n unfolding r1 [symmetric] by (simp add: r1)
qed

lemma claim_room:
  assumes "ring_ok r" and "\<not> claim_refused r k" and "0 < k"
  shows "0 < min k (rspace r)"
  using assms rspace_eq(2) [OF assms(1)] by (simp add: claim_refused_def)

lemma unclaim_result:
  assumes ok: "ring_ok r" and k: "i < a" "a \<le> rspace r"
  shows "unclaim (advance_wr r a) (of_nat a - of_nat i) = advance_wr r i"
proof -
  note d = ring_okD [OF ok] and b = rspace_bounds [OF ok]
  have j: "(of_nat a - of_nat i :: u16) = of_nat (a - i)" using k by (simp add: of_nat_diff)
  have u: "unat (of_nat (a - i) :: u16) = a - i" "unat (of_nat a :: u16) = a" by (rule unat_of_nat16; use k b in simp)+
  have w: "unat (mr_wr (advance_wr r a)) = (if unat (mr_wr r) + a = unat (mr_max_items r) then 0 else unat (mr_wr r) + a)"
    using b k d by (simp add: advance_wr_def unat_add_bounded u)
  show ?thesis
  proof (cases "unat (mr_wr r) + a = unat (mr_max_items r)")
    case True
    have "mr_max_items r = mr_wr r + of_nat a" by (rule word_unat_eq_iff [THEN iffD2]) (use True d in \<open>simp add: unat_add_bounded u\<close>)
    then have "mr_max_items r - of_nat (a - i) = mr_wr r + of_nat i" using k by (simp add: of_nat_diff)
    moreover have "(0 :: u16) < of_nat (a - i)" using u(1) k by (simp add: word_less_nat_alt)
    ultimately show ?thesis using True k unfolding unclaim_def j by (simp add: advance_wr_def)
  next
    case False
    have "\<not> mr_wr r + of_nat a < of_nat (a - i)"
      using w False u k by (simp add: word_less_nat_alt advance_wr_def)
    moreover have "mr_wr r + of_nat a - of_nat (a - i) = mr_wr r + of_nat i" using k by (simp add: of_nat_diff)
    moreover have "unat (mr_wr r) + i \<noteq> unat (mr_max_items r)" using b k by simp
    ultimately show ?thesis using False unfolding unclaim_def j by (simp add: advance_wr_def)
  qed
qed

definition supply_pkts :: "(pkt \<times> dmaaddr) option list \<Rightarrow> pkt list" where
  "supply_pkts bs = concat (map (\<lambda>b. case b of None \<Rightarrow> [] | Some (p, pa) \<Rightarrow> [p]) bs)"

lemma supply_pkts_simps [simp]:
  "supply_pkts [] = []" "supply_pkts (None # bs) = supply_pkts bs" "supply_pkts (Some (p, pa) # bs) = p # supply_pkts bs"
  "supply_pkts (xs @ ys) = supply_pkts xs @ supply_pkts ys"
  by (simp_all add: supply_pkts_def)

lemma supply_pkts_set: "p \<in> set (supply_pkts bs) \<longleftrightarrow> (\<exists>pa. Some (p, pa) \<in> set bs)"
  by (induction bs) (auto simp: supply_pkts_def split: option.splits prod.splits)

text \<open>The packets to come are different and not freed; with assertions on, their buffers can be mapped.\<close>

definition supply_ok :: "bool \<Rightarrow> (pkt \<times> dmaaddr) option list \<Rightarrow> pkt list \<Rightarrow> bool" where
  "supply_ok dbg bs freed \<longleftrightarrow> distinct (supply_pkts bs) \<and> set (supply_pkts bs) \<inter> set freed = {} \<and>
     (dbg \<longrightarrow> (\<forall>p pa. Some (p, pa) \<in> set bs \<longrightarrow> pa \<noteq> 0))"

lemma supply_ok_rest:
  assumes "supply_ok dbg (map Some bufs @ rest) freed"
  shows "supply_ok dbg rest freed" and "supply_ok dbg (tl rest) (freed_of rest @ freed)"
proof -
  show r: "supply_ok dbg rest freed" using assms by (auto simp: supply_ok_def)
  show "supply_ok dbg (tl rest) (freed_of rest @ freed)"
  proof (cases rest)
    case Nil
    then show ?thesis by (simp add: supply_ok_def freed_of_def)
  next
    case (Cons b bs)
    then show ?thesis using r by (cases b) (auto simp: supply_ok_def freed_of_def)
  qed
qed

definition prot_ok :: "bool \<Rightarrow> dhd_prot \<Rightarrow> bool" where
  "prot_ok dbg s \<longleftrightarrow> map_ok (pktid_map s) \<and> ring_ok (h2dring_rxp_subn s) \<and> dev_ok dbg (rdev s) (h2dring_rxp_subn s) \<and>
     length (rxp_slots s) = unat (mr_max_items (h2dring_rxp_subn s)) \<and> 32 \<le> unat (mr_max_items (h2dring_rxp_subn s)) \<and>
     supply_ok dbg (pkt_supply s) (pfreed (pstore s))"

lemma ring_seqnum [simp]:
  "ring_ok (r\<lparr>mr_seqnum := q\<rparr>) = ring_ok r" "rqueue (r\<lparr>mr_seqnum := q\<rparr>) slots = rqueue r slots"
  "advance_wr (r\<lparr>mr_seqnum := q\<rparr>) k = (advance_wr r k)\<lparr>mr_seqnum := q\<rparr>"
  "unclaim (r\<lparr>mr_seqnum := q\<rparr>) j = (unclaim r j)\<lparr>mr_seqnum := q\<rparr>"
  by (simp_all add: ring_ok_def rqueue_def rcount_def advance_wr_def unclaim_def)

lemma advance_wr_idx [simp]: "mr_idx (advance_wr r k) = mr_idx r"
  by (simp add: advance_wr_def)

definition announced :: "dhd_prot \<Rightarrow> bool" where
  "announced s \<longleftrightarrow> seen_wr (rdev s) (h2dring_rxp_subn s) = Some (mr_wr (h2dring_rxp_subn s))"

text \<open>
  What posting does with the slots claimed in the ring \<open>r1\<close>, \<open>a\<close> of them: \<open>n\<close> buffers are posted, under \<open>ids\<close>. When
  that is less than \<open>a\<close>, one more packet was asked for, and freed if there was one.
\<close>

definition rx_post_spec :: "bool \<Rightarrow> msgbuf_ring \<Rightarrow> nat \<Rightarrow> nat \<Rightarrow> dhd_prot \<Rightarrow> dhd_prot \<Rightarrow> u32 list \<Rightarrow> bool" where
  "rx_post_spec dbg r1 a n s s' ids \<longleftrightarrow>
     (let bufs = map the (take n (pkt_supply s)); rest = drop n (pkt_supply s)
      in pkt_supply s = map Some bufs @ rest \<and> length bufs = n \<and> prot_ok dbg s' \<and>
         rx_posted s s' (unat (mr_wr (h2dring_rxp_subn s))) bufs ids \<and>
         rqueue (h2dring_rxp_subn s') (rxp_slots s') =
           rqueue r1 (rxp_slots s) @ rx_msgs s (mr_seqnum (h2dring_rxp_subn s)) ids bufs \<and>
         (0 < n \<longrightarrow> announced s') \<and> (n = 0 \<longrightarrow> rdev s' = rdev s \<and> (announced s \<longrightarrow> announced s')) \<and>
         pkt_supply s' = (if n < a then tl rest else rest) \<and>
         pfreed (pstore s') = (if n < a then freed_of rest else []) @ pfreed (pstore s) \<and>
         unmapped s' = unmapped s @ (if n < a then unmaps_of (rx_metadata_offset s) rest else []) \<and>
         rx_frames s' = rx_frames s \<and> ids_of (pktid_map s') = ids_of (pktid_map s) \<and>
         rxbufpost s' = rxbufpost s \<and> max_rxbufpost s' = max_rxbufpost s \<and> rx_dataoffset s' = rx_dataoffset s \<and>
         rx_metadata_offset s' = rx_metadata_offset s)"

lemma seen_wr_frame [simp]:
  "seen_wr dv (r\<lparr>mr_rd := rd\<rparr>) = seen_wr dv r" "seen_wr dv (r\<lparr>mr_seqnum := q\<rparr>) = seen_wr dv r" "seen_wr dv (advance_wr r k) = seen_wr dv r"
  by (simp_all add: seen_wr_def advance_wr_def)

lemma advance_wr_0: "ring_ok r \<Longrightarrow> advance_wr r 0 = r"
  using ring_okD(2) [of r] by (simp add: advance_wr_def)

lemma rxbuf_post_result:
  assumes ok: "prot_ok dbg s" and c: "0 < nb" "nb \<le> 32"
  defines "r1 \<equiv> claim_ring dbg (rdev s) (h2dring_rxp_subn s) (unat nb)"
  defines "a \<equiv> min (unat nb) (rspace r1)"
  defines "n \<equiv> rx_usable a (card (free_ids (pktid_map s))) (pkt_supply s)"
  shows "if claim_refused r1 (unat nb)
         then dhd_prot_rxbuf_post dbg nb s = Some (s\<lparr>h2dring_rxp_subn := r1\<rparr>, -1) \<and> prot_ok dbg (s\<lparr>h2dring_rxp_subn := r1\<rparr>)
         else \<exists>s' ids. dhd_prot_rxbuf_post dbg nb s = Some (s', int n) \<and> rx_post_spec dbg r1 a n s s' ids"
proof -
  let ?r = "h2dring_rxp_subn s"
  have p: "map_ok (pktid_map s)" "ring_ok ?r" "dev_ok dbg (rdev s) ?r" "length (rxp_slots s) = unat (mr_max_items ?r)"
      "32 \<le> unat (mr_max_items ?r)" "supply_ok dbg (pkt_supply s) (pfreed (pstore s))"
    using ok by (simp_all add: prot_ok_def)
  have c32: "unat nb \<le> 32" "0 < unat nb" using c by (simp_all add: word_le_nat_alt unat_gt_0 word_gt_0)
  then have cm: "nb \<le> mr_max_items ?r" using p(5) by (simp add: word_le_nat_alt)
  obtain rd where r1: "r1 = ?r\<lparr>mr_rd := rd\<rparr>" and rd: "ring_ok r1"
    unfolding r1_def by (rule claim_ring_cases [OF p(2,3)])
  note al = alloc_ring_space_exact [OF p(2,3) cm, folded r1_def a_def]
  show ?thesis
  proof (cases "claim_refused r1 (unat nb)")
    case True
    then have "dhd_prot_rxbuf_post dbg nb s = Some (s\<lparr>h2dring_rxp_subn := r1\<rparr>, -1)"
      using al by (simp add: dhd_prot_rxbuf_post_def)
    moreover have "prot_ok dbg (s\<lparr>h2dring_rxp_subn := r1\<rparr>)"
      using p rd dev_ok_cong [of r1 ?r dbg "rdev s"] by (simp add: prot_ok_def r1)
    ultimately show ?thesis using True by simp
  next
    case False
    have a: "0 < a" "a \<le> rspace r1" "a \<le> unat nb" using claim_room [OF rd False c32(2)] by (simp_all add: a_def)
    let ?s1 = "s\<lparr>h2dring_rxp_subn := advance_wr r1 a\<rparr>"
    let ?w = "unat (mr_wr ?r)"
    have wr1: "mr_wr r1 = mr_wr ?r" "mr_max_items r1 = mr_max_items ?r" "mr_idx r1 = mr_idx ?r" "mr_seqnum r1 = mr_seqnum ?r" by (simp_all add: r1)
    have u: "unat (of_nat a :: u16) = a" by (rule unat_of_nat16) (use a(3) c32 in simp)
    have room: "?w + a \<le> length (rxp_slots s)" using rspace_bounds(1) [OF rd] a(2) p(4) wr1 by simp
    have fresh: "\<forall>q pa. Some (q, pa) \<in> set (pkt_supply s) \<longrightarrow> q \<notin> set (pfreed (pstore s)) \<and> (dbg \<longrightarrow> pa \<noteq> 0)"
      using p(6) by (auto simp: supply_ok_def disjoint_iff supply_pkts_set)
    have "rx_loop_spec dbg a 0 ?w ?s1" by (rule rxpost_loop_result) (use p(1) room fresh in auto)
    then obtain s2 bufs ids rest where l: "rxpost_loop dbg a 0 ?w ?s1 = Some (s2, n)" "n \<le> a" "length bufs = n"
        "pkt_supply s = map Some bufs @ rest" "pkt_supply s2 = (if n < a then tl rest else rest)"
        "pfreed (pstore s2) = (if n < a then freed_of rest else []) @ pfreed (pstore s)"
        "unmapped s2 = unmapped s @ (if n < a then unmaps_of (rx_metadata_offset s) rest else [])"
        "map_ok (pktid_map s2)" "rx_frame_of ?s1 s2" "rx_posted ?s1 s2 ?w bufs ids"
      unfolding rx_loop_spec_def n_def by auto
    have bufs: "bufs = map the (take n (pkt_supply s))" "rest = drop n (pkt_supply s)" using l(3,4) by (auto simp: comp_def)
    obtain q where q: "h2dring_rxp_subn s2 = (advance_wr r1 a)\<lparr>mr_seqnum := q\<rparr>" using l(9) by (auto simp: rx_frame_of_def)
    define s3 where "s3 = s2\<lparr>h2dring_rxp_subn := (advance_wr r1 n)\<lparr>mr_seqnum := q\<rparr>\<rparr>"
    have s3: "(if n < a then s2\<lparr>h2dring_rxp_subn := unclaim (h2dring_rxp_subn s2) (of_nat a - of_nat n)\<rparr> else s2) = s3"
      using unclaim_result [OF rd _ a(2), of n] l(2) q by (auto simp: s3_def)
    have ile: "n \<le> rspace r1" using l(2) a(2) by simp
    note adv = advance_wr_ok [OF rd ile]
    have dv3: "dev_ok dbg (rdev s3) (h2dring_rxp_subn s3)"
      using p(3) l(9) dev_ok_cong [of "h2dring_rxp_subn s3" ?r dbg "rdev s"] adv(4) wr1 by (simp add: s3_def rx_frame_of_def)
    obtain dv where dv: "dhd_prot_ring_write_complete dbg (rdev s3) (h2dring_rxp_subn s3) = Some dv"
        "seen_wr dv (h2dring_rxp_subn s3) = Some (mr_wr (h2dring_rxp_subn s3))" "\<And>r'. dev_ok dbg (rdev s3) r' \<Longrightarrow> dev_ok dbg dv r'"
      by (rule write_complete_seen [OF dv3]) blast
    define s4 where "s4 = (if 0 < n then s3\<lparr>rdev := dv\<rparr> else s3)"
    have post: "dhd_prot_rxbuf_post dbg nb s = Some (s4, int n)"
      unfolding dhd_prot_rxbuf_post_def Let_def al if_not_P [OF False]
      using u a c32 l(1) s3 dv(1) by (auto simp: s4_def word_less_nat_alt)
    have ms: "mr_seqnum (h2dring_rxp_subn ?s1) = mr_seqnum ?r" by (simp add: advance_wr_def wr1)
    have cong: "rx_msgs ?s1 sq ks bs = rx_msgs s sq ks bs" for sq ks bs by (rule rx_msgs_cong) simp
    define msgs where "msgs = rx_msgs s (mr_seqnum ?r) ids bufs"
    have sl: "length ids = n" "rxp_slots s2 = write_slots (rxp_slots s) ?w msgs"
      using l(3,10) unfolding rx_posted_def ms cong msgs_def by simp_all
    then have lm: "length msgs = n" using l(3) by (simp add: msgs_def)
    have s4: "h2dring_rxp_subn s4 = (advance_wr r1 n)\<lparr>mr_seqnum := q\<rparr>" "rxp_slots s4 = rxp_slots s2" "pktid_map s4 = pktid_map s2"
        "pkt_supply s4 = pkt_supply s2" "pstore s4 = pstore s2" "rx_frames s4 = rx_frames s2" "rxbufpost s4 = rxbufpost s2"
        "max_rxbufpost s4 = max_rxbufpost s2" "rx_dataoffset s4 = rx_dataoffset s2" "rx_metadata_offset s4 = rx_metadata_offset s2"
        "unmapped s4 = unmapped s2" "dev_ok dbg (rdev s4) (h2dring_rxp_subn s4)" "n = 0 \<longrightarrow> rdev s4 = rdev s2"
      using dv(3) dv3 by (auto simp: s4_def s3_def)
    have sup: "supply_ok dbg (pkt_supply s2) (pfreed (pstore s2))"
      using supply_ok_rest [of dbg bufs rest "pfreed (pstore s)"] p(6) l(4,5,6) by simp
    have pok: "prot_ok dbg s4"
      unfolding prot_ok_def using s4 l(8) adv sup p(4,5) sl lm room l(2) wr1 by (simp add: length_write_slots)
    have queue: "rqueue (h2dring_rxp_subn s4) (rxp_slots s4) = rqueue r1 (rxp_slots s) @ msgs"
      using rqueue_append [OF rd, of msgs "rxp_slots s"] ile p(4) sl lm s4(1,2) wr1 by simp
    have posted: "rx_posted s s4 ?w bufs ids"
      using l(10) s4(2,3) unfolding rx_posted_def ms cong by simp
    have ann: "0 < n \<longrightarrow> announced s4" "n = 0 \<longrightarrow> rdev s4 = rdev s \<and> (announced s \<longrightarrow> announced s4)"
    proof -
      show "0 < n \<longrightarrow> announced s4" using dv(2) by (simp add: announced_def s4_def s3_def)
      have "rdev s2 = rdev s" using l(9) by (simp add: rx_frame_of_def)
      then show "n = 0 \<longrightarrow> rdev s4 = rdev s \<and> (announced s \<longrightarrow> announced s4)"
        using s4(1,13) advance_wr_0 [OF rd] by (auto simp: announced_def r1)
    qed
    have "rx_post_spec dbg r1 a n s s4 ids"
      unfolding rx_post_spec_def Let_def bufs [symmetric] msgs_def [symmetric]
      using l(3,4,5,6,7,9) pok queue posted ann s4 by (simp add: rx_frame_of_def)
    then show ?thesis using post False by auto
  qed
qed

section \<open>Filling up and completions\<close>

lemma prot_ok_rxbufpost [simp]: "prot_ok dbg (s\<lparr>rxbufpost := n\<rparr>) = prot_ok dbg s" "announced (s\<lparr>rxbufpost := n\<rparr>) = announced s"
  by (simp_all add: prot_ok_def announced_def)

text \<open>
  From \<open>s\<close> to \<open>s'\<close> the buffers \<open>bufs\<close> have been posted under the \<open>ids\<close> in some number of bursts, and counted; the
  packets of \<open>fails\<close> were taken as well and freed. No packet is lost and no other locker touched.
\<close>

definition rx_filled :: "dhd_prot \<Rightarrow> dhd_prot \<Rightarrow> (pkt \<times> dmaaddr) list \<Rightarrow> u32 list \<Rightarrow> (pkt \<times> dmaaddr) list \<Rightarrow> bool" where
  "rx_filled s s' bufs ids fails \<longleftrightarrow>
     rx_frames s' = rx_frames s \<and> rx_dataoffset s' = rx_dataoffset s \<and> rx_metadata_offset s' = rx_metadata_offset s \<and>
     ids_of (pktid_map s') = ids_of (pktid_map s) \<and> rxbufpost s' = rxbufpost s + of_nat (length bufs) \<and>
     length ids = length bufs \<and> distinct (map unat ids) \<and> (\<forall>k \<in> set ids. contents (pktid_map s) (unat k) = None) \<and>
     contents (pktid_map s') = (contents (pktid_map s))(map unat ids [\<mapsto>] map (rx_locker (rx_metadata_offset s)) bufs) \<and>
     mset (supply_pkts (pkt_supply s)) = mset (map fst bufs) + mset (map fst fails) + mset (supply_pkts (pkt_supply s')) \<and>
     pfreed (pstore s') = rev (map fst fails) @ pfreed (pstore s) \<and>
     unmapped s' = unmapped s @ map (unmap_of (rx_metadata_offset s)) fails \<and>
     (bufs \<noteq> [] \<or> announced s \<longrightarrow> announced s')"

lemma rx_filled_refl [simp]: "rx_filled s s [] [] []"
  by (simp add: rx_filled_def)

lemma map_upds_append:
  "length xs = length as \<Longrightarrow> m(xs @ ys [\<mapsto>] as @ bs) = (m(xs [\<mapsto>] as))(ys [\<mapsto>] bs)"
  by (simp add: map_upds_def)

lemma map_upds_None: "length xs = length as \<Longrightarrow> (m(xs [\<mapsto>] as)) k = None \<Longrightarrow> k \<notin> set xs \<and> m k = None"
proof -
  assume l: "length xs = length as" and n: "(m(xs [\<mapsto>] as)) k = None"
  have "dom (m(xs [\<mapsto>] as)) = set xs \<union> dom m" using l by simp
  then show ?thesis using n by blast
qed

lemma rx_filled_trans:
  assumes a: "rx_filled s s1 b1 i1 f1" and b: "rx_filled s1 s2 b2 i2 f2"
  shows "rx_filled s s2 (b1 @ b2) (i1 @ i2) (f1 @ f2)"
proof -
  have c: "contents (pktid_map s1) = (contents (pktid_map s))(map unat i1 [\<mapsto>] map (rx_locker (rx_metadata_offset s)) b1)"
      "length i1 = length b1" "rx_metadata_offset s1 = rx_metadata_offset s" using a by (simp_all add: rx_filled_def)
  have new: "unat k \<notin> set (map unat i1) \<and> contents (pktid_map s) (unat k) = None" if "k \<in> set i2" for k
  proof -
    have "contents (pktid_map s1) (unat k) = None" using b that by (simp add: rx_filled_def)
    then show ?thesis unfolding c(1) by (rule map_upds_None [rotated]) (simp add: c(2))
  qed
  then have "set (map unat i1) \<inter> set (map unat i2) = {}" unfolding set_map [of unat i2] by blast
  then have "distinct (map unat (i1 @ i2))" using a b by (simp add: rx_filled_def)
  moreover have "contents (pktid_map s2) = (contents (pktid_map s))
      (map unat (i1 @ i2) [\<mapsto>] map (rx_locker (rx_metadata_offset s)) (b1 @ b2))"
    using b c by (simp add: rx_filled_def map_upds_append)
  ultimately show ?thesis using a b new by (auto simp: rx_filled_def)
qed

lemma supply_pkts_Some [simp]: "supply_pkts (map Some bufs) = map fst bufs"
  by (induction bufs) auto

lemma post_spec_filled:
  assumes p: "rx_post_spec dbg r1 a n s s' ids"
  obtains fails where "rx_filled s (s'\<lparr>rxbufpost := rxbufpost s' + word_of_int (int n)\<rparr>) (map the (take n (pkt_supply s))) ids fails"
    and "prot_ok dbg s'"
proof -
  define bufs rest where "bufs = map the (take n (pkt_supply s))" and "rest = drop n (pkt_supply s)"
  define fails where "fails = (if n < a then (case rest of Some b # _ \<Rightarrow> [b] | _ \<Rightarrow> []) else [])"
  note q = p [unfolded rx_post_spec_def Let_def, folded bufs_def rest_def]
  have f: "(if n < a then freed_of rest else []) = map fst fails" "(if n < a then unmaps_of (rx_metadata_offset s) rest else []) =
      map (unmap_of (rx_metadata_offset s)) fails"
    by (auto simp: fails_def freed_of_def unmaps_of_def split: list.splits option.splits)
  have "supply_pkts rest = map fst fails @ supply_pkts (if n < a then tl rest else rest)"
    by (auto simp: fails_def split: list.splits option.splits)
  then have m: "supply_pkts (pkt_supply s) = map fst bufs @ map fst fails @ supply_pkts (pkt_supply s')" using q by (metis supply_pkts_Some supply_pkts_simps(4))
  have "rev (map fst fails) = map fst fails" by (auto simp: fails_def split: list.splits option.splits)
  then have "rx_filled s (s'\<lparr>rxbufpost := rxbufpost s' + word_of_int (int n)\<rparr>) bufs ids fails"
    using q m f unfolding rx_filled_def rx_posted_def by auto
  then show thesis using that q unfolding bufs_def by blast
qed

lemma claim_ring_filled:
  assumes "prot_ok dbg s"
  shows "rx_filled s (s\<lparr>h2dring_rxp_subn := claim_ring dbg (rdev s) (h2dring_rxp_subn s) k\<rparr>) [] [] []"
proof -
  have "ring_ok (h2dring_rxp_subn s)" "dev_ok dbg (rdev s) (h2dring_rxp_subn s)" using assms by (simp_all add: prot_ok_def)
  then obtain rd where "claim_ring dbg (rdev s) (h2dring_rxp_subn s) k = (h2dring_rxp_subn s)\<lparr>mr_rd := rd\<rparr>"
    by (rule claim_ring_cases)
  then show ?thesis by (simp add: rx_filled_def announced_def)
qed

text \<open>The first burst of the loop, 32 slots, bounds the number of buffers from below.\<close>

definition first_burst :: "bool \<Rightarrow> dhd_prot \<Rightarrow> nat option" where
  "first_burst dbg s =
     (let r1 = claim_ring dbg (rdev s) (h2dring_rxp_subn s) 32
      in if claim_refused r1 32 then None
         else Some (rx_usable (min 32 (rspace r1)) (card (free_ids (pktid_map s))) (pkt_supply s)))"

lemma rxbuf_fill_result:
  "prot_ok dbg s \<Longrightarrow> \<exists>s' bufs ids fails. rxbuf_fill dbg cnt fillbufs s = Some s' \<and> prot_ok dbg s' \<and> rx_filled s s' bufs ids fails \<and>
     (if fillbufs < 32 \<or> cnt \<le> 1 then s' = s \<and> bufs = [] \<and> fails = []
      else case first_burst dbg s of None \<Rightarrow> bufs = [] \<and> fails = [] | Some k \<Rightarrow> k \<le> length bufs)"
proof (induction cnt arbitrary: fillbufs s)
  case 0
  then show ?case by (intro exI [of _ s] exI [of _ "[]"]) simp
next
  case (Suc cnt)
  show ?case
  proof (cases "fillbufs < 32 \<or> cnt = 0")
    case True
    then show ?thesis using Suc.prems by (intro exI [of _ s] exI [of _ "[]"]) auto
  next
    case False
    define r1 where "r1 = claim_ring dbg (rdev s) (h2dring_rxp_subn s) 32"
    define n where "n = rx_usable (min 32 (rspace r1)) (card (free_ids (pktid_map s))) (pkt_supply s)"
    have m: "min fillbufs 32 = 32" "word_of_int (min fillbufs 32) = (32 :: u16)" "unat (32 :: u16) = 32" using False by simp_all
    note post = rxbuf_post_result [OF Suc.prems, of 32, simplified m(3), folded r1_def, folded n_def, simplified]
    show ?thesis
    proof (cases "claim_refused r1 32")
      case True
      have p: "dhd_prot_rxbuf_post dbg 32 s = Some (s\<lparr>h2dring_rxp_subn := r1\<rparr>, -1)" "prot_ok dbg (s\<lparr>h2dring_rxp_subn := r1\<rparr>)"
        using post True by simp_all
      obtain s' where s': "rxbuf_fill dbg cnt 0 (s\<lparr>h2dring_rxp_subn := r1\<rparr>) = Some s'" "s' = s\<lparr>h2dring_rxp_subn := r1\<rparr>"
        using Suc.IH [OF p(2), of 0] by auto
      have "rxbuf_fill dbg (Suc cnt) fillbufs s = Some s'" using False m p(1) s'(1) by simp
      moreover have "first_burst dbg s = None" using True by (simp add: first_burst_def r1_def [symmetric])
      ultimately show ?thesis
        using False p(2) s'(2) claim_ring_filled [OF Suc.prems, of 32, folded r1_def] by (intro exI [of _ s'] exI [of _ "[]"]) simp
    next
      case go: False
      then obtain s1 i1 where p: "dhd_prot_rxbuf_post dbg 32 s = Some (s1, int n)" "rx_post_spec dbg r1 (min 32 (rspace r1)) n s s1 i1"
        using post by auto
      define s2 where "s2 = s1\<lparr>rxbufpost := rxbufpost s1 + word_of_int (int n)\<rparr>"
      obtain f1 where f: "rx_filled s s2 (map the (take n (pkt_supply s))) i1 f1" "prot_ok dbg s1"
        by (rule post_spec_filled [OF p(2)]) (simp add: s2_def)
      have ln: "length (map the (take n (pkt_supply s))) = n" using p(2) by (simp add: rx_post_spec_def Let_def)
      have "prot_ok dbg s2" using f(2) by (simp add: s2_def)
      then obtain s' b2 i2 f2 where r: "rxbuf_fill dbg cnt (to_fill s2) s2 = Some s'" "prot_ok dbg s'" "rx_filled s2 s' b2 i2 f2"
        using Suc.IH by blast
      have "rxbuf_fill dbg (Suc cnt) fillbufs s = Some s'" using False m p(1) r(1) by (simp add: Let_def s2_def)
      moreover have "first_burst dbg s = Some n" using go by (simp add: first_burst_def r1_def [symmetric] n_def)
      ultimately show ?thesis
        using False r(2) rx_filled_trans [OF f(1) r(3)] ln
        by (intro exI [of _ s'] exI [of _ "map the (take n (pkt_supply s)) @ b2"] exI [of _ "i1 @ i2"] exI [of _ "f1 @ f2"]) auto
    qed
  qed
qed

text \<open>How many buffers are missing once one is used up; the loop counts them as an \<open>int16\<close>.\<close>

definition rx_missing :: "dhd_prot \<Rightarrow> int" where
  "rx_missing s = uint (max_rxbufpost s) - uint (if rxbufpost s = 0 then 0 else rxbufpost s - 1)"

lemma to_fill_int16: "uint (max_rxbufpost s) - uint (rxbufpost s) = d \<Longrightarrow> 0 \<le> d \<Longrightarrow> to_fill s = (if d < 32768 then d else d - 65536)"
proof -
  assume d: "uint (max_rxbufpost s) - uint (rxbufpost s) = d" "0 \<le> d"
  have "d < 65536" using d(1) unat_u16_less [of "max_rxbufpost s"] unfolding uint_nat by linarith
  then have u: "uint (word_of_int d :: u16) = d" using d(2) by (simp add: uint_word_of_int)
  have b: "bit d 15 \<longleftrightarrow> \<not> d < 32768"
  proof (cases "d < 32768")
    case True
    then have "d div 32768 = 0" using d(2) by simp
    then show ?thesis using True by (simp add: bit_iff_odd)
  next
    case False
    then have "d div 32768 = 1" using \<open>d < 65536\<close> by simp
    then show ?thesis using False by (simp add: bit_iff_odd)
  qed
  have "sint (word_of_int d :: u16) = take_bit 16 d - 65536 * of_bool (bit d 15)"
    unfolding sint_uint u by (simp add: signed_take_bit_eq_take_bit_minus)
  then show ?thesis using d \<open>d < 65536\<close> b by (simp add: to_fill_def take_bit_int_eq_self)
qed

lemma return_one:
  assumes ok: "prot_ok dbg s"
  defines "rxb \<equiv> (if rxbufpost s = 0 then 0 else rxbufpost s - 1)"
  shows "\<exists>s' bufs ids fails. dhd_prot_return_rxbuf dbg 1 s = Some s' \<and> prot_ok dbg s' \<and>
           rx_filled (s\<lparr>rxbufpost := rxb\<rparr>) s' bufs ids fails \<and>
           (if rx_missing s < 32 \<or> 32768 \<le> rx_missing s then bufs = [] \<and> fails = []
            else case first_burst dbg s of None \<Rightarrow> bufs = [] \<and> fails = [] | Some k \<Rightarrow> k \<le> length bufs)"
proof -
  let ?s = "s\<lparr>rxbufpost := rxb\<rparr>"
  have "1 \<le> (ucast (rxbufpost s) :: u32) \<longleftrightarrow> rxbufpost s \<noteq> 0"
  proof -
    have "unat (ucast (rxbufpost s) :: u32) = unat (rxbufpost s)"
      unfolding unsigned_ucast_eq by (rule take_bit_nat_eq_self) (use unat_u16_less [of "rxbufpost s"] in simp)
    then show ?thesis by (auto simp: word_le_nat_alt unat_gt_0 Suc_le_eq)
  qed
  then have e: "dhd_prot_return_rxbuf dbg 1 s =
      (if uint rxb \<le> uint (max_rxbufpost s) - 32 then rxbuf_fill dbg 256 (to_fill ?s) ?s else Some ?s)"
    by (simp add: dhd_prot_return_rxbuf_def dhd_msgbuf_rxbuf_post_def Let_def rxb_def)
  have miss: "uint rxb \<le> uint (max_rxbufpost s) - 32 \<longleftrightarrow> 32 \<le> rx_missing s" by (auto simp: rx_missing_def rxb_def)
  have ok': "prot_ok dbg ?s" using ok by simp
  have fb: "first_burst dbg ?s = first_burst dbg s" unfolding first_burst_def Let_def by simp
  show ?thesis
  proof (cases "32 \<le> rx_missing s")
    case False
    then show ?thesis using e miss ok' by (intro exI [of _ ?s] exI [of _ "[]"]) simp
  next
    case True
    have tf: "to_fill ?s = (if rx_missing s < 32768 then rx_missing s else rx_missing s - 65536)"
      by (rule to_fill_int16) (use True in \<open>simp_all add: rx_missing_def rxb_def\<close>)
    have "rx_missing s < 65536"
      using unat_u16_less [of "max_rxbufpost s"] unfolding rx_missing_def uint_nat by linarith
    then have c: "to_fill ?s < 32 \<or> 256 \<le> (1 :: nat) \<longleftrightarrow> rx_missing s < 32 \<or> 32768 \<le> rx_missing s" using tf True by auto
    from rxbuf_fill_result [OF ok', of 256 "to_fill ?s", unfolded c fb] obtain s' bufs ids fails where
        x: "rxbuf_fill dbg 256 (to_fill ?s) ?s = Some s'" "prot_ok dbg s'" "rx_filled ?s s' bufs ids fails"
        "if rx_missing s < 32 \<or> 32768 \<le> rx_missing s then s' = ?s \<and> bufs = [] \<and> fails = []
         else case first_burst dbg s of None \<Rightarrow> bufs = [] \<and> fails = [] | Some k \<Rightarrow> k \<le> length bufs" by blast
    show ?thesis
      unfolding e if_P [OF iffD2 [OF miss True]]
      by (intro exI [of _ s'] exI [of _ bufs] exI [of _ ids] exI [of _ fails] conjI x(1-3)) (use x(4) in \<open>simp split: if_splits\<close>)
  qed
qed

text \<open>A completion for a locker of another type, and one for a receive buffer.\<close>

lemma rx_wrong_type:
  assumes mo: "map_ok (pktid_map s)" and c: "contents (pktid_map s) (unat pktid) = Some lk" and ty: "lk_pkttype lk \<noteq> PKTTYPE_DATA_RX"
  shows "\<exists>m. dhd_prot_rxcmplt_process False pktid doff len ifid s = Some (s\<lparr>pktid_map := m\<rparr>) \<and> contents m = contents (pktid_map s)"
proof -
  have i: "unat pktid \<in> ids_of (pktid_map s)" using c by (simp add: contents_Some)
  obtain m1 where f1: "audit False (pktid_map s) pktid DHD_DUPLICATE_FREE = Some m1" "pktid_ok m1" "contents m1 = contents (pktid_map s)"
      "ids_of m1 = ids_of (pktid_map s)"
    by (rule free_audit [OF mo c, of "lk\<lparr>lk_state := LOCKER_IS_FREE\<rparr>" False]) (simp, blast)
  have "dhd_pktid_map_free False m1 pktid PKTTYPE_DATA_RX False = Some (m1, None, None)"
    using free_refused [OF f1(2), of pktid PKTTYPE_DATA_RX False False] i f1(3,4) c ty by simp
  then have "dhd_prot_rxcmplt_process False pktid doff len ifid s = Some (s\<lparr>pktid_map := m1\<rparr>)"
    using f1(1) by (simp add: dhd_prot_rxcmplt_process_def dhd_prot_packet_get_def)
  then show ?thesis using f1(3) by blast
qed

definition rx_delivered ::
  "bool \<Rightarrow> u32 \<Rightarrow> dhd_pktid_item \<Rightarrow> pkt \<Rightarrow> u16 \<Rightarrow> u16 \<Rightarrow> u8 \<Rightarrow> dhd_prot \<Rightarrow> dhd_prot \<Rightarrow>
    (pkt \<times> dmaaddr) list \<Rightarrow> u32 list \<Rightarrow> (pkt \<times> dmaaddr) list \<Rightarrow> bool" where
  "rx_delivered dbg pktid lk p doff len ifid s s' bufs ids fails \<longleftrightarrow>
     (let off = rx_metadata_offset s; r1 = claim_ring dbg (rdev s) (h2dring_rxp_subn s) 32
      in rx_frames s' = rx_frames s @ [\<lparr>rf_pkt = p, rf_pull = if doff \<noteq> 0 then ucast doff else rx_dataoffset s, rf_len = len, rf_ifidx = ifid\<rparr>] \<and>
         unmapped s' = unmapped s @ (lk_pa lk, ucast (lk_len lk)) # map (unmap_of off) fails \<and>
         pfreed (pstore s') = rev (map fst fails) @ pfreed (pstore s) \<and>
         mset (supply_pkts (pkt_supply s)) = mset (map fst bufs) + mset (map fst fails) + mset (supply_pkts (pkt_supply s')) \<and>
         rxbufpost s' = (if rxbufpost s = 0 then 0 else rxbufpost s - 1) + of_nat (length bufs) \<and>
         length ids = length bufs \<and> distinct (map unat ids) \<and>
         (\<forall>k \<in> set ids. k = pktid \<or> contents (pktid_map s) (unat k) = None) \<and>
         contents (pktid_map s') = ((contents (pktid_map s))(unat pktid := None))(map unat ids [\<mapsto>] map (rx_locker off) bufs) \<and>
         (bufs \<noteq> [] \<longrightarrow> seen_wr (rdev s') (h2dring_rxp_subn s') = Some (mr_wr (h2dring_rxp_subn s'))) \<and>
         (if rx_missing s < 32 \<or> 32768 \<le> rx_missing s \<or> claim_refused r1 32 then bufs = [] \<and> fails = []
          else rx_usable (min 32 (rspace r1)) (Suc (card (free_ids (pktid_map s)))) (pkt_supply s) \<le> length bufs))"

lemma rx_right_type:
  assumes ok: "prot_ok dbg s" and c: "contents (pktid_map s) (unat pktid) = Some lk"
    and ty: "lk_pkttype lk = PKTTYPE_DATA_RX" and p: "lk_pkt lk = Some p"
  shows "\<exists>s' bufs ids fails. dhd_prot_rxcmplt_process dbg pktid doff len ifid s = Some s' \<and> prot_ok dbg s' \<and>
           rx_delivered dbg pktid lk p doff len ifid s s' bufs ids fails"
proof -
  have mo: "map_ok (pktid_map s)" using ok by (simp add: prot_ok_def)
  let ?lk = "lk\<lparr>lk_state := LOCKER_IS_FREE, lk_pkt := None, lk_len := 0\<rparr>"
  obtain m where m: "audit dbg (pktid_map s) pktid DHD_DUPLICATE_FREE = Some m" "pktid_ok m" "contents m = contents (pktid_map s)"
      "map_ok (give_id m pktid ?lk)" "ids_of m = ids_of (pktid_map s)"
    by (rule free_audit [OF mo c, of ?lk dbg]) (simp, blast)
  have cm: "contents m (unat pktid) = Some lk" using c m(3) by simp
  have fr: "dhd_pktid_map_free dbg m pktid PKTTYPE_DATA_RX False =
      Some (give_id m pktid ?lk, Some p, Some (lk_pa lk, ucast (lk_len lk), lk_dmah lk, lk_secdma lk))"
    using free_some [OF m(2) cm, of PKTTYPE_DATA_RX dbg False] ty p by simp
  define s1 where "s1 = s\<lparr>pktid_map := give_id m pktid ?lk, unmapped := unmapped s @ [(lk_pa lk, ucast (lk_len lk))]\<rparr>"
  have s1: "prot_ok dbg s1" "rxbufpost s1 = rxbufpost s" "rx_missing s1 = rx_missing s" using ok m(4) by (simp_all add: prot_ok_def s1_def rx_missing_def)
  have g: "contents (give_id m pktid ?lk) = (contents (pktid_map s))(unat pktid := None)" "ids_of (give_id m pktid ?lk) = ids_of (pktid_map s)"
    using give_id_ok(3,5) [OF m(2), of pktid ?lk] cm m(3,5) by simp_all
  have "free_ids (give_id m pktid ?lk) = insert (unat pktid) (free_ids (pktid_map s))" "unat pktid \<notin> free_ids (pktid_map s)"
    using c by (auto simp: free_ids_contents g contents_Some)
  then have card: "card (free_ids (pktid_map s1)) = Suc (card (free_ids (pktid_map s)))" by (simp add: s1_def)
  obtain s2 bufs ids fails where s2: "dhd_prot_return_rxbuf dbg 1 s1 = Some s2" "prot_ok dbg s2"
      "rx_filled (s1\<lparr>rxbufpost := if rxbufpost s = 0 then 0 else rxbufpost s - 1\<rparr>) s2 bufs ids fails"
      "if rx_missing s < 32 \<or> 32768 \<le> rx_missing s then bufs = [] \<and> fails = []
       else case first_burst dbg s1 of None \<Rightarrow> bufs = [] \<and> fails = [] | Some k \<Rightarrow> k \<le> length bufs"
    using return_one [OF s1(1)] unfolding s1(2,3) by blast
  let ?r1 = "claim_ring dbg (rdev s) (h2dring_rxp_subn s) 32"
  have fb: "first_burst dbg s1 = (if claim_refused ?r1 32 then None
      else Some (rx_usable (min 32 (rspace ?r1)) (Suc (card (free_ids (pktid_map s)))) (pkt_supply s)))"
    unfolding first_burst_def Let_def card by (simp add: s1_def)
  define s' where "s' = s2\<lparr>rx_frames := rx_frames s2 @
      [\<lparr>rf_pkt = p, rf_pull = if doff \<noteq> 0 then ucast doff else rx_dataoffset s2, rf_len = len, rf_ifidx = ifid\<rparr>]\<rparr>"
  have "dhd_prot_rxcmplt_process dbg pktid doff len ifid s = Some s'"
    using m(1) fr s2(1) by (simp add: dhd_prot_rxcmplt_process_def dhd_prot_packet_get_def s1_def s'_def)
  moreover have "prot_ok dbg s'" using s2(2) by (simp add: prot_ok_def s'_def)
  moreover have "rx_delivered dbg pktid lk p doff len ifid s s' bufs ids fails"
    unfolding rx_delivered_def Let_def
  proof (intro conjI)
    note f = s2(3) [unfolded rx_filled_def]
    show "rx_frames s' = rx_frames s @ [\<lparr>rf_pkt = p, rf_pull = if doff \<noteq> 0 then ucast doff else rx_dataoffset s, rf_len = len, rf_ifidx = ifid\<rparr>]"
      "unmapped s' = unmapped s @ (lk_pa lk, ucast (lk_len lk)) # map (unmap_of (rx_metadata_offset s)) fails"
      "pfreed (pstore s') = rev (map fst fails) @ pfreed (pstore s)"
      "mset (supply_pkts (pkt_supply s)) = mset (map fst bufs) + mset (map fst fails) + mset (supply_pkts (pkt_supply s'))"
      "rxbufpost s' = (if rxbufpost s = 0 then 0 else rxbufpost s - 1) + of_nat (length bufs)"
      "length ids = length bufs" "distinct (map unat ids)"
      using f by (simp_all add: s'_def s1_def)
    show "\<forall>k \<in> set ids. k = pktid \<or> contents (pktid_map s) (unat k) = None"
      using f g(1) by (auto simp: s1_def word_unat_eq_iff split: if_splits)
    show "contents (pktid_map s') = ((contents (pktid_map s))(unat pktid := None))(map unat ids [\<mapsto>] map (rx_locker (rx_metadata_offset s)) bufs)"
      using f g(1) by (simp add: s'_def s1_def)
    show "bufs \<noteq> [] \<longrightarrow> seen_wr (rdev s') (h2dring_rxp_subn s') = Some (mr_wr (h2dring_rxp_subn s'))"
      using f by (simp add: s'_def announced_def)
    show "if rx_missing s < 32 \<or> 32768 \<le> rx_missing s \<or> claim_refused ?r1 32 then bufs = [] \<and> fails = []
        else rx_usable (min 32 (rspace ?r1)) (Suc (card (free_ids (pktid_map s)))) (pkt_supply s) \<le> length bufs"
      using s2(4) unfolding fb by (auto split: if_splits)
  qed
  ultimately show ?thesis by blast
qed

section \<open>Properties\<close>

text \<open>
  C32. Posting receive buffers is exact. The ring is claimed with its cached read index, or with the
  one the device reports if that refuses. If it still refuses (the ring is full, or the request would
  end inside the ring and is not free), nothing but the read index changes and the result is -1.
  Otherwise, with \<open>a\<close> slots claimed, exactly \<open>n\<close> buffers are posted, the packets at the front of the
  system's supply up to the first missing or unmappable one and as far as slots and packet ids go:
  the queue of the ring grows by their messages, in order, with their addresses, lengths, epochs and
  ids; the ids are distinct and were free, their lockers hold packet and address and every other locker
  is unchanged; and if there is one the device sees the ring's write index, otherwise it sees no change. When fewer than \<open>a\<close> are posted
  one more packet is taken, if there is one, unmapped and freed. The state stays well-formed.
\<close>

theorem rx_post_exact:
  assumes "prot_ok dbg s" and "0 < nb" and "nb \<le> 32"
  defines "r1 \<equiv> claim_ring dbg (rdev s) (h2dring_rxp_subn s) (unat nb)"
  defines "a \<equiv> min (unat nb) (rspace r1)"
  defines "n \<equiv> rx_usable a (card (free_ids (pktid_map s))) (pkt_supply s)"
  defines "bufs \<equiv> map the (take n (pkt_supply s))" and "rest \<equiv> drop n (pkt_supply s)"
  shows "if claim_refused r1 (unat nb)
     then dhd_prot_rxbuf_post dbg nb s = Some (s\<lparr>h2dring_rxp_subn := r1\<rparr>, -1) \<and> prot_ok dbg (s\<lparr>h2dring_rxp_subn := r1\<rparr>)
     else \<exists>s' ids. dhd_prot_rxbuf_post dbg nb s = Some (s', int n) \<and> prot_ok dbg s' \<and>
       pkt_supply s = map Some bufs @ rest \<and> length bufs = n \<and> length ids = n \<and> distinct (map unat ids) \<and>
       (\<forall>k \<in> set ids. contents (pktid_map s) (unat k) = None) \<and>
       rqueue (h2dring_rxp_subn s') (rxp_slots s') =
         rqueue r1 (rxp_slots s) @ rx_msgs s (mr_seqnum (h2dring_rxp_subn s)) ids bufs \<and>
       contents (pktid_map s') = (contents (pktid_map s))(map unat ids [\<mapsto>] map (rx_locker (rx_metadata_offset s)) bufs) \<and>
       (if n = 0 then rdev s' = rdev s
        else seen_wr (rdev s') (h2dring_rxp_subn s') = Some (mr_wr (h2dring_rxp_subn s'))) \<and>
       pkt_supply s' = (if n < a then tl rest else rest) \<and>
       pfreed (pstore s') = (if n < a then freed_of rest else []) @ pfreed (pstore s) \<and>
       unmapped s' = unmapped s @ (if n < a then unmaps_of (rx_metadata_offset s) rest else [])"
proof -
  have post: "if claim_refused r1 (unat nb)
      then dhd_prot_rxbuf_post dbg nb s = Some (s\<lparr>h2dring_rxp_subn := r1\<rparr>, -1) \<and> prot_ok dbg (s\<lparr>h2dring_rxp_subn := r1\<rparr>)
      else \<exists>s' ids. dhd_prot_rxbuf_post dbg nb s = Some (s', int n) \<and> rx_post_spec dbg r1 a n s s' ids"
    unfolding n_def a_def r1_def by (rule rxbuf_post_result [OF assms(1-3)])
  show ?thesis
  proof (cases "claim_refused r1 (unat nb)")
    case True
    then show ?thesis using post by simp
  next
    case False
    then obtain s' ids where p: "dhd_prot_rxbuf_post dbg nb s = Some (s', int n)" "rx_post_spec dbg r1 a n s s' ids"
      using post by auto
    note q = p(2) [unfolded rx_post_spec_def Let_def rx_posted_def announced_def, folded bufs_def rest_def]
    show ?thesis
      unfolding if_not_P [OF False]
    proof (intro exI [of _ s'] exI [of _ ids] conjI)
      show "if n = 0 then rdev s' = rdev s else seen_wr (rdev s') (h2dring_rxp_subn s') = Some (mr_wr (h2dring_rxp_subn s'))"
        using q by simp
    qed (use p(1) q in blast)+
  qed
qed

text \<open>A protocol state with a ring of 64 slots in the device's memory and two packets to come.\<close>

definition demo_prot :: "dhd_pktid_map \<Rightarrow> dhd_prot" where
  "demo_prot m = \<lparr>rxbufpost = 0, max_rxbufpost = 64, active_tx_count = 0, rx_dataoffset = 8, rx_metadata_offset = 0,
     h2dring_rxp_subn = \<lparr>mr_inited = True, mr_idx = 1, mr_rd = 2, mr_wr = 2, mr_max_items = 64, mr_item_len = 32,
       mr_base_addr = 0, mr_seqnum = 254, mr_start_addr = None, mr_pend_items_count = 0\<rparr>,
     rxp_slots = replicate 64 \<lparr>rp_epoch = 0, rp_request_id = 0, rp_metadata_buf_len = 0, rp_data_buf_len = 0,
       rp_metadata_buf_addr = (0, 0), rp_data_buf_addr = (0, 0)\<rparr>,
     pktid_map = m, rdev = demo_dev, pstore = \<lparr>plink = \<lambda>_. None, pfreed = []\<rparr>,
     pkt_supply = [Some (100, 4096), Some (200, 8192)], unmapped = [], rx_pktgetfail = 0, rx_frames = [], tx_done = [],
     wake_unlocks = 0\<rparr>"

lemma demo_prot_ok: "map_ok m \<Longrightarrow> prot_ok True (demo_prot m)"
  by (simp add: prot_ok_def demo_prot_def demo_dev_def ring_ok_def dev_ok_def fetch_rd_def supply_ok_def)

lemma init_map_ok: "\<exists>m. dhd_pktid_map_init True True True 8 = Some (Some m) \<and> map_ok m \<and> free_ids m \<noteq> {} \<and> free_ids m = ids_of m \<and> 2 \<le> card (free_ids m)"
proof -
  obtain m a where m: "dhd_pktid_map_init True True True 8 = Some (Some m)" "pktid_ok m" "free_ids m = ids_of m" "pm_items m = 8"
      "pm_audit m = Some a" "mwb_rep a {1..8} {0}"
    using pktid_init_ok [of 8 True] by auto
  then have "map_ok m" by (simp add: map_ok_def audited_def ids_of_def)
  moreover have "2 \<le> card (free_ids m)" using m(3,4) by (simp add: ids_of_def)
  moreover from this have "free_ids m \<noteq> {}" by auto
  ultimately show ?thesis using m(1,3) by blast
qed

lemma demo_claim: "claim_ring dbg (rdev (demo_prot m)) (h2dring_rxp_subn (demo_prot m)) 4 = h2dring_rxp_subn (demo_prot m)"
    "claim_ring dbg (rdev (demo_prot m)) (h2dring_rxp_subn (demo_prot m)) 32 = h2dring_rxp_subn (demo_prot m)"
    "rspace (h2dring_rxp_subn (demo_prot m)) = 62" "\<not> claim_refused (h2dring_rxp_subn (demo_prot m)) 4"
    "\<not> claim_refused (h2dring_rxp_subn (demo_prot m)) 32"
  by (simp_all add: claim_ring_def claim_refused_def rcount_def rspace_def demo_prot_def)

lemma demo_usable: "2 \<le> k \<Longrightarrow> rx_usable (min 4 62) k (pkt_supply (demo_prot m)) = 2" "2 \<le> k \<Longrightarrow> rx_usable (min 32 62) k (pkt_supply (demo_prot m)) = 2"
  by (simp_all add: rx_usable_def demo_prot_def)

text \<open>Four buffers asked for and two packets to be had: both are posted, and the device sees the new write index.\<close>

theorem rx_post_exact_witness:
  "\<exists>m s'. dhd_pktid_map_init True True True 8 = Some (Some m) \<and> dhd_prot_rxbuf_post True 4 (demo_prot m) = Some (s', 2) \<and>
     length (rqueue (h2dring_rxp_subn s') (rxp_slots s')) = 2 \<and> seen_wr (rdev s') (h2dring_rxp_subn s') = Some (mr_wr (h2dring_rxp_subn s'))"
proof -
  obtain m where m: "dhd_pktid_map_init True True True 8 = Some (Some m)" "map_ok m" "free_ids m = ids_of m" "2 \<le> card (free_ids m)"
    using init_map_ok by blast
  have v: "unat (4 :: u16) = 4" "pktid_map (demo_prot m) = m" by (simp_all add: demo_prot_def)
  have n: "rx_usable (min 4 62) (card (free_ids m)) (pkt_supply (demo_prot m)) = 2" by (rule demo_usable [OF m(4)])
  have q: "rcount (h2dring_rxp_subn (demo_prot m)) = 0" by (simp add: rcount_def demo_prot_def)
  from rx_post_exact [OF demo_prot_ok [OF m(2)], of 4] obtain s' ids where
      s': "dhd_prot_rxbuf_post True 4 (demo_prot m) = Some (s', 2)"
      "length ids = 2" "length (map the (take 2 (pkt_supply (demo_prot m)))) = 2"
      "rqueue (h2dring_rxp_subn s') (rxp_slots s') = rqueue (h2dring_rxp_subn (demo_prot m)) (rxp_slots (demo_prot m)) @
         rx_msgs (demo_prot m) (mr_seqnum (h2dring_rxp_subn (demo_prot m))) ids (map the (take 2 (pkt_supply (demo_prot m))))"
      "seen_wr (rdev s') (h2dring_rxp_subn s') = Some (mr_wr (h2dring_rxp_subn s'))"
    unfolding v demo_claim(1,3) n if_not_P [OF demo_claim(4)] by (auto simp: word_less_nat_alt word_le_nat_alt)
  have "length (rqueue (h2dring_rxp_subn s') (rxp_slots s')) = 2" unfolding s'(4) length_append length_rqueue q using s'(2,3) by simp
  then show ?thesis using m(1) s'(1,5) by blast
qed

text \<open>
  C31. A receive completion takes the packet posted under its id out of the map, unmaps its buffer,
  delivers it with the data the message gives, and replaces it. The count of posted buffers falls by
  one and then grows by the buffers \<open>bufs\<close> posted, each under an id that was free (the one just released
  included) with its locker filled; every other locker stays, the device sees the new write index, and
  every packet taken from the system is either posted or unmapped and freed. When fewer than 32 buffers
  are missing (or 32768 or more, the loop counts them as an \<open>int16\<close>) or the ring refuses 32 slots none is
  posted; otherwise at least as many as the first burst of 32 slots finds room, ids and packets for.
  Without assertions, a completion with an id of the map that is not in use leaves the whole state as
  it is, and one for a locker of another type delivers nothing and keeps every locker; nothing else
  changes but the audit of the ids.
\<close>

theorem rx_complete_delivers:
  assumes ok: "prot_ok dbg s" and i: "unat pktid \<in> ids_of (pktid_map s)"
  defines "off \<equiv> rx_metadata_offset s"
  defines "r1 \<equiv> claim_ring dbg (rdev s) (h2dring_rxp_subn s) 32"
  shows "case contents (pktid_map s) (unat pktid) of
      None \<Rightarrow> dhd_prot_rxcmplt_process False pktid doff len ifid s = Some s
    | Some lk \<Rightarrow>
        (if lk_pkttype lk \<noteq> PKTTYPE_DATA_RX
         then \<exists>m. dhd_prot_rxcmplt_process False pktid doff len ifid s = Some (s\<lparr>pktid_map := m\<rparr>) \<and> contents m = contents (pktid_map s)
         else \<forall>p. lk_pkt lk = Some p \<longrightarrow>
           (\<exists>s' bufs ids fails. dhd_prot_rxcmplt_process dbg pktid doff len ifid s = Some s' \<and> prot_ok dbg s' \<and>
              rx_frames s' = rx_frames s @ [\<lparr>rf_pkt = p, rf_pull = if doff \<noteq> 0 then ucast doff else rx_dataoffset s, rf_len = len, rf_ifidx = ifid\<rparr>] \<and>
              unmapped s' = unmapped s @ (lk_pa lk, ucast (lk_len lk)) # map (unmap_of off) fails \<and>
              pfreed (pstore s') = rev (map fst fails) @ pfreed (pstore s) \<and>
              mset (supply_pkts (pkt_supply s)) = mset (map fst bufs) + mset (map fst fails) + mset (supply_pkts (pkt_supply s')) \<and>
              rxbufpost s' = (if rxbufpost s = 0 then 0 else rxbufpost s - 1) + of_nat (length bufs) \<and>
              length ids = length bufs \<and> distinct (map unat ids) \<and>
              (\<forall>k \<in> set ids. k = pktid \<or> contents (pktid_map s) (unat k) = None) \<and>
              contents (pktid_map s') = ((contents (pktid_map s))(unat pktid := None))(map unat ids [\<mapsto>] map (rx_locker off) bufs) \<and>
              (bufs \<noteq> [] \<longrightarrow> seen_wr (rdev s') (h2dring_rxp_subn s') = Some (mr_wr (h2dring_rxp_subn s'))) \<and>
              (if rx_missing s < 32 \<or> 32768 \<le> rx_missing s \<or> claim_refused r1 32 then bufs = [] \<and> fails = []
               else rx_usable (min 32 (rspace r1)) (Suc (card (free_ids (pktid_map s)))) (pkt_supply s) \<le> length bufs)))"
proof (cases "contents (pktid_map s) (unat pktid)")
  case None
  have pk: "pktid_ok (pktid_map s)" and mo: "map_ok (pktid_map s)" using ok by (simp_all add: prot_ok_def map_ok_def)
  obtain a where a: "pm_audit (pktid_map s) = Some a" "mwb_rep a (free_ids (pktid_map s)) (insert 0 (ids_of (pktid_map s) - free_ids (pktid_map s)))"
    using mo by (auto simp: map_ok_def audited_def)
  have fr: "unat pktid \<in> free_ids (pktid_map s)" using None i by (simp add: contents_def free_ids_def split: if_splits)
  have "audit False (pktid_map s) pktid DHD_DUPLICATE_FREE = Some (pktid_map s)"
    using audit_some(2) [OF pk a(1) i, of True False] isfree_id [OF pk a(2) i] fr by simp
  moreover have "dhd_pktid_map_free False (pktid_map s) pktid PKTTYPE_DATA_RX False = Some (pktid_map s, None, None)"
    using free_refused [OF pk i, of PKTTYPE_DATA_RX False False] None by simp
  ultimately show ?thesis using None by (simp add: dhd_prot_rxcmplt_process_def dhd_prot_packet_get_def)
next
  case (Some lk)
  have mo: "map_ok (pktid_map s)" using ok by (simp add: prot_ok_def)
  show ?thesis
  proof (cases "lk_pkttype lk = PKTTYPE_DATA_RX")
    case False
    have "\<exists>m. dhd_prot_rxcmplt_process False pktid doff len ifid s = Some (s\<lparr>pktid_map := m\<rparr>) \<and> contents m = contents (pktid_map s)"
      by (rule rx_wrong_type [OF mo Some False])
    then show ?thesis using Some False by simp
  next
    case True
    show ?thesis
      unfolding Some option.case if_not_P [OF not_not [THEN iffD2, OF True]]
    proof (intro allI impI)
      fix p assume p: "lk_pkt lk = Some p"
      obtain s' bufs ids fails where r: "dhd_prot_rxcmplt_process dbg pktid doff len ifid s = Some s'" "prot_ok dbg s'"
          "rx_delivered dbg pktid lk p doff len ifid s s' bufs ids fails"
        using rx_right_type [OF ok Some True p] by blast
      show "\<exists>s' bufs ids fails. dhd_prot_rxcmplt_process dbg pktid doff len ifid s = Some s' \<and> prot_ok dbg s' \<and>
              rx_frames s' = rx_frames s @ [\<lparr>rf_pkt = p, rf_pull = if doff \<noteq> 0 then ucast doff else rx_dataoffset s, rf_len = len, rf_ifidx = ifid\<rparr>] \<and>
              unmapped s' = unmapped s @ (lk_pa lk, ucast (lk_len lk)) # map (unmap_of off) fails \<and>
              pfreed (pstore s') = rev (map fst fails) @ pfreed (pstore s) \<and>
              mset (supply_pkts (pkt_supply s)) = mset (map fst bufs) + mset (map fst fails) + mset (supply_pkts (pkt_supply s')) \<and>
              rxbufpost s' = (if rxbufpost s = 0 then 0 else rxbufpost s - 1) + of_nat (length bufs) \<and>
              length ids = length bufs \<and> distinct (map unat ids) \<and>
              (\<forall>k \<in> set ids. k = pktid \<or> contents (pktid_map s) (unat k) = None) \<and>
              contents (pktid_map s') = ((contents (pktid_map s))(unat pktid := None))(map unat ids [\<mapsto>] map (rx_locker off) bufs) \<and>
              (bufs \<noteq> [] \<longrightarrow> seen_wr (rdev s') (h2dring_rxp_subn s') = Some (mr_wr (h2dring_rxp_subn s'))) \<and>
              (if rx_missing s < 32 \<or> 32768 \<le> rx_missing s \<or> claim_refused r1 32 then bufs = [] \<and> fails = []
               else rx_usable (min 32 (rspace r1)) (Suc (card (free_ids (pktid_map s)))) (pkt_supply s) \<le> length bufs)"
        using r unfolding rx_delivered_def Let_def off_def r1_def by blast
    qed
  qed
qed

text \<open>One buffer is outstanding; its completion delivers it, and both packets of the supply are posted for it.\<close>

theorem rx_complete_delivers_witness:
  "\<exists>m pktid s' bufs ids. contents m (unat pktid) = Some (rx_locker 0 (300, 12288)) \<and>
     dhd_prot_rxcmplt_process True pktid 0 1500 1 (demo_prot m) = Some s' \<and> prot_ok True s' \<and>
     rx_frames s' = [\<lparr>rf_pkt = 300, rf_pull = 8, rf_len = 1500, rf_ifidx = 1\<rparr>] \<and> hd (unmapped s') = (12288, 2048) \<and>
     2 \<le> length bufs \<and> length ids = length bufs \<and> rxbufpost s' = of_nat (length bufs) \<and>
     contents (pktid_map s') = ((contents m)(unat pktid := None))(map unat (ids :: u32 list) [\<mapsto>] map (rx_locker 0) bufs)"
proof -
  obtain m where m: "map_ok m" "2 \<le> card (free_ids m)" using init_map_ok by blast
  then have ne: "free_ids m \<noteq> {}" by auto
  let ?lk = "rx_locker 0 (300, 12288)" and ?k = "top_id m"
  have lk: "lk_state ?lk \<noteq> LOCKER_IS_FREE" by (simp add: rx_locker_def saved_def)
  obtain m' where m': "map_ok m'" "contents m' = (contents m)(unat ?k \<mapsto> ?lk)" "ids_of m' = ids_of m"
    by (rule alloc_audit [OF m(1) ne lk]) blast
  have kf: "unat ?k \<in> free_ids m" using m(1) by (intro stack_nonempty(2) ne) (simp add: map_ok_def)
  have "free_ids m' = free_ids m - {unat ?k}" using m'(2,3) by (auto simp: free_ids_contents)
  then have card: "2 \<le> Suc (card (free_ids m'))" using m(2) kf by simp
  have c: "contents m' (unat ?k) = Some ?lk" using m'(2) by simp
  then have i: "unat ?k \<in> ids_of (pktid_map (demo_prot m'))" by (simp add: contents_Some demo_prot_def)
  have v: "pktid_map (demo_prot m') = m'" "rx_frames (demo_prot m') = []" "rx_dataoffset (demo_prot m') = 8" "rx_metadata_offset (demo_prot m') = 0"
      "unmapped (demo_prot m') = []" "rxbufpost (demo_prot m') = 0" "rx_missing (demo_prot m') = 64"
    by (simp_all add: demo_prot_def rx_missing_def)
  have t: "lk_pkttype ?lk = PKTTYPE_DATA_RX" "lk_pkt ?lk = Some 300" "lk_pa ?lk = 12288" "ucast (lk_len ?lk) = (2048 :: u32)"
    by (simp_all add: rx_locker_def saved_def)
  note d = rx_complete_delivers [OF demo_prot_ok [OF m'(1)] i, of 0 1500 1, unfolded v c option.case t demo_claim(2,3) demo_usable(2) [OF card]]
  from d demo_claim(5) [of m'] obtain s' bufs ids fails where "dhd_prot_rxcmplt_process True ?k 0 1500 1 (demo_prot m') = Some s'" "prot_ok True s'"
      "rx_frames s' = [\<lparr>rf_pkt = 300, rf_pull = 8, rf_len = 1500, rf_ifidx = 1\<rparr>]"
      "unmapped s' = (12288, 2048) # map (unmap_of 0) fails"
      "contents (pktid_map s') = ((contents m')(unat ?k := None))(map unat (ids :: u32 list) [\<mapsto>] map (rx_locker 0) bufs)"
      "length ids = length bufs" "rxbufpost s' = of_nat (length bufs)" "2 \<le> length bufs"
    by (simp del: fun_upd_apply) blast
  then show ?thesis using c by (intro exI [of _ m'] exI [of _ ?k] exI [of _ s'] exI [of _ bufs] exI [of _ ids]) simp
qed

end
