(* ===== verification/Msgbuf_Tx_Props.thy ===== *)
theory Msgbuf_Tx_Props
  imports Msgbuf_Tx Msgbuf_Rx_Props
begin

text \<open>
  Properties of the transmit side: posting a packet appends one message to the ring of its flow and
  fills one locker, or leaves ring and lockers alone; a burst is announced to the device completely;
  the completions of a burst, in any order, free every packet of it once.
\<close>

section \<open>Claiming one slot\<close>

lemma rspace_0: "ring_ok r \<Longrightarrow> rspace r = 0 \<longleftrightarrow> Suc (rcount r) = unat (mr_max_items r)"
  using ring_okD [of r] by (auto simp: rspace_def rcount_def split: if_splits)

lemma alloc_one:
  assumes ok: "ring_ok r" and dv: "dev_ok dbg dv r"
  obtains (full) rd where "ring_ok (r\<lparr>mr_rd := rd\<rparr>)" and "Suc (rcount (r\<lparr>mr_rd := rd\<rparr>)) = unat (mr_max_items r)"
      and "Suc (rcount r) = unat (mr_max_items r)"
      and "dhd_prot_alloc_ring_space dbg dv r 1 False = Some (r\<lparr>mr_rd := rd\<rparr>, None)"
  | (room) rd where "ring_ok (r\<lparr>mr_rd := rd\<rparr>)" and "1 \<le> rspace (r\<lparr>mr_rd := rd\<rparr>)"
      and "Suc (rcount r) < unat (mr_max_items r) \<longrightarrow> rd = mr_rd r"
      and "dhd_prot_alloc_ring_space dbg dv r 1 False =
             Some (advance_wr (r\<lparr>mr_rd := rd\<rparr>) 1, Some (unat (mr_wr r) * unat (mr_item_len r), 1))"
proof -
  have g: "dhd_prot_get_ring_space dbg x 1 False =
      Some (if rspace x = 0 then (x, None) else (advance_wr x 1, Some (unat (mr_wr x) * unat (mr_item_len x), 1)))"
    if "ring_ok x" for x
  proof -
    have "1 \<le> mr_max_items x" using ring_okD(1) [OF that] by (simp add: word_le_nat_alt)
    from get_ring_space_result [OF that this, of dbg False] show ?thesis by (auto simp: min_def)
  qed
  have less: "Suc (rcount r) \<le> unat (mr_max_items r)" using ring_okD(4) [OF ok] by simp
  show thesis
  proof (cases "rspace r = 0")
    case False
    then have "dhd_prot_alloc_ring_space dbg dv r 1 False = Some (advance_wr (r\<lparr>mr_rd := mr_rd r\<rparr>) 1, Some (unat (mr_wr r) * unat (mr_item_len r), 1))"
      using g [OF ok] by (simp add: dhd_prot_alloc_ring_space_def)
    then show ?thesis using False ok by (intro room [of "mr_rd r"]) simp_all
  next
    case True
    then have fu: "Suc (rcount r) = unat (mr_max_items r)" using rspace_0 [OF ok] by simp
    obtain rd where f: "fetch_rd dbg dv r = Some (r\<lparr>mr_rd := rd\<rparr>)" "ring_ok (r\<lparr>mr_rd := rd\<rparr>)" by (rule fetch_rd_result [OF dv ok])
    have e: "dhd_prot_alloc_ring_space dbg dv r 1 False = dhd_prot_get_ring_space dbg (r\<lparr>mr_rd := rd\<rparr>) 1 False"
      using True g [OF ok] f(1) by (simp add: dhd_prot_alloc_ring_space_def)
    show ?thesis
    proof (cases "rspace (r\<lparr>mr_rd := rd\<rparr>) = 0")
      case True
      then have "Suc (rcount (r\<lparr>mr_rd := rd\<rparr>)) = unat (mr_max_items r)" using rspace_0 [OF f(2)] by simp
      moreover have "dhd_prot_alloc_ring_space dbg dv r 1 False = Some (r\<lparr>mr_rd := rd\<rparr>, None)" unfolding e using g [OF f(2)] True by simp
      ultimately show ?thesis using f(2) fu by (intro full)
    next
      case False
      then have "dhd_prot_alloc_ring_space dbg dv r 1 False = Some (advance_wr (r\<lparr>mr_rd := rd\<rparr>) 1, Some (unat (mr_wr r) * unat (mr_item_len r), 1))"
        unfolding e using g [OF f(2)] by simp
      then show ?thesis using f(2) fu False by (intro room [of rd]) simp_all
    qed
  qed
qed

section \<open>Reserving and giving back an id\<close>

definition reserved :: "dhd_pktid_map \<Rightarrow> pkt_ptr \<Rightarrow> dhd_pktid_item" where
  "reserved m pkt = (pm_lockers m ! unat (top_id m))\<lparr>lk_pkt := pkt, lk_len := 0, lk_state := LOCKER_IS_BUSY\<rparr>"

lemma save_reserved:
  assumes ok: "pktid_ok m" and ne: "free_ids m \<noteq> {}"
  shows "dhd_pktid_map_save dbg (take_id m (unat (top_id m)) (reserved m pkt)) pkt (top_id m) pa len dir dmah secdma ty =
           Some (take_id m (unat (top_id m)) (saved pkt pa len dir dmah secdma ty))"
  using alloc_some [OF ok ne, of dbg pkt pa len dir dmah secdma ty] reserve_some(1) [OF ok ne, of dbg pkt] reserve_some(2) [OF ok ne]
  by (simp add: dhd_pktid_map_alloc_def reserved_def bind_eq_Some_conv)

lemma free_reserved:
  assumes ok: "map_ok m" and ne: "free_ids m \<noteq> {}"
  obtains m' out where "dhd_pktid_map_free dbg (take_id m (unat (top_id m)) (reserved m pkt)) (top_id m) PKTTYPE_NO_CHECK False = Some (m', pkt, out)"
    and "map_ok m'" and "contents m' = contents m" and "ids_of m' = ids_of m" and "free_ids m' = free_ids m"
proof -
  let ?k = "unat (top_id m)" and ?l = "reserved m pkt"
  let ?t = "take_id m ?k ?l" and ?f = "?l\<lparr>lk_state := LOCKER_IS_FREE, lk_pkt := None, lk_len := 0\<rparr>"
  have pk: "pktid_ok m" using ok by (simp add: map_ok_def)
  have lk: "lk_state ?l \<noteq> LOCKER_IS_FREE" "lk_pkt ?l = pkt" by (simp_all add: reserved_def)
  note t = take_id_ok [OF pk ne lk(1)]
  have kf: "?k \<in> free_ids m" by (rule stack_nonempty(2) [OF pk ne])
  have c: "contents ?t ?k = Some ?l" using t(3) by simp
  note g = give_id_ok [OF t(1), of "top_id m" ?f]
  have "dhd_pktid_map_free dbg ?t (top_id m) PKTTYPE_NO_CHECK False =
      Some (give_id ?t (top_id m) ?f, pkt, Some (lk_pa ?l, ucast (lk_len ?l), lk_dmah ?l, lk_secdma ?l))"
    using free_some [OF t(1) c, of PKTTYPE_NO_CHECK dbg False] lk(2) by simp
  moreover have fr: "free_ids (give_id ?t (top_id m) ?f) = free_ids m" using g(2) c t(2) kf by auto
  moreover have "contents m ?k = None" using kf by (simp add: contents_def free_ids_def)
  then have "contents (give_id ?t (top_id m) ?f) = contents m" using g(3) c t(3) by auto
  moreover have id: "ids_of (give_id ?t (top_id m) ?f) = ids_of m" using g(5) c t(4) by simp
  moreover have "pm_audit (give_id ?t (top_id m) ?f) = pm_audit m" by (simp add: give_id_def take_id_def)
  then have "map_ok (give_id ?t (top_id m) ?f)" using ok g(1) c fr id by (simp add: map_ok_def audited_def)
  ultimately show thesis using that by blast
qed

section \<open>The ring of a flow\<close>

lemma ring_pend [simp]:
  "ring_ok (r\<lparr>mr_pend_items_count := n\<rparr>) = ring_ok r" "ring_ok (r\<lparr>mr_start_addr := a\<rparr>) = ring_ok r"
  "rqueue (r\<lparr>mr_pend_items_count := n\<rparr>) slots = rqueue r slots" "rqueue (r\<lparr>mr_start_addr := a\<rparr>) slots = rqueue r slots"
  "rcount (r\<lparr>mr_pend_items_count := n\<rparr>) = rcount r" "rcount (r\<lparr>mr_start_addr := a\<rparr>) = rcount r"
  "seen_wr dv (r\<lparr>mr_pend_items_count := n\<rparr>) = seen_wr dv r" "seen_wr dv (r\<lparr>mr_start_addr := a\<rparr>) = seen_wr dv r"
  "seen_wr dv (r\<lparr>mr_rd := rd\<rparr>) = seen_wr dv r"
  by (simp_all add: ring_ok_def rqueue_def rcount_def seen_wr_def)

lemma dev_ok_pend [simp]:
  "dev_ok dbg dv (r\<lparr>mr_pend_items_count := n\<rparr>) = dev_ok dbg dv r" "dev_ok dbg dv (r\<lparr>mr_start_addr := a\<rparr>) = dev_ok dbg dv r"
  "dev_ok dbg dv (r\<lparr>mr_rd := rd\<rparr>) = dev_ok dbg dv r" "dev_ok dbg dv (advance_wr r k) = dev_ok dbg dv r"
  by (rule dev_ok_cong; simp add: advance_wr_def)+

lemma advance_wr_fields [simp]:
  "mr_pend_items_count (advance_wr r k) = mr_pend_items_count r" "mr_start_addr (advance_wr r k) = mr_start_addr r"
  "mr_item_len (advance_wr r k) = mr_item_len r" "mr_max_items (advance_wr r k) = mr_max_items r"
  "seen_wr dv (advance_wr r k) = seen_wr dv r"
  by (simp_all add: advance_wr_def seen_wr_def)

lemma get_flow_ring_frame [simp]:
  "get_flow_ring (s\<lparr>mprot := q\<rparr>) fid = get_flow_ring s fid" "get_flow_ring (s\<lparr>flow_slots := fs\<rparr>) fid = get_flow_ring s fid"
  "get_flow_ring (s\<lparr>wake_locks := n\<rparr>) fid = get_flow_ring s fid"
  by (simp_all add: get_flow_ring_def)

lemma get_flow_ringD:
  assumes "get_flow_ring s fid = Some (ri, r)"
  shows "prot_info s \<noteq> None" "ri < length (h2d_flowrings_pool s)" "h2d_flowrings_pool s ! ri = r"
  using assms by (auto simp: get_flow_ring_def bind_eq_Some_conv arr_get_eq_Some)

lemma get_flow_ring_put:
  assumes "get_flow_ring s fid = Some (ri, r)"
  shows "get_flow_ring (s\<lparr>h2d_flowrings_pool := (h2d_flowrings_pool s)[ri := r']\<rparr>) fid = Some (ri, r')"
  using assms by (auto simp: get_flow_ring_def bind_eq_Some_conv arr_get_eq_Some)

definition flow_pre :: "bool \<Rightarrow> dhd_msgbuf \<Rightarrow> nat \<Rightarrow> msgbuf_ring \<Rightarrow> bool" where
  "flow_pre dbg s ri r \<longleftrightarrow> ring_ok r \<and> dev_ok dbg (rdev (mprot s)) r \<and> ri < length (flow_slots s) \<and>
     length (flow_slots s ! ri) = unat (mr_max_items r) \<and> 0 < unat (mr_item_len r)"

text \<open>The messages not yet announced end at the write index and do not wrap.\<close>

definition ann :: "ring_dev \<Rightarrow> msgbuf_ring \<Rightarrow> bool" where
  "ann dv r \<longleftrightarrow> (\<exists>w. seen_wr dv r = Some w \<and> unat w + unat (mr_pend_items_count r) = unat (mr_wr r))"

definition tx_ok :: "bool \<Rightarrow> u16 \<Rightarrow> dhd_msgbuf \<Rightarrow> bool" where
  "tx_ok dbg fid s \<longleftrightarrow> map_ok (pktid_map (mprot s)) \<and>
     (\<exists>ri r. get_flow_ring s fid = Some (ri, r) \<and> flow_pre dbg s ri r \<and> ann (rdev (mprot s)) r)"

definition flow_ring_of :: "dhd_msgbuf \<Rightarrow> u16 \<Rightarrow> msgbuf_ring" where
  "flow_ring_of s fid = snd (the (get_flow_ring s fid))"

definition flow_slots_of :: "dhd_msgbuf \<Rightarrow> u16 \<Rightarrow> host_txbuf_post list" where
  "flow_slots_of s fid = flow_slots s ! fst (the (get_flow_ring s fid))"

lemma flow_ring_of_simp [simp]:
  "get_flow_ring s fid = Some (ri, r) \<Longrightarrow> flow_ring_of s fid = r" "get_flow_ring s fid = Some (ri, r) \<Longrightarrow> flow_slots_of s fid = flow_slots s ! ri"
  by (simp_all add: flow_ring_of_def flow_slots_of_def)

text \<open>What posting leaves alone.\<close>

definition tx_frame :: "u16 \<Rightarrow> dhd_msgbuf \<Rightarrow> dhd_msgbuf \<Rightarrow> bool" where
  "tx_frame fid s s' \<longleftrightarrow> prot_info s' = prot_info s \<and> txp_threshold s' = txp_threshold s \<and> tx_metadata_offset s' = tx_metadata_offset s \<and>
     pstore (mprot s') = pstore (mprot s) \<and> tx_done (mprot s') = tx_done (mprot s) \<and> ids_of (pktid_map (mprot s')) = ids_of (pktid_map (mprot s)) \<and>
     (\<forall>j. Some j \<noteq> map_option fst (get_flow_ring s fid) \<longrightarrow>
        h2d_flowrings_pool s' ! j = h2d_flowrings_pool s ! j \<and> flow_slots s' ! j = flow_slots s ! j) \<and>
     map_option fst (get_flow_ring s' fid) = map_option fst (get_flow_ring s fid) \<and>
     mr_max_items (flow_ring_of s' fid) = mr_max_items (flow_ring_of s fid)"

lemma tx_frame_refl [simp]: "tx_frame fid s s"
  by (simp add: tx_frame_def)

lemma tx_frame_trans: "tx_frame fid s s1 \<Longrightarrow> tx_frame fid s1 s2 \<Longrightarrow> tx_frame fid s s2"
  by (simp add: tx_frame_def)

lemma tx_frameI:
  assumes "get_flow_ring s fid = Some (ri, r)" and "get_flow_ring s' fid = Some (ri, r')" and "mr_max_items r' = mr_max_items r"
    and "prot_info s' = prot_info s" and "txp_threshold s' = txp_threshold s" and "tx_metadata_offset s' = tx_metadata_offset s"
    and "pstore (mprot s') = pstore (mprot s)" and "tx_done (mprot s') = tx_done (mprot s)"
    and "ids_of (pktid_map (mprot s')) = ids_of (pktid_map (mprot s))"
    and "\<And>j. j \<noteq> ri \<Longrightarrow> h2d_flowrings_pool s' ! j = h2d_flowrings_pool s ! j"
    and "\<And>j. j \<noteq> ri \<Longrightarrow> flow_slots s' ! j = flow_slots s ! j"
  shows "tx_frame fid s s'"
  using assms by (simp add: tx_frame_def flow_ring_of_def)

lemma flush_result:
  assumes g: "get_flow_ring s fid = Some (ri, r)" and p: "flow_pre dbg s ri r"
    and a: "mr_pend_items_count r \<noteq> 0 \<or> ann (rdev (mprot s)) r"
  obtains dv x where "dhd_prot_txdata_write_flush dbg fid s = Some (s\<lparr>mprot := (mprot s)\<lparr>rdev := dv\<rparr>,
        h2d_flowrings_pool := (h2d_flowrings_pool s)[ri := r\<lparr>mr_pend_items_count := 0, mr_start_addr := x\<rparr>]\<rparr>)"
    and "seen_wr dv r = Some (mr_wr r)" and "\<And>r'. dev_ok dbg (rdev (mprot s)) r' \<Longrightarrow> dev_ok dbg dv r'"
proof -
  note d = get_flow_ringD [OF g]
  show thesis
  proof (cases "mr_pend_items_count r = 0")
    case True
    have "seen_wr (rdev (mprot s)) r = Some (mr_wr r)" using a True by (auto simp: ann_def intro: word_unat_eq_iff [THEN iffD2])
    moreover have "(h2d_flowrings_pool s)[ri := r\<lparr>mr_pend_items_count := 0, mr_start_addr := mr_start_addr r\<rparr>] = h2d_flowrings_pool s"
      using True d by (metis list_update_id msgbuf_ring.surjective msgbuf_ring.update_convs(9,10))
    ultimately show ?thesis using that [where dv = "rdev (mprot s)" and x = "mr_start_addr r"] True g d by (simp add: dhd_prot_txdata_write_flush_def)
  next
    case False
    have "dev_ok dbg (rdev (mprot s)) r" using p by (simp add: flow_pre_def)
    then obtain dv where "dhd_prot_ring_write_complete dbg (rdev (mprot s)) r = Some dv" "seen_wr dv r = Some (mr_wr r)"
        "\<And>r'. dev_ok dbg (rdev (mprot s)) r' \<Longrightarrow> dev_ok dbg dv r'"
      by (rule write_complete_seen) blast
    then show ?thesis using that [where dv = dv and x = None] False g d by (simp add: dhd_prot_txdata_write_flush_def)
  qed
qed

section \<open>Posting a packet\<close>

definition pkt_ready :: "bool \<Rightarrow> u16 \<Rightarrow> u16 \<Rightarrow> tx_pkt \<Rightarrow> bool" where
  "pkt_ready dbg off fid tp \<longleftrightarrow> tk_flowid tp = fid \<and> 14 \<le> length (tk_data tp) \<and>
     (dbg \<longrightarrow> tk_pa tp \<noteq> 0 \<and> (off \<noteq> 0 \<and> off \<le> tk_headroom tp \<longrightarrow> tk_meta_pa tp \<noteq> 0))"

definition tx_len :: "tx_pkt \<Rightarrow> u32" where
  "tx_len tp = of_nat (length (tk_data tp)) - 14"

definition tx_locker :: "pkt \<Rightarrow> tx_pkt \<Rightarrow> dhd_pktid_item" where
  "tx_locker p tp = saved (Some p) (tk_pa tp) (tx_len tp) 1 None None PKTTYPE_DATA_TX"

lemma write_slots_one: "w < length slots \<Longrightarrow> write_slots slots w [m] = slots[w := m]"
  by (simp add: write_slots_def upd_conv_take_nth_drop)

text \<open>The ring with one more message that is not announced.\<close>

lemma ann_advance:
  assumes ok: "ring_ok r" and sp: "1 \<le> rspace r" and a: "ann dv r" and il: "0 < unat (mr_item_len r)"
  shows "mr_pend_items_count r + 1 \<noteq> 0"
    and "unat (mr_wr r) * unat (mr_item_len r) \<noteq> (unat (mr_max_items r) - 1) * unat (mr_item_len r) \<Longrightarrow>
      ann dv ((advance_wr r 1)\<lparr>mr_start_addr := x, mr_pend_items_count := mr_pend_items_count r + 1\<rparr>)"
proof -
  note d = ring_okD [OF ok]
  obtain w where w: "seen_wr dv r = Some w" "unat w + unat (mr_pend_items_count r) = unat (mr_wr r)" using a by (auto simp: ann_def)
  have inc: "unat (mr_pend_items_count r + 1) = Suc (unat (mr_pend_items_count r))" by (rule unat_inc [of _ 65535]) (use w d in simp_all)
  then show "mr_pend_items_count r + 1 \<noteq> 0" by (intro notI) simp
  assume "unat (mr_wr r) * unat (mr_item_len r) \<noteq> (unat (mr_max_items r) - 1) * unat (mr_item_len r)"
  then have ne: "unat (mr_wr r) + 1 \<noteq> unat (mr_max_items r)" by auto
  have "unat (mr_wr r + 1) = Suc (unat (mr_wr r))" by (rule unat_inc [of _ 65535]) (use d in simp_all)
  then show "ann dv ((advance_wr r 1)\<lparr>mr_start_addr := x, mr_pend_items_count := mr_pend_items_count r + 1\<rparr>)"
    using w inc ne by (auto simp: ann_def advance_wr_def seen_wr_def)
qed

definition tx_posted :: "u16 \<Rightarrow> pkt \<Rightarrow> tx_pkt \<Rightarrow> u8 \<Rightarrow> dhd_msgbuf \<Rightarrow> dhd_msgbuf \<Rightarrow> u32 \<Rightarrow> bool" where
  "tx_posted fid p tp ifidx s s' pktid \<longleftrightarrow>
     (\<exists>rd. (Suc (rcount (flow_ring_of s fid)) < unat (mr_max_items (flow_ring_of s fid)) \<longrightarrow> rd = mr_rd (flow_ring_of s fid)) \<and>
        rqueue (flow_ring_of s' fid) (flow_slots_of s' fid) =
          rqueue ((flow_ring_of s fid)\<lparr>mr_rd := rd\<rparr>) (flow_slots_of s fid) @ [txpost_msg s tp ifidx pktid (tx_len tp)]) \<and>
     contents (pktid_map (mprot s)) (unat pktid) = None \<and>
     contents (pktid_map (mprot s')) = (contents (pktid_map (mprot s)))(unat pktid \<mapsto> tx_locker p tp) \<and>
     active_tx_count (mprot s') = active_tx_count (mprot s) + 1"

definition tx_refused :: "u16 \<Rightarrow> dhd_msgbuf \<Rightarrow> dhd_msgbuf \<Rightarrow> bool" where
  "tx_refused fid s s' \<longleftrightarrow>
     (free_ids (pktid_map (mprot s)) = {} \<or>
      Suc (rcount (flow_ring_of s fid)) = unat (mr_max_items (flow_ring_of s fid)) \<and>
      Suc (rcount (flow_ring_of s' fid)) = unat (mr_max_items (flow_ring_of s' fid))) \<and>
     (\<exists>rd. flow_ring_of s' fid = (flow_ring_of s fid)\<lparr>mr_rd := rd\<rparr>) \<and> flow_slots s' = flow_slots s \<and>
     rdev (mprot s') = rdev (mprot s) \<and> contents (pktid_map (mprot s')) = contents (pktid_map (mprot s)) \<and>
     active_tx_count (mprot s') = active_tx_count (mprot s)"

lemma txdata_no_id:
  assumes ok: "tx_ok dbg fid s" and e: "free_ids (pktid_map (mprot s)) = {}"
  shows "\<exists>s'. dhd_prot_txdata dbg p tp ifidx s = Some (s', BCME_NORESOURCE) \<and> tx_ok dbg fid s' \<and> tx_frame fid s s' \<and> tx_refused fid s s'"
proof -
  let ?m = "pktid_map (mprot s)"
  let ?s = "s\<lparr>mprot := (mprot s)\<lparr>pktid_map := ?m\<lparr>pm_failures := pm_failures ?m + 1\<rparr>\<rparr>\<rparr>"
  obtain ri r where g: "get_flow_ring s fid = Some (ri, r)" and mo: "map_ok ?m" using ok by (auto simp: tx_ok_def)
  have "dhd_prot_txdata dbg p tp ifidx s = Some (?s, BCME_NORESOURCE)"
    using reserve_none [OF _ e] mo get_flow_ringD(1) [OF g] by (auto simp: dhd_prot_txdata_def map_ok_def Let_def)
  moreover have "tx_ok dbg fid ?s" using ok by (auto simp: tx_ok_def flow_pre_def map_ok_def audited_def)
  moreover have "tx_frame fid s ?s" "tx_refused fid s ?s"
    using g e by (auto simp: tx_frame_def tx_refused_def flow_ring_of_def intro: exI [of _ "mr_rd r"])
  ultimately show ?thesis by blast
qed

lemma txdata_full:
  assumes g: "get_flow_ring s fid = Some (ri, r)" and pre: "flow_pre dbg s ri r" and an: "ann (rdev (mprot s)) r"
    and mo: "map_ok (pktid_map (mprot s))" and ne: "free_ids (pktid_map (mprot s)) \<noteq> {}" and tp: "tk_flowid tp = fid"
    and rd: "ring_ok (r\<lparr>mr_rd := rd\<rparr>)" "Suc (rcount (r\<lparr>mr_rd := rd\<rparr>)) = unat (mr_max_items r)" "Suc (rcount r) = unat (mr_max_items r)"
    and al: "dhd_prot_alloc_ring_space dbg (rdev (mprot s)) r 1 False = Some (r\<lparr>mr_rd := rd\<rparr>, None)"
  shows "\<exists>s'. dhd_prot_txdata dbg p tp ifidx s = Some (s', BCME_NORESOURCE) \<and> tx_ok dbg fid s' \<and> tx_frame fid s s' \<and> tx_refused fid s s'"
proof -
  let ?m = "pktid_map (mprot s)"
  have pk: "pktid_ok ?m" using mo by (simp add: map_ok_def)
  obtain m' out where f: "dhd_pktid_map_free dbg (take_id ?m (unat (top_id ?m)) (reserved ?m (Some p))) (top_id ?m) PKTTYPE_NO_CHECK False = Some (m', Some p, out)"
      "map_ok m'" "contents m' = contents ?m" "ids_of m' = ids_of ?m"
    by (rule free_reserved [OF mo ne]) blast
  define s' where "s' = s\<lparr>mprot := (mprot s)\<lparr>pktid_map := m'\<rparr>, h2d_flowrings_pool := (h2d_flowrings_pool s)[ri := r\<lparr>mr_rd := rd\<rparr>]\<rparr>"
  have "dhd_prot_txdata dbg p tp ifidx s = Some (s', BCME_NORESOURCE)"
    using reserve_some [OF pk ne] get_flow_ringD(1) [OF g] g tp al f(1)
    by (auto simp: dhd_prot_txdata_def Let_def reserved_def [symmetric] s'_def)
  moreover have g': "get_flow_ring s' fid = Some (ri, r\<lparr>mr_rd := rd\<rparr>)"
    using get_flow_ring_put [of "s\<lparr>mprot := (mprot s)\<lparr>pktid_map := m'\<rparr>\<rparr>" fid ri r "r\<lparr>mr_rd := rd\<rparr>"] g by (simp add: s'_def)
  moreover have "flow_pre dbg s' ri (r\<lparr>mr_rd := rd\<rparr>)" "ann (rdev (mprot s')) (r\<lparr>mr_rd := rd\<rparr>)"
    using pre rd(1) an by (auto simp: flow_pre_def s'_def ann_def)
  moreover have "map_ok (pktid_map (mprot s'))" using f(2) by (simp add: s'_def)
  moreover have "tx_frame fid s s'"
    by (rule tx_frameI [OF g g']) (simp_all add: s'_def f(4))
  moreover have "tx_refused fid s s'" using g g' rd f(3) by (auto simp: tx_refused_def) (simp_all add: s'_def)
  ultimately show ?thesis unfolding tx_ok_def by blast
qed

text \<open>The announcement at the end of posting, if there is one.\<close>

definition tx_flushed :: "nat \<Rightarrow> dhd_msgbuf \<Rightarrow> dhd_msgbuf \<Rightarrow> msgbuf_ring \<Rightarrow> msgbuf_ring \<Rightarrow> bool" where
  "tx_flushed ri s s' r r' \<longleftrightarrow> (\<exists>n x dv. r' = r\<lparr>mr_pend_items_count := n, mr_start_addr := x\<rparr> \<and>
     s' = s\<lparr>mprot := (mprot s)\<lparr>rdev := dv\<rparr>, h2d_flowrings_pool := (h2d_flowrings_pool s)[ri := r']\<rparr>)"

lemma maybe_flush:
  assumes g: "get_flow_ring s fid = Some (ri, r)" and p: "flow_pre dbg s ri r" and pe: "mr_pend_items_count r \<noteq> 0"
    and an: "\<not> b \<Longrightarrow> ann (rdev (mprot s)) r"
  shows "\<exists>s' r'. (if b then dhd_prot_txdata_write_flush dbg fid s else Some s) = Some s' \<and> get_flow_ring s' fid = Some (ri, r') \<and>
     flow_pre dbg s' ri r' \<and> ann (rdev (mprot s')) r' \<and> tx_flushed ri s s' r r'"
proof (cases b)
  case False
  have "(h2d_flowrings_pool s)[ri := r] = h2d_flowrings_pool s" using get_flow_ringD [OF g] by (metis list_update_id)
  then have "tx_flushed ri s s r r"
    unfolding tx_flushed_def
    by (intro exI [of _ "mr_pend_items_count r"] exI [of _ "mr_start_addr r"] exI [of _ "rdev (mprot s)"]) simp
  then show ?thesis using False g p an by auto
next
  case True
  obtain dv y where f: "dhd_prot_txdata_write_flush dbg fid s = Some (s\<lparr>mprot := (mprot s)\<lparr>rdev := dv\<rparr>,
        h2d_flowrings_pool := (h2d_flowrings_pool s)[ri := r\<lparr>mr_pend_items_count := 0, mr_start_addr := y\<rparr>]\<rparr>)"
      "seen_wr dv r = Some (mr_wr r)" "\<And>r'. dev_ok dbg (rdev (mprot s)) r' \<Longrightarrow> dev_ok dbg dv r'"
    by (rule flush_result [OF g p]) (use pe in blast)+
  define r' where "r' = r\<lparr>mr_pend_items_count := 0, mr_start_addr := y\<rparr>"
  define s' where "s' = s\<lparr>mprot := (mprot s)\<lparr>rdev := dv\<rparr>, h2d_flowrings_pool := (h2d_flowrings_pool s)[ri := r']\<rparr>"
  have "get_flow_ring s' fid = Some (ri, r')"
    using get_flow_ring_put [of "s\<lparr>mprot := (mprot s)\<lparr>rdev := dv\<rparr>\<rparr>" fid ri r r'] g by (simp add: s'_def)
  moreover have "flow_pre dbg s' ri r'" using p f(3) by (simp add: flow_pre_def s'_def r'_def)
  moreover have "ann (rdev (mprot s')) r'" using f(2) by (simp add: ann_def s'_def r'_def)
  moreover have "tx_flushed ri s s' r r'" unfolding tx_flushed_def s'_def r'_def by blast
  ultimately show ?thesis using True f(1) unfolding s'_def r'_def by auto
qed

lemma txdata_room:
  assumes g: "get_flow_ring s fid = Some (ri, r)" and pre: "flow_pre dbg s ri r" and an: "ann (rdev (mprot s)) r"
    and mo: "map_ok (pktid_map (mprot s))" and ne: "free_ids (pktid_map (mprot s)) \<noteq> {}" and tp: "pkt_ready dbg (tx_metadata_offset s) fid tp"
    and rd: "ring_ok (r\<lparr>mr_rd := rd\<rparr>)" "1 \<le> rspace (r\<lparr>mr_rd := rd\<rparr>)" "Suc (rcount r) < unat (mr_max_items r) \<longrightarrow> rd = mr_rd r"
    and al: "dhd_prot_alloc_ring_space dbg (rdev (mprot s)) r 1 False =
      Some (advance_wr (r\<lparr>mr_rd := rd\<rparr>) 1, Some (unat (mr_wr r) * unat (mr_item_len r), 1))"
  shows "\<exists>s' pktid. dhd_prot_txdata dbg p tp ifidx s = Some (s', BCME_OK) \<and> tx_ok dbg fid s' \<and> tx_frame fid s s' \<and>
     tx_posted fid p tp ifidx s s' pktid \<and> free_ids (pktid_map (mprot s')) = free_ids (pktid_map (mprot s)) - {unat pktid}"
proof -
  let ?m = "pktid_map (mprot s)" and ?r1 = "r\<lparr>mr_rd := rd\<rparr>" and ?w = "unat (mr_wr r)"
  let ?k = "top_id ?m" and ?addr = "unat (mr_wr r) * unat (mr_item_len r)"
  have pk: "pktid_ok ?m" using mo by (simp add: map_ok_def)
  obtain m' where m': "audit dbg (take_id ?m (unat ?k) (tx_locker p tp)) ?k DHD_DUPLICATE_ALLOC = Some m'" "map_ok m'"
      "contents m' = (contents ?m)(unat ?k \<mapsto> tx_locker p tp)" "ids_of m' = ids_of ?m"
    by (rule alloc_audit [OF mo ne, of "tx_locker p tp"]) (simp add: tx_locker_def saved_def, blast)
  have kf: "unat ?k \<in> free_ids ?m" by (rule stack_nonempty(2) [OF pk ne])
  have cn: "contents ?m (unat ?k) = None" using kf by (simp add: contents_def free_ids_def)
  define x where "x = (if mr_pend_items_count r = 0 then Some ?addr else mr_start_addr r)"
  define r2 where "r2 = (advance_wr ?r1 1)\<lparr>mr_start_addr := x, mr_pend_items_count := mr_pend_items_count r + 1\<rparr>"
  have ring: "(let ring = if mr_pend_items_count (advance_wr ?r1 1) = 0 then (advance_wr ?r1 1)\<lparr>mr_start_addr := Some ?addr\<rparr> else advance_wr ?r1 1
      in ring\<lparr>mr_pend_items_count := mr_pend_items_count ring + 1\<rparr>) = r2"
    by (simp add: r2_def x_def)
  let ?msg = "txpost_msg s tp ifidx ?k (tx_len tp)"
  define s1 where "s1 = s\<lparr>mprot := (mprot s)\<lparr>pktid_map := m'\<rparr>, h2d_flowrings_pool := (h2d_flowrings_pool s)[ri := r2],
     flow_slots := (flow_slots s)[ri := (flow_slots s ! ri)[?w := ?msg]]\<rparr>"
  let ?fl = "mr_pend_items_count r2 = txp_threshold s1 \<or> ?addr = (unat (mr_max_items r2) - 1) * unat (mr_item_len r2)"
  have pr: "ri < length (flow_slots s)" "length (flow_slots s ! ri) = unat (mr_max_items r)" "0 < unat (mr_item_len r)" "dev_ok dbg (rdev (mprot s)) r"
    using pre by (simp_all add: flow_pre_def)
  have wl: "?w < length (flow_slots s ! ri)" using ring_okD(2) [OF rd(1)] pr(2) by simp
  define fin where "fin = (\<lambda>s :: dhd_msgbuf. let cnt = active_tx_count (mprot s) + 1 in
     s\<lparr>mprot := (mprot s)\<lparr>active_tx_count := cnt\<rparr>, wake_locks := if cnt = 1 then wake_locks s + 1 else wake_locks s\<rparr>)"
  have run: "dhd_prot_txdata dbg p tp ifidx s =
      do { s \<leftarrow> (if ?fl then dhd_prot_txdata_write_flush dbg fid s1 else Some s1); Some (fin s, BCME_OK) }"
  proof -
    have as: "tk_flowid tp = fid" "ASSERT (14 \<le> length (tk_data tp)) = Some ()" "DBG_ASSERT dbg (tk_pa tp \<noteq> 0) = Some ()"
        "DBG_ASSERT dbg (tx_metadata_offset s \<noteq> 0 \<and> tx_metadata_offset s \<le> tk_headroom tp \<longrightarrow> tk_meta_pa tp \<noteq> 0) = Some ()"
      using tp by (auto simp: pkt_ready_def DBG_ASSERT_def)
    have sv: "dhd_pktid_map_save dbg (take_id ?m (unat ?k) (reserved ?m (Some p))) (Some p) ?k (tk_pa tp) (tx_len tp) 1 None None PKTTYPE_DATA_TX =
        Some (take_id ?m (unat ?k) (tx_locker p tp))"
      unfolding tx_locker_def by (rule save_reserved [OF pk ne])
    have rs: "dhd_pktid_map_reserve dbg ?m (Some p) = Some (take_id ?m (unat ?k) (reserved ?m (Some p)), ?k)" "?k \<noteq> 0"
      using reserve_some [OF pk ne] by (simp_all add: reserved_def)
    have s1': "arr_get (flow_slots s) ri = Some (flow_slots s ! ri)"
        "arr_set (flow_slots s ! ri) ?w ?msg = Some ((flow_slots s ! ri)[?w := ?msg])" using pr wl by simp_all
    have tl: "of_nat (length (tk_data tp)) - of_nat 14 = tx_len tp" by (simp add: tx_len_def)
    note ring' = ring [unfolded Let_def]
    show ?thesis
      unfolding dhd_prot_txdata_def Let_def if_not_P [OF get_flow_ringD(1) [OF g]] rs(1) bind.bind_lunit prod.case if_not_P [OF rs(2)] as(1) g al
        option.case as(2,3,4) tl sv ring' m'(1) s1' fin_def s1_def [symmetric] ..
  qed
  have g1: "get_flow_ring s1 fid = Some (ri, r2)"
    using get_flow_ring_put [of "s\<lparr>mprot := (mprot s)\<lparr>pktid_map := m'\<rparr>\<rparr>" fid ri r r2] g by (simp add: s1_def get_flow_ring_def)
  note adv = advance_wr_ok [OF rd(1,2)]
  have p1: "flow_pre dbg s1 ri r2"
    using adv pr by (simp add: flow_pre_def s1_def r2_def)
  have an1: "ann (rdev (mprot s)) ?r1" using an by (simp add: ann_def)
  have pe: "mr_pend_items_count r2 \<noteq> 0" using ann_advance(1) [OF rd(1,2) an1] pr(3) by (simp add: r2_def)
  have an2: "ann (rdev (mprot s1)) r2" if "\<not> ?fl"
    using ann_advance(2) [OF rd(1,2) an1, of x] that pr(3) by (simp add: r2_def s1_def)
  obtain s2 r3 where s2: "(if ?fl then dhd_prot_txdata_write_flush dbg fid s1 else Some s1) = Some s2"
      "get_flow_ring s2 fid = Some (ri, r3)" "flow_pre dbg s2 ri r3" "ann (rdev (mprot s2)) r3" "tx_flushed ri s1 s2 r2 r3"
    using maybe_flush [OF g1 p1 pe, of ?fl] an2 by blast
  have s2s: "flow_slots s2 = flow_slots s1" "mr_max_items r3 = mr_max_items r" "rqueue r3 sl = rqueue (advance_wr ?r1 1) sl"
      "pktid_map (mprot s2) = m'" "active_tx_count (mprot s2) = active_tx_count (mprot s)" "pstore (mprot s2) = pstore (mprot s)"
      "tx_done (mprot s2) = tx_done (mprot s)" "h2d_flowrings_pool s2 = (h2d_flowrings_pool s1)[ri := r3]" "prot_info s2 = prot_info s"
      "txp_threshold s2 = txp_threshold s" "tx_metadata_offset s2 = tx_metadata_offset s" for sl
    using s2(5) by (auto simp: tx_flushed_def s1_def r2_def)
  have run': "dhd_prot_txdata dbg p tp ifidx s = Some (fin s2, BCME_OK)" unfolding run s2(1) by simp
  have gf: "get_flow_ring (fin s2) fid = Some (ri, r3)" using s2(2) by (simp add: fin_def Let_def)
  have fs: "pktid_map (mprot (fin s2)) = m'" "flow_slots (fin s2) = flow_slots s1" "rdev (mprot (fin s2)) = rdev (mprot s2)"
      "active_tx_count (mprot (fin s2)) = active_tx_count (mprot s) + 1" "h2d_flowrings_pool (fin s2) = h2d_flowrings_pool s2"
      "prot_info (fin s2) = prot_info s" "txp_threshold (fin s2) = txp_threshold s" "tx_metadata_offset (fin s2) = tx_metadata_offset s"
      "pstore (mprot (fin s2)) = pstore (mprot s)" "tx_done (mprot (fin s2)) = tx_done (mprot s)"
    by (simp_all add: fin_def Let_def s2s)
  have "tx_ok dbg fid (fin s2)"
    unfolding tx_ok_def fs using gf s2(3,4) m'(2) fs(2,3) s2s(1) by (auto simp: flow_pre_def)
  moreover have "tx_frame fid s (fin s2)"
    by (rule tx_frameI [OF g gf]) (simp_all add: fs s2s s1_def m'(4))
  moreover have "rqueue (advance_wr ?r1 1) (write_slots (flow_slots s ! ri) ?w [?msg]) = rqueue ?r1 (flow_slots s ! ri) @ [?msg]"
    using rqueue_append [OF rd(1), of "[?msg]" "flow_slots s ! ri"] rd(2) pr(2) by simp
  then have "rqueue r3 (flow_slots (fin s2) ! ri) = rqueue ?r1 (flow_slots s ! ri) @ [?msg]"
    using pr(1) write_slots_one [OF wl] by (simp add: fs s2s s1_def)
  then have "tx_posted fid p tp ifidx s (fin s2) ?k"
    using g gf rd(3) cn m'(3) unfolding tx_posted_def fs by (auto simp: fs)
  moreover have "free_ids m' = free_ids ?m - {unat ?k}"
  proof -
    have "free_ids m' = ids_of m' - dom (contents m')" "free_ids ?m = ids_of ?m - dom (contents ?m)"
      using dom_contents free_ids_subset by blast+
    then show ?thesis using m'(3,4) by auto
  qed
  ultimately show ?thesis using run' fs(1) by metis
qed

lemma txdata_result:
  assumes ok: "tx_ok dbg fid s" and tp: "pkt_ready dbg (tx_metadata_offset s) fid tp"
  shows "\<exists>s' ret. dhd_prot_txdata dbg p tp ifidx s = Some (s', ret) \<and> tx_ok dbg fid s' \<and> tx_frame fid s s' \<and>
     (ret = BCME_NORESOURCE \<and> tx_refused fid s s' \<or>
      ret = BCME_OK \<and> (\<exists>pktid. tx_posted fid p tp ifidx s s' pktid \<and>
        unat pktid \<in> free_ids (pktid_map (mprot s)) \<and>
        free_ids (pktid_map (mprot s')) = free_ids (pktid_map (mprot s)) - {unat pktid}))"
proof (cases "free_ids (pktid_map (mprot s)) = {}")
  case True
  from txdata_no_id [OF ok True, of p tp ifidx] show ?thesis by blast
next
  case False
  obtain ri r where s: "get_flow_ring s fid = Some (ri, r)" "flow_pre dbg s ri r" "ann (rdev (mprot s)) r" "map_ok (pktid_map (mprot s))"
    using ok by (auto simp: tx_ok_def)
  have r: "ring_ok r" "dev_ok dbg (rdev (mprot s)) r" using s(2) by (simp_all add: flow_pre_def)
  show ?thesis
  proof (rule alloc_one [OF r])
    fix rd
    assume "ring_ok (r\<lparr>mr_rd := rd\<rparr>)" "Suc (rcount (r\<lparr>mr_rd := rd\<rparr>)) = unat (mr_max_items r)" "Suc (rcount r) = unat (mr_max_items r)"
      "dhd_prot_alloc_ring_space dbg (rdev (mprot s)) r 1 False = Some (r\<lparr>mr_rd := rd\<rparr>, None)"
    from txdata_full [OF s False _ this, of tp p ifidx] tp show ?thesis by (auto simp: pkt_ready_def)
  next
    fix rd
    assume a: "ring_ok (r\<lparr>mr_rd := rd\<rparr>)" "1 \<le> rspace (r\<lparr>mr_rd := rd\<rparr>)" "Suc (rcount r) < unat (mr_max_items r) \<longrightarrow> rd = mr_rd r"
      "dhd_prot_alloc_ring_space dbg (rdev (mprot s)) r 1 False =
        Some (advance_wr (r\<lparr>mr_rd := rd\<rparr>) 1, Some (unat (mr_wr r) * unat (mr_item_len r), 1))"
    obtain s' pktid where t: "dhd_prot_txdata dbg p tp ifidx s = Some (s', BCME_OK)" "tx_ok dbg fid s'" "tx_frame fid s s'"
        "tx_posted fid p tp ifidx s s' pktid" "free_ids (pktid_map (mprot s')) = free_ids (pktid_map (mprot s)) - {unat pktid}"
      using txdata_room [OF s False tp a, of p ifidx] by blast
    have "unat pktid \<in> ids_of (pktid_map (mprot s'))" using t(4) by (auto simp: tx_posted_def contents_def split: if_splits dest!: fun_cong [of _ _ "unat pktid"])
    then have "unat pktid \<in> free_ids (pktid_map (mprot s))"
      using t(3,4) contents_None [of "unat pktid" "pktid_map (mprot s)"] by (auto simp: tx_frame_def tx_posted_def free_ids_def)
    then show ?thesis using t by blast
  qed
qed

section \<open>Bursts\<close>

lemma flush_end:
  assumes ok: "tx_ok dbg fid s"
  shows "\<exists>s'. dhd_prot_txdata_write_flush dbg fid s = Some s' \<and> tx_ok dbg fid s' \<and> tx_frame fid s s' \<and>
     mr_pend_items_count (flow_ring_of s' fid) = 0 \<and> seen_wr (rdev (mprot s')) (flow_ring_of s' fid) = Some (mr_wr (flow_ring_of s' fid)) \<and>
     rqueue (flow_ring_of s' fid) (flow_slots_of s' fid) = rqueue (flow_ring_of s fid) (flow_slots_of s fid) \<and>
     pktid_map (mprot s') = pktid_map (mprot s) \<and> active_tx_count (mprot s') = active_tx_count (mprot s)"
proof -
  obtain ri r where s: "get_flow_ring s fid = Some (ri, r)" "flow_pre dbg s ri r" "ann (rdev (mprot s)) r" "map_ok (pktid_map (mprot s))"
    using ok by (auto simp: tx_ok_def)
  obtain dv y where f: "dhd_prot_txdata_write_flush dbg fid s = Some (s\<lparr>mprot := (mprot s)\<lparr>rdev := dv\<rparr>,
        h2d_flowrings_pool := (h2d_flowrings_pool s)[ri := r\<lparr>mr_pend_items_count := 0, mr_start_addr := y\<rparr>]\<rparr>)"
      "seen_wr dv r = Some (mr_wr r)" "\<And>r'. dev_ok dbg (rdev (mprot s)) r' \<Longrightarrow> dev_ok dbg dv r'"
    by (rule flush_result [OF s(1,2)]) (use s(3) in blast)+
  define r' where "r' = r\<lparr>mr_pend_items_count := 0, mr_start_addr := y\<rparr>"
  define s' where "s' = s\<lparr>mprot := (mprot s)\<lparr>rdev := dv\<rparr>, h2d_flowrings_pool := (h2d_flowrings_pool s)[ri := r']\<rparr>"
  have g: "get_flow_ring s' fid = Some (ri, r')"
    using get_flow_ring_put [of "s\<lparr>mprot := (mprot s)\<lparr>rdev := dv\<rparr>\<rparr>" fid ri r r'] s(1) by (simp add: s'_def)
  have sel: "mprot s' = (mprot s)\<lparr>rdev := dv\<rparr>" "flow_slots s' = flow_slots s" by (simp_all add: s'_def)
  have "flow_pre dbg s' ri r'" using s(2) f(3) by (simp add: flow_pre_def sel r'_def)
  moreover have "ann dv r'" using f(2) by (simp add: ann_def r'_def)
  ultimately have "tx_ok dbg fid s'" using g s(4) unfolding tx_ok_def by (auto simp: sel)
  moreover have "tx_frame fid s s'" by (rule tx_frameI [OF s(1) g]) (simp_all add: s'_def r'_def)
  ultimately show ?thesis
    using f(1,2) g s(1) unfolding s'_def [symmetric] r'_def [symmetric] by (auto simp: sel) (simp_all add: r'_def)
qed

definition burst_spec :: "u16 \<Rightarrow> (pkt \<Rightarrow> tx_pkt) \<Rightarrow> u8 \<Rightarrow> pkt list \<Rightarrow> pkt list \<Rightarrow> u32 list \<Rightarrow> dhd_msgbuf \<Rightarrow> dhd_msgbuf \<Rightarrow> bool" where
  "burst_spec fid os ifidx posted rest ids s s' \<longleftrightarrow>
     length ids = length posted \<and> distinct (map unat ids) \<and> (\<forall>k \<in> set ids. contents (pktid_map (mprot s)) (unat k) = None) \<and>
     contents (pktid_map (mprot s')) = (contents (pktid_map (mprot s)))(map unat ids [\<mapsto>] map (\<lambda>p. tx_locker p (os p)) posted) \<and>
     active_tx_count (mprot s') = active_tx_count (mprot s) + of_nat (length posted) \<and>
     (rcount (flow_ring_of s fid) + length (posted @ rest) < unat (mr_max_items (flow_ring_of s fid)) \<and>
      length (posted @ rest) \<le> card (free_ids (pktid_map (mprot s))) \<longrightarrow>
        rest = [] \<and> rqueue (flow_ring_of s' fid) (flow_slots_of s' fid) = rqueue (flow_ring_of s fid) (flow_slots_of s fid) @
          map2 (\<lambda>p k. txpost_msg s (os p) ifidx k (tx_len (os p))) posted ids)"

lemma txpost_msg_cong: "tx_metadata_offset s' = tx_metadata_offset s \<Longrightarrow> txpost_msg s' = txpost_msg s"
  by (simp add: txpost_msg_def fun_eq_iff)

lemma burst_step:
  assumes t: "tx_posted fid p (os p) ifidx s s1 k" and f: "tx_frame fid s s1" and b: "burst_spec fid os ifidx posted rest ids s1 s'"
    and k: "unat k \<in> free_ids (pktid_map (mprot s))" "free_ids (pktid_map (mprot s1)) = free_ids (pktid_map (mprot s)) - {unat k}"
  shows "burst_spec fid os ifidx (p # posted) rest (k # ids) s s'"
proof -
  let ?c = "contents (pktid_map (mprot s))" and ?r = "flow_ring_of s fid" and ?r1 = "flow_ring_of s1 fid"
  have t': "?c (unat k) = None" "contents (pktid_map (mprot s1)) = ?c(unat k \<mapsto> tx_locker p (os p))"
      "active_tx_count (mprot s1) = active_tx_count (mprot s) + 1"
    using t by (simp_all add: tx_posted_def)
  have b': "length ids = length posted" "distinct (map unat ids)" "\<forall>j \<in> set ids. contents (pktid_map (mprot s1)) (unat j) = None"
      "contents (pktid_map (mprot s')) = (contents (pktid_map (mprot s1)))(map unat ids [\<mapsto>] map (\<lambda>p. tx_locker p (os p)) posted)"
      "active_tx_count (mprot s') = active_tx_count (mprot s1) + of_nat (length posted)"
    using b by (simp_all add: burst_spec_def)
  have ne: "unat k \<notin> unat ` set ids" using b'(3) t'(2) by auto
  have none: "?c (unat j) = None" if "j \<in> set ids" for j
    using b'(3) that ne t'(2) by (metis fun_upd_apply image_eqI)
  have mx: "mr_max_items ?r1 = mr_max_items ?r" "tx_metadata_offset s1 = tx_metadata_offset s" using f by (simp_all add: tx_frame_def)
  have room: "rest = [] \<and> rqueue (flow_ring_of s' fid) (flow_slots_of s' fid) = rqueue ?r (flow_slots_of s fid) @
        map2 (\<lambda>p k. txpost_msg s (os p) ifidx k (tx_len (os p))) (p # posted) (k # ids)"
    if "rcount ?r + length ((p # posted) @ rest) < unat (mr_max_items ?r)" "length ((p # posted) @ rest) \<le> card (free_ids (pktid_map (mprot s)))"
  proof -
    have q: "rqueue ?r1 (flow_slots_of s1 fid) = rqueue ?r (flow_slots_of s fid) @ [txpost_msg s (os p) ifidx k (tx_len (os p))]"
      using t that(1) by (auto simp: tx_posted_def)
    then have "rcount ?r1 = Suc (rcount ?r)" by (metis length_rqueue length_append_singleton)
    moreover have "card (free_ids (pktid_map (mprot s1))) = card (free_ids (pktid_map (mprot s))) - 1" using k by simp
    ultimately show ?thesis
      using b that mx q txpost_msg_cong [OF mx(2)] by (auto simp: burst_spec_def)
  qed
  show ?thesis
    unfolding burst_spec_def
    using t' b' ne none room by (intro conjI impI) (auto simp: fun_upd_def)
qed

lemma burst_result:
  assumes "tx_ok dbg fid s" and "\<forall>p \<in> set ps. pkt_ready dbg (tx_metadata_offset s) fid (os p)"
  shows "\<exists>s' posted rest ids. ps = posted @ rest \<and> tx_burst dbg os ifidx fid ps s = Some (s', rest) \<and> tx_ok dbg fid s' \<and> tx_frame fid s s' \<and>
     mr_pend_items_count (flow_ring_of s' fid) = 0 \<and> seen_wr (rdev (mprot s')) (flow_ring_of s' fid) = Some (mr_wr (flow_ring_of s' fid)) \<and>
     burst_spec fid os ifidx posted rest ids s s'"
  using assms
proof (induction ps arbitrary: s)
  case Nil
  obtain s' where "dhd_prot_txdata_write_flush dbg fid s = Some s'" "tx_ok dbg fid s'" "tx_frame fid s s'"
     "mr_pend_items_count (flow_ring_of s' fid) = 0" "seen_wr (rdev (mprot s')) (flow_ring_of s' fid) = Some (mr_wr (flow_ring_of s' fid))"
     "rqueue (flow_ring_of s' fid) (flow_slots_of s' fid) = rqueue (flow_ring_of s fid) (flow_slots_of s fid)"
     "pktid_map (mprot s') = pktid_map (mprot s)" "active_tx_count (mprot s') = active_tx_count (mprot s)"
    using flush_end [OF Nil.prems(1)] by blast
  then show ?case by (intro exI [of _ s'] exI [of _ "[]"]) (simp add: burst_spec_def)
next
  case (Cons p ps)
  have tp: "pkt_ready dbg (tx_metadata_offset s) fid (os p)" using Cons.prems by simp
  obtain s1 ret where t: "dhd_prot_txdata dbg p (os p) ifidx s = Some (s1, ret)" "tx_ok dbg fid s1" "tx_frame fid s s1"
     "ret = BCME_NORESOURCE \<and> tx_refused fid s s1 \<or> ret = BCME_OK \<and> (\<exists>k. tx_posted fid p (os p) ifidx s s1 k \<and>
        unat k \<in> free_ids (pktid_map (mprot s)) \<and> free_ids (pktid_map (mprot s1)) = free_ids (pktid_map (mprot s)) - {unat k})"
    using txdata_result [OF Cons.prems(1) tp, of p ifidx] by blast
  show ?case
  proof (cases "ret = BCME_OK")
    case False
    then have n: "ret = BCME_NORESOURCE" "tx_refused fid s s1" using t(4) by auto
    obtain s' where f: "dhd_prot_txdata_write_flush dbg fid s1 = Some s'" "tx_ok dbg fid s'" "tx_frame fid s1 s'"
       "mr_pend_items_count (flow_ring_of s' fid) = 0" "seen_wr (rdev (mprot s')) (flow_ring_of s' fid) = Some (mr_wr (flow_ring_of s' fid))"
       "pktid_map (mprot s') = pktid_map (mprot s1)" "active_tx_count (mprot s') = active_tx_count (mprot s1)"
      using flush_end [OF t(2)] by blast
    have "tx_burst dbg os ifidx fid (p # ps) s = Some (s', p # ps)" using t(1) n(1) f(1) by simp
    moreover have "burst_spec fid os ifidx [] (p # ps) [] s s'" using n(2) f(6,7) by (auto simp: burst_spec_def tx_refused_def)
    ultimately show ?thesis using f(2-5) tx_frame_trans [OF t(3) f(3)]
      by (intro exI [of _ s'] exI [of _ "[]"] exI [of _ "p # ps"]) simp
  next
    case True
    then obtain k where k: "tx_posted fid p (os p) ifidx s s1 k" "unat k \<in> free_ids (pktid_map (mprot s))"
        "free_ids (pktid_map (mprot s1)) = free_ids (pktid_map (mprot s)) - {unat k}" using t(4) by auto
    have "tx_metadata_offset s1 = tx_metadata_offset s" using t(3) by (simp add: tx_frame_def)
    then obtain s' posted rest ids where r: "ps = posted @ rest" "tx_burst dbg os ifidx fid ps s1 = Some (s', rest)" "tx_ok dbg fid s'" "tx_frame fid s1 s'"
        "mr_pend_items_count (flow_ring_of s' fid) = 0" "seen_wr (rdev (mprot s')) (flow_ring_of s' fid) = Some (mr_wr (flow_ring_of s' fid))"
        "burst_spec fid os ifidx posted rest ids s1 s'"
      using Cons.IH [OF t(2)] Cons.prems(2) by auto
    have "tx_burst dbg os ifidx fid (p # ps) s = Some (s', rest)" using t(1) True r(2) by simp
    moreover have "burst_spec fid os ifidx (p # posted) rest (k # ids) s s'" by (rule burst_step [where s = s and ?s1.0 = s1, OF k(1) t(3) r(7) k(2,3)])
    ultimately show ?thesis using r(1,3,5,6) tx_frame_trans [OF t(3) r(4)]
      by (intro exI [of _ s'] exI [of _ "p # posted"] exI [of _ rest] exI [of _ "k # ids"]) simp
  qed
qed

section \<open>Completions\<close>

fun tx_complete :: "bool \<Rightarrow> u32 list \<Rightarrow> dhd_prot \<Rightarrow> dhd_prot option" where
  "tx_complete dbg [] q = Some q"
| "tx_complete dbg (k # ks) q = do { q \<leftarrow> dhd_prot_txstatus_process dbg k q; tx_complete dbg ks q }"

lemma txstatus_result:
  assumes mo: "map_ok (pktid_map q)" and c: "contents (pktid_map q) (unat k) = Some lk" and ty: "lk_pkttype lk = PKTTYPE_DATA_TX"
    and p: "lk_pkt lk = Some p" "p \<notin> set (pfreed (pstore q))"
  shows "\<exists>q'. dhd_prot_txstatus_process dbg k q = Some q' \<and> map_ok (pktid_map q') \<and>
     contents (pktid_map q') = (contents (pktid_map q))(unat k := None) \<and> pfreed (pstore q') = p # pfreed (pstore q) \<and>
     tx_done q' = tx_done q @ [p] \<and> active_tx_count q' = (if active_tx_count q = 0 then 0 else active_tx_count q - 1)"
proof -
  let ?lk = "lk\<lparr>lk_state := LOCKER_IS_FREE, lk_pkt := None, lk_len := 0\<rparr>"
  obtain m where m: "audit dbg (pktid_map q) k DHD_DUPLICATE_FREE = Some m" "pktid_ok m" "contents m = contents (pktid_map q)"
      "map_ok (give_id m k ?lk)"
    by (rule free_audit [OF mo c, of ?lk dbg]) (simp, blast)
  have cm: "contents m (unat k) = Some lk" using c m(3) by simp
  have fr: "dhd_pktid_map_free dbg m k PKTTYPE_DATA_TX False =
      Some (give_id m k ?lk, Some p, Some (lk_pa lk, ucast (lk_len lk), lk_dmah lk, lk_secdma lk))"
    using free_some [OF m(2) cm, of PKTTYPE_DATA_TX dbg False] ty p by simp
  have "contents (give_id m k ?lk) = (contents (pktid_map q))(unat k := None)"
    using give_id_ok(3) [OF m(2), of k ?lk] cm m(3) by simp
  moreover have "k \<noteq> 0" using c by (auto simp: contents_Some ids_of_def)
  ultimately show ?thesis using m(1,4) fr p(2) by (simp add: dhd_prot_txstatus_process_def Let_def unmap_free_def)
qed

lemma tx_complete_result:
  assumes "map_ok (pktid_map q)" and "distinct (map unat ks)" and "distinct (map pf ks)" and "pf ` set ks \<inter> set (pfreed (pstore q)) = {}"
    and "\<forall>k \<in> set ks. \<exists>lk. contents (pktid_map q) (unat k) = Some lk \<and> lk_pkttype lk = PKTTYPE_DATA_TX \<and> lk_pkt lk = Some (pf k)"
    and "length ks \<le> unat (active_tx_count q)"
  shows "\<exists>q'. tx_complete dbg ks q = Some q' \<and> map_ok (pktid_map q') \<and> contents (pktid_map q') = contents (pktid_map q) |` (- unat ` set ks) \<and>
     pfreed (pstore q') = rev (map pf ks) @ pfreed (pstore q) \<and> tx_done q' = tx_done q @ map pf ks \<and>
     active_tx_count q' = active_tx_count q - of_nat (length ks)"
  using assms
proof (induction ks arbitrary: q)
  case Nil
  then show ?case by (simp add: restrict_map_def)
next
  case (Cons k ks)
  obtain lk where lk: "contents (pktid_map q) (unat k) = Some lk" "lk_pkttype lk = PKTTYPE_DATA_TX" "lk_pkt lk = Some (pf k)"
    using Cons.prems(5) by auto
  obtain q1 where q1: "dhd_prot_txstatus_process dbg k q = Some q1" "map_ok (pktid_map q1)"
     "contents (pktid_map q1) = (contents (pktid_map q))(unat k := None)" "pfreed (pstore q1) = pf k # pfreed (pstore q)"
     "tx_done q1 = tx_done q @ [pf k]" "active_tx_count q1 = (if active_tx_count q = 0 then 0 else active_tx_count q - 1)"
    using txstatus_result [OF Cons.prems(1) lk, of dbg] Cons.prems(4) by auto
  have nz: "active_tx_count q \<noteq> 0" using Cons.prems(6) by auto
  then have "unat (active_tx_count q1) = unat (active_tx_count q) - 1" using q1(6) Cons.prems(6) unat_dec [of "active_tx_count q"] by simp
  then have "length ks \<le> unat (active_tx_count q1)" using Cons.prems(6) by simp
  moreover have "\<forall>j \<in> set ks. \<exists>lk. contents (pktid_map q1) (unat j) = Some lk \<and> lk_pkttype lk = PKTTYPE_DATA_TX \<and> lk_pkt lk = Some (pf j)"
  proof
    fix j assume j: "j \<in> set ks"
    then have "unat j \<noteq> unat k" using Cons.prems(2) imageI [OF j, of unat] by (simp only: list.map distinct.simps set_map) metis
    then show "\<exists>lk. contents (pktid_map q1) (unat j) = Some lk \<and> lk_pkttype lk = PKTTYPE_DATA_TX \<and> lk_pkt lk = Some (pf j)"
      using Cons.prems(5) q1(3) j by simp
  qed
  moreover have "pf ` set ks \<inter> set (pfreed (pstore q1)) = {}" using Cons.prems(3,4) q1(4) by auto
  ultimately obtain q' where q': "tx_complete dbg ks q1 = Some q'" "map_ok (pktid_map q')"
     "contents (pktid_map q') = contents (pktid_map q1) |` (- unat ` set ks)" "pfreed (pstore q') = rev (map pf ks) @ pfreed (pstore q1)"
     "tx_done q' = tx_done q1 @ map pf ks" "active_tx_count q' = active_tx_count q1 - of_nat (length ks)"
    using Cons.IH [OF q1(2)] Cons.prems(2,3) by auto
  have "contents (pktid_map q1) |` (- unat ` set ks) = contents (pktid_map q) |` (- unat ` set (k # ks))"
    unfolding q1(3) by (auto simp: fun_eq_iff restrict_map_def)
  then show ?case using q1 q' nz by simp
qed

lemma map_upds_restrict:
  assumes "\<forall>k \<in> set ks. m k = None"
  shows "(m(ks [\<mapsto>] vs)) |` (- set ks) = m"
proof (rule ext)
  fix x show "((m(ks [\<mapsto>] vs)) |` (- set ks)) x = m x"
    using assms by (cases "x \<in> set ks") (simp_all add: map_upds_apply_nontin)
qed

lemma map_upds_nth:
  assumes "distinct ks" and "length ks = length vs" and "i < length ks"
  shows "(m(ks [\<mapsto>] vs)) (ks ! i) = Some (vs ! i)"
  using assms
proof (induction ks arbitrary: m vs i)
  case Nil
  then show ?case by simp
next
  case (Cons k ks)
  then obtain v vs' where vs: "vs = v # vs'" by (cases vs) auto
  show ?case
  proof (cases i)
    case 0
    then show ?thesis using Cons.prems by (simp add: vs map_upds_apply_nontin)
  next
    case (Suc j)
    then have j: "j < length ks" "ks ! j \<noteq> k" using Cons.prems nth_mem [of j ks] by (auto simp: vs)
    then show ?thesis using Cons.IH [of vs' j m] Cons.prems Suc by (simp add: vs)
  qed
qed

section \<open>Properties\<close>

text \<open>
  C17. A burst of packets reaches the device completely and in order. From a well-formed state the
  packets of a backup queue are posted from the front until the ring or the packet ids are used up;
  each posted packet gets an id of its own that was free, whose locker records it. At the end no message
  is left unannounced: the write index the device sees is that of the ring. If ring and ids suffice,
  all packets are posted and the ring's queue grows by exactly their messages, in order.
\<close>

theorem tx_burst_announced:
  assumes "tx_ok dbg fid s" and "\<forall>p \<in> set ps. pkt_ready dbg (tx_metadata_offset s) fid (os p)"
  shows "\<exists>s' posted rest ids. tx_burst dbg os ifidx fid ps s = Some (s', rest) \<and> ps = posted @ rest \<and> tx_ok dbg fid s' \<and>
     mr_pend_items_count (flow_ring_of s' fid) = 0 \<and> seen_wr (rdev (mprot s')) (flow_ring_of s' fid) = Some (mr_wr (flow_ring_of s' fid)) \<and>
     length ids = length posted \<and> distinct (map unat ids) \<and> (\<forall>k \<in> set ids. contents (pktid_map (mprot s)) (unat k) = None) \<and>
     contents (pktid_map (mprot s')) = (contents (pktid_map (mprot s)))(map unat ids [\<mapsto>] map (\<lambda>p. tx_locker p (os p)) posted) \<and>
     (rcount (flow_ring_of s fid) + length ps < unat (mr_max_items (flow_ring_of s fid)) \<and>
      length ps \<le> card (free_ids (pktid_map (mprot s))) \<longrightarrow>
        rest = [] \<and> rqueue (flow_ring_of s' fid) (flow_slots_of s' fid) = rqueue (flow_ring_of s fid) (flow_slots_of s fid) @
          map2 (\<lambda>p k. txpost_msg s (os p) ifidx k (tx_len (os p))) posted ids)"
proof -
  obtain s' posted rest ids where b: "ps = posted @ rest" "tx_burst dbg os ifidx fid ps s = Some (s', rest)" "tx_ok dbg fid s'"
      "mr_pend_items_count (flow_ring_of s' fid) = 0" "seen_wr (rdev (mprot s')) (flow_ring_of s' fid) = Some (mr_wr (flow_ring_of s' fid))"
      "burst_spec fid os ifidx posted rest ids s s'"
    using burst_result [OF assms, of ifidx] by blast
  show ?thesis
    by (intro exI [of _ s'] exI [of _ posted] exI [of _ rest] exI [of _ ids]) (use b in \<open>simp add: burst_spec_def\<close>)
qed

text \<open>A state with one flow ring of 8 slots in the device's memory, for flow 2, and packets of 60 bytes.\<close>

definition demo_msgbuf :: "dhd_pktid_map \<Rightarrow> dhd_msgbuf" where
  "demo_msgbuf m = \<lparr>mprot = (demo_prot m)\<lparr>rdev := demo_dev\<lparr>ring_state_w := \<lambda>_. 2\<rparr>\<rparr>, txp_threshold = 48, tx_metadata_offset = 0, h2d_rings_total = 3,
     h2d_flowrings_pool = [\<lparr>mr_inited = True, mr_idx = 5, mr_rd = 2, mr_wr = 2, mr_max_items = 8, mr_item_len = 48, mr_base_addr = 0,
       mr_seqnum = 0, mr_start_addr = None, mr_pend_items_count = 0\<rparr>],
     flow_slots = [replicate 8 \<lparr>tx_if_id = 0, tx_request_id = 0, tx_txhdr = [], tx_flags = 0, tx_seg_cnt = 0,
       tx_metadata_buf_addr = (0, 0), tx_data_buf_addr = (0, 0), tx_metadata_buf_len = 0, tx_data_len = 0\<rparr>],
     prot_info = Some [None, None, Some 0], wake_locks = 0,
     h2dring_ctrl_subn = \<lparr>mr_inited = True, mr_idx = 0, mr_rd = 0, mr_wr = 0, mr_max_items = 64, mr_item_len = 40, mr_base_addr = 0,
       mr_seqnum = 0, mr_start_addr = None, mr_pend_items_count = 0\<rparr>,
     ctrl_slots = replicate 64 Ctrl_Unused, max_eventbufpost = 8, max_ioctlrespbufpost = 8, cur_event_bufs_posted = 0,
     cur_ioctlresp_bufs_posted = 0, bus_down = False, bus_suspend = False, ioctl_state = 0, ioctl_status = 0, ioctl_resplen = 0, ioctl_received = 0,
     curr_ioctl_cmd = 0, ioctl_trans_id = 0, retbuf = replicate 8200 0, ioctbuf = replicate 8200 0, ioctbuf_pa = 65536,
     hang_was_sent = False, dongle_reset = False, dongle_trap_occured = False, rxcnt_timeout = 0, rx_ctlerrs = 0, rx_ctlpkts = 0,
     dongle_error = 0, wme_dp = 0, host_bus_throughput_pa = 131072\<rparr>"

definition demo_pkt :: "pkt \<Rightarrow> tx_pkt" where
  "demo_pkt p = \<lparr>tk_data = replicate 60 7, tk_prio = 5, tk_headroom = 0, tk_pa = 4096, tk_meta_pa = 0, tk_flowid = 2\<rparr>"

lemma demo_msgbuf_ok: "map_ok m \<Longrightarrow> tx_ok True 2 (demo_msgbuf m)"
  by (simp add: tx_ok_def demo_msgbuf_def demo_prot_def demo_dev_def get_flow_ring_def flow_pre_def ann_def seen_wr_def ring_ok_def
      dev_ok_def fetch_rd_def)

lemma demo_pkt_ready: "pkt_ready True (tx_metadata_offset (demo_msgbuf m)) 2 (demo_pkt p)"
  by (simp add: pkt_ready_def demo_pkt_def)

theorem tx_burst_announced_witness:
  "\<exists>m s' rest. dhd_pktid_map_init True True True 8 = Some (Some m) \<and>
     tx_burst True demo_pkt 0 2 [10, 11, 12] (demo_msgbuf m) = Some (s', rest) \<and> mr_pend_items_count (flow_ring_of s' 2) = 0"
proof -
  obtain m where m: "dhd_pktid_map_init True True True 8 = Some (Some m)" "map_ok m" using init_map_ok by blast
  from tx_burst_announced [OF demo_msgbuf_ok [OF m(2)], of "[10, 11, 12]" demo_pkt 0] m(1) demo_pkt_ready show ?thesis by blast
qed

text \<open>
  C16. The life of a transmitted packet. After a burst of live packets has been posted, the device may
  complete them in any order: every completion is accepted, each packet is freed exactly once and in
  the order of the completions, and afterwards lockers and the count of packets in flight are what
  they were before the burst.
\<close>

theorem tx_lifecycle:
  assumes ok: "tx_ok dbg fid s" and ready: "\<forall>p \<in> set ps. pkt_ready dbg (tx_metadata_offset s) fid (os p)"
    and live: "distinct ps" "set ps \<inter> set (pfreed (pstore (mprot s))) = {}"
    and cnt: "unat (active_tx_count (mprot s)) + length ps < 65536"
  shows "\<exists>s' rest ids pf. tx_burst dbg os ifidx fid ps s = Some (s', rest) \<and> ps = map pf ids @ rest \<and>
     (\<forall>ks. distinct ks \<and> set ks = set ids \<longrightarrow>
        (\<exists>q'. tx_complete dbg ks (mprot s') = Some q' \<and> map_ok (pktid_map q') \<and> contents (pktid_map q') = contents (pktid_map (mprot s)) \<and>
           pfreed (pstore q') = rev (map pf ks) @ pfreed (pstore (mprot s)) \<and> tx_done q' = tx_done (mprot s) @ map pf ks \<and>
           active_tx_count q' = active_tx_count (mprot s)))"
proof -
  obtain s' posted rest ids where b: "ps = posted @ rest" "tx_burst dbg os ifidx fid ps s = Some (s', rest)" "tx_ok dbg fid s'" "tx_frame fid s s'"
      "burst_spec fid os ifidx posted rest ids s s'"
    using burst_result [OF ok ready, of ifidx] by blast
  have sp: "length ids = length posted" "distinct (map unat ids)" "\<forall>k \<in> set ids. contents (pktid_map (mprot s)) (unat k) = None"
      "contents (pktid_map (mprot s')) = (contents (pktid_map (mprot s)))(map unat ids [\<mapsto>] map (\<lambda>p. tx_locker p (os p)) posted)"
      "active_tx_count (mprot s') = active_tx_count (mprot s) + of_nat (length posted)"
    using b(5) by (simp_all add: burst_spec_def)
  have di: "distinct ids" using sp(2) by (simp add: distinct_map)
  define pf where "pf = (\<lambda>k. the (map_of (zip ids posted) k))"
  have pf: "pf (ids ! i) = posted ! i" if "i < length ids" for i
    using that sp(1) di by (simp add: pf_def map_of_zip_nth)
  have mp: "map pf ids = posted" by (rule nth_equalityI) (use sp(1) pf in simp_all)
  have lk: "contents (pktid_map (mprot s')) (unat k) = Some (tx_locker (pf k) (os (pf k)))" if k: "k \<in> set ids" for k
  proof -
    obtain i where i: "i < length ids" "k = ids ! i" using k by (auto simp: in_set_conv_nth)
    then show ?thesis
      using map_upds_nth [OF sp(2), of "map (\<lambda>p. tx_locker p (os p)) posted" i "contents (pktid_map (mprot s))"] sp(1) pf [OF i(1)]
      unfolding sp(4) by simp
  qed
  have fr: "pstore (mprot s') = pstore (mprot s)" "tx_done (mprot s') = tx_done (mprot s)" using b(4) by (simp_all add: tx_frame_def)
  have inj: "inj_on pf (set ids)" using live(1) b(1) mp di by (metis distinct_append distinct_map)
  have "\<exists>q'. tx_complete dbg ks (mprot s') = Some q' \<and> map_ok (pktid_map q') \<and> contents (pktid_map q') = contents (pktid_map (mprot s)) \<and>
      pfreed (pstore q') = rev (map pf ks) @ pfreed (pstore (mprot s)) \<and> tx_done q' = tx_done (mprot s) @ map pf ks \<and>
      active_tx_count q' = active_tx_count (mprot s)" if ks: "distinct ks \<and> set ks = set ids" for ks
  proof -
    have len: "length ks = length posted" using ks di sp(1) by (metis distinct_card)
    have "unat (active_tx_count (mprot s')) = unat (active_tx_count (mprot s)) + length posted"
      unfolding sp(5) using cnt b(1) by (simp add: unat_add_bounded unat_of_nat16)
    moreover have "pf ` set ks = set posted" using ks mp by (metis set_map)
    then have "pf ` set ks \<inter> set (pfreed (pstore (mprot s'))) = {}" using live(2) b(1) fr(1) by auto
    moreover have "distinct (map pf ks)" using ks inj by (simp add: distinct_map)
    moreover have "distinct (map unat ks)" using ks sp(2) by (simp add: distinct_map)
    moreover have "\<forall>k \<in> set ks. \<exists>lk. contents (pktid_map (mprot s')) (unat k) = Some lk \<and> lk_pkttype lk = PKTTYPE_DATA_TX \<and> lk_pkt lk = Some (pf k)"
      using lk ks by (auto simp: tx_locker_def saved_def)
    moreover have "map_ok (pktid_map (mprot s'))" using b(3) by (simp add: tx_ok_def)
    ultimately obtain q' where q: "tx_complete dbg ks (mprot s') = Some q'" "map_ok (pktid_map q')"
        "contents (pktid_map q') = contents (pktid_map (mprot s')) |` (- unat ` set ks)" "pfreed (pstore q') = rev (map pf ks) @ pfreed (pstore (mprot s'))"
        "tx_done q' = tx_done (mprot s') @ map pf ks" "active_tx_count q' = active_tx_count (mprot s') - of_nat (length ks)"
      using tx_complete_result [of "mprot s'" ks pf dbg] len by auto
    have "contents (pktid_map q') = contents (pktid_map (mprot s))"
      using q(3) map_upds_restrict [of "map unat ids" "contents (pktid_map (mprot s))"] sp(3) ks unfolding sp(4) by simp
    moreover have "active_tx_count q' = active_tx_count (mprot s)" using q(6) len sp(5) by simp
    ultimately show ?thesis using q fr by simp
  qed
  then show ?thesis using b(1,2) mp by blast
qed

theorem tx_lifecycle_witness:
  "\<exists>m s' rest ids pf. dhd_pktid_map_init True True True 8 = Some (Some m) \<and>
     tx_burst True demo_pkt 0 2 [10, 11, 12] (demo_msgbuf m) = Some (s', rest) \<and> [10, 11, 12] = map pf (ids :: u32 list) @ rest"
proof -
  obtain m where m: "dhd_pktid_map_init True True True 8 = Some (Some m)" "map_ok m" using init_map_ok by blast
  have "active_tx_count (mprot (demo_msgbuf m)) = 0" "pfreed (pstore (mprot (demo_msgbuf m))) = []"
    by (simp_all add: demo_msgbuf_def demo_prot_def)
  then have "\<exists>s' rest ids pf. tx_burst True demo_pkt 0 2 [10, 11, 12] (demo_msgbuf m) = Some (s', rest) \<and> [10, 11, 12] = map pf (ids :: u32 list) @ rest"
    using tx_lifecycle [OF demo_msgbuf_ok [OF m(2)], of "[10, 11, 12]" demo_pkt 0] demo_pkt_ready by (simp del: tx_burst.simps) blast
  then show ?thesis using m(1) by blast
qed

end
