(* ===== verification/Msgbuf_Ctrl_Props.thy ===== *)
theory Msgbuf_Ctrl_Props
  imports Msgbuf_Ctrl Msgbuf_Tx_Props
begin

text \<open>
  Properties of the control ring: posting a buffer for an event or an ioctl response adds one message
  and one locker or leaves both alone and frees the packet; the number of outstanding buffers never
  exceeds its limit; an event is delivered with the packet posted for it; the requests about flow
  rings add exactly their message.
\<close>

section \<open>Sending\<close>

definition ctrl_ok :: "bool \<Rightarrow> nat set \<Rightarrow> dhd_msgbuf \<Rightarrow> bool" where
  "ctrl_ok dbg X s \<longleftrightarrow> map_ok_but X (pktid_map (mprot s)) \<and> ring_ok (h2dring_ctrl_subn s) \<and>
     dev_ok dbg (rdev (mprot s)) (h2dring_ctrl_subn s) \<and> length (ctrl_slots s) = unat (mr_max_items (h2dring_ctrl_subn s)) \<and>
     supply_ok dbg (pkt_supply (mprot s)) (pfreed (pstore (mprot s)))"

definition ctrl_queue :: "dhd_msgbuf \<Rightarrow> ctrl_submit_item list" where
  "ctrl_queue s = rqueue (h2dring_ctrl_subn s) (ctrl_slots s)"

text \<open>The queue as it is when the device's read index is looked at again.\<close>

definition ctrl_queue_rd :: "u16 \<Rightarrow> dhd_msgbuf \<Rightarrow> ctrl_submit_item list" where
  "ctrl_queue_rd rd s = rqueue ((h2dring_ctrl_subn s)\<lparr>mr_rd := rd\<rparr>) (ctrl_slots s)"

lemma dev_ok_seqnum [simp]: "dev_ok dbg dv (r\<lparr>mr_seqnum := q\<rparr>) = dev_ok dbg dv r" "seen_wr dv (r\<lparr>mr_seqnum := q\<rparr>) = seen_wr dv r"
  by (rule dev_ok_cong; simp) (simp add: seen_wr_def)

lemma ctrl_claim_cases:
  assumes ok: "ctrl_ok dbg X s"
  obtains (full) rd where "ctrl_claim dbg s = Some (s\<lparr>h2dring_ctrl_subn := (h2dring_ctrl_subn s)\<lparr>mr_rd := rd\<rparr>\<rparr>, None)"
      and "ring_ok ((h2dring_ctrl_subn s)\<lparr>mr_rd := rd\<rparr>)" and "Suc (rcount (h2dring_ctrl_subn s)) = unat (mr_max_items (h2dring_ctrl_subn s))"
  | (room) rd where "ctrl_claim dbg s =
        Some (s\<lparr>h2dring_ctrl_subn := advance_wr ((h2dring_ctrl_subn s)\<lparr>mr_rd := rd\<rparr>) 1\<rparr>, Some (unat (mr_wr (h2dring_ctrl_subn s))))"
      and "ring_ok ((h2dring_ctrl_subn s)\<lparr>mr_rd := rd\<rparr>)" and "1 \<le> rspace ((h2dring_ctrl_subn s)\<lparr>mr_rd := rd\<rparr>)"
proof -
  have r: "ring_ok (h2dring_ctrl_subn s)" "dev_ok dbg (rdev (mprot s)) (h2dring_ctrl_subn s)" using ok by (simp_all add: ctrl_ok_def)
  show thesis
  proof (rule alloc_one [OF r])
    fix rd
    assume "ring_ok ((h2dring_ctrl_subn s)\<lparr>mr_rd := rd\<rparr>)" "Suc (rcount (h2dring_ctrl_subn s)) = unat (mr_max_items (h2dring_ctrl_subn s))"
      "dhd_prot_alloc_ring_space dbg (rdev (mprot s)) (h2dring_ctrl_subn s) 1 False = Some ((h2dring_ctrl_subn s)\<lparr>mr_rd := rd\<rparr>, None)"
    then show ?thesis by (intro full [of rd]) (simp_all add: ctrl_claim_def Let_def)
  next
    fix rd
    assume "ring_ok ((h2dring_ctrl_subn s)\<lparr>mr_rd := rd\<rparr>)" "1 \<le> rspace ((h2dring_ctrl_subn s)\<lparr>mr_rd := rd\<rparr>)"
      "dhd_prot_alloc_ring_space dbg (rdev (mprot s)) (h2dring_ctrl_subn s) 1 False = Some (advance_wr ((h2dring_ctrl_subn s)\<lparr>mr_rd := rd\<rparr>) 1,
         Some (unat (mr_wr (h2dring_ctrl_subn s)) * unat (mr_item_len (h2dring_ctrl_subn s)), 1))"
    then show ?thesis by (intro room [of rd]) (simp_all add: ctrl_claim_def Let_def)
  qed
qed

text \<open>Filling and announcing a claimed item; \<open>r\<close> is the ring before the item was claimed.\<close>

definition ctrl_sent :: "msgbuf_ring \<Rightarrow> (u8 \<Rightarrow> ctrl_submit_item) \<Rightarrow> ring_dev \<Rightarrow> dhd_msgbuf \<Rightarrow> dhd_msgbuf" where
  "ctrl_sent r msg dv s = s\<lparr>ctrl_slots := (ctrl_slots s)[unat (mr_wr r) := msg (ucast (mr_seqnum r mod 253))],
     h2dring_ctrl_subn := (advance_wr r 1)\<lparr>mr_seqnum := mr_seqnum r + 1\<rparr>, mprot := (mprot s)\<lparr>rdev := dv\<rparr>\<rparr>"

lemma ctrl_fill_result:
  assumes ring: "h2dring_ctrl_subn s = advance_wr r 1" and r: "ring_ok r" and sl: "length (ctrl_slots s) = unat (mr_max_items r)"
  shows "ctrl_fill (unat (mr_wr r)) msg s = Some (ctrl_sent r msg (rdev (mprot s)) s)"
proof -
  have "unat (mr_wr r) < length (ctrl_slots s)" using ring_okD(2) [OF r] sl by simp
  moreover have "mr_seqnum (advance_wr r 1) = mr_seqnum r" by (simp add: advance_wr_def)
  ultimately show ?thesis using ring by (simp add: ctrl_fill_def Let_def ctrl_sent_def)
qed

lemma ctrl_send_result:
  assumes "dev_ok dbg (rdev (mprot s)) r"
  obtains dv where "ctrl_send dbg (ctrl_sent r msg (rdev (mprot s)) s) = Some (ctrl_sent r msg dv s)"
    and "seen_wr dv (h2dring_ctrl_subn (ctrl_sent r msg dv s)) = Some (mr_wr (h2dring_ctrl_subn (ctrl_sent r msg dv s)))"
    and "\<And>r'. dev_ok dbg (rdev (mprot s)) r' \<Longrightarrow> dev_ok dbg dv r'"
proof -
  let ?r = "(advance_wr r 1)\<lparr>mr_seqnum := mr_seqnum r + 1\<rparr>"
  have "dev_ok dbg (rdev (mprot s)) ?r" using assms by simp
  then obtain dv where "dhd_prot_ring_write_complete dbg (rdev (mprot s)) ?r = Some dv" "seen_wr dv ?r = Some (mr_wr ?r)"
      "\<And>r'. dev_ok dbg (rdev (mprot s)) r' \<Longrightarrow> dev_ok dbg dv r'"
    by (rule write_complete_seen) blast
  then show thesis by (intro that [of dv]) (simp_all add: ctrl_send_def ctrl_sent_def)
qed

lemma ctrl_sent_queue:
  assumes r: "ring_ok r" "1 \<le> rspace r" and sl: "length (ctrl_slots s) = unat (mr_max_items r)"
  shows "ctrl_queue (ctrl_sent r msg dv s) = rqueue r (ctrl_slots s) @ [msg (ucast (mr_seqnum r mod 253))]"
    and "ring_ok (h2dring_ctrl_subn (ctrl_sent r msg dv s))"
    and "length (ctrl_slots (ctrl_sent r msg dv s)) = unat (mr_max_items (h2dring_ctrl_subn (ctrl_sent r msg dv s)))"
proof -
  have "unat (mr_wr r) < length (ctrl_slots s)" using ring_okD(2) [OF r(1)] sl by simp
  then show "ctrl_queue (ctrl_sent r msg dv s) = rqueue r (ctrl_slots s) @ [msg (ucast (mr_seqnum r mod 253))]"
    using rqueue_append [OF r(1), of "[msg (ucast (mr_seqnum r mod 253))]" "ctrl_slots s"] r(2) sl
    by (simp add: ctrl_queue_def ctrl_sent_def write_slots_one)
  show "ring_ok (h2dring_ctrl_subn (ctrl_sent r msg dv s))" "length (ctrl_slots (ctrl_sent r msg dv s)) = unat (mr_max_items (h2dring_ctrl_subn (ctrl_sent r msg dv s)))"
    using advance_wr_ok(1) [OF r] sl by (simp_all add: ctrl_sent_def)
qed

lemma ctrl_sent_sel [simp]:
  "mprot (ctrl_sent r msg dv s) = (mprot s)\<lparr>rdev := dv\<rparr>" "h2dring_ctrl_subn (ctrl_sent r msg dv s) = (advance_wr r 1)\<lparr>mr_seqnum := mr_seqnum r + 1\<rparr>"
  by (simp_all add: ctrl_sent_def)

section \<open>Posting a buffer\<close>

definition ctrl_locker :: "bool \<Rightarrow> pkt \<Rightarrow> dmaaddr \<Rightarrow> dhd_pktid_item" where
  "ctrl_locker event_buf p pa = saved (Some p) pa (if event_buf then 2048 else 8192) 2 None None
     (if event_buf then PKTTYPE_EVENT_RX else PKTTYPE_IOCTL_RX)"

definition buf_post_msg :: "bool \<Rightarrow> u32 \<Rightarrow> dmaaddr \<Rightarrow> u8 \<Rightarrow> ctrl_submit_item" where
  "buf_post_msg event_buf pktid pa epoch = Buf_Post
     \<lparr>ch_msg_type = if event_buf then 0xD else 0xB, ch_if_id = 0, ch_epoch = epoch, ch_request_id = pktid\<rparr>
     (if event_buf then 2048 else 8192) (paddr pa)"

text \<open>What posting leaves alone: every other field of the protocol state, and what was delivered.\<close>

definition outer :: "dhd_msgbuf \<Rightarrow> dhd_msgbuf" where
  "outer s = s\<lparr>mprot := undefined, h2dring_ctrl_subn := undefined, ctrl_slots := undefined\<rparr>"

definition ctrl_frame :: "dhd_msgbuf \<Rightarrow> dhd_msgbuf \<Rightarrow> bool" where
  "ctrl_frame s s' \<longleftrightarrow> outer s' = outer s \<and>
     rx_frames (mprot s') = rx_frames (mprot s) \<and> rx_dataoffset (mprot s') = rx_dataoffset (mprot s) \<and>
     ids_of (pktid_map (mprot s')) = ids_of (pktid_map (mprot s)) \<and>
     mr_max_items (h2dring_ctrl_subn s') = mr_max_items (h2dring_ctrl_subn s)"

lemma outer_upd [simp]:
  "outer (s\<lparr>mprot := q\<rparr>) = outer s" "outer (s\<lparr>h2dring_ctrl_subn := r\<rparr>) = outer s" "outer (s\<lparr>ctrl_slots := sl\<rparr>) = outer s"
  "outer (ctrl_sent r0 msg dv s) = outer s"
  by (simp_all add: outer_def ctrl_sent_def)

lemma outer_sel:
  assumes "outer s' = outer s"
  shows "bus_down s' = bus_down s" "cur_event_bufs_posted s' = cur_event_bufs_posted s" "max_eventbufpost s' = max_eventbufpost s"
    "cur_ioctlresp_bufs_posted s' = cur_ioctlresp_bufs_posted s" "max_ioctlrespbufpost s' = max_ioctlrespbufpost s"
    "ioctl_state s' = ioctl_state s" "ioctl_trans_id s' = ioctl_trans_id s" "ioctl_received s' = ioctl_received s" "retbuf s' = retbuf s"
    "dongle_trap_occured s' = dongle_trap_occured s"
proof -
  note e = arg_cong [OF assms, unfolded outer_def]
  show "bus_down s' = bus_down s" "cur_event_bufs_posted s' = cur_event_bufs_posted s" "max_eventbufpost s' = max_eventbufpost s"
    "cur_ioctlresp_bufs_posted s' = cur_ioctlresp_bufs_posted s" "max_ioctlrespbufpost s' = max_ioctlrespbufpost s"
    "ioctl_state s' = ioctl_state s" "ioctl_trans_id s' = ioctl_trans_id s" "ioctl_received s' = ioctl_received s" "retbuf s' = retbuf s"
    "dongle_trap_occured s' = dongle_trap_occured s"
    using e [of bus_down] e [of cur_event_bufs_posted] e [of max_eventbufpost] e [of cur_ioctlresp_bufs_posted] e [of max_ioctlrespbufpost]
      e [of ioctl_state] e [of ioctl_trans_id] e [of ioctl_received] e [of retbuf] e [of dongle_trap_occured] by simp_all
qed

lemma ctrl_frame_refl [simp]: "ctrl_frame s s"
  by (simp add: ctrl_frame_def)

lemma ctrl_frame_trans: "ctrl_frame s s1 \<Longrightarrow> ctrl_frame s1 s2 \<Longrightarrow> ctrl_frame s s2"
  by (simp add: ctrl_frame_def)

definition ctrl_posted :: "bool \<Rightarrow> dhd_msgbuf \<Rightarrow> dhd_msgbuf \<Rightarrow> bool" where
  "ctrl_posted ev s s' \<longleftrightarrow>
     (\<exists>p pa k rd epoch. pkt_supply (mprot s) = Some (p, pa) # pkt_supply (mprot s') \<and> pfreed (pstore (mprot s')) = pfreed (pstore (mprot s)) \<and>
        contents (pktid_map (mprot s)) (unat k) = None \<and>
        contents (pktid_map (mprot s')) = (contents (pktid_map (mprot s)))(unat k \<mapsto> ctrl_locker ev p pa) \<and>
        ctrl_queue s' = ctrl_queue_rd rd s @ [buf_post_msg ev k pa epoch])"

definition ctrl_not_posted :: "dhd_msgbuf \<Rightarrow> dhd_msgbuf \<Rightarrow> bool" where
  "ctrl_not_posted s s' \<longleftrightarrow> contents (pktid_map (mprot s')) = contents (pktid_map (mprot s)) \<and> (\<exists>rd. ctrl_queue s' = ctrl_queue_rd rd s) \<and>
     (if bus_down s then s' = s
      else pkt_supply (mprot s') = tl (pkt_supply (mprot s)) \<and>
        pfreed (pstore (mprot s')) = freed_of (pkt_supply (mprot s)) @ pfreed (pstore (mprot s)))"

lemma supply_hd:
  assumes "supply_ok dbg (Some (p, pa) # bs) freed"
  shows "p \<notin> set freed" and "supply_ok dbg bs freed" and "supply_ok dbg bs (p # freed)" and "dbg \<Longrightarrow> pa \<noteq> 0"
  using assms by (auto simp: supply_ok_def)

text \<open>Stopping early, with the packet freed.\<close>

lemma ctrl_stop:
  assumes ok: "ctrl_ok dbg X s" and nb: "\<not> bus_down s" and sup: "pkt_supply (mprot s) = Some (p, pa) # bs"
    and s': "s' = s\<lparr>mprot := (mprot s)\<lparr>pkt_supply := bs, pktid_map := mp, pstore := (pstore (mprot s))\<lparr>pfreed := p # pfreed (pstore (mprot s))\<rparr>,
        unmapped := u\<rparr>, h2dring_ctrl_subn := (h2dring_ctrl_subn s)\<lparr>mr_rd := rd\<rparr>\<rparr>"
    and mp: "map_ok_but X mp" "contents mp = contents (pktid_map (mprot s))" "ids_of mp = ids_of (pktid_map (mprot s))"
    and rd: "ring_ok ((h2dring_ctrl_subn s)\<lparr>mr_rd := rd\<rparr>)"
  shows "ctrl_ok dbg X s' \<and> ctrl_frame s s' \<and> ctrl_not_posted s s'"
proof (intro conjI)
  have "supply_ok dbg (Some (p, pa) # bs) (pfreed (pstore (mprot s)))" using ok sup by (simp add: ctrl_ok_def)
  note h = supply_hd [OF this]
  show "ctrl_ok dbg X s'" using ok mp(1) rd h(3) unfolding s' by (simp add: ctrl_ok_def)
  show "ctrl_frame s s'" unfolding ctrl_frame_def using mp(3) s' by simp
  have "ctrl_queue s' = ctrl_queue_rd rd s" unfolding s' by (simp add: ctrl_queue_def ctrl_queue_rd_def)
  then show "ctrl_not_posted s s'" unfolding ctrl_not_posted_def using nb mp(2) sup by (auto simp: s' freed_of_def)
qed

lemma wr_back:
  assumes r: "ring_ok r" "1 \<le> rspace r"
  shows "(advance_wr r 1)\<lparr>mr_wr := if mr_wr (advance_wr r 1) = 0 then mr_max_items r - 1 else mr_wr (advance_wr r 1) - 1\<rparr> = r"
proof -
  have "unclaim (advance_wr r 1) 1 = advance_wr r 0" using unclaim_result [OF r(1) _ r(2), of 0] by simp
  moreover have "advance_wr r 0 = r" using ring_okD(2) [OF r(1)] by (simp add: advance_wr_def)
  ultimately have "unclaim (advance_wr r 1) 1 = r" by simp
  moreover have "mr_wr (advance_wr r 1) < 1 \<longleftrightarrow> mr_wr (advance_wr r 1) = 0" by (rule word_less_1)
  ultimately show ?thesis unfolding unclaim_def by (simp only: advance_wr_fields)
qed

lemma rxbufpost_ctrl_pkt:
  assumes ok: "ctrl_ok dbg X s" and nb: "\<not> bus_down s" and sup: "pkt_supply (mprot s) = Some (p, pa) # bs"
    and get: "PKTGET (mprot s) = ((mprot s)\<lparr>pkt_supply := bs\<rparr>, Some (p, pa))"
  shows "\<exists>s' ret. dhd_prot_rxbufpost_ctrl dbg ev s = Some (s', ret) \<and> ctrl_ok dbg X s' \<and> ctrl_frame s s' \<and>
     (ret = 1 \<and> \<not> bus_down s \<and> ctrl_posted ev s s' \<or> ret = -1 \<and> ctrl_not_posted s s')"
proof -
  let ?q = "mprot s" and ?r = "h2dring_ctrl_subn s" and ?m = "pktid_map (mprot s)"
  define s1 where "s1 = s\<lparr>mprot := ?q\<lparr>pkt_supply := bs\<rparr>\<rparr>"
  let ?len = "if ev then 2048 else 8192 :: u32" and ?ty = "if ev then PKTTYPE_EVENT_RX else PKTTYPE_IOCTL_RX"
  have "supply_ok dbg (Some (p, pa) # bs) (pfreed (pstore ?q))" using ok sup by (simp add: ctrl_ok_def)
  note h = supply_hd [OF this]
  have o: "map_ok_but X ?m" "ring_ok ?r" "dev_ok dbg (rdev ?q) ?r" "length (ctrl_slots s) = unat (mr_max_items ?r)" using ok by (simp_all add: ctrl_ok_def)
  have ok1: "ctrl_ok dbg X s1" using ok h(2) by (simp add: ctrl_ok_def s1_def)
  note def = dhd_prot_rxbufpost_ctrl_def Let_def get
  show ?thesis
  proof (cases "pa = 0")
    case True
    then have d: "\<not> dbg" using h(4) by blast
    let ?s = "s\<lparr>mprot := ?q\<lparr>pkt_supply := bs, pktid_map := ?m, pstore := (pstore ?q)\<lparr>pfreed := p # pfreed (pstore ?q)\<rparr>,
        unmapped := unmapped ?q\<rparr>, h2dring_ctrl_subn := ?r\<lparr>mr_rd := mr_rd ?r\<rparr>\<rparr>"
    have "dhd_prot_rxbufpost_ctrl dbg ev s = Some (?s, -1)"
      using True nb d h(1) by (simp add: def dhd_prot_packet_free_def)
    then show ?thesis using ctrl_stop [OF ok nb sup refl o(1) refl refl, of "mr_rd ?r" "unmapped ?q"] o(2) by auto
  next
    case pa: False
    show ?thesis
    proof (rule ctrl_claim_cases [OF ok1])
      fix rd
      assume c: "ctrl_claim dbg s1 = Some (s1\<lparr>h2dring_ctrl_subn := (h2dring_ctrl_subn s1)\<lparr>mr_rd := rd\<rparr>\<rparr>, None)"
        and rd: "ring_ok ((h2dring_ctrl_subn s1)\<lparr>mr_rd := rd\<rparr>)"
      let ?s = "s\<lparr>mprot := ?q\<lparr>pkt_supply := bs, pktid_map := ?m, pstore := (pstore ?q)\<lparr>pfreed := p # pfreed (pstore ?q)\<rparr>,
          unmapped := unmapped ?q @ [(pa, ?len)]\<rparr>, h2dring_ctrl_subn := ?r\<lparr>mr_rd := rd\<rparr>\<rparr>"
      have "dhd_prot_rxbufpost_ctrl dbg ev s = Some (?s, -1)"
        using pa nb c h(1) unfolding def by (simp add: s1_def [symmetric]) (simp add: s1_def unmap_free_live)
      then show ?thesis using ctrl_stop [OF ok nb sup refl o(1) refl refl, of rd] rd by (auto simp: s1_def)
    next
      fix rd
      assume c: "ctrl_claim dbg s1 = Some (s1\<lparr>h2dring_ctrl_subn := advance_wr ((h2dring_ctrl_subn s1)\<lparr>mr_rd := rd\<rparr>) 1\<rparr>,
          Some (unat (mr_wr (h2dring_ctrl_subn s1))))"
        and rd: "ring_ok ((h2dring_ctrl_subn s1)\<lparr>mr_rd := rd\<rparr>)" "1 \<le> rspace ((h2dring_ctrl_subn s1)\<lparr>mr_rd := rd\<rparr>)"
      let ?r1 = "?r\<lparr>mr_rd := rd\<rparr>"
      have rd': "ring_ok ?r1" "1 \<le> rspace ?r1" using rd by (simp_all add: s1_def)
      define r2 where "r2 = advance_wr ?r1 1"
      have "r2\<lparr>mr_wr := if mr_wr r2 = 0 then mr_max_items r2 - 1 else mr_wr r2 - 1\<rparr> = ?r1"
        using wr_back [OF rd'] unfolding r2_def advance_wr_fields .
      then have bk: "mr_wr r2 = 0 \<Longrightarrow> r2\<lparr>mr_wr := mr_max_items r2 - 1\<rparr> = ?r1" "mr_wr r2 \<noteq> 0 \<Longrightarrow> r2\<lparr>mr_wr := mr_wr r2 - 1\<rparr> = ?r1"
        by presburger+
      define s2 where "s2 = s1\<lparr>h2dring_ctrl_subn := r2\<rparr>"
      have c': "ctrl_claim dbg s1 = Some (s2, Some (unat (mr_wr ?r)))" using c by (simp add: s2_def s1_def r2_def)
      have sel: "mprot s2 = ?q\<lparr>pkt_supply := bs\<rparr>" "h2dring_ctrl_subn s2 = r2" "ctrl_slots s2 = ctrl_slots s"
        by (simp_all add: s2_def s1_def)
      have pk: "pktid_ok ?m" using o(1) by (simp add: map_ok_but_def)
      show ?thesis
      proof (cases "free_ids ?m = {}")
        case True
        let ?mf = "?m\<lparr>pm_failures := pm_failures ?m + 1\<rparr>"
        let ?s = "s\<lparr>mprot := ?q\<lparr>pkt_supply := bs, pktid_map := ?mf, pstore := (pstore ?q)\<lparr>pfreed := p # pfreed (pstore ?q)\<rparr>,
            unmapped := unmapped ?q @ [(pa, ?len)]\<rparr>, h2dring_ctrl_subn := ?r1\<rparr>"
        have al: "dhd_pktid_map_alloc dbg ?m (Some p) pa ?len 2 None None ?ty = Some (?mf, 0)"
          using reserve_none [OF pk True] by (simp add: dhd_pktid_map_alloc_def)
        have "dhd_prot_rxbufpost_ctrl dbg ev s = Some (?s, -1)"
          using pa nb c' al h(1) unfolding def
          by (simp add: s1_def [symmetric] sel bk) (simp add: unmap_free_live s2_def s1_def)
        moreover have "map_ok_but X ?mf" using o(1) by (simp add: map_ok_but_def audited_but_def)
        ultimately show ?thesis using ctrl_stop [OF ok nb sup refl, where mp = ?mf and rd = rd] rd'(1) by auto
      next
        case ne: False
        let ?k = "top_id ?m" and ?msg = "buf_post_msg ev (top_id ?m) pa"
        have al: "dhd_pktid_map_alloc dbg ?m (Some p) pa ?len 2 None None ?ty = Some (take_id ?m (unat ?k) (ctrl_locker ev p pa), ?k)"
          unfolding ctrl_locker_def by (rule alloc_some [OF pk ne])
        obtain m' where m': "audit dbg (take_id ?m (unat ?k) (ctrl_locker ev p pa)) ?k DHD_DUPLICATE_ALLOC = Some m'" "map_ok_but X m'"
            "contents m' = (contents ?m)(unat ?k \<mapsto> ctrl_locker ev p pa)" "ids_of m' = ids_of ?m"
          by (rule alloc_audit_but [OF o(1) ne, of "ctrl_locker ev p pa"]) (simp add: ctrl_locker_def saved_def, blast)
        define s3 where "s3 = s2\<lparr>mprot := (mprot s2)\<lparr>pktid_map := m'\<rparr>\<rparr>"
        have sel3: "mprot s3 = ?q\<lparr>pkt_supply := bs, pktid_map := m'\<rparr>" "h2dring_ctrl_subn s3 = r2" "ctrl_slots s3 = ctrl_slots s"
          by (simp_all add: s3_def sel)
        have fill: "ctrl_fill (unat (mr_wr ?r)) ?msg s3 = Some (ctrl_sent ?r1 ?msg (rdev (mprot s3)) s3)"
          using ctrl_fill_result [of s3 ?r1 ?msg] sel3 rd'(1) o(4) by (simp add: r2_def)
        have "dev_ok dbg (rdev (mprot s3)) ?r1" using o(3) by (simp add: sel3)
        then obtain dv where sd: "ctrl_send dbg (ctrl_sent ?r1 ?msg (rdev (mprot s3)) s3) = Some (ctrl_sent ?r1 ?msg dv s3)"
            "\<And>r'. dev_ok dbg (rdev (mprot s3)) r' \<Longrightarrow> dev_ok dbg dv r'"
          by (rule ctrl_send_result) blast
        let ?s = "ctrl_sent ?r1 ?msg dv s3"
        have nz: "?k \<noteq> 0" by (rule reserve_some(2) [OF pk ne])
        have "dhd_prot_rxbufpost_ctrl dbg ev s = Some (?s, 1)"
          using pa nb c' al nz m'(1) fill sd(1) unfolding def
          by (cases ev) (simp_all add: s1_def [symmetric] sel s3_def buf_post_msg_def [abs_def])
        moreover have q: "ctrl_queue ?s = ctrl_queue_rd rd s @ [?msg (ucast (mr_seqnum ?r mod 253))]" "ring_ok (h2dring_ctrl_subn ?s)"
            "length (ctrl_slots ?s) = unat (mr_max_items (h2dring_ctrl_subn ?s))"
          using ctrl_sent_queue [OF rd', of s3 ?msg dv] o(4) by (simp_all add: sel3 ctrl_queue_rd_def)
        moreover have "ctrl_ok dbg X ?s" unfolding ctrl_ok_def using q(2,3) m'(2) sd(2) o(3) h(2) by (simp add: sel3)
        moreover have "ctrl_frame s ?s" unfolding ctrl_frame_def using m'(4) by (simp add: sel3) (simp add: s3_def s2_def s1_def)
        moreover have "contents ?m (unat ?k) = None" using stack_nonempty(2) [OF pk ne] by (simp add: contents_def free_ids_def)
        then have "ctrl_posted ev s ?s" unfolding ctrl_posted_def using q(1) sup m'(3) by (auto simp: sel3)
        ultimately show ?thesis using nb by blast
      qed
    qed
  qed
qed

lemma rxbufpost_ctrl_result:
  assumes ok: "ctrl_ok dbg X s"
  shows "\<exists>s' ret. dhd_prot_rxbufpost_ctrl dbg ev s = Some (s', ret) \<and> ctrl_ok dbg X s' \<and> ctrl_frame s s' \<and>
     (ret = 1 \<and> \<not> bus_down s \<and> ctrl_posted ev s s' \<or> ret = -1 \<and> ctrl_not_posted s s')"
proof (cases "bus_down s")
  case True
  have "ctrl_queue s = ctrl_queue_rd (mr_rd (h2dring_ctrl_subn s)) s" by (simp add: ctrl_queue_def ctrl_queue_rd_def)
  then have "ctrl_not_posted s s" using True unfolding ctrl_not_posted_def by auto
  moreover have "dhd_prot_rxbufpost_ctrl dbg ev s = Some (s, -1)" using True by (simp add: dhd_prot_rxbufpost_ctrl_def)
  ultimately show ?thesis using ok by auto
next
  case nb: False
  let ?q = "mprot s" and ?r = "h2dring_ctrl_subn s"
  show ?thesis
  proof (cases "snd (PKTGET ?q)")
    case None
    let ?s = "s\<lparr>mprot := ?q\<lparr>pkt_supply := tl (pkt_supply ?q), rx_pktgetfail := rx_pktgetfail ?q + 1\<rparr>\<rparr>"
    have sup: "fst (PKTGET ?q) = ?q\<lparr>pkt_supply := tl (pkt_supply ?q)\<rparr>" "freed_of (pkt_supply ?q) = []" "supply_ok dbg (tl (pkt_supply ?q)) (pfreed (pstore ?q))"
      using None ok by (auto simp: PKTGET_def freed_of_def ctrl_ok_def supply_ok_def split: list.splits)
    have "dhd_prot_rxbufpost_ctrl dbg ev s = Some (?s, -1)"
      using None nb sup(1) by (cases "PKTGET ?q") (simp add: dhd_prot_rxbufpost_ctrl_def Let_def)
    moreover have "ctrl_ok dbg X ?s" "ctrl_frame s ?s" using ok sup(3) by (simp_all add: ctrl_ok_def ctrl_frame_def)
    moreover have "ctrl_queue ?s = ctrl_queue_rd (mr_rd ?r) s" by (simp add: ctrl_queue_def ctrl_queue_rd_def)
    then have "ctrl_not_posted s ?s" unfolding ctrl_not_posted_def using nb sup(2) by auto
    ultimately show ?thesis by blast
  next
    case (Some b)
    obtain p pa where b: "b = (p, pa)" by (cases b)
    obtain bs where sup: "pkt_supply ?q = Some (p, pa) # bs" using Some b by (auto simp: PKTGET_def split: list.splits)
    have get: "PKTGET ?q = (?q\<lparr>pkt_supply := bs\<rparr>, Some (p, pa))" using sup by (simp add: PKTGET_def)
    show ?thesis by (rule rxbufpost_ctrl_pkt [OF ok nb sup get])
  qed
qed

section \<open>Posting up to the limit\<close>

definition locker_ids :: "dhd_pkttype \<Rightarrow> dhd_pktid_map \<Rightarrow> nat set" where
  "locker_ids ty m = {k. \<exists>lk. contents m k = Some lk \<and> lk_pkttype lk = ty}"

lemma finite_locker_ids [simp]: "finite (locker_ids ty m)"
  by (rule finite_subset [of _ "ids_of m"]) (auto simp: locker_ids_def contents_Some ids_of_def)

lemma locker_ids_cong: "contents m' = contents m \<Longrightarrow> locker_ids ty m' = locker_ids ty m"
  by (simp add: locker_ids_def)

definition buf_ty :: "bool \<Rightarrow> dhd_pkttype" where
  "buf_ty ev = (if ev then PKTTYPE_EVENT_RX else PKTTYPE_IOCTL_RX)"

lemma ctrl_posted_effect:
  assumes "ctrl_posted ev s s'"
  shows "contents (pktid_map (mprot s)) \<subseteq>\<^sub>m contents (pktid_map (mprot s'))"
    and "card (locker_ids (buf_ty ev) (pktid_map (mprot s'))) = Suc (card (locker_ids (buf_ty ev) (pktid_map (mprot s))))"
    and "locker_ids (buf_ty (\<not> ev)) (pktid_map (mprot s')) = locker_ids (buf_ty (\<not> ev)) (pktid_map (mprot s))"
proof -
  obtain p pa and k :: u32 where k: "contents (pktid_map (mprot s)) (unat k) = None"
      "contents (pktid_map (mprot s')) = (contents (pktid_map (mprot s)))(unat k \<mapsto> ctrl_locker ev p pa)"
    using assms by (auto simp: ctrl_posted_def)
  show "contents (pktid_map (mprot s)) \<subseteq>\<^sub>m contents (pktid_map (mprot s'))" using k by (auto simp: map_le_def)
  show "locker_ids (buf_ty (\<not> ev)) (pktid_map (mprot s')) = locker_ids (buf_ty (\<not> ev)) (pktid_map (mprot s))"
    unfolding locker_ids_def k(2) by (auto simp: ctrl_locker_def saved_def buf_ty_def k(1))
  have "locker_ids (buf_ty ev) (pktid_map (mprot s')) = insert (unat k) (locker_ids (buf_ty ev) (pktid_map (mprot s)))"
    unfolding locker_ids_def k(2) by (auto simp: ctrl_locker_def saved_def buf_ty_def k(1))
  moreover have "unat k \<notin> locker_ids (buf_ty ev) (pktid_map (mprot s))" using k(1) by (simp add: locker_ids_def)
  ultimately show "card (locker_ids (buf_ty ev) (pktid_map (mprot s'))) = Suc (card (locker_ids (buf_ty ev) (pktid_map (mprot s))))" by simp
qed

text \<open>The packets still to come and those already freed.\<close>

definition pkts_of :: "dhd_msgbuf \<Rightarrow> pkt set" where
  "pkts_of s = set (supply_pkts (pkt_supply (mprot s))) \<union> set (pfreed (pstore (mprot s)))"

lemma pkts_of_posted: "ctrl_posted ev s s' \<Longrightarrow> pkts_of s' \<subseteq> pkts_of s"
  unfolding ctrl_posted_def pkts_of_def by auto

lemma pkts_of_not_posted: "ctrl_not_posted s s' \<Longrightarrow> pkts_of s' \<subseteq> pkts_of s"
  by (cases "pkt_supply (mprot s)") (auto simp: ctrl_not_posted_def pkts_of_def freed_of_def supply_pkts_set split: if_splits option.splits)

definition ctrl_more :: "bool \<Rightarrow> nat \<Rightarrow> dhd_msgbuf \<Rightarrow> dhd_msgbuf \<Rightarrow> bool" where
  "ctrl_more ev k s s' \<longleftrightarrow> ctrl_frame s s' \<and> contents (pktid_map (mprot s)) \<subseteq>\<^sub>m contents (pktid_map (mprot s')) \<and>
     card (locker_ids (buf_ty ev) (pktid_map (mprot s'))) = card (locker_ids (buf_ty ev) (pktid_map (mprot s))) + k \<and>
     locker_ids (buf_ty (\<not> ev)) (pktid_map (mprot s')) = locker_ids (buf_ty (\<not> ev)) (pktid_map (mprot s)) \<and> pkts_of s' \<subseteq> pkts_of s"

lemma ctrl_more_step:
  assumes "ctrl_frame s s1" and "ctrl_posted ev s s1" and "ctrl_more ev k s1 s'"
  shows "ctrl_more ev (Suc k) s s'"
  using assms(1,3) ctrl_posted_effect [OF assms(2)] pkts_of_posted [OF assms(2)] ctrl_frame_trans map_le_trans
  unfolding ctrl_more_def by (metis add_Suc_shift order_trans)

lemma ctrl_more_stop:
  assumes "ctrl_frame s s'" and "contents (pktid_map (mprot s')) = contents (pktid_map (mprot s))" and "pkts_of s' \<subseteq> pkts_of s"
  shows "ctrl_more ev 0 s s'"
  using assms locker_ids_cong [OF assms(2)] by (simp add: ctrl_more_def)

lemma ctrlpath_loop_result:
  "ctrl_ok dbg X s \<Longrightarrow> \<exists>s' k. ctrlpath_loop dbg ev n i s = Some (s', i + of_nat k) \<and> k \<le> n \<and> ctrl_ok dbg X s' \<and> ctrl_more ev k s s'"
proof (induction n arbitrary: i s)
  case 0
  then show ?case using ctrl_more_stop [of s s ev] by (intro exI [of _ s] exI [of _ 0]) simp
next
  case (Suc n)
  obtain s1 ret where r: "dhd_prot_rxbufpost_ctrl dbg ev s = Some (s1, ret)" "ctrl_ok dbg X s1" "ctrl_frame s s1"
      "ret = 1 \<and> \<not> bus_down s \<and> ctrl_posted ev s s1 \<or> ret = -1 \<and> ctrl_not_posted s s1"
    using rxbufpost_ctrl_result [OF Suc.prems, of ev] by blast
  show ?case
  proof (cases "ret = 1")
    case True
    then have post: "ctrl_posted ev s s1" using r(4) by auto
    obtain s' k where l: "ctrlpath_loop dbg ev n (i + 1) s1 = Some (s', i + 1 + of_nat k)" "k \<le> n" "ctrl_ok dbg X s'" "ctrl_more ev k s1 s'"
      using Suc.IH [OF r(2)] by blast
    have "ctrlpath_loop dbg ev (Suc n) i s = Some (s', i + of_nat (Suc k))" using r(1) True l(1) by (simp add: add.assoc)
    then show ?thesis using l ctrl_more_step [OF r(3) post l(4)] by (intro exI [of _ s'] exI [of _ "Suc k"]) simp
  next
    case False
    then have n: "ret = -1" "ctrl_not_posted s s1" using r(4) by auto
    have "ctrlpath_loop dbg ev (Suc n) i s = Some (s1, i + of_nat 0)" using r(1) n(1) by simp
    moreover have "ctrl_more ev 0 s s1" by (rule ctrl_more_stop [OF r(3) _ pkts_of_not_posted [OF n(2)]]) (use n(2) in \<open>simp add: ctrl_not_posted_def\<close>)
    ultimately show ?thesis using r(2) by (intro exI [of _ s1] exI [of _ 0]) simp
  qed
qed

text \<open>Posting what is missing of \<open>x\<close> when \<open>c\<close> are posted.\<close>

lemma ctrlpath_result:
  fixes c x :: u16
  assumes ok: "ctrl_ok dbg X s" and le: "unat c \<le> unat x"
  obtains s' k where "dhd_msgbuf_rxbuf_post_ctrlpath dbg ev (nat (uint x - uint c)) s = Some (s', of_nat k)" and "uint x - uint c \<le> 0 \<Longrightarrow> s' = s \<and> k = 0"
    and "unat (c + of_nat k) = unat c + k" and "unat c + k \<le> unat x" and "ctrl_ok dbg X s'" and "ctrl_more ev k s s'"
proof (cases "bus_down s")
  case True
  then show thesis using ok le ctrl_more_stop [of s s ev]
    by (intro that [where s' = s and k = 0]) (simp_all add: dhd_msgbuf_rxbuf_post_ctrlpath_def)
next
  case False
  have "uint x - uint c = int (unat x - unat c)" using le unfolding uint_nat by (simp add: of_nat_diff)
  then have n: "nat (uint x - uint c) = unat x - unat c" by (metis nat_int)
  obtain s' k where l: "ctrlpath_loop dbg ev (nat (uint x - uint c)) 0 s = Some (s', of_nat k)" "k \<le> nat (uint x - uint c)" "ctrl_ok dbg X s'"
      "ctrl_more ev k s s'"
    using ctrlpath_loop_result [OF ok, of ev "nat (uint x - uint c)" 0] by auto
  have kx: "unat c + k \<le> unat x" using l(2) le unfolding n by linarith
  then have "unat (c + of_nat k) = unat c + k" using unat_u16_less [of x] by (simp add: unat_add_bounded unat_of_nat16)
  moreover have "s' = s \<and> k = 0" if "uint x - uint c \<le> 0" using l(1,2) that by simp
  ultimately show thesis using False l kx
    by (intro that [where s' = s' and k = k]) (simp_all add: dhd_msgbuf_rxbuf_post_ctrlpath_def)
qed

text \<open>\<open>d\<close> is how many more buffers are outstanding than counted.\<close>

definition event_cnt :: "nat \<Rightarrow> dhd_msgbuf \<Rightarrow> bool" where
  "event_cnt d s \<longleftrightarrow> card (locker_ids PKTTYPE_EVENT_RX (pktid_map (mprot s))) = unat (cur_event_bufs_posted s) + d \<and>
     unat (cur_event_bufs_posted s) \<le> unat (max_eventbufpost s)"

definition resp_cnt :: "nat \<Rightarrow> dhd_msgbuf \<Rightarrow> bool" where
  "resp_cnt d s \<longleftrightarrow> card (locker_ids PKTTYPE_IOCTL_RX (pktid_map (mprot s))) = unat (cur_ioctlresp_bufs_posted s) + d \<and>
     unat (cur_ioctlresp_bufs_posted s) \<le> unat (max_ioctlrespbufpost s)"

lemma post_event_bufs_result:
  assumes ok: "ctrl_ok dbg X s" and cnt: "event_cnt d s"
  shows "\<exists>s'. dhd_msgbuf_rxbuf_post_event_bufs dbg s = Some s' \<and> ctrl_ok dbg X s' \<and> event_cnt d s' \<and> (resp_cnt e s \<longrightarrow> resp_cnt e s') \<and>
     contents (pktid_map (mprot s)) \<subseteq>\<^sub>m contents (pktid_map (mprot s')) \<and> rx_frames (mprot s') = rx_frames (mprot s) \<and>
     rx_dataoffset (mprot s') = rx_dataoffset (mprot s) \<and> ids_of (pktid_map (mprot s')) = ids_of (pktid_map (mprot s))"
proof -
  let ?c = "cur_event_bufs_posted s" and ?x = "max_eventbufpost s"
  have "unat ?c \<le> unat ?x" using cnt by (simp add: event_cnt_def)
  from ctrlpath_result [OF ok this, of True] obtain s1 k
    where l: "dhd_msgbuf_rxbuf_post_ctrlpath dbg True (nat (uint ?x - uint ?c)) s = Some (s1, of_nat k)" "uint ?x - uint ?c \<le> 0 \<Longrightarrow> s1 = s \<and> k = 0"
      "unat (?c + of_nat k) = unat ?c + k" "unat ?c + k \<le> unat ?x" "ctrl_ok dbg X s1" "ctrl_more True k s s1" by metis
  have fr: "ctrl_frame s s1" using l(6) by (simp add: ctrl_more_def)
  note o = outer_sel [of s1 s, OF fr [unfolded ctrl_frame_def, THEN conjunct1]]
  let ?s = "s1\<lparr>cur_event_bufs_posted := cur_event_bufs_posted s1 + of_nat k\<rparr>"
  have "dhd_msgbuf_rxbuf_post_event_bufs dbg s = Some ?s"
    using l(1,2) by (cases "uint ?x - uint ?c \<le> 0") (simp_all add: dhd_msgbuf_rxbuf_post_event_bufs_def Let_def)
  moreover have "event_cnt d ?s" "resp_cnt e s \<longrightarrow> resp_cnt e ?s"
    using cnt l(3,4,6) o by (simp_all add: event_cnt_def resp_cnt_def ctrl_more_def buf_ty_def)
  ultimately show ?thesis using l(5,6) fr by (intro exI [of _ ?s]) (simp add: ctrl_ok_def ctrl_frame_def ctrl_more_def)
qed

section \<open>Properties\<close>


text \<open>The demo state with one event buffer outstanding.\<close>

definition demo_event :: "dhd_pktid_map \<Rightarrow> dhd_msgbuf" where
  "demo_event m = (demo_msgbuf m)\<lparr>cur_event_bufs_posted := 1\<rparr>"

lemma demo_event_ok: "map_ok m \<Longrightarrow> ctrl_ok True {} (demo_event m)"
  by (simp add: ctrl_ok_def demo_event_def demo_msgbuf_def demo_prot_def demo_dev_def ring_ok_def dev_ok_def fetch_rd_def supply_ok_def)


end
