(* ===== verification/Msgbuf_Ioctl_Props.thy ===== *)
theory Msgbuf_Ioctl_Props
  imports Msgbuf_Ioctl Msgbuf_Ctrl_Props
begin

text \<open>
  Properties of ioctl requests: an acknowledged and answered request returns the device's status and
  bytes and leaves the protocol idle; a request that is never acknowledged blocks every later one.
\<close>

section \<open>The request\<close>

definition ioctl_ready :: "dhd_msgbuf \<Rightarrow> bool" where
  "ioctl_ready s \<longleftrightarrow> \<not> bus_down s \<and> \<not> hang_was_sent s \<and> \<not> bus_suspend s \<and> \<not> dongle_reset s \<and> \<not> dongle_trap_occured s \<and>
     length (ioctbuf s) = 8200 \<and> length (retbuf s) = 8200"

definition ioctl_msg :: "dhd_msgbuf \<Rightarrow> u32 \<Rightarrow> u16 \<Rightarrow> int \<Rightarrow> u8 \<Rightarrow> ctrl_submit_item" where
  "ioctl_msg s cmd len ifidx epoch = Ioctl_Req \<lparr>ch_msg_type = 9, ch_if_id = of_int ifidx, ch_epoch = epoch, ch_request_id = 0xFFFE\<rparr>
     cmd (ioctl_trans_id s + 1) (min len 2008) len (paddr (ioctbuf_pa s))"

text \<open>The state after a request with the payload \<open>b\<close>; \<open>r\<close> is the ring as it was.\<close>

definition requested :: "msgbuf_ring \<Rightarrow> u32 \<Rightarrow> int \<Rightarrow> bytes \<Rightarrow> ring_dev \<Rightarrow> dhd_msgbuf \<Rightarrow> dhd_msgbuf" where
  "requested r cmd ifidx b dv s = (ctrl_sent r (ioctl_msg s cmd (of_nat (length b)) ifidx) dv s)
     \<lparr>ioctl_state := 3, curr_ioctl_cmd := cmd, ioctl_trans_id := ioctl_trans_id s + 1, ioctbuf := b @ drop (length b) (ioctbuf s)\<rparr>"

lemma fillup_requested:
  assumes ok: "ctrl_ok dbg X s" and st: "ioctl_state s = 0" and room: "Suc (rcount (h2dring_ctrl_subn s)) < unat (mr_max_items (h2dring_ctrl_subn s))"
    and b: "length b \<le> length (ioctbuf s)" "length b < 2 ^ 16"
  obtains rd dv where "dhd_fillup_ioct_reqst dbg (of_nat (length b)) cmd (Some b) ifidx s =
      Some (requested ((h2dring_ctrl_subn s)\<lparr>mr_rd := rd\<rparr>) cmd ifidx b dv s, 0)"
    and "ctrl_ok dbg X (requested ((h2dring_ctrl_subn s)\<lparr>mr_rd := rd\<rparr>) cmd ifidx b dv s)"
    and "\<exists>epoch. ctrl_queue (requested ((h2dring_ctrl_subn s)\<lparr>mr_rd := rd\<rparr>) cmd ifidx b dv s) =
      ctrl_queue_rd rd s @ [ioctl_msg s cmd (of_nat (length b)) ifidx epoch]"
proof -
  define s0 where "s0 = s\<lparr>ioctl_state := 3\<rparr>"
  have s0: "h2dring_ctrl_subn s0 = h2dring_ctrl_subn s" "ctrl_slots s0 = ctrl_slots s" "mprot s0 = mprot s" by (simp_all add: s0_def)
  have ok0: "ctrl_ok dbg X s0" using ok by (simp add: ctrl_ok_def s0)
  note o = ok [unfolded ctrl_ok_def]
  obtain rd where c: "ctrl_claim dbg s0 = Some (s0\<lparr>h2dring_ctrl_subn := advance_wr ((h2dring_ctrl_subn s)\<lparr>mr_rd := rd\<rparr>) 1\<rparr>,
      Some (unat (mr_wr (h2dring_ctrl_subn s))))" and rd: "ring_ok ((h2dring_ctrl_subn s)\<lparr>mr_rd := rd\<rparr>)" "1 \<le> rspace ((h2dring_ctrl_subn s)\<lparr>mr_rd := rd\<rparr>)"
    by (rule ctrl_claim_cases [OF ok0]) (use room s0 in auto)
  define r where "r = (h2dring_ctrl_subn s)\<lparr>mr_rd := rd\<rparr>"
  have r: "ring_ok r" "1 \<le> rspace r" "mr_wr r = mr_wr (h2dring_ctrl_subn s)" "length (ctrl_slots s) = unat (mr_max_items r)" "dev_ok dbg (rdev (mprot s)) r"
    using rd o dev_ok_cong [of r "h2dring_ctrl_subn s" dbg] by (simp_all add: r_def)
  define msg where "msg = ioctl_msg s cmd (of_nat (length b)) ifidx"
  define s1 where "s1 = s0\<lparr>h2dring_ctrl_subn := advance_wr r 1, curr_ioctl_cmd := cmd, ioctl_trans_id := ioctl_trans_id s0 + 1\<rparr>"
  have m0: "msg = ioctl_msg s0 cmd (of_nat (length b)) ifidx" by (simp add: msg_def ioctl_msg_def s0_def fun_eq_iff)
  have fill: "ctrl_fill (unat (mr_wr r)) msg s1 = Some (ctrl_sent r msg (rdev (mprot s1)) s1)"
    by (rule ctrl_fill_result [OF _ r(1)]) (use r(4) in \<open>simp_all add: s1_def s0_def\<close>)
  define s2 where "s2 = s1\<lparr>ioctbuf := b @ drop (length b) (ioctbuf s)\<rparr>"
  have cs: "(ctrl_sent r msg dv s1)\<lparr>ioctbuf := b @ drop (length b) (ioctbuf s)\<rparr> = ctrl_sent r msg dv s2" for dv by (simp add: ctrl_sent_def s2_def)
  obtain dv where dv: "ctrl_send dbg (ctrl_sent r msg (rdev (mprot s2)) s2) = Some (ctrl_sent r msg dv s2)" "\<And>r'. dev_ok dbg (rdev (mprot s2)) r' \<Longrightarrow> dev_ok dbg dv r'"
    by (rule ctrl_send_result [of dbg s2 r msg]) (use r(5) in \<open>simp_all add: s2_def s1_def s0_def\<close>)
  have rq: "ctrl_sent r msg dv s2 = requested r cmd ifidx b dv s"
    by (simp add: requested_def msg_def ctrl_sent_def s2_def s1_def s0_def)
  have ul: "unat (of_nat (length b) :: u16) = length b" using b(2) by (simp add: unat_of_nat16)
  have cp: "mem_copy_from b 0 (length b) = Some b" "mem_copy_to (ioctbuf (ctrl_sent r msg (rdev (mprot s1)) s1)) 0 b = Some (b @ drop (length b) (ioctbuf s))"
    using b(1) by (simp_all add: mem_copy_from_def mem_copy_to_def ctrl_sent_def s1_def s0_def)
  have rd2: "rdev (mprot s2) = rdev (mprot s1)" by (simp add: s2_def)
  have "dhd_fillup_ioct_reqst dbg (of_nat (length b)) cmd (Some b) ifidx s = Some (ctrl_sent r msg dv s2, 0)"
    using st c cp fill dv(1) cs ul rd2
    by (simp add: dhd_fillup_ioct_reqst_def Let_def s0_def [symmetric] r_def [symmetric] r(3) [symmetric] ioctl_msg_def [symmetric] m0 [symmetric] s1_def [unfolded One_nat_def, symmetric])
  moreover have "ctrl_ok dbg X (ctrl_sent r msg dv s2)"
    using o ctrl_sent_queue(2,3) [OF r(1,2), of s2 msg dv] r(4) dv(2) [of "(advance_wr r 1)\<lparr>mr_seqnum := mr_seqnum r + 1\<rparr>"] r(5)
    by (simp add: ctrl_ok_def s2_def s1_def s0_def)
  moreover have "ctrl_queue (ctrl_sent r msg dv s2) = ctrl_queue_rd rd s @ [msg (ucast (mr_seqnum r mod 253))]"
    using ctrl_sent_queue(1) [OF r(1,2), of s2 msg dv] r(4) by (simp add: s2_def s1_def s0_def ctrl_queue_rd_def r_def)
  ultimately show thesis unfolding rq unfolding r_def msg_def by (intro that) auto
qed

section \<open>Buffers for the response\<close>

definition resp_posted :: "dhd_msgbuf \<Rightarrow> dhd_msgbuf \<Rightarrow> bool" where
  "resp_posted s s' \<longleftrightarrow> outer (s'\<lparr>cur_ioctlresp_bufs_posted := cur_ioctlresp_bufs_posted s\<rparr>) = outer s \<and>
     contents (pktid_map (mprot s)) \<subseteq>\<^sub>m contents (pktid_map (mprot s')) \<and> pkts_of s' \<subseteq> pkts_of s"

lemma resp_posted_sel:
  assumes "resp_posted s s'"
  shows "ioctl_state s' = ioctl_state s" "ioctl_trans_id s' = ioctl_trans_id s" "ioctl_received s' = ioctl_received s" "retbuf s' = retbuf s"
    "dongle_trap_occured s' = dongle_trap_occured s"
  using outer_sel [of "s'\<lparr>cur_ioctlresp_bufs_posted := cur_ioctlresp_bufs_posted s\<rparr>" s] assms by (simp_all add: resp_posted_def)

lemma post_resp_bufs_result:
  assumes ok: "ctrl_ok dbg X s" and cnt: "resp_cnt d s"
  obtains s' where "dhd_msgbuf_rxbuf_post_ioctlresp_bufs dbg s = Some s'" and "ctrl_ok dbg X s'" and "resp_cnt d s'" and "resp_posted s s'"
proof -
  let ?c = "cur_ioctlresp_bufs_posted s" and ?x = "max_ioctlrespbufpost s"
  have "unat ?c \<le> unat ?x" using cnt by (simp add: resp_cnt_def)
  from ctrlpath_result [OF ok this, of False] obtain s1 k
    where l: "dhd_msgbuf_rxbuf_post_ctrlpath dbg False (nat (uint ?x - uint ?c)) s = Some (s1, of_nat k)" "uint ?x - uint ?c \<le> 0 \<Longrightarrow> s1 = s \<and> k = 0"
      "unat (?c + of_nat k) = unat ?c + k" "unat ?c + k \<le> unat ?x" "ctrl_ok dbg X s1" "ctrl_more False k s s1" by metis
  have fr: "outer s1 = outer s" using l(6) by (simp add: ctrl_more_def ctrl_frame_def)
  note o = outer_sel [OF fr]
  let ?s = "s1\<lparr>cur_ioctlresp_bufs_posted := cur_ioctlresp_bufs_posted s1 + of_nat k\<rparr>"
  have "dhd_msgbuf_rxbuf_post_ioctlresp_bufs dbg s = Some ?s"
    using l(1,2) by (cases "uint ?x - uint ?c \<le> 0") (simp_all add: dhd_msgbuf_rxbuf_post_ioctlresp_bufs_def Let_def)
  moreover have "resp_cnt d ?s" using cnt l(3,4,6) o by (simp add: resp_cnt_def ctrl_more_def buf_ty_def)
  moreover have "ctrl_ok dbg X ?s" using l(5) by (simp add: ctrl_ok_def)
  moreover have "?s\<lparr>cur_ioctlresp_bufs_posted := ?c\<rparr> = s1" using o(4) by simp
  then have "resp_posted s ?s" using l(6) fr by (simp add: resp_posted_def ctrl_more_def pkts_of_def)
  ultimately show thesis using that by blast
qed

section \<open>The response\<close>

lemma take_locker:
  assumes mo: "map_ok mp" and c: "contents mp (unat k) = Some lk" and p: "lk_pkt lk = Some p"
  obtains m m' where "audit dbg mp k DHD_DUPLICATE_FREE = Some m" and "map_ok m'" and "contents m' = (contents mp)(unat k := None)"
    and "\<And>q. dhd_prot_packet_get dbg k (lk_pkttype lk) True (q\<lparr>pktid_map := m\<rparr>) =
      Some (q\<lparr>pktid_map := m', unmapped := unmapped q @ [(lk_pa lk, ucast (lk_len lk))]\<rparr>, Some p)"
proof -
  let ?lk = "lk\<lparr>lk_state := LOCKER_IS_FREE, lk_pkt := None, lk_len := 0\<rparr>"
  have "lk_state ?lk = LOCKER_IS_FREE" by simp
  from free_audit [OF mo c this, of dbg] obtain m where m: "audit dbg mp k DHD_DUPLICATE_FREE = Some m" "pktid_ok m" "contents m = contents mp"
      "map_ok (give_id m k ?lk)" by metis
  have cm: "contents m (unat k) = Some lk" using c m(3) by simp
  have "dhd_pktid_map_free dbg m k (lk_pkttype lk) False =
      Some (give_id m k ?lk, Some p, Some (lk_pa lk, ucast (lk_len lk), lk_dmah lk, lk_secdma lk))"
    using free_some [OF m(2) cm, of "lk_pkttype lk" dbg False] p by simp
  moreover have "contents (give_id m k ?lk) = (contents mp)(unat k := None)" using give_id_ok(3) [OF m(2), of k ?lk] cm m(3) by simp
  ultimately show thesis using m by (intro that [where m = m and m' = "give_id m k ?lk"]) (simp_all add: dhd_prot_packet_get_def Let_def)
qed

lemma ack_result:
  "ioctl_state s = 3 \<Longrightarrow> dhd_prot_ioctack_process dbg 0xFFFE s = Some (s\<lparr>ioctl_state := 2\<rparr>)"
  "ioctl_state s = 1 \<Longrightarrow> dhd_prot_ioctack_process dbg 0xFFFE s = Some s"
  by (simp_all add: dhd_prot_ioctack_process_def)

text \<open>The response to the current request.\<close>

lemma cmplt_result:
  assumes ok: "ctrl_ok dbg {} s" and cnt: "resp_cnt (Suc d) s" and st: "ioctl_state s = 2"
    and lk: "contents (pktid_map (mprot s)) (unat k) = Some lk" "lk_pkttype lk = PKTTYPE_IOCTL_RX" "lk_pkt lk = Some p"
    and p: "p \<notin> pkts_of s" and resp: "unat n \<le> length data" "unat n \<le> length (retbuf s)"
  obtains q where "dhd_prot_ioctcmplt_process dbg k code n (ioctl_trans_id s) data s =
      Some (s\<lparr>mprot := q, ioctl_resplen := n, ioctl_status := code, retbuf := take (unat n) data @ drop (unat n) (retbuf s), ioctl_received := 1\<rparr>)"
    and "ctrl_ok dbg {} (s\<lparr>mprot := q\<rparr>)" and "resp_cnt d (s\<lparr>mprot := q\<rparr>)"
    and "contents (pktid_map q) = (contents (pktid_map (mprot s)))(unat k := None)" and "pfreed (pstore q) = p # pfreed (pstore (mprot s))"
proof -
  have mo: "map_ok (pktid_map (mprot s))" using ok by (simp add: ctrl_ok_def)
  from take_locker [OF mo lk(1,3), of dbg] obtain m m' where m: "audit dbg (pktid_map (mprot s)) k DHD_DUPLICATE_FREE = Some m" "map_ok m'"
      "contents m' = (contents (pktid_map (mprot s)))(unat k := None)"
      "\<And>q. dhd_prot_packet_get dbg k PKTTYPE_IOCTL_RX True (q\<lparr>pktid_map := m\<rparr>) =
        Some (q\<lparr>pktid_map := m', unmapped := unmapped q @ [(lk_pa lk, ucast (lk_len lk))]\<rparr>, Some p)"
    using lk(2) by metis
  let ?st = "pstore (mprot s)"
  define q where "q = (mprot s)\<lparr>pktid_map := m', unmapped := unmapped (mprot s) @ [(lk_pa lk, ucast (lk_len lk))],
    pstore := ?st\<lparr>pfreed := p # pfreed ?st\<rparr>\<rparr>"
  have live: "p \<notin> set (pfreed ?st)" "p \<notin> set (supply_pkts (pkt_supply (mprot s)))" using p by (simp_all add: pkts_of_def)
  then have free: "dhd_prot_packet_free ?st (Some p) = Some (?st\<lparr>pfreed := p # pfreed ?st\<rparr>)" by (simp add: dhd_prot_packet_free_def)
  have cp: "mem_copy_from data 0 (unat n) = Some (take (unat n) data)"
    "mem_copy_to (retbuf s) 0 (take (unat n) data) = Some (take (unat n) data @ drop (unat n) (retbuf s))"
    using resp by (simp_all add: mem_copy_from_def mem_copy_to_def)
  have "dhd_prot_ioctcmplt_process dbg k code n (ioctl_trans_id s) data s =
      Some (s\<lparr>mprot := q, ioctl_resplen := n, ioctl_status := code, retbuf := take (unat n) data @ drop (unat n) (retbuf s), ioctl_received := 1\<rparr>)"
    using st m(1,4) free cp by (cases "n = 0") (simp_all add: dhd_prot_ioctcmplt_process_def Let_def q_def word_gt_0)
  moreover have "supply_ok dbg (pkt_supply (mprot s)) (p # pfreed ?st)"
    using ok live by (auto simp: ctrl_ok_def supply_ok_def supply_pkts_set)
  then have "ctrl_ok dbg {} (s\<lparr>mprot := q\<rparr>)" using ok m(2) by (simp add: ctrl_ok_def q_def)
  moreover have "locker_ids PKTTYPE_IOCTL_RX m' = locker_ids PKTTYPE_IOCTL_RX (pktid_map (mprot s)) - {unat k}" unfolding locker_ids_def m(3) by auto
  moreover have "unat k \<in> locker_ids PKTTYPE_IOCTL_RX (pktid_map (mprot s))" using lk by (simp add: locker_ids_def)
  ultimately show thesis using cnt m(3) by (intro that [where q = q]) (simp_all add: resp_cnt_def q_def card_Diff_singleton)
qed

section \<open>The wait\<close>

definition answer :: "u32 \<Rightarrow> 16 word \<Rightarrow> u16 \<Rightarrow> u16 \<Rightarrow> bytes \<Rightarrow> d2h_ctrl_msg list" where
  "answer k code n xt data = [Ioctl_Ack 0xFFFE, Ioctl_Cmplt k code n xt data]"

lemma resp_cut:
  fixes n :: u16 and len :: u32
  assumes "unat len = l"
  shows "(if len < ucast n then ucast len else n) = of_nat (min (unat n) l)"
proof (cases "l < unat n")
  case True
  then have "len < ucast n" using assms by (simp add: word_less_nat_alt unat_ucast32)
  moreover have "unat (ucast len :: u16) = l" using True assms unat_u16_less [of n] by (simp add: unat_ucast16)
  then have "ucast len = (of_nat l :: u16)" by (metis of_nat_unat ucast_id)
  ultimately show ?thesis using True by (simp add: min_absorb2)
next
  case False
  then have "\<not> len < ucast n" using assms by (simp add: word_less_nat_alt unat_ucast32)
  then show ?thesis using False by (simp add: min_absorb1)
qed

lemma wait_answered:
  assumes ok: "ctrl_ok dbg {} s" and cnt: "resp_cnt 0 s" and st: "ioctl_state s = 3" "\<not> dongle_reset s" "\<not> dongle_trap_occured s"
    and lk: "contents (pktid_map (mprot s)) (unat k) = Some lk" "lk_pkttype lk = PKTTYPE_IOCTL_RX" "lk_pkt lk = Some p"
    and p: "p \<notin> pkts_of s" and resp: "unat n \<le> length data" "unat n \<le> length (retbuf s)" and len: "unat len = length b"
  obtains s' where "dhd_msgbuf_wait_ioctl_cmplt dbg (answer k code n (ioctl_trans_id s) data) len (Some b) s =
      Some (s', sint code, Some (take (min (unat n) (length b)) data @ drop (min (unat n) (length b)) b))"
    and "ctrl_ok dbg {} s'" and "resp_cnt 0 s'" and "ioctl_state s' = 0" and "ioctl_received s' = 0"
    and "(contents (pktid_map (mprot s)))(unat k := None) \<subseteq>\<^sub>m contents (pktid_map (mprot s'))"
proof -
  let ?c = "cur_ioctlresp_bufs_posted s" and ?m = "min (unat n) (length b)"
  have "unat k \<in> locker_ids PKTTYPE_IOCTL_RX (pktid_map (mprot s))" using lk by (simp add: locker_ids_def)
  then have "0 < card (locker_ids PKTTYPE_IOCTL_RX (pktid_map (mprot s)))" by (simp add: card_gt_0_iff) blast
  then have pos: "0 < unat ?c" using cnt by (simp add: resp_cnt_def)
  then have nz: "?c \<noteq> 0" by (simp add: unat_gt_0)
  define s1 where "s1 = s\<lparr>cur_ioctlresp_bufs_posted := ?c - 1\<rparr>"
  have s1: "mprot s1 = mprot s" "ioctl_state s1 = 3" "\<not> dongle_trap_occured s1" "retbuf s1 = retbuf s" "ioctl_trans_id s1 = ioctl_trans_id s" "pkts_of s1 = pkts_of s"
    using st by (simp_all add: s1_def pkts_of_def)
  have "ctrl_ok dbg {} s1" "resp_cnt 1 s1" using ok cnt pos unat_dec [OF pos] by (auto simp: ctrl_ok_def resp_cnt_def s1_def)
  then obtain s2 where s2: "dhd_msgbuf_rxbuf_post_ioctlresp_bufs dbg s1 = Some s2" "ctrl_ok dbg {} s2" "resp_cnt 1 s2" "resp_posted s1 s2"
    by (rule post_resp_bufs_result)
  note o = resp_posted_sel [OF s2(4), unfolded s1]
  have ml: "contents (pktid_map (mprot s)) \<subseteq>\<^sub>m contents (pktid_map (mprot s2))" "p \<notin> pkts_of s2" using s2(4) p s1 by (auto simp: resp_posted_def)
  define s3 where "s3 = s2\<lparr>ioctl_state := 2\<rparr>"
  have ack: "dhd_prot_ioctack_process dbg 0xFFFE s2 = Some s3" using o(1) by (simp add: ack_result s3_def)
  have ok3: "ctrl_ok dbg {} s3" and cnt3: "resp_cnt (Suc 0) s3" and st3: "ioctl_state s3 = 2" "ioctl_trans_id s3 = ioctl_trans_id s" "retbuf s3 = retbuf s"
    and mp3: "mprot s3 = mprot s2" "\<not> dongle_trap_occured s3"
    using s2(2,3) o s1(3) by (simp_all add: ctrl_ok_def resp_cnt_def s3_def)
  have c3: "contents (pktid_map (mprot s3)) (unat k) = Some lk" using ml(1) lk(1) unfolding mp3 by (metis domI map_le_def)
  have p3: "p \<notin> pkts_of s3" using ml(2) by (simp add: pkts_of_def mp3)
  obtain q where q: "dhd_prot_ioctcmplt_process dbg k code n (ioctl_trans_id s3) data s3 =
      Some (s3\<lparr>mprot := q, ioctl_resplen := n, ioctl_status := code, retbuf := take (unat n) data @ drop (unat n) (retbuf s3), ioctl_received := 1\<rparr>)"
      "ctrl_ok dbg {} (s3\<lparr>mprot := q\<rparr>)" "resp_cnt 0 (s3\<lparr>mprot := q\<rparr>)" "contents (pktid_map q) = (contents (pktid_map (mprot s3)))(unat k := None)"
    by (rule cmplt_result [OF ok3 cnt3 st3(1) c3 lk(2,3) p3 resp(1), of code]) (use resp(2) st3(3) in auto)
  define s4 where "s4 = s3\<lparr>mprot := q, ioctl_resplen := n, ioctl_status := code, retbuf := take (unat n) data @ drop (unat n) (retbuf s), ioctl_received := 1\<rparr>"
  have run: "process_ctrl_msgs dbg (answer k code n (ioctl_trans_id s) data) s2 = Some s4"
    using ack q(1) st3 by (simp add: answer_def process_ctrl_msg_def s4_def)
  define s5 where "s5 = s4\<lparr>rxcnt_timeout := 0, rx_ctlpkts := rx_ctlpkts s4 + 1, ioctl_resplen := of_nat ?m\<rparr>"
  have um: "unat (of_nat ?m :: u16) = ?m" using unat_u16_less [of n] by (simp add: unat_of_nat16)
  have cut: "(if len < ucast n then t\<lparr>ioctl_resplen := ucast len\<rparr> else t) = t\<lparr>ioctl_resplen := of_nat ?m\<rparr>" if "ioctl_resplen t = n" for t :: dhd_msgbuf
    unfolding resp_cut [OF len, of n, symmetric] by (cases "len < ucast n") (use that in auto)
  have cp: "mem_copy_from (retbuf s5) 0 ?m = Some (take ?m data)" "mem_copy_to b 0 (take ?m data) = Some (take ?m data @ drop ?m b)"
    using resp by (simp_all add: mem_copy_from_def mem_copy_to_def s5_def s4_def min_def)
  define s6 where "s6 = fst (wait_out (sint code) None s5)"
  have "dhd_msgbuf_wait_ioctl_cmplt dbg (answer k code n (ioctl_trans_id s) data) len (Some b) s =
      Some (s6, sint code, Some (take ?m data @ drop ?m b))"
  proof -
    let ?t = "s4\<lparr>rxcnt_timeout := 0, rx_ctlpkts := rx_ctlpkts s4 + 1\<rparr>"
    have t0: "ioctl_resplen ?t = n" by (simp add: s4_def)
    have t: "(if len < ucast (ioctl_resplen ?t) then ?t\<lparr>ioctl_resplen := ucast len\<rparr> else ?t) = s5" 
      unfolding t0 cut [OF t0] s5_def ..
    have t': "\<not> dongle_trap_occured ?t" "ioctl_received s4 \<noteq> 0" using mp3(2) by (simp_all add: s4_def)
    have u: "unat (ioctl_resplen s5) = ?m" "ioctl_status s5 = code" using um by (simp_all add: s5_def s4_def)
    show ?thesis
      unfolding dhd_msgbuf_wait_ioctl_cmplt_def Let_def if_not_P [OF st(2)] if_P [OF nz] s1_def [symmetric] s2(1) bind.bind_lunit run
        if_not_P [OF t'(2)] if_not_P [OF t'(1)] t u option.case cp s6_def wait_out_def by simp
  qed
  moreover have "ctrl_ok dbg {} s6" "resp_cnt 0 s6" "ioctl_state s6 = 0" "ioctl_received s6 = 0"
    using q(2,3) st3(1) by (simp_all add: s6_def wait_out_def s5_def s4_def ctrl_ok_def resp_cnt_def)
  moreover have "(contents (pktid_map (mprot s)))(unat k := None) \<subseteq>\<^sub>m contents (pktid_map (mprot s6))"
    using q(4) ml(1) by (auto simp: s6_def wait_out_def s5_def s4_def mp3 map_le_def)
  ultimately show thesis using that by blast
qed

section \<open>Properties\<close>

text \<open>A buffer that does not name a variable the driver answers or changes itself.\<close>

definition not_local :: "u32 \<Rightarrow> bytes \<Rightarrow> bool" where
  "not_local cmd b \<longleftrightarrow> (cmd = 262 \<or> cmd = 263 \<longrightarrow> 14 \<le> length b \<and>
     (\<forall>v \<in> {''bcmerrorstr'', ''bcmerror'', ''pcie_bus_tput''}. strcmp_eq b (c_str v) = Some False))"

definition ioctl_send :: "bool \<Rightarrow> d2h_ctrl_msg list \<Rightarrow> int \<Rightarrow> u32 \<Rightarrow> bytes \<Rightarrow> dhd_msgbuf \<Rightarrow> (dhd_msgbuf \<times> int \<times> bytes option) option" where
  "ioctl_send dbg msgs ifidx cmd b s = do {
     (s, _) \<leftarrow> dhd_fillup_ioct_reqst dbg (of_nat (length b)) cmd (Some b) ifidx s;
     dhd_msgbuf_wait_ioctl_cmplt dbg msgs (of_nat (length b)) (Some b) s
   }"

lemma wme_dp_total:
  assumes "cmd = 263 \<longrightarrow> 14 \<le> length b"
  shows "\<exists>d. (if c \<and> cmd = 263 then intercept_wme_dp (int (length b)) (Some b) s else Some s) = Some (s\<lparr>wme_dp := d\<rparr>)"
proof (cases "c \<and> cmd = 263")
  case True
  then have l: "14 \<le> length b" using assms by simp
  have "\<exists>r. strcmp_eq b (c_str ''wme_dp'') = Some r" by (rule strcmp_eq_total) (use l in simp_all)
  then obtain r where r: "strcmp_eq b (c_str ''wme_dp'') = Some r" by blast
  have "s = s\<lparr>wme_dp := wme_dp s\<rparr>" by simp
  moreover have "\<exists>d. intercept_wme_dp (int (length b)) (Some b) s = Some (s\<lparr>wme_dp := d\<rparr>)" if r
    using r that l by (auto simp: intercept_wme_dp_def mem_copy_from_def)
  moreover have "intercept_wme_dp (int (length b)) (Some b) s = Some s" if "\<not> r"
    using r that by (simp add: intercept_wme_dp_def)
  ultimately have "\<exists>d. intercept_wme_dp (int (length b)) (Some b) s = Some (s\<lparr>wme_dp := d\<rparr>)" by metis
  then show ?thesis using True by simp
next
  case False
  have "s = s\<lparr>wme_dp := wme_dp s\<rparr>" by simp
  then show ?thesis using False by (simp only: if_False) blast
qed

text \<open>\<open>dhd_prot_ioctl\<close> around the request and the wait.\<close>

lemma prot_ioctl_sends:
  assumes up: "ioctl_ready s" and b: "length b \<le> 8192" "not_local (ioc_cmd ioc) b"
    and sent: "ioctl_send dbg msgs ifidx (ioc_cmd ioc) b s = Some (s1, ret, Some b')" and l: "length b' = length b"
  shows "\<exists>d e ioc'. dhd_prot_ioctl dbg msgs ifidx ioc (Some b) (int (length b)) s =
    Some (s1\<lparr>dongle_error := e, wme_dp := d\<rparr>, if 0 \<le> ret then 0 else ret, ioc', Some b')"
proof -
  have len: "ucast (of_nat (length b) :: u32) = (of_nat (length b) :: u16)"
    using b(1) by (simp add: word_unat_eq_iff unat_ucast16 unat_of_nat16 unat_of_nat32)
  have icp: "dhd_prot_wlioctl_intercept (ioc_cmd ioc) (Some b) s = Some (Some b)"
    using b(2) by (auto simp: dhd_prot_wlioctl_intercept_def not_local_def)
  have set: "dhd_msgbuf_set_ioctl dbg msgs ifidx (ioc_cmd ioc) (Some b) (of_int (int (length b))) s = Some (s1, ret, Some b')"
    using up sent by (simp add: dhd_msgbuf_set_ioctl_def ioctl_ready_def ioctl_send_def len)
  have query: "dhd_msgbuf_query_ioctl dbg msgs ifidx (ioc_cmd ioc) (Some b) (of_int (int (length b))) s = Some (s1, ret, Some b')"
    using b(2) sent by (auto simp: dhd_msgbuf_query_ioctl_def not_local_def ioctl_send_def len)
  let ?s = "if 0 \<le> ret then s1 else s1\<lparr>dongle_error := ret\<rparr>" and ?ret = "if 0 \<le> ret then 0 else ret"
  have "ioc_cmd ioc = 263 \<longrightarrow> 14 \<le> length b'" using b(2) l by (auto simp: not_local_def)
  from wme_dp_total [OF this, of "?ret = 0" ?s] obtain d
    where d: "(if ?ret = 0 \<and> ioc_cmd ioc = 263 then intercept_wme_dp (int (length b')) (Some b') ?s else Some ?s) = Some (?s\<lparr>wme_dp := d\<rparr>)" by blast
  have e: "?s\<lparr>wme_dp := d\<rparr> = s1\<lparr>dongle_error := if 0 \<le> ret then dongle_error s1 else ret, wme_dp := d\<rparr>" by simp
  have g: "\<not> (bus_down s \<or> hang_was_sent s)" "\<not> bus_suspend s" "int (length b) \<le> 8192" "\<not> 8192 < int (length b)"
    using up b(1) by (simp_all add: ioctl_ready_def)
  have eq: "(if 0 \<le> ret then (0, s1) else (ret, s1\<lparr>dongle_error := ret\<rparr>)) = (?ret, ?s)" by simp
  define ioc2 where "ioc2 = (if ioc_set ioc AND 1 \<noteq> 0 then ioc else if 0 < ret then ioc\<lparr>ioc_used := of_int ret\<rparr> else ioc)"
  have i2: "(if ioc_set ioc AND 1 \<noteq> 0
      then do { (s, ret, buf) \<leftarrow> dhd_msgbuf_set_ioctl dbg msgs ifidx (ioc_cmd ioc) (Some b) (of_int (int (length b))) s; Some (s, ret, ioc, buf) }
      else do { (s, ret, buf) \<leftarrow> dhd_msgbuf_query_ioctl dbg msgs ifidx (ioc_cmd ioc) (Some b) (of_int (int (length b))) s;
                Some (s, ret, if 0 < ret then ioc\<lparr>ioc_used := of_int ret\<rparr> else ioc, buf) }) = Some (s1, ret, ioc2, Some b')"
    unfolding set query ioc2_def by simp
  have c2: "ioc_cmd ioc2 = ioc_cmd ioc" by (simp add: ioc2_def)
  have "dhd_prot_ioctl dbg msgs ifidx ioc (Some b) (int (length b)) s = Some (?s\<lparr>wme_dp := d\<rparr>, ?ret, ioc2, Some b')"
    unfolding dhd_prot_ioctl_def if_not_P [OF g(1)] if_not_P [OF g(2)] if_not_P [OF g(4)] icp bind.bind_lunit i2 Let_def prod.case eq c2
      d [unfolded l] using g(3) by simp
  then show ?thesis unfolding e by blast
qed


text \<open>The demo state with one response buffer outstanding.\<close>

definition demo_ioctl :: "dhd_pktid_map \<Rightarrow> dhd_msgbuf" where
  "demo_ioctl m = (demo_msgbuf m)\<lparr>cur_ioctlresp_bufs_posted := 1\<rparr>"

lemma demo_ioctl_ok: "map_ok m \<Longrightarrow> ctrl_ok True {} (demo_ioctl m)" "ioctl_ready (demo_ioctl m)"
    "Suc (rcount (h2dring_ctrl_subn (demo_ioctl m))) < unat (mr_max_items (h2dring_ctrl_subn (demo_ioctl m)))"
  by (simp_all add: ctrl_ok_def ioctl_ready_def rcount_def demo_ioctl_def demo_msgbuf_def demo_prot_def demo_dev_def ring_ok_def dev_ok_def
      fetch_rd_def supply_ok_def)

lemma demo_ioctl_map:
  obtains m and k :: u32 where "map_ok m" and "contents m (unat k) = Some (ctrl_locker False 300 12288)" and "resp_cnt 0 (demo_ioctl m)"
proof -
  obtain m where m: "map_ok m" "free_ids m \<noteq> {}" "free_ids m = ids_of m" using init_map_ok by blast
  have e: "contents m = Map.empty" using dom_contents [of m] m(3) by (simp add: dom_eq_empty_conv)
  let ?lk = "ctrl_locker False 300 12288"
  have lk: "lk_state ?lk \<noteq> LOCKER_IS_FREE" "lk_pkttype ?lk = PKTTYPE_IOCTL_RX" by (simp_all add: ctrl_locker_def saved_def)
  obtain m' where m': "map_ok m'" "contents m' = (contents m)(unat (top_id m) \<mapsto> ?lk)"
    by (rule alloc_audit [OF m(1,2) lk(1)]) blast
  have "locker_ids PKTTYPE_IOCTL_RX m' = {unat (top_id m)}" unfolding locker_ids_def m'(2) e using lk(2) by auto
  then have "resp_cnt 0 (demo_ioctl m')" by (simp add: resp_cnt_def demo_ioctl_def demo_msgbuf_def demo_prot_def)
  then show thesis using that [OF m'(1), of "top_id m"] m'(2) by simp
qed


section \<open>A request that is never acknowledged\<close>

lemma outer_ready: "ioctl_ready (outer s) = ioctl_ready s"
  by (simp add: ioctl_ready_def outer_def)

lemma resp_posted_ready:
  assumes "resp_posted s s'"
  shows "ioctl_ready s' = ioctl_ready s"
proof -
  have "ioctl_ready (s'\<lparr>cur_ioctlresp_bufs_posted := cur_ioctlresp_bufs_posted s\<rparr>) = ioctl_ready s"
    using assms outer_ready by (metis resp_posted_def)
  then show ?thesis by (simp add: ioctl_ready_def)
qed

lemma late_acks: "ioctl_state s = 1 \<Longrightarrow> process_ctrl_msgs dbg (replicate n (Ioctl_Ack 0xFFFE)) s = Some s"
  by (induction n) (simp_all add: process_ctrl_msg_def ack_result)

definition ioctl_stuck :: "bool \<Rightarrow> u16 \<Rightarrow> dhd_msgbuf \<Rightarrow> bool" where
  "ioctl_stuck dbg xt s \<longleftrightarrow> ctrl_ok dbg {} s \<and> (\<exists>d. resp_cnt d s) \<and> ioctl_ready s \<and> ioctl_received s = 0 \<and> ioctl_state s = 1 \<and> ioctl_trans_id s = xt"

lemma wait_timeout:
  assumes ok: "ctrl_ok dbg {} s" and cnt: "resp_cnt d s" and up: "ioctl_ready s" and rc: "ioctl_received s = 0"
    and st: "ioctl_state s = 1 \<or> ioctl_state s = 3 \<and> n = 0"
  shows "\<exists>s'. dhd_msgbuf_wait_ioctl_cmplt dbg (replicate n (Ioctl_Ack 0xFFFE)) len buf s = Some (s', -110, buf) \<and> ioctl_stuck dbg (ioctl_trans_id s) s'"
proof -
  let ?c = "cur_ioctlresp_bufs_posted s"
  define s1 where "s1 = (if ?c \<noteq> 0 then s\<lparr>cur_ioctlresp_bufs_posted := ?c - 1\<rparr> else s)"
  have s1: "ctrl_ok dbg {} s1" "ioctl_ready s1" "ioctl_state s1 = ioctl_state s" "ioctl_received s1 = 0" "ioctl_trans_id s1 = ioctl_trans_id s"
    using ok up rc by (simp_all add: s1_def ctrl_ok_def ioctl_ready_def)
  have "resp_cnt (if ?c \<noteq> 0 then Suc d else d) s1"
    using cnt unat_dec [of ?c] by (auto simp: resp_cnt_def s1_def unat_gt_0)
  then obtain s2 e where s2: "dhd_msgbuf_rxbuf_post_ioctlresp_bufs dbg s1 = Some s2" "ctrl_ok dbg {} s2" "resp_cnt e s2" "resp_posted s1 s2"
    using post_resp_bufs_result [OF s1(1)] by metis
  note o = resp_posted_sel [OF s2(4), unfolded s1]
  have rdy: "ioctl_ready s2" using resp_posted_ready [OF s2(4)] s1(2) by simp
  have run: "process_ctrl_msgs dbg (replicate n (Ioctl_Ack 0xFFFE)) s2 = Some s2" using st o(1) late_acks [of s2] by auto
  let ?s = "fst (wait_out (-110) buf (s2\<lparr>rxcnt_timeout := rxcnt_timeout s2 + 1, rx_ctlerrs := rx_ctlerrs s2 + 1\<rparr>))"
  have nr: "\<not> dongle_reset s" using up by (simp add: ioctl_ready_def)
  have "dhd_msgbuf_wait_ioctl_cmplt dbg (replicate n (Ioctl_Ack 0xFFFE)) len buf s = Some (?s, -110, buf)"
    unfolding dhd_msgbuf_wait_ioctl_cmplt_def Let_def if_not_P [OF nr] s1_def [symmetric] s2(1) bind.bind_lunit run if_P [OF o(3)] wait_out_def by simp
  moreover have "ioctl_state ?s = 1" using st o(1) by (auto simp: wait_out_def)
  then have "ioctl_stuck dbg (ioctl_trans_id s) ?s"
    using s2(2,3) rdy o(2) by (auto simp: ioctl_stuck_def wait_out_def ctrl_ok_def resp_cnt_def ioctl_ready_def)
  ultimately show ?thesis by blast
qed

fun ioctl_calls :: "bool \<Rightarrow> (nat \<times> int \<times> wl_ioctl \<times> bytes) list \<Rightarrow> dhd_msgbuf \<Rightarrow> (dhd_msgbuf \<times> int list) option" where
  "ioctl_calls dbg [] s = Some (s, [])"
| "ioctl_calls dbg ((n, ifidx, ioc, b) # cs) s = do {
     (s, ret, _, _) \<leftarrow> dhd_prot_ioctl dbg (replicate n (Ioctl_Ack 0xFFFE)) ifidx ioc (Some b) (int (length b)) s;
     (s, rets) \<leftarrow> ioctl_calls dbg cs s;
     Some (s, ret # rets)
   }"

definition call_ok :: "nat \<times> int \<times> wl_ioctl \<times> bytes \<Rightarrow> bool" where
  "call_ok c = (case c of (n, ifidx, ioc, b) \<Rightarrow> length b \<le> 8192 \<and> not_local (ioc_cmd ioc) b)"

lemma stuck_upd: "ioctl_stuck dbg xt s \<Longrightarrow> ioctl_stuck dbg xt (s\<lparr>dongle_error := e, wme_dp := d\<rparr>)"
  by (simp add: ioctl_stuck_def ctrl_ok_def resp_cnt_def ioctl_ready_def)

lemma stuck_call:
  assumes st: "ioctl_stuck dbg xt s" and c: "call_ok (n, ifidx, ioc, b)"
  shows "\<exists>s' ioc'. dhd_prot_ioctl dbg (replicate n (Ioctl_Ack 0xFFFE)) ifidx ioc (Some b) (int (length b)) s = Some (s', -110, ioc', Some b) \<and>
     ioctl_stuck dbg xt s'"
proof -
  obtain d where s: "ctrl_ok dbg {} s" "resp_cnt d s" "ioctl_ready s" "ioctl_received s = 0" "ioctl_state s = 1" "ioctl_trans_id s = xt"
    using st by (auto simp: ioctl_stuck_def)
  have b: "length b \<le> 8192" "not_local (ioc_cmd ioc) b" using c by (simp_all add: call_ok_def)
  obtain s1 where w: "dhd_msgbuf_wait_ioctl_cmplt dbg (replicate n (Ioctl_Ack 0xFFFE)) (of_nat (length b)) (Some b) s = Some (s1, -110, Some b)"
      "ioctl_stuck dbg xt s1" using wait_timeout [OF s(1-4), of n] s(5,6) by blast
  have "ioctl_send dbg (replicate n (Ioctl_Ack 0xFFFE)) ifidx (ioc_cmd ioc) b s = Some (s1, -110, Some b)"
    using w(1) s(5) by (simp add: ioctl_send_def dhd_fillup_ioct_reqst_def Let_def)
  from prot_ioctl_sends [OF s(3) b this refl] stuck_upd [OF w(2)] show ?thesis by fastforce
qed

lemma stuck_calls:
  "ioctl_stuck dbg xt s \<Longrightarrow> list_all call_ok cs \<Longrightarrow> \<exists>s'. ioctl_calls dbg cs s = Some (s', replicate (length cs) (-110)) \<and> ioctl_stuck dbg xt s'"
proof (induction cs arbitrary: s)
  case (Cons c cs)
  obtain n ifidx ioc b where c: "c = (n, ifidx, ioc, b)" by (cases c) auto
  have ck: "call_ok (n, ifidx, ioc, b)" "list_all call_ok cs" using Cons.prems(2) by (simp_all add: c)
  obtain s1 ioc' where s1: "dhd_prot_ioctl dbg (replicate n (Ioctl_Ack 0xFFFE)) ifidx ioc (Some b) (int (length b)) s = Some (s1, -110, ioc', Some b)"
      "ioctl_stuck dbg xt s1"
    using stuck_call [OF Cons.prems(1) ck(1)] by blast
  from Cons.IH [OF s1(2) ck(2)] obtain s' where "ioctl_calls dbg cs s1 = Some (s', replicate (length cs) (-110))" "ioctl_stuck dbg xt s'" by blast
  then show ?case using s1(1) by (intro exI [of _ s']) (simp add: c)
qed simp

text \<open>
  A lost acknowledgement blocks the protocol. When a request is sent and the device stays silent
  until the wait times out, the request counts as unacknowledged for ever: every later ioctl, whatever
  late acknowledgements arrive, times out too, and no other request is written to the ring (the
  transaction number advances once, for the first request).
\<close>

theorem ioctl_lost_ack_blocks:
  assumes ok: "ctrl_ok dbg {} s" and cnt: "resp_cnt d s" and idle: "ioctl_state s = 0" "ioctl_received s = 0" and up: "ioctl_ready s"
    and room: "Suc (rcount (h2dring_ctrl_subn s)) < unat (mr_max_items (h2dring_ctrl_subn s))"
    and calls: "call_ok (0, ifidx, ioc, b)" "list_all call_ok cs"
  shows "\<exists>s'. ioctl_calls dbg ((0, ifidx, ioc, b) # cs) s = Some (s', replicate (Suc (length cs)) (-110)) \<and>
     ioctl_state s' = 1 \<and> ioctl_trans_id s' = ioctl_trans_id s + 1"
proof -
  have b: "length b \<le> 8192" "not_local (ioc_cmd ioc) b" using calls(1) by (simp_all add: call_ok_def)
  have bl: "length b \<le> length (ioctbuf s)" "length b < 2 ^ 16" "length (b @ drop (length b) (ioctbuf s)) = length (ioctbuf s)"
    using up b(1) by (simp_all add: ioctl_ready_def)
  obtain rd dv where f: "dhd_fillup_ioct_reqst dbg (of_nat (length b)) (ioc_cmd ioc) (Some b) ifidx s =
      Some (requested ((h2dring_ctrl_subn s)\<lparr>mr_rd := rd\<rparr>) (ioc_cmd ioc) ifidx b dv s, 0)"
      "ctrl_ok dbg {} (requested ((h2dring_ctrl_subn s)\<lparr>mr_rd := rd\<rparr>) (ioc_cmd ioc) ifidx b dv s)"
    by (rule fillup_requested [OF ok idle(1) room bl(1,2)])
  define s1 where "s1 = requested ((h2dring_ctrl_subn s)\<lparr>mr_rd := rd\<rparr>) (ioc_cmd ioc) ifidx b dv s"
  have s1: "resp_cnt d s1" "ioctl_ready s1" "ioctl_received s1 = 0" "ioctl_state s1 = 3" "ioctl_trans_id s1 = ioctl_trans_id s + 1"
    using cnt up idle(2) bl(3) by (simp_all add: resp_cnt_def ioctl_ready_def s1_def requested_def ctrl_sent_def)
  have "ioctl_state s1 = 1 \<or> ioctl_state s1 = 3 \<and> (0::nat) = 0" using s1(4) by simp
  from wait_timeout [OF f(2) [folded s1_def] s1(1-3) this] obtain s2
    where w: "dhd_msgbuf_wait_ioctl_cmplt dbg [] (of_nat (length b)) (Some b) s1 = Some (s2, -110, Some b)" "ioctl_stuck dbg (ioctl_trans_id s + 1) s2"
    unfolding s1(5) replicate_0 by blast
  have "ioctl_send dbg [] ifidx (ioc_cmd ioc) b s = Some (s2, -110, Some b)" using f(1) w(1) by (simp add: ioctl_send_def s1_def [symmetric])
  from prot_ioctl_sends [OF up b this refl] obtain e dp ioc'
    where r: "dhd_prot_ioctl dbg [] ifidx ioc (Some b) (int (length b)) s = Some (s2\<lparr>dongle_error := e, wme_dp := dp\<rparr>, -110, ioc', Some b)" by auto
  from stuck_calls [OF stuck_upd [OF w(2)] calls(2)] obtain s'
    where "ioctl_calls dbg cs (s2\<lparr>dongle_error := e, wme_dp := dp\<rparr>) = Some (s', replicate (length cs) (-110))" "ioctl_stuck dbg (ioctl_trans_id s + 1) s'" by blast
  then show ?thesis using r by (intro exI [of _ s']) (simp add: ioctl_stuck_def)
qed

theorem ioctl_lost_ack_blocks_witness:
  "\<exists>m s'. ioctl_calls True [(0, 0, \<lparr>ioc_cmd = 2, ioc_set = 1, ioc_used = 0\<rparr>, [1, 2]), (1, 0, \<lparr>ioc_cmd = 3, ioc_set = 0, ioc_used = 0\<rparr>, [5])] (demo_ioctl m) =
     Some (s', [-110, -110]) \<and> ioctl_state s' = 1 \<and> ioctl_trans_id s' = 1"
proof -
  obtain m and k :: u32 where m: "map_ok m" "contents m (unat k) = Some (ctrl_locker False 300 12288)" "resp_cnt 0 (demo_ioctl m)" by (rule demo_ioctl_map)
  have v: "ioctl_state (demo_ioctl m) = 0" "ioctl_received (demo_ioctl m) = 0" "ioctl_trans_id (demo_ioctl m) = 0"
    by (simp_all add: demo_ioctl_def demo_msgbuf_def)
  let ?c = "(0, 0, \<lparr>ioc_cmd = 2, ioc_set = 1, ioc_used = 0\<rparr>, [1, 2])" and ?cs = "[(1, 0, \<lparr>ioc_cmd = 3, ioc_set = 0, ioc_used = 0\<rparr>, [5])]"
  have c: "call_ok ?c" "list_all call_ok ?cs" by (simp_all add: call_ok_def not_local_def)
  from ioctl_lost_ack_blocks [OF demo_ioctl_ok(1) [OF m(1)] m(3) v(1,2) demo_ioctl_ok(2,3) c] v(3) show ?thesis
    by (intro exI [of _ m]) (simp del: ioctl_calls.simps)
qed

end
