(* ===== verification/Spec2Isabelle.thy ===== *)
theory Spec2Isabelle
  imports Bcm_Crc Bcm_Num Bcm_Tlv Chanspec_Props Pktq_Props Mwbmap_Rep Flow_Ring_Props Xtlv_Append Msgbuf_Ioctl_Props
begin

text \<open>
  Verification of the data-path core of the Broadcom DHD host driver (\<open>src/bcmdhd/dhd/src\<close>, below \<open>S\<close>).

  The program. The driver moves Ethernet packets between the Linux network stack and a WiFi chip. A
  packet to be sent is classified into a flow (interface, destination, priority), waits on the backup
  queue of its flow ring and is handed to the message-buffer protocol, which gives it a packet id,
  describes it in a message on a ring shared with the device, and rings a doorbell. The device
  answers with completion messages that carry the id. Empty receive buffers travel the same way.
  Under this lie id allocators, packet queues, linked lists and record buffers.

  Theories, sources and correspondence. Every definition carries the name of the C function, macro or
  type it translates; a helper stands for a loop or a block of one function.
  \<^item> \<open>DHD_Prelude\<close>: machine integers, result codes, array access, \<open>ASSERT\<close>. \<open>Pkt_Store\<close>: packets as
    addresses in a store of link fields (\<open>PKTLINK\<close>, \<open>PKTFREE\<close>). \<open>Byte_Buf\<close>: memory blocks as byte lists,
    the little-endian accesses of \<open>S/include/bcmendian.h\<close>.
  \<^item> \<open>Pktq\<close>: \<open>S/shared/hnd_pktq.c\<close>, the queue with up to 16 precedences. \<open>Prio_Queue\<close> is its contract, a
    list of lists; \<open>Pktq_Refine\<close> shows that the linked representation implements lists; \<open>Pktq_Props\<close>
    interprets the contract and holds the properties.
  \<^item> \<open>Id_Alloc\<close>: the contract of an id allocator. \<open>Id16_Map\<close>: \<open>id16_map_*\<close> of \<open>S/shared/bcmutils.c\<close>.
    \<open>Mwbmap\<close>, \<open>Mwbmap_Rep\<close>: the two-level bitmap \<open>bcm_mwbmap_*\<close>. Both interpret the contract.
  \<^item> \<open>Dll\<close>: the double linked lists of \<open>S/include/bcmutils.h\<close> on an explicit heap of nodes.
  \<^item> \<open>Flow_Queue\<close>: the backup queues. \<open>Flow_Ring\<close>: \<open>S/dhd/sys/dhd_flowring.c\<close> and the flow-ring handlers of
    \<open>dhd_pcie.c\<close>; the state record holds the table of rings, the hash lists of each interface, the id
    allocator, the packet store and the log of calls into the protocol. \<open>Flow_Ring_Inv\<close> and
    \<open>Flow_Ring_Life\<close>: the invariant and that every operation keeps it; \<open>Flow_Ring_Props\<close>: the steps of
    the driver as an inductive relation and the properties.
  \<^item> \<open>Pktid_Map\<close>, \<open>Pktid_Props\<close>: the packet-id map of \<open>S/dhd/sys/dhd_msgbuf.c\<close> with its audit bitmap.
  \<^item> \<open>Msgbuf_Ring\<close>, \<open>Msgbuf_Ring_Props\<close>: the message rings, the index arrays shared with the device, the
    wait for a transfer and the dispatch loop. \<open>Msgbuf_Rx\<close>, \<open>Msgbuf_Rx_Props\<close>: posting of receive buffers,
    receive and transmit completions. \<open>Msgbuf_Tx\<close>, \<open>Msgbuf_Tx_Props\<close>: posting of packets on flow rings with
    batched announcing; its record \<open>dhd_msgbuf\<close> wraps the receive part \<open>dhd_prot\<close> of the protocol state.
    \<open>Msgbuf_Ctrl\<close>, \<open>Msgbuf_Ctrl_Props\<close>: the control ring, buffers for events and ioctl responses, events,
    flow-ring requests. \<open>Msgbuf_Ioctl\<close>, \<open>Msgbuf_Ioctl_Props\<close>: ioctl requests and the wait for the answer.
  \<^item> \<open>C_String\<close>: C strings in byte buffers and the error strings of \<open>S/shared/bcmutils.c\<close>. \<open>Bcm_Str\<close>: character
    classes, numbers, tokens, comparison, Ethernet and IPv4 addresses as text, from the same file.
  \<^item> \<open>Bcm_Crc\<close>, \<open>Bcm_Num\<close>, \<open>Bcm_Tlv\<close>: cyclic redundancy checks, 64-bit numbers in halves with the Internet
    checksum, and information elements, all of \<open>S/shared/bcmutils.c\<close>.
  \<^item> \<open>Chanspec\<close>, \<open>Chanspec_Props\<close>: \<open>S/shared/bcmwifi/src/bcmwifi_channels.c\<close>, channel specifications, their text
    form and their conversions; the flag \<open>ulb\<close> stands for the build option \<open>WL11ULB\<close>.
  \<^item> \<open>Xtlv\<close>, \<open>Xtlv_Props\<close>, \<open>Xtlv_Append\<close>: \<open>S/shared/bcmxtlv.c\<close>, records with 16-bit id and length.

  Conventions. \<open>None\<close> is an execution without outcome: a NULL or out-of-range access, use of a freed
  packet, or a violated \<open>ASSERT\<close>. Most theories treat every \<open>ASSERT\<close> so; \<open>dhd_msgbuf.c\<close> takes ids and
  indices from the device, so there a flag \<open>dbg\<close> says whether \<open>ASSERT\<close> stops the code, and the
  statements behind a violated one are modelled too. Error returns are values. 8-, 16- and 32-bit
  fields are words and wrap; C's promotion to \<open>int\<close> is written out as \<open>uint\<close> or \<open>sint\<close> where it
  matters. Locks are not modelled: each operation is one step. Memory and packets that the kernel
  hands out, and what the device writes, are inputs of the definitions.

  What is shown. Data structures: every operation of the packet queue, the lists and the rings
  implements an operation on lists, in first-in first-out order; the id allocators never hand out an
  id twice and lose none. Flow rings: an invariant of all reachable states (ids, hash entries, rings
  and queues agree), all handlers return, a flow keeps its ring and its order, deletion and tear-down
  free every packet. Message buffers: a message ring is a bounded queue and is read inside its bounds
  for admissible device indices; waiting for the device ends; what is saved under a packet id comes
  back; posting and completing receive buffers keeps the protocol state well formed and loses no
  packet; packets posted for transmission are announced in order and, completed in any order, freed
  once; events and ioctls return what the device sent, with the counts of posted buffers exact. Records:
  packing and unpacking are inverse, parsing stays inside the buffer, searches find the first match. Utilities:
  the table-driven checks are polynomial division, the arithmetic in halves is arithmetic on naturals, texts of
  addresses and channel specifications are read back as what was printed, constructed channel specifications are
  well formed and narrowing them keeps the control channel. Further theorems state, with the inputs, where the code does something else than it means to.

  Loops and bounds. Loops over arrays and queues are structural recursion on the rounds left; the
  drain loops of the queues terminate by the queue length. The wait for a message runs 512 rounds
  (\<open>PCIE_D2H_SYNC_WAIT_TRIES\<close>), the fill loop of receive buffers 256 (\<open>cnt\<close> of the code), the dispatch
  loop at most one round per byte of the block, since each consumes at least one. The record parser
  recurses on the remaining length, which every record shortens by at least its header; so do the searches for
  information elements. The 64-bit division terminates by the dividend, which every round makes smaller. Text
  is parsed by recursion on its bytes; the token search has one round per byte of the block.

  Not modelled: Linux interfaces (sk_buff, netdev, work queues, cfg80211), register access to the chip,
  USB and SDIO transport, command-line tools, firmware behaviour, vendored code (zlib, gator) and
  generated tables: their behaviour is outside the sources or is input and output. Left for later, in
  this order: the packet pool (\<open>hnd_pktpool.c\<close>), credits (\<open>dhd_wlfc.c\<close>), the DHCP server.
\<close>

end
